(* ===== verification/Blop_Base.thy ===== *)
theory Blop_Base
  imports Main "HOL-Library.Word" "HOL-Library.List_Lexorder" "HOL-Library.Product_Lexorder"
begin

section \<open>Prelude: bytes, fixed-width integers, results and byte cursors\<close>

text \<open>
  What the components share: the machine types of the code, its two error enumerations
  (\<^verbatim>\<open>storage::Error\<close> and \<^verbatim>\<open>vm::Error\<close>), results as sums, the little- and big-endian
  integer codecs, the byte cursor (\<^verbatim>\<open>take\<close>) every decoder is written with, and the
  UTF-8 validity test of the standard library.

  A panic of the code (\<^verbatim>\<open>unreachable!\<close>, \<^verbatim>\<open>expect\<close>, an index out of range, a debug
  overflow) is the value \<open>Panic\<close> of \<open>vm_error\<close> (\<open>SPanic\<close> of \<open>storage_error\<close> in the
  storage layer), so that its absence is a theorem.
  \<^verbatim>\<open>usize\<close> is 64 bits wide; it is a \<open>nat\<close> with the overflow of \<^verbatim>\<open>checked_add\<close> and
  \<^verbatim>\<open>checked_mul\<close> written out.
\<close>

named_theorems codec_simps \<open>lengths and inverses of the integer codecs\<close>
named_theorems codec_eval \<open>evaluation of the integer codecs on literals\<close>
named_theorems result_simps \<open>case analysis of results and cursors\<close>

type_synonym byte = "8 word"
type_synonym bytes = "8 word list"
type_synonym u16 = "16 word"
type_synonym u32 = "32 word"
type_synonym u64 = "64 word"

subsection \<open>Errors\<close>

datatype storage_error =
    Io string
  | Corrupt string
  | InvalidInput string
  | Storage_Unsupported string u16
  | Locked
  | AttachRequired
  | NeedsRecovery
  | Exhausted
  | SPanic

datatype vm_error =
    Invalid string
  | Unsupported string u16
  | Storage storage_error
  | Panic

subsection \<open>Results\<close>

text \<open>\<open>rbind\<close> is the \<^verbatim>\<open>?\<close> operator: an error leaves the function at once.\<close>

fun rbind :: "'e + 'a \<Rightarrow> ('a \<Rightarrow> 'e + 'b) \<Rightarrow> 'e + 'b" where
  "rbind (Inl e) f = Inl e"
| "rbind (Inr x) f = f x"

definition ok_or :: "'e \<Rightarrow> 'a option \<Rightarrow> 'e + 'a" where
  "ok_or e x = (case x of None \<Rightarrow> Inl e | Some y \<Rightarrow> Inr y)"

definition map_err :: "('e \<Rightarrow> 'f) \<Rightarrow> 'e + 'a \<Rightarrow> 'f + 'a" where
  "map_err f r = (case r of Inl e \<Rightarrow> Inl (f e) | Inr x \<Rightarrow> Inr x)"

definition is_ok :: "'e + 'a \<Rightarrow> bool" where
  "is_ok r \<longleftrightarrow> (case r of Inl _ \<Rightarrow> False | Inr _ \<Rightarrow> True)"

text \<open>A \<^verbatim>\<open>for\<close> loop whose body may fail, and the collecting \<^verbatim>\<open>collect::<Result<_>>\<close>.\<close>

fun rfold :: "('a \<Rightarrow> 's \<Rightarrow> 'e + 's) \<Rightarrow> 'a list \<Rightarrow> 's \<Rightarrow> 'e + 's" where
  "rfold f [] s = Inr s"
| "rfold f (x # xs) s = rbind (f x s) (rfold f xs)"

fun rmap :: "('a \<Rightarrow> 'e + 'b) \<Rightarrow> 'a list \<Rightarrow> 'e + 'b list" where
  "rmap f [] = Inr []"
| "rmap f (x # xs) = rbind (f x) (\<lambda>y. rbind (rmap f xs) (\<lambda>ys. Inr (y # ys)))"

lemma rbind_cong [fundef_cong]:
  "r = r' \<Longrightarrow> (\<And>x. r' = Inr x \<Longrightarrow> f x = g x) \<Longrightarrow> rbind r f = rbind r' g"
  by (cases r') auto

lemma rbind_eq_Inr [result_simps]:
  "rbind r f = Inr y \<longleftrightarrow> (\<exists>x. r = Inr x \<and> f x = Inr y)"
  by (cases r) auto

lemma rbind_eq_Inl [result_simps]:
  "rbind r f = Inl e \<longleftrightarrow> r = Inl e \<or> (\<exists>x. r = Inr x \<and> f x = Inl e)"
  by (cases r) auto

lemma rbind_assoc: "rbind (rbind r f) g = rbind r (\<lambda>x. rbind (f x) g)"
  by (cases r) auto

lemma ok_or_simps [simp]: "ok_or e None = Inl e" "ok_or e (Some x) = Inr x"
  by (simp_all add: ok_or_def)

lemma ok_or_eq_Inr [result_simps]: "ok_or e x = Inr y \<longleftrightarrow> x = Some y"
  by (cases x) auto

lemma ok_or_eq_Inl [result_simps]: "ok_or e x = Inl d \<longleftrightarrow> x = None \<and> d = e"
  by (cases x) auto

lemma map_err_simps [simp]: "map_err f (Inl e) = Inl (f e)" "map_err f (Inr x) = Inr x"
  by (simp_all add: map_err_def)

lemma map_err_eq_Inr [result_simps]: "map_err f r = Inr y \<longleftrightarrow> r = Inr y"
  by (cases r) auto

lemma map_err_eq_Inl [result_simps]: "map_err f r = Inl d \<longleftrightarrow> (\<exists>e. r = Inl e \<and> d = f e)"
  by (cases r) auto

lemma is_ok_simps [simp]: "\<not> is_ok (Inl e)" "is_ok (Inr x)"
  by (simp_all add: is_ok_def)

lemma is_ok_iff: "is_ok r \<longleftrightarrow> (\<exists>x. r = Inr x)"
  by (cases r) auto

lemma rmap_eq_Inr: "rmap f xs = Inr ys \<longleftrightarrow> list_all2 (\<lambda>x y. f x = Inr y) xs ys"
  by (induction xs arbitrary: ys) (auto simp: result_simps list_all2_Cons1)

lemma rmap_length: "rmap f xs = Inr ys \<Longrightarrow> length ys = length xs"
  by (simp add: rmap_eq_Inr list_all2_lengthD)

lemma rfold_append: "rfold f (xs @ ys) s = rbind (rfold f xs s) (rfold f ys)"
proof (induction xs arbitrary: s)
  case (Cons x xs)
  then have "rfold f (xs @ ys) = (\<lambda>s. rbind (rfold f xs s) (rfold f ys))"
    by blast
  then show ?case
    by (simp add: rbind_assoc)
qed simp

text \<open>Lists in strictly ascending order, as \<^verbatim>\<open>windows(2)\<close> checks them.\<close>

fun ascending :: "'a :: linorder list \<Rightarrow> bool" where
  "ascending [] \<longleftrightarrow> True"
| "ascending [x] \<longleftrightarrow> True"
| "ascending (x # y # zs) \<longleftrightarrow> x < y \<and> ascending (y # zs)"

lemma ascending_iff: "ascending xs \<longleftrightarrow> sorted_wrt (<) xs"
  by (induction xs rule: ascending.induct) (auto intro: less_trans)

lemma ascending_snoc: "ascending (xs @ [x]) \<longleftrightarrow> ascending xs \<and> (xs = [] \<or> last xs < x)"
proof (cases xs rule: rev_cases)
  case (snoc ys y)
  then show ?thesis
    by (auto simp: ascending_iff sorted_wrt_append)
qed simp

lemma list_all2_cong' [fundef_cong]:
  "xs = xs' \<Longrightarrow> ys = ys' \<Longrightarrow> (\<And>x y. x \<in> set xs' \<Longrightarrow> y \<in> set ys' \<Longrightarrow> P x y = Q x y)
   \<Longrightarrow> list_all2 P xs ys = list_all2 Q xs' ys'"
  by (auto simp: list_all2_conv_all_nth)

lemma list_all2_imp_list_all:
  "list_all2 P xs ys \<Longrightarrow> (\<And>x y. x \<in> set xs \<Longrightarrow> y \<in> set ys \<Longrightarrow> P x y \<Longrightarrow> Q y) \<Longrightarrow> list_all Q ys"
  by (induction rule: list_all2_induct) auto

subsection \<open>\<^verbatim>\<open>usize\<close> arithmetic\<close>

definition checked_add :: "nat \<Rightarrow> nat \<Rightarrow> nat option" where
  "checked_add a b = (if a + b < 2 ^ 64 then Some (a + b) else None)"

definition checked_mul :: "nat \<Rightarrow> nat \<Rightarrow> nat option" where
  "checked_mul a b = (if a * b < 2 ^ 64 then Some (a * b) else None)"

lemma checked_add_Some [simp]: "a + b < 2 ^ 64 \<Longrightarrow> checked_add a b = Some (a + b)"
  by (simp add: checked_add_def)

lemma checked_mul_Some [simp]: "a * b < 2 ^ 64 \<Longrightarrow> checked_mul a b = Some (a * b)"
  by (simp add: checked_mul_def)

lemma checked_add_eq [result_simps]: "checked_add a b = Some c \<longleftrightarrow> c = a + b \<and> a + b < 2 ^ 64"
  by (auto simp: checked_add_def)

lemma checked_mul_eq [result_simps]: "checked_mul a b = Some c \<longleftrightarrow> c = a * b \<and> a * b < 2 ^ 64"
  by (auto simp: checked_mul_def)

subsection \<open>Integer codecs\<close>

text \<open>
  \<open>to_le n x\<close> are the \<open>n\<close> bytes of \<^verbatim>\<open>to_le_bytes\<close>, least significant first;
  \<open>from_le\<close> reads them back. Big endian is the reverse.
\<close>

fun to_le :: "nat \<Rightarrow> nat \<Rightarrow> bytes" where
  "to_le 0 x = []"
| "to_le (Suc n) x = of_nat (x mod 256) # to_le n (x div 256)"

fun from_le :: "bytes \<Rightarrow> nat" where
  "from_le [] = 0"
| "from_le (b # bs) = unat b + 256 * from_le bs"

definition to_be :: "nat \<Rightarrow> nat \<Rightarrow> bytes" where
  "to_be n x = rev (to_le n x)"

definition from_be :: "bytes \<Rightarrow> nat" where
  "from_be bs = from_le (rev bs)"

lemma unat_byte_less: "unat (b :: byte) < 256"
  using unsigned_less[of b, where 'a = nat] by simp

lemma length_to_le [simp, codec_simps]: "length (to_le n x) = n"
  by (induction n arbitrary: x) auto

lemma length_to_be [simp, codec_simps]: "length (to_be n x) = n"
  by (simp add: to_be_def)

lemma from_le_to_le [codec_simps]: "from_le (to_le n x) = x mod 256 ^ n"
proof (induction n arbitrary: x)
  case 0
  then show ?case by simp
next
  case (Suc n)
  have "unat (of_nat (x mod 256) :: byte) = x mod 256"
    by (simp add: unat_of_nat)
  then show ?case
    by (simp add: Suc mod_mult2_eq)
qed

lemma to_le_from_le [simp, codec_simps]: "to_le (length bs) (from_le bs) = bs"
proof (induction bs)
  case Nil
  then show ?case by simp
next
  case (Cons b bs)
  have b: "unat b < 256"
    using unat_byte_less[of b] by simp
  then have "(unat b + 256 * from_le bs) mod 256 = unat b"
    and "(unat b + 256 * from_le bs) div 256 = from_le bs"
    by simp_all
  with Cons show ?case
    by simp
qed

lemma to_le_from_le' [codec_simps]: "length bs = n \<Longrightarrow> to_le n (from_le bs) = bs"
  using to_le_from_le by blast

lemma from_le_less: "from_le bs < 256 ^ length bs"
proof (induction bs)
  case Nil
  then show ?case by simp
next
  case (Cons b bs)
  have "unat b \<le> 255"
    using unat_byte_less[of b] by simp
  with Cons show ?case
    by simp
qed

lemma from_le_less': "length bs = n \<Longrightarrow> from_le bs < 256 ^ n"
  using from_le_less by blast

lemma from_be_less': "length bs = n \<Longrightarrow> from_be bs < 256 ^ n"
  using from_le_less[of "rev bs"] by (simp add: from_be_def)

lemma from_be_to_be [codec_simps]: "from_be (to_be n x) = x mod 256 ^ n"
  by (simp add: from_be_def to_be_def from_le_to_le)

lemma to_be_from_be [codec_simps]: "length bs = n \<Longrightarrow> to_be n (from_be bs) = bs"
  by (simp add: from_be_def to_be_def to_le_from_le')

text \<open>Big-endian bytes compare like the numbers they encode.\<close>

lemma lex_append_same_length:
  fixes xs ys us vs :: "'a :: linorder list"
  assumes "length xs = length ys"
  shows "xs @ us < ys @ vs \<longleftrightarrow> xs < ys \<or> (xs = ys \<and> us < vs)"
  using assms by (induction xs ys rule: list_induct2) auto

lemma to_be_Suc: "to_be (Suc n) x = to_be n (x div 256) @ [of_nat (x mod 256)]"
  by (simp add: to_be_def)

lemma to_be_eq_iff: "x < 256 ^ n \<Longrightarrow> y < 256 ^ n \<Longrightarrow> to_be n x = to_be n y \<longleftrightarrow> x = y"
  by (metis from_be_to_be mod_less)

lemma to_le_eq_iff: "x < 256 ^ n \<Longrightarrow> y < 256 ^ n \<Longrightarrow> to_le n x = to_le n y \<longleftrightarrow> x = y"
  by (metis from_le_to_le mod_less)

lemma to_be_less_iff:
  "x < 256 ^ n \<Longrightarrow> y < 256 ^ n \<Longrightarrow> to_be n x < to_be n y \<longleftrightarrow> x < y"
proof (induction n arbitrary: x y)
  case 0
  then show ?case by (simp add: to_be_def)
next
  case (Suc n)
  have q: "x div 256 < 256 ^ n" "y div 256 < 256 ^ n"
    using Suc.prems by (auto simp: less_mult_imp_div_less mult.commute)
  have r: "(of_nat (x mod 256) :: byte) < of_nat (y mod 256) \<longleftrightarrow> x mod 256 < y mod 256"
    by (simp add: word_less_nat_alt unat_of_nat)
  have split: "x < y \<longleftrightarrow> x div 256 < y div 256 \<or> (x div 256 = y div 256 \<and> x mod 256 < y mod 256)"
  proof -
    have "x = 256 * (x div 256) + x mod 256" "y = 256 * (y div 256) + y mod 256" by simp_all
    moreover have "x mod 256 < 256" "y mod 256 < 256" by simp_all
    ultimately show ?thesis by linarith
  qed
  show ?case
    unfolding to_be_Suc split
    by (subst lex_append_same_length) (simp_all add: Suc.IH[OF q] to_be_eq_iff[OF q] r)
qed

text \<open>The codecs at the widths of the code.\<close>

definition u16_le :: "u16 \<Rightarrow> bytes" where "u16_le x = to_le 2 (unat x)"
definition u32_le :: "u32 \<Rightarrow> bytes" where "u32_le x = to_le 4 (unat x)"
definition u64_le :: "u64 \<Rightarrow> bytes" where "u64_le x = to_le 8 (unat x)"
definition u64_be :: "u64 \<Rightarrow> bytes" where "u64_be x = to_be 8 (unat x)"

definition u16_of_le :: "bytes \<Rightarrow> u16" where "u16_of_le bs = of_nat (from_le bs)"
definition u32_of_le :: "bytes \<Rightarrow> u32" where "u32_of_le bs = of_nat (from_le bs)"
definition u64_of_le :: "bytes \<Rightarrow> u64" where "u64_of_le bs = of_nat (from_le bs)"
definition u64_of_be :: "bytes \<Rightarrow> u64" where "u64_of_be bs = of_nat (from_be bs)"

text \<open>Evaluation on literals, for concrete inputs.\<close>

lemma to_le_numeral [codec_eval]:
  "to_le (numeral n) x = of_nat (x mod 256) # to_le (pred_numeral n) (x div 256)"
  by (metis numeral_eq_Suc to_le.simps(2))

lemmas [codec_eval] = u16_le_def u32_le_def u64_le_def u64_be_def to_be_def

lemma unat_u16_less: "unat (x :: u16) < 65536"
  using unsigned_less[of x, where 'a = nat] by simp

lemma unat_u32_less: "unat (x :: u32) < 4294967296"
  using unsigned_less[of x, where 'a = nat] by simp

lemma unat_u64_less: "unat (x :: u64) < 18446744073709551616"
  using unsigned_less[of x, where 'a = nat] by simp

lemma length_uint_codecs [simp, codec_simps]:
  "length (u16_le a) = 2" "length (u32_le b) = 4" "length (u64_le c) = 8" "length (u64_be c) = 8"
  by (simp_all add: u16_le_def u32_le_def u64_le_def u64_be_def)

lemma uint_codec_inverse [simp, codec_simps]:
  "u16_of_le (u16_le a) = a" "u32_of_le (u32_le b) = b"
  "u64_of_le (u64_le c) = c" "u64_of_be (u64_be c) = c"
  using unat_u16_less[of a] unat_u32_less[of b] unat_u64_less[of c]
  by (simp_all add: u16_le_def u32_le_def u64_le_def u64_be_def u16_of_le_def u32_of_le_def
      u64_of_le_def u64_of_be_def from_le_to_le from_be_to_be)

lemma uint_codec_canonical [codec_simps]:
  "length bs = 2 \<Longrightarrow> u16_le (u16_of_le bs) = bs"
  "length bs = 4 \<Longrightarrow> u32_le (u32_of_le bs) = bs"
  "length bs = 8 \<Longrightarrow> u64_le (u64_of_le bs) = bs"
  "length bs = 8 \<Longrightarrow> u64_be (u64_of_be bs) = bs"
  using from_le_less[of bs] from_be_less'[of bs]
  by (simp_all add: u16_le_def u32_le_def u64_le_def u64_be_def u16_of_le_def u32_of_le_def
      u64_of_le_def u64_of_be_def unat_of_nat to_le_from_le' to_be_from_be)

lemma unat_of_le: "length bs = 2 \<Longrightarrow> unat (u16_of_le bs) = from_le bs"
  "length bs = 4 \<Longrightarrow> unat (u32_of_le bs) = from_le bs"
  "length bs = 8 \<Longrightarrow> unat (u64_of_le bs) = from_le bs"
  using from_le_less[of bs]
  by (simp_all add: u16_of_le_def u32_of_le_def u64_of_le_def unat_of_nat)

lemma u64_be_less_iff [simp]: "u64_be a < u64_be b \<longleftrightarrow> a < b"
  using unat_u64_less[of a] unat_u64_less[of b]
  by (simp add: u64_be_def to_be_less_iff word_less_nat_alt)

lemma u64_be_eq_iff [simp]: "u64_be a = u64_be b \<longleftrightarrow> a = b"
  by (metis uint_codec_inverse(4))

lemma uint_le_eq_iff [simp]:
  "u16_le a = u16_le a' \<longleftrightarrow> a = a'" "u32_le b = u32_le b' \<longleftrightarrow> b = b'" "u64_le c = u64_le c' \<longleftrightarrow> c = c'"
  by (metis uint_codec_inverse)+

subsection \<open>Byte cursors\<close>

text \<open>
  Each decoder of the code reads a shrinking slice with its own \<^verbatim>\<open>take\<close>, which differs
  only in the error of a truncated input. A cursor step returns the bytes read and the
  rest of the input.
\<close>

definition take_bytes :: "'e \<Rightarrow> nat \<Rightarrow> bytes \<Rightarrow> 'e + bytes \<times> bytes" where
  "take_bytes e n input =
     (if n \<le> length input then Inr (take n input, drop n input) else Inl e)"

lemma take_bytes_eq_Inr [result_simps]:
  "take_bytes e n input = Inr (bs, rest) \<longleftrightarrow> input = bs @ rest \<and> length bs = n"
  by (auto simp: take_bytes_def)

lemma take_bytes_eq_Inl [result_simps]:
  "take_bytes e n input = Inl d \<longleftrightarrow> length input < n \<and> d = e"
  by (auto simp: take_bytes_def)

lemma take_bytes_append [simp]:
  "length bs = n \<Longrightarrow> take_bytes e n (bs @ rest) = Inr (bs, rest)"
  by (simp add: take_bytes_def)

lemma take_bytes_exact [simp]:
  "length bs = n \<Longrightarrow> take_bytes e n bs = Inr (bs, [])"
  by (simp add: take_bytes_def)

lemma take_bytes_0 [simp]: "take_bytes e 0 input = Inr ([], input)"
  by (simp add: take_bytes_def)

lemma take_bytes_1 [simp]: "take_bytes e (Suc 0) (b # input) = Inr ([b], input)"
  by (simp add: take_bytes_def)

text \<open>The integer reads \<^verbatim>\<open>uN::from_le_bytes(take(input, N / 8)?)\<close>.\<close>

definition take_u8 :: "'e \<Rightarrow> bytes \<Rightarrow> 'e + byte \<times> bytes" where
  "take_u8 e input = rbind (take_bytes e 1 input) (\<lambda>(bs, input). Inr (hd bs, input))"
definition take_u16 :: "'e \<Rightarrow> bytes \<Rightarrow> 'e + u16 \<times> bytes" where
  "take_u16 e input = rbind (take_bytes e 2 input) (\<lambda>(bs, input). Inr (u16_of_le bs, input))"
definition take_u32 :: "'e \<Rightarrow> bytes \<Rightarrow> 'e + u32 \<times> bytes" where
  "take_u32 e input = rbind (take_bytes e 4 input) (\<lambda>(bs, input). Inr (u32_of_le bs, input))"
definition take_u64 :: "'e \<Rightarrow> bytes \<Rightarrow> 'e + u64 \<times> bytes" where
  "take_u64 e input = rbind (take_bytes e 8 input) (\<lambda>(bs, input). Inr (u64_of_le bs, input))"

lemma take_uint_eq_Inr [result_simps]:
  "take_u8 e input = Inr (a, rest) \<longleftrightarrow> input = a # rest"
  "take_u16 e input = Inr (b, rest) \<longleftrightarrow> input = u16_le b @ rest"
  "take_u32 e input = Inr (c, rest) \<longleftrightarrow> input = u32_le c @ rest"
  "take_u64 e input = Inr (d, rest) \<longleftrightarrow> input = u64_le d @ rest"
proof -
  show "take_u8 e input = Inr (a, rest) \<longleftrightarrow> input = a # rest"
    by (cases input) (auto simp: take_u8_def take_bytes_def)
  show "take_u16 e input = Inr (b, rest) \<longleftrightarrow> input = u16_le b @ rest"
    by (auto simp: take_u16_def result_simps codec_simps)
  show "take_u32 e input = Inr (c, rest) \<longleftrightarrow> input = u32_le c @ rest"
    by (auto simp: take_u32_def result_simps codec_simps)
  show "take_u64 e input = Inr (d, rest) \<longleftrightarrow> input = u64_le d @ rest"
    by (auto simp: take_u64_def result_simps codec_simps)
qed

lemma take_uint_append [simp]:
  "take_u8 e (a # rest) = Inr (a, rest)"
  "take_u16 e (u16_le b @ rest) = Inr (b, rest)"
  "take_u32 e (u32_le c @ rest) = Inr (c, rest)"
  "take_u64 e (u64_le d @ rest) = Inr (d, rest)"
  "take_u16 e (u16_le b) = Inr (b, [])"
  "take_u32 e (u32_le c) = Inr (c, [])"
  "take_u64 e (u64_le d) = Inr (d, [])"
  by (simp_all add: take_uint_eq_Inr)

lemma take_uint_eq_Inl [result_simps]:
  "take_u8 e input = Inl d \<longleftrightarrow> input = [] \<and> d = e"
  "take_u16 e input = Inl d \<longleftrightarrow> length input < 2 \<and> d = e"
  "take_u32 e input = Inl d \<longleftrightarrow> length input < 4 \<and> d = e"
  "take_u64 e input = Inl d \<longleftrightarrow> length input < 8 \<and> d = e"
  by (auto simp: take_u8_def take_u16_def take_u32_def take_u64_def result_simps)

lemma take_u8_Nil [simp]: "take_u8 e [] = Inl e"
  by (simp add: take_uint_eq_Inl)

text \<open>\<^verbatim>\<open>read_blob\<close>: a \<^verbatim>\<open>u32\<close> length, then that many bytes; and the writer \<^verbatim>\<open>blob\<close>.\<close>

definition take_blob :: "'e \<Rightarrow> bytes \<Rightarrow> 'e + bytes \<times> bytes" where
  "take_blob e input =
     rbind (take_u32 e input) (\<lambda>(n, input). take_bytes e (unat n) input)"

definition put_blob :: "'e \<Rightarrow> bytes \<Rightarrow> 'e + bytes" where
  "put_blob e bs =
     (if length bs < 2 ^ 32 then Inr (u32_le (of_nat (length bs)) @ bs) else Inl e)"

lemma take_put_blob:
  assumes "put_blob d bs = Inr out"
  shows "take_blob e (out @ rest) = Inr (bs, rest)"
  using assms
  by (auto simp: put_blob_def take_blob_def unat_of_nat split: if_splits)

lemma put_take_blob:
  assumes "take_blob e input = Inr (bs, rest)"
  shows "\<exists>out. put_blob d bs = Inr out \<and> input = out @ rest \<and> length bs < 2 ^ 32"
proof -
  obtain n :: u32 where n: "input = u32_le n @ bs @ rest" "length bs = unat n"
    using assms by (auto simp: take_blob_def result_simps)
  then show ?thesis
    using unat_u32_less[of n] by (auto simp: put_blob_def)
qed

subsection \<open>UTF-8\<close>

text \<open>
  \<^verbatim>\<open>std::str::from_utf8\<close>: the well-formed byte sequences, without surrogates and
  overlong forms. A Rust \<^verbatim>\<open>String\<close> is a byte list for which \<open>utf8_ok\<close> holds.
\<close>

definition utf8_cont :: "byte \<Rightarrow> bool" where
  "utf8_cont b \<longleftrightarrow> 0x80 \<le> b \<and> b \<le> 0xBF"

definition utf8_second3 :: "byte \<Rightarrow> byte \<Rightarrow> bool" where
  "utf8_second3 b c \<longleftrightarrow>
     (if b = 0xE0 then 0xA0 \<le> c \<and> c \<le> 0xBF
      else if b = 0xED then 0x80 \<le> c \<and> c \<le> 0x9F else utf8_cont c)"

definition utf8_second4 :: "byte \<Rightarrow> byte \<Rightarrow> bool" where
  "utf8_second4 b c \<longleftrightarrow>
     (if b = 0xF0 then 0x90 \<le> c \<and> c \<le> 0xBF
      else if b = 0xF4 then 0x80 \<le> c \<and> c \<le> 0x8F else utf8_cont c)"

text \<open>The length of a sequence by its first byte; 0 for a byte that starts none.\<close>

definition utf8_width :: "byte \<Rightarrow> nat" where
  "utf8_width b =
     (if b < 0x80 then 1 else if b < 0xC2 then 0 else if b \<le> 0xDF then 2
      else if b \<le> 0xEF then 3 else if b \<le> 0xF4 then 4 else 0)"

fun utf8_ok :: "bytes \<Rightarrow> bool" where
  "utf8_ok [] \<longleftrightarrow> True"
| "utf8_ok (b # bs) \<longleftrightarrow>
     (if utf8_width b = 1 then utf8_ok bs
      else if utf8_width b = 2 then
        (case bs of c # r \<Rightarrow> utf8_cont c \<and> utf8_ok r | _ \<Rightarrow> False)
      else if utf8_width b = 3 then
        (case bs of c # d # r \<Rightarrow> utf8_second3 b c \<and> utf8_cont d \<and> utf8_ok r | _ \<Rightarrow> False)
      else if utf8_width b = 4 then
        (case bs of c # d # e # r \<Rightarrow>
           utf8_second4 b c \<and> utf8_cont d \<and> utf8_cont e \<and> utf8_ok r | _ \<Rightarrow> False)
      else False)"

declare utf8_ok.simps(2) [simp del]

lemma utf8_ok_append: "utf8_ok xs \<Longrightarrow> utf8_ok ys \<Longrightarrow> utf8_ok (xs @ ys)"
proof (induction xs rule: length_induct)
  case (1 xs)
  then have IH: "length zs < length xs \<Longrightarrow> utf8_ok zs \<Longrightarrow> utf8_ok (zs @ ys)" for zs
    by blast
  have IH': "length zs + 1 < length xs \<Longrightarrow> utf8_ok (c # zs) \<Longrightarrow> utf8_ok (c # zs @ ys)" for c zs
    using IH[of "c # zs"] by simp
  have IH'': "length zs + 2 < length xs \<Longrightarrow> utf8_ok (c # d # zs) \<Longrightarrow> utf8_ok (c # d # zs @ ys)"
    for c d zs
    using IH[of "c # d # zs"] by simp
  have IH1: "1 < length xs \<Longrightarrow> utf8_ok [c] \<Longrightarrow> utf8_ok (c # ys)" for c
    using IH[of "[c]"] by simp
  show ?case
  proof (cases xs)
    case Nil
    with 1 show ?thesis by simp
  next
    case (Cons b bs)
    show ?thesis
      using "1.prems" IH IH' IH'' IH1 unfolding Cons append_Cons
      by (auto simp: utf8_ok.simps(2)[of b bs] utf8_ok.simps(2)[of b "bs @ ys"]
          split: list.splits if_splits)
  qed
qed

subsection \<open>Exact codecs\<close>

text \<open>
  What a binary format of the store promises: the decoder accepts precisely the encodings
  of the valid objects. Then decoding inverts encoding, encodings are canonical and
  unique, and whatever is not an encoding is refused.
\<close>

locale exact_codec =
  fixes enc :: "'a \<Rightarrow> 'e + bytes"
    and dec :: "bytes \<Rightarrow> 'f + 'a"
    and valid :: "'a \<Rightarrow> bool"
  assumes dec_iff: "dec bs = Inr x \<longleftrightarrow> valid x \<and> enc x = Inr bs"
begin

lemma round_trip: "valid x \<Longrightarrow> enc x = Inr bs \<Longrightarrow> dec bs = Inr x"
  by (simp add: dec_iff)

lemma canonical: "dec bs = Inr x \<Longrightarrow> enc x = Inr bs"
  by (simp add: dec_iff)

lemma decoded_valid: "dec bs = Inr x \<Longrightarrow> valid x"
  by (simp add: dec_iff)

lemma enc_inject: "valid x \<Longrightarrow> valid y \<Longrightarrow> enc x = Inr bs \<Longrightarrow> enc y = Inr bs \<Longrightarrow> x = y"
  by (metis dec_iff Inr_inject)

lemma dec_inject: "dec bs = Inr x \<Longrightarrow> dec cs = Inr x \<Longrightarrow> bs = cs"
  by (metis dec_iff Inr_inject)

lemma refused: "(\<nexists>x. valid x \<and> enc x = Inr bs) \<Longrightarrow> \<exists>e. dec bs = Inl e"
  by (cases "dec bs") (auto simp: dec_iff)

end

end
