(* ===== verification/Blop_Value.thy ===== *)
theory Blop_Value
  imports Blop_Base
begin

section \<open>ISA 1 types and schema-encoded values (\<^verbatim>\<open>src/vm/value.rs\<close>)\<close>

text \<open>
  The type descriptors and values of the virtual machine, their binary formats, the shape
  and bound tests, and the order of values (\<^verbatim>\<open>derive(Ord)\<close>).  The codecs are shown to be
  exact: a decoder accepts precisely the encodings of well-formed types and of accepted
  values, so every accepted byte string is canonical.
\<close>

subsection \<open>Data\<close>

datatype vm_type =
    TUnit
  | TBoolean
  | TI64
  | TU64
  | TBytes u32
  | TString u32
  | TTuple "vm_type list"
  | TRows u32 vm_type vm_type

datatype vm_value =
    VUnit
  | VBoolean bool
  | VI64 u64
  | VU64 u64
  | VBytes bytes
  | VString bytes
  | VTuple "vm_value list"
  | VRows "(vm_value \<times> vm_value) list"

definition MAX_DESCRIPTOR_BYTES :: nat where "MAX_DESCRIPTOR_BYTES = 65536"
definition MAX_VALUE_BYTES :: nat where "MAX_VALUE_BYTES = 16 * 1024 * 1024"
definition MAX_ROWS :: nat where "MAX_ROWS = 65535"

subsection \<open>The derived order of values\<close>

text \<open>
  \<^verbatim>\<open>derive(Ord)\<close> compares the variant index first and then the fields in order; lists
  compare lexicographically, \<^verbatim>\<open>i64\<close> as signed numbers.
\<close>

fun value_rank :: "vm_value \<Rightarrow> nat" where
  "value_rank VUnit = 0"
| "value_rank (VBoolean _) = 1"
| "value_rank (VI64 _) = 2"
| "value_rank (VU64 _) = 3"
| "value_rank (VBytes _) = 4"
| "value_rank (VString _) = 5"
| "value_rank (VTuple _) = 6"
| "value_rank (VRows _) = 7"

function value_lt :: "vm_value \<Rightarrow> vm_value \<Rightarrow> bool"
  and values_lt :: "vm_value list \<Rightarrow> vm_value list \<Rightarrow> bool"
  and rows_lt :: "(vm_value \<times> vm_value) list \<Rightarrow> (vm_value \<times> vm_value) list \<Rightarrow> bool" where
  "value_lt a b =
     (if value_rank a \<noteq> value_rank b then value_rank a < value_rank b
      else (case (a, b) of
          (VBoolean x, VBoolean y) \<Rightarrow> \<not> x \<and> y
        | (VI64 x, VI64 y) \<Rightarrow> x <s y
        | (VU64 x, VU64 y) \<Rightarrow> x < y
        | (VBytes x, VBytes y) \<Rightarrow> x < y
        | (VString x, VString y) \<Rightarrow> x < y
        | (VTuple xs, VTuple ys) \<Rightarrow> values_lt xs ys
        | (VRows xs, VRows ys) \<Rightarrow> rows_lt xs ys
        | _ \<Rightarrow> False))"
| "values_lt [] ys = (ys \<noteq> [])"
| "values_lt (x # xs) [] = False"
| "values_lt (x # xs) (y # ys) = (value_lt x y \<or> (x = y \<and> values_lt xs ys))"
| "rows_lt [] ys = (ys \<noteq> [])"
| "rows_lt (x # xs) [] = False"
| "rows_lt ((k, v) # xs) ((k', v') # ys) =
     (value_lt k k' \<or> (k = k' \<and> (value_lt v v' \<or> (v = v' \<and> rows_lt xs ys))))"
  by pat_completeness auto
termination
  by (relation "measure (\<lambda>x. case x of Inl p \<Rightarrow> size (fst p)
        | Inr (Inl p) \<Rightarrow> size_list size (fst p)
        | Inr (Inr p) \<Rightarrow> size_list (size_prod size size) (fst p))") auto


declare value_lt.simps [simp del]


lemma value_lt_same [simp]:
  "\<not> value_lt VUnit VUnit"
  "value_lt (VBoolean x) (VBoolean y) \<longleftrightarrow> \<not> x \<and> y"
  "value_lt (VI64 n) (VI64 m) \<longleftrightarrow> n <s m"
  "value_lt (VU64 n) (VU64 m) \<longleftrightarrow> n < m"
  "value_lt (VBytes bs) (VBytes cs) \<longleftrightarrow> bs < cs"
  "value_lt (VString bs) (VString cs) \<longleftrightarrow> bs < cs"
  "value_lt (VTuple us) (VTuple vs) \<longleftrightarrow> values_lt us vs"
  "value_lt (VRows rs) (VRows ss) \<longleftrightarrow> rows_lt rs ss"
  by (simp_all add: value_lt.simps)

lemma value_lt_rank: "value_rank a \<noteq> value_rank b \<Longrightarrow> value_lt a b \<longleftrightarrow> value_rank a < value_rank b"
  by (simp add: value_lt.simps)

lemma value_rank_cases:
  assumes "value_rank a = value_rank b"
  obtains "a = VUnit" "b = VUnit"
    | x y where "a = VBoolean x" "b = VBoolean y"
    | n m where "a = VI64 n" "b = VI64 m"
    | n' m' where "a = VU64 n'" "b = VU64 m'"
    | bs cs where "a = VBytes bs" "b = VBytes cs"
    | bs' cs' where "a = VString bs'" "b = VString cs'"
    | us vs where "a = VTuple us" "b = VTuple vs"
    | rs ss where "a = VRows rs" "b = VRows ss"
  using assms by (cases a; cases b) simp_all

lemma value_lt_irrefl:
  "\<not> value_lt a a" "\<not> values_lt as as" "\<not> rows_lt rs rs"
proof -
  have "a = b \<Longrightarrow> \<not> value_lt a b" "as = bs \<Longrightarrow> \<not> values_lt as bs" "rs = ss \<Longrightarrow> \<not> rows_lt rs ss"
    for b bs ss
  proof (induction a b and as bs and rs ss rule: value_lt_values_lt_rows_lt.induct)
    case (1 a b)
    then show ?case
      by (cases a) auto
  qed auto
  then show "\<not> value_lt a a" "\<not> values_lt as as" "\<not> rows_lt rs rs"
    by blast+
qed

lemma value_lt_trans:
  "value_lt a b \<Longrightarrow> value_lt b c \<Longrightarrow> value_lt a c"
  "values_lt as bs \<Longrightarrow> values_lt bs cs \<Longrightarrow> values_lt as cs"
  "rows_lt rs ss \<Longrightarrow> rows_lt ss ts \<Longrightarrow> rows_lt rs ts"
proof (induction a b and as bs and rs ss arbitrary: c and cs and ts
    rule: value_lt_values_lt_rows_lt.induct)
  case (1 a b)
  show ?case
  proof (cases "value_rank a = value_rank b \<and> value_rank b = value_rank c")
    case True
    then have ab: "value_rank a = value_rank b" and bc: "value_rank b = value_rank c" by auto
    show ?thesis
      using ab
    proof (cases rule: value_rank_cases)
      case (2 x y)
      then show ?thesis using bc "1.prems" by (cases c) auto
    next
      case (3 n m)
      then show ?thesis using bc "1.prems" by (cases c) auto
    next
      case (7 us vs)
      have IH: "values_lt us vs \<Longrightarrow> values_lt vs ws \<Longrightarrow> values_lt us ws" for ws
        using "1.IH"(1)[OF _ refl 7] ab by simp
      from 7 show ?thesis using bc "1.prems" IH by (cases c) auto
    next
      case (8 rs ss)
      have IH: "rows_lt rs ss \<Longrightarrow> rows_lt ss us \<Longrightarrow> rows_lt rs us" for us
        using "1.IH"(2)[OF _ refl 8] ab by simp
      from 8 show ?thesis using bc "1.prems" IH by (cases c) auto
    qed (use bc "1.prems" in \<open>cases c; auto intro: less_trans\<close>)+
  next
    case False
    then have "value_rank a \<noteq> value_rank c \<and> value_rank a < value_rank c"
      using "1.prems" value_lt_rank[of a b] value_lt_rank[of b c]
      by (cases "value_rank a = value_rank b"; cases "value_rank b = value_rank c") auto
    then show ?thesis
      by (simp add: value_lt_rank)
  qed
next
  case (2 ys)
  then show ?case by (cases ys; cases cs) auto
next
  case (4 x xs y ys)
  then show ?case by (cases cs) auto
next
  case (5 ys)
  then show ?case by (cases ys; cases ts) auto
next
  case (7 k v xs k' v' ys)
  then show ?case by (cases ts) auto
qed auto

lemma value_lt_total:
  "value_lt a b \<or> a = b \<or> value_lt b a"
  "values_lt as bs \<or> as = bs \<or> values_lt bs as"
  "rows_lt rs ss \<or> rs = ss \<or> rows_lt ss rs"
proof (induction a b and as bs and rs ss rule: value_lt_values_lt_rows_lt.induct)
  case (1 a b)
  show ?case
  proof (cases "value_rank a = value_rank b")
    case True
    then show ?thesis
    proof (cases rule: value_rank_cases)
      case (3 n m)
      then show ?thesis
        by (simp add: word_sless_alt) (metis linorder_less_linear signed_word_eqI)
    next
      case (7 us vs)
      then show ?thesis using "1.IH"(1) True by auto
    next
      case (8 rs ss)
      then show ?thesis using "1.IH"(2) True by auto
    qed auto
  next
    case False
    then show ?thesis by (auto simp: value_lt_rank)
  qed
next
  case (2 ys)
  then show ?case by (cases ys) auto
next
  case (5 ys)
  then show ?case by (cases ys) auto
next
  case (6 x xs)
  then show ?case by (cases x) auto
qed auto

instantiation vm_value :: linorder
begin

definition less_vm_value :: "vm_value \<Rightarrow> vm_value \<Rightarrow> bool" where
  "less_vm_value a b = value_lt a b"

definition less_eq_vm_value :: "vm_value \<Rightarrow> vm_value \<Rightarrow> bool" where
  "less_eq_vm_value a b = (value_lt a b \<or> a = b)"

instance
proof
  fix a b c :: vm_value
  show "a < b \<longleftrightarrow> a \<le> b \<and> \<not> b \<le> a"
    using value_lt_trans(1)[of a b a] value_lt_irrefl(1)[of a]
    by (auto simp: less_vm_value_def less_eq_vm_value_def)
  show "a \<le> a"
    by (simp add: less_eq_vm_value_def)
  show "a \<le> b \<Longrightarrow> b \<le> c \<Longrightarrow> a \<le> c"
    using value_lt_trans(1)[of a b c] by (auto simp: less_eq_vm_value_def)
  show "a \<le> b \<Longrightarrow> b \<le> a \<Longrightarrow> a = b"
    using value_lt_trans(1)[of a b a] value_lt_irrefl(1)[of a] by (auto simp: less_eq_vm_value_def)
  show "a \<le> b \<or> b \<le> a"
    using value_lt_total(1)[of a b] by (auto simp: less_eq_vm_value_def)
qed

end

subsection \<open>Shape, bounds and sizes\<close>

fun same_shape :: "vm_type \<Rightarrow> vm_type \<Rightarrow> bool" where
  "same_shape TUnit other \<longleftrightarrow> (case other of TUnit \<Rightarrow> True | _ \<Rightarrow> False)"
| "same_shape TBoolean other \<longleftrightarrow> (case other of TBoolean \<Rightarrow> True | _ \<Rightarrow> False)"
| "same_shape TI64 other \<longleftrightarrow> (case other of TI64 \<Rightarrow> True | _ \<Rightarrow> False)"
| "same_shape TU64 other \<longleftrightarrow> (case other of TU64 \<Rightarrow> True | _ \<Rightarrow> False)"
| "same_shape (TBytes _) other \<longleftrightarrow> (case other of TBytes _ \<Rightarrow> True | _ \<Rightarrow> False)"
| "same_shape (TString _) other \<longleftrightarrow> (case other of TString _ \<Rightarrow> True | _ \<Rightarrow> False)"
| "same_shape (TTuple left) other \<longleftrightarrow>
     (case other of TTuple right \<Rightarrow> list_all2 same_shape left right | _ \<Rightarrow> False)"
| "same_shape (TRows _ a b) other \<longleftrightarrow>
     (case other of TRows _ c d \<Rightarrow> same_shape a c \<and> same_shape b d | _ \<Rightarrow> False)"

fun accepts :: "vm_type \<Rightarrow> vm_value \<Rightarrow> bool" where
  "accepts TUnit v \<longleftrightarrow> (case v of VUnit \<Rightarrow> True | _ \<Rightarrow> False)"
| "accepts TBoolean v \<longleftrightarrow> (case v of VBoolean _ \<Rightarrow> True | _ \<Rightarrow> False)"
| "accepts TI64 v \<longleftrightarrow> (case v of VI64 _ \<Rightarrow> True | _ \<Rightarrow> False)"
| "accepts TU64 v \<longleftrightarrow> (case v of VU64 _ \<Rightarrow> True | _ \<Rightarrow> False)"
| "accepts (TBytes bound) v \<longleftrightarrow> (case v of VBytes bs \<Rightarrow> length bs \<le> unat bound | _ \<Rightarrow> False)"
| "accepts (TString bound) v \<longleftrightarrow>
     (case v of VString text \<Rightarrow> length text \<le> unat bound | _ \<Rightarrow> False)"
| "accepts (TTuple types) v \<longleftrightarrow>
     (case v of VTuple vs \<Rightarrow> list_all2 accepts types vs | _ \<Rightarrow> False)"
| "accepts (TRows max_rows key val) v \<longleftrightarrow>
     (case v of VRows rows \<Rightarrow>
        length rows \<le> unat max_rows \<and> length rows \<le> MAX_ROWS
        \<and> list_all (\<lambda>(k, v). accepts key k \<and> accepts val v) rows
        \<and> ascending (map fst rows)
      | _ \<Rightarrow> False)"

fun max_value_bytes :: "vm_type \<Rightarrow> nat" where
  "max_value_bytes TUnit = 0"
| "max_value_bytes TBoolean = 1"
| "max_value_bytes TI64 = 8"
| "max_value_bytes TU64 = 8"
| "max_value_bytes (TBytes bound) = 4 + unat bound"
| "max_value_bytes (TString bound) = 4 + unat bound"
| "max_value_bytes (TTuple fields) = sum_list (map max_value_bytes fields)"
| "max_value_bytes (TRows max_rows key val) =
     4 + unat max_rows * (max_value_bytes key + max_value_bytes val)"

fun min_value_bytes :: "vm_type \<Rightarrow> nat" where
  "min_value_bytes TUnit = 0"
| "min_value_bytes TBoolean = 1"
| "min_value_bytes TI64 = 8"
| "min_value_bytes TU64 = 8"
| "min_value_bytes (TBytes _) = 4"
| "min_value_bytes (TString _) = 4"
| "min_value_bytes (TRows _ _ _) = 4"
| "min_value_bytes (TTuple fields) = sum_list (map min_value_bytes fields)"

fun encoded_len :: "vm_value \<Rightarrow> nat" where
  "encoded_len VUnit = 0"
| "encoded_len (VBoolean _) = 1"
| "encoded_len (VI64 _) = 8"
| "encoded_len (VU64 _) = 8"
| "encoded_len (VBytes bs) = 4 + length bs"
| "encoded_len (VString text) = 4 + length text"
| "encoded_len (VTuple fields) = sum_list (map encoded_len fields)"
| "encoded_len (VRows rows) = 4 + sum_list (map (\<lambda>(k, v). encoded_len k + encoded_len v) rows)"

text \<open>What the type \<^verbatim>\<open>String\<close> promises of every string in a value.\<close>

fun value_utf8 :: "vm_value \<Rightarrow> bool" where
  "value_utf8 (VString text) \<longleftrightarrow> utf8_ok text"
| "value_utf8 (VTuple fields) \<longleftrightarrow> list_all value_utf8 fields"
| "value_utf8 (VRows rows) \<longleftrightarrow> list_all (\<lambda>(k, v). value_utf8 k \<and> value_utf8 v) rows"
| "value_utf8 _ \<longleftrightarrow> True"

subsection \<open>Encoders\<close>

text \<open>
  The \<^verbatim>\<open>expect\<close> of a length that does not fit its field is the guard of the public
  operations \<open>descriptor\<close> and \<open>encode\<close>.
\<close>

fun encode_type :: "vm_type \<Rightarrow> bytes" where
  "encode_type TUnit = [0x00]"
| "encode_type TBoolean = [0x01]"
| "encode_type TI64 = [0x02]"
| "encode_type TU64 = [0x03]"
| "encode_type (TBytes bound) = 0x04 # u32_le bound"
| "encode_type (TString bound) = 0x05 # u32_le bound"
| "encode_type (TTuple fields) =
     0x06 # u16_le (of_nat (length fields)) @ concat (map encode_type fields)"
| "encode_type (TRows max_rows key val) =
     0x20 # u32_le max_rows @ encode_type key @ encode_type val"

fun type_counts_ok :: "vm_type \<Rightarrow> bool" where
  "type_counts_ok (TTuple fields) \<longleftrightarrow> length fields < 2 ^ 16 \<and> list_all type_counts_ok fields"
| "type_counts_ok (TRows _ key val) \<longleftrightarrow> type_counts_ok key \<and> type_counts_ok val"
| "type_counts_ok _ \<longleftrightarrow> True"

definition descriptor :: "vm_type \<Rightarrow> vm_error + bytes" where
  "descriptor ty = (if type_counts_ok ty then Inr (u16_le 1 @ encode_type ty) else Inl Panic)"

fun encode_value :: "vm_value \<Rightarrow> bytes" where
  "encode_value VUnit = []"
| "encode_value (VBoolean b) = [if b then 1 else 0]"
| "encode_value (VI64 n) = u64_le n"
| "encode_value (VU64 n) = u64_le n"
| "encode_value (VBytes bs) = u32_le (of_nat (length bs)) @ bs"
| "encode_value (VString text) = u32_le (of_nat (length text)) @ text"
| "encode_value (VTuple fields) = concat (map encode_value fields)"
| "encode_value (VRows rows) =
     u32_le (of_nat (length rows)) @ concat (map (\<lambda>(k, v). encode_value k @ encode_value v) rows)"

fun value_lengths_ok :: "vm_value \<Rightarrow> bool" where
  "value_lengths_ok (VBytes bs) \<longleftrightarrow> length bs < 2 ^ 32"
| "value_lengths_ok (VString text) \<longleftrightarrow> length text < 2 ^ 32"
| "value_lengths_ok (VTuple fields) \<longleftrightarrow> list_all value_lengths_ok fields"
| "value_lengths_ok (VRows rows) \<longleftrightarrow>
     length rows < 2 ^ 32 \<and> list_all (\<lambda>(k, v). value_lengths_ok k \<and> value_lengths_ok v) rows"
| "value_lengths_ok _ \<longleftrightarrow> True"

definition encode :: "vm_value \<Rightarrow> vm_error + bytes" where
  "encode v = (if value_lengths_ok v then Inr (encode_value v) else Inl Panic)"

subsection \<open>Decoders\<close>

definition m_value_truncated :: string where
  "m_value_truncated = ''truncated type descriptor or value''"
definition m_descriptor_long :: string where
  "m_descriptor_long = ''type descriptor exceeds 65,536 bytes''"
definition m_descriptor_trailing :: string where
  "m_descriptor_trailing = ''trailing type descriptor bytes''"
definition m_type_depth :: string where "m_type_depth = ''type nesting exceeds depth 16''"
definition m_type_overflow :: string where "m_type_overflow = ''type value size overflow''"
definition m_type_size :: string where "m_type_size = ''type value size exceeds 16 MiB''"
definition m_tuple_fields :: string where "m_tuple_fields = ''tuple exceeds 256 fields''"
definition m_tuple_truncated :: string where "m_tuple_truncated = ''truncated tuple descriptor''"
definition m_rows_nested :: string where
  "m_rows_nested = ''Rows is only allowed at the top level''"
definition m_rows_count :: string where "m_rows_count = ''Rows exceeds 65,535 rows''"
definition m_rows_overflow :: string where "m_rows_overflow = ''Rows value size overflow''"
definition m_type_tag :: string where "m_type_tag = ''unknown type tag''"
definition m_value_bounds :: string where "m_value_bounds = ''encoded value exceeds type bounds''"
definition m_value_trailing :: string where "m_value_trailing = ''trailing value bytes''"
definition m_value_short :: string where "m_value_short = ''truncated value''"
definition m_boolean :: string where "m_boolean = ''noncanonical Boolean''"
definition m_byte_bound :: string where "m_byte_bound = ''value exceeds byte bound''"
definition m_utf8 :: string where "m_utf8 = ''invalid UTF-8''"
definition m_row_bound :: string where "m_row_bound = ''value exceeds row bound''"
definition m_rows_short :: string where "m_rows_short = ''truncated Rows value''"
definition m_rows_order :: string where
  "m_rows_order = ''Rows keys are not strictly increasing''"

abbreviation value_u16 :: "bytes \<Rightarrow> vm_error + u16 \<times> bytes" where
  "value_u16 \<equiv> take_u16 (Invalid m_value_truncated)"
abbreviation value_u32 :: "bytes \<Rightarrow> vm_error + u32 \<times> bytes" where
  "value_u32 \<equiv> take_u32 (Invalid m_value_truncated)"
abbreviation value_u64 :: "bytes \<Rightarrow> vm_error + u64 \<times> bytes" where
  "value_u64 \<equiv> take_u64 (Invalid m_value_truncated)"
abbreviation value_take :: "nat \<Rightarrow> bytes \<Rightarrow> vm_error + bytes \<times> bytes" where
  "value_take \<equiv> take_bytes (Invalid m_value_truncated)"

text \<open>The loop over the fields of a tuple descriptor, with the accumulated size.\<close>

fun read_types :: "(bytes \<Rightarrow> vm_error + (vm_type \<times> nat) \<times> bytes) \<Rightarrow> nat \<Rightarrow> bytes \<Rightarrow> nat \<Rightarrow>
    vm_type list \<Rightarrow> vm_error + (vm_type list \<times> nat) \<times> bytes" where
  "read_types f 0 input acc fields = Inr ((fields, acc), input)"
| "read_types f (Suc n) input acc fields =
     rbind (f input) (\<lambda>((field, field_size), input).
     rbind (ok_or (Invalid m_type_size)
       (case checked_add acc field_size of
          None \<Rightarrow> None
        | Some t \<Rightarrow> if t \<le> MAX_VALUE_BYTES then Some t else None)) (\<lambda>acc.
     read_types f n input acc (fields @ [field])))"

function decode_type :: "bytes \<Rightarrow> nat \<Rightarrow> vm_error + (vm_type \<times> nat) \<times> bytes" where
  "decode_type input depth =
     (if depth > 16 then Inl (Invalid m_type_depth) else
      rbind (take_u8 (Invalid m_value_truncated) input) (\<lambda>(tag, input).
      rbind
        (if tag = 0x00 then Inr ((TUnit, 0), input)
         else if tag = 0x01 then Inr ((TBoolean, 1), input)
         else if tag = 0x02 then Inr ((TI64, 8), input)
         else if tag = 0x03 then Inr ((TU64, 8), input)
         else if tag = 0x04 \<or> tag = 0x05 then
           rbind (value_u32 input) (\<lambda>(bound, input).
           rbind (ok_or (Invalid m_type_overflow) (checked_add (unat bound) 4)) (\<lambda>size.
           Inr ((if tag = 0x04 then TBytes bound else TString bound,
                 size), input)))
         else if tag = 0x06 then
           rbind (value_u16 input) (\<lambda>(count, input).
           if unat count > 256 then Inl (Invalid m_tuple_fields)
           else if unat count > length input then Inl (Invalid m_tuple_truncated)
           else
             rbind (read_types (\<lambda>input. decode_type input (depth + 1))
                 (unat count) input 0 []) (\<lambda>((fields, size), input).
             Inr ((TTuple fields, size), input)))
         else if tag = 0x20 then
           (if depth \<noteq> 1 then Inl (Invalid m_rows_nested) else
            rbind (value_u32 input) (\<lambda>(max_rows, input).
            if unat max_rows > MAX_ROWS then Inl (Invalid m_rows_count) else
            rbind (decode_type input (depth + 1)) (\<lambda>((key, key_size), input).
            rbind (decode_type input (depth + 1)) (\<lambda>((val, value_size), input).
            rbind (ok_or (Invalid m_rows_overflow)
              (Option.bind (checked_add key_size value_size) (\<lambda>size.
               Option.bind (checked_mul size (unat max_rows)) (\<lambda>size.
               checked_add size 4)))) (\<lambda>size.
            Inr ((TRows max_rows key val, size), input))))))
         else Inl (Invalid m_type_tag)) (\<lambda>((ty, max_bytes), input).
      if max_bytes > MAX_VALUE_BYTES then Inl (Invalid m_type_size)
      else Inr ((ty, max_bytes), input))))"
  by pat_completeness auto
termination
  by (relation "measure (\<lambda>(input, depth). 17 - depth)") auto

declare decode_type.simps [simp del]

definition type_decode :: "bytes \<Rightarrow> vm_error + vm_type" where
  "type_decode bs =
     (if length bs > MAX_DESCRIPTOR_BYTES then Inl (Invalid m_descriptor_long) else
      rbind (value_u16 bs) (\<lambda>(version, input).
      if version \<noteq> 1 then Inl (Unsupported ''schema'' version) else
      rbind (decode_type input 1) (\<lambda>((ty, _), input).
      if input \<noteq> [] then Inl (Invalid m_descriptor_trailing) else Inr ty)))"

text \<open>The loops of \<^verbatim>\<open>decode_value_node\<close> over the fields of a tuple and over rows.\<close>

fun read_seq :: "(bytes \<Rightarrow> 'e + 'a \<times> bytes) list \<Rightarrow> bytes \<Rightarrow> 'e + 'a list \<times> bytes" where
  "read_seq [] input = Inr ([], input)"
| "read_seq (d # ds) input =
     rbind (d input) (\<lambda>(v, input).
     rbind (read_seq ds input) (\<lambda>(vs, input). Inr (v # vs, input)))"

fun read_rows :: "(bytes \<Rightarrow> vm_error + vm_value \<times> bytes) \<Rightarrow> (bytes \<Rightarrow> vm_error + vm_value \<times> bytes) \<Rightarrow>
    nat \<Rightarrow> (vm_value \<times> vm_value) list \<Rightarrow> bytes \<Rightarrow>
    vm_error + (vm_value \<times> vm_value) list \<times> bytes" where
  "read_rows dk dv 0 rows input = Inr (rows, input)"
| "read_rows dk dv (Suc n) rows input =
     rbind (dk input) (\<lambda>(k, input).
     if rows \<noteq> [] \<and> k \<le> fst (last rows) then Inl (Invalid m_rows_order) else
     rbind (dv input) (\<lambda>(v, input).
     read_rows dk dv n (rows @ [(k, v)]) input))"

primrec decode_value_node :: "vm_type \<Rightarrow> bytes \<Rightarrow> vm_error + vm_value \<times> bytes" where
  "decode_value_node TUnit = (\<lambda>input. Inr (VUnit, input))"
| "decode_value_node TBoolean = (\<lambda>input.
     if 1 > length input then Inl (Invalid m_value_short) else
     rbind (take_u8 (Invalid m_value_truncated) input) (\<lambda>(b, input).
     if b = 0 then Inr (VBoolean False, input)
     else if b = 1 then Inr (VBoolean True, input)
     else Inl (Invalid m_boolean)))"
| "decode_value_node TI64 = (\<lambda>input.
     if 8 > length input then Inl (Invalid m_value_short) else
     rbind (value_u64 input) (\<lambda>(n, input). Inr (VI64 n, input)))"
| "decode_value_node TU64 = (\<lambda>input.
     if 8 > length input then Inl (Invalid m_value_short) else
     rbind (value_u64 input) (\<lambda>(n, input). Inr (VU64 n, input)))"
| "decode_value_node (TBytes bound) = (\<lambda>input.
     if 4 > length input then Inl (Invalid m_value_short) else
     rbind (value_u32 input) (\<lambda>(len, input).
     if len > bound then Inl (Invalid m_byte_bound) else
     rbind (value_take (unat len) input) (\<lambda>(data, input).
     Inr (VBytes data, input))))"
| "decode_value_node (TString bound) = (\<lambda>input.
     if 4 > length input then Inl (Invalid m_value_short) else
     rbind (value_u32 input) (\<lambda>(len, input).
     if len > bound then Inl (Invalid m_byte_bound) else
     rbind (value_take (unat len) input) (\<lambda>(data, input).
     if utf8_ok data then Inr (VString data, input) else Inl (Invalid m_utf8))))"
| "decode_value_node (TTuple fields) = (\<lambda>input.
     if sum_list (map min_value_bytes fields) > length input then Inl (Invalid m_value_short) else
     rbind (read_seq (map decode_value_node fields) input) (\<lambda>(vs, input).
     Inr (VTuple vs, input)))"
| "decode_value_node (TRows max_rows key val) = (\<lambda>input.
     if 4 > length input then Inl (Invalid m_value_short) else
     rbind (value_u32 input) (\<lambda>(count, input).
     if count > max_rows \<or> unat count > MAX_ROWS
     then Inl (Invalid m_row_bound) else
     rbind (ok_or (Invalid m_rows_overflow)
       (Option.bind (checked_add (min_value_bytes key) (min_value_bytes val)) (\<lambda>size.
        checked_mul size (unat count)))) (\<lambda>minimum.
     if minimum > length input then Inl (Invalid m_rows_short) else
     rbind (read_rows (decode_value_node key) (decode_value_node val)
         (unat count) [] input) (\<lambda>(rows, input).
     Inr (VRows rows, input)))))"

definition decode_value :: "vm_type \<Rightarrow> bytes \<Rightarrow> vm_error + vm_value" where
  "decode_value ty bs =
     (if length bs > MAX_VALUE_BYTES \<or> length bs > max_value_bytes ty
      then Inl (Invalid m_value_bounds) else
      rbind (decode_value_node ty bs) (\<lambda>(v, input).
      if input \<noteq> [] then Inl (Invalid m_value_trailing) else Inr v))"

subsection \<open>Sizes of encodings\<close>

lemma sum_list_mono_all2:
  fixes f :: "'a \<Rightarrow> nat"
  shows "list_all2 (\<lambda>x y. f x \<le> g y) xs ys \<Longrightarrow> sum_list (map f xs) \<le> sum_list (map g ys)"
  by (induction rule: list_all2_induct) auto

lemma sum_list_le_bound: "(\<And>x. x \<in> set xs \<Longrightarrow> f x \<le> (b :: nat)) \<Longrightarrow> sum_list (map f xs) \<le> length xs * b"
  by (induction xs) (auto intro: add_mono)

lemma sum_list_ge_bound: "(\<And>x. x \<in> set xs \<Longrightarrow> (b :: nat) \<le> f x) \<Longrightarrow> length xs * b \<le> sum_list (map f xs)"
  by (induction xs) (auto intro: add_mono)

lemma length_encode_value [simp]: "length (encode_value v) = encoded_len v"
proof (induction v rule: encode_value.induct)
  case (7 fields)
  then show ?case
    by (simp add: length_concat comp_def cong: map_cong)
next
  case (8 rows)
  then show ?case
    by (auto simp: length_concat comp_def intro!: arg_cong[where f = sum_list])
qed simp_all

lemma accepts_lengths: "accepts ty v \<Longrightarrow> value_lengths_ok v"
proof (induction ty v rule: accepts.induct)
  case (5 bound v)
  then show ?case using unat_u32_less[of bound] by (cases v) auto
next
  case (6 bound v)
  then show ?case using unat_u32_less[of bound] by (cases v) auto
next
  case (7 types v)
  then show ?case
    by (cases v) (auto elim: list_all2_imp_list_all)
next
  case (8 max_rows key val v)
  then show ?case by (cases v) (auto simp: list_all_iff MAX_ROWS_def)
qed (auto split: vm_value.splits)

lemma encode_accepted: "accepts ty v \<Longrightarrow> encode v = Inr (encode_value v)"
  by (simp add: encode_def accepts_lengths)

lemma accepts_max: "accepts ty v \<Longrightarrow> encoded_len v \<le> max_value_bytes ty"
proof (induction ty v rule: accepts.induct)
  case (7 types v)
  then show ?case
    by (cases v) (auto intro!: sum_list_mono_all2 simp: list_all2_conv_all_nth)
next
  case (8 max_rows key val v)
  then show ?case
  proof (cases v)
    case (VRows rows)
    have "sum_list (map (\<lambda>(k, v). encoded_len k + encoded_len v) rows)
        \<le> length rows * (max_value_bytes key + max_value_bytes val)"
      using 8 VRows by (intro sum_list_le_bound) (fastforce simp: list_all_iff intro!: add_mono)
    also have "\<dots> \<le> unat max_rows * (max_value_bytes key + max_value_bytes val)"
      using 8 VRows by (intro mult_right_mono) auto
    finally show ?thesis using VRows by simp
  qed auto
qed (auto split: vm_value.splits)

lemma accepts_min: "accepts ty v \<Longrightarrow> min_value_bytes ty \<le> encoded_len v"
proof (induction ty v rule: accepts.induct)
  case (7 types v)
  then show ?case
    by (cases v) (auto intro!: sum_list_mono_all2 simp: list_all2_conv_all_nth)
qed (auto split: vm_value.splits)

subsection \<open>The value decoder accepts exactly the encodings of accepted values\<close>

text \<open>
  \<open>exact_on d P enc\<close>: the cursor \<open>d\<close> reads precisely the encodings of the values with
  \<open>P\<close>, on inputs a slice can have (fewer than \<open>2 ^ 64\<close> bytes).
\<close>

definition exact_on :: "(bytes \<Rightarrow> 'e + 'a \<times> bytes) \<Rightarrow> ('a \<Rightarrow> bool) \<Rightarrow> ('a \<Rightarrow> bytes) \<Rightarrow> bool" where
  "exact_on d P enc \<longleftrightarrow>
     (\<forall>input v rest. length input < 2 ^ 64 \<longrightarrow>
        (d input = Inr (v, rest) \<longleftrightarrow> P v \<and> input = enc v @ rest))"

lemma exact_onD:
  "exact_on d P enc \<Longrightarrow> length input < 2 ^ 64 \<Longrightarrow>
   d input = Inr (v, rest) \<longleftrightarrow> P v \<and> input = enc v @ rest"
  by (simp add: exact_on_def)

lemma read_seq_exact:
  assumes "\<And>t. t \<in> set ts \<Longrightarrow> exact_on (d t) (P t) enc" and "length input < 2 ^ 64"
  shows "read_seq (map d ts) input = Inr (vs, rest) \<longleftrightarrow>
    list_all2 P ts vs \<and> input = concat (map enc vs) @ rest"
  using assms
proof (induction ts arbitrary: input vs)
  case Nil
  then show ?case by auto
next
  case (Cons t ts)
  have d: "d t inp = Inr (v, r) \<longleftrightarrow> P t v \<and> inp = enc v @ r" if "length inp < 2 ^ 64" for inp v r
    using Cons.prems(1)[of t] that by (simp add: exact_onD)
  have IH: "read_seq (map d ts) inp = Inr (vs, rest) \<longleftrightarrow>
      list_all2 P ts vs \<and> inp = concat (map enc vs) @ rest" if "length inp < 2 ^ 64" for inp vs
    using that by (intro Cons.IH) (auto intro: Cons.prems(1))
  show ?case
  proof
    assume "read_seq (map d (t # ts)) input = Inr (vs, rest)"
    then obtain v inp ws where 1: "d t input = Inr (v, inp)" "read_seq (map d ts) inp = Inr (ws, rest)"
      "vs = v # ws"
      by (auto simp: result_simps)
    then have "P t v" "input = enc v @ inp" using Cons.prems(2) by (simp_all add: d)
    then show "list_all2 P (t # ts) vs \<and> input = concat (map enc vs) @ rest"
      using 1 IH[of inp ws] Cons.prems(2) by auto
  next
    assume R: "list_all2 P (t # ts) vs \<and> input = concat (map enc vs) @ rest"
    then obtain v ws where 1: "vs = v # ws" "P t v" "list_all2 P ts ws"
      by (auto simp: list_all2_Cons1)
    then have 2: "d t input = Inr (v, concat (map enc ws) @ rest)"
      using R Cons.prems(2) by (simp add: d)
    have "read_seq (map d ts) (concat (map enc ws) @ rest) = Inr (ws, rest)"
      using 1 R Cons.prems(2) by (subst IH) auto
    then show "read_seq (map d (t # ts)) input = Inr (vs, rest)"
      using 1 2 by simp
  qed
qed

abbreviation encode_row :: "vm_value \<times> vm_value \<Rightarrow> bytes" where
  "encode_row \<equiv> (\<lambda>(k, v). encode_value k @ encode_value v)"

lemma read_rows_exact:
  assumes k: "exact_on dk P encode_value" and v: "exact_on dv Q encode_value"
    and "length input < 2 ^ 64" and "ascending (map fst acc)"
  shows "read_rows dk dv n acc input = Inr (rows, rest) \<longleftrightarrow>
    (\<exists>new. rows = acc @ new \<and> length new = n \<and> list_all (\<lambda>(k, v). P k \<and> Q v) new
      \<and> ascending (map fst rows) \<and> input = concat (map encode_row new) @ rest)"
  using assms(3,4)
proof (induction n arbitrary: acc input)
  case 0
  then show ?case by auto
next
  case (Suc n)
  let ?ok = "\<lambda>a. acc = [] \<or> fst (last acc) < a"
  have asc: "ascending (map fst acc @ [a]) \<longleftrightarrow> ?ok a" for a
    using Suc.prems(2) by (cases "acc = []") (auto simp: ascending_snoc last_map)
  show ?case
  proof
    assume "read_rows dk dv (Suc n) acc input = Inr (rows, rest)"
    then obtain a i1 b i2 where 1: "dk input = Inr (a, i1)" "?ok a" "dv i1 = Inr (b, i2)"
      "read_rows dk dv n (acc @ [(a, b)]) i2 = Inr (rows, rest)"
      by (auto simp: result_simps not_le split: if_splits)
    have 2: "P a" "input = encode_value a @ i1"
      using 1(1) exact_onD[OF k] Suc.prems by auto
    moreover have 3: "Q b" "i1 = encode_value b @ i2"
      using 1(3) exact_onD[OF v, of i1] 2 Suc.prems by auto
    ultimately obtain new where "rows = (acc @ [(a, b)]) @ new" "length new = n"
      "list_all (\<lambda>(k, v). P k \<and> Q v) new" "ascending (map fst rows)"
      "i2 = concat (map encode_row new) @ rest"
      using 1 Suc.IH[of i2 "acc @ [(a, b)]"] Suc.prems asc by auto
    with 2 3 show "\<exists>new. rows = acc @ new \<and> length new = Suc n
        \<and> list_all (\<lambda>(k, v). P k \<and> Q v) new \<and> ascending (map fst rows)
        \<and> input = concat (map encode_row new) @ rest"
      by (intro exI[of _ "(a, b) # new"]) simp
  next
    assume "\<exists>new. rows = acc @ new \<and> length new = Suc n
        \<and> list_all (\<lambda>(k, v). P k \<and> Q v) new \<and> ascending (map fst rows)
        \<and> input = concat (map encode_row new) @ rest"
    then obtain a b new where N: "rows = acc @ (a, b) # new" "length new = n" "P a" "Q b"
      "list_all (\<lambda>(k, v). P k \<and> Q v) new" "ascending (map fst rows)"
      "input = encode_value a @ encode_value b @ concat (map encode_row new) @ rest"
      by (auto simp: length_Suc_conv)
    let ?i2 = "concat (map encode_row new) @ rest"
    have a: "?ok a" using N(1,6) asc
      by (auto simp: ascending_iff sorted_wrt_append)
    moreover have "dk input = Inr (a, encode_value b @ ?i2)"
      using N Suc.prems exact_onD[OF k] by auto
    moreover have "dv (encode_value b @ ?i2) = Inr (b, ?i2)"
      using N Suc.prems exact_onD[OF v, of "encode_value b @ ?i2"] by auto
    moreover have "read_rows dk dv n (acc @ [(a, b)]) ?i2 = Inr (rows, rest)"
      using N Suc.prems a asc by (subst Suc.IH) auto
    ultimately show "read_rows dk dv (Suc n) acc input = Inr (rows, rest)"
      by (auto simp: not_le)
  qed
qed


lemma decode_blob_exact:
  "4 \<le> length input \<and> rbind (value_u32 input) (\<lambda>(len, input).
       if bound < len then Inl (Invalid m_byte_bound) else
       rbind (value_take (unat len) input) f) = Inr r \<longleftrightarrow>
     (\<exists>data rest. length data \<le> unat bound
        \<and> input = u32_le (of_nat (length data)) @ data @ rest \<and> f (data, rest) = Inr r)"
  (is "?L \<longleftrightarrow> ?R")
proof
  assume ?L
  then obtain len data rest where 1: "input = u32_le len @ data @ rest"
    "length data = unat len" "len \<le> bound" "f (data, rest) = Inr r"
    by (auto simp: result_simps split: if_splits)
  then show ?R
    by (intro exI[of _ data] exI[of _ rest]) (simp add: word_le_nat_alt)
next
  assume ?R
  then obtain data rest where 1: "length data \<le> unat bound"
    "input = u32_le (of_nat (length data)) @ data @ rest" "f (data, rest) = Inr r" by blast
  then have "unat (of_nat (length data) :: u32) = length data"
    using unat_u32_less[of bound] by (simp add: unat_of_nat)
  with 1 show ?L
    by (simp add: word_less_nat_alt)
qed

text \<open>
  The size arithmetic of \<^verbatim>\<open>Rows\<close> cannot overflow; every type that \<open>type_decode\<close> accepts
  has this property.
\<close>

fun type_sizes_ok :: "vm_type \<Rightarrow> bool" where
  "type_sizes_ok (TTuple fields) \<longleftrightarrow> list_all type_sizes_ok fields"
| "type_sizes_ok (TRows _ key val) \<longleftrightarrow>
     min_value_bytes key + min_value_bytes val < 2 ^ 64 \<and> type_sizes_ok key \<and> type_sizes_ok val"
| "type_sizes_ok _ \<longleftrightarrow> True"

lemma decode_value_node_exact:
  "type_sizes_ok ty \<Longrightarrow>
   exact_on (decode_value_node ty) (\<lambda>v. accepts ty v \<and> value_utf8 v) encode_value"
proof (induction ty)
  case TUnit
  then show ?case by (auto simp: exact_on_def split: vm_value.splits)
next
  case TBoolean
  have "decode_value_node TBoolean input = Inr (v, rest) \<longleftrightarrow>
      (accepts TBoolean v \<and> value_utf8 v) \<and> input = encode_value v @ rest" for input v rest
    by (cases input; cases v) (auto simp: result_simps split: if_splits)
  then show ?case by (simp add: exact_on_def)
next
  case TI64
  have "decode_value_node TI64 input = Inr (v, rest) \<longleftrightarrow>
      (accepts TI64 v \<and> value_utf8 v) \<and> input = encode_value v @ rest" for input v rest
    by (cases v) (auto simp: result_simps codec_simps)
  then show ?case by (simp add: exact_on_def)
next
  case TU64
  have "decode_value_node TU64 input = Inr (v, rest) \<longleftrightarrow>
      (accepts TU64 v \<and> value_utf8 v) \<and> input = encode_value v @ rest" for input v rest
    by (cases v) (auto simp: result_simps codec_simps)
  then show ?case by (simp add: exact_on_def)
next
  case (TBytes bound)
  have "decode_value_node (TBytes bound) input = Inr (v, rest) \<longleftrightarrow>
      (accepts (TBytes bound) v \<and> value_utf8 v) \<and> input = encode_value v @ rest"
    if "length input < 2 ^ 64" for input v rest
    using decode_blob_exact[of input bound "\<lambda>(data, input). Inr (VBytes data, input)" "(v, rest)"]
    by (cases v) auto
  then show ?case by (simp add: exact_on_def)
next
  case (TString bound)
  have "decode_value_node (TString bound) input = Inr (v, rest) \<longleftrightarrow>
      (accepts (TString bound) v \<and> value_utf8 v) \<and> input = encode_value v @ rest"
    if "length input < 2 ^ 64" for input v rest
    using decode_blob_exact[of input bound "\<lambda>(data, input).
        if utf8_ok data then Inr (VString data, input) else Inl (Invalid m_utf8)" "(v, rest)"]
    by (cases v) (auto split: if_splits)
  then show ?case by (simp add: exact_on_def)
next
  case (TTuple fields)
  have "decode_value_node (TTuple fields) input = Inr (v, rest) \<longleftrightarrow>
      (accepts (TTuple fields) v \<and> value_utf8 v) \<and> input = encode_value v @ rest"
    if "length input < 2 ^ 64" for input v rest
  proof -
    have seq: "read_seq (map decode_value_node fields) input = Inr (vs, rest) \<longleftrightarrow>
        list_all2 (\<lambda>ty v. accepts ty v \<and> value_utf8 v) fields vs
        \<and> input = concat (map encode_value vs) @ rest" for vs
      using TTuple that by (intro read_seq_exact) (auto simp: list_all_iff)
    have both: "list_all2 (\<lambda>ty v. accepts ty v \<and> value_utf8 v) fields vs \<longleftrightarrow>
        list_all2 accepts fields vs \<and> list_all value_utf8 vs" for vs
      by (auto simp: list_all2_conv_all_nth list_all_length)
    have len: "sum_list (map min_value_bytes fields) \<le> length (concat (map encode_value vs) @ rest)"
      if "list_all2 accepts fields vs" for vs
      using accepts_min[of "TTuple fields" "VTuple vs"] that length_encode_value[of "VTuple vs"]
      by (simp del: length_encode_value)
    have "decode_value_node (TTuple fields) input = Inr (v, rest) \<longleftrightarrow>
        (\<exists>vs. sum_list (map min_value_bytes fields) \<le> length input \<and> v = VTuple vs
          \<and> read_seq (map decode_value_node fields) input = Inr (vs, rest))"
      by (auto simp: result_simps)
    then show ?thesis
      unfolding seq both by (cases v) (auto dest: len simp del: length_append)
  qed
  then show ?case by (simp add: exact_on_def)
next
  case (TRows max_rows key val)
  have row: "exact_on (\<lambda>i. decode_value_node (TRows max_rows key val) i)
     (\<lambda>v. accepts (TRows max_rows key val) v \<and> value_utf8 v) encode_value"
    unfolding exact_on_def
  proof (intro allI impI)
    fix input v rest assume I: "length (input :: bytes) < 2 ^ 64"
    let ?D = "read_rows (decode_value_node key) (decode_value_node val)"
    let ?min = "min_value_bytes key + min_value_bytes val"
    have IH: "exact_on (decode_value_node key) (\<lambda>v. accepts key v \<and> value_utf8 v) encode_value"
      "exact_on (decode_value_node val) (\<lambda>v. accepts val v \<and> value_utf8 v) encode_value"
      using TRows by auto
    have rows: "?D n [] i = Inr (rows, rest) \<longleftrightarrow> length rows = n
        \<and> list_all (\<lambda>(k, v). (accepts key k \<and> value_utf8 k) \<and> accepts val v \<and> value_utf8 v) rows
        \<and> ascending (map fst rows) \<and> i = concat (map encode_row rows) @ rest"
      if "length i < 2 ^ 64" for i n rows rest
      using read_rows_exact[OF IH that, of "[]" n rows rest] by auto
    show "decode_value_node (TRows max_rows key val) input = Inr (v, rest) \<longleftrightarrow>
        (accepts (TRows max_rows key val) v \<and> value_utf8 v) \<and> input = encode_value v @ rest"
    proof
      assume "decode_value_node (TRows max_rows key val) input = Inr (v, rest)"
      then obtain c i rows where 1: "input = u32_le c @ i" "c \<le> max_rows"
        "unat c \<le> MAX_ROWS" "?D (unat c) [] i = Inr (rows, rest)" "v = VRows rows"
        by (auto simp: result_simps not_less split: if_splits)
      note 2 = 1(4)[unfolded rows[of i "unat c" rows rest, OF le_less_trans[OF _ I],
            unfolded 1(1), simplified]]
      have "of_nat (length rows) = c"
        using 2 by simp
      then show "(accepts (TRows max_rows key val) v \<and> value_utf8 v) \<and> input = encode_value v @ rest"
        using 1 2 by (auto simp: list_all_iff word_le_nat_alt)
    next
      assume R: "(accepts (TRows max_rows key val) v \<and> value_utf8 v) \<and> input = encode_value v @ rest"
      then obtain rows where v: "v = VRows rows" by (cases v) auto
      let ?i = "concat (map encode_row rows) @ rest"
      have n: "unat (of_nat (length rows) :: u32) = length rows" "length rows \<le> unat max_rows"
        using R v unat_u32_less[of max_rows] by (auto simp: unat_of_nat)
      have D: "?D (length rows) [] ?i = Inr (rows, rest)"
        using R v I by (subst rows) (auto simp: list_all_iff)
      have "length rows * ?min \<le> sum_list (map (\<lambda>(k, v). encoded_len k + encoded_len v) rows)"
        using R v by (intro sum_list_ge_bound)
          (auto simp: list_all_iff intro!: add_mono dest: accepts_min)
      also have "\<dots> \<le> length ?i"
        using length_encode_value[of v] v by (simp del: length_encode_value)
      finally have min: "length rows * ?min \<le> length ?i" .
      show "decode_value_node (TRows max_rows key val) input = Inr (v, rest)"
        using R v D n min I TRows.prems by (auto simp: word_less_nat_alt mult.commute)
    qed
  qed
  then show ?case by simp
qed

subsection \<open>The type decoder accepts exactly the descriptors of well-formed types\<close>

fun wf_at :: "nat \<Rightarrow> vm_type \<Rightarrow> bool" where
  "wf_at depth (TBytes bound) \<longleftrightarrow> depth \<le> 16 \<and> 4 + unat bound \<le> MAX_VALUE_BYTES"
| "wf_at depth (TString bound) \<longleftrightarrow> depth \<le> 16 \<and> 4 + unat bound \<le> MAX_VALUE_BYTES"
| "wf_at depth (TTuple fields) \<longleftrightarrow> depth \<le> 16 \<and> length fields \<le> 256
     \<and> list_all (wf_at (depth + 1)) fields \<and> sum_list (map max_value_bytes fields) \<le> MAX_VALUE_BYTES"
| "wf_at depth (TRows max_rows key val) \<longleftrightarrow> depth = 1 \<and> unat max_rows \<le> MAX_ROWS
     \<and> wf_at (depth + 1) key \<and> wf_at (depth + 1) val
     \<and> max_value_bytes (TRows max_rows key val) \<le> MAX_VALUE_BYTES"
| "wf_at depth _ \<longleftrightarrow> depth \<le> 16"

definition wf_type :: "vm_type \<Rightarrow> bool" where
  "wf_type ty \<longleftrightarrow> wf_at 1 ty \<and> 2 + length (encode_type ty) \<le> MAX_DESCRIPTOR_BYTES"

lemma encode_type_nonempty: "1 \<le> length (encode_type ty)"
  by (cases ty) auto

lemma wf_at_max: "wf_at depth ty \<Longrightarrow> max_value_bytes ty \<le> MAX_VALUE_BYTES"
  by (cases ty) (auto simp: MAX_VALUE_BYTES_def)

lemma wf_at_counts: "wf_at depth ty \<Longrightarrow> type_counts_ok ty"
  by (induction depth ty rule: wf_at.induct) (auto simp: list_all_iff)

lemma sum_list_max_overflow:
  "acc \<le> MAX_VALUE_BYTES \<Longrightarrow> max_value_bytes t \<le> MAX_VALUE_BYTES \<Longrightarrow> acc + max_value_bytes t < 2 ^ 64"
  by (simp add: MAX_VALUE_BYTES_def)

lemma read_types_exact:
  assumes f: "\<And>input t n rest. f input = Inr ((t, n), rest) \<longleftrightarrow>
      P t \<and> n = max_value_bytes t \<and> input = encode_type t @ rest"
    and P: "\<And>t. P t \<Longrightarrow> max_value_bytes t \<le> MAX_VALUE_BYTES"
    and "acc \<le> MAX_VALUE_BYTES"
  shows "read_types f n input acc fields = Inr ((ts, tot), rest) \<longleftrightarrow>
    (\<exists>new. ts = fields @ new \<and> length new = n \<and> list_all P new
      \<and> tot = acc + sum_list (map max_value_bytes new) \<and> tot \<le> MAX_VALUE_BYTES
      \<and> input = concat (map encode_type new) @ rest)"
  using assms(3)
proof (induction n arbitrary: input acc fields)
  case 0
  then show ?case by auto
next
  case (Suc n)
  show ?case
  proof
    assume "read_types f (Suc n) input acc fields = Inr ((ts, tot), rest)"
    then obtain t i where 1: "P t" "input = encode_type t @ i" "acc + max_value_bytes t \<le> MAX_VALUE_BYTES"
      "read_types f n i (acc + max_value_bytes t) (fields @ [t]) = Inr ((ts, tot), rest)"
      by (auto simp: result_simps f split: option.splits if_splits)
    then obtain new where "ts = (fields @ [t]) @ new" "length new = n" "list_all P new"
      "tot = acc + max_value_bytes t + sum_list (map max_value_bytes new)" "tot \<le> MAX_VALUE_BYTES"
      "i = concat (map encode_type new) @ rest"
      using Suc.IH[of "acc + max_value_bytes t" i "fields @ [t]"] by auto
    with 1 show "\<exists>new. ts = fields @ new \<and> length new = Suc n \<and> list_all P new
      \<and> tot = acc + sum_list (map max_value_bytes new) \<and> tot \<le> MAX_VALUE_BYTES
      \<and> input = concat (map encode_type new) @ rest"
      by (intro exI[of _ "t # new"]) simp
  next
    assume "\<exists>new. ts = fields @ new \<and> length new = Suc n \<and> list_all P new
      \<and> tot = acc + sum_list (map max_value_bytes new) \<and> tot \<le> MAX_VALUE_BYTES
      \<and> input = concat (map encode_type new) @ rest"
    then obtain t new where 1: "ts = (fields @ [t]) @ new" "length new = n" "P t" "list_all P new"
      "tot = acc + max_value_bytes t + sum_list (map max_value_bytes new)" "tot \<le> MAX_VALUE_BYTES"
      "input = encode_type t @ concat (map encode_type new) @ rest"
      by (auto simp: length_Suc_conv)
    have "f input = Inr ((t, max_value_bytes t), concat (map encode_type new) @ rest)"
      using 1 by (simp add: f)
    moreover have "read_types f n (concat (map encode_type new) @ rest) (acc + max_value_bytes t)
        (fields @ [t]) = Inr ((ts, tot), rest)"
      using 1 by (subst Suc.IH) auto
    ultimately show "read_types f (Suc n) input acc fields = Inr ((ts, tot), rest)"
      using 1 sum_list_max_overflow[OF Suc.prems P[of t]] by auto
  qed
qed

lemma decode_type_tags:
  assumes "depth \<le> 16"
  shows "decode_type [] depth = Inl (Invalid m_value_truncated)"
    "decode_type (0x00 # i) depth = Inr ((TUnit, 0), i)"
    "decode_type (0x01 # i) depth = Inr ((TBoolean, 1), i)"
    "decode_type (0x02 # i) depth = Inr ((TI64, 8), i)"
    "decode_type (0x03 # i) depth = Inr ((TU64, 8), i)"
    "t \<notin> {0, 1, 2, 3, 4, 5, 6, 0x20} \<Longrightarrow> decode_type (t # i) depth = Inl (Invalid m_type_tag)"
  using assms
  by (simp_all add: decode_type.simps[of _ depth] MAX_VALUE_BYTES_def)

lemma decode_type_blob:
  assumes "depth \<le> 16"
  shows "decode_type (0x04 # i) depth = Inr ((ty, n), rest) \<longleftrightarrow>
      (\<exists>b. ty = TBytes b \<and> n = 4 + unat b \<and> n \<le> MAX_VALUE_BYTES \<and> i = u32_le b @ rest)"
    and "decode_type (0x05 # i) depth = Inr ((ty, n), rest) \<longleftrightarrow>
      (\<exists>b. ty = TString b \<and> n = 4 + unat b \<and> n \<le> MAX_VALUE_BYTES \<and> i = u32_le b @ rest)"
  using assms
  by (fastforce simp: decode_type.simps[of _ depth] result_simps MAX_VALUE_BYTES_def
      split: if_splits)+

lemma decode_type_tuple:
  assumes "depth \<le> 16"
  shows "decode_type (0x06 # i) depth = Inr ((ty, n), rest) \<longleftrightarrow>
      (\<exists>c input ts. i = u16_le c @ input \<and> unat c \<le> 256 \<and> unat c \<le> length input
        \<and> read_types (\<lambda>input. decode_type input (Suc depth)) (unat c) input 0 [] = Inr ((ts, n), rest)
        \<and> ty = TTuple ts \<and> n \<le> MAX_VALUE_BYTES)"
  using assms by (fastforce simp: decode_type.simps[of _ depth] result_simps not_less split: if_splits)

lemma decode_type_rows:
  assumes "depth \<le> 16"
  shows "decode_type (0x20 # i) depth = Inr ((ty, n), rest) \<longleftrightarrow>
      depth = 1 \<and> (\<exists>m input key a input' val b. i = u32_le m @ input \<and> unat m \<le> MAX_ROWS
        \<and> decode_type input (Suc depth) = Inr ((key, a), input')
        \<and> decode_type input' (Suc depth) = Inr ((val, b), rest)
        \<and> ty = TRows m key val \<and> n = 4 + unat m * (a + b) \<and> a + b < 2 ^ 64 \<and> n \<le> MAX_VALUE_BYTES)"
  (is "?L \<longleftrightarrow> ?R")
proof
  assume ?L
  then show ?R
    using assms by (auto simp: decode_type.simps[of _ depth] result_simps bind_eq_Some_conv not_less
        mult.commute split: if_splits)
next
  assume ?R
  then obtain m input key a input' val b where R: "depth = 1" "i = u32_le m @ input"
    "unat m \<le> MAX_ROWS" "decode_type input (Suc depth) = Inr ((key, a), input')"
    "decode_type input' (Suc depth) = Inr ((val, b), rest)" "ty = TRows m key val"
    "n = 4 + unat m * (a + b)" "a + b < 2 ^ 64" "n \<le> MAX_VALUE_BYTES"
    by blast
  then have "(a + b) * unat m + 4 < 2 ^ 64"
    by (simp add: MAX_VALUE_BYTES_def mult.commute)
  with R show ?L
    by (subst decode_type.simps) (simp add: mult.commute)
qed

lemma decode_type_exact:
  "decode_type input depth = Inr ((ty, n), rest) \<longleftrightarrow>
     wf_at depth ty \<and> n = max_value_bytes ty \<and> input = encode_type ty @ rest"
proof (induction "17 - depth" arbitrary: depth input ty n rest rule: less_induct)
  case less
  show ?case
  proof (cases "depth \<le> 16")
    case False
    then have "\<not> wf_at depth ty" by (cases ty) auto
    with False show ?thesis by (simp add: decode_type.simps[of input depth])
  next
    case True
    have IH: "decode_type i (Suc depth) = Inr ((t, m), r) \<longleftrightarrow>
        wf_at (Suc depth) t \<and> m = max_value_bytes t \<and> i = encode_type t @ r" for i t m r
      using True by (intro less) auto
    have fields: "read_types (\<lambda>i. decode_type i (Suc depth)) c i 0 [] = Inr ((ts, tot), r) \<longleftrightarrow>
        length ts = c \<and> list_all (wf_at (Suc depth)) ts \<and> tot = sum_list (map max_value_bytes ts)
        \<and> tot \<le> MAX_VALUE_BYTES \<and> i = concat (map encode_type ts) @ r" for c i ts tot r
      by (subst read_types_exact[where P = "wf_at (Suc depth)"]) (auto simp: IH wf_at_max)
    have long: "length ts \<le> length (concat (map encode_type ts) @ r)" for ts r
      using sum_list_ge_bound[of ts 1 "\<lambda>t. length (encode_type t)"] encode_type_nonempty
      by (simp add: length_concat comp_def trans_le_add1)
    have two: "wf_at (Suc depth) t \<Longrightarrow> wf_at (Suc depth) t' \<Longrightarrow>
        max_value_bytes t + max_value_bytes t' < 2 ^ 64" for t t'
      by (intro sum_list_max_overflow wf_at_max)
    note tags = decode_type_tags[OF True] decode_type_blob[OF True] decode_type_tuple[OF True]
      decode_type_rows[OF True]
    consider "input = []" | t i where "input = t # i" "t \<notin> {0, 1, 2, 3, 4, 5, 6, 0x20}"
      | t i where "input = t # i" "t \<in> {0, 1, 2, 3, 4, 5, 6, 0x20}"
      by (cases input) auto
    then show ?thesis
    proof cases
      case 1
      then show ?thesis using encode_type_nonempty[of ty] by (auto simp: tags)
    next
      case 2
      then show ?thesis by (cases ty) (auto simp: tags)
    next
      case (3 t i)
      consider "t = 0" | "t = 1" | "t = 2" | "t = 3" | "t = 4" | "t = 5" | "t = 6" | "t = 0x20"
        using 3(2) by auto
      then show ?thesis
      proof cases
        case 7
        have "unat (of_nat (length ts) :: u16) = length ts" if "length ts \<le> 256" for ts :: "vm_type list"
          using that by (simp add: unat_of_nat)
        then show ?thesis
          using 3 7 True long by (cases ty) (auto simp: tags fields simp del: length_append)
      next
        case 8
        then show ?thesis
          using 3 True two by (cases ty) (auto simp: tags IH)
      qed (use 3 True in \<open>cases ty; auto simp: tags\<close>)+
    qed
  qed
qed

lemma type_decode_exact:
  "type_decode bs = Inr ty \<longleftrightarrow> wf_type ty \<and> descriptor ty = Inr bs"
proof
  assume "type_decode bs = Inr ty"
  then obtain n i where "bs = u16_le 1 @ i"
    "decode_type i 1 = Inr ((ty, n), [])" "length bs \<le> MAX_DESCRIPTOR_BYTES"
    by (auto simp: type_decode_def result_simps split: if_splits)
  then show "wf_type ty \<and> descriptor ty = Inr bs"
    by (auto simp: decode_type_exact wf_type_def descriptor_def wf_at_counts)
next
  assume "wf_type ty \<and> descriptor ty = Inr bs"
  then show "type_decode bs = Inr ty"
    using decode_type_exact[of "encode_type ty" 1 ty "max_value_bytes ty" "[]"]
    by (auto simp: type_decode_def wf_type_def descriptor_def wf_at_counts)
qed

interpretation type_codec: exact_codec descriptor type_decode wf_type
  by unfold_locales (rule type_decode_exact)

subsection \<open>Whole values\<close>

lemma min_le_max_value_bytes: "min_value_bytes ty \<le> max_value_bytes ty"
proof (induction ty)
  case (TTuple fields)
  then show ?case by (auto intro!: sum_list_mono_all2 simp: list_all2_conv_all_nth)
qed auto

lemma wf_at_sizes: "wf_at depth ty \<Longrightarrow> type_sizes_ok ty"
proof (induction depth ty rule: wf_at.induct)
  case (4 depth max_rows key val)
  then have "max_value_bytes key + max_value_bytes val < 2 ^ 64"
    by (intro sum_list_max_overflow) (auto intro: wf_at_max)
  then show ?case
    using 4 min_le_max_value_bytes[of key] min_le_max_value_bytes[of val] by auto
qed (auto simp: list_all_iff)

lemma wf_type_max: "wf_type ty \<Longrightarrow> max_value_bytes ty \<le> MAX_VALUE_BYTES"
  by (auto simp: wf_type_def intro: wf_at_max)

lemma decode_value_iff:
  assumes "wf_type ty"
  shows "decode_value ty bs = Inr v \<longleftrightarrow> accepts ty v \<and> value_utf8 v \<and> bs = encode_value v"
proof -
  have ty: "type_sizes_ok ty" "max_value_bytes ty \<le> MAX_VALUE_BYTES"
    using assms by (auto simp: wf_type_def intro: wf_at_sizes wf_at_max)
  have node: "decode_value_node ty bs = Inr (v, []) \<longleftrightarrow> (accepts ty v \<and> value_utf8 v) \<and> bs = encode_value v"
    if "length bs \<le> MAX_VALUE_BYTES"
    using exact_onD[OF decode_value_node_exact[OF ty(1)], of bs v "[]"] that
    by (simp add: MAX_VALUE_BYTES_def)
  have "accepts ty v \<Longrightarrow> bs = encode_value v \<Longrightarrow> length bs \<le> max_value_bytes ty"
    using accepts_max by simp
  then show ?thesis
    using node ty by (auto simp: decode_value_def result_simps split: if_splits)
qed

subsection \<open>Properties\<close>

text \<open>
  C22: \<^verbatim>\<open>Type::decode\<close> accepts exactly the descriptors of well-formed types (nesting, arity,
  row and size bounds, no nested \<^verbatim>\<open>Rows\<close>, at most 65,536 bytes), and each is the only
  encoding of its type.
\<close>

theorem type_descriptor_exact:
  "type_decode bs = Inr ty \<longleftrightarrow> wf_type ty \<and> descriptor ty = Inr bs"
  by (rule type_codec.dec_iff)

text \<open>
  C23: For a validated type, \<^verbatim>\<open>decode_value\<close> accepts exactly the encodings of the values that
  \<^verbatim>\<open>accepts\<close> admits (with valid UTF-8, which \<^verbatim>\<open>String\<close> guarantees), so decoding inverts
  encoding and no value has a second encoding; and \<^verbatim>\<open>encode\<close> does not panic on it.
\<close>

theorem value_codec_exact:
  assumes "wf_type ty"
  shows "decode_value ty bs = Inr v \<longleftrightarrow> accepts ty v \<and> value_utf8 v \<and> encode v = Inr bs"
  using decode_value_iff[OF assms] encode_accepted[of ty v] by auto

theorem value_codec_exact_witness:
  "wf_type (TTuple [TI64, TString 4]) \<and>
   decode_value (TTuple [TI64, TString 4]) [2, 1, 0, 0, 0, 0, 0, 0, 2, 0, 0, 0, 104, 105]
     = Inr (VTuple [VI64 258, VString [104, 105]])"
proof -
  have "wf_type (TTuple [TI64, TString 4])"
    by (simp add: wf_type_def MAX_VALUE_BYTES_def MAX_DESCRIPTOR_BYTES_def)
  moreover have "encode (VTuple [VI64 258, VString [104, 105]])
      = Inr [2, 1, 0, 0, 0, 0, 0, 0, 2, 0, 0, 0, 104, 105]"
    by (simp add: encode_def codec_eval)
  moreover have "utf8_ok [104, 105]"
    by (simp add: utf8_ok.simps utf8_width_def)
  ultimately show ?thesis
    by (simp add: value_codec_exact)
qed



end
