(* ===== verification/Blop_Key.thy ===== *)
theory Blop_Key
  imports Blop_Value
begin

unbundle bit_operations_syntax

section \<open>Storage schemas and ordered keys (\<^verbatim>\<open>src/storage/encoding.rs\<close>)\<close>

text \<open>
  The storage layer reads type descriptors with a decoder of its own, validates encoded
  values without building them, and rewrites an encoded value as a key whose bytes compare
  like the values. Shown here: the schema decoder agrees with \<^verbatim>\<open>Type::decode\<close> on all types
  without \<^verbatim>\<open>Rows\<close>; \<^verbatim>\<open>encode_key\<close> and \<^verbatim>\<open>decode_key\<close> are exact and inverse to each other; the
  key order is the value order.
\<close>

subsection \<open>Data\<close>

definition MAX_KEY_BYTES :: nat where "MAX_KEY_BYTES = 1024"

datatype type_node =
    NUnit
  | NBoolean
  | NI64
  | NU64
  | NBytes nat
  | NString nat
  | NTuple "type_node list"

record schema =
  s_descriptor :: bytes
  s_node :: type_node
  s_max_value_bytes :: nat
  s_max_key_bytes :: nat

definition m_schema_long :: string where
  "m_schema_long = ''schema descriptor exceeds 65,536 bytes''"
definition m_schema_trailing :: string where
  "m_schema_trailing = ''trailing schema descriptor bytes''"
definition m_schema_truncated :: string where
  "m_schema_truncated = ''truncated schema, value, or key''"
definition m_schema_depth :: string where "m_schema_depth = ''schema nesting exceeds depth 16''"
definition m_schema_overflow :: string where "m_schema_overflow = ''schema value size overflow''"
definition m_key_overflow :: string where "m_key_overflow = ''schema key size overflow''"
definition m_schema_size :: string where "m_schema_size = ''schema value size exceeds 16 MiB''"
definition m_schema_rows :: string where "m_schema_rows = ''Rows is not a storage schema type''"
definition m_schema_tag :: string where "m_schema_tag = ''unknown schema type tag''"
definition m_value_size :: string where "m_value_size = ''value exceeds schema maximum size''"
definition m_key_schema :: string where "m_key_schema = ''schema key size exceeds 1,024 bytes''"
definition m_bool_value :: string where "m_bool_value = ''invalid Boolean value''"
definition m_bool_key :: string where "m_bool_key = ''invalid Boolean key''"
definition m_schema_bound :: string where "m_schema_bound = ''byte length exceeds schema bound''"
definition m_schema_utf8 :: string where "m_schema_utf8 = ''invalid UTF-8 string''"
definition m_key_size :: string where "m_key_size = ''key exceeds schema maximum size''"
definition m_key_trailing :: string where "m_key_trailing = ''trailing key bytes''"
definition m_escape :: string where "m_escape = ''invalid key escape''"

abbreviation schema_truncated :: storage_error where
  "schema_truncated \<equiv> InvalidInput m_schema_truncated"

subsection \<open>Schema descriptors\<close>

fun read_nodes :: "(bytes \<Rightarrow> storage_error + (type_node \<times> nat \<times> nat) \<times> bytes) \<Rightarrow> nat \<Rightarrow> bytes \<Rightarrow>
    nat \<Rightarrow> nat \<Rightarrow> type_node list \<Rightarrow> storage_error + (type_node list \<times> nat \<times> nat) \<times> bytes" where
  "read_nodes f 0 input vb kb nodes = Inr ((nodes, vb, kb), input)"
| "read_nodes f (Suc n) input vb kb nodes =
     rbind (f input) (\<lambda>((field, value_size, key_size), input).
     rbind (ok_or (InvalidInput m_schema_size)
       (case checked_add vb value_size of
          None \<Rightarrow> None
        | Some t \<Rightarrow> if t \<le> MAX_VALUE_BYTES then Some t else None)) (\<lambda>vb.
     rbind (ok_or (InvalidInput m_key_overflow) (checked_add kb key_size)) (\<lambda>kb.
     read_nodes f n input vb kb (nodes @ [field]))))"

function decode_node :: "bytes \<Rightarrow> nat \<Rightarrow> storage_error + (type_node \<times> nat \<times> nat) \<times> bytes" where
  "decode_node input depth =
     (if depth > 16 then Inl (InvalidInput m_schema_depth) else
      rbind (take_u8 schema_truncated input) (\<lambda>(tag, input).
      rbind
        (if tag = 0x00 then Inr ((NUnit, 0, 0), input)
         else if tag = 0x01 then Inr ((NBoolean, 1, 1), input)
         else if tag = 0x02 then Inr ((NI64, 8, 8), input)
         else if tag = 0x03 then Inr ((NU64, 8, 8), input)
         else if tag = 0x04 \<or> tag = 0x05 then
           rbind (take_u32 schema_truncated input) (\<lambda>(bound, input).
           rbind (ok_or (InvalidInput m_schema_overflow) (checked_add (unat bound) 4)) (\<lambda>value_bytes.
           rbind (ok_or (InvalidInput m_key_overflow)
             (Option.bind (checked_mul (unat bound) 2) (\<lambda>b. checked_add b 2))) (\<lambda>key_bytes.
           Inr ((if tag = 0x04 then NBytes (unat bound) else NString (unat bound),
                 value_bytes, key_bytes), input))))
         else if tag = 0x06 then
           rbind (take_u16 schema_truncated input) (\<lambda>(count, input).
           if unat count > 256 then Inl (InvalidInput m_tuple_fields)
           else if unat count > length input then Inl (InvalidInput m_tuple_truncated)
           else
             rbind (read_nodes (\<lambda>input. decode_node input (depth + 1))
                 (unat count) input 0 0 []) (\<lambda>((fields, value_bytes, key_bytes), input).
             Inr ((NTuple fields, value_bytes, key_bytes), input)))
         else if tag = 0x20 then Inl (InvalidInput m_schema_rows)
         else Inl (InvalidInput m_schema_tag)) (\<lambda>((node, value_bytes, key_bytes), input).
      if value_bytes > MAX_VALUE_BYTES then Inl (InvalidInput m_schema_size)
      else Inr ((node, value_bytes, key_bytes), input))))"
  by pat_completeness auto
termination
  by (relation "measure (\<lambda>(input, depth). 17 - depth)") auto

declare decode_node.simps [simp del]

definition schema_decode :: "bytes \<Rightarrow> storage_error + schema" where
  "schema_decode bs =
     (if length bs > MAX_DESCRIPTOR_BYTES then Inl (InvalidInput m_schema_long) else
      rbind (take_u16 schema_truncated bs) (\<lambda>(version, input).
      if version \<noteq> 1 then Inl (Storage_Unsupported ''schema'' version) else
      rbind (decode_node input 1) (\<lambda>((node, vb, kb), input).
      if input \<noteq> [] then Inl (InvalidInput m_schema_trailing) else
      Inr \<lparr>s_descriptor = bs, s_node = node, s_max_value_bytes = vb, s_max_key_bytes = kb\<rparr>)))"

subsection \<open>Escape frames\<close>

fun escape :: "bytes \<Rightarrow> bytes" where
  "escape [] = [0, 0]"
| "escape (b # bs) = (if b = 0 then b # 0xff # escape bs else b # escape bs)"

fun unescape_from :: "bytes \<Rightarrow> bytes \<Rightarrow> storage_error + bytes \<times> bytes" where
  "unescape_from acc [] = Inl schema_truncated"
| "unescape_from acc (b # input) =
     (if b \<noteq> 0 then unescape_from (acc @ [b]) input
      else case input of
          [] \<Rightarrow> Inl schema_truncated
        | c # input \<Rightarrow>
            if c = 0 then Inr (acc, input)
            else if c = 0xff then unescape_from (acc @ [0]) input
            else Inl (InvalidInput m_escape))"

definition unescape :: "bytes \<Rightarrow> storage_error + bytes \<times> nat" where
  "unescape encoded =
     rbind (unescape_from [] encoded) (\<lambda>(bs, input). Inr (bs, length encoded - length input))"

subsection \<open>Values and keys\<close>

definition push_key :: "bytes option \<Rightarrow> bytes \<Rightarrow> bytes option" where
  "push_key key bs = map_option (\<lambda>k. k @ bs) key"

text \<open>A \<^verbatim>\<open>for\<close> loop over readers that thread the input and the output.\<close>

fun read_each :: "('s \<Rightarrow> 'e + 's) list \<Rightarrow> 's \<Rightarrow> 'e + 's" where
  "read_each [] s = Inr s"
| "read_each (f # fs) s = rbind (f s) (read_each fs)"

text \<open>The key form of \<^verbatim>\<open>i64\<close>: \<^verbatim>\<open>number ^= 1 << 63\<close>.\<close>

definition flip_sign :: "u64 \<Rightarrow> u64" where
  "flip_sign number = number XOR push_bit 63 1"

primrec read_value :: "type_node \<Rightarrow> bytes \<times> bytes option \<Rightarrow> storage_error + bytes \<times> bytes option" where
  "read_value NUnit = Inr"
| "read_value NBoolean = (\<lambda>(input, key).
     rbind (take_u8 schema_truncated input) (\<lambda>(b, input).
     if b > 1 then Inl (InvalidInput m_bool_value) else Inr (input, push_key key [b])))"
| "read_value NI64 = (\<lambda>(input, key).
     rbind (take_u64 schema_truncated input) (\<lambda>(number, input).
     Inr (input, push_key key (u64_be (flip_sign number)))))"
| "read_value NU64 = (\<lambda>(input, key).
     rbind (take_u64 schema_truncated input) (\<lambda>(number, input).
     Inr (input, push_key key (u64_be number))))"
| "read_value (NBytes bound) = (\<lambda>(input, key).
     rbind (take_u32 schema_truncated input) (\<lambda>(len, input).
     if unat len > bound then Inl (InvalidInput m_schema_bound) else
     rbind (take_bytes schema_truncated (unat len) input) (\<lambda>(bs, input).
     Inr (input, push_key key (escape bs)))))"
| "read_value (NString bound) = (\<lambda>(input, key).
     rbind (take_u32 schema_truncated input) (\<lambda>(len, input).
     if unat len > bound then Inl (InvalidInput m_schema_bound) else
     rbind (take_bytes schema_truncated (unat len) input) (\<lambda>(bs, input).
     if \<not> utf8_ok bs then Inl (InvalidInput m_schema_utf8) else
     Inr (input, push_key key (escape bs)))))"
| "read_value (NTuple nodes) = read_each (map read_value nodes)"

primrec read_key :: "type_node \<Rightarrow> bytes \<times> bytes \<Rightarrow> storage_error + bytes \<times> bytes" where
  "read_key NUnit = Inr"
| "read_key NBoolean = (\<lambda>(input, out).
     rbind (take_u8 schema_truncated input) (\<lambda>(b, input).
     if b > 1 then Inl (InvalidInput m_bool_key) else Inr (input, out @ [b])))"
| "read_key NI64 = (\<lambda>(input, out).
     rbind (take_bytes schema_truncated 8 input) (\<lambda>(bs, input).
     Inr (input, out @ u64_le (flip_sign (u64_of_be bs)))))"
| "read_key NU64 = (\<lambda>(input, out).
     rbind (take_bytes schema_truncated 8 input) (\<lambda>(bs, input).
     Inr (input, out @ u64_le (u64_of_be bs))))"
| "read_key (NBytes bound) = (\<lambda>(input, out).
     rbind (unescape input) (\<lambda>(bs, consumed).
     if length bs > bound then Inl (InvalidInput m_schema_bound) else
     Inr (drop consumed input, out @ u32_le (of_nat (length bs)) @ bs)))"
| "read_key (NString bound) = (\<lambda>(input, out).
     rbind (unescape input) (\<lambda>(bs, consumed).
     if length bs > bound then Inl (InvalidInput m_schema_bound) else
     if \<not> utf8_ok bs then Inl (InvalidInput m_schema_utf8) else
     Inr (drop consumed input, out @ u32_le (of_nat (length bs)) @ bs)))"
| "read_key (NTuple nodes) = read_each (map read_key nodes)"

definition validate_value :: "schema \<Rightarrow> bytes \<Rightarrow> storage_error + unit" where
  "validate_value s bs =
     (if length bs > s_max_value_bytes s then Inl (InvalidInput m_value_size) else
      rbind (read_value (s_node s) (bs, None)) (\<lambda>(input, _).
      if input \<noteq> [] then Inl (InvalidInput m_value_trailing) else Inr ()))"

definition encode_key :: "schema \<Rightarrow> bytes \<Rightarrow> storage_error + bytes" where
  "encode_key s bs =
     (if s_max_key_bytes s > MAX_KEY_BYTES then Inl (InvalidInput m_key_schema) else
      if length bs > s_max_value_bytes s then Inl (InvalidInput m_value_size) else
      rbind (read_value (s_node s) (bs, Some [])) (\<lambda>(input, key).
      if input \<noteq> [] then Inl (InvalidInput m_value_trailing) else Inr (the key)))"

definition decode_key :: "schema \<Rightarrow> bytes \<Rightarrow> storage_error + bytes" where
  "decode_key s key =
     (if s_max_key_bytes s > MAX_KEY_BYTES then Inl (InvalidInput m_key_schema) else
      if length key > s_max_key_bytes s then Inl (InvalidInput m_key_size) else
      rbind (read_key (s_node s) (key, [])) (\<lambda>(input, out).
      if input \<noteq> [] then Inl (InvalidInput m_key_trailing) else Inr out))"

subsection \<open>The schema decoder agrees with the type decoder\<close>

fun storable :: "vm_type \<Rightarrow> bool" where
  "storable (TTuple ts) \<longleftrightarrow> list_all storable ts"
| "storable (TRows _ _ _) \<longleftrightarrow> False"
| "storable _ \<longleftrightarrow> True"

fun node_of :: "vm_type \<Rightarrow> type_node" where
  "node_of TUnit = NUnit"
| "node_of TBoolean = NBoolean"
| "node_of TI64 = NI64"
| "node_of TU64 = NU64"
| "node_of (TBytes b) = NBytes (unat b)"
| "node_of (TString b) = NString (unat b)"
| "node_of (TTuple ts) = NTuple (map node_of ts)"
| "node_of (TRows _ _ _) = NUnit"

fun max_key_bytes :: "vm_type \<Rightarrow> nat" where
  "max_key_bytes TUnit = 0"
| "max_key_bytes TBoolean = 1"
| "max_key_bytes TI64 = 8"
| "max_key_bytes TU64 = 8"
| "max_key_bytes (TBytes b) = 2 * unat b + 2"
| "max_key_bytes (TString b) = 2 * unat b + 2"
| "max_key_bytes (TTuple ts) = sum_list (map max_key_bytes ts)"
| "max_key_bytes (TRows _ _ _) = 0"

lemma max_key_value: "storable ty \<Longrightarrow> max_key_bytes ty \<le> 2 * max_value_bytes ty"
proof (induction ty)
  case (TTuple ts)
  then have "sum_list (map max_key_bytes ts) \<le> sum_list (map (\<lambda>t. 2 * max_value_bytes t) ts)"
    by (intro sum_list_mono_all2) (auto simp: list_all2_conv_all_nth list_all_length)
  then show ?case by (simp add: sum_list_const_mult)
qed auto

lemma storable_nested: "wf_at depth ty \<Longrightarrow> depth \<noteq> 1 \<Longrightarrow> 1 \<le> depth \<Longrightarrow> storable ty"
  by (induction depth ty rule: wf_at.induct) (auto simp: list_all_iff)

definition schema_of :: "vm_type \<Rightarrow> bytes \<Rightarrow> schema" where
  "schema_of ty bs = \<lparr>s_descriptor = bs, s_node = node_of ty,
     s_max_value_bytes = max_value_bytes ty, s_max_key_bytes = max_key_bytes ty\<rparr>"

lemma read_nodes_exact:
  assumes f: "\<And>input node vb kb rest. f input = Inr ((node, vb, kb), rest) \<longleftrightarrow>
      (\<exists>t. P t \<and> node = node_of t \<and> vb = max_value_bytes t \<and> kb = max_key_bytes t
         \<and> input = encode_type t @ rest)"
    and P: "\<And>t. P t \<Longrightarrow> max_value_bytes t \<le> MAX_VALUE_BYTES \<and> max_key_bytes t \<le> 2 * max_value_bytes t"
    and "vb \<le> MAX_VALUE_BYTES" and "kb \<le> 2 * vb"
  shows "read_nodes f n input vb kb nodes = Inr ((ns, vb', kb'), rest) \<longleftrightarrow>
    (\<exists>new. ns = nodes @ map node_of new \<and> length new = n \<and> list_all P new
      \<and> vb' = vb + sum_list (map max_value_bytes new) \<and> vb' \<le> MAX_VALUE_BYTES
      \<and> kb' = kb + sum_list (map max_key_bytes new)
      \<and> input = concat (map encode_type new) @ rest)"
  using assms(3,4)
proof (induction n arbitrary: input vb kb nodes)
  case 0
  then show ?case by auto
next
  case (Suc n)
  show ?case
  proof
    assume "read_nodes f (Suc n) input vb kb nodes = Inr ((ns, vb', kb'), rest)"
    then obtain t i where 1: "P t" "input = encode_type t @ i" "vb + max_value_bytes t \<le> MAX_VALUE_BYTES"
      "read_nodes f n i (vb + max_value_bytes t) (kb + max_key_bytes t) (nodes @ [node_of t])
        = Inr ((ns, vb', kb'), rest)"
      by (auto simp: result_simps f split: option.splits if_splits)
    then obtain new where "ns = (nodes @ [node_of t]) @ map node_of new" "length new = n" "list_all P new"
      "vb' = vb + max_value_bytes t + sum_list (map max_value_bytes new)" "vb' \<le> MAX_VALUE_BYTES"
      "kb' = kb + max_key_bytes t + sum_list (map max_key_bytes new)"
      "i = concat (map encode_type new) @ rest"
      using Suc.IH[of "vb + max_value_bytes t" "kb + max_key_bytes t" i "nodes @ [node_of t]"]
        Suc.prems P[OF 1(1)] by auto
    with 1 show "\<exists>new. ns = nodes @ map node_of new \<and> length new = Suc n \<and> list_all P new
      \<and> vb' = vb + sum_list (map max_value_bytes new) \<and> vb' \<le> MAX_VALUE_BYTES
      \<and> kb' = kb + sum_list (map max_key_bytes new)
      \<and> input = concat (map encode_type new) @ rest"
      by (intro exI[of _ "t # new"]) simp
  next
    assume "\<exists>new. ns = nodes @ map node_of new \<and> length new = Suc n \<and> list_all P new
      \<and> vb' = vb + sum_list (map max_value_bytes new) \<and> vb' \<le> MAX_VALUE_BYTES
      \<and> kb' = kb + sum_list (map max_key_bytes new)
      \<and> input = concat (map encode_type new) @ rest"
    then obtain t new where 1: "ns = (nodes @ [node_of t]) @ map node_of new" "length new = n" "P t"
      "list_all P new"
      "vb' = vb + max_value_bytes t + sum_list (map max_value_bytes new)" "vb' \<le> MAX_VALUE_BYTES"
      "kb' = kb + max_key_bytes t + sum_list (map max_key_bytes new)"
      "input = encode_type t @ concat (map encode_type new) @ rest"
      by (auto simp: length_Suc_conv)
    have "f input = Inr ((node_of t, max_value_bytes t, max_key_bytes t), concat (map encode_type new) @ rest)"
      using 1 f by auto
    moreover have "read_nodes f n (concat (map encode_type new) @ rest) (vb + max_value_bytes t)
        (kb + max_key_bytes t) (nodes @ [node_of t]) = Inr ((ns, vb', kb'), rest)"
      using 1 Suc.prems P[of t] by (subst Suc.IH) auto
    moreover have "vb + max_value_bytes t < 2 ^ 64" "kb + max_key_bytes t < 2 ^ 64"
      using 1 Suc.prems P[of t] by (auto simp: MAX_VALUE_BYTES_def)
    ultimately show "read_nodes f (Suc n) input vb kb nodes = Inr ((ns, vb', kb'), rest)"
      using 1 by auto
  qed
qed

lemma decode_node_tags:
  assumes "depth \<le> 16"
  shows "decode_node [] depth = Inl schema_truncated"
    "decode_node (0x00 # i) depth = Inr ((NUnit, 0, 0), i)"
    "decode_node (0x01 # i) depth = Inr ((NBoolean, 1, 1), i)"
    "decode_node (0x02 # i) depth = Inr ((NI64, 8, 8), i)"
    "decode_node (0x03 # i) depth = Inr ((NU64, 8, 8), i)"
    "t \<notin> {0, 1, 2, 3, 4, 5, 6} \<Longrightarrow> \<exists>e. decode_node (t # i) depth = Inl e"
  using assms
  by (simp_all add: decode_node.simps[of _ depth] MAX_VALUE_BYTES_def)

lemma decode_node_blob:
  assumes "depth \<le> 16"
  shows "decode_node (0x04 # i) depth = Inr ((node, vb, kb), rest) \<longleftrightarrow>
      (\<exists>b :: u32. node = NBytes (unat b) \<and> vb = 4 + unat b \<and> kb = 2 * unat b + 2
        \<and> vb \<le> MAX_VALUE_BYTES \<and> i = u32_le b @ rest)"
    and "decode_node (0x05 # i) depth = Inr ((node, vb, kb), rest) \<longleftrightarrow>
      (\<exists>b :: u32. node = NString (unat b) \<and> vb = 4 + unat b \<and> kb = 2 * unat b + 2
        \<and> vb \<le> MAX_VALUE_BYTES \<and> i = u32_le b @ rest)"
  using assms
  by (fastforce simp: decode_node.simps[of _ depth] result_simps MAX_VALUE_BYTES_def
      bind_eq_Some_conv split: if_splits)+

lemma decode_node_tuple:
  assumes "depth \<le> 16"
  shows "decode_node (0x06 # i) depth = Inr ((node, vb, kb), rest) \<longleftrightarrow>
      (\<exists>c input ns. i = u16_le c @ input \<and> unat c \<le> 256 \<and> unat c \<le> length input
        \<and> read_nodes (\<lambda>input. decode_node input (Suc depth)) (unat c) input 0 0 []
            = Inr ((ns, vb, kb), rest)
        \<and> node = NTuple ns \<and> vb \<le> MAX_VALUE_BYTES)"
  using assms by (fastforce simp: decode_node.simps[of _ depth] result_simps not_less split: if_splits)

lemma decode_node_exact:
  assumes "1 \<le> depth"
  shows "decode_node input depth = Inr ((node, vb, kb), rest) \<longleftrightarrow>
     (\<exists>ty. wf_at depth ty \<and> storable ty \<and> node = node_of ty \<and> vb = max_value_bytes ty
        \<and> kb = max_key_bytes ty \<and> input = encode_type ty @ rest)"
  using assms
proof (induction "17 - depth" arbitrary: depth input node vb kb rest rule: less_induct)
  case less
  show ?case
  proof (cases "depth \<le> 16")
    case False
    then have "\<not> wf_at depth ty" for ty using less.prems by (cases ty) auto
    with False show ?thesis by (simp add: decode_node.simps[of input depth])
  next
    case True
    let ?P = "\<lambda>t. wf_at (Suc depth) t \<and> storable t"
    have IH: "decode_node i (Suc depth) = Inr ((x, m, k), r) \<longleftrightarrow>
        (\<exists>t. ?P t \<and> x = node_of t \<and> m = max_value_bytes t \<and> k = max_key_bytes t
           \<and> i = encode_type t @ r)" for i x m k r
      using True less.prems by (subst less.hyps) auto
    have nodes: "read_nodes (\<lambda>i. decode_node i (Suc depth)) c i 0 0 [] = Inr ((ns, m, k), r) \<longleftrightarrow>
        (\<exists>ts. ns = map node_of ts \<and> length ts = c \<and> list_all ?P ts
          \<and> m = sum_list (map max_value_bytes ts) \<and> m \<le> MAX_VALUE_BYTES
          \<and> k = sum_list (map max_key_bytes ts) \<and> i = concat (map encode_type ts) @ r)" for c i ns m k r
      by (subst read_nodes_exact[where P = ?P]) (auto simp: IH wf_at_max max_key_value)
    have long: "length ts \<le> length (concat (map encode_type ts) @ r)" for ts r
      using sum_list_ge_bound[of ts 1 "\<lambda>t. length (encode_type t)"] encode_type_nonempty
      by (simp add: length_concat comp_def trans_le_add1)
    have small: "unat (of_nat (length ts) :: u16) = length ts" if "length ts \<le> 256" for ts :: "vm_type list"
      using that by (simp add: unat_of_nat)
    note tags = decode_node_tags(1-5)[OF True] decode_node_blob[OF True] decode_node_tuple[OF True]
    show ?thesis
    proof
      assume L: "decode_node input depth = Inr ((node, vb, kb), rest)"
      then obtain t i where ti: "input = t # i"
        by (cases input) (auto simp: decode_node_tags(1)[OF True])
      then have "t \<in> {0, 1, 2, 3, 4, 5, 6}"
        using decode_node_tags(6)[OF True, of t i] L by fastforce
      with ti have input: "input = t # i" "t \<in> {0, 1, 2, 3, 4, 5, 6}" .
      then consider "t = 0" | "t = 1" | "t = 2" | "t = 3" | "t = 4" | "t = 5" | "t = 6"
        by auto
      then show "\<exists>ty. wf_at depth ty \<and> storable ty \<and> node = node_of ty \<and> vb = max_value_bytes ty
        \<and> kb = max_key_bytes ty \<and> input = encode_type ty @ rest"
      proof cases
        case 1
        then show ?thesis using L input True by (intro exI[of _ TUnit]) (auto simp: tags)
      next
        case 2
        then show ?thesis using L input True by (intro exI[of _ TBoolean]) (auto simp: tags)
      next
        case 3
        then show ?thesis using L input True by (intro exI[of _ TI64]) (auto simp: tags)
      next
        case 4
        then show ?thesis using L input True by (intro exI[of _ TU64]) (auto simp: tags)
      next
        case 5
        then obtain b :: u32 where "node = NBytes (unat b)" "vb = 4 + unat b" "kb = 2 * unat b + 2"
          "vb \<le> MAX_VALUE_BYTES" "i = u32_le b @ rest"
          using L input by (auto simp: tags)
        then show ?thesis using True input 5 by (intro exI[of _ "TBytes b"]) auto
      next
        case 6
        then obtain b :: u32 where "node = NString (unat b)" "vb = 4 + unat b" "kb = 2 * unat b + 2"
          "vb \<le> MAX_VALUE_BYTES" "i = u32_le b @ rest"
          using L input by (auto simp: tags)
        then show ?thesis using True input 6 by (intro exI[of _ "TString b"]) auto
      next
        case 7
        then obtain c ts where "i = u16_le c @ concat (map encode_type ts) @ rest"
          "node = NTuple (map node_of ts)" "length ts = unat c" "unat c \<le> 256" "list_all ?P ts"
          "vb = sum_list (map max_value_bytes ts)" "vb \<le> MAX_VALUE_BYTES"
          "kb = sum_list (map max_key_bytes ts)"
          using L input by (auto simp: tags nodes)
        then show ?thesis using True input 7 by (intro exI[of _ "TTuple ts"]) (auto simp: list_all_iff)
      qed
    next
      assume "\<exists>ty. wf_at depth ty \<and> storable ty \<and> node = node_of ty \<and> vb = max_value_bytes ty
        \<and> kb = max_key_bytes ty \<and> input = encode_type ty @ rest"
      then obtain ty where R: "wf_at depth ty" "storable ty" "node = node_of ty" "vb = max_value_bytes ty"
        "kb = max_key_bytes ty" "input = encode_type ty @ rest" by blast
      show "decode_node input depth = Inr ((node, vb, kb), rest)"
      proof (cases ty)
        case (TTuple ts)
        have "list_all ?P ts" using R TTuple by (auto simp: list_all_iff)
        then show ?thesis
          using R TTuple long small[of ts]
          by (auto simp: tags nodes simp del: length_append intro!: exI[of _ "of_nat (length ts)"] exI[of _ ts])
      qed (use R in \<open>auto simp: tags\<close>)
    qed
  qed
qed

lemma schema_decode_exact:
  "schema_decode bs = Inr s \<longleftrightarrow> (\<exists>ty. type_decode bs = Inr ty \<and> storable ty \<and> s = schema_of ty bs)"
proof
  assume "schema_decode bs = Inr s"
  then obtain i node vb kb where 1: "length bs \<le> MAX_DESCRIPTOR_BYTES" "bs = u16_le 1 @ i"
    "decode_node i 1 = Inr ((node, vb, kb), [])"
    "s = \<lparr>s_descriptor = bs, s_node = node, s_max_value_bytes = vb, s_max_key_bytes = kb\<rparr>"
    by (auto simp: schema_decode_def result_simps not_less split: if_splits)
  then obtain ty where ty: "wf_at 1 ty" "storable ty" "node = node_of ty" "vb = max_value_bytes ty"
    "kb = max_key_bytes ty" "i = encode_type ty"
    using decode_node_exact[of 1 i node vb kb "[]"] by auto
  then have "type_decode bs = Inr ty"
    using 1 by (auto simp: type_decode_exact wf_type_def descriptor_def wf_at_counts)
  then show "\<exists>ty. type_decode bs = Inr ty \<and> storable ty \<and> s = schema_of ty bs"
    using 1 ty by (auto simp: schema_of_def)
next
  assume "\<exists>ty. type_decode bs = Inr ty \<and> storable ty \<and> s = schema_of ty bs"
  then obtain ty where ty: "wf_type ty" "descriptor ty = Inr bs" "storable ty" "s = schema_of ty bs"
    by (auto simp: type_decode_exact)
  then have "decode_node (encode_type ty) 1 = Inr ((node_of ty, max_value_bytes ty, max_key_bytes ty), [])"
    by (subst decode_node_exact) (auto simp: wf_type_def)
  then show "schema_decode bs = Inr s"
    using ty by (auto simp: schema_decode_def descriptor_def wf_type_def schema_of_def split: if_splits)
qed

subsection \<open>The order of escape frames\<close>

lemma unescape_from_escape: "unescape_from acc (escape bs @ rest) = Inr (acc @ bs, rest)"
  by (induction bs arbitrary: acc) auto

lemma unescape_from_exact:
  "unescape_from acc input = Inr (out, rest) \<longleftrightarrow> (\<exists>bs. out = acc @ bs \<and> input = escape bs @ rest)"
proof
  show "unescape_from acc input = Inr (out, rest) \<Longrightarrow> \<exists>bs. out = acc @ bs \<and> input = escape bs @ rest"
  proof (induction acc input rule: unescape_from.induct)
    case (2 acc b input)
    show ?case
    proof (cases "b = 0")
      case False
      then obtain bs where "out = (acc @ [b]) @ bs" "input = escape bs @ rest"
        using 2 by auto
      then show ?thesis using False by (intro exI[of _ "b # bs"]) auto
    next
      case True
      then obtain c i where c: "input = c # i" using 2(3) by (cases input) auto
      show ?thesis
      proof (cases "c = 0")
        case True
        then show ?thesis using \<open>b = 0\<close> c 2(3) by (intro exI[of _ "[]"]) auto
      next
        case False
        then have "c = 0xff" using \<open>b = 0\<close> c 2(3) by (auto split: if_splits)
        then obtain bs where "out = (acc @ [0]) @ bs" "i = escape bs @ rest"
          using 2(2)[of c i] 2(3) \<open>b = 0\<close> c by auto
        then show ?thesis using \<open>b = 0\<close> \<open>c = 0xff\<close> c by (intro exI[of _ "0 # bs"]) auto
      qed
    qed
  qed simp
qed (auto simp: unescape_from_escape)

lemma unescape_exact:
  "unescape input = Inr (bs, n) \<longleftrightarrow> (\<exists>rest. input = escape bs @ rest \<and> n = length (escape bs))"
  by (auto simp: unescape_def result_simps unescape_from_exact)

lemma escape_less_iff:
  "escape bs @ u < escape cs @ v \<longleftrightarrow> bs < cs \<or> (bs = cs \<and> u < v)"
proof (induction bs arbitrary: cs)
  case Nil
  then show ?case
    by (cases cs) (auto simp: word_neq_0_conv)
next
  case (Cons b bs)
  then show ?case
    by (cases cs) (auto simp: word_neq_0_conv)
qed

lemma length_escape: "length (escape bs) \<le> 2 * length bs + 2"
  by (induction bs) auto

text \<open>Flipping the sign bit turns the signed order into the unsigned one.\<close>

lemma flip_sign_involution [simp]: "flip_sign (flip_sign n) = n"
  by (simp add: flip_sign_def xor.assoc)

lemma flip_sign_eq [simp]: "flip_sign n = flip_sign m \<longleftrightarrow> n = m"
  by (metis flip_sign_involution)

lemma flip_sign_add: "flip_sign n = n + 2 ^ 63"
proof -
  have "flip_sign n = flip_bit 63 n"
    by (simp add: flip_sign_def flip_bit_eq_xor)
  also have "\<dots> = (if bit n 63 then n - 2 ^ 63 else n + 2 ^ 63)"
    by (simp add: flip_bit_eq_if unset_bit_eq set_bit_eq)
  also have "\<dots> = n + 2 ^ 63" by simp
  finally show ?thesis .
qed

lemma uint_flip_sign: "uint (flip_sign n) = sint n + 2 ^ 63"
proof -
  have "uint (n + 2 ^ 63) = uint (of_int (sint n + 2 ^ 63) :: u64)"
    by simp
  also have "\<dots> = (sint n + 2 ^ 63) mod 2 ^ 64"
    by (simp only: uint_word_of_int) simp
  also have "\<dots> = sint n + 2 ^ 63"
    using sint_ge[of n] sint_lt[of n] by (intro mod_pos_pos_trivial) simp_all
  finally show ?thesis
    by (simp only: flip_sign_add)
qed

lemma flip_sign_less: "flip_sign n < flip_sign m \<longleftrightarrow> n <s m"
  by (simp add: word_less_def word_sless_alt uint_flip_sign)

subsection \<open>Keys of values\<close>

text \<open>The key of a value, independently of its encoding.\<close>

fun key_of :: "vm_value \<Rightarrow> bytes" where
  "key_of VUnit = []"
| "key_of (VBoolean b) = [if b then 1 else 0]"
| "key_of (VI64 n) = u64_be (flip_sign n)"
| "key_of (VU64 n) = u64_be n"
| "key_of (VBytes bs) = escape bs"
| "key_of (VString text) = escape text"
| "key_of (VTuple vs) = concat (map key_of vs)"
| "key_of (VRows _) = []"

lemma key_of_bound: "accepts ty v \<Longrightarrow> storable ty \<Longrightarrow> length (key_of v) \<le> max_key_bytes ty"
proof (induction ty v rule: accepts.induct)
  case (5 bound v)
  then show ?case by (cases v) (auto intro: order_trans[OF length_escape])
next
  case (6 bound v)
  then show ?case by (cases v) (auto intro: order_trans[OF length_escape])
next
  case (7 types v)
  then show ?case
    by (cases v) (auto simp: length_concat comp_def list_all2_conv_all_nth list_all_length
        intro!: sum_list_mono_all2)
qed (auto split: vm_value.splits)

lemma keys_less_iff:
  assumes "\<And>t v w a b. t \<in> set ts \<Longrightarrow> accepts t v \<Longrightarrow> accepts t w \<Longrightarrow>
      key_of v @ a < key_of w @ b \<longleftrightarrow> v < w \<or> (v = w \<and> a < b)"
    and "list_all2 accepts ts vs" "list_all2 accepts ts ws"
  shows "concat (map key_of vs) @ a < concat (map key_of ws) @ b \<longleftrightarrow>
    values_lt vs ws \<or> (vs = ws \<and> a < b)"
  using assms
proof (induction ts arbitrary: vs ws)
  case (Cons t ts)
  obtain v vs' w ws' where vs: "vs = v # vs'" "ws = w # ws'" "accepts t v" "accepts t w"
    "list_all2 accepts ts vs'" "list_all2 accepts ts ws'"
    using Cons.prems by (auto simp: list_all2_Cons1)
  have P: "key_of v @ a < key_of w @ b \<longleftrightarrow> v < w \<or> (v = w \<and> a < b)"
    if "t' \<in> set ts" "accepts t' v" "accepts t' w" for t' v w a b
    using that by (intro Cons.prems(1)[of t']) auto
  show ?case
    using Cons.IH[OF P vs(5,6)]
 Cons.prems(1)[of t v w] vs by (auto simp: less_vm_value_def)
qed auto

lemma key_of_less_append:
  "storable ty \<Longrightarrow> accepts ty v \<Longrightarrow> accepts ty w \<Longrightarrow>
   key_of v @ a < key_of w @ b \<longleftrightarrow> v < w \<or> (v = w \<and> a < b)"
proof (induction ty arbitrary: v w a b)
  case (TTuple ts)
  then obtain vs ws where v: "v = VTuple vs" "w = VTuple ws" "list_all2 accepts ts vs" "list_all2 accepts ts ws"
    by (cases v; cases w) auto
  have "concat (map key_of vs) @ a < concat (map key_of ws) @ b \<longleftrightarrow>
      values_lt vs ws \<or> (vs = ws \<and> a < b)"
    using TTuple.prems(1) by (intro keys_less_iff[OF TTuple.IH v(3,4)]) (auto simp: list_all_iff)
  then show ?case
    using v by (simp add: less_vm_value_def)
next
  case TBoolean
  then show ?case by (cases v; cases w) (auto simp: less_vm_value_def)
next
  case TI64
  then show ?case
    by (cases v; cases w) (auto simp: less_vm_value_def lex_append_same_length flip_sign_less)
next
  case TU64
  then show ?case by (cases v; cases w) (auto simp: less_vm_value_def lex_append_same_length)
qed (auto simp: less_vm_value_def escape_less_iff split: vm_value.splits)

lemma key_of_less: "storable ty \<Longrightarrow> accepts ty v \<Longrightarrow> accepts ty w \<Longrightarrow> key_of v < key_of w \<longleftrightarrow> v < w"
  using key_of_less_append[of ty v w "[]" "[]"] by simp

lemma key_of_inject: "storable ty \<Longrightarrow> accepts ty v \<Longrightarrow> accepts ty w \<Longrightarrow> key_of v = key_of w \<longleftrightarrow> v = w"
  by (metis key_of_less order_less_irrefl linorder_less_linear)

lemma key_of_prefix_free:
  "storable ty \<Longrightarrow> accepts ty v \<Longrightarrow> accepts ty w \<Longrightarrow> key_of v @ a = key_of w @ b \<Longrightarrow> v = w"
  by (metis key_of_less_append order_less_irrefl linorder_less_linear)

subsection \<open>Readers that rewrite one encoding into another\<close>

text \<open>
  Both directions of the key conversion read an encoding and append another one to an
  output. The interface is the output: what is appended piecewise is appended as a whole.
\<close>

locale sink =
  fixes append_out :: "'o \<Rightarrow> bytes \<Rightarrow> 'o"
  assumes append_nil: "append_out out [] = out"
    and append_append: "append_out (append_out out xs) ys = append_out out (xs @ ys)"
begin

lemma read_each_exact:
  assumes "\<And>t input out rest out'. t \<in> set ts \<Longrightarrow>
      f t (input, out) = Inr (rest, out') \<longleftrightarrow>
      (\<exists>v. P t v \<and> input = e v @ rest \<and> out' = append_out out (g v))"
  shows "read_each (map f ts) (input, out) = Inr (rest, out') \<longleftrightarrow>
    (\<exists>vs. list_all2 P ts vs \<and> input = concat (map e vs) @ rest
       \<and> out' = append_out out (concat (map g vs)))"
  using assms
proof (induction ts arbitrary: input out)
  case Nil
  then show ?case by (auto simp: append_nil)
next
  case (Cons t ts)
  have f: "f t (input, out) = Inr (rest, out') \<longleftrightarrow>
      (\<exists>v. P t v \<and> input = e v @ rest \<and> out' = append_out out (g v))" for input out rest out'
    by (rule Cons.prems) simp
  have IH: "read_each (map f ts) (input, out) = Inr (rest, out') \<longleftrightarrow>
    (\<exists>vs. list_all2 P ts vs \<and> input = concat (map e vs) @ rest
       \<and> out' = append_out out (concat (map g vs)))" for input out
    by (rule Cons.IH) (rule Cons.prems, simp)
  show ?case (is "?L \<longleftrightarrow> ?R")
  proof
    assume ?L
    then obtain v i vs where "P t v" "input = e v @ i" "list_all2 P ts vs"
      "i = concat (map e vs) @ rest" "out' = append_out (append_out out (g v)) (concat (map g vs))"
      by (auto simp: result_simps f IH)
    then show ?R
      by (intro exI[of _ "v # vs"]) (simp add: append_append)
  next
    assume ?R
    then obtain v vs where "P t v" "list_all2 P ts vs" "input = e v @ concat (map e vs) @ rest"
      "out' = append_out (append_out out (g v)) (concat (map g vs))"
      by (auto simp: list_all2_Cons1 append_append)
    then show ?L
      using f[of input out "concat (map e vs) @ rest" "append_out out (g v)"]
        IH[of "concat (map e vs) @ rest" "append_out out (g v)"] by auto
  qed
qed

end

interpretation key_sink: sink push_key
  by unfold_locales (auto simp: push_key_def option.map_comp comp_def option.map_ident)

interpretation value_sink: sink "(@)"
  by unfold_locales auto

lemma byte_le_1: "\<not> (1 :: byte) < b \<longleftrightarrow> b = 0 \<or> b = 1"
proof
  assume "\<not> 1 < b"
  then have "unat b \<le> 1" by (simp add: word_less_nat_alt)
  then have "of_nat (unat b) = (0 :: byte) \<or> of_nat (unat b) = (1 :: byte)"
    by (cases "unat b") auto
  then show "b = 0 \<or> b = 1" by simp
qed auto

lemma byte_if_exact:
  "rbind (take_u8 e input) (\<lambda>(b, input). if 1 < b then Inl d else Inr (input, f b)) = Inr (rest, out)
   \<longleftrightarrow> (input = 0 # rest \<and> out = f 0) \<or> (input = 1 # rest \<and> out = f 1)"
proof (cases input)
  case (Cons b i)
  have "\<not> 1 < b \<longleftrightarrow> b = 0 \<or> b = 1" by (rule byte_le_1)
  with Cons show ?thesis by auto
qed simp

lemma boolean_exists:
  "(\<exists>v. (accepts TBoolean v \<and> value_utf8 v) \<and> Q v) \<longleftrightarrow> Q (VBoolean False) \<or> Q (VBoolean True)"
proof
  assume "\<exists>v. (accepts TBoolean v \<and> value_utf8 v) \<and> Q v"
  then obtain v where v: "accepts TBoolean v" "Q v" by blast
  then obtain b where "v = VBoolean b" by (cases v) auto
  with v show "Q (VBoolean False) \<or> Q (VBoolean True)" by (cases b) auto
next
  have "accepts TBoolean (VBoolean b) \<and> value_utf8 (VBoolean b)" for b by simp
  then show "Q (VBoolean False) \<or> Q (VBoolean True) \<Longrightarrow> \<exists>v. (accepts TBoolean v \<and> value_utf8 v) \<and> Q v"
    by blast
qed

lemma unat_length_bound: "length bs \<le> unat (b :: u32) \<Longrightarrow> unat (of_nat (length bs) :: u32) = length bs"
  using unat_u32_less[of b] by (simp add: unat_of_nat)

lemma read_blob_value:
  "rbind (take_u32 schema_truncated input) (\<lambda>(len, input).
     if unat len > unat (bound :: u32) then Inl (InvalidInput m_schema_bound) else
     rbind (take_bytes schema_truncated (unat len) input) f) = Inr r \<longleftrightarrow>
   (\<exists>bs rest. length bs \<le> unat bound \<and> input = u32_le (of_nat (length bs)) @ bs @ rest \<and> f (bs, rest) = Inr r)"
  (is "?L \<longleftrightarrow> ?R")
proof
  assume ?L
  then obtain len :: u32 and bs rest where "input = u32_le len @ bs @ rest" "length bs = unat len"
    "unat len \<le> unat bound" "f (bs, rest) = Inr r"
    by (auto simp: result_simps not_less split: if_splits)
  then show ?R
    by (intro exI[of _ bs] exI[of _ rest]) simp
next
  assume ?R
  then show ?L by (auto simp: unat_length_bound)
qed

lemma bool_value: "accepts TBoolean v \<longleftrightarrow> (\<exists>b. v = VBoolean b)"
  and i64_value: "accepts TI64 v \<longleftrightarrow> (\<exists>n. v = VI64 n)"
  and u64_value: "accepts TU64 v \<longleftrightarrow> (\<exists>n. v = VU64 n)"
  and unit_value: "accepts TUnit v \<longleftrightarrow> v = VUnit"
  and bytes_value: "accepts (TBytes b) v \<longleftrightarrow> (\<exists>bs. v = VBytes bs \<and> length bs \<le> unat b)"
  and string_value: "accepts (TString b) v \<longleftrightarrow> (\<exists>bs. v = VString bs \<and> length bs \<le> unat b)"
  and tuple_value: "accepts (TTuple ts) v \<longleftrightarrow> (\<exists>vs. v = VTuple vs \<and> list_all2 accepts ts vs)"
  by (cases v; auto)+

lemmas value_forms = bool_value i64_value u64_value unit_value bytes_value string_value tuple_value

lemma list_all2_utf8:
  "list_all2 (\<lambda>t v. accepts t v \<and> value_utf8 v) ts vs \<longleftrightarrow> list_all2 accepts ts vs \<and> list_all value_utf8 vs"
  by (auto simp: list_all2_conv_all_nth list_all_length)

lemma read_value_exact:
  "storable ty \<Longrightarrow> read_value (node_of ty) (input, key) = Inr (rest, key') \<longleftrightarrow>
   (\<exists>v. (accepts ty v \<and> value_utf8 v) \<and> input = encode_value v @ rest \<and> key' = push_key key (key_of v))"
proof (induction ty arbitrary: input key rest key')
  case (TTuple ts)
  have "read_each (map (\<lambda>t. read_value (node_of t)) ts) (input, key) = Inr (rest, key') \<longleftrightarrow>
     (\<exists>vs. list_all2 (\<lambda>t v. accepts t v \<and> value_utf8 v) ts vs \<and> input = concat (map encode_value vs) @ rest
       \<and> key' = push_key key (concat (map key_of vs)))"
    using TTuple by (intro key_sink.read_each_exact) (auto simp: list_all_iff)
  then show ?case
    by (auto simp: comp_def list_all2_utf8 value_forms simp del: accepts.simps)
next
  case TBoolean
  then show ?case
    unfolding node_of.simps read_value.simps read_key.simps prod.case byte_if_exact boolean_exists
    by simp
next
  case (TBytes b)
  then show ?case
    by (auto simp: read_blob_value value_forms simp del: accepts.simps)
next
  case (TString b)
  then show ?case
    by (auto simp: read_blob_value value_forms simp del: accepts.simps split: if_splits)
qed (auto simp: result_simps value_forms key_sink.append_nil simp del: accepts.simps)

lemma take_be_exact:
  "take_bytes e 8 input = Inr (bs, rest) \<longleftrightarrow> (\<exists>n. bs = u64_be n \<and> input = u64_be n @ rest)"
  by (auto simp: result_simps codec_simps intro: exI[of _ "u64_of_be bs"])

lemma read_key_exact:
  "storable ty \<Longrightarrow> read_key (node_of ty) (input, out) = Inr (rest, out') \<longleftrightarrow>
   (\<exists>v. (accepts ty v \<and> value_utf8 v) \<and> input = key_of v @ rest \<and> out' = out @ encode_value v)"
proof (induction ty arbitrary: input out rest out')
  case (TTuple ts)
  have "read_each (map (\<lambda>t. read_key (node_of t)) ts) (input, out) = Inr (rest, out') \<longleftrightarrow>
     (\<exists>vs. list_all2 (\<lambda>t v. accepts t v \<and> value_utf8 v) ts vs \<and> input = concat (map key_of vs) @ rest
       \<and> out' = out @ concat (map encode_value vs))"
    using TTuple by (intro value_sink.read_each_exact) (auto simp: list_all_iff)
  then show ?case
    by (auto simp: comp_def list_all2_utf8 value_forms simp del: accepts.simps)
next
  case TBoolean
  then show ?case
    unfolding node_of.simps read_value.simps read_key.simps prod.case byte_if_exact boolean_exists
    by simp
next
  case TI64
  have "(\<exists>n. input = u64_be n @ rest \<and> out' = out @ u64_le (flip_sign n)) \<longleftrightarrow>
      (\<exists>n. input = u64_be (flip_sign n) @ rest \<and> out' = out @ u64_le n)"
    by (metis flip_sign_involution)
  then show ?case
    by (auto simp: rbind_eq_Inr take_be_exact value_forms simp del: accepts.simps)
next
  case TU64
  then show ?case
    by (auto simp: rbind_eq_Inr take_be_exact value_forms simp del: accepts.simps)
next
  case (TBytes b)
  then show ?case
    by (auto simp: rbind_eq_Inr unescape_exact value_forms not_less simp del: accepts.simps split: if_splits)
next
  case (TString b)
  then show ?case
    by (auto simp: rbind_eq_Inr unescape_exact value_forms not_less simp del: accepts.simps split: if_splits)
qed (auto simp: result_simps value_forms simp del: accepts.simps)

subsection \<open>Whole keys\<close>

lemma validate_value_iff:
  assumes "wf_type ty" "storable ty"
  shows "validate_value (schema_of ty d) bs = Inr () \<longleftrightarrow>
    (\<exists>v. accepts ty v \<and> value_utf8 v \<and> bs = encode_value v)"
proof -
  have "read_value (node_of ty) (bs, None) = Inr (rest, k) \<longleftrightarrow>
      k = None \<and> (\<exists>v. accepts ty v \<and> value_utf8 v \<and> bs = encode_value v @ rest)" for rest k
    using read_value_exact[OF assms(2), of bs None] by (auto simp: push_key_def)
  moreover have "accepts ty v \<Longrightarrow> \<not> max_value_bytes ty < encoded_len v" for v
    using accepts_max[of ty v] by simp
  ultimately show ?thesis
    by (auto simp: validate_value_def schema_of_def result_simps split: if_splits)
qed

lemma encode_key_iff:
  assumes "wf_type ty" "storable ty"
  shows "encode_key (schema_of ty d) bs = Inr k \<longleftrightarrow> max_key_bytes ty \<le> MAX_KEY_BYTES \<and>
    (\<exists>v. accepts ty v \<and> value_utf8 v \<and> bs = encode_value v \<and> k = key_of v)"
proof -
  have "read_value (node_of ty) (bs, Some []) = Inr (rest, k) \<longleftrightarrow>
      (\<exists>v. accepts ty v \<and> value_utf8 v \<and> bs = encode_value v @ rest \<and> k = Some (key_of v))" for rest k
    using read_value_exact[OF assms(2), of bs "Some []"] by (auto simp: push_key_def)
  moreover have "accepts ty v \<Longrightarrow> \<not> max_value_bytes ty < encoded_len v" for v
    using accepts_max[of ty v] by simp
  ultimately show ?thesis
    by (auto simp: encode_key_def schema_of_def result_simps split: if_splits)
qed

lemma decode_key_iff:
  assumes "wf_type ty" "storable ty"
  shows "decode_key (schema_of ty d) k = Inr bs \<longleftrightarrow> max_key_bytes ty \<le> MAX_KEY_BYTES \<and>
    (\<exists>v. accepts ty v \<and> value_utf8 v \<and> bs = encode_value v \<and> k = key_of v)"
proof -
  have "read_key (node_of ty) (k, []) = Inr (rest, bs) \<longleftrightarrow>
      (\<exists>v. accepts ty v \<and> value_utf8 v \<and> k = key_of v @ rest \<and> bs = encode_value v)" for rest
    using read_key_exact[OF assms(2), of k "[]"] by auto
  moreover have "accepts ty v \<Longrightarrow> \<not> max_key_bytes ty < length (key_of v)" for v
    using assms key_of_bound[of ty v] by simp
  ultimately show ?thesis
    by (auto simp: decode_key_def schema_of_def result_simps split: if_splits)
qed

subsection \<open>Properties\<close>

text \<open>
  The storage layer's \<^verbatim>\<open>Schema::decode\<close> and the VM's \<^verbatim>\<open>Type::decode\<close> accept the same
  descriptors, except that the storage layer refuses \<^verbatim>\<open>Rows\<close>; the schema carries the type's
  structure, its value bound and its key bound.
\<close>

theorem schema_agrees_with_type:
  "schema_decode bs = Inr s \<longleftrightarrow> (\<exists>ty. type_decode bs = Inr ty \<and> storable ty \<and> s = schema_of ty bs)"
  by (rule schema_decode_exact)

text \<open>
  \<^verbatim>\<open>validate_value\<close>, which builds nothing, admits exactly the byte strings that
  \<^verbatim>\<open>decode_value\<close> decodes at the schema's type.
\<close>

theorem validate_value_agrees:
  assumes "schema_decode d = Inr s" "type_decode d = Inr ty"
  shows "validate_value s bs = Inr () \<longleftrightarrow> is_ok (decode_value ty bs)"
proof -
  have "wf_type ty" "storable ty" "s = schema_of ty d"
    using assms by (auto simp: schema_decode_exact type_codec.dec_iff)
  then show ?thesis
    by (simp add: validate_value_iff decode_value_iff is_ok_iff)
qed

theorem validate_value_agrees_witness:
  "\<exists>s. schema_decode [1, 0, 1] = Inr s \<and> validate_value s [1] = Inr () \<and> is_ok (decode_value TBoolean [1])"
proof -
  have ty: "type_decode [1, 0, 1] = Inr TBoolean"
    by (simp add: type_codec.dec_iff wf_type_def descriptor_def MAX_DESCRIPTOR_BYTES_def codec_eval)
  then obtain s where s: "schema_decode [1, 0, 1] = Inr s"
    by (auto simp: schema_decode_exact)
  have "is_ok (decode_value TBoolean [1])"
    by (simp add: decode_value_def MAX_VALUE_BYTES_def)
  with validate_value_agrees[OF s ty, of "[1]"] s show ?thesis by auto
qed

text \<open>
  C25: \<^verbatim>\<open>encode_key\<close> and \<^verbatim>\<open>decode_key\<close> are inverse to each other: a value encodes to a key
  exactly when the key decodes to the value, so keys are unique and canonical.
\<close>

theorem key_round_trip:
  assumes "schema_decode d = Inr s"
  shows "encode_key s bs = Inr k \<longleftrightarrow> decode_key s k = Inr bs"
proof -
  obtain ty where "wf_type ty" "storable ty" "s = schema_of ty d"
    using assms by (auto simp: schema_decode_exact type_codec.dec_iff)
  then show ?thesis
    by (simp add: encode_key_iff decode_key_iff)
qed

theorem key_round_trip_witness:
  "\<exists>s. schema_decode [1, 0, 4, 2, 0, 0, 0] = Inr s \<and> encode_key s [2, 0, 0, 0, 0, 7] = Inr [0, 255, 7, 0, 0]
     \<and> decode_key s [0, 255, 7, 0, 0] = Inr [2, 0, 0, 0, 0, 7]"
proof -
  let ?ty = "TBytes 2"
  have ty: "wf_type ?ty" "storable ?ty" "descriptor ?ty = Inr [1, 0, 4, 2, 0, 0, 0]"
    by (simp_all add: wf_type_def descriptor_def MAX_DESCRIPTOR_BYTES_def MAX_VALUE_BYTES_def codec_eval)
  let ?s = "schema_of ?ty [1, 0, 4, 2, 0, 0, 0]"
  have s: "schema_decode [1, 0, 4, 2, 0, 0, 0] = Inr ?s"
    using ty by (auto simp: schema_decode_exact type_codec.dec_iff)
  have "encode_key ?s [2, 0, 0, 0, 0, 7] = Inr [0, 255, 7, 0, 0]"
    unfolding encode_key_iff[OF ty(1,2)]
    by (intro conjI exI[of _ "VBytes [0, 7]"]) (simp_all add: MAX_KEY_BYTES_def codec_eval)
  then show ?thesis
    using key_round_trip[OF s] s by auto
qed

text \<open>
  C26: Keys preserve order: the keys of two encoded values compare, byte by byte, exactly as
  the values do in the order of \<^verbatim>\<open>Value\<close>; no key is a proper prefix of another.
\<close>

theorem key_order:
  assumes "schema_decode d = Inr s" "type_decode d = Inr ty"
    and "decode_value ty a = Inr v" "decode_value ty b = Inr w"
    and "encode_key s a = Inr k" "encode_key s b = Inr l"
  shows "(k < l \<longleftrightarrow> v < w) \<and> (k @ x = l @ y \<longrightarrow> v = w \<and> x = y)"
proof -
  have ty: "wf_type ty" "storable ty" "s = schema_of ty d"
    using assms(1,2) by (auto simp: schema_decode_exact type_codec.dec_iff)
  have v: "accepts ty v" "a = encode_value v" "value_utf8 v" and w: "accepts ty w" "b = encode_value w" "value_utf8 w"
    using assms(3,4) ty by (simp_all add: decode_value_iff)
  have "decode_value ty (encode_value z) = Inr z" if "accepts ty z" "value_utf8 z" for z
    using that ty by (simp add: decode_value_iff)
  then have inj: "encode_value x = encode_value z \<Longrightarrow> x = z"
    if "accepts ty x" "value_utf8 x" "accepts ty z" "value_utf8 z" for x z
    using that by (metis Inr_inject)
  have "k = key_of v" "l = key_of w"
    using assms(5,6) ty v w inj by (auto simp: encode_key_iff)
  then show ?thesis
    using key_of_less[OF ty(2) v(1) w(1)] key_of_prefix_free[OF ty(2) v(1) w(1), of x y] by auto
qed

theorem key_order_witness:
  "\<exists>s. schema_decode [1, 0, 2] = Inr s \<and> encode_key s (u64_le (- 1)) = Inr (u64_be (flip_sign (- 1)))
     \<and> encode_key s (u64_le 1) = Inr (u64_be (flip_sign 1))
     \<and> (u64_be (flip_sign (- 1)) < u64_be (flip_sign 1) \<longleftrightarrow> VI64 (- 1) < VI64 1)"
proof -
  have ty: "wf_type TI64" "storable TI64" "descriptor TI64 = Inr [1, 0, 2]"
    by (simp_all add: wf_type_def descriptor_def MAX_DESCRIPTOR_BYTES_def codec_eval)
  then have t: "type_decode [1, 0, 2] = Inr TI64"
    by (simp add: type_codec.dec_iff)
  let ?s = "schema_of TI64 [1, 0, 2]"
  have s: "schema_decode [1, 0, 2] = Inr ?s"
    using t ty by (auto simp: schema_decode_exact)
  have v: "decode_value TI64 (u64_le n) = Inr (VI64 n)" for n
    using ty by (simp add: decode_value_iff)
  have k: "encode_key ?s (u64_le n) = Inr (u64_be (flip_sign n))" for n
    unfolding encode_key_iff[OF ty(1,2)]
    by (intro conjI exI[of _ "VI64 n"]) (simp_all add: MAX_KEY_BYTES_def)
  show ?thesis
    using key_order[OF s t v v k k] s k by blast
qed

end
