(* ===== verification/Blop_Mvcc.thy ===== *)
theory Blop_Mvcc
  imports Blop_Key
begin

unbundle bit_operations_syntax

section \<open>Versioned state (\<^verbatim>\<open>src/storage/mvcc.rs\<close>)\<close>

text \<open>
  Row versions are stored under physical keys that order by table, user key and descending
  sequence. A read at a sequence is one seek; a range scan walks the versions and keeps the
  newest visible one of each key. The physical tree is reached through a view, whose three
  operations (\<^verbatim>\<open>store::get\<close>, \<^verbatim>\<open>tree::seek\<close>, \<^verbatim>\<open>store::scan\<close>) are the fields of a record;
  \<open>view_of\<close> states that they read an ordered list of entries. Shown: the order of the
  physical keys, and that reads and scans return precisely the newest versions at or below
  the sequence, with tombstones meaning absence.
\<close>

subsection \<open>Views\<close>

datatype tree_id = State | Catalogue | Policy | Outcomes | Cursors

datatype 'a bound = Unbounded | Included 'a | Excluded 'a

type_synonym entry = "bytes \<times> bytes"

text \<open>
  A seek finds the first entry at or above a key, with its value still to be read; a scan
  is the list of what its iterator yields.
\<close>

record view =
  vw_get :: "tree_id \<Rightarrow> bytes \<Rightarrow> storage_error + bytes option"
  vw_seek :: "tree_id \<Rightarrow> bytes \<Rightarrow> storage_error + (bytes \<times> (storage_error + bytes)) option"
  vw_scan :: "tree_id \<Rightarrow> bytes bound \<Rightarrow> bytes bound \<Rightarrow> storage_error + (storage_error + entry) list"

fun above :: "'a :: linorder bound \<Rightarrow> 'a \<Rightarrow> bool" where
  "above Unbounded k \<longleftrightarrow> True"
| "above (Included lo) k \<longleftrightarrow> lo \<le> k"
| "above (Excluded lo) k \<longleftrightarrow> lo < k"

fun beneath :: "'a :: linorder bound \<Rightarrow> 'a \<Rightarrow> bool" where
  "beneath Unbounded k \<longleftrightarrow> True"
| "beneath (Included hi) k \<longleftrightarrow> k \<le> hi"
| "beneath (Excluded hi) k \<longleftrightarrow> k < hi"

text \<open>
  The view reads the entries \<open>ents t\<close> of each tree, in strictly ascending key order. It
  refuses keys longer than any physical key.
\<close>

definition MAX_STATE_KEY_BYTES :: nat where
  "MAX_STATE_KEY_BYTES = 8 + 2 * MAX_KEY_BYTES + 2 + 8"

definition m_long_physical :: string where "m_long_physical = ''key exceeds 2066 bytes''"

fun short_bound :: "bytes bound \<Rightarrow> bool" where
  "short_bound Unbounded \<longleftrightarrow> True"
| "short_bound (Included k) \<longleftrightarrow> length k \<le> MAX_STATE_KEY_BYTES"
| "short_bound (Excluded k) \<longleftrightarrow> length k \<le> MAX_STATE_KEY_BYTES"

definition view_of :: "view \<Rightarrow> (tree_id \<Rightarrow> entry list) \<Rightarrow> bool" where
  "view_of V ents \<longleftrightarrow>
     (\<forall>t. sorted_wrt (<) (map fst (ents t))) \<and>
     (\<forall>t k. vw_get V t k =
         (if length k \<le> MAX_STATE_KEY_BYTES then Inr (map_of (ents t) k) else Inl (InvalidInput m_long_physical))) \<and>
     (\<forall>t k. vw_seek V t k =
         (if length k \<le> MAX_STATE_KEY_BYTES
          then Inr (case filter (\<lambda>e. k \<le> fst e) (ents t) of [] \<Rightarrow> None | e # _ \<Rightarrow> Some (fst e, Inr (snd e)))
          else Inl (InvalidInput m_long_physical))) \<and>
     (\<forall>t lo hi. vw_scan V t lo hi =
         (if short_bound lo \<and> short_bound hi
          then Inr (map Inr (filter (\<lambda>e. above lo (fst e) \<and> beneath hi (fst e)) (ents t)))
          else Inl (InvalidInput m_long_physical)))"

subsection \<open>Physical keys and values\<close>

record state_key =
  sk_table_id :: u64
  sk_key :: bytes
  sk_sequence :: u64

datatype state_value = Put bytes | Delete

definition m_row_sequence :: string where
  "m_row_sequence = ''row sequence must exceed its table ID''"
definition m_state_key_length :: string where "m_state_key_length = ''invalid state key length''"
definition m_state_key_frame :: string where
  "m_state_key_frame = ''trailing state key frame bytes''"
definition m_state_value_size :: string where
  "m_state_value_size = ''state value exceeds 16 MiB''"
definition m_state_value_tag :: string where
  "m_state_value_tag = ''invalid state value tag or length''"
definition m_state_put_length :: string where "m_state_put_length = ''invalid state Put length''"
definition m_state_table :: string where "m_state_table = ''invalid state table ID''"
definition m_state_snapshot :: string where "m_state_snapshot = ''reserved snapshot sequence''"
definition m_user_key :: string where "m_user_key = ''user key exceeds 1,024 bytes''"
definition m_seeker_address :: string where
  "m_seeker_address = ''state seeker returned an unexpected address''"
definition m_seeker_sequence :: string where
  "m_seeker_sequence = ''invalid state seeker sequence''"
definition m_scan_boundary :: string where
  "m_scan_boundary = ''state scan crossed its table boundary''"

definition check_snapshot :: "u64 \<Rightarrow> u64 \<Rightarrow> storage_error + unit" where
  "check_snapshot table_id sequence =
     (if table_id = 0 \<or> table_id = - 1 then Inl (InvalidInput m_state_table)
      else if sequence = - 1 then Inl (InvalidInput m_state_snapshot) else Inr ())"

definition check_key :: "bytes \<Rightarrow> storage_error + unit" where
  "check_key key = (if length key > MAX_KEY_BYTES then Inl (InvalidInput m_user_key) else Inr ())"

definition state_key_new :: "u64 \<Rightarrow> bytes \<Rightarrow> u64 \<Rightarrow> storage_error + state_key" where
  "state_key_new table_id key sequence =
     rbind (check_snapshot table_id sequence) (\<lambda>_.
     rbind (check_key key) (\<lambda>_.
     if sequence \<le> table_id then Inl (InvalidInput m_row_sequence)
     else Inr \<lparr>sk_table_id = table_id, sk_key = key, sk_sequence = sequence\<rparr>))"

definition address_prefix :: "u64 \<Rightarrow> bytes \<Rightarrow> bytes" where
  "address_prefix table_id key = u64_be table_id @ escape key"

definition seek_key :: "u64 \<Rightarrow> bytes \<Rightarrow> u64 \<Rightarrow> bytes" where
  "seek_key table_id key sequence = address_prefix table_id key @ u64_be (NOT sequence)"

definition after_key :: "u64 \<Rightarrow> bytes \<Rightarrow> bytes" where
  "after_key table_id key = butlast (address_prefix table_id key) @ [1]"

definition state_key_encode :: "state_key \<Rightarrow> bytes" where
  "state_key_encode k = seek_key (sk_table_id k) (sk_key k) (sk_sequence k)"

definition state_key_decode :: "bytes \<Rightarrow> storage_error + state_key" where
  "state_key_decode encoded =
     (if \<not> (18 \<le> length encoded \<and> length encoded \<le> MAX_STATE_KEY_BYTES)
      then Inl (InvalidInput m_state_key_length) else
      let table_id = u64_of_be (take 8 encoded);
          frame = take (length encoded - 16) (drop 8 encoded) in
      rbind (unescape frame) (\<lambda>(key, consumed).
      if consumed \<noteq> length frame then Inl (InvalidInput m_state_key_frame) else
      let sequence = NOT (u64_of_be (drop (length encoded - 8) encoded)) in
      state_key_new table_id key sequence))"

definition state_value_encode :: "state_value \<Rightarrow> storage_error + bytes" where
  "state_value_encode v =
     (case v of
        Delete \<Rightarrow> Inr [0]
      | Put bs \<Rightarrow>
          if length bs > MAX_VALUE_BYTES then Inl (InvalidInput m_state_value_size)
          else Inr (1 # u32_le (of_nat (length bs)) @ bs))"

definition value_payload :: "bytes \<Rightarrow> storage_error + bytes option" where
  "value_payload encoded =
     (if encoded = [0] then Inr None
      else if length encoded < 5 \<or> hd encoded \<noteq> 1 then Inl (InvalidInput m_state_value_tag)
      else
        let len = unat (u32_of_le (take 4 (drop 1 encoded))) in
        if len > MAX_VALUE_BYTES \<or> len \<noteq> length encoded - 5 then Inl (InvalidInput m_state_put_length)
        else Inr (Some (drop 5 encoded)))"

definition state_value_decode :: "bytes \<Rightarrow> storage_error + state_value" where
  "state_value_decode encoded =
     rbind (value_payload encoded) (\<lambda>v. Inr (case v of Some bs \<Rightarrow> Put bs | None \<Rightarrow> Delete))"

definition corrupt_input :: "storage_error \<Rightarrow> storage_error" where
  "corrupt_input e = (case e of InvalidInput reason \<Rightarrow> Corrupt reason | _ \<Rightarrow> e)"

subsection \<open>Reads\<close>

definition mvcc_read_value :: "view \<Rightarrow> u64 \<Rightarrow> bytes \<Rightarrow> u64 \<Rightarrow> storage_error + bytes option" where
  "mvcc_read_value V table key sequence =
     rbind (check_snapshot table sequence) (\<lambda>_.
     rbind (check_key key) (\<lambda>_.
     let lower = seek_key table key sequence; prefix_len = length lower - 8 in
     rbind (vw_seek V State lower) (\<lambda>located.
     case located of
       None \<Rightarrow> Inr None
     | Some (cell_key, cell_value) \<Rightarrow>
         if take prefix_len cell_key \<noteq> take prefix_len lower then Inr None else
         if length cell_key \<noteq> length lower then Inl (Corrupt m_seeker_address) else
         let stored_sequence = NOT (u64_of_be (drop prefix_len cell_key)) in
         if stored_sequence \<le> table \<or> stored_sequence > sequence then Inl (Corrupt m_seeker_sequence) else
         rbind cell_value (\<lambda>encoded_value.
         map_err corrupt_input (value_payload encoded_value)))))"

definition mvcc_get :: "view \<Rightarrow> u64 \<Rightarrow> bytes \<Rightarrow> u64 \<Rightarrow> storage_error + bytes option" where
  "mvcc_get V table key sequence = mvcc_read_value V table key sequence"

text \<open>The iterator \<^verbatim>\<open>StateScan\<close>: \<^verbatim>\<open>advance\<close> run until it is exhausted or fails.\<close>

fun state_scan :: "u64 \<Rightarrow> u64 \<Rightarrow> bytes option \<Rightarrow> (storage_error + entry) list \<Rightarrow>
    (storage_error + entry) list" where
  "state_scan table_id sequence selected [] = []"
| "state_scan table_id sequence selected (Inl e # physical) = [Inl e]"
| "state_scan table_id sequence selected (Inr (encoded_key, encoded_value) # physical) =
     (case rbind (map_err corrupt_input (state_key_decode encoded_key)) (\<lambda>key.
           rbind (map_err corrupt_input (value_payload encoded_value)) (\<lambda>val.
           if sk_table_id key \<noteq> table_id then Inl (Corrupt m_scan_boundary) else Inr (key, val))) of
        Inl e \<Rightarrow> [Inl e]
      | Inr (key, val) \<Rightarrow>
          if sk_sequence key > sequence \<or> selected = Some (sk_key key)
          then state_scan table_id sequence selected physical
          else (case val of
              Some bs \<Rightarrow> Inr (sk_key key, bs)
                # state_scan table_id sequence (Some (sk_key key)) physical
            | None \<Rightarrow> state_scan table_id sequence (Some (sk_key key)) physical))"

definition check_bound :: "bytes bound \<Rightarrow> storage_error + unit" where
  "check_bound b =
     (case b of Included key \<Rightarrow> check_key key | Excluded key \<Rightarrow> check_key key | Unbounded \<Rightarrow> Inr ())"

definition mvcc_scan :: "view \<Rightarrow> u64 \<Rightarrow> u64 \<Rightarrow> bytes bound \<Rightarrow> bytes bound \<Rightarrow>
    storage_error + (storage_error + entry) list" where
  "mvcc_scan V table sequence lower upper =
     rbind (check_snapshot table sequence) (\<lambda>_.
     rbind (check_bound lower) (\<lambda>_.
     rbind (check_bound upper) (\<lambda>_.
     let lo = (case lower of
           Unbounded \<Rightarrow> u64_be table
         | Included key \<Rightarrow> seek_key table key sequence
         | Excluded key \<Rightarrow> after_key table key);
         hi = (case upper of
           Unbounded \<Rightarrow> u64_be (table + 1)
         | Included key \<Rightarrow> after_key table key
         | Excluded key \<Rightarrow> address_prefix table key) in
     rbind (vw_scan V State (Included lo) (Excluded hi)) (\<lambda>physical.
     Inr (state_scan table sequence None physical)))))"

subsection \<open>The order of physical keys\<close>

lemma not_less_iff: "NOT a < NOT b \<longleftrightarrow> b < (a :: u64)"
proof -
  have "uint (NOT x) = 2 ^ 64 - 1 - uint x" for x :: u64
    using take_bit_not_eq_mask_diff[of 64 "uint x"] take_bit_int_eq_self_iff[of 64 "uint x"]
      uint_bounded[of x]
    by (simp add: unsigned_not_eq mask_eq_exp_minus_1)
  then show ?thesis by (simp add: word_less_def)
qed

lemma seek_key_less:
  "seek_key t k s < seek_key t' k' s' \<longleftrightarrow> t < t' \<or> (t = t' \<and> (k < k' \<or> (k = k' \<and> s' < s)))"
  by (auto simp: seek_key_def address_prefix_def lex_append_same_length escape_less_iff not_less_iff)

lemma escape_nonempty [simp]: "escape k \<noteq> []"
  by (cases k) auto

lemma escape_snoc: "\<exists>body. escape k = body @ [0, 0] \<and> butlast (escape k) = body @ [0]"
proof (induction k)
  case (Cons b k)
  then obtain body where "escape k = body @ [0, 0]" by blast
  then show ?case
    by (intro exI[of _ "(if b = 0 then [b, 0xff] else [b]) @ body"]) (auto simp: butlast_append)
qed simp

text \<open>The bound after a key lies above every version of the key and beneath any larger key.\<close>

lemma escape_less_after: "escape k' @ u < butlast (escape k) @ [1] \<longleftrightarrow> k' \<le> k"
proof (induction k arbitrary: k')
  case Nil
  then show ?case by (cases k') (auto simp: word_neq_0_conv)
next
  case (Cons b k)
  then show ?case by (cases k') (auto simp: word_neq_0_conv)
qed

lemma after_key_less:
  "seek_key t' k' s < after_key t k \<longleftrightarrow> t' < t \<or> (t' = t \<and> k' \<le> k)"
  by (auto simp: seek_key_def after_key_def address_prefix_def butlast_append lex_append_same_length
      escape_less_after)

lemma after_key_le:
  "after_key t k \<le> seek_key t' k' s \<longleftrightarrow> t < t' \<or> (t = t' \<and> k < k')"
  using after_key_less[of t' k' s t k] by (auto simp: not_less[symmetric])

lemma escape_less_prefix: "escape k' @ u < escape k \<longleftrightarrow> k' < k"
  using escape_less_iff[of k' u k "[]"] by simp

lemma address_prefix_less:
  "seek_key t' k' s < address_prefix t k \<longleftrightarrow> t' < t \<or> (t' = t \<and> k' < k)"
  by (auto simp: seek_key_def address_prefix_def lex_append_same_length escape_less_prefix)

lemma table_less: "seek_key t' k' s < u64_be t \<longleftrightarrow> t' < t"
  using lex_append_same_length[of "u64_be t'" "u64_be t" "escape k' @ u64_be (NOT s)" "[]"]
  by (simp add: seek_key_def address_prefix_def)

lemma seek_key_inject: "seek_key t k s = seek_key t' k' s' \<longleftrightarrow> t = t' \<and> k = k' \<and> s = s'"
proof
  assume "seek_key t k s = seek_key t' k' s'"
  then have "\<not> seek_key t k s < seek_key t' k' s'" "\<not> seek_key t' k' s' < seek_key t k s" by auto
  then show "t = t' \<and> k = k' \<and> s = s'" unfolding seek_key_less by auto
qed simp

subsection \<open>Codecs\<close>

definition valid_state_key :: "state_key \<Rightarrow> bool" where
  "valid_state_key k \<longleftrightarrow> sk_table_id k \<noteq> 0 \<and> sk_table_id k \<noteq> - 1 \<and> sk_sequence k \<noteq> - 1
     \<and> length (sk_key k) \<le> MAX_KEY_BYTES \<and> sk_table_id k < sk_sequence k"

lemma state_key_new_Inr:
  "state_key_new t k s = Inr sk \<longleftrightarrow> sk = \<lparr>sk_table_id = t, sk_key = k, sk_sequence = s\<rparr> \<and> valid_state_key sk"
  by (auto simp: state_key_new_def check_snapshot_def check_key_def valid_state_key_def split: if_splits)

lemma length_escape_bounds: "2 \<le> length (escape k) \<and> length (escape k) \<le> 2 * length k + 2"
  by (induction k) auto

lemma state_key_decode_exact:
  "state_key_decode bs = Inr k \<longleftrightarrow> valid_state_key k \<and> bs = state_key_encode k"
proof
  assume "state_key_decode bs = Inr k"
  then obtain key where len: "18 \<le> length bs" and
    u: "unescape (take (length bs - 16) (drop 8 bs)) = Inr (key, length (take (length bs - 16) (drop 8 bs)))"
    and k: "state_key_new (u64_of_be (take 8 bs)) key (NOT (u64_of_be (drop (length bs - 8) bs))) = Inr k"
    by (auto simp: state_key_decode_def Let_def result_simps split: if_splits)
  obtain rest where "take (length bs - 16) (drop 8 bs) = escape key @ rest"
    "length (take (length bs - 16) (drop 8 bs)) = length (escape key)"
    using u by (auto simp: unescape_exact simp del: length_take)
  then have "take (length bs - 16) (drop 8 bs) = escape key"
    by simp
  moreover have "bs = take 8 bs @ take (length bs - 16) (drop 8 bs) @ drop (length bs - 8) bs"
    using len append_take_drop_id[of 8 bs] append_take_drop_id[of "length bs - 16" "drop 8 bs"]
    by simp
  ultimately have "bs = u64_be (u64_of_be (take 8 bs)) @ escape key @ u64_be (u64_of_be (drop (length bs - 8) bs))"
    using len by (simp add: codec_simps)
  then show "valid_state_key k \<and> bs = state_key_encode k"
    using k by (auto simp: state_key_new_Inr state_key_encode_def seek_key_def address_prefix_def)
next
  assume R: "valid_state_key k \<and> bs = state_key_encode k"
  have bs: "bs = u64_be (sk_table_id k) @ escape (sk_key k) @ u64_be (NOT (sk_sequence k))"
    using R by (simp add: state_key_encode_def seek_key_def address_prefix_def)
  have "length (escape (sk_key k)) \<le> 2 * MAX_KEY_BYTES + 2" "2 \<le> length (escape (sk_key k))"
    using R length_escape_bounds[of "sk_key k"] by (auto simp: valid_state_key_def)
  moreover have "unescape (escape (sk_key k)) = Inr (sk_key k, length (escape (sk_key k)))"
    by (auto simp: unescape_exact)
  ultimately show "state_key_decode bs = Inr k"
    using conjunct1[OF R] unfolding bs
    by (auto simp: state_key_decode_def MAX_STATE_KEY_BYTES_def state_key_new_Inr)
qed

interpretation state_key_codec: exact_codec "\<lambda>k. Inr (state_key_encode k)" state_key_decode valid_state_key
  by unfold_locales (auto simp: state_key_decode_exact)

definition payload_value :: "bytes option \<Rightarrow> state_value" where
  "payload_value v = (case v of Some bs \<Rightarrow> Put bs | None \<Rightarrow> Delete)"

lemma value_payload_exact:
  "value_payload bs = Inr v \<longleftrightarrow> state_value_encode (payload_value v) = Inr bs"
proof (cases v)
  case None
  then show ?thesis
    by (auto simp: value_payload_def state_value_encode_def payload_value_def Let_def split: if_splits)
next
  case (Some b)
  show ?thesis
  proof
    assume "value_payload bs = Inr v"
    then have 1: "5 \<le> length bs" "hd bs = 1" "unat (u32_of_le (take 4 (drop 1 bs))) = length bs - 5"
      "length bs - 5 \<le> MAX_VALUE_BYTES" "b = drop 5 bs"
      using Some by (auto simp: value_payload_def Let_def split: if_splits)
    let ?w = "u32_of_le (take 4 (drop 1 bs))"
    have "of_nat (length b) = ?w"
      using 1(3,5) by (simp flip: 1(3))
    then have "u32_le (of_nat (length b)) = take 4 (drop 1 bs)"
      using 1(1) by (simp add: codec_simps)
    moreover have "bs = hd bs # take 4 (drop 1 bs) @ drop 5 bs"
      using 1(1) by (cases bs) (auto simp: append_take_drop_id)
    ultimately show "state_value_encode (payload_value v) = Inr bs"
      using 1 Some by (auto simp: state_value_encode_def payload_value_def)
  next
    assume R: "state_value_encode (payload_value v) = Inr bs"
    then have "length b \<le> MAX_VALUE_BYTES" "bs = 1 # u32_le (of_nat (length b)) @ b"
      using Some by (auto simp: state_value_encode_def payload_value_def split: if_splits)
    moreover from this have "unat (of_nat (length b) :: u32) = length b"
      by (simp add: unat_of_nat MAX_VALUE_BYTES_def)
    ultimately show "value_payload bs = Inr v"
      using Some by (simp add: value_payload_def)
  qed
qed

subsection \<open>Versions\<close>

text \<open>
  The contents of the state tree as a list of versions in physical order, and the value that
  is visible at a sequence: that of the newest version at or below it.
\<close>

type_synonym version = "state_key \<times> state_value"

definition of_row :: "u64 \<Rightarrow> bytes \<Rightarrow> u64 \<Rightarrow> version \<Rightarrow> bool" where
  "of_row t k s w \<longleftrightarrow> sk_table_id (fst w) = t \<and> sk_key (fst w) = k \<and> sk_sequence (fst w) \<le> s"

definition is_newest :: "version list \<Rightarrow> u64 \<Rightarrow> bytes \<Rightarrow> u64 \<Rightarrow> version \<Rightarrow> bool" where
  "is_newest vs t k s w \<longleftrightarrow> w \<in> set vs \<and> of_row t k s w \<and>
     (\<forall>u \<in> set vs. of_row t k s u \<longrightarrow> sk_sequence (fst u) \<le> sk_sequence (fst w))"

definition put_value :: "state_value \<Rightarrow> bytes option" where
  "put_value v = (case v of Put bs \<Rightarrow> Some bs | Delete \<Rightarrow> None)"

definition visible :: "version list \<Rightarrow> u64 \<Rightarrow> bytes \<Rightarrow> u64 \<Rightarrow> bytes option" where
  "visible vs t k s = (case filter (of_row t k s) vs of [] \<Rightarrow> None | w # _ \<Rightarrow> put_value (snd w))"

definition version_less :: "version \<Rightarrow> version \<Rightarrow> bool" where
  "version_less u w \<longleftrightarrow> state_key_encode (fst u) < state_key_encode (fst w)"

definition valid_version :: "version \<Rightarrow> bool" where
  "valid_version w \<longleftrightarrow> valid_state_key (fst w) \<and> is_ok (state_value_encode (snd w))"

definition physical :: "version \<Rightarrow> entry" where
  "physical w = (state_key_encode (fst w), projr (state_value_encode (snd w)))"

definition stored :: "(tree_id \<Rightarrow> entry list) \<Rightarrow> version list \<Rightarrow> bool" where
  "stored ents vs \<longleftrightarrow> ents State = map physical vs \<and> (\<forall>w \<in> set vs. valid_version w)"

lemma version_less_iff:
  "version_less u w \<longleftrightarrow> sk_table_id (fst u) < sk_table_id (fst w)
     \<or> (sk_table_id (fst u) = sk_table_id (fst w) \<and> (sk_key (fst u) < sk_key (fst w)
       \<or> (sk_key (fst u) = sk_key (fst w) \<and> sk_sequence (fst w) < sk_sequence (fst u))))"
  by (simp add: version_less_def state_key_encode_def seek_key_less)

lemma stored_sorted:
  assumes "view_of V ents" "stored ents vs"
  shows "sorted_wrt version_less vs"
proof -
  have "sorted_wrt (<) (map fst (ents State))"
    using assms(1) by (simp add: view_of_def)
  then show ?thesis
    using assms(2) by (simp add: stored_def sorted_wrt_map physical_def version_less_def[abs_def])
qed

lemma value_payload_valid:
  "valid_version w \<Longrightarrow> value_payload (snd (physical w)) = Inr (put_value (snd w))"
proof -
  assume "valid_version w"
  then obtain bs where "state_value_encode (snd w) = Inr bs"
    by (auto simp: valid_version_def is_ok_iff)
  moreover have "payload_value (put_value (snd w)) = snd w"
    by (simp add: payload_value_def put_value_def split: state_value.splits)
  ultimately show ?thesis
    by (simp add: value_payload_exact physical_def)
qed

lemma visible_newest:
  assumes "sorted_wrt version_less vs" "is_newest vs t k s w"
  shows "visible vs t k s = put_value (snd w)"
proof -
  let ?f = "filter (of_row t k s) vs"
  have sorted: "sorted_wrt version_less ?f"
    using assms(1) by (rule sorted_wrt_filter)
  have w: "w \<in> set ?f" and max: "\<And>u. u \<in> set ?f \<Longrightarrow> sk_sequence (fst u) \<le> sk_sequence (fst w)"
    using assms(2) by (auto simp: is_newest_def)
  then obtain u us where f: "?f = u # us" by (cases ?f) auto
  have "u = w"
  proof (rule ccontr)
    assume "u \<noteq> w"
    then have "version_less u w" using w f sorted by auto
    moreover have "u \<in> set ?f" by (simp add: f)
    then have "of_row t k s u" "of_row t k s w" using w by auto
    ultimately have "sk_sequence (fst w) < sk_sequence (fst u)"
      by (auto simp: version_less_iff of_row_def)
    with max[of u] f show False by auto
  qed
  then show ?thesis by (simp add: visible_def f)
qed

lemma visible_none: "(\<nexists>w. is_newest vs t k s w) \<Longrightarrow> visible vs t k s = None"
proof (rule ccontr)
  assume N: "\<nexists>w. is_newest vs t k s w" and V: "visible vs t k s \<noteq> None"
  let ?S = "sk_sequence ` fst ` {w \<in> set vs. of_row t k s w}"
  have ne: "?S \<noteq> {}"
    using V by (auto simp: visible_def filter_empty_conv split: list.splits
        dest: filter_eq_ConsD) (metis filter_eq_ConsD in_set_conv_decomp)
  have fin: "finite ?S" by simp
  then obtain w where "w \<in> set vs" "of_row t k s w" "sk_sequence (fst w) = Max ?S"
    using Max_in[OF fin ne] by auto
  then have "is_newest vs t k s w"
    using fin by (auto simp: is_newest_def)
  with N show False by blast
qed

subsection \<open>Point reads\<close>

lemma filter_first:
  assumes "sorted_wrt version_less vs"
  shows "(case filter (\<lambda>w. seek_key t k s \<le> state_key_encode (fst w)) vs of
      [] \<Rightarrow> None
    | w # _ \<Rightarrow> if sk_table_id (fst w) = t \<and> sk_key (fst w) = k then put_value (snd w) else None)
    = visible vs t k s"
  using assms
proof (induction vs)
  case Nil
  then show ?case by (simp add: visible_def)
next
  case (Cons w vs)
  have le: "seek_key t k s \<le> state_key_encode (fst w) \<longleftrightarrow> t < sk_table_id (fst w)
      \<or> (t = sk_table_id (fst w) \<and> (k < sk_key (fst w) \<or> (k = sk_key (fst w) \<and> sk_sequence (fst w) \<le> s)))"
    for w :: version
    by (auto simp: le_less seek_key_less seek_key_inject state_key_encode_def)
  show ?case
  proof (cases "seek_key t k s \<le> state_key_encode (fst w)")
    case False
    then have "\<not> of_row t k s w" by (auto simp: le of_row_def)
    with False Cons show ?thesis by (simp add: visible_def)
  next
    case True
    show ?thesis
    proof (cases "sk_table_id (fst w) = t \<and> sk_key (fst w) = k")
      case same: True
      then have "of_row t k s w" using True by (auto simp: le of_row_def)
      with True same show ?thesis by (simp add: visible_def)
    next
      case other: False
      have "\<not> of_row t k s u" if "u \<in> set (w # vs)" for u
      proof (cases "u = w")
        case False
        then have "version_less w u" using that Cons.prems by auto
        have "t < sk_table_id (fst w) \<or> (t = sk_table_id (fst w) \<and> k < sk_key (fst w))"
          using True other unfolding le by blast
        with \<open>version_less w u\<close>
        have "t < sk_table_id (fst u) \<or> (t = sk_table_id (fst u) \<and> k < sk_key (fst u))"
          unfolding version_less_iff by (elim disjE conjE) (simp_all, (metis less_trans)+)
        then show ?thesis by (auto simp: of_row_def)
      qed (use other in \<open>auto simp: of_row_def\<close>)
      then have "filter (of_row t k s) (w # vs) = []"
        by (simp only: filter_empty_conv) blast
      with True other show ?thesis by (auto simp: visible_def)
    qed
  qed
qed

lemma row_prefix_unique:
  assumes "take n (u64_be t' @ escape k' @ u) = u64_be t @ escape k"
  shows "t' = t \<and> k' = k"
proof -
  obtain r where "u64_be t' @ escape k' @ u = u64_be t @ escape k @ r"
    using assms by (metis append_take_drop_id append_assoc)
  then have "u64_be t' = u64_be t \<and> escape k' @ u = escape k @ r"
    by (subst (asm) append_eq_append_conv) auto
  then show ?thesis
    using escape_less_iff[of k' u k r] escape_less_iff[of k r k' u]
    by (metis linorder_less_linear order_less_irrefl u64_be_eq_iff)
qed

lemma prefix_same_row:
  "take (length (seek_key t k s) - 8) (seek_key t' k' s') = take (length (seek_key t k s) - 8) (seek_key t k s)
   \<longleftrightarrow> t' = t \<and> k' = k"
proof -
  have 1: "take (length (seek_key t k s) - 8) (seek_key t k s'') = u64_be t @ escape k" for s''
    by (simp add: seek_key_def address_prefix_def)
  show ?thesis
    unfolding 1 using row_prefix_unique[of _ t' k' "u64_be (NOT s')" t k] 1
    by (auto simp only: seek_key_def address_prefix_def append_assoc)
qed

lemma short_physical:
  assumes "length k \<le> MAX_KEY_BYTES"
  shows "length (seek_key t k s) \<le> MAX_STATE_KEY_BYTES" "length (after_key t k) \<le> MAX_STATE_KEY_BYTES"
    "length (address_prefix t k) \<le> MAX_STATE_KEY_BYTES"
  using length_escape_bounds[of k] assms by (simp_all add: seek_key_def after_key_def address_prefix_def MAX_STATE_KEY_BYTES_def)

lemma short_number: "8 \<le> MAX_STATE_KEY_BYTES"
  by (simp add: MAX_STATE_KEY_BYTES_def)

lemma mvcc_get_visible:
  assumes V: "view_of V ents" and S: "stored ents vs"
    and t: "t \<noteq> 0" "t \<noteq> - 1" and s: "s \<noteq> - 1" and k: "length k \<le> MAX_KEY_BYTES"
  shows "mvcc_get V t k s = Inr (visible vs t k s)"
proof -
  let ?lo = "seek_key t k s"
  have ents: "ents State = map physical vs" "\<And>w. w \<in> set vs \<Longrightarrow> valid_version w"
    using S by (auto simp: stored_def)
  have seek: "vw_seek V State ?lo = Inr (case filter (\<lambda>w. ?lo \<le> state_key_encode (fst w)) vs of
      [] \<Rightarrow> None | w # _ \<Rightarrow> Some (state_key_encode (fst w), Inr (snd (physical w))))"
    using V ents(1) short_physical(1)[OF k] by (auto simp: view_of_def filter_map comp_def physical_def split: list.splits)
  have checks: "check_snapshot t s = Inr ()" "check_key k = Inr ()"
    using t s k by (auto simp: check_snapshot_def check_key_def)
  note first = filter_first[OF stored_sorted[OF V S], of t k s]
  show ?thesis
  proof (cases "filter (\<lambda>w. ?lo \<le> state_key_encode (fst w)) vs")
    case Nil
    then show ?thesis
      using first by (simp add: mvcc_get_def mvcc_read_value_def checks seek)
  next
    case (Cons w ws)
    then have "w \<in> set (filter (\<lambda>w. ?lo \<le> state_key_encode (fst w)) vs)" by simp
    then have w: "w \<in> set vs" "?lo \<le> state_key_encode (fst w)" by auto
    show ?thesis
    proof (cases "sk_table_id (fst w) = t \<and> sk_key (fst w) = k")
      case False
      then show ?thesis
        using first Cons prefix_same_row[of t k s "sk_table_id (fst w)" "sk_key (fst w)" "sk_sequence (fst w)"]
        by (auto simp: mvcc_get_def mvcc_read_value_def checks seek Let_def state_key_encode_def)
    next
      case True
      have row: "state_key_encode (fst w) = seek_key t k (sk_sequence (fst w))"
        using True by (simp add: state_key_encode_def)
      have seq: "t < sk_sequence (fst w)" "sk_sequence (fst w) \<le> s"
        using ents(2)[OF w(1)] w(2) True
        by (auto simp: valid_version_def valid_state_key_def row le_less seek_key_less seek_key_inject)
      have "take (length ?lo - 8) (seek_key t k (sk_sequence (fst w))) = take (length ?lo - 8) ?lo"
        using prefix_same_row by blast
      moreover have "length (seek_key t k (sk_sequence (fst w))) = length ?lo"
        by (simp add: seek_key_def)
      moreover have "NOT (u64_of_be (drop (length ?lo - 8) (seek_key t k (sk_sequence (fst w))))) = sk_sequence (fst w)"
        by (simp add: seek_key_def)
      ultimately show ?thesis
        using first Cons True seq value_payload_valid[OF ents(2)[OF w(1)]]
        by (simp add: mvcc_get_def mvcc_read_value_def checks seek Let_def row not_le not_less)
    qed
  qed
qed

subsection \<open>Range reads\<close>

text \<open>The scan on versions instead of encoded entries.\<close>

fun scan_versions :: "u64 \<Rightarrow> bytes option \<Rightarrow> version list \<Rightarrow> entry list" where
  "scan_versions s sel [] = []"
| "scan_versions s sel (w # ws) =
     (if s < sk_sequence (fst w) \<or> sel = Some (sk_key (fst w)) then scan_versions s sel ws
      else (case put_value (snd w) of
          Some bs \<Rightarrow> (sk_key (fst w), bs) # scan_versions s (Some (sk_key (fst w))) ws
        | None \<Rightarrow> scan_versions s (Some (sk_key (fst w))) ws))"

lemma state_scan_versions:
  assumes "\<And>w. w \<in> set ws \<Longrightarrow> valid_version w \<and> sk_table_id (fst w) = t"
  shows "state_scan t s sel (map (\<lambda>w. Inr (physical w)) ws) = map Inr (scan_versions s sel ws)"
  using assms
proof (induction ws arbitrary: sel)
  case (Cons w ws)
  have w: "valid_version w" "sk_table_id (fst w) = t" and IH:
    "state_scan t s sel (map (\<lambda>w. Inr (physical w)) ws) = map Inr (scan_versions s sel ws)" for sel
    using Cons by auto
  have key: "state_key_decode (fst (physical w)) = Inr (fst w)"
    using w by (simp add: state_key_decode_exact physical_def valid_version_def)
  have split: "physical w = (fst (physical w), snd (physical w))" by simp
  show ?case
    unfolding list.map scan_versions.simps
    by (subst split) (simp only: state_scan.simps key value_payload_valid[OF w(1)], auto simp: w IH
        split: option.splits)
qed simp

lemma scan_versions_spec:
  assumes "sorted_wrt version_less ws" "\<And>w. w \<in> set ws \<Longrightarrow> sk_table_id (fst w) = t"
    and "\<And>k w. sel = Some k \<Longrightarrow> w \<in> set ws \<Longrightarrow> k \<le> sk_key (fst w)"
  shows "ascending (map fst (scan_versions s sel ws))
    \<and> (\<forall>e \<in> set (scan_versions s sel ws). (\<forall>k. sel = Some k \<longrightarrow> k < fst e)
         \<and> (\<exists>w \<in> set ws. sk_key (fst w) = fst e))
    \<and> (\<forall>k. map_of (scan_versions s sel ws) k = (if sel = Some k then None else visible ws t k s))"
  using assms
proof (induction ws arbitrary: sel)
  case Nil
  then show ?case by (auto simp: visible_def)
next
  case (Cons w ws)
  let ?k = "sk_key (fst w)"
  have sorted: "sorted_wrt version_less ws" and tbl: "\<And>u. u \<in> set ws \<Longrightarrow> sk_table_id (fst u) = t"
    and w: "sk_table_id (fst w) = t"
    using Cons.prems by auto
  have ge: "?k \<le> sk_key (fst u)" if "u \<in> set ws" for u
    using Cons.prems(1) that tbl[OF that] w by (auto simp: version_less_iff)
  have vis: "visible (w # ws) t k s = (if k = ?k \<and> sk_sequence (fst w) \<le> s then put_value (snd w) else visible ws t k s)"
    for k
    using w by (auto simp: visible_def of_row_def)
  show ?case
  proof (cases "s < sk_sequence (fst w) \<or> sel = Some ?k")
    case True
    have IH: "ascending (map fst (scan_versions s sel ws))
      \<and> (\<forall>e \<in> set (scan_versions s sel ws). (\<forall>k. sel = Some k \<longrightarrow> k < fst e)
           \<and> (\<exists>w \<in> set ws. sk_key (fst w) = fst e))
      \<and> (\<forall>k. map_of (scan_versions s sel ws) k = (if sel = Some k then None else visible ws t k s))"
      using Cons.prems(3) by (intro Cons.IH sorted tbl) auto
    with True show ?thesis by (auto simp: vis)
  next
    case False
    have IH: "ascending (map fst (scan_versions s (Some ?k) ws))
      \<and> (\<forall>e \<in> set (scan_versions s (Some ?k) ws). (\<forall>k. Some ?k = Some k \<longrightarrow> k < fst e)
           \<and> (\<exists>w \<in> set ws. sk_key (fst w) = fst e))
      \<and> (\<forall>k. map_of (scan_versions s (Some ?k) ws) k = (if Some ?k = Some k then None else visible ws t k s))"
      using ge by (intro Cons.IH sorted tbl) auto
    have below: "k < ?k" if "sel = Some k" for k
      using Cons.prems(3)[OF that, of w] False that by (auto simp: le_less)
    have sel_ws: "visible ws t k s = None" if "sel = Some k" for k
    proof -
      have "\<not> of_row t k s u" if "u \<in> set ws" for u
        using ge[OF that] below[OF \<open>sel = Some k\<close>] by (auto simp: of_row_def)
      then have "filter (of_row t k s) ws = []" by (simp add: filter_empty_conv)
      then show ?thesis by (simp add: visible_def)
    qed
    show ?thesis
    proof (cases "put_value (snd w)")
      case None
      then show ?thesis
        using False IH below sel_ws by (auto simp: vis dest: less_trans)
    next
      case (Some bs)
      have "ascending (?k # map fst (scan_versions s (Some ?k) ws))"
        using IH by (auto simp: ascending_iff)
      with Some show ?thesis
        using False IH below sel_ws by (auto simp: vis dest: less_trans)
    qed
  qed
qed

definition in_physical_range :: "u64 \<Rightarrow> u64 \<Rightarrow> bytes bound \<Rightarrow> bytes bound \<Rightarrow> version \<Rightarrow> bool" where
  "in_physical_range t s lo hi w \<longleftrightarrow> sk_table_id (fst w) = t \<and> beneath hi (sk_key (fst w)) \<and>
     (case lo of
        Unbounded \<Rightarrow> True
      | Included k \<Rightarrow> k < sk_key (fst w) \<or> (k = sk_key (fst w) \<and> sk_sequence (fst w) \<le> s)
      | Excluded k \<Rightarrow> k < sk_key (fst w))"

lemma table_succ_less: "t \<noteq> - 1 \<Longrightarrow> (a :: u64) < t + 1 \<longleftrightarrow> a \<le> t"
proof -
  assume "t \<noteq> - 1"
  then have "t + 1 \<noteq> 0" by (metis add_eq_0_iff2)
  then have "unat (t + 1) = Suc (unat t)" using unatSuc[of t] by (simp add: add.commute)
  then show ?thesis by (simp add: word_less_nat_alt word_le_nat_alt less_Suc_eq_le)
qed

lemma physical_range:
  assumes "t \<noteq> - 1"
  shows "(case lo of Unbounded \<Rightarrow> u64_be t | Included k \<Rightarrow> seek_key t k s | Excluded k \<Rightarrow> after_key t k)
      \<le> state_key_encode (fst w) \<and> state_key_encode (fst w)
      < (case hi of Unbounded \<Rightarrow> u64_be (t + 1) | Included k \<Rightarrow> after_key t k | Excluded k \<Rightarrow> address_prefix t k)
    \<longleftrightarrow> in_physical_range t s lo hi w"
proof -
  let ?t = "sk_table_id (fst w)" and ?k = "sk_key (fst w)" and ?s = "sk_sequence (fst w)"
  have lo: "(case lo of Unbounded \<Rightarrow> u64_be t | Included k \<Rightarrow> seek_key t k s | Excluded k \<Rightarrow> after_key t k)
      \<le> state_key_encode (fst w) \<longleftrightarrow> t < ?t \<or> (t = ?t \<and> (case lo of Unbounded \<Rightarrow> True
      | Included k \<Rightarrow> k < ?k \<or> (k = ?k \<and> ?s \<le> s) | Excluded k \<Rightarrow> k < ?k))"
  proof (cases lo)
    case Unbounded
    then show ?thesis
      using table_less[of ?t ?k ?s t] by (auto simp: state_key_encode_def not_less[symmetric])
  next
    case (Included k)
    then show ?thesis
      by (auto simp: state_key_encode_def le_less seek_key_less seek_key_inject)
  next
    case (Excluded k)
    then show ?thesis by (simp add: state_key_encode_def after_key_le)
  qed
  have hi: "state_key_encode (fst w)
      < (case hi of Unbounded \<Rightarrow> u64_be (t + 1) | Included k \<Rightarrow> after_key t k | Excluded k \<Rightarrow> address_prefix t k)
      \<longleftrightarrow> ?t < t \<or> (?t = t \<and> beneath hi ?k)"
    using table_succ_less[OF assms, of ?t]
    by (cases hi) (auto simp: state_key_encode_def after_key_less address_prefix_less table_less le_less)
  show ?thesis
    unfolding lo hi in_physical_range_def by auto
qed

lemma visible_in_range:
  "visible (filter (in_physical_range t s lo hi) vs) t k s =
     (if above lo k \<and> beneath hi k then visible vs t k s else None)"
proof -
  have "filter (of_row t k s) (filter (in_physical_range t s lo hi) vs) =
      (if above lo k \<and> beneath hi k then filter (of_row t k s) vs else [])"
    by (cases lo) (auto simp: of_row_def in_physical_range_def filter_empty_conv intro!: filter_cong)
  then show ?thesis by (simp add: visible_def)
qed

lemma view_of_scan: "view_of V ents \<Longrightarrow> short_bound lo \<Longrightarrow> short_bound hi \<Longrightarrow> vw_scan V t lo hi =
    Inr (map Inr (filter (\<lambda>e. above lo (fst e) \<and> beneath hi (fst e)) (ents t)))"
  by (simp add: view_of_def)

lemma mvcc_scan_visible:
  assumes V: "view_of V ents" and S: "stored ents vs"
    and t: "t \<noteq> 0" "t \<noteq> - 1" and s: "s \<noteq> - 1"
    and b: "check_bound lo = Inr ()" "check_bound hi = Inr ()"
  shows "\<exists>rows. mvcc_scan V t s lo hi = Inr (map Inr rows) \<and> ascending (map fst rows)
    \<and> (\<forall>k. map_of rows k = (if above lo k \<and> beneath hi k then visible vs t k s else None))"
proof -
  let ?ws = "filter (in_physical_range t s lo hi) vs"
  have checks: "check_snapshot t s = Inr ()"
    using t s by (auto simp: check_snapshot_def)
  have ents: "ents State = map physical vs" "\<And>w. w \<in> set vs \<Longrightarrow> valid_version w"
    using S by (auto simp: stored_def)
  have "mvcc_scan V t s lo hi = Inr (state_scan t s None (map (\<lambda>w. Inr (physical w)) ?ws))"
  proof -
    let ?lo = "case lo of Unbounded \<Rightarrow> u64_be t | Included k \<Rightarrow> seek_key t k s | Excluded k \<Rightarrow> after_key t k"
    let ?hi = "case hi of Unbounded \<Rightarrow> u64_be (t + 1) | Included k \<Rightarrow> after_key t k | Excluded k \<Rightarrow> address_prefix t k"
    have "short_bound (Included ?lo)" "short_bound (Excluded ?hi)"
      using b by (auto simp: check_bound_def check_key_def short_physical not_less short_number split: bound.splits if_splits)
    from view_of_scan[OF V this]
    have scan: "vw_scan V State (Included ?lo) (Excluded ?hi) =
        Inr (map (\<lambda>w. Inr (physical w)) (filter (\<lambda>w. ?lo \<le> state_key_encode (fst w) \<and> state_key_encode (fst w) < ?hi) vs))"
      by (simp add: ents(1) filter_map comp_def physical_def)
    show ?thesis
      unfolding mvcc_scan_def checks b Let_def scan physical_range[OF t(2)] by simp
  qed
  also have "\<dots> = Inr (map Inr (scan_versions s None ?ws))"
    using ents(2) by (subst state_scan_versions) (auto simp: in_physical_range_def)
  finally have scan: "mvcc_scan V t s lo hi = Inr (map Inr (scan_versions s None ?ws))" .
  have "ascending (map fst (scan_versions s None ?ws))
    \<and> (\<forall>e \<in> set (scan_versions s None ?ws). (\<forall>k. None = Some k \<longrightarrow> k < fst e)
         \<and> (\<exists>w \<in> set ?ws. sk_key (fst w) = fst e))
    \<and> (\<forall>k. map_of (scan_versions s None ?ws) k = (if None = Some k then None else visible ?ws t k s))"
    by (intro scan_versions_spec sorted_wrt_filter stored_sorted[OF V S]) (auto simp: in_physical_range_def)
  then show ?thesis
    unfolding scan visible_in_range by (intro exI[of _ "scan_versions s None ?ws"]) simp
qed

subsection \<open>Properties\<close>

text \<open>A view that reads a given sorted list of entries; it instantiates the view in examples.\<close>

definition list_view :: "(tree_id \<Rightarrow> entry list) \<Rightarrow> view" where
  "list_view ents = \<lparr>
     vw_get = (\<lambda>t k. if length k \<le> MAX_STATE_KEY_BYTES then Inr (map_of (ents t) k) else Inl (InvalidInput m_long_physical)),
     vw_seek = (\<lambda>t k. if length k \<le> MAX_STATE_KEY_BYTES
         then Inr (case filter (\<lambda>e. k \<le> fst e) (ents t) of [] \<Rightarrow> None | e # _ \<Rightarrow> Some (fst e, Inr (snd e)))
         else Inl (InvalidInput m_long_physical)),
     vw_scan = (\<lambda>t lo hi. if short_bound lo \<and> short_bound hi
         then Inr (map Inr (filter (\<lambda>e. above lo (fst e) \<and> beneath hi (fst e)) (ents t)))
         else Inl (InvalidInput m_long_physical))\<rparr>"

lemma list_view_of: "(\<And>t. sorted_wrt (<) (map fst (ents t))) \<Longrightarrow> view_of (list_view ents) ents"
  by (simp add: view_of_def list_view_def)

definition example_versions :: "version list" where
  "example_versions =
     [(\<lparr>sk_table_id = 1, sk_key = [7], sk_sequence = 4\<rparr>, Delete),
      (\<lparr>sk_table_id = 1, sk_key = [7], sk_sequence = 2\<rparr>, Put [9]),
      (\<lparr>sk_table_id = 1, sk_key = [7, 0], sk_sequence = 3\<rparr>, Put [])]"

definition example_entries :: "tree_id \<Rightarrow> entry list" where
  "example_entries t = (if t = State then map physical example_versions else [])"

lemma example_view: "view_of (list_view example_entries) example_entries"
  by (rule list_view_of)
    (simp add: example_entries_def example_versions_def physical_def state_key_encode_def seek_key_less)

lemma example_stored: "stored example_entries example_versions"
  by (simp add: stored_def example_entries_def example_versions_def valid_version_def
      valid_state_key_def is_ok_def state_value_encode_def MAX_KEY_BYTES_def MAX_VALUE_BYTES_def)

lemma visible_key_length:
  assumes "stored ents vs" "visible vs t k s = Some v"
  shows "length k \<le> MAX_KEY_BYTES"
proof -
  obtain w where "w \<in> set vs" "of_row t k s w"
    using assms(2) by (auto simp: visible_def split: list.splits) (metis filter_eq_ConsD in_set_conv_decomp)
  then show ?thesis
    using assms(1) by (auto simp: stored_def valid_version_def valid_state_key_def of_row_def)
qed

lemma example_ids: "(1 :: u64) \<noteq> 0" "(1 :: u64) \<noteq> - 1" "(3 :: u64) \<noteq> - 1" "(4 :: u64) \<noteq> - 1"
  "length [7 :: byte] \<le> MAX_KEY_BYTES"
  by (simp_all add: MAX_KEY_BYTES_def)

text \<open>
  C32: Physical state keys order by table, then by user key in byte order, then by descending
  sequence, and \<^verbatim>\<open>StateKey::decode\<close> accepts exactly the encodings of valid keys.
\<close>

theorem state_key_order:
  "(state_key_encode a < state_key_encode b \<longleftrightarrow>
      sk_table_id a < sk_table_id b \<or> (sk_table_id a = sk_table_id b \<and> (sk_key a < sk_key b
        \<or> (sk_key a = sk_key b \<and> sk_sequence b < sk_sequence a))))
   \<and> (state_key_decode bs = Inr k \<longleftrightarrow> valid_state_key k \<and> bs = state_key_encode k)"
  by (simp add: state_key_encode_def seek_key_less state_key_decode_exact)

text \<open>
  C30: A point read at a sequence returns the value of the newest version of the row at or
  below it; a deletion, or no such version, reads as absent.
\<close>

theorem snapshot_read:
  assumes "view_of V ents" "stored ents vs"
    and "t \<noteq> 0" "t \<noteq> - 1" "s \<noteq> - 1" "length k \<le> MAX_KEY_BYTES"
  shows "mvcc_get V t k s = Inr r \<longleftrightarrow>
    (if \<exists>w. is_newest vs t k s w then \<exists>w. is_newest vs t k s w \<and> r = put_value (snd w) else r = None)"
proof (cases "\<exists>w. is_newest vs t k s w")
  case True
  then show ?thesis
    unfolding mvcc_get_visible[OF assms]
    using visible_newest[OF stored_sorted[OF assms(1,2)], of t k s] by (metis sum.inject(2))
next
  case False
  then show ?thesis using visible_none[OF False] by (auto simp: mvcc_get_visible[OF assms])
qed

theorem snapshot_read_witness:
  "mvcc_get (list_view example_entries) 1 [7] 3 = Inr (Some [9]) \<and>
   mvcc_get (list_view example_entries) 1 [7] 4 = Inr None"
proof -
  have "is_newest example_versions 1 [7] 3 (\<lparr>sk_table_id = 1, sk_key = [7], sk_sequence = 2\<rparr>, Put [9])"
    "is_newest example_versions 1 [7] 4 (\<lparr>sk_table_id = 1, sk_key = [7], sk_sequence = 4\<rparr>, Delete)"
    by (simp_all add: is_newest_def of_row_def example_versions_def)
  then have newest: "\<exists>w. is_newest example_versions 1 [7] 3 w \<and> Some [9] = put_value (snd w)"
    "\<exists>w. is_newest example_versions 1 [7] 4 w \<and> None = put_value (snd w)"
    by (force simp: put_value_def)+
  then show ?thesis
    using snapshot_read[OF example_view example_stored, of 1 3 "[7]" "Some [9]"]
      snapshot_read[OF example_view example_stored, of 1 4 "[7]" None]
    by (metis (no_types, lifting) example_ids)
qed

text \<open>
  C31: A range read yields, in ascending key order and without errors, exactly the rows of
  the interval that a point read at the same sequence finds.
\<close>

theorem snapshot_scan:
  assumes "view_of V ents" "stored ents vs"
    and "t \<noteq> 0" "t \<noteq> - 1" "s \<noteq> - 1" "check_bound lo = Inr ()" "check_bound hi = Inr ()"
  shows "\<exists>rows. mvcc_scan V t s lo hi = Inr (map Inr rows) \<and> ascending (map fst rows)
    \<and> (\<forall>k v. (k, v) \<in> set rows \<longleftrightarrow>
         above lo k \<and> beneath hi k \<and> mvcc_get V t k s = Inr (Some v))"
proof -
  obtain rows where rows: "mvcc_scan V t s lo hi = Inr (map Inr rows)" "ascending (map fst rows)"
    "\<And>k. map_of rows k = (if above lo k \<and> beneath hi k then visible vs t k s else None)"
    using mvcc_scan_visible[OF assms] by blast
  have "mvcc_get V t k s = Inr (Some v) \<longleftrightarrow> visible vs t k s = Some v" for k v
  proof (cases "length k \<le> MAX_KEY_BYTES")
    case True
    then show ?thesis by (simp add: mvcc_get_visible[OF assms(1-5)])
  next
    case False
    then show ?thesis
      using visible_key_length[OF assms(2), of t k s v] assms(3-5)
      by (auto simp: mvcc_get_def mvcc_read_value_def check_key_def result_simps)
  qed
  moreover have "distinct (map fst rows)"
    using rows(2) by (simp add: ascending_iff strict_sorted_iff)
  then have "(k, v) \<in> set rows \<longleftrightarrow> map_of rows k = Some v" for k v by (simp add: map_of_eq_Some_iff)
  ultimately have "(k, v) \<in> set rows \<longleftrightarrow>
      above lo k \<and> beneath hi k \<and> mvcc_get V t k s = Inr (Some v)" for k v
    using rows(3)[of k] by auto
  with rows(1,2) show ?thesis by blast
qed

theorem snapshot_scan_witness:
  "\<exists>rows. mvcc_scan (list_view example_entries) 1 4 (Included [7]) Unbounded = Inr (map Inr rows)
    \<and> ascending (map fst rows)
    \<and> (\<forall>k v. (k, v) \<in> set rows \<longleftrightarrow> above (Included [7]) k \<and> beneath Unbounded k
         \<and> mvcc_get (list_view example_entries) 1 k 4 = Inr (Some v))"
  by (rule snapshot_scan[OF example_view example_stored])
    (simp_all add: check_bound_def check_key_def MAX_KEY_BYTES_def)

end
