(* ===== verification/Blop_Limits.thy ===== *)
theory Blop_Limits
  imports Blop_Base
begin

section \<open>Resource limits (\<^verbatim>\<open>src/limits.rs\<close>, \<^verbatim>\<open>LimitPolicy\<close> of \<^verbatim>\<open>src/storage/metadata.rs\<close>)\<close>

text \<open>
  The seventeen logical resource bounds, as the named record of the API and as the stored
  array, with its validation, binary form and the conversions between the two.
\<close>

subsection \<open>Reads at an offset\<close>

definition u16_at :: "bytes \<Rightarrow> nat \<Rightarrow> u16" where
  "u16_at bs offset = u16_of_le (take 2 (drop offset bs))"
definition u32_at :: "bytes \<Rightarrow> nat \<Rightarrow> u32" where
  "u32_at bs offset = u32_of_le (take 4 (drop offset bs))"
definition u64_at :: "bytes \<Rightarrow> nat \<Rightarrow> u64" where
  "u64_at bs offset = u64_of_le (take 8 (drop offset bs))"

lemma uint_at_append [simp]:
  "length pre = n \<Longrightarrow> u16_at (pre @ u16_le a @ rest) n = a"
  "length pre = n \<Longrightarrow> u32_at (pre @ u32_le b @ rest) n = b"
  "length pre = n \<Longrightarrow> u64_at (pre @ u64_le c @ rest) n = c"
  "u16_at (u16_le a @ rest) 0 = a"
  "u32_at (u32_le b @ rest) 0 = b"
  "u64_at (u64_le c @ rest) 0 = c"
  by (simp_all add: u16_at_def u32_at_def u64_at_def)

lemma u64_at_concat: "i < length vs \<Longrightarrow> u64_at (concat (map u64_le vs)) (8 * i) = vs ! i"
proof (induction vs arbitrary: i)
  case (Cons v vs)
  then show ?case by (cases i) (auto simp: u64_at_def)
qed simp

lemma concat_u64_at: "length bs = 8 * n \<Longrightarrow> concat (map (\<lambda>i. u64_le (u64_at bs (8 * i))) [0..<n]) = bs"
proof (induction n arbitrary: bs)
  case (Suc n)
  have "concat (map (\<lambda>i. u64_le (u64_at (drop 8 bs) (8 * i))) [0..<n]) = drop 8 bs"
    using Suc.prems by (intro Suc.IH) simp
  moreover have "u64_at bs (8 * Suc i) = u64_at (drop 8 bs) (8 * i)" for i
    by (simp add: u64_at_def add.commute)
  moreover have "u64_le (u64_at bs 0) = take 8 bs"
    using Suc.prems by (simp add: u64_at_def codec_simps)
  ultimately show ?case
    by (simp add: upt_conv_Cons map_Suc_upt[symmetric] comp_def del: upt_Suc map_Suc_upt)
qed simp

subsection \<open>The stored policy\<close>

text \<open>\<^verbatim>\<open>LimitPolicy([u64; 17])\<close>: the array, in ascending resource-ID order.\<close>

type_synonym policy = "u64 list"

definition POLICY_LENGTH :: nat where "POLICY_LENGTH = 140"

definition LIMIT_CEILINGS :: "u64 list" where
  "LIMIT_CEILINGS =
     [16 * 1024 * 1024, 65535, 65535, 65535, 16 * 1024 * 1024, 65535, 16384, 65535, 65535, 1024,
      16 * 1024 * 1024, 64 * 1024 * 1024, 65535, 64 * 1024 * 1024, 65535, 64 * 1024 * 1024,
      16 * 1024 * 1024]"

definition m_policy_ceiling :: string where
  "m_policy_ceiling = ''limit policy exceeds a hard ceiling''"
definition m_policy_length :: string where "m_policy_length = ''invalid limit policy length''"
definition m_policy_reserved :: string where
  "m_policy_reserved = ''nonzero limit policy reserved field''"

definition validate_limits :: "u64 list \<Rightarrow> string + unit" where
  "validate_limits values =
     (if list_ex (\<lambda>(v, ceiling). v > ceiling) (zip values LIMIT_CEILINGS)
      then Inl m_policy_ceiling else Inr ())"

definition policy_new :: "u64 list \<Rightarrow> storage_error + policy" where
  "policy_new values = rbind (map_err InvalidInput (validate_limits values)) (\<lambda>_. Inr values)"

definition policy_encode :: "policy \<Rightarrow> bytes" where
  "policy_encode p = u16_le 1 @ u16_le 0 @ concat (map u64_le p)"

definition check_version :: "u16 \<Rightarrow> string \<Rightarrow> storage_error + unit" where
  "check_version version fmt =
     (if version \<noteq> 1 then Inl (Storage_Unsupported fmt version) else Inr ())"

definition policy_decode :: "bytes \<Rightarrow> storage_error + policy" where
  "policy_decode bs =
     (if length bs \<noteq> POLICY_LENGTH then Inl (Corrupt m_policy_length) else
      rbind (check_version (u16_at bs 0) ''limit policy'') (\<lambda>_.
      if u16_at bs 2 \<noteq> 0 then Inl (Corrupt m_policy_reserved) else
      (let values = map (\<lambda>index. u64_at bs (4 + index * 8)) [0..<17] in
       rbind (map_err Corrupt (validate_limits values)) (\<lambda>_. Inr values))))"

text \<open>What the constructor of the type establishes.\<close>

definition policy_ok :: "policy \<Rightarrow> bool" where
  "policy_ok p \<longleftrightarrow> list_all2 (\<le>) p LIMIT_CEILINGS"

lemma length_ceilings [simp]: "length LIMIT_CEILINGS = 17"
  by (simp add: LIMIT_CEILINGS_def)

lemma policy_ok_length: "policy_ok p \<Longrightarrow> length p = 17"
  by (auto simp: policy_ok_def dest: list_all2_lengthD)

lemma validate_limits_iff: "length p = 17 \<Longrightarrow> validate_limits p = Inr () \<longleftrightarrow> policy_ok p"
  by (auto simp: validate_limits_def policy_ok_def list_ex_iff list_all2_iff not_less
      split: if_splits; force)

lemma policy_new_iff: "length p = 17 \<Longrightarrow> policy_new p = Inr q \<longleftrightarrow> policy_ok p \<and> q = p"
  using validate_limits_iff[of p] by (auto simp: policy_new_def result_simps)

lemma policy_decode_exact:
  "policy_decode bs = Inr p \<longleftrightarrow> policy_ok p \<and> bs = policy_encode p"
proof
  assume "policy_decode bs = Inr p"
  then have len: "length bs = 140" and "u16_at bs 0 = 1" "u16_at bs 2 = 0"
    and p: "p = map (\<lambda>i. u64_at bs (4 + i * 8)) [0..<17]" and v: "validate_limits p = Inr ()"
    by (auto simp: policy_decode_def result_simps POLICY_LENGTH_def check_version_def Let_def
        split: if_splits)
  have split: "bs = take 2 bs @ take 2 (drop 2 bs) @ drop 4 bs"
    using append_take_drop_id[of 2 bs] append_take_drop_id[of 2 "drop 2 bs"] by simp
  have h: "take 2 bs = u16_le 1" "take 2 (drop 2 bs) = u16_le 0"
    using len \<open>u16_at bs 0 = 1\<close> \<open>u16_at bs 2 = 0\<close>
      uint_codec_canonical(1)[of "take 2 bs"] uint_codec_canonical(1)[of "take 2 (drop 2 bs)"]
    by (simp_all add: u16_at_def)
  have "u64_at bs (4 + i * 8) = u64_at (drop 4 bs) (8 * i)" for i
    by (simp add: u64_at_def add.commute mult.commute)
  then have "concat (map u64_le p) = drop 4 bs"
    using concat_u64_at[of "drop 4 bs" 17] len by (simp add: p comp_def)
  then show "policy_ok p \<and> bs = policy_encode p"
    using validate_limits_iff[of p] v p split h by (simp add: policy_encode_def)
next
  assume R: "policy_ok p \<and> bs = policy_encode p"
  then have len: "length p = 17" by (simp add: policy_ok_length)
  have "length (concat (map u64_le p)) = 8 * length p"
    by (induction p) auto
  then have "length bs = 140" using R len by (simp add: policy_encode_def)
  moreover have "u16_at bs 0 = 1" "u16_at bs 2 = 0"
    using R uint_at_append(1)[of "u16_le 1" 2 0] by (simp_all add: policy_encode_def)
  moreover have "map (\<lambda>i. u64_at bs (4 + i * 8)) [0..<17] = p"
  proof (rule nth_equalityI)
    fix i assume "i < length (map (\<lambda>i. u64_at bs (4 + i * 8)) [0..<17])"
    then have "i < length p" using len by simp
    moreover have "u64_at bs (4 + i * 8) = u64_at (concat (map u64_le p)) (8 * i)"
      using R by (simp add: policy_encode_def u64_at_def mult.commute)
    ultimately show "map (\<lambda>i. u64_at bs (4 + i * 8)) [0..<17] ! i = p ! i"
      using len by (simp add: u64_at_concat)
  qed (simp add: len)
  ultimately show "policy_decode bs = Inr p"
    using R validate_limits_iff[OF len]
    by (simp add: policy_decode_def POLICY_LENGTH_def check_version_def Let_def)
qed

interpretation policy_codec: exact_codec "\<lambda>p. Inr (policy_encode p)" policy_decode policy_ok
  by unfold_locales (auto simp: policy_decode_exact)

subsection \<open>The named record\<close>

record limits =
  l_program_bytes :: u64
  l_instructions :: u64
  l_registers :: u64
  l_arguments :: u64
  l_argument_bytes :: u64
  l_tables :: u64
  l_manifest_scopes :: u64
  l_point_accesses :: u64
  l_distinct_keys :: u64
  l_key_bytes :: u64
  l_value_bytes :: u64
  l_register_bytes :: u64
  l_range_rows :: u64
  l_range_bytes :: u64
  l_writes :: u64
  l_overlay_bytes :: u64
  l_result_bytes :: u64

definition limits_default :: limits where
  "limits_default = \<lparr>l_program_bytes = 16 * 1024 * 1024, l_instructions = 65535,
     l_registers = 65535, l_arguments = 65535, l_argument_bytes = 16 * 1024 * 1024,
     l_tables = 65535, l_manifest_scopes = 16384, l_point_accesses = 65535,
     l_distinct_keys = 65535, l_key_bytes = 1024, l_value_bytes = 16 * 1024 * 1024,
     l_register_bytes = 64 * 1024 * 1024, l_range_rows = 65535,
     l_range_bytes = 64 * 1024 * 1024, l_writes = 65535,
     l_overlay_bytes = 64 * 1024 * 1024, l_result_bytes = 16 * 1024 * 1024\<rparr>"

definition policy_of_limits :: "limits \<Rightarrow> storage_error + policy" where
  "policy_of_limits l = policy_new
     [l_program_bytes l, l_instructions l, l_registers l, l_arguments l,
      l_argument_bytes l, l_tables l, l_manifest_scopes l, l_point_accesses l,
      l_distinct_keys l, l_key_bytes l, l_value_bytes l, l_register_bytes l, l_range_rows l,
      l_range_bytes l, l_writes l, l_overlay_bytes l, l_result_bytes l]"

definition limits_of_policy :: "policy \<Rightarrow> limits" where
  "limits_of_policy p = \<lparr>l_program_bytes = p ! 0, l_instructions = p ! 1,
     l_registers = p ! 2, l_arguments = p ! 3, l_argument_bytes = p ! 4,
     l_tables = p ! 5, l_manifest_scopes = p ! 6, l_point_accesses = p ! 7,
     l_distinct_keys = p ! 8, l_key_bytes = p ! 9, l_value_bytes = p ! 10,
     l_register_bytes = p ! 11, l_range_rows = p ! 12, l_range_bytes = p ! 13,
     l_writes = p ! 14, l_overlay_bytes = p ! 15, l_result_bytes = p ! 16\<rparr>"

lemma limits_round_trip:
  "policy_of_limits l = Inr p \<Longrightarrow> policy_ok p \<and> limits_of_policy p = l"
  by (auto simp: policy_of_limits_def policy_new_iff limits_of_policy_def)

lemma limits_default_ok: "policy_of_limits limits_default = Inr LIMIT_CEILINGS"
  by (auto simp: policy_of_limits_def limits_default_def policy_new_iff policy_ok_def
      LIMIT_CEILINGS_def)

subsection \<open>Properties\<close>

text \<open>
  \<^verbatim>\<open>LimitPolicy::decode\<close> accepts exactly the encodings of policies within the hard
  ceilings; and a policy built from \<^verbatim>\<open>Limits\<close> survives the codec and gives the same
  \<^verbatim>\<open>Limits\<close> back.
\<close>

theorem policy_codec_round_trip:
  "(policy_decode bs = Inr p \<longleftrightarrow> policy_ok p \<and> bs = policy_encode p) \<and>
   (policy_of_limits l = Inr q \<longrightarrow>
      policy_decode (policy_encode q) = Inr q \<and> limits_of_policy q = l)"
  using limits_round_trip[of l q] by (auto simp: policy_decode_exact)

theorem policy_codec_round_trip_witness:
  "policy_of_limits limits_default = Inr LIMIT_CEILINGS \<and>
   policy_decode (policy_encode LIMIT_CEILINGS) = Inr LIMIT_CEILINGS \<and>
   limits_of_policy LIMIT_CEILINGS = limits_default"
  using policy_codec_round_trip[of "[]" "[]" limits_default LIMIT_CEILINGS] limits_default_ok by blast

end
