(* ===== verification/Blop_Program.thy ===== *)
theory Blop_Program
  imports Blop_Value Blop_Limits
begin

unbundle bit_operations_syntax

section \<open>Programs: decoding and verification (\<^verbatim>\<open>src/vm/program.rs\<close>)\<close>

text \<open>
  The instructions of ISA 1, the reader of program and argument bytes, and the verifier: a
  forward dataflow analysis with one bit per register (definitely initialised or not),
  which checks every instruction against the declared register, table and result types.
\<close>

subsection \<open>Data\<close>

definition MAX_PROGRAM_BYTES :: nat where "MAX_PROGRAM_BYTES = 16 * 1024 * 1024"

datatype binary_op =
    BAdd | BSub | BMul | BDiv | BRem | BEq | BLt | BLe | BGt | BGe
  | BBoolAnd | BBoolOr | BBoolXor | BBitAnd | BBitOr | BBitXor | BShl | BShr
  | BRowsKey | BRowsValue | BConcat

datatype unary_op =
    UNeg | UToI64 | UToU64 | UBoolNot | UBitNot | URowsLen | UByteLen | UUtf8Bytes
  | UParseUtf8 | USha256

datatype instruction =
    IConst nat nat \<comment> \<open>dst, constant\<close>
  | IArg nat nat \<comment> \<open>dst, argument\<close>
  | IMove nat nat \<comment> \<open>dst, src\<close>
  | IBinary binary_op nat nat nat \<comment> \<open>op, dst, left, right\<close>
  | IUnary unary_op nat nat \<comment> \<open>op, dst, src\<close>
  | ILoad nat nat nat \<comment> \<open>dst, table, key\<close>
  | IExists nat nat nat \<comment> \<open>dst, table, key\<close>
  | IInsert nat nat nat \<comment> \<open>table, key, value\<close>
  | IStore nat nat nat \<comment> \<open>table, key, value\<close>
  | IDelete nat nat \<comment> \<open>table, key\<close>
  | IScan nat nat "nat option" "nat option" byte u32 u64 \<comment> \<open>dst, table, lower, upper, flags, limits\<close>
  | ISlice nat nat nat nat \<comment> \<open>dst, src, start, length\<close>
  | ITuple nat "nat list" \<comment> \<open>dst, fields\<close>
  | IField nat nat nat \<comment> \<open>dst, src, field\<close>
  | IJump nat \<comment> \<open>target\<close>
  | IJumpIfFalse nat nat \<comment> \<open>condition, target\<close>
  | IRequire nat u32 \<comment> \<open>condition, user code\<close>
  | IAbort u32 \<comment> \<open>user code\<close>
  | IReturn nat \<comment> \<open>src\<close>

record tbl =
  t_id :: u64
  t_key :: vm_type
  t_value :: vm_type

record program =
  p_result_type :: vm_type
  p_tables :: "tbl list"
  p_arguments :: "vm_value list"
  p_register_types :: "vm_type list"
  p_constants :: "vm_value list"
  p_instructions :: "instruction list"

record header =
  h_registers :: nat
  h_arguments :: nat
  h_tables :: nat
  h_constants :: nat
  h_instructions :: nat

definition m_prog_truncated :: string where
  "m_prog_truncated = ''truncated program or arguments''"
definition m_prog_trailing :: string where
  "m_prog_trailing = ''trailing program or argument bytes''"
definition m_prog_ceiling :: string where
  "m_prog_ceiling = ''program_bytes exceeds hard ceiling''"
definition m_prog_magic :: string where "m_prog_magic = ''invalid program magic''"
definition m_prog_flags :: string where "m_prog_flags = ''nonzero program flags''"
definition m_prog_length :: string where "m_prog_length = ''invalid total program length''"
definition m_prog_count :: string where
  "m_prog_count = ''instruction count must be from 1 through 65535''"
definition m_prog_reserved :: string where "m_prog_reserved = ''nonzero program reserved field''"
definition m_table_overflow :: string where "m_table_overflow = ''table array length overflow''"
definition m_table_ids :: string where
  "m_table_ids = ''table IDs must be valid and strictly increasing''"
definition m_claim_program :: string where "m_claim_program = ''program_bytes exceeds claim''"
definition m_claim_instructions :: string where
  "m_claim_instructions = ''instructions exceeds claim''"
definition m_claim_registers :: string where "m_claim_registers = ''registers exceeds claim''"
definition m_claim_arguments :: string where "m_claim_arguments = ''arguments exceeds claim''"
definition m_claim_argument_bytes :: string where
  "m_claim_argument_bytes = ''argument_bytes exceeds claim''"
definition m_claim_tables :: string where "m_claim_tables = ''tables exceeds claim''"
definition m_tables_mismatch :: string where
  "m_tables_mismatch = ''resolved tables do not match program table IDs''"
definition m_rows_argument :: string where "m_rows_argument = ''Rows cannot be an argument''"
definition m_rows_constant :: string where "m_rows_constant = ''Rows cannot be a constant''"
definition m_constant_claim :: string where
  "m_constant_claim = ''constant value_bytes exceeds claim''"
definition m_argument_count :: string where
  "m_argument_count = ''supplied argument count does not match program''"
definition m_argument_claim :: string where
  "m_argument_claim = ''argument value_bytes exceeds claim''"
definition m_instr_flags :: string where "m_instr_flags = ''nonzero instruction flags''"
definition m_opcode :: string where "m_opcode = ''unknown ISA 1 opcode''"
definition m_scan_flags :: string where "m_scan_flags = ''invalid scan flags or reserved field''"
definition m_scan_endpoint :: string where
  "m_scan_endpoint = ''absent scan endpoint cannot be inclusive''"
definition m_tuple_count :: string where "m_tuple_count = ''TUPLE exceeds 256 fields''"
definition m_operand_length :: string where
  "m_operand_length = ''incorrect instruction operand length''"
definition m_shape :: string where "m_shape = ''instruction type shape mismatch''"
definition m_integer :: string where "m_integer = ''instruction requires an integer''"
definition m_register :: string where "m_register = ''register index out of bounds''"
definition m_uninit :: string where "m_uninit = ''source register is not definitely initialized''"
definition m_table_index :: string where "m_table_index = ''table index out of bounds''"
definition m_constant_index :: string where "m_constant_index = ''constant index out of bounds''"
definition m_argument_index :: string where "m_argument_index = ''argument index out of bounds''"
definition m_rows_compare :: string where "m_rows_compare = ''Rows cannot be compared''"
definition m_rows_source :: string where
  "m_rows_source = ''Rows instruction requires a Rows source''"
definition m_concat :: string where "m_concat = ''CONCAT requires Bytes or String''"
definition m_byte_len :: string where "m_byte_len = ''BYTE_LEN requires Bytes or String''"
definition m_scan_rows_claim :: string where
  "m_scan_rows_claim = ''scan range_rows exceeds claim''"
definition m_scan_bytes_claim :: string where
  "m_scan_bytes_claim = ''scan range_bytes exceeds claim''"
definition m_scan_dst :: string where "m_scan_dst = ''scan destination must be Rows''"
definition m_tuple_dst :: string where "m_tuple_dst = ''TUPLE destination must be a tuple''"
definition m_tuple_arity :: string where
  "m_tuple_arity = ''TUPLE arity does not match destination''"
definition m_field_src :: string where "m_field_src = ''FIELD source must be a tuple''"
definition m_field_index :: string where "m_field_index = ''FIELD index out of bounds''"
definition m_branch :: string where
  "m_branch = ''branch target must be forward and within the program''"
definition m_unreachable :: string where "m_unreachable = ''unreachable instruction''"
definition m_falls_off :: string where
  "m_falls_off = ''control flow falls off the instruction array''"

subsection \<open>The reader\<close>

abbreviation prog_error :: vm_error where "prog_error \<equiv> Invalid m_prog_truncated"

definition prog_u16 :: "bytes \<Rightarrow> vm_error + nat \<times> bytes" where
  "prog_u16 input = rbind (take_u16 prog_error input) (\<lambda>(n, input). Inr (unat n, input))"

definition finish :: "bytes \<Rightarrow> vm_error + unit" where
  "finish input = (if input \<noteq> [] then Inl (Invalid m_prog_trailing) else Inr ())"

definition BLOPVM01 :: bytes where
  "BLOPVM01 = [0x42, 0x4c, 0x4f, 0x50, 0x56, 0x4d, 0x30, 0x31]"

definition read_header :: "bytes \<Rightarrow> vm_error + header \<times> bytes" where
  "read_header bs =
     (if length bs > MAX_PROGRAM_BYTES then Inl (Invalid m_prog_ceiling) else
      rbind (take_bytes prog_error 8 bs) (\<lambda>(magic, input).
      if magic \<noteq> BLOPVM01 then Inl (Invalid m_prog_magic) else
      rbind (take_u16 prog_error input) (\<lambda>(version, input).
      if version \<noteq> 1 then Inl (Unsupported ''ISA'' version) else
      rbind (prog_u16 input) (\<lambda>(flags, input).
      if flags \<noteq> 0 then Inl (Invalid m_prog_flags) else
      rbind (take_u32 prog_error input) (\<lambda>(len, input).
      if unat len \<noteq> length bs then Inl (Invalid m_prog_length) else
      rbind (prog_u16 input) (\<lambda>(registers, input).
      rbind (prog_u16 input) (\<lambda>(arguments, input).
      rbind (prog_u16 input) (\<lambda>(tables, input).
      rbind (prog_u16 input) (\<lambda>(constants, input).
      rbind (take_u32 prog_error input) (\<lambda>(instructions, input).
      if \<not> (1 \<le> unat instructions \<and> unat instructions \<le> 65535) then Inl (Invalid m_prog_count) else
      rbind (take_u32 prog_error input) (\<lambda>(reserved, input).
      if reserved \<noteq> 0 then Inl (Invalid m_prog_reserved) else
      Inr (\<lparr>h_registers = registers, h_arguments = arguments, h_tables = tables,
            h_constants = constants, h_instructions = unat instructions\<rparr>, input))))))))))))"

fun read_table_ids :: "nat \<Rightarrow> u64 list \<Rightarrow> bytes \<Rightarrow> vm_error + u64 list" where
  "read_table_ids 0 ids input = Inr ids"
| "read_table_ids (Suc n) ids input =
     rbind (take_u64 prog_error input) (\<lambda>(id, input).
     if id = 0 \<or> id = - 1 \<or> (ids \<noteq> [] \<and> last ids \<ge> id) then Inl (Invalid m_table_ids)
     else read_table_ids n (ids @ [id]) input)"

definition read_tables :: "nat \<Rightarrow> bytes \<Rightarrow> vm_error + u64 list \<times> bytes" where
  "read_tables count input =
     rbind (ok_or (Invalid m_table_overflow) (checked_mul count 8)) (\<lambda>len.
     rbind (take_bytes prog_error len input) (\<lambda>(array, input).
     rbind (read_table_ids count [] array) (\<lambda>ids. Inr (ids, input))))"

definition table_ids :: "bytes \<Rightarrow> vm_error + u64 list" where
  "table_ids bs =
     rbind (read_header bs) (\<lambda>(header, input).
     rbind (take_blob prog_error input) (\<lambda>(result, input).
     rbind (type_decode result) (\<lambda>_.
     rbind (read_tables (h_tables header) input) (\<lambda>(ids, _). Inr ids))))"

subsection \<open>Instructions\<close>

definition binary_opcode :: "byte \<Rightarrow> binary_op option" where
  "binary_opcode opcode = map_of
     [(0x10, BAdd), (0x11, BSub), (0x12, BMul), (0x13, BDiv), (0x14, BRem), (0x20, BEq),
      (0x21, BLt), (0x22, BLe), (0x23, BGt), (0x24, BGe), (0x28, BBoolAnd), (0x29, BBoolOr),
      (0x2a, BBoolXor), (0x30, BBitAnd), (0x31, BBitOr), (0x32, BBitXor), (0x34, BShl),
      (0x35, BShr), (0x4a, BRowsKey), (0x4b, BRowsValue), (0x51, BConcat)] opcode"

definition unary_opcode :: "byte \<Rightarrow> unary_op option" where
  "unary_opcode opcode = map_of
     [(0x15, UNeg), (0x16, UToI64), (0x17, UToU64), (0x2b, UBoolNot), (0x33, UBitNot),
      (0x49, URowsLen), (0x50, UByteLen), (0x53, UUtf8Bytes), (0x54, UParseUtf8),
      (0x55, USha256)] opcode"

text \<open>Fixed groups of 16-bit operands, in the order they are read.\<close>

definition operands1 :: "(nat \<Rightarrow> 'a) \<Rightarrow> bytes \<Rightarrow> vm_error + 'a \<times> bytes" where
  "operands1 f input = rbind (prog_u16 input) (\<lambda>(a, input). Inr (f a, input))"
definition operands2 :: "(nat \<Rightarrow> nat \<Rightarrow> 'a) \<Rightarrow> bytes \<Rightarrow> vm_error + 'a \<times> bytes" where
  "operands2 f input = rbind (prog_u16 input) (\<lambda>(a, input). operands1 (f a) input)"
definition operands3 :: "(nat \<Rightarrow> nat \<Rightarrow> nat \<Rightarrow> 'a) \<Rightarrow> bytes \<Rightarrow> vm_error + 'a \<times> bytes" where
  "operands3 f input = rbind (prog_u16 input) (\<lambda>(a, input). operands2 (f a) input)"
definition operands4 :: "(nat \<Rightarrow> nat \<Rightarrow> nat \<Rightarrow> nat \<Rightarrow> 'a) \<Rightarrow> bytes \<Rightarrow> vm_error + 'a \<times> bytes" where
  "operands4 f input = rbind (prog_u16 input) (\<lambda>(a, input). operands3 (f a) input)"

fun read_fields :: "nat \<Rightarrow> bytes \<Rightarrow> vm_error + nat list \<times> bytes" where
  "read_fields 0 input = Inr ([], input)"
| "read_fields (Suc n) input =
     rbind (prog_u16 input) (\<lambda>(field, input).
     rbind (read_fields n input) (\<lambda>(fields, input). Inr (field # fields, input)))"

definition endpoint :: "nat \<Rightarrow> nat option" where
  "endpoint r = (if r \<noteq> 0xffff then Some r else None)"

definition read_scan :: "bytes \<Rightarrow> vm_error + instruction \<times> bytes" where
  "read_scan input =
     rbind (prog_u16 input) (\<lambda>(dst, input).
     rbind (prog_u16 input) (\<lambda>(table, input).
     rbind (prog_u16 input) (\<lambda>(lower, input).
     rbind (prog_u16 input) (\<lambda>(upper, input).
     rbind (take_u8 prog_error input) (\<lambda>(flags, input).
     if flags AND NOT 3 \<noteq> 0 then Inl (Invalid m_scan_flags) else
     rbind (take_u8 prog_error input) (\<lambda>(reserved, input).
     if reserved \<noteq> 0 then Inl (Invalid m_scan_flags) else
     if endpoint lower = None \<and> flags AND 1 \<noteq> 0 \<or> endpoint upper = None \<and> flags AND 2 \<noteq> 0
     then Inl (Invalid m_scan_endpoint) else
     rbind (take_u32 prog_error input) (\<lambda>(row_limit, input).
     rbind (take_u64 prog_error input) (\<lambda>(byte_limit, input).
     Inr (IScan dst table (endpoint lower) (endpoint upper) flags row_limit byte_limit, input)))))))))"

definition read_operands :: "byte \<Rightarrow> bytes \<Rightarrow> vm_error + instruction \<times> bytes" where
  "read_operands opcode input =
     (if opcode = 0x01 then operands2 IConst input
      else if opcode = 0x02 then operands2 IArg input
      else if opcode = 0x03 then operands2 IMove input
      else case binary_opcode opcode of Some op \<Rightarrow> operands3 (IBinary op) input | None \<Rightarrow>
      case unary_opcode opcode of Some op \<Rightarrow> operands2 (IUnary op) input | None \<Rightarrow>
      if opcode = 0x40 then operands3 ILoad input
      else if opcode = 0x41 then operands3 IExists input
      else if opcode = 0x42 then operands3 IInsert input
      else if opcode = 0x43 then operands3 IStore input
      else if opcode = 0x44 then operands2 IDelete input
      else if opcode = 0x48 then read_scan input
      else if opcode = 0x52 then operands4 ISlice input
      else if opcode = 0x58 then
        rbind (prog_u16 input) (\<lambda>(dst, input).
        rbind (prog_u16 input) (\<lambda>(count, input).
        if count > 256 then Inl (Invalid m_tuple_count) else
        rbind (read_fields count input) (\<lambda>(fields, input). Inr (ITuple dst fields, input))))
      else if opcode = 0x59 then operands3 IField input
      else if opcode = 0x60 then
        rbind (take_u32 prog_error input) (\<lambda>(target, input). Inr (IJump (unat target), input))
      else if opcode = 0x61 then
        rbind (prog_u16 input) (\<lambda>(condition, input).
        rbind (take_u32 prog_error input) (\<lambda>(target, input).
        Inr (IJumpIfFalse condition (unat target), input)))
      else if opcode = 0x62 then
        rbind (prog_u16 input) (\<lambda>(condition, input).
        rbind (take_u32 prog_error input) (\<lambda>(user_code, input).
        Inr (IRequire condition user_code, input)))
      else if opcode = 0x63 then
        rbind (take_u32 prog_error input) (\<lambda>(user_code, input). Inr (IAbort user_code, input))
      else if opcode = 0x64 then operands1 IReturn input
      else Inl (Invalid m_opcode))"

fun read_instructions :: "nat \<Rightarrow> instruction list \<Rightarrow> bytes \<Rightarrow>
    vm_error + instruction list \<times> bytes" where
  "read_instructions 0 instructions input = Inr (instructions, input)"
| "read_instructions (Suc n) instructions input =
     rbind (take_u8 prog_error input) (\<lambda>(opcode, input).
     rbind (take_u8 prog_error input) (\<lambda>(flags, input).
     if flags \<noteq> 0 then Inl (Invalid m_instr_flags) else
     rbind (prog_u16 input) (\<lambda>(len, input).
     rbind (take_bytes prog_error len input) (\<lambda>(operands, input).
     rbind (read_operands opcode operands) (\<lambda>(instruction, rest).
     if rest \<noteq> [] then Inl (Invalid m_operand_length) else
     read_instructions n (instructions @ [instruction]) input)))))"

subsection \<open>Verification\<close>

definition check_shape :: "vm_type \<Rightarrow> vm_type \<Rightarrow> vm_error + unit" where
  "check_shape a b = (if same_shape a b then Inr () else Inl (Invalid m_shape))"

definition check_integer :: "vm_type \<Rightarrow> vm_error + unit" where
  "check_integer ty = (case ty of TI64 \<Rightarrow> Inr () | TU64 \<Rightarrow> Inr () | _ \<Rightarrow> Inl (Invalid m_integer))"

definition get_or :: "vm_error \<Rightarrow> 'a list \<Rightarrow> nat \<Rightarrow> vm_error + 'a" where
  "get_or e xs i = (if i < length xs then Inr (xs ! i) else Inl e)"

text \<open>The bitset of definitely initialised registers, 64 to a word.\<close>

type_synonym bitset = "u64 list"

definition register_type :: "program \<Rightarrow> nat \<Rightarrow> vm_error + vm_type" where
  "register_type prog index = get_or (Invalid m_register) (p_register_types prog) index"

definition source_type :: "program \<Rightarrow> bitset \<Rightarrow> nat \<Rightarrow> vm_error + vm_type" where
  "source_type prog initialized index =
     rbind (register_type prog index) (\<lambda>ty.
     rbind (get_or Panic initialized (index div 64)) (\<lambda>word.
     if word AND push_bit (index mod 64) 1 = 0 then Inl (Invalid m_uninit) else Inr ty))"

definition table_at :: "program \<Rightarrow> nat \<Rightarrow> vm_error + tbl" where
  "table_at prog index = get_or (Invalid m_table_index) (p_tables prog) index"

definition verify_binary :: "binary_op \<Rightarrow> vm_type \<Rightarrow> vm_type \<Rightarrow> vm_type \<Rightarrow> vm_error + unit" where
  "verify_binary op destination left right =
     (if op \<in> {BAdd, BSub, BMul, BDiv, BRem, BBitAnd, BBitOr, BBitXor} then
        rbind (check_integer destination) (\<lambda>_.
        rbind (check_shape destination left) (\<lambda>_. check_shape destination right))
      else if op \<in> {BEq, BLt, BLe, BGt, BGe} then
        rbind (check_shape destination TBoolean) (\<lambda>_.
        rbind (check_shape left right) (\<lambda>_.
        case left of TRows _ _ _ \<Rightarrow> Inl (Invalid m_rows_compare) | _ \<Rightarrow> Inr ()))
      else if op \<in> {BBoolAnd, BBoolOr, BBoolXor} then
        rbind (check_shape destination TBoolean) (\<lambda>_.
        rbind (check_shape left TBoolean) (\<lambda>_. check_shape right TBoolean))
      else if op \<in> {BShl, BShr} then
        rbind (check_integer destination) (\<lambda>_.
        rbind (check_shape destination left) (\<lambda>_. check_shape right TU64))
      else if op \<in> {BRowsKey, BRowsValue} then
        (case left of
           TRows _ key val \<Rightarrow>
             rbind (check_shape right TU64) (\<lambda>_.
             if op = BRowsKey then check_shape destination key else check_shape destination val)
         | _ \<Rightarrow> Inl (Invalid m_rows_source))
      else
        rbind (case destination of TBytes _ \<Rightarrow> Inr () | TString _ \<Rightarrow> Inr ()
               | _ \<Rightarrow> Inl (Invalid m_concat)) (\<lambda>_.
        rbind (check_shape destination left) (\<lambda>_. check_shape destination right)))"

definition verify_unary :: "unary_op \<Rightarrow> vm_type \<Rightarrow> vm_type \<Rightarrow> vm_error + unit" where
  "verify_unary op destination source =
     (case op of
        UNeg \<Rightarrow> rbind (check_shape destination TI64) (\<lambda>_. check_shape source TI64)
      | UToI64 \<Rightarrow> rbind (check_shape destination TI64) (\<lambda>_. check_shape source TU64)
      | UToU64 \<Rightarrow> rbind (check_shape destination TU64) (\<lambda>_. check_shape source TI64)
      | UBoolNot \<Rightarrow> rbind (check_shape destination TBoolean) (\<lambda>_. check_shape source TBoolean)
      | UBitNot \<Rightarrow> rbind (check_integer destination) (\<lambda>_. check_shape destination source)
      | URowsLen \<Rightarrow> rbind (check_shape destination TU64) (\<lambda>_.
          case source of TRows _ _ _ \<Rightarrow> Inr () | _ \<Rightarrow> Inl (Invalid m_rows_source))
      | UByteLen \<Rightarrow> rbind (check_shape destination TU64) (\<lambda>_.
          case source of TBytes _ \<Rightarrow> Inr () | TString _ \<Rightarrow> Inr () | _ \<Rightarrow> Inl (Invalid m_byte_len))
      | UUtf8Bytes \<Rightarrow> rbind (check_shape destination (TBytes 0)) (\<lambda>_. check_shape source (TString 0))
      | UParseUtf8 \<Rightarrow> rbind (check_shape destination (TString 0)) (\<lambda>_. check_shape source (TBytes 0))
      | USha256 \<Rightarrow> rbind (check_shape destination (TBytes 0)) (\<lambda>_. check_shape source (TBytes 0)))"

fun verify_fields :: "program \<Rightarrow> bitset \<Rightarrow> vm_type list \<Rightarrow> nat list \<Rightarrow> vm_error + unit" where
  "verify_fields prog initialized (ty # types) (r # regs) =
     rbind (source_type prog initialized r) (\<lambda>source.
     rbind (check_shape ty source) (\<lambda>_. verify_fields prog initialized types regs))"
| "verify_fields prog initialized _ _ = Inr ()"

fun verify_endpoints :: "program \<Rightarrow> bitset \<Rightarrow> vm_type \<Rightarrow> nat option list \<Rightarrow> vm_error + unit" where
  "verify_endpoints prog initialized key [] = Inr ()"
| "verify_endpoints prog initialized key (None # endpoints) =
     verify_endpoints prog initialized key endpoints"
| "verify_endpoints prog initialized key (Some r # endpoints) =
     rbind (source_type prog initialized r) (\<lambda>source.
     rbind (check_shape source key) (\<lambda>_. verify_endpoints prog initialized key endpoints))"

definition verify_instruction :: "instruction \<Rightarrow> program \<Rightarrow> vm_type list \<Rightarrow> vm_type list \<Rightarrow>
    bitset \<Rightarrow> policy \<Rightarrow> vm_error + nat option" where
  "verify_instruction instruction prog argument_types constant_types initialized claims =
     (let register = register_type prog; source = source_type prog initialized in
      case instruction of
        IConst dst constant \<Rightarrow>
          rbind (get_or (Invalid m_constant_index) constant_types constant) (\<lambda>ty.
          rbind (register dst) (\<lambda>d.
          rbind (check_shape d ty) (\<lambda>_. Inr (Some dst))))
      | IArg dst argument \<Rightarrow>
          rbind (get_or (Invalid m_argument_index) argument_types argument) (\<lambda>ty.
          rbind (register dst) (\<lambda>d.
          rbind (check_shape d ty) (\<lambda>_. Inr (Some dst))))
      | IMove dst src \<Rightarrow>
          rbind (register dst) (\<lambda>d.
          rbind (source src) (\<lambda>s.
          rbind (check_shape d s) (\<lambda>_. Inr (Some dst))))
      | IBinary op dst left right \<Rightarrow>
          rbind (register dst) (\<lambda>d.
          rbind (source left) (\<lambda>l.
          rbind (source right) (\<lambda>r.
          rbind (verify_binary op d l r) (\<lambda>_. Inr (Some dst)))))
      | IUnary op dst src \<Rightarrow>
          rbind (register dst) (\<lambda>d.
          rbind (source src) (\<lambda>s.
          rbind (verify_unary op d s) (\<lambda>_. Inr (Some dst))))
      | ILoad dst index key \<Rightarrow>
          rbind (table_at prog index) (\<lambda>table.
          rbind (source key) (\<lambda>k.
          rbind (check_shape k (t_key table)) (\<lambda>_.
          rbind (register dst) (\<lambda>d.
          rbind (check_shape d (t_value table)) (\<lambda>_. Inr (Some dst))))))
      | IExists dst index key \<Rightarrow>
          rbind (source key) (\<lambda>k.
          rbind (table_at prog index) (\<lambda>table.
          rbind (check_shape k (t_key table)) (\<lambda>_.
          rbind (register dst) (\<lambda>d.
          rbind (check_shape d TBoolean) (\<lambda>_. Inr (Some dst))))))
      | IInsert index key val \<Rightarrow>
          rbind (table_at prog index) (\<lambda>table.
          rbind (source key) (\<lambda>k.
          rbind (check_shape (t_key table) k) (\<lambda>_.
          rbind (source val) (\<lambda>v.
          rbind (check_shape (t_value table) v) (\<lambda>_. Inr None)))))
      | IStore index key val \<Rightarrow>
          rbind (table_at prog index) (\<lambda>table.
          rbind (source key) (\<lambda>k.
          rbind (check_shape (t_key table) k) (\<lambda>_.
          rbind (source val) (\<lambda>v.
          rbind (check_shape (t_value table) v) (\<lambda>_. Inr None)))))
      | IDelete index key \<Rightarrow>
          rbind (table_at prog index) (\<lambda>table.
          rbind (source key) (\<lambda>k.
          rbind (check_shape (t_key table) k) (\<lambda>_. Inr None)))
      | IScan dst index lower upper flags row_limit byte_limit \<Rightarrow>
          if unat row_limit > unat (claims ! 12) then Inl (Invalid m_scan_rows_claim) else
          if byte_limit > claims ! 13 then Inl (Invalid m_scan_bytes_claim) else
          rbind (table_at prog index) (\<lambda>table.
          rbind (register dst) (\<lambda>d.
          case d of
            TRows _ key val \<Rightarrow>
              rbind (check_shape key (t_key table)) (\<lambda>_.
              rbind (check_shape val (t_value table)) (\<lambda>_.
              rbind (verify_endpoints prog initialized (t_key table) [lower, upper]) (\<lambda>_.
              Inr (Some dst))))
          | _ \<Rightarrow> Inl (Invalid m_scan_dst)))
      | ISlice dst src start len \<Rightarrow>
          rbind (register dst) (\<lambda>d.
          rbind (check_shape d (TBytes 0)) (\<lambda>_.
          rbind (source src) (\<lambda>s.
          rbind (check_shape s (TBytes 0)) (\<lambda>_.
          rbind (source start) (\<lambda>a.
          rbind (check_shape a TU64) (\<lambda>_.
          rbind (source len) (\<lambda>b.
          rbind (check_shape b TU64) (\<lambda>_. Inr (Some dst)))))))))
      | ITuple dst regs \<Rightarrow>
          rbind (register dst) (\<lambda>d.
          case d of
            TTuple types \<Rightarrow>
              if length types \<noteq> length regs then Inl (Invalid m_tuple_arity) else
              rbind (verify_fields prog initialized types regs) (\<lambda>_. Inr (Some dst))
          | _ \<Rightarrow> Inl (Invalid m_tuple_dst))
      | IField dst src field \<Rightarrow>
          rbind (source src) (\<lambda>s.
          case s of
            TTuple tys \<Rightarrow>
              rbind (get_or (Invalid m_field_index) tys field) (\<lambda>ty.
              rbind (register dst) (\<lambda>d.
              rbind (check_shape d ty) (\<lambda>_. Inr (Some dst))))
          | _ \<Rightarrow> Inl (Invalid m_field_src))
      | IJump target \<Rightarrow> Inr None
      | IAbort user_code \<Rightarrow> Inr None
      | IJumpIfFalse condition target \<Rightarrow>
          rbind (source condition) (\<lambda>c. rbind (check_shape TBoolean c) (\<lambda>_. Inr None))
      | IRequire condition user_code \<Rightarrow>
          rbind (source condition) (\<lambda>c. rbind (check_shape TBoolean c) (\<lambda>_. Inr None))
      | IReturn src \<Rightarrow>
          rbind (source src) (\<lambda>s. rbind (check_shape (p_result_type prog) s) (\<lambda>_. Inr None)))"

definition intersect :: "bitset \<Rightarrow> bitset \<Rightarrow> bitset" where
  "intersect destination incoming =
     map2 (AND) destination incoming @ drop (length incoming) destination"

definition set_bit_at :: "bitset \<Rightarrow> nat \<Rightarrow> vm_error + bitset" where
  "set_bit_at initialized r =
     rbind (get_or Panic initialized (r div 64)) (\<lambda>word.
     Inr (initialized[r div 64 := word OR push_bit (r mod 64) 1]))"

definition merge_state :: "bitset option \<Rightarrow> bitset option \<Rightarrow> vm_error + bitset" where
  "merge_state fallthrough pending =
     (case (fallthrough, pending) of
        (Some current, Some incoming) \<Rightarrow> Inr (intersect current incoming)
      | (Some current, None) \<Rightarrow> Inr current
      | (None, Some current) \<Rightarrow> Inr current
      | (None, None) \<Rightarrow> Inl (Invalid m_unreachable))"

definition merge_target :: "bitset option \<Rightarrow> bitset \<Rightarrow> bitset" where
  "merge_target pending initialized =
     (case pending of Some incoming \<Rightarrow> intersect incoming initialized | None \<Rightarrow> initialized)"

text \<open>
  The loop of \<^verbatim>\<open>verify\<close>, at instruction \<open>index\<close> with the rest of the instructions. The
  entry of a visited instruction in \<^verbatim>\<open>pending\<close> is taken.
\<close>

fun verify_from :: "program \<Rightarrow> vm_type list \<Rightarrow> vm_type list \<Rightarrow> policy \<Rightarrow> nat \<Rightarrow> instruction list \<Rightarrow>
    bitset option list \<Rightarrow> bitset option \<Rightarrow> vm_error + unit" where
  "verify_from prog at ct claims index [] pending fallthrough =
     (if fallthrough \<noteq> None then Inl (Invalid m_falls_off) else Inr ())"
| "verify_from prog at ct claims index (instruction # rest) pending fallthrough =
     rbind (get_or Panic pending index) (\<lambda>incoming.
     rbind (merge_state fallthrough incoming) (\<lambda>initialized.
     rbind (verify_instruction instruction prog at ct initialized claims) (\<lambda>destination.
     rbind (case destination of None \<Rightarrow> Inr initialized | Some d \<Rightarrow> set_bit_at initialized d) (\<lambda>initialized.
     let pending = pending[index := None] in
     case instruction of
       IJump target \<Rightarrow>
         if target \<le> index \<or> target \<ge> length (p_instructions prog) then Inl (Invalid m_branch) else
         rbind (get_or Panic pending target) (\<lambda>p.
         verify_from prog at ct claims (index + 1) rest
           (pending[target := Some (merge_target p initialized)]) None)
     | IJumpIfFalse _ target \<Rightarrow>
         if target \<le> index \<or> target \<ge> length (p_instructions prog) then Inl (Invalid m_branch) else
         rbind (get_or Panic pending target) (\<lambda>p.
         verify_from prog at ct claims (index + 1) rest
           (pending[target := Some (merge_target p initialized)]) (Some initialized))
     | IAbort _ \<Rightarrow> verify_from prog at ct claims (index + 1) rest pending None
     | IReturn _ \<Rightarrow> verify_from prog at ct claims (index + 1) rest pending None
     | _ \<Rightarrow> verify_from prog at ct claims (index + 1) rest pending (Some initialized)))))"

definition verify :: "program \<Rightarrow> vm_type list \<Rightarrow> vm_type list \<Rightarrow> policy \<Rightarrow> vm_error + unit" where
  "verify prog argument_types constant_types claims =
     verify_from prog argument_types constant_types claims 0 (p_instructions prog)
       (replicate (length (p_instructions prog)) None)
       (Some (replicate ((length (p_register_types prog) + 63) div 64) 0))"

subsection \<open>Whole programs\<close>

fun check_claims :: "(nat \<times> u64 \<times> string) list \<Rightarrow> vm_error + unit" where
  "check_claims [] = Inr ()"
| "check_claims ((usage, limit, reason) # rest) =
     (if usage > unat limit then Inl (Invalid reason) else check_claims rest)"

definition is_rows :: "vm_type \<Rightarrow> bool" where
  "is_rows ty \<longleftrightarrow> (case ty of TRows _ _ _ \<Rightarrow> True | _ \<Rightarrow> False)"

definition read_type :: "bytes \<Rightarrow> vm_error + vm_type \<times> bytes" where
  "read_type input =
     rbind (take_blob prog_error input) (\<lambda>(bs, input).
     rbind (type_decode bs) (\<lambda>ty. Inr (ty, input)))"

fun read_argument_types :: "nat \<Rightarrow> vm_type list \<Rightarrow> bytes \<Rightarrow> vm_error + vm_type list \<times> bytes" where
  "read_argument_types 0 types input = Inr (types, input)"
| "read_argument_types (Suc n) types input =
     rbind (read_type input) (\<lambda>(ty, input).
     if is_rows ty then Inl (Invalid m_rows_argument) else
     read_argument_types n (types @ [ty]) input)"

fun read_register_types :: "nat \<Rightarrow> vm_type list \<Rightarrow> bytes \<Rightarrow> vm_error + vm_type list \<times> bytes" where
  "read_register_types 0 types input = Inr (types, input)"
| "read_register_types (Suc n) types input =
     rbind (read_type input) (\<lambda>(ty, input). read_register_types n (types @ [ty]) input)"

fun read_constants :: "u64 \<Rightarrow> nat \<Rightarrow> vm_type list \<Rightarrow> vm_value list \<Rightarrow> bytes \<Rightarrow>
    vm_error + (vm_type list \<times> vm_value list) \<times> bytes" where
  "read_constants limit 0 types constants input = Inr ((types, constants), input)"
| "read_constants limit (Suc n) types constants input =
     rbind (read_type input) (\<lambda>(ty, input).
     if is_rows ty then Inl (Invalid m_rows_constant) else
     rbind (take_blob prog_error input) (\<lambda>(bs, input).
     if length bs > unat limit then Inl (Invalid m_constant_claim) else
     rbind (decode_value ty bs) (\<lambda>v.
     read_constants limit n (types @ [ty]) (constants @ [v]) input)))"

fun read_arguments :: "u64 \<Rightarrow> vm_type list \<Rightarrow> vm_value list \<Rightarrow> bytes \<Rightarrow>
    vm_error + vm_value list \<times> bytes" where
  "read_arguments limit [] arguments input = Inr (arguments, input)"
| "read_arguments limit (ty # types) arguments input =
     rbind (take_blob prog_error input) (\<lambda>(bs, input).
     if length bs > unat limit then Inl (Invalid m_argument_claim) else
     rbind (decode_value ty bs) (\<lambda>v.
     read_arguments limit types (arguments @ [v]) input))"

definition decode :: "bytes \<Rightarrow> bytes \<Rightarrow> tbl list \<Rightarrow> policy \<Rightarrow> vm_error + program" where
  "decode program_bytes argument_bytes tables claims =
     rbind (read_header program_bytes) (\<lambda>(header, input).
     rbind (check_claims
       [(length program_bytes, claims ! 0, m_claim_program),
        (h_instructions header, claims ! 1, m_claim_instructions),
        (h_registers header, claims ! 2, m_claim_registers),
        (h_arguments header, claims ! 3, m_claim_arguments),
        (length argument_bytes, claims ! 4, m_claim_argument_bytes),
        (h_tables header, claims ! 5, m_claim_tables)]) (\<lambda>_.
     rbind (read_type input) (\<lambda>(result_type, input).
     rbind (read_tables (h_tables header) input) (\<lambda>(ids, input).
     if ids \<noteq> map t_id tables then Inl (Invalid m_tables_mismatch) else
     rbind (read_argument_types (h_arguments header) [] input) (\<lambda>(argument_types, input).
     rbind (read_register_types (h_registers header) [] input) (\<lambda>(register_types, input).
     rbind (read_constants (claims ! 10) (h_constants header) [] [] input)
       (\<lambda>((constant_types, constants), input).
     rbind (read_instructions (h_instructions header) [] input) (\<lambda>(instructions, input).
     rbind (finish input) (\<lambda>_.
     rbind (take_u32 prog_error argument_bytes) (\<lambda>(count, input).
     if unat count \<noteq> h_arguments header then Inl (Invalid m_argument_count) else
     rbind (read_arguments (claims ! 10) argument_types [] input) (\<lambda>(arguments, input).
     rbind (finish input) (\<lambda>_.
     let prog = \<lparr>p_result_type = result_type, p_tables = tables, p_arguments = arguments,
         p_register_types = register_types, p_constants = constants,
         p_instructions = instructions\<rparr> in
     rbind (verify prog argument_types constant_types claims) (\<lambda>_. Inr prog)))))))))))))"

end
