(* ===== verification/Blop_Verify.thy ===== *)
theory Blop_Verify
  imports Blop_Program
begin

unbundle bit_operations_syntax

section \<open>What the verifier establishes\<close>

text \<open>
  \<^verbatim>\<open>verify\<close> is shown to compute a solution of the dataflow problem: there is an assignment
  of bitsets to instructions such that every instruction is well typed under its bitset,
  every successor lies later in the program, and no bitset claims more than each
  predecessor delivers. Neither the verifier nor the reader ever indexes out of range.
\<close>

subsection \<open>Bitsets\<close>

definition init_bit :: "bitset \<Rightarrow> nat \<Rightarrow> bool" where
  "init_bit bs r \<longleftrightarrow> r div 64 < length bs \<and> bit (bs ! (r div 64)) (r mod 64)"

definition below :: "bitset \<Rightarrow> bitset \<Rightarrow> bool" where
  "below a b \<longleftrightarrow> (\<forall>r. init_bit a r \<longrightarrow> init_bit b r)"

lemma and_push_bit_iff: "(w :: u64) AND 2 ^ k = 0 \<longleftrightarrow> \<not> bit w k"
  by (rule and_exp_eq_0_iff_not_bit)

lemma init_bit_intersect:
  "length a = length b \<Longrightarrow> init_bit (intersect a b) r \<longleftrightarrow> init_bit a r \<and> init_bit b r"
  by (auto simp: init_bit_def intersect_def bit_simps)

lemma length_intersect [simp]: "length (intersect a b) = length a"
  by (simp add: intersect_def)

lemma set_bit_at_Inr:
  "set_bit_at bs r = Inr cs \<longleftrightarrow> r div 64 < length bs
     \<and> cs = bs[r div 64 := (bs ! (r div 64)) OR push_bit (r mod 64) 1]"
  by (auto simp: set_bit_at_def get_or_def)

lemma set_bit_at_init:
  assumes "set_bit_at bs r = Inr cs"
  shows "init_bit cs q \<longleftrightarrow> init_bit bs q \<or> q = r" and "length cs = length bs"
proof -
  have r: "r div 64 < length bs" and cs: "cs = bs[r div 64 := (bs ! (r div 64)) OR push_bit (r mod 64) 1]"
    using assms by (auto simp: set_bit_at_Inr)
  show "init_bit cs q \<longleftrightarrow> init_bit bs q \<or> q = r"
  proof (cases "q div 64 = r div 64")
    case True
    have "bit ((bs ! (r div 64)) OR push_bit (r mod 64) 1) (q mod 64) \<longleftrightarrow>
        bit (bs ! (r div 64)) (q mod 64) \<or> q mod 64 = r mod 64"
      by (auto simp: bit_simps)
    moreover have "q mod 64 = r mod 64 \<longleftrightarrow> q = r"
      using True div_mult_mod_eq[of q 64] div_mult_mod_eq[of r 64] by auto
    ultimately show ?thesis
      using True r by (auto simp: init_bit_def cs)
  next
    case False
    then have "q \<noteq> r" by auto
    with False show ?thesis by (auto simp: init_bit_def cs)
  qed
  show "length cs = length bs" by (simp add: cs)
qed

lemma below_refl [simp]: "below a a"
  by (simp add: below_def)

lemma below_trans: "below a b \<Longrightarrow> below b c \<Longrightarrow> below a c"
  by (simp add: below_def)

lemma below_intersect:
  "length a = length b \<Longrightarrow> below (intersect a b) a \<and> below (intersect a b) b"
  by (simp add: below_def init_bit_intersect)

subsection \<open>Matching on types\<close>

lemma case_rows_Inr [result_simps]:
  "(case ty of TRows m k v \<Rightarrow> f m k v | _ \<Rightarrow> Inl e) = Inr x \<longleftrightarrow>
     (\<exists>m k v. ty = TRows m k v \<and> f m k v = Inr x)"
  by (cases ty) auto

lemma case_tuple_Inr [result_simps]:
  "(case ty of TTuple ts \<Rightarrow> f ts | _ \<Rightarrow> Inl e) = Inr x \<longleftrightarrow> (\<exists>ts. ty = TTuple ts \<and> f ts = Inr x)"
  by (cases ty) auto

lemma case_blob_Inr [result_simps]:
  "(case ty of TBytes b \<Rightarrow> Inr y | TString b \<Rightarrow> Inr y | _ \<Rightarrow> Inl e) = Inr x \<longleftrightarrow>
     x = y \<and> (\<exists>b. ty = TBytes b \<or> ty = TString b)"
  by (cases ty) auto

lemma case_not_rows_Inr [result_simps]:
  "(case ty of TRows m k v \<Rightarrow> Inl e | _ \<Rightarrow> Inr y) = Inr x \<longleftrightarrow> x = y \<and> (\<nexists>m k v. ty = TRows m k v)"
  by (cases ty) auto

subsection \<open>The dataflow solution\<close>

definition words :: "program \<Rightarrow> nat" where
  "words prog = (length (p_register_types prog) + 63) div 64"

fun successors :: "nat \<Rightarrow> instruction \<Rightarrow> nat list" where
  "successors i (IJump target) = [target]"
| "successors i (IJumpIfFalse _ target) = [target, Suc i]"
| "successors i (IAbort _) = []"
| "successors i (IReturn _) = []"
| "successors i _ = [Suc i]"

definition node_ok :: "program \<Rightarrow> vm_type list \<Rightarrow> vm_type list \<Rightarrow> policy \<Rightarrow> (nat \<Rightarrow> bitset) \<Rightarrow> nat \<Rightarrow> bool" where
  "node_ok prog at ct claims I i \<longleftrightarrow>
     length (I i) = words prog \<and>
     (\<exists>dst. verify_instruction (p_instructions prog ! i) prog at ct (I i) claims = Inr dst \<and>
       (\<forall>j \<in> set (successors i (p_instructions prog ! i)).
          i < j \<and> j < length (p_instructions prog) \<and>
          (\<forall>r. init_bit (I j) r \<longrightarrow> init_bit (I i) r \<or> dst = Some r)))"

definition solution :: "program \<Rightarrow> vm_type list \<Rightarrow> vm_type list \<Rightarrow> policy \<Rightarrow> (nat \<Rightarrow> bitset) \<Rightarrow> bool" where
  "solution prog at ct claims I \<longleftrightarrow>
     0 < length (p_instructions prog) \<and> (\<forall>r. \<not> init_bit (I 0) r) \<and>
     (\<forall>i < length (p_instructions prog). node_ok prog at ct claims I i)"

lemma merge_state_Inr:
  assumes "merge_state ft p = Inr s" "\<And>f. ft = Some f \<Longrightarrow> length f = n" "\<And>q. p = Some q \<Longrightarrow> length q = n"
  shows "length s = n" "\<And>f. ft = Some f \<Longrightarrow> below s f" "\<And>q. p = Some q \<Longrightarrow> below s q"
proof -
  show "length s = n"
    using assms by (auto simp: merge_state_def split: option.splits)
  show "\<And>f. ft = Some f \<Longrightarrow> below s f" "\<And>q. p = Some q \<Longrightarrow> below s q"
    using assms by (auto simp: merge_state_def below_intersect split: option.splits)
qed

lemma merge_target_props:
  assumes "length s = n" "\<And>q. p = Some q \<Longrightarrow> length q = n"
  shows "length (merge_target p s) = n" "below (merge_target p s) s"
    "\<And>q. p = Some q \<Longrightarrow> below (merge_target p s) q"
  using assms by (auto simp: merge_target_def below_intersect split: option.splits)

text \<open>One iteration of the loop, with the flow to the successors as a property.\<close>

definition jump_target :: "instruction \<Rightarrow> nat option" where
  "jump_target ins = (case ins of IJump t \<Rightarrow> Some t | IJumpIfFalse _ t \<Rightarrow> Some t | _ \<Rightarrow> None)"

definition falls_through :: "instruction \<Rightarrow> bool" where
  "falls_through ins = (case ins of IJump _ \<Rightarrow> False | IAbort _ \<Rightarrow> False | IReturn _ \<Rightarrow> False | _ \<Rightarrow> True)"

lemma set_successors:
  "set (successors i ins) = set_option (jump_target ins) \<union> (if falls_through ins then {Suc i} else {})"
  by (cases ins) (auto simp: jump_target_def falls_through_def)

definition flow_pending :: "instruction \<Rightarrow> bitset \<Rightarrow> bitset option list \<Rightarrow> bitset option list" where
  "flow_pending ins s pending = (case jump_target ins of
     None \<Rightarrow> pending | Some t \<Rightarrow> pending[t := Some (merge_target (pending ! t) s)])"

definition mark_destination :: "nat option \<Rightarrow> bitset \<Rightarrow> vm_error + bitset" where
  "mark_destination dst s = (case dst of None \<Rightarrow> Inr s | Some d \<Rightarrow> set_bit_at s d)"

lemma mark_destination_Inr:
  assumes "mark_destination dst s = Inr s'"
  shows "init_bit s' r \<longleftrightarrow> init_bit s r \<or> dst = Some r" "length s' = length s"
  using assms set_bit_at_init[of s "the dst" s']
  by (auto simp: mark_destination_def split: option.splits)

definition check_target :: "program \<Rightarrow> nat \<Rightarrow> instruction \<Rightarrow> bitset option list \<Rightarrow> vm_error + unit" where
  "check_target prog i ins pending =
     (case jump_target ins of
        None \<Rightarrow> Inr ()
      | Some t \<Rightarrow> if t \<le> i \<or> t \<ge> length (p_instructions prog) then Inl (Invalid m_branch)
                  else rbind (get_or Panic pending t) (\<lambda>_. Inr ()))"

text \<open>The lengths the loop maintains.\<close>

definition flow_ok :: "program \<Rightarrow> bitset option list \<Rightarrow> bitset option \<Rightarrow> bool" where
  "flow_ok prog pending ft \<longleftrightarrow> length pending = length (p_instructions prog)
     \<and> (\<forall>j < length pending. \<forall>q. pending ! j = Some q \<longrightarrow> length q = words prog)
     \<and> (\<forall>f. ft = Some f \<longrightarrow> length f = words prog)"

lemma flow_okD:
  assumes "flow_ok prog pending ft"
  shows "length pending = length (p_instructions prog)"
    "\<And>j q. j < length pending \<Longrightarrow> pending ! j = Some q \<Longrightarrow> length q = words prog"
    "\<And>f. ft = Some f \<Longrightarrow> length f = words prog"
  using assms by (auto simp: flow_ok_def)

lemma flow_ok_step:
  assumes "flow_ok prog pending ft" "length s = words prog" "i < length pending"
    and "\<And>t. jump_target ins = Some t \<Longrightarrow> i < t \<and> t < length pending"
  shows "flow_ok prog (flow_pending ins s (pending[i := None])) (if falls_through ins then Some s else None)"
proof -
  have "length q = words prog" if "j < length pending" "flow_pending ins s (pending[i := None]) ! j = Some q" for j q
    using that assms flow_okD(2)[OF assms(1)] merge_target_props(1)[OF assms(2), of "pending ! j"]
    by (auto simp: flow_pending_def nth_list_update split: option.splits if_splits)
  then show ?thesis
    using assms by (auto simp: flow_ok_def flow_pending_def split: option.splits)
qed

lemma verify_from_Cons_eq:
  "verify_from prog at ct claims i (ins # rest) pending ft =
     rbind (get_or Panic pending i) (\<lambda>incoming.
     rbind (merge_state ft incoming) (\<lambda>s.
     rbind (verify_instruction ins prog at ct s claims) (\<lambda>dst.
     rbind (mark_destination dst s) (\<lambda>s'.
     rbind (check_target prog i ins pending) (\<lambda>_.
     verify_from prog at ct claims (Suc i) rest (flow_pending ins s' (pending[i := None]))
       (if falls_through ins then Some s' else None))))))"
  by (cases ins)
    (auto simp: jump_target_def falls_through_def flow_pending_def get_or_def not_le
      mark_destination_def check_target_def intro!: rbind_cong)

lemma verify_from_step:
  assumes "verify_from prog at ct claims i (ins # rest) pending ft = Inr ()"
    and ok: "flow_ok prog pending ft"
  obtains s dst s' where
    "i < length pending" "length s = words prog" "length s' = words prog"
    "\<And>f. ft = Some f \<Longrightarrow> below s f" "\<And>q. pending ! i = Some q \<Longrightarrow> below s q"
    "verify_instruction ins prog at ct s claims = Inr dst"
    "\<And>r. init_bit s' r \<longleftrightarrow> init_bit s r \<or> dst = Some r"
    "\<And>t. jump_target ins = Some t \<Longrightarrow> i < t \<and> t < length pending"
    "verify_from prog at ct claims (Suc i) rest (flow_pending ins s' (pending[i := None]))
       (if falls_through ins then Some s' else None) = Inr ()"
proof -
  obtain s dst s' where 1: "i < length pending" "merge_state ft (pending ! i) = Inr s"
    "verify_instruction ins prog at ct s claims = Inr dst"
    "mark_destination dst s = Inr s'" "check_target prog i ins pending = Inr ()"
    "verify_from prog at ct claims (Suc i) rest (flow_pending ins s' (pending[i := None]))
       (if falls_through ins then Some s' else None) = Inr ()"
    using assms(1) unfolding verify_from_Cons_eq
    by (auto simp: result_simps get_or_def split: if_splits)
  have 2: "length s = words prog" "\<And>f. ft = Some f \<Longrightarrow> below s f" "\<And>q. pending ! i = Some q \<Longrightarrow> below s q"
    using merge_state_Inr[OF 1(2) flow_okD(3)[OF ok] flow_okD(2)[OF ok 1(1)]] by auto
  have 3: "\<And>t. jump_target ins = Some t \<Longrightarrow> i < t \<and> t < length pending"
    using 1(5) flow_okD(1)[OF ok] by (auto simp: check_target_def split: if_splits)
  show thesis
    using that[OF 1(1) 2(1) _ 2(2,3) 1(3) mark_destination_Inr(1)[OF 1(4)] 3 1(6)]
      mark_destination_Inr(2)[OF 1(4)] 2(1) by simp
qed

lemma verify_from_sound:
  assumes "verify_from prog at ct claims i rest pending ft = Inr ()"
    and "rest = drop i (p_instructions prog)" and "flow_ok prog pending ft"
  shows "\<exists>I. (\<forall>j. i \<le> j \<and> j < length (p_instructions prog) \<longrightarrow> node_ok prog at ct claims I j)
    \<and> (\<forall>j q. i \<le> j \<and> j < length (p_instructions prog) \<and> pending ! j = Some q \<longrightarrow> below (I j) q)
    \<and> (\<forall>f. ft = Some f \<longrightarrow> i < length (p_instructions prog) \<and> below (I i) f)"
  using assms
proof (induction rest arbitrary: i pending ft)
  case Nil
  then show ?case by (auto simp: split: if_splits)
next
  case (Cons ins rest)
  let ?n = "length (p_instructions prog)"
  note ok = Cons.prems(3) and n = flow_okD(1)[OF Cons.prems(3)]
  obtain s dst s' where S: "i < length pending" "length s = words prog" "length s' = words prog"
    "\<And>f. ft = Some f \<Longrightarrow> below s f" "\<And>q. pending ! i = Some q \<Longrightarrow> below s q"
    "verify_instruction ins prog at ct s claims = Inr dst"
    "\<And>r. init_bit s' r \<longleftrightarrow> init_bit s r \<or> dst = Some r"
    "\<And>t. jump_target ins = Some t \<Longrightarrow> i < t \<and> t < length pending"
    "verify_from prog at ct claims (Suc i) rest (flow_pending ins s' (pending[i := None]))
       (if falls_through ins then Some s' else None) = Inr ()"
    by (rule verify_from_step[OF Cons.prems(1) ok]) blast
  have ins: "p_instructions prog ! i = ins" "rest = drop (Suc i) (p_instructions prog)"
    using Cons.prems(2) S(1) n by (simp_all add: Cons_nth_drop_Suc[symmetric])
  let ?p = "flow_pending ins s' (pending[i := None])"
  let ?f = "if falls_through ins then Some s' else None"
  have keep: "\<exists>q'. ?p ! j = Some q' \<and> below q' q" if "j < length pending" "i < j" "pending ! j = Some q" for j q
    using that S(8) merge_target_props(3)[OF S(3), of "pending ! j" q] flow_okD(2)[OF ok, of j]
    by (auto simp: flow_pending_def nth_list_update split: option.splits)
  have target: "\<exists>q. ?p ! t = Some q \<and> below q s'" if "jump_target ins = Some t" for t
    using that S(8)[OF that] merge_target_props(2)[OF S(3), of "pending ! t"] flow_okD(2)[OF ok, of t]
    by (auto simp: flow_pending_def)
  have IH: "\<exists>I. (\<forall>j. Suc i \<le> j \<and> j < ?n \<longrightarrow> node_ok prog at ct claims I j)
      \<and> (\<forall>j q. Suc i \<le> j \<and> j < ?n \<and> ?p ! j = Some q \<longrightarrow> below (I j) q)
      \<and> (\<forall>f. ?f = Some f \<longrightarrow> Suc i < ?n \<and> below (I (Suc i)) f)"
    using flow_ok_step[OF ok S(3,1,8)] by (intro Cons.IH[OF S(9) ins(2)])
  then obtain I where I: "\<And>j. Suc i \<le> j \<Longrightarrow> j < ?n \<Longrightarrow> node_ok prog at ct claims I j"
    "\<And>j q. Suc i \<le> j \<Longrightarrow> j < ?n \<Longrightarrow> ?p ! j = Some q \<Longrightarrow> below (I j) q"
    "\<And>f. ?f = Some f \<Longrightarrow> Suc i < ?n \<and> below (I (Suc i)) f"
    by blast
  let ?I = "I(i := s)"
  have old: "node_ok prog at ct claims ?I j" if "Suc i \<le> j" "j < ?n" for j
    using I(1)[OF that] that by (fastforce simp: node_ok_def)
  have succ: "i < j \<and> j < ?n \<and> below (I j) s'" if "j \<in> set (successors i ins)" for j
  proof (cases "jump_target ins = Some j")
    case True
    then obtain q where "?p ! j = Some q" "below q s'" using target by blast
    then show ?thesis using True S(8)[OF True] I(2)[of j q] n by (auto intro: below_trans[of _ q])
  next
    case False
    then have "falls_through ins" "j = Suc i" using that by (auto simp: set_successors split: if_splits)
    then show ?thesis using I(3)[of s'] by simp
  qed
  have new: "node_ok prog at ct claims ?I i"
    unfolding node_ok_def
  proof (intro conjI exI[of _ dst] ballI)
    fix j assume "j \<in> set (successors i (p_instructions prog ! i))"
    then have j: "i < j" "j < ?n" "below (I j) s'" using succ ins by auto
    then show "i < j" "j < ?n" by auto
    show "\<forall>r. init_bit (?I j) r \<longrightarrow> init_bit (?I i) r \<or> dst = Some r"
      using j S(7) by (auto simp: below_def)
  qed (use S ins in auto)
  have pend: "below (?I j) q" if "i \<le> j" "j < ?n" "pending ! j = Some q" for j q
    using that S(5)[of q] keep[of j q] I(2)[of j] n
    by (cases "j = i") (auto intro: below_trans)
  show ?case
  proof (intro exI[of _ ?I] conjI allI impI)
    fix j assume "i \<le> j \<and> j < ?n"
    then show "node_ok prog at ct claims ?I j" using old new by (cases "j = i") auto
  qed (use pend S(1,4) n in auto)
qed

lemma verify_sound:
  assumes "verify prog at ct claims = Inr ()"
  shows "\<exists>I. solution prog at ct claims I"
proof -
  let ?z = "replicate (words prog) (0 :: u64)"
  have "flow_ok prog (replicate (length (p_instructions prog)) None) (Some ?z)"
    by (simp add: flow_ok_def)
  from verify_from_sound[OF assms[unfolded verify_def words_def[symmetric]] _ this]
  obtain I where I: "\<And>j. j < length (p_instructions prog) \<Longrightarrow> node_ok prog at ct claims I j"
    "0 < length (p_instructions prog)" "below (I 0) ?z"
    by auto
  have "\<not> init_bit ?z r" for r
    by (simp add: init_bit_def)
  then show ?thesis
    using I by (auto simp: solution_def below_def)
qed

subsection \<open>No panics\<close>

definition no_panic :: "vm_error + 'a \<Rightarrow> bool" where
  "no_panic r \<longleftrightarrow> r \<noteq> Inl Panic \<and> r \<noteq> Inl (Storage SPanic)"

named_theorems no_panic_intros \<open>results that are not panics\<close>

lemma no_panic_simps [simp]:
  "no_panic (Inr x)" "no_panic (Inl (Invalid m))" "no_panic (Inl (Unsupported m v))" "no_panic (Inl (Storage e)) \<longleftrightarrow> e \<noteq> SPanic"
  by (simp_all add: no_panic_def)

lemma no_panic_rbind [no_panic_intros]:
  "no_panic r \<Longrightarrow> (\<And>x. r = Inr x \<Longrightarrow> no_panic (f x)) \<Longrightarrow> no_panic (rbind r f)"
  by (cases r) (auto simp: no_panic_def)

lemma no_panic_if: "no_panic a \<Longrightarrow> no_panic b \<Longrightarrow> no_panic (if c then a else b)"
  by simp

lemma no_panic_case_option:
  "no_panic a \<Longrightarrow> (\<And>x. no_panic (f x)) \<Longrightarrow> no_panic (case opt of None \<Rightarrow> a | Some x \<Rightarrow> f x)"
  by (cases opt) auto

lemma no_panic_case_prod:
  "(\<And>a b. no_panic (f a b)) \<Longrightarrow> no_panic (case p of (a, b) \<Rightarrow> f a b)"
  by (cases p) auto

lemmas no_panic_struct = no_panic_rbind no_panic_if no_panic_case_option no_panic_case_prod

lemma no_panic_basics [no_panic_intros, simp]:
  "no_panic (take_u8 (Invalid m) i)" "no_panic (take_u16 (Invalid m) i)"
  "no_panic (take_u32 (Invalid m) i)" "no_panic (take_u64 (Invalid m) i)"
  "no_panic (take_bytes (Invalid m) n i)" "no_panic (ok_or (Invalid m) opt)"
  "no_panic (get_or (Invalid m) xs k)" "no_panic (check_shape a b)" "no_panic (check_integer a)"
  "no_panic (register_type prog r)" "no_panic (table_at prog t)" "no_panic (finish i)"
  by (auto simp: no_panic_def result_simps get_or_def check_shape_def check_integer_def
      register_type_def table_at_def finish_def split: vm_type.splits)

lemma no_panic_blob [no_panic_intros, simp]: "no_panic (take_blob (Invalid m) i)"
  by (auto simp: take_blob_def intro!: no_panic_intros)

lemma no_panic_prog_u16 [no_panic_intros, simp]: "no_panic (prog_u16 i)"
  by (auto simp: prog_u16_def intro!: no_panic_intros)

lemma no_panic_read_types:
  "(\<And>i. no_panic (f i)) \<Longrightarrow> no_panic (read_types f n input acc fs)"
  by (induction n arbitrary: input acc fs) (auto intro!: no_panic_intros)

lemma no_panic_decode_type: "no_panic (decode_type input depth)"
proof (induction "17 - depth" arbitrary: input depth rule: less_induct)
  case less
  have IH: "depth \<le> 16 \<Longrightarrow> no_panic (decode_type i (Suc depth))" for i
    by (rule less) auto
  then have "depth \<le> 16 \<Longrightarrow> no_panic (read_types (\<lambda>i. decode_type i (Suc depth)) n i acc fs)" for n i acc fs
    by (intro no_panic_read_types)
  with IH show ?case
    by (subst decode_type.simps) (auto intro!: no_panic_intros)
qed

lemma no_panic_type_decode [no_panic_intros, simp]: "no_panic (type_decode bs)"
  by (auto simp: type_decode_def intro!: no_panic_intros no_panic_decode_type)

lemma no_panic_read_seq: "(\<And>d i. d \<in> set ds \<Longrightarrow> no_panic (d i)) \<Longrightarrow> no_panic (read_seq ds input)"
  by (induction ds arbitrary: input) (auto intro!: no_panic_intros)

lemma no_panic_read_rows:
  "(\<And>i. no_panic (dk i)) \<Longrightarrow> (\<And>i. no_panic (dv i)) \<Longrightarrow> no_panic (read_rows dk dv n rows input)"
  by (induction n arbitrary: rows input) (auto intro!: no_panic_intros)

lemma no_panic_decode_value_node: "no_panic (decode_value_node ty input)"
  by (induction ty arbitrary: input)
    (auto intro!: no_panic_intros no_panic_read_seq no_panic_read_rows)

lemma no_panic_decode_value [no_panic_intros, simp]: "no_panic (decode_value ty bs)"
  by (auto simp: decode_value_def intro!: no_panic_intros no_panic_decode_value_node)

lemma no_panic_verify_binary [no_panic_intros, simp]: "no_panic (verify_binary op d l r)"
  by (auto simp: verify_binary_def intro!: no_panic_intros split: vm_type.splits)

lemma no_panic_verify_unary [no_panic_intros, simp]: "no_panic (verify_unary op d s)"
  by (auto simp: verify_unary_def intro!: no_panic_intros split: vm_type.splits unary_op.splits)

lemma source_type_Inr:
  "source_type prog s r = Inr ty \<longleftrightarrow>
     r < length (p_register_types prog) \<and> ty = p_register_types prog ! r \<and> init_bit s r"
  by (auto simp: source_type_def register_type_def get_or_def result_simps init_bit_def
      and_push_bit_iff split: if_splits)

lemma register_word: "r < length (p_register_types prog) \<Longrightarrow> r div 64 < words prog"
  by (simp add: words_def)

lemma no_panic_source [no_panic_intros]: "length s = words prog \<Longrightarrow> no_panic (source_type prog s r)"
  using register_word[of r prog]
  by (auto simp: source_type_def register_type_def get_or_def)

lemma no_panic_verify_fields: "length s = words prog \<Longrightarrow> no_panic (verify_fields prog s tys regs)"
  by (induction prog s tys regs rule: verify_fields.induct) (auto intro!: no_panic_intros)

lemma no_panic_verify_endpoints: "length s = words prog \<Longrightarrow> no_panic (verify_endpoints prog s key es)"
  by (induction prog s key es rule: verify_endpoints.induct) (auto intro!: no_panic_intros)

lemma no_panic_verify_instruction:
  "length s = words prog \<Longrightarrow> no_panic (verify_instruction ins prog at ct s claims)"
  by (cases ins)
    (auto simp: verify_instruction_def Let_def intro!: no_panic_intros no_panic_verify_fields
      no_panic_verify_endpoints split: vm_type.splits)

lemma register_type_Inr:
  "register_type prog r = Inr ty \<longleftrightarrow> r < length (p_register_types prog) \<and> ty = p_register_types prog ! r"
  by (auto simp: register_type_def get_or_def)

lemma verify_instruction_destination:
  "verify_instruction ins prog at ct s claims = Inr (Some d) \<Longrightarrow> d < length (p_register_types prog)"
  by (cases ins)
    (auto simp: verify_instruction_def Let_def result_simps register_type_Inr split: if_splits)

lemma no_panic_verify_from:
  assumes "rest = drop i (p_instructions prog)" and "flow_ok prog pending ft"
  shows "no_panic (verify_from prog at ct claims i rest pending ft)"
  using assms
proof (induction rest arbitrary: i pending ft)
  case (Cons ins rest)
  note ok = Cons.prems(2) and n = flow_okD(1)[OF Cons.prems(2)]
  have i: "i < length pending"
    using Cons.prems(1) n by (metis drop_all list.distinct(1) not_le)
  have rest: "rest = drop (Suc i) (p_instructions prog)"
    using Cons.prems(1) i n by (simp add: Cons_nth_drop_Suc[symmetric])
  show ?case
    unfolding verify_from_Cons_eq
  proof (rule no_panic_rbind, goal_cases)
    case 1
    then show ?case using i by (simp add: get_or_def)
  next
    case (2 p)
    then have p: "p = pending ! i" using i by (simp add: get_or_def)
    show ?case
    proof (rule no_panic_rbind, goal_cases)
      case 1
      then show ?case by (auto simp: merge_state_def split: option.splits)
    next
      case (2 s)
      have s: "length s = words prog"
        using merge_state_Inr(1)[OF 2[unfolded p] flow_okD(3)[OF ok] flow_okD(2)[OF ok i]] by auto
      show ?case
      proof (rule no_panic_rbind, goal_cases)
        case 1
        then show ?case using s by (rule no_panic_verify_instruction)
      next
        case (2 dst)
        then have d: "dst = Some d \<Longrightarrow> d div 64 < length s" for d
          using verify_instruction_destination register_word s by fastforce
        show ?case
        proof (rule no_panic_rbind, goal_cases)
          case 1
          then show ?case
            using d by (auto simp: mark_destination_def set_bit_at_def get_or_def split: option.splits)
        next
          case (2 s')
          then have s': "length s' = words prog" using mark_destination_Inr(2) s by simp
          show ?case
          proof (rule no_panic_rbind, goal_cases)
            case 1
            then show ?case using n by (auto simp: check_target_def get_or_def split: option.splits)
          next
            case 2
            then have "\<And>t. jump_target ins = Some t \<Longrightarrow> i < t \<and> t < length pending"
              using n by (auto simp: check_target_def split: if_splits)
            then show ?case
              by (intro Cons.IH[OF rest] flow_ok_step[OF ok s' i])
          qed
        qed
      qed
    qed
  qed
qed auto

lemma no_panic_verify: "no_panic (verify prog at ct claims)"
  unfolding verify_def by (intro no_panic_verify_from) (auto simp: flow_ok_def words_def)

subsection \<open>Whole programs\<close>

lemma no_panic_read_header [no_panic_intros, simp]: "no_panic (read_header bs)"
  by (auto simp: read_header_def intro!: no_panic_intros)

lemma no_panic_read_table_ids [no_panic_intros, simp]: "no_panic (read_table_ids n ids input)"
  by (induction n ids input rule: read_table_ids.induct) (auto intro!: no_panic_intros)

lemma no_panic_read_tables [no_panic_intros, simp]: "no_panic (read_tables n input)"
  by (auto simp: read_tables_def intro!: no_panic_intros)

lemma no_panic_table_ids [no_panic_intros, simp]: "no_panic (table_ids bs)"
  by (auto simp: table_ids_def intro!: no_panic_intros)

lemma no_panic_operands [no_panic_intros, simp]:
  "no_panic (operands1 f1 i)" "no_panic (operands2 f2 i)" "no_panic (operands3 f3 i)" "no_panic (operands4 f4 i)"
  by (auto simp: operands1_def operands2_def operands3_def operands4_def intro!: no_panic_intros)

lemma no_panic_read_fields [no_panic_intros, simp]: "no_panic (read_fields n input)"
  by (induction n arbitrary: input) (auto intro!: no_panic_intros)

lemma no_panic_read_scan [no_panic_intros, simp]: "no_panic (read_scan input)"
  by (auto simp: read_scan_def intro!: no_panic_intros)

lemma no_panic_read_operands [no_panic_intros, simp]: "no_panic (read_operands opcode input)"
  unfolding read_operands_def by (intro no_panic_struct no_panic_intros no_panic_simps)

lemma no_panic_read_instructions [no_panic_intros, simp]: "no_panic (read_instructions n acc input)"
  by (induction n acc input rule: read_instructions.induct) (auto intro!: no_panic_intros)

lemma no_panic_read_type [no_panic_intros, simp]: "no_panic (read_type input)"
  by (auto simp: read_type_def intro!: no_panic_intros)

lemma no_panic_read_argument_types [no_panic_intros, simp]: "no_panic (read_argument_types n acc input)"
  by (induction n acc input rule: read_argument_types.induct) (auto intro!: no_panic_intros)

lemma no_panic_read_register_types [no_panic_intros, simp]: "no_panic (read_register_types n acc input)"
  by (induction n acc input rule: read_register_types.induct) (auto intro!: no_panic_intros)

lemma no_panic_read_constants [no_panic_intros, simp]: "no_panic (read_constants limit n types acc input)"
  by (induction limit n types acc input rule: read_constants.induct) (auto intro!: no_panic_intros)

lemma no_panic_read_arguments [no_panic_intros, simp]: "no_panic (read_arguments limit types acc input)"
  by (induction limit types acc input rule: read_arguments.induct) (auto intro!: no_panic_intros)

lemma no_panic_check_claims [no_panic_intros, simp]: "no_panic (check_claims cs)"
  by (induction cs rule: check_claims.induct) auto

lemma no_panic_decode: "no_panic (decode pb ab tables claims)"
  by (auto simp: decode_def Let_def intro!: no_panic_intros no_panic_verify)

text \<open>What a value read from bytes satisfies.\<close>

definition typed :: "vm_type \<Rightarrow> vm_value \<Rightarrow> bool" where
  "typed ty v \<longleftrightarrow> accepts ty v \<and> value_utf8 v"

lemma read_type_wf: "read_type input = Inr (ty, rest) \<Longrightarrow> wf_type ty"
  by (auto simp: read_type_def result_simps type_codec.dec_iff)

lemma decode_value_typed: "wf_type ty \<Longrightarrow> decode_value ty bs = Inr v \<Longrightarrow> typed ty v \<and> bs = encode_value v"
  by (simp add: decode_value_iff typed_def)

lemma read_argument_types_wf:
  "read_argument_types n acc input = Inr (types, rest) \<Longrightarrow> list_all wf_type acc \<Longrightarrow> list_all wf_type types"
proof (induction n arbitrary: acc input)
  case (Suc n)
  then obtain ty input' where "read_type input = Inr (ty, input')"
    "read_argument_types n (acc @ [ty]) input' = Inr (types, rest)"
    by (auto simp: result_simps split: if_splits)
  then show ?case
    using Suc read_type_wf by auto
qed auto

lemma read_register_types_wf:
  "read_register_types n acc input = Inr (types, rest) \<Longrightarrow> list_all wf_type acc \<Longrightarrow> list_all wf_type types"
proof (induction n arbitrary: acc input)
  case (Suc n)
  then obtain ty input' where "read_type input = Inr (ty, input')"
    "read_register_types n (acc @ [ty]) input' = Inr (types, rest)"
    by (auto simp: result_simps)
  then show ?case
    using Suc read_type_wf by auto
qed auto

lemma read_constants_typed:
  "read_constants limit n acc vacc input = Inr ((types, constants), rest) \<Longrightarrow>
   list_all2 typed acc vacc \<Longrightarrow> list_all2 typed types constants"
proof (induction n arbitrary: acc vacc input)
  case (Suc n)
  then obtain ty i1 bs i2 v where 1: "read_type input = Inr (ty, i1)" "decode_value ty bs = Inr v"
    "read_constants limit n (acc @ [ty]) (vacc @ [v]) i2 = Inr ((types, constants), rest)"
    by (auto simp: result_simps split: if_splits)
  then have "typed ty v"
    using read_type_wf decode_value_typed by blast
  with Suc.prems(2) have "list_all2 typed (acc @ [ty]) (vacc @ [v])"
    by (intro list_all2_appendI) auto
  with 1(3) show ?case by (rule Suc.IH)
qed auto

lemma read_arguments_typed:
  "read_arguments limit types acc input = Inr (vs, rest) \<Longrightarrow> list_all wf_type types \<Longrightarrow>
   list_all2 typed done acc \<Longrightarrow> list_all2 typed (done @ types) vs"
proof (induction types arbitrary: acc input "done")
  case (Cons ty types)
  then obtain bs i v where 1: "decode_value ty bs = Inr v"
    "read_arguments limit types (acc @ [v]) i = Inr (vs, rest)"
    by (auto simp: result_simps split: if_splits)
  then have "typed ty v" using Cons.prems(2) by (simp add: decode_value_typed)
  with Cons.prems(3) have "list_all2 typed (done @ [ty]) (acc @ [v])"
    by (intro list_all2_appendI) auto
  from Cons.IH[OF 1(2) _ this] show ?case
    using Cons.prems(2) by simp
qed auto

text \<open>A decoded program: verified, with typed arguments and constants.\<close>

definition program_ok :: "program \<Rightarrow> policy \<Rightarrow> bool" where
  "program_ok prog claims \<longleftrightarrow>
     (\<exists>at ct I. solution prog at ct claims I \<and> list_all2 typed at (p_arguments prog)
        \<and> list_all2 typed ct (p_constants prog))
     \<and> list_all wf_type (p_register_types prog) \<and> wf_type (p_result_type prog)"

text \<open>The same with the verifier's own verdict in place of the solution it computes.\<close>

definition verified :: "program \<Rightarrow> policy \<Rightarrow> bool" where
  "verified prog claims \<longleftrightarrow>
     (\<exists>at ct. verify prog at ct claims = Inr () \<and> list_all2 typed at (p_arguments prog)
        \<and> list_all2 typed ct (p_constants prog))
     \<and> list_all wf_type (p_register_types prog) \<and> wf_type (p_result_type prog)"

lemma verified_program_ok: "verified prog claims \<Longrightarrow> program_ok prog claims"
  using verify_sound unfolding verified_def program_ok_def by metis

lemma decode_parts_ok:
  assumes "read_type i1 = Inr (result_type, i2)"
    "read_argument_types n1 [] i3 = Inr (argument_types, i4)"
    "read_register_types n2 [] i4 = Inr (register_types, i5)"
    "read_constants l n3 [] [] i5 = Inr ((constant_types, constants), i6)"
    "read_arguments l argument_types [] i8 = Inr (arguments, i9)"
    "verify \<lparr>p_result_type = result_type, p_tables = tables, p_arguments = arguments,
         p_register_types = register_types, p_constants = constants, p_instructions = instructions\<rparr>
       argument_types constant_types claims = Inr ()"
  shows "verified \<lparr>p_result_type = result_type, p_tables = tables, p_arguments = arguments,
         p_register_types = register_types, p_constants = constants, p_instructions = instructions\<rparr> claims"
proof -
  have types: "list_all wf_type argument_types" "list_all wf_type register_types"
    using read_argument_types_wf[OF assms(2)] read_register_types_wf[OF assms(3)] by auto
  moreover have "list_all2 typed argument_types arguments"
    using read_arguments_typed[OF assms(5) types(1), of "[]"] by simp
  moreover have "list_all2 typed constant_types constants"
    using read_constants_typed[OF assms(4)] by simp
  moreover have "wf_type result_type"
    using assms(1) by (rule read_type_wf)
  ultimately show ?thesis
    using assms(6) unfolding verified_def by auto
qed

lemma decode_verifies:
  assumes "decode pb ab tables claims = Inr prog"
  shows "verified prog claims" "p_tables prog = tables"
  using assms unfolding decode_def Let_def
  by (auto simp: result_simps split: if_splits intro: decode_parts_ok)

lemmas decode_ok = verified_program_ok[OF decode_verifies(1)] decode_verifies(2)

lemma take_uint_eval [codec_eval]:
  "take_u16 e (a # b # rest) = Inr (u16_of_le [a, b], rest)"
  "take_u32 e (a # b # c # d # rest) = Inr (u32_of_le [a, b, c, d], rest)"
  "prog_u16 (a # b # rest) = Inr (unat (u16_of_le [a, b]), rest)"
  by (simp_all add: take_u16_def take_u32_def prog_u16_def take_bytes_def)

lemma type_decode_boolean: "type_decode [1, 0, 1] = Inr TBoolean"
  by (simp add: type_codec.dec_iff wf_type_def descriptor_def MAX_DESCRIPTOR_BYTES_def codec_eval)

lemma read_instructions_example:
  "read_instructions 2 [] [1, 0, 4, 0, 0, 0, 0, 0, 0x64, 0, 2, 0, 0, 0] = Inr ([IConst 0 0, IReturn 0], [])"
  unfolding numeral_2_eq_2
  by (simp add: take_bytes_def codec_eval u16_of_le_def read_operands_def operands2_def
      operands1_def binary_opcode_def unary_opcode_def)

lemma verify_example:
  "verify \<lparr>p_result_type = TBoolean, p_tables = [], p_arguments = [], p_register_types = [TBoolean],
       p_constants = [VBoolean True], p_instructions = [IConst 0 0, IReturn 0]\<rparr> [] [TBoolean]
     LIMIT_CEILINGS = Inr ()"
  by (simp add: verify_def merge_state_def get_or_def verify_instruction_def register_type_def
      check_shape_def set_bit_at_def source_type_def Let_def)

lemma decode_example:
  "decode
     [0x42, 0x4c, 0x4f, 0x50, 0x56, 0x4d, 0x30, 0x31, 1, 0, 0, 0, 72, 0, 0, 0, 1, 0, 0, 0, 0, 0, 1, 0,
      2, 0, 0, 0, 0, 0, 0, 0, 3, 0, 0, 0, 1, 0, 1, 3, 0, 0, 0, 1, 0, 1, 3, 0, 0, 0, 1, 0, 1, 1, 0, 0, 0, 1,
      1, 0, 4, 0, 0, 0, 0, 0, 0x64, 0, 2, 0, 0, 0]
     [0, 0, 0, 0] [] LIMIT_CEILINGS
   = Inr \<lparr>p_result_type = TBoolean, p_tables = [], p_arguments = [], p_register_types = [TBoolean],
       p_constants = [VBoolean True], p_instructions = [IConst 0 0, IReturn 0]\<rparr>"
proof -
  have [simp]: "LIMIT_CEILINGS ! 0 = 16777216" "LIMIT_CEILINGS ! Suc 0 = 65535" "LIMIT_CEILINGS ! 2 = 65535"
    "LIMIT_CEILINGS ! 3 = 65535" "LIMIT_CEILINGS ! 4 = 16777216" "LIMIT_CEILINGS ! 5 = 65535"
    "LIMIT_CEILINGS ! 10 = 16777216"
    by (simp_all add: LIMIT_CEILINGS_def)
  show ?thesis
    by (simp add: decode_def read_header_def MAX_PROGRAM_BYTES_def BLOPVM01_def take_bytes_def codec_eval
        u16_of_le_def u32_of_le_def read_type_def take_blob_def type_decode_boolean
        read_tables_def is_rows_def decode_value_def MAX_VALUE_BYTES_def finish_def Let_def
        read_instructions_example verify_example)
qed

subsection \<open>Properties\<close>

text \<open>
  C28: Decoding untrusted program and argument bytes never panics: every index the reader
  and the verifier use is in range, whatever the input.
\<close>

theorem decode_never_panics:
  "decode program_bytes argument_bytes tables claims \<noteq> Inl Panic \<and> table_ids program_bytes \<noteq> Inl Panic"
  using no_panic_decode no_panic_table_ids unfolding no_panic_def by blast

text \<open>
  C27: A decoded program has a solution of the initialisation analysis: each instruction is
  well typed where it stands, branches only go forward and stay inside the program, and a
  register counts as initialised only if every path initialises it; its arguments and
  constants are values of their declared types.
\<close>

theorem decode_verified:
  assumes "decode program_bytes argument_bytes tables claims = Inr prog"
  shows "program_ok prog claims"
  using assms by (rule decode_ok)

theorem decode_verified_witness:
  "program_ok \<lparr>p_result_type = TBoolean, p_tables = [], p_arguments = [], p_register_types = [TBoolean],
       p_constants = [VBoolean True], p_instructions = [IConst 0 0, IReturn 0]\<rparr> LIMIT_CEILINGS"
  using decode_verified[OF decode_example] .

end
