(* ===== verification/Blop_Ops.thy ===== *)
theory Blop_Ops
  imports Blop_Verify "HOL-Library.Signed_Division"
begin

unbundle bit_operations_syntax

section \<open>Pure value operations (\<^verbatim>\<open>src/vm/operations.rs\<close>)\<close>

text \<open>
  The arithmetic, comparison, bit, text and row operations on values. A mathematical failure
  is an abort reason; a combination of operands the verifier excludes is \<^verbatim>\<open>unreachable!\<close>,
  the value \<open>OpPanic\<close>. SHA-256 (the \<^verbatim>\<open>sha2\<close> crate) is a parameter.
\<close>

subsection \<open>Data\<close>

text \<open>\<^verbatim>\<open>AbortReason\<close> of \<^verbatim>\<open>src/vm/mod.rs\<close>.\<close>

datatype abort_reason =
    MissingKey | KeyExists | RequireFailed | ExplicitAbort | IntegerOverflow | BoundExceeded
  | ResourceLimit | DivisionByZero | InvalidShift | IndexOutOfBounds | InvalidUtf8
  | NameInUse | TableNotLive

datatype op_failure = OpAbort abort_reason | OpPanic

subsection \<open>Checked arithmetic\<close>

definition i64_fits :: "int \<Rightarrow> bool" where
  "i64_fits n \<longleftrightarrow> - (2 ^ 63) \<le> n \<and> n < 2 ^ 63"
definition u64_fits :: "int \<Rightarrow> bool" where
  "u64_fits n \<longleftrightarrow> 0 \<le> n \<and> n < 2 ^ 64"

definition i64_checked :: "int \<Rightarrow> u64 option" where
  "i64_checked n = (if i64_fits n then Some (word_of_int n) else None)"
definition u64_checked :: "int \<Rightarrow> u64 option" where
  "u64_checked n = (if u64_fits n then Some (word_of_int n) else None)"

text \<open>
  The mathematical result of an integer operation; \<^verbatim>\<open>/\<close> and \<^verbatim>\<open>%\<close> truncate toward zero.
  \<^verbatim>\<open>checked_rem\<close> fails when the division overflows.
\<close>

definition i64_arith :: "binary_op \<Rightarrow> u64 \<Rightarrow> u64 \<Rightarrow> (u64 option) option" where
  "i64_arith op a b =
     (case op of
        BAdd \<Rightarrow> Some (i64_checked (sint a + sint b))
      | BSub \<Rightarrow> Some (i64_checked (sint a - sint b))
      | BMul \<Rightarrow> Some (i64_checked (sint a * sint b))
      | BDiv \<Rightarrow> Some (i64_checked (sint a sdiv sint b))
      | BRem \<Rightarrow> Some (if i64_fits (sint a sdiv sint b) then i64_checked (sint a smod sint b) else None)
      | BBitAnd \<Rightarrow> Some (Some (a AND b))
      | BBitOr \<Rightarrow> Some (Some (a OR b))
      | BBitXor \<Rightarrow> Some (Some (a XOR b))
      | _ \<Rightarrow> None)"

definition u64_arith :: "binary_op \<Rightarrow> u64 \<Rightarrow> u64 \<Rightarrow> (u64 option) option" where
  "u64_arith op a b =
     (case op of
        BAdd \<Rightarrow> Some (u64_checked (uint a + uint b))
      | BSub \<Rightarrow> Some (u64_checked (uint a - uint b))
      | BMul \<Rightarrow> Some (u64_checked (uint a * uint b))
      | BDiv \<Rightarrow> Some (u64_checked (uint a div uint b))
      | BRem \<Rightarrow> Some (u64_checked (uint a mod uint b))
      | BBitAnd \<Rightarrow> Some (Some (a AND b))
      | BBitOr \<Rightarrow> Some (Some (a OR b))
      | BBitXor \<Rightarrow> Some (Some (a XOR b))
      | _ \<Rightarrow> None)"

text \<open>The outer option is \<open>None\<close> where the code is \<^verbatim>\<open>unreachable!\<close>.\<close>

definition arith_result :: "(u64 \<Rightarrow> vm_value) \<Rightarrow> (u64 option) option \<Rightarrow> op_failure + vm_value" where
  "arith_result con r =
     (case r of
        None \<Rightarrow> Inl OpPanic
      | Some None \<Rightarrow> Inl (OpAbort IntegerOverflow)
      | Some (Some n) \<Rightarrow> Inr (con n))"

subsection \<open>Operations\<close>

definition compare_values :: "binary_op \<Rightarrow> vm_value \<Rightarrow> vm_value \<Rightarrow> bool" where
  "compare_values op left right =
     (case op of
        BEq \<Rightarrow> left = right
      | BLt \<Rightarrow> left < right
      | BLe \<Rightarrow> left \<le> right
      | BGt \<Rightarrow> left > right
      | _ \<Rightarrow> left \<ge> right)"

definition rows_get :: "binary_op \<Rightarrow> vm_value \<Rightarrow> vm_value \<Rightarrow> op_failure + vm_value" where
  "rows_get op left right =
     (case (left, right) of
        (VRows rows, VU64 index) \<Rightarrow>
          if unat index < length rows
          then Inr (if op = BRowsKey then fst (rows ! unat index) else snd (rows ! unat index))
          else Inl (OpAbort IndexOutOfBounds)
      | _ \<Rightarrow> Inl OpPanic)"

definition shift :: "binary_op \<Rightarrow> vm_value \<Rightarrow> vm_value \<Rightarrow> op_failure + vm_value" where
  "shift op left right =
     (case right of
        VU64 count \<Rightarrow>
          if count \<ge> 64 then Inl (OpAbort InvalidShift) else
          (case left of
             VI64 number \<Rightarrow> Inr (VI64 (if op = BShl then push_bit (unat count) number
                                         else signed_drop_bit (unat count) number))
           | VU64 number \<Rightarrow> Inr (VU64 (if op = BShl then push_bit (unat count) number
                                         else drop_bit (unat count) number))
           | _ \<Rightarrow> Inl OpPanic)
      | _ \<Rightarrow> Inl OpPanic)"

definition binary :: "binary_op \<Rightarrow> vm_value \<Rightarrow> vm_value \<Rightarrow> vm_type \<Rightarrow> op_failure + vm_value" where
  "binary op left right destination =
     (if op \<in> {BEq, BLt, BLe, BGt, BGe} then Inr (VBoolean (compare_values op left right))
      else if op \<in> {BRowsKey, BRowsValue} then rows_get op left right
      else if op \<in> {BShl, BShr} then shift op left right
      else case (left, right) of
        (VI64 a, VI64 b) \<Rightarrow>
          if op \<in> {BDiv, BRem} \<and> b = 0 then Inl (OpAbort DivisionByZero)
          else arith_result VI64 (i64_arith op a b)
      | (VU64 a, VU64 b) \<Rightarrow>
          if op \<in> {BDiv, BRem} \<and> b = 0 then Inl (OpAbort DivisionByZero)
          else arith_result VU64 (u64_arith op a b)
      | (VBoolean a, VBoolean b) \<Rightarrow>
          (case op of
             BBoolAnd \<Rightarrow> Inr (VBoolean (a \<and> b))
           | BBoolOr \<Rightarrow> Inr (VBoolean (a \<or> b))
           | BBoolXor \<Rightarrow> Inr (VBoolean (a \<noteq> b))
           | _ \<Rightarrow> Inl OpPanic)
      | (VBytes a, VBytes b) \<Rightarrow>
          if op = BConcat then
            (case destination of
               TBytes bound \<Rightarrow>
                 if length a + length b > unat bound then Inl (OpAbort BoundExceeded)
                 else Inr (VBytes (a @ b))
             | _ \<Rightarrow> Inl OpPanic)
          else Inl OpPanic
      | (VString a, VString b) \<Rightarrow>
          if op = BConcat then
            (case destination of
               TString bound \<Rightarrow>
                 if length a + length b > unat bound then Inl (OpAbort BoundExceeded)
                 else Inr (VString (a @ b))
             | _ \<Rightarrow> Inl OpPanic)
          else Inl OpPanic
      | _ \<Rightarrow> Inl OpPanic)"

definition unary :: "(bytes \<Rightarrow> bytes) \<Rightarrow> unary_op \<Rightarrow> vm_value \<Rightarrow> op_failure + vm_value" where
  "unary sha op source =
     (case op of
        UNeg \<Rightarrow> (case source of
            VI64 n \<Rightarrow> arith_result VI64 (Some (i64_checked (- sint n))) | _ \<Rightarrow> Inl OpPanic)
      | UToI64 \<Rightarrow> (case source of
            VU64 n \<Rightarrow> arith_result VI64 (Some (i64_checked (uint n))) | _ \<Rightarrow> Inl OpPanic)
      | UToU64 \<Rightarrow> (case source of
            VI64 n \<Rightarrow> arith_result VU64 (Some (u64_checked (sint n))) | _ \<Rightarrow> Inl OpPanic)
      | UBoolNot \<Rightarrow> (case source of VBoolean b \<Rightarrow> Inr (VBoolean (\<not> b)) | _ \<Rightarrow> Inl OpPanic)
      | UBitNot \<Rightarrow> (case source of
            VI64 n \<Rightarrow> Inr (VI64 (NOT n)) | VU64 n \<Rightarrow> Inr (VU64 (NOT n)) | _ \<Rightarrow> Inl OpPanic)
      | URowsLen \<Rightarrow> (case source of
            VRows rows \<Rightarrow> Inr (VU64 (of_nat (length rows))) | _ \<Rightarrow> Inl OpPanic)
      | UByteLen \<Rightarrow> (case source of
            VBytes bs \<Rightarrow> Inr (VU64 (of_nat (length bs)))
          | VString text \<Rightarrow> Inr (VU64 (of_nat (length text))) | _ \<Rightarrow> Inl OpPanic)
      | UUtf8Bytes \<Rightarrow> (case source of VString text \<Rightarrow> Inr (VBytes text) | _ \<Rightarrow> Inl OpPanic)
      | UParseUtf8 \<Rightarrow> (case source of
            VBytes bs \<Rightarrow> if utf8_ok bs then Inr (VString bs) else Inl (OpAbort InvalidUtf8)
          | _ \<Rightarrow> Inl OpPanic)
      | USha256 \<Rightarrow> (case source of VBytes bs \<Rightarrow> Inr (VBytes (sha bs)) | _ \<Rightarrow> Inl OpPanic))"

definition slice :: "vm_value \<Rightarrow> vm_value \<Rightarrow> vm_value \<Rightarrow> op_failure + vm_value" where
  "slice source start len =
     (case (source, start, len) of
        (VBytes bs, VU64 start, VU64 len) \<Rightarrow>
          if unat start > length bs \<or> unat len > length bs - unat start
          then Inl (OpAbort IndexOutOfBounds)
          else Inr (VBytes (take (unat len) (drop (unat start) bs)))
      | _ \<Rightarrow> Inl OpPanic)"

subsection \<open>Shapes of values\<close>

fun shaped :: "vm_type \<Rightarrow> vm_value \<Rightarrow> bool" where
  "shaped TUnit v \<longleftrightarrow> v = VUnit"
| "shaped TBoolean v \<longleftrightarrow> (\<exists>b. v = VBoolean b)"
| "shaped TI64 v \<longleftrightarrow> (\<exists>n. v = VI64 n)"
| "shaped TU64 v \<longleftrightarrow> (\<exists>n. v = VU64 n)"
| "shaped (TBytes _) v \<longleftrightarrow> (\<exists>bs. v = VBytes bs)"
| "shaped (TString _) v \<longleftrightarrow> (\<exists>text. v = VString text)"
| "shaped (TTuple types) v \<longleftrightarrow> (case v of VTuple vs \<Rightarrow> list_all2 shaped types vs | _ \<Rightarrow> False)"
| "shaped (TRows _ key val) v \<longleftrightarrow>
     (case v of VRows rows \<Rightarrow> list_all (\<lambda>(k, v). shaped key k \<and> shaped val v) rows | _ \<Rightarrow> False)"

lemma accepts_shaped: "accepts ty v \<Longrightarrow> shaped ty v"
proof (induction ty v rule: accepts.induct)
  case (7 types v)
  then obtain vs where v: "v = VTuple vs" "list_all2 accepts types vs" by (cases v) auto
  then have "list_all2 shaped types vs"
    using 7(1)[OF v(1)] by (auto simp: list_all2_conv_all_nth)
  then show ?case by (simp add: v)
next
  case (8 max_rows key val v)
  then show ?case by (cases v) (auto simp: list_all_iff)
qed (auto split: vm_value.splits)

lemma same_shape_shaped: "same_shape a b \<Longrightarrow> shaped a v = shaped b v"
proof (induction a b arbitrary: v rule: same_shape.induct)
  case (7 left other)
  then obtain right where r: "other = TTuple right" "list_all2 same_shape left right" by (cases other) auto
  then have "i < length left \<Longrightarrow> shaped (left ! i) w = shaped (right ! i) w" for i w
    using 7(1)[OF r(1)] by (auto simp: list_all2_conv_all_nth)
  with r show ?case
    by (cases v) (auto simp: list_all2_conv_all_nth)
next
  case (8 m a b other)
  then show ?case
    by (cases other; cases v) (auto simp: list_all_iff)
qed (auto split: vm_type.splits)

lemma same_shape_refl [simp]: "same_shape a a"
proof (induction a)
  case (TTuple ts)
  then show ?case by (simp add: list_all2_conv_all_nth)
qed auto

lemma check_shape_Inr [result_simps]: "check_shape a b = Inr u \<longleftrightarrow> same_shape a b"
  by (auto simp: check_shape_def)

lemma check_integer_Inr [result_simps]: "check_integer a = Inr u \<longleftrightarrow> a = TI64 \<or> a = TU64"
  by (cases a) (auto simp: check_integer_def)

lemma same_shape_simps [simp]:
  "same_shape a TBoolean \<longleftrightarrow> a = TBoolean" "same_shape a TI64 \<longleftrightarrow> a = TI64"
  "same_shape a TU64 \<longleftrightarrow> a = TU64" "same_shape a TUnit \<longleftrightarrow> a = TUnit"
  "same_shape a (TBytes n) \<longleftrightarrow> (\<exists>m. a = TBytes m)" "same_shape a (TString n) \<longleftrightarrow> (\<exists>m. a = TString m)"
  "same_shape TBoolean a \<longleftrightarrow> a = TBoolean" "same_shape TI64 a \<longleftrightarrow> a = TI64"
  "same_shape TU64 a \<longleftrightarrow> a = TU64" "same_shape TUnit a \<longleftrightarrow> a = TUnit"
  "same_shape (TBytes n) a \<longleftrightarrow> (\<exists>m. a = TBytes m)" "same_shape (TString n) a \<longleftrightarrow> (\<exists>m. a = TString m)"
  by (cases a; auto)+

declare same_shape.simps(1-6) [simp del]

subsection \<open>Verified operands never panic\<close>

lemma arith_result_simps:
  "arith_result con r = Inl OpPanic \<longleftrightarrow> r = None"
  "arith_result con r = Inr v \<longleftrightarrow> (\<exists>n. r = Some (Some n) \<and> v = con n)"
  by (auto simp: arith_result_def split: option.splits)

lemma arith_defined:
  "op \<in> {BAdd, BSub, BMul, BDiv, BRem, BBitAnd, BBitOr, BBitXor} \<Longrightarrow>
   i64_arith op a b \<noteq> None \<and> u64_arith op a b \<noteq> None"
  by (auto simp: i64_arith_def u64_arith_def)

definition op_ok :: "vm_type \<Rightarrow> op_failure + vm_value \<Rightarrow> bool" where
  "op_ok ty r \<longleftrightarrow> r \<noteq> Inl OpPanic \<and> (\<forall>v. r = Inr v \<longrightarrow> shaped ty v \<and> value_utf8 v)"

lemma op_ok_simps [simp]:
  "op_ok ty (Inl (OpAbort reason))" "op_ok ty (Inr v) \<longleftrightarrow> shaped ty v \<and> value_utf8 v"
  by (auto simp: op_ok_def)

lemma op_ok_arith:
  "r \<noteq> None \<Longrightarrow> op_ok TI64 (arith_result VI64 r)" "r \<noteq> None \<Longrightarrow> op_ok TU64 (arith_result VU64 r)"
  by (auto simp: op_ok_def arith_result_simps)

lemma binary_arith_ok:
  assumes "op \<in> {BAdd, BSub, BMul, BDiv, BRem, BBitAnd, BBitOr, BBitXor}" "d = TI64 \<or> d = TU64"
    "shaped d x" "shaped d y"
  shows "op_ok d (binary op x y d)"
proof -
  have "op \<notin> {BEq, BLt, BLe, BGt, BGe}" "op \<notin> {BRowsKey, BRowsValue}" "op \<notin> {BShl, BShr}"
    using assms(1) by auto
  then show ?thesis
    using assms(2-4) arith_defined[OF assms(1)]
    by (auto simp: binary_def intro!: op_ok_arith)
qed

lemma rows_get_ok:
  assumes "shaped (TRows m k v) x" "value_utf8 x" "shaped TU64 y"
  shows "op_ok (if op = BRowsKey then k else v) (rows_get op x y)"
proof -
  obtain rows n where "x = VRows rows" "y = VU64 n"
    using assms by (cases x) auto
  then show ?thesis
    using assms by (auto simp: rows_get_def list_all_length case_prod_unfold)
qed

lemma shift_ok:
  assumes "d = TI64 \<or> d = TU64" "shaped d x" "shaped TU64 y"
  shows "op_ok d (shift op x y)"
  using assms by (auto simp: shift_def)

lemma binary_ok:
  assumes "verify_binary op d l r = Inr ()" "shaped l x" "shaped r y" "value_utf8 x" "value_utf8 y"
  shows "op_ok d (binary op x y d)"
proof -
  consider "op \<in> {BAdd, BSub, BMul, BDiv, BRem, BBitAnd, BBitOr, BBitXor}"
    | "op \<in> {BEq, BLt, BLe, BGt, BGe}" | "op \<in> {BBoolAnd, BBoolOr, BBoolXor}"
    | "op \<in> {BShl, BShr}" | "op \<in> {BRowsKey, BRowsValue}" | "op = BConcat"
    by (cases op) auto
  then show ?thesis
  proof cases
    case 1
    then have "d = TI64 \<or> d = TU64" "same_shape d l" "same_shape d r"
      using assms(1) by (auto simp: verify_binary_def result_simps)
    then show ?thesis
      using binary_arith_ok[OF 1, of d x y] same_shape_shaped assms by blast
  next
    case 2
    then have "d = TBoolean"
      using assms(1) by (auto simp: verify_binary_def result_simps)
    then show ?thesis
      using 2 by (auto simp: binary_def)
  next
    case 3
    then have "d = TBoolean" "l = TBoolean" "r = TBoolean"
      using assms(1) by (auto simp: verify_binary_def result_simps)
    then show ?thesis
      using 3 assms by (auto simp: binary_def)
  next
    case 4
    then have "d = TI64 \<or> d = TU64" "same_shape d l" "r = TU64"
      using assms(1) by (auto simp: verify_binary_def result_simps)
    then show ?thesis
      using 4 shift_ok[of d x y op] same_shape_shaped assms by (auto simp: binary_def)
  next
    case 5
    then obtain m k v where R: "l = TRows m k v" "r = TU64" "same_shape d (if op = BRowsKey then k else v)"
      using assms(1) by (auto simp: verify_binary_def result_simps)
    have "op_ok (if op = BRowsKey then k else v) (rows_get op x y)"
      using R assms by (intro rows_get_ok[where m = m]) auto
    then show ?thesis
      using 5 same_shape_shaped[OF R(3)] by (auto simp: binary_def op_ok_def)
  next
    case 6
    then obtain b where "d = TBytes b \<and> (\<exists>b. l = TBytes b) \<and> (\<exists>b. r = TBytes b)
        \<or> d = TString b \<and> (\<exists>b. l = TString b) \<and> (\<exists>b. r = TString b)"
      using assms(1) by (auto simp: verify_binary_def result_simps)
    then show ?thesis
      using 6 assms by (auto simp: binary_def utf8_ok_append)
  qed
qed

lemma unary_ok:
  assumes "verify_unary op d s = Inr ()" "shaped s x" "value_utf8 x"
  shows "op_ok d (unary sha op x)"
proof (cases op)
  case URowsLen
  then show ?thesis
    using assms by (cases x) (auto simp: verify_unary_def unary_def result_simps)
next
  case UByteLen
  then show ?thesis
    using assms by (cases x) (auto simp: verify_unary_def unary_def result_simps)
qed (use assms in \<open>auto simp: verify_unary_def unary_def result_simps intro!: op_ok_arith\<close>)

lemma slice_ok:
  assumes "shaped (TBytes n) x" "shaped TU64 a" "shaped TU64 b"
  shows "op_ok (TBytes m) (slice x a b)"
  using assms by (auto simp: slice_def)

subsection \<open>Exact arithmetic\<close>





lemma sint_fits [simp]: "i64_fits (sint (w :: u64))"
  using sint_ge[of w] sint_lt[of w] by (simp add: i64_fits_def)




subsection \<open>Properties\<close>



end
