(* ===== verification/Blop_Database.thy ===== *)
theory Blop_Database
  imports Blop_Mvcc Blop_Ops
begin

unbundle bit_operations_syntax

section \<open>Historical metadata and private writes (\<^verbatim>\<open>src/vm/database.rs\<close>)\<close>

text \<open>
  What a transaction sees of the store: the catalogue and the limit policy at a sequence, and
  rows read through the overlay of the transaction's own writes. The range read splits the
  stored rows at the addresses of the overlay, so that no row after a row limit is touched;
  it is shown to return exactly the rows of the patched state. The catalogue codec is exact,
  and a catalogue lookup returns the newest version at or below its sequence.
\<close>

subsection \<open>Outcomes (\<^verbatim>\<open>src/vm/mod.rs\<close>)\<close>

record abort =
  ab_reason :: abort_reason
  ab_instruction :: u32
  ab_user_code :: u32
  ab_detail :: u64

datatype effect =
    EPut u64 bytes bytes \<comment> \<open>table, key, value\<close>
  | EDelete u64 bytes \<comment> \<open>table, key\<close>
  | ECatalogue u64 bytes \<comment> \<open>table, value\<close>
  | ELimits policy

datatype outcome =
    Success vm_type vm_value "effect list" \<comment> \<open>result type, value, effects\<close>
  | Aborted abort

subsection \<open>Data\<close>

text \<open>A \<^verbatim>\<open>BTreeMap\<close> is the list of its entries in ascending key order.\<close>

type_synonym address = "u64 \<times> bytes"
type_synonym overlay = "(address \<times> bytes option) list"

fun bt_insert :: "'k :: linorder \<Rightarrow> 'v \<Rightarrow> ('k \<times> 'v) list \<Rightarrow> ('k \<times> 'v) list" where
  "bt_insert k v [] = [(k, v)]"
| "bt_insert k v ((k', v') # m) =
     (if k < k' then (k, v) # (k', v') # m
      else if k = k' then (k, v) # m else (k', v') # bt_insert k v m)"

text \<open>\<^verbatim>\<open>BTreeMap::range\<close> panics on a reversed range and on an empty one with two open ends.\<close>

definition bt_range :: "'k :: linorder bound \<Rightarrow> 'k bound \<Rightarrow> ('k \<times> 'v) list \<Rightarrow> ('k \<times> 'v) list option" where
  "bt_range lo hi m =
     (let bad = (case (lo, hi) of
          (Excluded a, Excluded b) \<Rightarrow> a \<ge> b
        | (Included a, Included b) \<Rightarrow> a > b
        | (Included a, Excluded b) \<Rightarrow> a > b
        | (Excluded a, Included b) \<Rightarrow> a > b
        | _ \<Rightarrow> False) in
      if bad then None else Some (filter (\<lambda>e. above lo (fst e) \<and> beneath hi (fst e)) m))"

datatype catalogue_operation =
    CCreate bytes vm_type vm_type \<comment> \<open>name, key, value\<close>
  | CRename u64 bytes \<comment> \<open>table, name\<close>
  | CDrop u64 \<comment> \<open>table\<close>

record catalogue_entry =
  cv_live :: bool
  cv_name :: bytes
  cv_table :: tbl

definition m_reserved_id :: string where "m_reserved_id = ''reserved table ID or record sequence''"
definition m_table_name :: string where
  "m_table_name = ''table name must contain 1 through 255 UTF-8 bytes without NUL''"
definition m_cat_truncated :: string where "m_cat_truncated = ''truncated catalogue value''"
definition m_blob_long :: string where "m_blob_long = ''blob exceeds u32''"
definition m_table_key :: string where
  "m_table_key = ''table key schema exceeds 1,024 canonical bytes''"
definition m_schema_bytes :: string where
  "m_schema_bytes = ''schema descriptor exceeds 65,536 bytes''"
definition m_cat_key_length :: string where "m_cat_key_length = ''invalid catalogue key length''"
definition m_cat_predates :: string where "m_cat_predates = ''catalogue version predates creation''"
definition m_cat_state :: string where "m_cat_state = ''invalid catalogue state''"
definition m_cat_reserved :: string where "m_cat_reserved = ''nonzero catalogue reserved field''"
definition m_cat_name :: string where "m_cat_name = ''invalid UTF-8 table name''"
definition m_cat_trailing :: string where "m_cat_trailing = ''trailing catalogue bytes''"
definition m_cat_seek :: string where "m_cat_seek = ''unexpected catalogue seek result''"
definition m_table_unknown :: string where "m_table_unknown = ''table is unknown or dropped''"
definition m_policy_key :: string where "m_policy_key = ''invalid policy key length''"
definition m_policy_genesis :: string where "m_policy_genesis = ''missing genesis policy''"
definition m_scan_key :: string where
  "m_scan_key = ''scan endpoint exceeds 1,024 canonical bytes''"

subsection \<open>Errors and identifiers\<close>

definition input_error :: "storage_error \<Rightarrow> vm_error" where
  "input_error e =
     (case e of
        InvalidInput reason \<Rightarrow> Invalid reason
      | Storage_Unsupported fmt version \<Rightarrow> Unsupported fmt version
      | _ \<Rightarrow> Storage e)"

definition persisted :: "vm_error \<Rightarrow> vm_error" where
  "persisted e =
     (case e of
        Invalid reason \<Rightarrow> Storage (Corrupt reason)
      | Storage (InvalidInput reason) \<Rightarrow> Storage (Corrupt reason)
      | _ \<Rightarrow> e)"

definition valid_id :: "u64 \<Rightarrow> vm_error + unit" where
  "valid_id i = (if i = 0 \<or> i = - 1 then Inl (Invalid m_reserved_id) else Inr ())"

definition valid_name :: "bytes \<Rightarrow> vm_error + unit" where
  "valid_name name =
     (if name = [] \<or> length name > 255 \<or> 0 \<in> set name then Inl (Invalid m_table_name) else Inr ())"

definition table_schema :: "bytes \<Rightarrow> bool \<Rightarrow> vm_error + schema" where
  "table_schema bs key =
     rbind (map_err input_error (schema_decode bs)) (\<lambda>schema.
     if key \<and> s_max_key_bytes schema > 1024 then Inl (Invalid m_table_key) else Inr schema)"

text \<open>The bounded traversal of \<^verbatim>\<open>schema_descriptor\<close>; the top of the stack is the head.\<close>

definition schema_node :: "vm_type \<Rightarrow> nat \<Rightarrow> vm_error + nat \<times> (vm_type \<times> nat) list" where
  "schema_node ty depth =
     (case ty of
        TBytes _ \<Rightarrow> Inr (5, [])
      | TString _ \<Rightarrow> Inr (5, [])
      | TTuple tys \<Rightarrow>
          if length tys > 256 then Inl (Invalid m_tuple_fields)
          else Inr (3, rev (map (\<lambda>ty. (ty, depth + 1)) tys))
      | TRows _ _ _ \<Rightarrow> Inl (Invalid m_schema_rows)
      | _ \<Rightarrow> Inr (1, []))"

definition pending_size :: "(vm_type \<times> nat) list \<Rightarrow> nat" where
  "pending_size pending = sum_list (map (\<lambda>p. Suc (size (fst p))) pending)"

lemma schema_node_smaller:
  "schema_node ty depth = Inr (n, inner) \<Longrightarrow> pending_size inner < Suc (size ty)"
proof -
  have "pending_size (rev (map (\<lambda>ty. (ty, depth + 1)) tys)) = size_list size tys" for tys
    by (induction tys) (auto simp: pending_size_def)
  then show "schema_node ty depth = Inr (n, inner) \<Longrightarrow> pending_size inner < Suc (size ty)"
    by (cases ty) (auto simp: schema_node_def pending_size_def split: if_splits)
qed

function bounded_type :: "(vm_type \<times> nat) list \<Rightarrow> nat \<Rightarrow> vm_error + unit" where
  "bounded_type [] bs = Inr ()"
| "bounded_type ((ty, depth) # pending) bs =
     (if depth > 16 then Inl (Invalid m_schema_depth) else
      rbind (schema_node ty depth) (\<lambda>(n, inner).
      if bs + n > 65536 then Inl (Invalid m_schema_bytes)
      else bounded_type (inner @ pending) (bs + n)))"
  by pat_completeness auto
termination
  by (relation "measure (\<lambda>(pending, _). pending_size pending)")
    (auto simp: pending_size_def dest: schema_node_smaller)

declare bounded_type.simps(2) [simp del]

definition schema_descriptor :: "vm_type \<Rightarrow> bool \<Rightarrow> vm_error + bytes" where
  "schema_descriptor ty key =
     rbind (bounded_type [(ty, 1)] 2) (\<lambda>_.
     rbind (descriptor ty) (\<lambda>bs.
     rbind (table_schema bs key) (\<lambda>_. Inr bs)))"

subsection \<open>The catalogue\<close>

definition catalogue_key :: "u64 \<Rightarrow> u64 \<Rightarrow> bytes" where
  "catalogue_key i sequence = u64_be i @ u64_be (NOT sequence)"

definition decode_catalogue_key :: "bytes \<Rightarrow> vm_error + u64 \<times> u64" where
  "decode_catalogue_key bs =
     (if length bs \<noteq> 16 then Inl (Storage (Corrupt m_cat_key_length)) else
      let i = u64_of_be (take 8 bs); sequence = NOT (u64_of_be (drop 8 bs)) in
      rbind (map_err persisted (valid_id i)) (\<lambda>_.
      rbind (map_err persisted (valid_id sequence)) (\<lambda>_.
      if sequence < i then Inl (Storage (Corrupt m_cat_predates)) else Inr (i, sequence))))"

abbreviation cat_error :: vm_error where "cat_error \<equiv> Invalid m_cat_truncated"

definition decode_catalogue :: "u64 \<Rightarrow> bytes \<Rightarrow> vm_error + catalogue_entry" where
  "decode_catalogue i bs =
     rbind (valid_id i) (\<lambda>_.
     rbind (take_u16 cat_error bs) (\<lambda>(version, input).
     if version \<noteq> 1 then Inl (Unsupported ''catalogue'' version) else
     rbind (take_u8 cat_error input) (\<lambda>(state, input).
     rbind (if state = 1 then Inr True else if state = 2 then Inr False
            else Inl (Invalid m_cat_state)) (\<lambda>live.
     rbind (take_u8 cat_error input) (\<lambda>(reserved, input).
     if reserved \<noteq> 0 then Inl (Invalid m_cat_reserved) else
     rbind (take_blob cat_error input) (\<lambda>(name, input).
     if \<not> utf8_ok name then Inl (Invalid m_cat_name) else
     rbind (valid_name name) (\<lambda>_.
     rbind (take_blob cat_error input) (\<lambda>(key, input).
     rbind (table_schema key True) (\<lambda>_.
     rbind (type_decode key) (\<lambda>key.
     rbind (take_blob cat_error input) (\<lambda>(val, input).
     rbind (table_schema val False) (\<lambda>_.
     rbind (type_decode val) (\<lambda>val.
     if input \<noteq> [] then Inl (Invalid m_cat_trailing) else
     Inr \<lparr>cv_live = live, cv_name = name, cv_table = \<lparr>t_id = i, t_key = key, t_value = val\<rparr>\<rparr>)))))))))))))"

definition encode_catalogue :: "catalogue_entry \<Rightarrow> vm_error + bytes" where
  "encode_catalogue version =
     rbind (valid_id (t_id (cv_table version))) (\<lambda>_.
     rbind (valid_name (cv_name version)) (\<lambda>_.
     rbind (schema_descriptor (t_key (cv_table version)) True) (\<lambda>key.
     rbind (schema_descriptor (t_value (cv_table version)) False) (\<lambda>val.
     rbind (put_blob (Invalid m_blob_long) (cv_name version)) (\<lambda>name.
     rbind (put_blob (Invalid m_blob_long) key) (\<lambda>key.
     rbind (put_blob (Invalid m_blob_long) val) (\<lambda>val.
     Inr ([1, 0, if cv_live version then 1 else 2, 0] @ name @ key @ val))))))))"

definition catalogue_version :: "view \<Rightarrow> u64 \<Rightarrow> u64 \<Rightarrow> vm_error + catalogue_entry option" where
  "catalogue_version V i sequence =
     rbind (valid_id i) (\<lambda>_.
     if sequence = - 1 then Inl (Invalid m_state_snapshot) else
     rbind (map_err Storage (vw_scan V Catalogue (Included (catalogue_key i sequence))
       (Excluded (u64_be (i + 1))))) (\<lambda>entries.
     case entries of
       [] \<Rightarrow> Inr None
     | Inl e # _ \<Rightarrow> Inl (Storage e)
     | Inr (key, val) # _ \<Rightarrow>
         rbind (decode_catalogue_key key) (\<lambda>(found_id, found_sequence).
         if found_id \<noteq> i \<or> found_sequence > sequence then Inl (Storage (Corrupt m_cat_seek)) else
         rbind (map_err persisted (decode_catalogue i val)) (\<lambda>version. Inr (Some version)))))"

definition live_version :: "catalogue_entry option \<Rightarrow> catalogue_entry option" where
  "live_version v = (case v of Some c \<Rightarrow> if cv_live c then Some c else None | None \<Rightarrow> None)"

definition db_table :: "view \<Rightarrow> u64 \<Rightarrow> u64 \<Rightarrow> vm_error + tbl" where
  "db_table V i sequence =
     rbind (catalogue_version V i sequence) (\<lambda>version.
     ok_or (Invalid m_table_unknown) (map_option cv_table (live_version version)))"

subsection \<open>The policy\<close>

fun latest_policy :: "(storage_error + entry) list \<Rightarrow> policy option \<Rightarrow> vm_error + policy option" where
  "latest_policy [] latest = Inr latest"
| "latest_policy (Inl e # entries) latest = Inl (Storage e)"
| "latest_policy (Inr (key, val) # entries) latest =
     (if length key \<noteq> 8 then Inl (Storage (Corrupt m_policy_key))
      else if latest = None \<and> key \<noteq> replicate 8 0 then Inl (Storage (Corrupt m_policy_genesis))
      else rbind (map_err input_error (policy_decode val)) (\<lambda>p. latest_policy entries (Some p)))"

definition db_policy :: "view \<Rightarrow> u64 \<Rightarrow> vm_error + policy" where
  "db_policy V sequence =
     (if sequence = - 1 then Inl (Invalid m_state_snapshot) else
      rbind (map_err Storage (vw_scan V Policy Unbounded (Included (u64_be sequence)))) (\<lambda>entries.
      rbind (latest_policy entries None) (\<lambda>latest.
      ok_or (Storage (Corrupt m_policy_genesis)) latest)))"

subsection \<open>Rows under the overlay\<close>

definition db_get :: "view \<Rightarrow> u64 \<Rightarrow> bytes \<Rightarrow> u64 \<Rightarrow> overlay \<Rightarrow> vm_error + bytes option" where
  "db_get V table key sequence ov =
     (case map_of ov (table, key) of
        Some val \<Rightarrow> Inr val
      | None \<Rightarrow> map_err Storage (mvcc_get V table key sequence))"

text \<open>
  What the iterator of \<^verbatim>\<open>scan\<close> yields until it is done. Each round reads the stored rows up
  to the next overlay address, unless that segment is empty, and then yields the overlay's
  own row; an error ends the iteration.
\<close>

fun until_error :: "(storage_error + entry) list \<Rightarrow> (vm_error + entry) list \<Rightarrow> (vm_error + entry) list" where
  "until_error [] rest = rest"
| "until_error (Inl e # entries) rest = [Inl (Storage e)]"
| "until_error (Inr row # entries) rest = Inr row # until_error entries rest"

definition segment_empty :: "bytes bound \<Rightarrow> bytes option \<Rightarrow> bool" where
  "segment_empty lower next_key =
     (case next_key of
        None \<Rightarrow> False
      | Some key \<Rightarrow>
          (case lower of
             Unbounded \<Rightarrow> key = []
           | Included start \<Rightarrow> start \<ge> key
           | Excluded start \<Rightarrow> start \<ge> key))"

fun merge_scan :: "view \<Rightarrow> u64 \<Rightarrow> u64 \<Rightarrow> bytes bound \<Rightarrow> bytes bound \<Rightarrow> overlay \<Rightarrow> (vm_error + entry) list" where
  "merge_scan V table sequence upper lower [] =
     (case mvcc_scan V table sequence lower upper of
        Inl e \<Rightarrow> [Inl (Storage e)]
      | Inr entries \<Rightarrow> until_error entries [])"
| "merge_scan V table sequence upper lower (((tid, key), val) # ov) =
     (case (if segment_empty lower (Some key) then Inr []
            else mvcc_scan V table sequence lower (Excluded key)) of
        Inl e \<Rightarrow> [Inl (Storage e)]
      | Inr entries \<Rightarrow> until_error entries
          ((case val of Some bs \<Rightarrow> [Inr (key, bs)] | None \<Rightarrow> [])
           @ merge_scan V table sequence upper (Excluded key) ov))"

definition long_bound :: "bytes bound \<Rightarrow> bool" where
  "long_bound b =
     (case b of Included key \<Rightarrow> length key > 1024 | Excluded key \<Rightarrow> length key > 1024 | Unbounded \<Rightarrow> False)"

definition overlay_lower :: "u64 \<Rightarrow> bytes bound \<Rightarrow> address bound" where
  "overlay_lower table lower =
     (case lower of
        Unbounded \<Rightarrow> Included (table, [])
      | Included key \<Rightarrow> Included (table, key)
      | Excluded key \<Rightarrow> Excluded (table, key))"

definition overlay_upper :: "u64 \<Rightarrow> bytes bound \<Rightarrow> address bound" where
  "overlay_upper table upper =
     (case upper of
        Unbounded \<Rightarrow> Excluded (table + 1, [])
      | Included key \<Rightarrow> Included (table, key)
      | Excluded key \<Rightarrow> Excluded (table, key))"

definition db_scan :: "view \<Rightarrow> u64 \<Rightarrow> u64 \<Rightarrow> bytes bound \<Rightarrow> bytes bound \<Rightarrow> overlay \<Rightarrow>
    vm_error + (vm_error + entry) list" where
  "db_scan V table sequence lower upper ov =
     rbind (valid_id table) (\<lambda>_.
     if sequence = - 1 then Inl (Invalid m_state_snapshot)
     else if long_bound lower \<or> long_bound upper then Inl (Invalid m_scan_key) else
     rbind (ok_or Panic (bt_range (overlay_lower table lower) (overlay_upper table upper) ov)) (\<lambda>ov.
     Inr (merge_scan V table sequence upper lower ov)))"

subsection \<open>Administrative records\<close>

fun name_used :: "(storage_error + entry) list \<Rightarrow> u64 \<Rightarrow> bytes \<Rightarrow> u64 option \<Rightarrow> u64 option \<Rightarrow> vm_error + bool" where
  "name_used [] sequence name except selected = Inr False"
| "name_used (Inl e # entries) sequence name except selected = Inl (Storage e)"
| "name_used (Inr (key, val) # entries) sequence name except selected =
     rbind (decode_catalogue_key key) (\<lambda>(i, effective).
     if effective > sequence \<or> selected = Some i then name_used entries sequence name except selected
     else
       rbind (map_err persisted (decode_catalogue i val)) (\<lambda>version.
       if cv_live version \<and> cv_name version = name \<and> except \<noteq> Some i then Inr True
       else name_used entries sequence name except (Some i)))"

definition name_in_use :: "view \<Rightarrow> u64 \<Rightarrow> bytes \<Rightarrow> u64 option \<Rightarrow> vm_error + bool" where
  "name_in_use V sequence name except =
     rbind (map_err Storage (vw_scan V Catalogue Unbounded Unbounded)) (\<lambda>entries.
     name_used entries sequence name except None)"

definition administrative_abort :: "abort_reason \<Rightarrow> outcome" where
  "administrative_abort reason =
     Aborted \<lparr>ab_reason = reason, ab_instruction = - 1, ab_user_code = 0, ab_detail = 0\<rparr>"

definition validate_catalogue :: "catalogue_operation \<Rightarrow> vm_error + unit" where
  "validate_catalogue op =
     (case op of
        CCreate name key val \<Rightarrow>
          rbind (valid_name name) (\<lambda>_.
          rbind (schema_descriptor key True) (\<lambda>_.
          rbind (schema_descriptor val False) (\<lambda>_. Inr ())))
      | CRename table name \<Rightarrow> rbind (valid_id table) (\<lambda>_. valid_name name)
      | CDrop table \<Rightarrow> valid_id table)"

definition catalogue_success :: "catalogue_entry \<Rightarrow> vm_type \<Rightarrow> vm_value \<Rightarrow> vm_error + outcome" where
  "catalogue_success version result_type val =
     rbind (encode_catalogue version) (\<lambda>bs.
     Inr (Success result_type val [ECatalogue (t_id (cv_table version)) bs]))"

definition catalogue :: "view \<Rightarrow> u64 \<Rightarrow> catalogue_operation \<Rightarrow> vm_error + outcome" where
  "catalogue V sequence op =
     rbind (valid_id sequence) (\<lambda>_.
     rbind (validate_catalogue op) (\<lambda>_.
     case op of
       CCreate name key val \<Rightarrow>
         rbind (name_in_use V (sequence - 1) name None) (\<lambda>used.
         if used then Inr (administrative_abort NameInUse)
         else catalogue_success
           \<lparr>cv_live = True, cv_name = name, cv_table = \<lparr>t_id = sequence, t_key = key, t_value = val\<rparr>\<rparr>
           TU64 (VU64 sequence))
     | CRename table name \<Rightarrow>
         rbind (catalogue_version V table (sequence - 1)) (\<lambda>version.
         case live_version version of
           None \<Rightarrow> Inr (administrative_abort TableNotLive)
         | Some version \<Rightarrow>
             rbind (name_in_use V (sequence - 1) name (Some table)) (\<lambda>used.
             if used then Inr (administrative_abort NameInUse)
             else catalogue_success (version\<lparr>cv_name := name\<rparr>) TUnit VUnit))
     | CDrop table \<Rightarrow>
         rbind (catalogue_version V table (sequence - 1)) (\<lambda>version.
         case live_version version of
           None \<Rightarrow> Inr (administrative_abort TableNotLive)
         | Some version \<Rightarrow> catalogue_success (version\<lparr>cv_live := False\<rparr>) TUnit VUnit)))"

definition limits_outcome :: "policy \<Rightarrow> outcome" where
  "limits_outcome p = Success TUnit VUnit [ELimits p]"

subsection \<open>Ordered maps\<close>

definition sorted_map :: "('k :: linorder \<times> 'v) list \<Rightarrow> bool" where
  "sorted_map m \<longleftrightarrow> sorted_wrt (<) (map fst m)"

lemma sorted_map_simps [simp]:
  "sorted_map []" "sorted_map (e # m) \<longleftrightarrow> (\<forall>e' \<in> set m. fst e < fst e') \<and> sorted_map m"
  by (auto simp: sorted_map_def)

lemma sorted_map_distinct: "sorted_map m \<Longrightarrow> distinct (map fst m)"
  by (simp add: sorted_map_def strict_sorted_iff)

lemma sorted_map_filter: "sorted_map m \<Longrightarrow> sorted_map (filter P m)"
  by (induction m) auto

lemma set_bt_insert: "set (bt_insert k v m) \<subseteq> insert (k, v) (set m)"
  by (induction k v m rule: bt_insert.induct) auto

lemma bt_insert_sorted: "sorted_map m \<Longrightarrow> sorted_map (bt_insert k v m)"
proof (induction k v m rule: bt_insert.induct)
  case (2 k v k' v' m)
  have "\<forall>e \<in> set (bt_insert k v m). k' < fst e" if "k' < k"
    using that 2(2) set_bt_insert[of k v m] by auto
  with 2 show ?case by (auto intro: less_trans)
qed simp

lemma map_of_bt_insert: "sorted_map m \<Longrightarrow> map_of (bt_insert k v m) = (map_of m)(k \<mapsto> v)"
  by (induction k v m rule: bt_insert.induct) (auto simp: fun_upd_def fun_eq_iff)

lemma map_of_absent: "\<forall>e \<in> set m. (k :: 'k :: linorder) < fst e \<Longrightarrow> map_of m k = None"
  by (induction m) auto

lemma sorted_map_filter_map_of:
  "sorted_map m \<Longrightarrow> map_of (filter (\<lambda>e. P (fst e)) m) k = (if P k then map_of m k else None)"
  by (induction m) (auto simp: map_of_absent)

subsection \<open>Rows of the patched state\<close>

definition patched :: "version list \<Rightarrow> overlay \<Rightarrow> u64 \<Rightarrow> u64 \<Rightarrow> bytes \<Rightarrow> bytes option" where
  "patched vs ov t s k = (case map_of ov (t, k) of Some v \<Rightarrow> v | None \<Rightarrow> visible vs t k s)"

definition rows_between :: "(bytes \<Rightarrow> bytes option) \<Rightarrow> bytes bound \<Rightarrow> bytes bound \<Rightarrow> entry list \<Rightarrow> bool" where
  "rows_between f lo hi rows \<longleftrightarrow> ascending (map fst rows) \<and>
     (\<forall>k. map_of rows k = (if above lo k \<and> beneath hi k then f k else None))"

lemma rows_between_key: "rows_between f lo hi rows \<Longrightarrow> e \<in> set rows \<Longrightarrow> above lo (fst e) \<and> beneath hi (fst e)"
proof -
  assume R: "rows_between f lo hi rows" and e: "e \<in> set rows"
  then have "map_of rows (fst e) \<noteq> None"
    by (metis domIff dom_map_of_conv_image_fst imageI)
  then show ?thesis
    using R by (auto simp: rows_between_def split: if_splits)
qed

lemma until_error_ok [simp]: "until_error (map Inr rows) rest = map Inr rows @ rest"
  by (induction rows) auto

text \<open>Rows of two adjoining intervals, with the row at the split address between them.\<close>

lemma rows_between_split:
  assumes L: "rows_between f lo (Excluded key) left" and R: "rows_between g (Excluded key) hi right"
    and key: "above lo key" "beneath hi key"
    and mid: "mid = (case v of Some bs \<Rightarrow> [(key, bs)] | None \<Rightarrow> [])"
    and h: "\<And>k. k < key \<Longrightarrow> h k = f k" "h key = v" "\<And>k. key < k \<Longrightarrow> h k = g k"
  shows "rows_between h lo hi (left @ mid @ right)"
proof -
  have l: "\<And>e. e \<in> set left \<Longrightarrow> fst e < key" and r: "\<And>e. e \<in> set right \<Longrightarrow> key < fst e"
    using rows_between_key[OF L] rows_between_key[OF R] by auto
  have m: "\<And>e. e \<in> set mid \<Longrightarrow> fst e = key"
    using mid by (auto split: option.splits)
  have sorted_mid: "sorted_wrt (<) (map fst mid)"
    by (simp add: mid split: option.splits)
  have "ascending (map fst (left @ mid @ right))"
    using L R sorted_mid l r m
    by (fastforce simp: ascending_iff rows_between_def sorted_wrt_append)
  moreover have "map_of (left @ mid @ right) k = (if above lo k \<and> beneath hi k then h k else None)" for k
  proof -
    have mids: "map_of mid k = (if k = key then v else None)"
      by (simp add: mid split: option.splits)
    have lo: "above lo k" if "key < k"
      using that key(1) by (cases lo) auto
    have hi: "beneath hi k" if "k < key"
      using that key(2) by (cases hi) auto
    show ?thesis
    proof (cases k key rule: linorder_cases)
      case less
      then show ?thesis
        using L R hi h(1) mids by (auto simp: rows_between_def map_add_def split: option.splits)
    next
      case equal
      then show ?thesis
        using L R h(2) mids key by (auto simp: rows_between_def map_add_def split: option.splits)
    next
      case greater
      then show ?thesis
        using L R lo h(3) mids by (auto simp: rows_between_def map_add_def split: option.splits)
    qed
  qed
  ultimately show ?thesis by (simp add: rows_between_def)
qed

lemma segment_rows:
  assumes V: "view_of V ents" "stored ents vs" and ids: "t \<noteq> 0" "t \<noteq> - 1" "s \<noteq> - 1"
    and lo: "check_bound lo = Inr ()" "above lo key" and key: "length key \<le> MAX_KEY_BYTES"
  shows "\<exists>rows. (if segment_empty lo (Some key) then Inr [] else mvcc_scan V t s lo (Excluded key)) = Inr (map Inr rows)
    \<and> rows_between (\<lambda>k. visible vs t k s) lo (Excluded key) rows"
proof (cases "segment_empty lo (Some key)")
  case True
  then have "\<not> (above lo k \<and> k < key)" for k
    using lo(2) by (cases lo) (auto simp: segment_empty_def)
  with True show ?thesis by (auto simp: rows_between_def)
next
  case False
  have "check_bound (Excluded key) = Inr ()"
    using key by (simp add: check_bound_def check_key_def)
  with False show ?thesis
    using mvcc_scan_visible[OF V ids lo(1), of "Excluded key"] by (auto simp: rows_between_def)
qed

lemma merge_scan_rows:
  assumes V: "view_of V ents" "stored ents vs" and ids: "t \<noteq> 0" "t \<noteq> - 1" "s \<noteq> - 1"
    and hi: "check_bound hi = Inr ()"
  shows "check_bound lo = Inr () \<Longrightarrow> sorted_map ov \<Longrightarrow>
    (\<forall>e \<in> set ov. fst (fst e) = t \<and> length (snd (fst e)) \<le> MAX_KEY_BYTES
       \<and> above lo (snd (fst e)) \<and> beneath hi (snd (fst e))) \<Longrightarrow>
    \<exists>rows. merge_scan V t s hi lo ov = map Inr rows \<and> rows_between (patched vs ov t s) lo hi rows"
proof (induction ov arbitrary: lo)
  case Nil
  then show ?case
    using mvcc_scan_visible[OF V ids Nil(1) hi] until_error_ok[of _ "[]"]
    by (auto simp: rows_between_def patched_def simp del: until_error_ok)
next
  case (Cons e ov)
  obtain key v where e: "e = ((t, key), v)"
    using Cons.prems(3) by (metis list.set_intros(1) prod.collapse)
  have key: "length key \<le> MAX_KEY_BYTES" "above lo key" "beneath hi key"
    using Cons.prems(3) by (auto simp: e)
  have later: "\<forall>e' \<in> set ov. fst (fst e') = t \<and> key < snd (fst e')"
    using Cons.prems by (auto simp: e less_prod_def')
  obtain left where left: "(if segment_empty lo (Some key) then Inr [] else mvcc_scan V t s lo (Excluded key)) = Inr (map Inr left)"
    "rows_between (\<lambda>k. visible vs t k s) lo (Excluded key) left"
    using segment_rows[OF V ids Cons.prems(1) key(2,1)] by blast
  have bound: "check_bound (Excluded key) = Inr ()"
    using key(1) by (simp add: check_bound_def check_key_def)
  obtain right where right: "merge_scan V t s hi (Excluded key) ov = map Inr right"
    "rows_between (patched vs ov t s) (Excluded key) hi right"
    using Cons.IH[OF bound] Cons.prems later by auto
  let ?mid = "case v of Some bs \<Rightarrow> [(key, bs)] | None \<Rightarrow> []"
  have "map_of ov (t, k) = None" if "k < key" for k
    using later that by (intro map_of_absent) (auto simp: less_prod_def')
  then have "rows_between (patched vs (e # ov) t s) lo hi (left @ ?mid @ right)"
    using key(2,3) by (intro rows_between_split[OF left(2) right(2)]) (auto simp: e patched_def)
  moreover have "merge_scan V t s hi lo (e # ov) = map Inr (left @ ?mid @ right)"
    unfolding e merge_scan.simps left(1) right(1) by (simp split: option.splits)
  ultimately show ?case by blast
qed

definition ordered_bounds :: "bytes bound \<Rightarrow> bytes bound \<Rightarrow> bool" where
  "ordered_bounds lo hi \<longleftrightarrow>
     (case (lo, hi) of
        (Excluded a, Excluded b) \<Rightarrow> a < b
      | (Included a, Included b) \<Rightarrow> a \<le> b
      | (Included a, Excluded b) \<Rightarrow> a \<le> b
      | (Excluded a, Included b) \<Rightarrow> a \<le> b
      | _ \<Rightarrow> True)"

definition keys_bounded :: "overlay \<Rightarrow> bool" where
  "keys_bounded ov \<longleftrightarrow> (\<forall>e \<in> set ov. length (snd (fst e)) \<le> MAX_KEY_BYTES)"

lemma overlay_range_iff:
  assumes "t \<noteq> - 1"
  shows "above (overlay_lower t lo) a \<and> beneath (overlay_upper t hi) a \<longleftrightarrow>
    fst a = t \<and> above lo (snd a) \<and> beneath hi (snd a)"
proof -
  have "above (overlay_lower t lo) a \<longleftrightarrow> t < fst a \<or> (t = fst a \<and> above lo (snd a))"
    by (cases lo; cases a) (auto simp: overlay_lower_def less_eq_prod_def less_prod_def')
  moreover have "beneath (overlay_upper t hi) a \<longleftrightarrow> fst a < t \<or> (fst a = t \<and> beneath hi (snd a))"
    using table_succ_less[OF assms, of "fst a"]
    by (cases hi; cases a) (auto simp: overlay_upper_def less_eq_prod_def less_prod_def' le_less)
  ultimately show ?thesis by auto
qed

lemma bt_range_overlay:
  assumes "t \<noteq> - 1"
  shows "bt_range (overlay_lower t lo) (overlay_upper t hi) ov =
    (if ordered_bounds lo hi then Some (filter (\<lambda>e. fst (fst e) = t \<and> above lo (snd (fst e)) \<and> beneath hi (snd (fst e))) ov)
     else None)"
proof -
  have "t < t + 1" using table_succ_less[OF assms, of t] by simp
  then have "bt_range (overlay_lower t lo) (overlay_upper t hi) ov =
    (if ordered_bounds lo hi then Some (filter (\<lambda>e. above (overlay_lower t lo) (fst e) \<and> beneath (overlay_upper t hi) (fst e)) ov)
     else None)"
    by (cases lo; cases hi)
      (auto simp: bt_range_def overlay_lower_def overlay_upper_def ordered_bounds_def less_prod_def' less_eq_prod_def)
  then show ?thesis by (simp only: overlay_range_iff[OF assms])
qed

lemma long_bound_iff: "\<not> long_bound b \<longleftrightarrow> check_bound b = Inr ()"
  by (cases b) (auto simp: long_bound_def check_bound_def check_key_def MAX_KEY_BYTES_def)

lemma rows_between_cong:
  "rows_between f lo hi rows \<Longrightarrow> (\<And>k. above lo k \<Longrightarrow> beneath hi k \<Longrightarrow> f k = g k) \<Longrightarrow> rows_between g lo hi rows"
  by (simp add: rows_between_def)

lemma db_scan_rows:
  assumes V: "view_of V ents" "stored ents vs" and ids: "t \<noteq> 0" "t \<noteq> - 1" "s \<noteq> - 1"
    and b: "\<not> long_bound lo" "\<not> long_bound hi" "ordered_bounds lo hi"
    and ov: "sorted_map ov" "keys_bounded ov"
  shows "\<exists>rows. db_scan V t s lo hi ov = Inr (map Inr rows) \<and> rows_between (patched vs ov t s) lo hi rows"
proof -
  let ?P = "\<lambda>a :: address. fst a = t \<and> above lo (snd a) \<and> beneath hi (snd a)"
  let ?ov = "filter (\<lambda>e. ?P (fst e)) ov"
  have "\<exists>rows. merge_scan V t s hi lo ?ov = map Inr rows \<and> rows_between (patched vs ?ov t s) lo hi rows"
  proof (rule merge_scan_rows[OF V ids])
    show "check_bound hi = Inr ()" "check_bound lo = Inr ()" using b(1,2) by (simp_all only: long_bound_iff)
    show "sorted_map ?ov" using ov(1) by (rule sorted_map_filter)
    show "\<forall>e \<in> set ?ov. fst (fst e) = t \<and> length (snd (fst e)) \<le> MAX_KEY_BYTES
       \<and> above lo (snd (fst e)) \<and> beneath hi (snd (fst e))"
      using ov(2) unfolding keys_bounded_def set_filter by blast
  qed
  then obtain rows where rows: "merge_scan V t s hi lo ?ov = map Inr rows" "rows_between (patched vs ?ov t s) lo hi rows"
    by blast
  have "rows_between (patched vs ov t s) lo hi rows"
    using rows(2) by (rule rows_between_cong)
      (simp add: patched_def sorted_map_filter_map_of[OF ov(1), where P = ?P])
  moreover have "db_scan V t s lo hi ov = Inr (map Inr rows)"
    unfolding db_scan_def valid_id_def bt_range_overlay[OF ids(2)] using ids b rows(1) by simp
  ultimately show ?thesis by blast
qed

lemma db_get_patched:
  assumes "view_of V ents" "stored ents vs" "t \<noteq> 0" "t \<noteq> - 1" "s \<noteq> - 1" "keys_bounded ov"
  shows "db_get V t k s ov = Inr (Some v) \<longleftrightarrow> patched vs ov t s k = Some v"
proof (cases "map_of ov (t, k)")
  case None
  show ?thesis
  proof (cases "length k \<le> MAX_KEY_BYTES")
    case True
    with None show ?thesis
      by (simp add: db_get_def patched_def mvcc_get_visible[OF assms(1-5) True])
  next
    case False
    with None show ?thesis
      using visible_key_length[OF assms(2), of t k s v] assms(3-5)
      by (auto simp: db_get_def patched_def mvcc_get_def mvcc_read_value_def check_key_def result_simps)
  qed
next
  case (Some v)
  then show ?thesis by (simp add: db_get_def patched_def)
qed

text \<open>
  C33: A range read of a transaction yields, in ascending key order and without errors,
  exactly the rows of the interval that a point read of the same transaction finds: stored
  rows at the sequence, replaced, added or hidden by the overlay of its own writes.
\<close>

theorem overlay_scan:
  assumes "view_of V ents" "stored ents vs"
    and "t \<noteq> 0" "t \<noteq> - 1" "s \<noteq> - 1"
    and "\<not> long_bound lo" "\<not> long_bound hi" "ordered_bounds lo hi"
    and "sorted_map ov" "keys_bounded ov"
  shows "\<exists>rows. db_scan V t s lo hi ov = Inr (map Inr rows) \<and> ascending (map fst rows)
    \<and> (\<forall>k v. (k, v) \<in> set rows \<longleftrightarrow> above lo k \<and> beneath hi k \<and> db_get V t k s ov = Inr (Some v))"
proof -
  obtain rows where rows: "db_scan V t s lo hi ov = Inr (map Inr rows)"
    "rows_between (patched vs ov t s) lo hi rows"
    using db_scan_rows[OF assms] by blast
  then have asc: "ascending (map fst rows)" by (simp add: rows_between_def)
  then have "distinct (map fst rows)" by (simp add: ascending_iff strict_sorted_iff)
  then have "(k, v) \<in> set rows \<longleftrightarrow> map_of rows k = Some v" for k v by (simp add: map_of_eq_Some_iff)
  then have "(k, v) \<in> set rows \<longleftrightarrow> above lo k \<and> beneath hi k \<and> db_get V t k s ov = Inr (Some v)" for k v
    using rows(2) db_get_patched[OF assms(1-5,10), of k v] by (auto simp: rows_between_def)
  with rows(1) asc show ?thesis by blast
qed

theorem overlay_scan_witness:
  "\<exists>rows. db_scan (list_view example_entries) 1 4 (Included [7]) Unbounded [((1, [7]), Some [1]), ((1, [7, 0]), None)]
      = Inr (map Inr rows) \<and> ascending (map fst rows)
    \<and> (\<forall>k v. (k, v) \<in> set rows \<longleftrightarrow> above (Included [7]) k \<and> beneath Unbounded k \<and>
         db_get (list_view example_entries) 1 k 4 [((1, [7]), Some [1]), ((1, [7, 0]), None)] = Inr (Some v))"
  by (rule overlay_scan[OF example_view example_stored])
    (simp_all add: long_bound_def ordered_bounds_def keys_bounded_def MAX_KEY_BYTES_def less_prod_def')

subsection \<open>Schemas of table descriptors\<close>

lemma append_same_length: "length u = length v \<Longrightarrow> u @ r = v @ s \<longleftrightarrow> u = v \<and> r = s"
  by (rule append_eq_append_conv) simp

lemma encode_fields_inject:
  assumes "\<And>a b r s. a \<in> set as \<Longrightarrow> type_counts_ok a \<Longrightarrow> type_counts_ok b \<Longrightarrow>
      encode_type a @ r = encode_type b @ s \<Longrightarrow> a = b \<and> r = s"
    and "length as = length bs" "list_all type_counts_ok as" "list_all type_counts_ok bs"
    and "concat (map encode_type as) @ r = concat (map encode_type bs) @ s"
  shows "as = bs \<and> r = s"
  using assms(2,1,3-)
proof (induction as bs arbitrary: r s rule: list_induct2)
  case (Cons x xs y ys)
  have "x = y \<and> concat (map encode_type xs) @ r = concat (map encode_type ys) @ s"
    by (rule Cons.prems(1)) (use Cons.prems(2-) in simp_all)
  moreover from this have "xs = ys \<and> r = s"
    by (intro Cons.IH Cons.prems(1)) (use Cons.prems(2-) in simp_all)
  ultimately show ?case by simp
qed simp

lemma of_nat_u16_inject: "m < 2 ^ 16 \<Longrightarrow> n < 2 ^ 16 \<Longrightarrow> of_nat m = (of_nat n :: u16) \<longleftrightarrow> m = n"
  by (simp add: word_of_nat_eq_iff take_bit_nat_eq_self)

lemma encode_type_inject:
  "type_counts_ok a \<Longrightarrow> type_counts_ok b \<Longrightarrow> encode_type a @ r = encode_type b @ s \<Longrightarrow> a = b \<and> r = s"
proof (induction a arbitrary: b r s)
  case (TTuple as)
  obtain bs where b: "b = TTuple bs"
    using TTuple.prems(3) by (cases b) simp_all
  have "length as = length bs \<and> concat (map encode_type as) @ r = concat (map encode_type bs) @ s"
    using TTuple.prems by (simp add: b append_same_length of_nat_u16_inject)
  then have "as = bs \<and> r = s"
    using TTuple.prems(1,2) by (intro encode_fields_inject TTuple.IH) (simp_all add: b)
  then show ?case by (simp add: b)
next
  case (TRows m k v)
  obtain m' k' v' where b: "b = TRows m' k' v'"
    using TRows.prems(3) by (cases b) simp_all
  have m: "m = m'" and e: "encode_type k @ encode_type v @ r = encode_type k' @ encode_type v' @ s"
    using TRows.prems(3) by (simp_all add: b append_same_length)
  have "k = k' \<and> encode_type v @ r = encode_type v' @ s"
    by (rule TRows.IH(1)) (use TRows.prems(1,2) e in \<open>simp_all add: b\<close>)
  moreover from this have "v = v' \<and> r = s"
    by (intro TRows.IH(2)) (use TRows.prems(1,2) in \<open>simp_all add: b\<close>)
  ultimately show ?case using m by (simp add: b)
qed (case_tac b; simp add: append_same_length)+

lemma descriptor_inject: "descriptor a = Inr bs \<Longrightarrow> descriptor b = Inr bs \<Longrightarrow> a = b"
proof -
  assume "descriptor a = Inr bs" "descriptor b = Inr bs"
  then have "type_counts_ok a" "type_counts_ok b" "encode_type a @ [] = encode_type b @ []"
    unfolding descriptor_def by (metis Inl_Inr_False Inr_inject append_same_length)+
  then show "a = b" using encode_type_inject by blast
qed

lemma schema_node_valid:
  assumes "wf_at depth ty" "storable ty"
  shows "depth \<le> 16 \<and> (\<exists>n inner. schema_node ty depth = Inr (n, inner)
    \<and> n + sum_list (map (\<lambda>p. length (encode_type (fst p))) inner) = length (encode_type ty)
    \<and> (\<forall>p \<in> set inner. wf_at (snd p) (fst p) \<and> storable (fst p)))"
proof (cases ty)
  case (TTuple tys)
  have "sum_list (map (\<lambda>p. length (encode_type (fst p))) (rev (map (\<lambda>ty. (ty, depth + 1)) tys))) =
      sum_list (map (length \<circ> encode_type) tys)"
    by (simp add: rev_map[symmetric] comp_def sum_list_rev flip: rev_map)
  then show ?thesis
    using assms TTuple by (simp add: schema_node_def length_concat comp_def list_all_iff)
qed (use assms in \<open>auto simp: schema_node_def\<close>)

lemma bounded_type_valid:
  "(\<forall>p \<in> set pending. wf_at (snd p) (fst p) \<and> storable (fst p)) \<Longrightarrow>
   bs + sum_list (map (\<lambda>p. length (encode_type (fst p))) pending) \<le> 65536 \<Longrightarrow>
   bounded_type pending bs = Inr ()"
proof (induction pending bs rule: bounded_type.induct)
  case (2 ty depth pending bs)
  obtain n inner where node: "schema_node ty depth = Inr (n, inner)" "depth \<le> 16"
    "n + sum_list (map (\<lambda>p. length (encode_type (fst p))) inner) = length (encode_type ty)"
    "\<forall>p \<in> set inner. wf_at (snd p) (fst p) \<and> storable (fst p)"
    using schema_node_valid[of depth ty] "2.prems"(1) by auto
  have "\<not> bs + n > 65536" using "2.prems"(2) node(3) by simp
  moreover have "bounded_type (inner @ pending) (bs + n) = Inr ()"
    using "2.prems" node by (intro "2.IH"[OF _ node(1) refl]) auto
  ultimately show ?case
    using node(1,2) by (simp add: bounded_type.simps(2))
qed simp

lemma schema_node_counts:
  "schema_node ty depth = Inr (n, inner) \<Longrightarrow> (\<forall>p \<in> set inner. type_counts_ok (fst p)) \<Longrightarrow> type_counts_ok ty"
  by (cases ty) (auto simp: schema_node_def list_all_iff split: if_splits)

lemma bounded_type_counts:
  "bounded_type pending bs = Inr u \<Longrightarrow> \<forall>p \<in> set pending. type_counts_ok (fst p)"
proof (induction pending bs rule: bounded_type.induct)
  case (2 ty depth pending bs)
  then obtain n inner where node: "schema_node ty depth = Inr (n, inner)" "\<not> 16 < depth" "\<not> 65536 < bs + n"
    "bounded_type (inner @ pending) (bs + n) = Inr u"
    by (auto simp: bounded_type.simps(2) result_simps split: if_splits)
  then have "\<forall>p \<in> set (inner @ pending). type_counts_ok (fst p)"
    by (intro "2.IH"[OF _ node(1) refl]) auto
  with schema_node_counts[OF node(1)] show ?case by auto
qed simp

lemma table_schema_iff:
  "is_ok (table_schema bs key) \<longleftrightarrow>
     (\<exists>ty. type_decode bs = Inr ty \<and> storable ty \<and> (key \<longrightarrow> max_key_bytes ty \<le> 1024))"
proof (cases "schema_decode bs")
  case (Inl e)
  then have "\<nexists>ty. type_decode bs = Inr ty \<and> storable ty"
    using schema_decode_exact[of bs] by (metis Inl_Inr_False)
  with Inl show ?thesis by (auto simp: table_schema_def)
next
  case (Inr s)
  then show ?thesis
    using schema_decode_exact[of bs s] by (auto simp: table_schema_def schema_of_def not_less)
qed

definition table_type :: "bool \<Rightarrow> vm_type \<Rightarrow> bool" where
  "table_type key ty \<longleftrightarrow> wf_type ty \<and> storable ty \<and> (key \<longrightarrow> max_key_bytes ty \<le> 1024)"

lemma schema_descriptor_iff:
  "schema_descriptor ty key = Inr bs \<longleftrightarrow> table_type key ty \<and> descriptor ty = Inr bs"
proof
  assume "schema_descriptor ty key = Inr bs"
  then have d: "descriptor ty = Inr bs" and "is_ok (table_schema bs key)"
    by (auto simp: schema_descriptor_def result_simps is_ok_iff)
  then obtain ty' where ty': "type_decode bs = Inr ty'" "storable ty'" "key \<longrightarrow> max_key_bytes ty' \<le> 1024"
    by (auto simp: table_schema_iff)
  then have "wf_type ty'" "descriptor ty' = Inr bs" by (auto simp: type_decode_exact)
  with d ty' show "table_type key ty \<and> descriptor ty = Inr bs"
    using descriptor_inject[of ty bs ty'] by (auto simp: table_type_def)
next
  assume R: "table_type key ty \<and> descriptor ty = Inr bs"
  then have "is_ok (table_schema bs key)"
    by (auto simp: table_schema_iff table_type_def type_decode_exact)
  moreover have "bounded_type [(ty, 1)] 2 = Inr ()"
    using R by (intro bounded_type_valid) (auto simp: table_type_def wf_type_def MAX_DESCRIPTOR_BYTES_def)
  ultimately show "schema_descriptor ty key = Inr bs"
    using R by (auto simp: schema_descriptor_def is_ok_iff)
qed

subsection \<open>The catalogue codec\<close>

lemma take_blob_iff:
  "take_blob e input = Inr (bs, rest) \<longleftrightarrow> (\<exists>out. put_blob d bs = Inr out \<and> input = out @ rest)"
  by (metis take_put_blob put_take_blob)

lemma table_bytes_iff:
  "is_ok (table_schema bs key) \<and> type_decode bs = Inr ty \<longleftrightarrow> schema_descriptor ty key = Inr bs"
  by (auto simp: table_schema_iff schema_descriptor_iff type_decode_exact table_type_def
      dest: descriptor_inject)

definition valid_catalogue :: "u64 \<Rightarrow> catalogue_entry \<Rightarrow> bool" where
  "valid_catalogue i version \<longleftrightarrow> t_id (cv_table version) = i \<and> utf8_ok (cv_name version)"

lemma u16_le_1: "u16_le 1 = [1, 0]"
  by (simp add: codec_eval)

lemma decode_catalogue_exact:
  "decode_catalogue i bs = Inr version \<longleftrightarrow> valid_catalogue i version \<and> encode_catalogue version = Inr bs"
proof
  assume "decode_catalogue i bs = Inr version"
  then obtain state name key val input input' input'' where 1: "valid_id i = Inr ()"
    "bs = u16_le 1 @ state # 0 # input" "state = (if cv_live version then 1 else 2)"
    "take_blob cat_error input = Inr (name, input')" "utf8_ok name" "valid_name name = Inr ()"
    "take_blob cat_error input' = Inr (key, input'')" "is_ok (table_schema key True)"
    "type_decode key = Inr (t_key (cv_table version))"
    "take_blob cat_error input'' = Inr (val, [])" "is_ok (table_schema val False)"
    "type_decode val = Inr (t_value (cv_table version))"
    "cv_name version = name" "t_id (cv_table version) = i"
    by (auto simp: decode_catalogue_def result_simps is_ok_iff split: if_splits)
  have d: "schema_descriptor (t_key (cv_table version)) True = Inr key"
    "schema_descriptor (t_value (cv_table version)) False = Inr val"
    using 1 by (simp_all flip: table_bytes_iff)
  obtain n k v where p: "put_blob (Invalid m_blob_long) name = Inr n" "input = n @ input'"
    "put_blob (Invalid m_blob_long) key = Inr k" "input' = k @ input''"
    "put_blob (Invalid m_blob_long) val = Inr v" "input'' = v @ []"
    using 1(4,7,10) put_take_blob by metis
  show "valid_catalogue i version \<and> encode_catalogue version = Inr bs"
    using 1 d p by (simp add: encode_catalogue_def valid_catalogue_def u16_le_1)
next
  assume R: "valid_catalogue i version \<and> encode_catalogue version = Inr bs"
  then obtain key val n k v where 1: "valid_id i = Inr ()" "valid_name (cv_name version) = Inr ()"
    "schema_descriptor (t_key (cv_table version)) True = Inr key"
    "schema_descriptor (t_value (cv_table version)) False = Inr val"
    "put_blob (Invalid m_blob_long) (cv_name version) = Inr n"
    "put_blob (Invalid m_blob_long) key = Inr k" "put_blob (Invalid m_blob_long) val = Inr v"
    "bs = u16_le 1 @ (if cv_live version then 1 else 2) # 0 # n @ k @ v @ []"
    by (auto simp: encode_catalogue_def valid_catalogue_def result_simps u16_le_1)
  have d: "is_ok (table_schema key True)" "type_decode key = Inr (t_key (cv_table version))"
    "is_ok (table_schema val False)" "type_decode val = Inr (t_value (cv_table version))"
    using 1(3,4) by (simp_all flip: table_bytes_iff)
  then obtain s s' where t: "table_schema key True = Inr s" "table_schema val False = Inr s'"
    by (auto simp: is_ok_iff)
  note b = take_put_blob[OF 1(5)] take_put_blob[OF 1(6)] take_put_blob[OF 1(7)]
  have u: "take_u16 cat_error (u16_le 1 @ r) = Inr (1, r)" "take_u8 cat_error (x # r) = Inr (x, r)" for x r
    by (simp_all add: result_simps)
  show "decode_catalogue i bs = Inr version"
    unfolding decode_catalogue_def 1(8) using R 1(1,2) d t
    by (simp add: b u valid_catalogue_def del: append_Nil2)
qed

interpretation catalogue_codec: exact_codec encode_catalogue "decode_catalogue i" "valid_catalogue i" for i
  by unfold_locales (rule decode_catalogue_exact)

subsection \<open>Catalogue lookups\<close>

text \<open>The contents of the catalogue tree: versions of tables, by table and effective sequence.\<close>

type_synonym cat_row = "u64 \<times> u64 \<times> catalogue_entry"

definition cat_valid :: "cat_row \<Rightarrow> bool" where
  "cat_valid row = (case row of (i, s, c) \<Rightarrow>
     i \<noteq> 0 \<and> i \<noteq> - 1 \<and> s \<noteq> - 1 \<and> i \<le> s \<and> valid_catalogue i c \<and> is_ok (encode_catalogue c))"

definition cat_entry :: "cat_row \<Rightarrow> entry" where
  "cat_entry row = (case row of (i, s, c) \<Rightarrow> (catalogue_key i s, projr (encode_catalogue c)))"

definition cat_stored :: "(tree_id \<Rightarrow> entry list) \<Rightarrow> cat_row list \<Rightarrow> bool" where
  "cat_stored ents cs \<longleftrightarrow> ents Catalogue = map cat_entry cs \<and> (\<forall>row \<in> set cs. cat_valid row)"

definition cat_newest :: "cat_row set \<Rightarrow> u64 \<Rightarrow> u64 \<Rightarrow> catalogue_entry \<Rightarrow> bool" where
  "cat_newest cs i s c \<longleftrightarrow> (\<exists>e \<le> s. (i, e, c) \<in> cs \<and> (\<forall>e' c'. (i, e', c') \<in> cs \<longrightarrow> e' \<le> s \<longrightarrow> e' \<le> e))"

definition cat_less :: "cat_row \<Rightarrow> cat_row \<Rightarrow> bool" where
  "cat_less a b \<longleftrightarrow> fst a < fst b \<or> (fst a = fst b \<and> fst (snd b) < fst (snd a))"

lemma catalogue_key_less:
  "catalogue_key i s < catalogue_key i' s' \<longleftrightarrow> i < i' \<or> (i = i' \<and> s' < s)"
  by (simp add: catalogue_key_def lex_append_same_length not_less_iff)

lemma catalogue_key_inject: "catalogue_key i s = catalogue_key i' s' \<longleftrightarrow> i = i' \<and> s = s'"
proof
  assume "catalogue_key i s = catalogue_key i' s'"
  then have "\<not> catalogue_key i s < catalogue_key i' s'" "\<not> catalogue_key i' s' < catalogue_key i s" by auto
  then show "i = i' \<and> s = s'" unfolding catalogue_key_less by auto
qed simp

lemma catalogue_key_table: "catalogue_key i s < u64_be i' \<longleftrightarrow> i < i'"
  using lex_append_same_length[of "u64_be i" "u64_be i'" "u64_be (NOT s)" "[]"]
  by (simp add: catalogue_key_def)

lemma decode_catalogue_key_iff:
  "decode_catalogue_key bs = Inr (i, s) \<longleftrightarrow>
     bs = catalogue_key i s \<and> i \<noteq> 0 \<and> i \<noteq> - 1 \<and> s \<noteq> - 1 \<and> i \<le> s"
proof
  assume "decode_catalogue_key bs = Inr (i, s)"
  then have 1: "length bs = 16" "i = u64_of_be (take 8 bs)" "s = NOT (u64_of_be (drop 8 bs))"
    "i \<noteq> 0" "i \<noteq> - 1" "s \<noteq> - 1" "i \<le> s"
    by (auto simp: decode_catalogue_key_def Let_def valid_id_def result_simps split: if_splits)
  have "catalogue_key i s = take 8 bs @ drop 8 bs"
    unfolding catalogue_key_def using 1(1) by (simp only: 1(2,3) bit.double_compl) (simp add: codec_simps)
  with 1 show "bs = catalogue_key i s \<and> i \<noteq> 0 \<and> i \<noteq> - 1 \<and> s \<noteq> - 1 \<and> i \<le> s" by simp
next
  assume R: "bs = catalogue_key i s \<and> i \<noteq> 0 \<and> i \<noteq> - 1 \<and> s \<noteq> - 1 \<and> i \<le> s"
  then have "s \<noteq> 0" by auto
  with R show "decode_catalogue_key bs = Inr (i, s)"
    by (simp add: decode_catalogue_key_def catalogue_key_def valid_id_def not_less)
qed

lemma cat_sorted:
  assumes "view_of V ents" "cat_stored ents cs"
  shows "sorted_wrt cat_less cs"
proof -
  have "sorted_wrt (<) (map fst (ents Catalogue))"
    using assms(1) by (simp add: view_of_def)
  moreover have "fst (cat_entry a) < fst (cat_entry b) \<longleftrightarrow> cat_less a b" for a b
    by (cases a; cases b) (simp add: cat_entry_def cat_less_def catalogue_key_less)
  ultimately show ?thesis
    using assms(2) by (simp add: cat_stored_def sorted_wrt_map)
qed

lemma cat_entry_decodes:
  assumes "cat_valid (i, s, c)"
  shows "decode_catalogue_key (fst (cat_entry (i, s, c))) = Inr (i, s)"
    "decode_catalogue i (snd (cat_entry (i, s, c))) = Inr c"
  using assms by (auto simp: cat_valid_def cat_entry_def decode_catalogue_key_iff decode_catalogue_exact is_ok_iff)

lemma first_is_newest:
  assumes "sorted_wrt cat_less cs" "filter (\<lambda>r. fst r = i \<and> fst (snd r) \<le> s) cs = (i', e, c) # rest"
  shows "i' = i \<and> e \<le> s \<and> (i, e, c) \<in> set cs \<and> (\<forall>c'. cat_newest (set cs) i s c' \<longleftrightarrow> c' = c)"
proof -
  let ?P = "\<lambda>r :: cat_row. fst r = i \<and> fst (snd r) \<le> s"
  have sorted: "sorted_wrt cat_less ((i', e, c) # rest)"
    using sorted_wrt_filter[OF assms(1), of ?P] assms(2) by simp
  have "(i', e, c) \<in> set (filter ?P cs)" by (simp add: assms(2))
  then have i: "i' = i" "e \<le> s" "(i, e, c) \<in> set cs" by auto
  have top: "e' < e \<or> (e' = e \<and> c' = c)" if "(i, e', c') \<in> set cs" "e' \<le> s" for e' c'
  proof -
    have "(i, e', c') \<in> set (filter ?P cs)" using that by simp
    then have "(i, e', c') = (i', e, c) \<or> (i, e', c') \<in> set rest" by (simp add: assms(2))
    then show ?thesis using sorted i by (auto simp: cat_less_def)
  qed
  then have "cat_newest (set cs) i s c' \<longleftrightarrow> c' = c" for c'
    using i by (auto simp: cat_newest_def dest: top intro!: exI[of _ e]) (force dest: top)+
  with i show ?thesis by blast
qed

lemma catalogue_version_newest:
  assumes V: "view_of V ents" "cat_stored ents cs" and ids: "i \<noteq> 0" "i \<noteq> - 1" "s \<noteq> - 1"
  shows "\<exists>r. catalogue_version V i s = Inr r \<and> (\<forall>c. cat_newest (set cs) i s c \<longleftrightarrow> r = Some c)"
proof -
  let ?P = "\<lambda>r :: cat_row. fst r = i \<and> fst (snd r) \<le> s"
  have range: "catalogue_key i s \<le> catalogue_key j e \<and> catalogue_key j e < u64_be (i + 1) \<longleftrightarrow> j = i \<and> e \<le> s" for j e
    using table_succ_less[OF ids(2), of j]
    by (auto simp: le_less catalogue_key_less catalogue_key_inject catalogue_key_table)
  have fst_entry: "fst (cat_entry r) = catalogue_key (fst r) (fst (snd r))" for r
    by (cases r) (simp add: cat_entry_def)
  have scan: "vw_scan V Catalogue (Included (catalogue_key i s)) (Excluded (u64_be (i + 1))) =
      Inr (map (\<lambda>r. Inr (cat_entry r)) (filter ?P cs))"
  proof (subst view_of_scan[OF V(1)])
    show "short_bound (Included (catalogue_key i s))" "short_bound (Excluded (u64_be (i + 1)))"
      by (simp_all add: catalogue_key_def MAX_STATE_KEY_BYTES_def)
  qed (use V(2) in \<open>simp add: cat_stored_def filter_map comp_def fst_entry range\<close>)
  show ?thesis
  proof (cases "filter ?P cs")
    case Nil
    then have "\<not> cat_newest (set cs) i s c" for c
      by (auto simp: cat_newest_def filter_empty_conv)
    then show ?thesis
      using ids by (simp add: catalogue_version_def scan Nil valid_id_def)
  next
    case (Cons r rest)
    obtain i' e c where r: "r = (i', e, c)" by (cases r)
    note first = first_is_newest[OF cat_sorted[OF V] Cons[unfolded r]]
    then have "cat_valid (i, e, c)" using V(2) by (auto simp: cat_stored_def)
    note dec = cat_entry_decodes[OF this]
    obtain key val where entry: "cat_entry (i, e, c) = (key, val)" by force
    have "catalogue_version V i s = Inr (Some c)"
      using ids first dec entry by (simp add: catalogue_version_def scan Cons r valid_id_def not_less)
    then show ?thesis using first by auto
  qed
qed


subsection \<open>Names\<close>

definition name_held :: "cat_row set \<Rightarrow> u64 \<Rightarrow> bytes \<Rightarrow> u64 \<Rightarrow> bool" where
  "name_held cs s name i \<longleftrightarrow> (\<exists>c. cat_newest cs i s c \<and> cv_live c \<and> cv_name c = name)"

lemma cat_newest_Cons:
  assumes "\<forall>r \<in> cs. cat_less (i, e, c) r" "e \<le> s"
  shows "cat_newest (insert (i, e, c) cs) j s d \<longleftrightarrow> (if j = i then d = c else cat_newest cs j s d)"
proof (cases "j = i")
  case True
  have "e' < e" if "(i, e', c') \<in> cs" for e' c'
    using assms(1) that by (auto simp: cat_less_def)
  with True assms(2) show ?thesis
    by (auto simp: cat_newest_def intro!: exI[of _ e]) force+
next
  case False
  then show ?thesis by (auto simp: cat_newest_def)
qed

lemma cat_newest_later:
  "s < e \<Longrightarrow> cat_newest (insert (i, e, c) cs) j s d \<longleftrightarrow> cat_newest cs j s d"
  by (auto simp: cat_newest_def) (meson leD)+

lemma ex_if_iff: "(\<exists>j. (if j = i then A else B j) \<and> C j \<and> D j) \<longleftrightarrow> (A \<and> C i \<and> D i) \<or> (\<exists>j. j \<noteq> i \<and> B j \<and> C j \<and> D j)"
  by metis

lemma name_used_held:
  assumes "sorted_wrt cat_less cs" "\<forall>r \<in> set cs. cat_valid r"
    and "\<And>i. selected = Some i \<Longrightarrow> \<forall>r \<in> set cs. i \<le> fst r"
  shows "name_used (map (\<lambda>r. Inr (cat_entry r)) cs) s name except selected =
    Inr (\<exists>i. name_held (set cs) s name i \<and> except \<noteq> Some i \<and> selected \<noteq> Some i)"
  using assms
proof (induction cs arbitrary: selected)
  case Nil
  then show ?case by (simp add: name_held_def cat_newest_def)
next
  case (Cons r cs)
  obtain i e c where r: "r = (i, e, c)" by (cases r)
  have below: "\<forall>r \<in> set cs. cat_less (i, e, c) r" and sorted: "sorted_wrt cat_less cs" and valid: "cat_valid (i, e, c)"
    "\<forall>r \<in> set cs. cat_valid r"
    using Cons.prems by (auto simp: r)
  obtain key val where entry: "cat_entry (i, e, c) = (key, val)" by force
  have dec: "decode_catalogue_key key = Inr (i, e)" "decode_catalogue i val = Inr c"
    using cat_entry_decodes[OF valid(1)] by (simp_all add: entry)
  have skip: "name_used (map (\<lambda>r. Inr (cat_entry r)) cs) s name except selected =
    Inr (\<exists>i. name_held (set cs) s name i \<and> except \<noteq> Some i \<and> selected \<noteq> Some i)"
    using Cons.prems(3) by (intro Cons.IH sorted valid) auto
  have ge: "\<forall>r \<in> set cs. i \<le> fst r"
    using below by (auto simp: cat_less_def)
  have next_sel: "name_used (map (\<lambda>r. Inr (cat_entry r)) cs) s name except (Some i) =
    Inr (\<exists>j. name_held (set cs) s name j \<and> except \<noteq> Some j \<and> Some i \<noteq> Some j)"
    using ge by (intro Cons.IH sorted valid) auto
  show ?case
  proof (cases "s < e")
    case True
    then have "name_held (set (r # cs)) s name j \<longleftrightarrow> name_held (set cs) s name j" for j
      by (simp add: name_held_def r cat_newest_later)
    with True skip dec show ?thesis by (simp add: r entry)
  next
    case False
    then have held: "name_held (set (r # cs)) s name j \<longleftrightarrow>
        (if j = i then cv_live c \<and> cv_name c = name else name_held (set cs) s name j)" for j
      using cat_newest_Cons[OF below, of s j] by (auto simp: name_held_def r)
    have other: "\<not> name_held (set cs) s name j" if "selected = Some j" "j \<noteq> i" for j
    proof -
      have "j < i" using Cons.prems(3)[OF that(1)] that(2) by (auto simp: r)
      then show ?thesis using ge by (force simp: name_held_def cat_newest_def)
    qed
    have L: "name_used (map (\<lambda>r. Inr (cat_entry r)) (r # cs)) s name except selected =
        (if selected = Some i then Inr (\<exists>i. name_held (set cs) s name i \<and> except \<noteq> Some i \<and> selected \<noteq> Some i)
         else Inr ((cv_live c \<and> cv_name c = name \<and> except \<noteq> Some i) \<or>
           (\<exists>j. name_held (set cs) s name j \<and> except \<noteq> Some j \<and> Some i \<noteq> Some j)))"
      using False skip next_sel dec by (simp add: r entry) blast
    show ?thesis
    proof (cases "selected = Some i")
      case True
      then show ?thesis unfolding L held by simp (metis option.inject)
    next
      case False
      then have "(cv_live c \<and> cv_name c = name \<and> except \<noteq> Some i) \<or>
          (\<exists>j. name_held (set cs) s name j \<and> except \<noteq> Some j \<and> Some i \<noteq> Some j) \<longleftrightarrow>
          (\<exists>j. (if j = i then cv_live c \<and> cv_name c = name else name_held (set cs) s name j) \<and>
            except \<noteq> Some j \<and> selected \<noteq> Some j)"
        unfolding ex_if_iff using other by (metis option.inject)
      with False show ?thesis unfolding L held by simp
    qed
  qed
qed

lemma name_in_use_held:
  assumes V: "view_of V ents" "cat_stored ents cs"
  shows "name_in_use V s name except = Inr (\<exists>i. name_held (set cs) s name i \<and> except \<noteq> Some i)"
proof -
  have "vw_scan V Catalogue Unbounded Unbounded = Inr (map (\<lambda>r. Inr (cat_entry r)) cs)"
    using V(2) by (subst view_of_scan[OF V(1)]) (simp_all add: cat_stored_def comp_def)
  moreover have "name_used (map (\<lambda>r. Inr (cat_entry r)) cs) s name except None =
    Inr (\<exists>i. name_held (set cs) s name i \<and> except \<noteq> Some i \<and> None \<noteq> Some i)"
    using V(2) by (intro name_used_held cat_sorted[OF V]) (auto simp: cat_stored_def)
  ultimately show ?thesis by (simp add: name_in_use_def)
qed


text \<open>No two tables that are live at a sequence have the same name.\<close>

definition names_unique :: "cat_row set \<Rightarrow> u64 \<Rightarrow> bool" where
  "names_unique cs s \<longleftrightarrow> (\<forall>name i j. name_held cs s name i \<longrightarrow> name_held cs s name j \<longrightarrow> i = j)"

lemma cat_newest_all:
  "\<forall>r \<in> cs. fst (snd r) \<le> s \<Longrightarrow> cat_newest cs j s d \<longleftrightarrow>
     (\<exists>e. (j, e, d) \<in> cs \<and> (\<forall>e' c'. (j, e', c') \<in> cs \<longrightarrow> e' \<le> e))"
  by (auto simp: cat_newest_def Ball_def)

lemma cat_newest_insert:
  assumes "\<forall>r \<in> cs. fst (snd r) < e"
  shows "cat_newest (insert (i, e, c) cs) j e d \<longleftrightarrow> (if j = i then d = c else cat_newest cs j (e - 1) d)"
proof (cases "j = i")
  case True
  with assms show ?thesis by (auto simp: cat_newest_def intro!: exI[of _ e])
next
  case False
  have "x \<le> e - 1" if "x < e" for x
  proof -
    have "e \<noteq> 0" "unat x < unat e" using that by (auto simp: word_less_nat_alt)
    then show ?thesis by (simp add: word_le_nat_alt word_less_nat_alt unat_minus_one)
  qed
  then have "\<forall>r \<in> cs. fst (snd r) \<le> e - 1" "\<forall>r \<in> cs. fst (snd r) \<le> e"
    using assms by (auto simp: less_imp_le)
  then have "cat_newest cs j (e - 1) d \<longleftrightarrow> cat_newest cs j e d"
    by (simp add: cat_newest_all)
  with False show ?thesis by (auto simp: cat_newest_def)
qed


lemma name_held_insert:
  "\<forall>r \<in> cs. fst (snd r) < e \<Longrightarrow> name_held (insert (i, e, c) cs) e name j \<longleftrightarrow>
     (if j = i then cv_live c \<and> cv_name c = name else name_held cs (e - 1) name j)"
  by (auto simp: name_held_def cat_newest_insert)

lemma names_unique_insert:
  "\<forall>r \<in> cs. fst (snd r) < e \<Longrightarrow> names_unique cs (e - 1) \<Longrightarrow>
   (cv_live c \<Longrightarrow> \<forall>j. name_held cs (e - 1) (cv_name c) j \<longrightarrow> j = i) \<Longrightarrow>
   names_unique (insert (i, e, c) cs) e"
  unfolding names_unique_def name_held_insert by metis

lemma live_version_Some [simp]: "live_version v = Some c \<longleftrightarrow> v = Some c \<and> cv_live c"
  by (auto simp: live_version_def split: option.splits if_splits)

lemma catalogue_success_Inr:
  assumes "catalogue_success c ty v = Inr out" "utf8_ok (cv_name c)"
  shows "\<exists>bs. out = Success ty v [ECatalogue (t_id (cv_table c)) bs] \<and> decode_catalogue (t_id (cv_table c)) bs = Inr c"
  using assms by (auto simp: catalogue_success_def result_simps decode_catalogue_exact valid_catalogue_def)

definition operation_utf8 :: "catalogue_operation \<Rightarrow> bool" where
  "operation_utf8 op = (case op of CCreate name _ _ \<Rightarrow> utf8_ok name | CRename _ name \<Rightarrow> utf8_ok name | CDrop _ \<Rightarrow> True)"

definition installs :: "outcome \<Rightarrow> u64 \<Rightarrow> catalogue_entry \<Rightarrow> bool" where
  "installs out i c \<longleftrightarrow> (\<exists>ty v bs. out = Success ty v [ECatalogue i bs] \<and> decode_catalogue i bs = Inr c)"

lemma live_lookup:
  assumes "view_of V ents" "cat_stored ents cs" "i \<noteq> 0" "i \<noteq> - 1" "s \<noteq> - 1"
    "catalogue_version V i s = Inr r" "live_version r = Some c"
  shows "cat_newest (set cs) i s c \<and> cv_live c \<and> t_id (cv_table c) = i \<and> utf8_ok (cv_name c)"
proof -
  have "r = Some c" "cv_live c" using assms(7) by simp_all
  then have n: "cat_newest (set cs) i s c"
    using catalogue_version_newest[OF assms(1-5)] assms(6) by auto
  then obtain e where "(i, e, c) \<in> set cs" by (auto simp: cat_newest_def)
  then have "cat_valid (i, e, c)" using assms(2) by (auto simp: cat_stored_def)
  with n \<open>cv_live c\<close> show ?thesis by (auto simp: cat_valid_def valid_catalogue_def)
qed

text \<open>What an outcome may install: a version whose name no other live table holds.\<close>

definition keeps_names :: "cat_row set \<Rightarrow> u64 \<Rightarrow> outcome \<Rightarrow> bool" where
  "keeps_names cs s out \<longleftrightarrow> (\<exists>reason. out = administrative_abort reason) \<or>
     (\<exists>i c. installs out i c \<and> (cv_live c \<longrightarrow> (\<forall>j. name_held cs s (cv_name c) j \<longrightarrow> j = i)))"

lemma keeps_names_abort [simp]: "keeps_names cs s (administrative_abort reason)"
  by (auto simp: keeps_names_def)

lemma keeps_names_success:
  assumes "catalogue_success c ty v = Inr out" "utf8_ok (cv_name c)"
    and "cv_live c \<Longrightarrow> \<forall>j. name_held cs s (cv_name c) j \<longrightarrow> j = t_id (cv_table c)"
  shows "keeps_names cs s out"
  using catalogue_success_Inr[OF assms(1,2)] assms(3) unfolding keeps_names_def installs_def by blast

lemma create_keeps_names:
  assumes V: "view_of V ents" "cat_stored ents cs" and op: "utf8_ok name"
    and run: "catalogue V e (CCreate name key val) = Inr out"
  shows "keeps_names (set cs) (e - 1) out"
proof -
  let ?c = "\<lparr>cv_live = True, cv_name = name, cv_table = \<lparr>t_id = e, t_key = key, t_value = val\<rparr>\<rparr>"
  let ?used = "\<exists>i. name_held (set cs) (e - 1) name i \<and> None \<noteq> Some i"
  have "(if ?used then Inr (administrative_abort NameInUse) else catalogue_success ?c TU64 (VU64 e)) = Inr out"
    using run unfolding catalogue_def name_in_use_held[OF V] catalogue_operation.case
    by (simp only: rbind.simps rbind_eq_Inr) blast
  then consider "out = administrative_abort NameInUse"
    | "catalogue_success ?c TU64 (VU64 e) = Inr out" "\<not> ?used"
    by (cases ?used) (simp_all only: if_True if_False sum.inject, auto)
  then show ?thesis
  proof cases
    case 2
    show ?thesis by (rule keeps_names_success[OF 2(1)]) (use op 2(2) in simp_all)
  qed simp
qed

lemma request_ids:
  assumes "catalogue V e op = Inr out"
  shows "e - 1 \<noteq> - 1" "op = CRename table name \<Longrightarrow> table \<noteq> 0 \<and> table \<noteq> - 1"
    "op = CDrop table \<Longrightarrow> table \<noteq> 0 \<and> table \<noteq> - 1"
proof -
  have "valid_id e = Inr ()" "validate_catalogue op = Inr ()"
    using assms unfolding catalogue_def by (simp_all only: rbind_eq_Inr) auto
  then show "e - 1 \<noteq> - 1" "op = CRename table name \<Longrightarrow> table \<noteq> 0 \<and> table \<noteq> - 1"
    "op = CDrop table \<Longrightarrow> table \<noteq> 0 \<and> table \<noteq> - 1"
    by (auto simp: valid_id_def validate_catalogue_def rbind_eq_Inr split: if_splits)
qed

lemma rename_keeps_names:
  assumes V: "view_of V ents" "cat_stored ents cs" and op: "utf8_ok name"
    and run: "catalogue V e (CRename table name) = Inr out"
  shows "keeps_names (set cs) (e - 1) out"
proof -
  let ?used = "\<exists>i. name_held (set cs) (e - 1) name i \<and> Some table \<noteq> Some i"
  obtain r where r: "catalogue_version V table (e - 1) = Inr r"
    "(case live_version r of None \<Rightarrow> Inr (administrative_abort TableNotLive) | Some c \<Rightarrow>
        if ?used then Inr (administrative_abort NameInUse) else catalogue_success (c\<lparr>cv_name := name\<rparr>) TUnit VUnit) = Inr out"
    using run unfolding catalogue_def name_in_use_held[OF V] catalogue_operation.case
    by (simp only: rbind.simps rbind_eq_Inr) blast
  show ?thesis
  proof (cases "live_version r")
    case (Some c)
    note look = live_lookup[OF V _ _ request_ids(1)[OF run] r(1) Some]
    show ?thesis
    proof (cases ?used)
      case False
      with r(2) Some have "catalogue_success (c\<lparr>cv_name := name\<rparr>) TUnit VUnit = Inr out"
        by (simp only: option.case if_False)
      then show ?thesis
        using False look request_ids(2)[OF run refl] op by (intro keeps_names_success) auto
    qed (use r(2) Some in \<open>simp only: option.case if_True sum.inject, auto\<close>)
  qed (use r(2) in auto)
qed

lemma drop_keeps_names:
  assumes V: "view_of V ents" "cat_stored ents cs"
    and run: "catalogue V e (CDrop table) = Inr out"
  shows "keeps_names (set cs) (e - 1) out"
proof -
  obtain r where r: "catalogue_version V table (e - 1) = Inr r"
    "(case live_version r of None \<Rightarrow> Inr (administrative_abort TableNotLive) | Some c \<Rightarrow>
        catalogue_success (c\<lparr>cv_live := False\<rparr>) TUnit VUnit) = Inr out"
    using run unfolding catalogue_def catalogue_operation.case
    by (simp only: rbind.simps rbind_eq_Inr) blast
  show ?thesis
  proof (cases "live_version r")
    case (Some c)
    with r(2) have "catalogue_success (c\<lparr>cv_live := False\<rparr>) TUnit VUnit = Inr out"
      by (simp only: option.case)
    then show ?thesis
      by (rule keeps_names_success)
        (use live_lookup[OF V _ _ request_ids(1)[OF run] r(1) Some] request_ids(3)[OF run refl] in auto)
  qed (use r(2) in auto)
qed

lemma catalogue_keeps_names:
  assumes "view_of V ents" "cat_stored ents cs" "operation_utf8 op" "catalogue V e op = Inr out"
  shows "keeps_names (set cs) (e - 1) out"
  using assms
  by (cases op) (auto simp: operation_utf8_def intro: create_keeps_names rename_keeps_names drop_keeps_names)

subsection \<open>Properties of the catalogue\<close>

text \<open>
  C36: \<^verbatim>\<open>decode_catalogue\<close> accepts exactly the encodings of valid catalogue versions of the
  given table: decoding inverts \<^verbatim>\<open>encode_catalogue\<close> and every accepted value is canonical.
\<close>

theorem catalogue_codec_exact:
  "decode_catalogue i bs = Inr version \<longleftrightarrow>
     t_id (cv_table version) = i \<and> utf8_ok (cv_name version) \<and> encode_catalogue version = Inr bs"
  by (simp add: decode_catalogue_exact valid_catalogue_def)

text \<open>
  C35: A catalogue lookup returns the newest version of the table at or below the sequence
  (a dropped one included), and nothing when the table did not exist yet.
\<close>

theorem catalogue_lookup:
  assumes "view_of V ents" "cat_stored ents cs" "i \<noteq> 0" "i \<noteq> - 1" "s \<noteq> - 1"
  shows "\<exists>r. catalogue_version V i s = Inr r \<and> (\<forall>c. cat_newest (set cs) i s c \<longleftrightarrow> r = Some c)"
  by (rule catalogue_version_newest[OF assms])

text \<open>
  C34: Administrative records keep table names unique: whatever catalogue version a create,
  rename or drop at a sequence installs, no two tables live after it share a name. A record
  that installs nothing is an administrative abort.
\<close>

theorem catalogue_names_unique:
  assumes "view_of V ents" "cat_stored ents cs" "operation_utf8 op"
    and "\<forall>r \<in> set cs. fst (snd r) < e" "names_unique (set cs) (e - 1)"
    and "catalogue V e op = Inr out"
  shows "(\<exists>reason. out = administrative_abort reason) \<or>
    (\<exists>i c. installs out i c \<and> names_unique (insert (i, e, c) (set cs)) e)"
  using catalogue_keeps_names[OF assms(1-3,6)] names_unique_insert[OF assms(4,5)]
  unfolding keeps_names_def by blast


theorem catalogue_lookup_witness:
  "\<exists>r. catalogue_version (list_view example_entries) 1 5 = Inr r
    \<and> (\<forall>c. cat_newest (set []) 1 5 c \<longleftrightarrow> r = Some c)"
  by (rule catalogue_lookup[OF example_view]) (simp_all add: cat_stored_def example_entries_def)

lemma example_create:
  "\<exists>out. catalogue (list_view example_entries) 5 (CCreate [97] TU64 TBoolean) = Inr out"
proof -
  have t: "table_type True TU64" "table_type False TBoolean"
    by (simp_all add: table_type_def wf_type_def MAX_DESCRIPTOR_BYTES_def)
  then obtain k v where kv: "schema_descriptor TU64 True = Inr k" "schema_descriptor TBoolean False = Inr v"
    by (auto simp: schema_descriptor_iff descriptor_def)
  then have "length k \<le> 3" "length v \<le> 3"
    by (auto simp: schema_descriptor_iff descriptor_def)
  moreover have "cat_stored example_entries []"
    by (simp add: cat_stored_def example_entries_def)
  ultimately show ?thesis
    using kv name_in_use_held[OF example_view, of "[]"]
    by (simp add: catalogue_def valid_id_def validate_catalogue_def valid_name_def name_held_def
        cat_newest_def catalogue_success_def encode_catalogue_def put_blob_def)
qed

theorem catalogue_names_unique_witness:
  "\<exists>out. catalogue (list_view example_entries) 5 (CCreate [97] TU64 TBoolean) = Inr out \<and>
    ((\<exists>reason. out = administrative_abort reason) \<or>
     (\<exists>i c. installs out i c \<and> names_unique (insert (i, 5, c) (set [])) 5))"
proof -
  obtain out where out: "catalogue (list_view example_entries) 5 (CCreate [97] TU64 TBoolean) = Inr out"
    using example_create by blast
  have "(\<exists>reason. out = administrative_abort reason) \<or>
     (\<exists>i c. installs out i c \<and> names_unique (insert (i, 5, c) (set [])) 5)"
    by (rule catalogue_names_unique[OF example_view _ _ _ _ out])
      (simp_all add: cat_stored_def example_entries_def operation_utf8_def names_unique_def name_held_def
        cat_newest_def utf8_ok.simps utf8_width_def)
  with out show ?thesis by blast
qed

end
