(* ===== verification/Blop_Access.thy ===== *)
theory Blop_Access
  imports Blop_Database
begin

unbundle bit_operations_syntax

section \<open>Access manifests (\<^verbatim>\<open>src/vm/access.rs\<close>)\<close>

text \<open>
  The declared reads and writes of a transaction: scopes (a point or a whole table) with
  modes, normalised so that a table scope suppresses the points of the same mode. Shown: the
  codec is exact, normalising keeps what is granted and yields the one canonical form, two
  scopes overlap exactly when they share an address, and a validated manifest grants
  whatever the required one grants.
\<close>

subsection \<open>Data\<close>

datatype scope = STable u64 | SKey u64 bytes

datatype access_mode = AMRead | AMWrite | AMReadWrite

type_synonym manifest = "(scope \<times> access_mode) list"
type_synonym order_key = "u64 \<times> byte \<times> bytes"

definition m_access_mode :: string where "m_access_mode = ''invalid access mode''"
definition m_scope_table :: string where "m_scope_table = ''invalid access scope table or key length''"
definition m_manifest_count :: string where "m_manifest_count = ''invalid manifest entry count''"
definition m_scope_fields :: string where "m_scope_fields = ''invalid access scope fields''"
definition m_manifest_key :: string where "m_manifest_key = ''manifest key exceeds 1024 bytes''"
definition m_scope_kind :: string where "m_scope_kind = ''invalid access scope kind or table key''"
definition m_scope_order :: string where "m_scope_order = ''manifest scopes are not strictly ordered''"
definition m_scope_suppressed :: string where
  "m_scope_suppressed = ''manifest point mode is suppressed by table''"
definition m_manifest_trailing :: string where "m_manifest_trailing = ''trailing access manifest bytes''"
definition m_manifest_claim :: string where "m_manifest_claim = ''manifest_scopes exceeds claim''"
definition m_manifest_truncated :: string where "m_manifest_truncated = ''truncated access manifest''"
definition m_manifest_table :: string where
  "m_manifest_table = ''manifest table is not in program table array''"
definition m_manifest_canonical :: string where
  "m_manifest_canonical = ''manifest key is not canonical under historical schema''"
definition m_manifest_cover :: string where
  "m_manifest_cover = ''manifest does not cover program accesses''"

fun scope_table :: "scope \<Rightarrow> u64" where
  "scope_table (STable t) = t"
| "scope_table (SKey t _) = t"

fun order_key :: "scope \<Rightarrow> order_key" where
  "order_key (STable t) = (t, 0, [])"
| "order_key (SKey t key) = (t, 1, key)"

fun mode_bits :: "access_mode \<Rightarrow> byte" where
  "mode_bits AMRead = 1"
| "mode_bits AMWrite = 2"
| "mode_bits AMReadWrite = 3"

definition mode_of :: "byte \<Rightarrow> vm_error + access_mode" where
  "mode_of bits =
     (if bits = 1 then Inr AMRead else if bits = 2 then Inr AMWrite
      else if bits = 3 then Inr AMReadWrite else Inl (Invalid m_access_mode))"

subsection \<open>Normalisation\<close>

fun combine :: "(scope \<times> access_mode) list \<Rightarrow> (order_key \<times> byte) list \<Rightarrow> vm_error + (order_key \<times> byte) list" where
  "combine [] combined = Inr combined"
| "combine ((s, mo) # entries) combined =
     (let (table, kind, key) = order_key s in
      if table = 0 \<or> table = - 1 \<or> length key > 1024 then Inl (Invalid m_scope_table) else
      let bits = (case map_of combined (table, kind, key) of None \<Rightarrow> 0 | Some b \<Rightarrow> b) OR mode_bits mo in
      combine entries (bt_insert (table, kind, key) bits combined))"

fun suppress :: "(order_key \<times> byte) list \<Rightarrow> u64 \<times> byte \<Rightarrow> vm_error + manifest" where
  "suppress [] table_modes = Inr []"
| "suppress (((table, kind, key), bits) # combined) table_modes =
     (let table_modes = (if fst table_modes \<noteq> table then (table, 0) else table_modes);
          (s, bits, table_modes) =
            (if kind = 0 then (STable table, bits, (fst table_modes, bits))
             else (SKey table key, bits AND NOT (snd table_modes), table_modes)) in
      if bits \<noteq> 0 then
        rbind (mode_of bits) (\<lambda>mo.
        rbind (suppress combined table_modes) (\<lambda>entries. Inr ((s, mo) # entries)))
      else suppress combined table_modes)"

definition manifest_new :: "(scope \<times> access_mode) list \<Rightarrow> vm_error + manifest" where
  "manifest_new entries =
     rbind (combine entries []) (\<lambda>combined. suppress combined (0, 0))"

definition manifest_reads :: "manifest \<Rightarrow> scope list" where
  "manifest_reads m = map fst (filter (\<lambda>(_, mo). mode_bits mo AND 1 \<noteq> 0) m)"

definition manifest_writes :: "manifest \<Rightarrow> scope list" where
  "manifest_writes m = map fst (filter (\<lambda>(_, mo). mode_bits mo AND 2 \<noteq> 0) m)"

subsection \<open>Codec\<close>

definition check_count :: "manifest \<Rightarrow> u64 \<Rightarrow> vm_error + unit" where
  "check_count m limit =
     (if length m > min (unat limit) 16384 then Inl (Invalid m_manifest_claim) else Inr ())"

definition entry_bytes :: "scope \<times> access_mode \<Rightarrow> bytes" where
  "entry_bytes e =
     (let (table, kind, key) = order_key (fst e) in
      u64_le table @ [kind, mode_bits (snd e), 0, 0] @ u32_le (of_nat (length key)) @ key)"

definition manifest_encode :: "manifest \<Rightarrow> vm_error + bytes" where
  "manifest_encode m =
     rbind (check_count m 16384) (\<lambda>_.
     Inr (u32_le (of_nat (length m)) @ concat (map entry_bytes m)))"

abbreviation manifest_error :: vm_error where "manifest_error \<equiv> Invalid m_manifest_truncated"

definition read_scope :: "bytes \<Rightarrow> vm_error + (scope \<times> access_mode) \<times> bytes" where
  "read_scope input =
     rbind (take_u64 manifest_error input) (\<lambda>(table, input).
     rbind (take_bytes manifest_error 4 input) (\<lambda>(fs, input).
     rbind (mode_of (fs ! 1)) (\<lambda>mo.
     if table = 0 \<or> table = - 1 \<or> drop 2 fs \<noteq> [0, 0] then Inl (Invalid m_scope_fields) else
     rbind (take_u32 manifest_error input) (\<lambda>(len, input).
     if unat len > 1024 then Inl (Invalid m_manifest_key) else
     rbind (take_bytes manifest_error (unat len) input) (\<lambda>(key, input).
     rbind (if fs ! 0 = 0 \<and> key = [] then Inr (STable table)
            else if fs ! 0 = 1 then Inr (SKey table key)
            else Inl (Invalid m_scope_kind)) (\<lambda>s.
     Inr ((s, mo), input)))))))"

fun read_entries :: "nat \<Rightarrow> manifest \<Rightarrow> u64 \<times> byte \<Rightarrow> bytes \<Rightarrow> vm_error + manifest \<times> bytes" where
  "read_entries 0 entries table_modes input = Inr (entries, input)"
| "read_entries (Suc n) entries table_modes input =
     rbind (read_scope input) (\<lambda>((s, mo), input).
     if entries \<noteq> [] \<and> order_key (fst (last entries)) \<ge> order_key s then Inl (Invalid m_scope_order) else
     let table_modes = (if fst table_modes \<noteq> scope_table s then (scope_table s, 0) else table_modes) in
     rbind (case s of
         STable _ \<Rightarrow> Inr (fst table_modes, mode_bits mo)
       | SKey _ _ \<Rightarrow>
           if snd table_modes AND mode_bits mo \<noteq> 0 then Inl (Invalid m_scope_suppressed)
           else Inr table_modes) (\<lambda>table_modes.
     read_entries n (entries @ [(s, mo)]) table_modes input))"

definition manifest_decode :: "bytes \<Rightarrow> vm_error + manifest" where
  "manifest_decode bs =
     rbind (take_u32 manifest_error bs) (\<lambda>(count, input).
     if unat count > 16384 \<or> unat count > length input div 16 then Inl (Invalid m_manifest_count) else
     rbind (read_entries (unat count) [] (0, 0) input) (\<lambda>(entries, input).
     if input \<noteq> [] then Inl (Invalid m_manifest_trailing) else Inr entries))"

subsection \<open>Overlap and validation\<close>

definition overlap :: "scope \<Rightarrow> scope \<Rightarrow> bool" where
  "overlap left right =
     (if scope_table left \<noteq> scope_table right then False
      else case (left, right) of (SKey _ a, SKey _ b) \<Rightarrow> a = b | _ \<Rightarrow> True)"

text \<open>
  The table array is in strictly ascending order of table IDs, so the binary search finds
  the one table of an ID, if there is one.
\<close>

fun table_by_id :: "tbl list \<Rightarrow> u64 \<Rightarrow> tbl option" where
  "table_by_id [] i = None"
| "table_by_id (t # ts) i = (if t_id t = i then Some t else table_by_id ts i)"

fun declare_scopes :: "tbl list \<Rightarrow> manifest \<Rightarrow> (order_key \<Rightarrow> byte option) \<Rightarrow> vm_error + (order_key \<Rightarrow> byte option)" where
  "declare_scopes tables [] declarations = Inr declarations"
| "declare_scopes tables ((s, mo) # entries) declarations =
     rbind (ok_or (Invalid m_manifest_table) (table_by_id tables (scope_table s))) (\<lambda>table.
     rbind (case s of
         STable _ \<Rightarrow> Inr ()
       | SKey _ key \<Rightarrow>
           rbind (descriptor (t_key table)) (\<lambda>bs.
           rbind (map_err Storage (schema_decode bs)) (\<lambda>schema.
           rbind (map_err (\<lambda>_. Invalid m_manifest_canonical) (decode_key schema key)) (\<lambda>_. Inr ())))) (\<lambda>_.
     declare_scopes tables entries (declarations(order_key s \<mapsto> mode_bits mo))))"

definition declared :: "(order_key \<Rightarrow> byte option) \<Rightarrow> order_key \<Rightarrow> byte" where
  "declared declarations k = (case declarations k of None \<Rightarrow> 0 | Some b \<Rightarrow> b)"

definition validate :: "manifest \<Rightarrow> manifest \<Rightarrow> tbl list \<Rightarrow> policy \<Rightarrow> vm_error + unit" where
  "validate m required tables claims =
     rbind (check_count m (claims ! 6)) (\<lambda>_.
     rbind (declare_scopes tables m (\<lambda>_. None)) (\<lambda>declarations.
     if \<forall>(s, mo) \<in> set required.
       (declared declarations (scope_table s, 0, []) OR declared declarations (order_key s)) AND mode_bits mo = mode_bits mo
     then Inr () else Inl (Invalid m_manifest_cover)))"

subsection \<open>What a manifest grants\<close>

fun in_scope :: "scope \<Rightarrow> address \<Rightarrow> bool" where
  "in_scope (STable t) a \<longleftrightarrow> fst a = t"
| "in_scope (SKey t key) a \<longleftrightarrow> a = (t, key)"

text \<open>The address may be accessed in the mode bit \<open>w\<close>: 1 for reads, 2 for writes.\<close>

definition grants :: "(scope \<times> access_mode) list \<Rightarrow> byte \<Rightarrow> address \<Rightarrow> bool" where
  "grants m w a \<longleftrightarrow> (\<exists>(s, mo) \<in> set m. in_scope s a \<and> mode_bits mo AND w \<noteq> 0)"

definition is_mode_bit :: "byte \<Rightarrow> bool" where
  "is_mode_bit w \<longleftrightarrow> w = 1 \<or> w = 2"

definition small :: "byte \<Rightarrow> bool" where
  "small b \<longleftrightarrow> b = 0 \<or> b = 1 \<or> b = 2 \<or> b = 3"

lemma small_ops [simp]: "small 0" "small (mode_bits mo)"
  "small a \<Longrightarrow> small b \<Longrightarrow> small (a OR b)" "small a \<Longrightarrow> small b \<Longrightarrow> small (a AND NOT b)"
  by (simp add: small_def) (cases mo; auto simp: small_def)+

lemma mode_of_bits [simp]: "mode_of (mode_bits mo) = Inr mo"
  by (cases mo) (auto simp: mode_of_def)

lemma mode_of_Inr [result_simps]: "mode_of b = Inr mo \<longleftrightarrow> b = mode_bits mo"
  by (cases mo) (auto simp: mode_of_def)

lemma small_mode: "small b \<Longrightarrow> b \<noteq> 0 \<Longrightarrow> \<exists>mo. b = mode_bits mo"
  unfolding small_def by (metis mode_bits.simps)

lemma mode_bits_nonzero [simp]: "mode_bits mo \<noteq> 0"
  by (cases mo) auto

lemma mode_bits_inject [simp]: "mode_bits a = mode_bits b \<longleftrightarrow> a = b"
  by (metis mode_of_bits sum.inject(2))

lemma or_and_nonzero: "(a OR b) AND w \<noteq> 0 \<longleftrightarrow> a AND w \<noteq> 0 \<or> b AND w \<noteq> (0 :: byte)"
  by (simp add: bit.conj_disj_distrib2 or_eq_0_iff)

lemma and_not_nonzero:
  "small a \<Longrightarrow> small b \<Longrightarrow> is_mode_bit w \<Longrightarrow> (a AND NOT b) AND w \<noteq> 0 \<longleftrightarrow> a AND w \<noteq> 0 \<and> b AND w = 0"
  unfolding small_def is_mode_bit_def by (elim disjE) simp_all

lemma grants_simps [simp]:
  "\<not> grants [] w a" "grants ((s, mo) # m) w a \<longleftrightarrow> (in_scope s a \<and> mode_bits mo AND w \<noteq> 0) \<or> grants m w a"
  by (auto simp: grants_def)

subsection \<open>Overlap\<close>

lemma overlap_iff: "overlap s s' \<longleftrightarrow> (\<exists>a. in_scope s a \<and> in_scope s' a)"
  by (cases s; cases s') (auto simp: overlap_def)

subsection \<open>Normal form\<close>

definition scope_valid :: "scope \<Rightarrow> bool" where
  "scope_valid s \<longleftrightarrow> scope_table s \<noteq> 0 \<and> scope_table s \<noteq> - 1 \<and> length (snd (snd (order_key s))) \<le> 1024"

definition manifest_ok :: "manifest \<Rightarrow> bool" where
  "manifest_ok m \<longleftrightarrow> sorted_wrt (<) (map (order_key \<circ> fst) m) \<and> (\<forall>e \<in> set m. scope_valid (fst e)) \<and>
     (\<forall>t mo k mo'. (STable t, mo) \<in> set m \<longrightarrow> (SKey t k, mo') \<in> set m \<longrightarrow> mode_bits mo AND mode_bits mo' = 0)"

definition bits_at :: "(order_key \<times> byte) list \<Rightarrow> order_key \<Rightarrow> byte" where
  "bits_at c k = (case map_of c k of None \<Rightarrow> 0 | Some b \<Rightarrow> b)"

definition combined_ok :: "(order_key \<times> byte) list \<Rightarrow> bool" where
  "combined_ok c \<longleftrightarrow> sorted_map c \<and>
     (\<forall>(k, b) \<in> set c. small b \<and> b \<noteq> 0 \<and> (\<exists>s. k = order_key s \<and> scope_valid s))"

lemma combined_ok_Cons: "combined_ok (e # c) \<Longrightarrow> combined_ok c"
  by (auto simp: combined_ok_def)

lemma order_key_inject [simp]: "order_key s = order_key s' \<longleftrightarrow> s = s'"
  by (cases s; cases s') auto

lemma bits_at_small: "combined_ok c \<Longrightarrow> small (bits_at c k)"
  by (auto simp: combined_ok_def bits_at_def split: option.splits dest!: map_of_SomeD)

lemma combine_ok:
  assumes "combine es c = Inr c'" "combined_ok c"
  shows "combined_ok c' \<and>
    (\<forall>s w. bits_at c' (order_key s) AND w \<noteq> 0 \<longleftrightarrow>
       bits_at c (order_key s) AND w \<noteq> 0 \<or> (\<exists>mo. (s, mo) \<in> set es \<and> mode_bits mo AND w \<noteq> 0))"
  using assms
proof (induction es arbitrary: c)
  case (Cons e es)
  obtain s mo where e: "e = (s, mo)" by (cases e)
  let ?b = "bits_at c (order_key s) OR mode_bits mo"
  let ?c = "bt_insert (order_key s) ?b c"
  obtain t kd key where ok: "order_key s = (t, kd, key)" by (cases "order_key s")
  have valid: "scope_valid s" and rec: "combine es ?c = Inr c'"
    using Cons.prems(1) ok by (cases s; auto simp: e scope_valid_def bits_at_def Let_def split: if_splits)+
  let ?P = "\<lambda>(k, b). small b \<and> b \<noteq> 0 \<and> (\<exists>s. k = order_key s \<and> scope_valid s)"
  have "?b \<noteq> 0" using or_eq_0_iff[of "bits_at c (order_key s)" "mode_bits mo"] by simp
  moreover have "small ?b" by (intro small_ops(3) bits_at_small Cons.prems(2)) simp
  ultimately have "\<forall>e \<in> insert (order_key s, ?b) (set c). ?P e"
    using valid Cons.prems(2) by (simp add: combined_ok_def)
  then have "\<forall>e \<in> set ?c. ?P e" using set_bt_insert[of "order_key s" ?b c] by blast
  then have c: "combined_ok ?c"
    using Cons.prems(2) unfolding combined_ok_def by (intro conjI bt_insert_sorted) auto
  note IH = Cons.IH[OF rec c]
  have at: "bits_at ?c (order_key s') = (if s' = s then ?b else bits_at c (order_key s'))" for s'
    using Cons.prems(2) by (simp add: bits_at_def map_of_bt_insert combined_ok_def)
  have "bits_at ?c (order_key s') AND w \<noteq> 0 \<longleftrightarrow>
      bits_at c (order_key s') AND w \<noteq> 0 \<or> (s' = s \<and> mode_bits mo AND w \<noteq> 0)" for s' w
    unfolding at using or_and_nonzero[of "bits_at c (order_key s)" "mode_bits mo" w] by auto
  with IH show ?case unfolding e set_simps by blast
qed simp

text \<open>
  The loop of the second phase, with the modes \<open>b\<close> of the table scope of table \<open>t0\<close> already
  met: every entry of \<open>c\<close> lies after that scope.
\<close>

definition grants_after :: "(order_key \<times> byte) list \<Rightarrow> u64 \<times> byte \<Rightarrow> byte \<Rightarrow> address \<Rightarrow> bool" where
  "grants_after c tm w a \<longleftrightarrow> bits_at c (fst a, 0, []) AND w \<noteq> 0 \<or>
     (bits_at c (fst a, 1, snd a) AND w \<noteq> 0 \<and> \<not> (fst a = fst tm \<and> snd tm AND w \<noteq> 0))"

lemma bits_at_Cons: "bits_at ((k, b) # c) k' = (if k' = k then b else bits_at c k')"
  by (simp add: bits_at_def)

lemma bits_at_absent: "\<forall>e \<in> set c. k < fst e \<Longrightarrow> bits_at c k = 0"
  by (simp add: bits_at_def map_of_absent)

definition suppressed :: "(order_key \<times> byte) list \<Rightarrow> u64 \<times> byte \<Rightarrow> manifest \<Rightarrow> bool" where
  "suppressed c tm es \<longleftrightarrow>
    (\<forall>w a. is_mode_bit w \<longrightarrow> grants es w a \<longleftrightarrow> grants_after c tm w a) \<and>
    sorted_wrt (<) (map (order_key \<circ> fst) es) \<and>
    (\<forall>(s, mo) \<in> set es. scope_valid s \<and> order_key s \<in> fst ` set c) \<and>
    (\<forall>t k mo. (SKey t k, mo) \<in> set es \<longrightarrow> t = fst tm \<longrightarrow> snd tm AND mode_bits mo = 0) \<and>
    (\<forall>t mo k mo'. (STable t, mo) \<in> set es \<longrightarrow> (SKey t k, mo') \<in> set es \<longrightarrow> mode_bits mo AND mode_bits mo' = 0)"

lemma suppressedD:
  assumes "suppressed c tm es"
  shows "is_mode_bit w \<Longrightarrow> grants es w a \<longleftrightarrow> grants_after c tm w a"
    and "sorted_wrt (<) (map (order_key \<circ> fst) es)"
    and "e \<in> set es \<Longrightarrow> scope_valid (fst e) \<and> order_key (fst e) \<in> fst ` set c"
    and "(SKey (fst tm) k, mo) \<in> set es \<Longrightarrow> snd tm AND mode_bits mo = 0"
    and "(STable t, mo) \<in> set es \<Longrightarrow> (SKey t k, mo') \<in> set es \<Longrightarrow> mode_bits mo AND mode_bits mo' = 0"
proof -
  show "is_mode_bit w \<Longrightarrow> grants es w a \<longleftrightarrow> grants_after c tm w a" "sorted_wrt (<) (map (order_key \<circ> fst) es)"
    using assms unfolding suppressed_def by blast+
  show "e \<in> set es \<Longrightarrow> scope_valid (fst e) \<and> order_key (fst e) \<in> fst ` set c"
    using assms unfolding suppressed_def by (cases e) auto
  show "(SKey (fst tm) k, mo) \<in> set es \<Longrightarrow> snd tm AND mode_bits mo = 0"
    using assms unfolding suppressed_def by blast
  show "(STable t, mo) \<in> set es \<Longrightarrow> (SKey t k, mo') \<in> set es \<Longrightarrow> mode_bits mo AND mode_bits mo' = 0"
    using assms unfolding suppressed_def by blast
qed

lemma suppressedI:
  assumes "\<And>w a. is_mode_bit w \<Longrightarrow> grants es w a \<longleftrightarrow> grants_after c tm w a"
    and "sorted_wrt (<) (map (order_key \<circ> fst) es)"
    and "\<And>e. e \<in> set es \<Longrightarrow> scope_valid (fst e) \<and> order_key (fst e) \<in> fst ` set c"
    and "\<And>k mo. (SKey (fst tm) k, mo) \<in> set es \<Longrightarrow> snd tm AND mode_bits mo = 0"
    and "\<And>t k mo mo'. (STable t, mo) \<in> set es \<Longrightarrow> (SKey t k, mo') \<in> set es \<Longrightarrow> mode_bits mo AND mode_bits mo' = 0"
  shows "suppressed c tm es"
  unfolding suppressed_def using assms by (intro conjI allI ballI impI; force)

lemma bits_at_before: "\<forall>e \<in> set c. k < fst e \<Longrightarrow> k' \<le> k \<Longrightarrow> bits_at c k' = 0"
  by (rule bits_at_absent) (auto intro: le_less_trans)

lemma suppress_table:
  assumes later: "\<forall>e \<in> set c. (t, 0, []) < fst e" and t: "fst tm < t"
    and valid: "scope_valid (STable t)" and ih: "suppressed c (t, mode_bits mo) es"
  shows "suppressed (((t, 0, []), mode_bits mo) # c) tm ((STable t, mo) # es)"
proof (rule suppressedI)
  have zero: "bits_at c (t, 0, []) = 0" by (rule bits_at_absent) (rule later)
  have before: "bits_at c (fst tm, 1, k) = 0" "bits_at c (fst tm, 0, k) = 0" for k
    by (rule bits_at_before[OF later], use t in \<open>simp add: less_eq_prod_def\<close>)+
  show "grants ((STable t, mo) # es) w a \<longleftrightarrow> grants_after (((t, 0, []), mode_bits mo) # c) tm w a"
    if "is_mode_bit w" for w a
    using suppressedD(1)[OF ih that, of a] zero t before
    by (cases "fst a = t"; cases "fst a = fst tm") (auto simp: grants_after_def bits_at_Cons)
  have after: "order_key (fst e) > (t, 0, [])" if "e \<in> set es" for e
    using suppressedD(3)[OF ih that] later by auto
  then show "sorted_wrt (<) (map (order_key \<circ> fst) ((STable t, mo) # es))"
    using suppressedD(2)[OF ih] by simp
  show "scope_valid (fst e) \<and> order_key (fst e) \<in> fst ` set (((t, 0, []), mode_bits mo) # c)"
    if "e \<in> set ((STable t, mo) # es)" for e
    using suppressedD(3)[OF ih, of e] that valid by auto
  show "snd tm AND mode_bits mo' = 0" if "(SKey (fst tm) k, mo') \<in> set ((STable t, mo) # es)" for k mo'
    using after[of "(SKey (fst tm) k, mo')"] t that by (auto simp: less_prod_def)
  show "mode_bits mo1 AND mode_bits mo2 = 0"
    if "(STable t', mo1) \<in> set ((STable t, mo) # es)" "(SKey t' k, mo2) \<in> set ((STable t, mo) # es)" for t' k mo1 mo2
    using that suppressedD(4)[OF ih, of k mo2] suppressedD(5)[OF ih, of t' mo1 k mo2] by auto
qed

lemma suppress_key:
  assumes later: "\<forall>e \<in> set c. (t, 1, k) < fst e" and t: "fst tm \<le> t" and small: "small b" "small (snd tm)"
    and valid: "scope_valid (SKey t k)"
    and tm': "tm' = (if fst tm \<noteq> t then (t, 0) else tm)" and ih: "suppressed c tm' es"
    and es': "es' = (if b AND NOT (snd tm') = 0 then es else (SKey t k, mo) # es)"
    and mo: "b AND NOT (snd tm') \<noteq> 0 \<Longrightarrow> mode_bits mo = b AND NOT (snd tm')"
  shows "suppressed (((t, 1, k), b) # c) tm es'"
proof (rule suppressedI)
  have small': "small (snd tm')" using small by (simp add: tm')
  have fst_tm': "fst tm' = t" by (simp add: tm')
  have zero: "bits_at c (t, 0, l) = 0" "bits_at c (t, 1, k) = 0" for l
    by (rule bits_at_before[OF later], simp add: less_eq_prod_def)+
  have before: "bits_at c (fst tm, 1, l) = 0" "bits_at c (fst tm, 0, l) = 0" if "fst tm \<noteq> t" for l
    using t that by (auto intro!: bits_at_before[OF later] simp: less_eq_prod_def less_le)
  have masked: "snd tm' AND mode_bits mo = 0" if "b AND NOT (snd tm') \<noteq> 0"
    using mo[OF that] by (simp add: ac_simps)
  have new: "grants es' w a \<longleftrightarrow> grants es w a \<or> (a = (t, k) \<and> b AND w \<noteq> 0 \<and> snd tm' AND w = 0)"
    if w: "is_mode_bit w" for w a
    using and_not_nonzero[OF small(1) small' w] mo by (auto simp: es')
  show "grants es' w a \<longleftrightarrow> grants_after (((t, 1, k), b) # c) tm w a" if w: "is_mode_bit w" for w a
    using suppressedD(1)[OF ih w, of a] new[OF w, of a] zero before tm'
    by (cases "fst a = t"; cases "fst a = fst tm"; cases a) (auto simp: grants_after_def bits_at_Cons)
  have after: "order_key (fst e) > (t, 1, k)" if "e \<in> set es" for e
    using suppressedD(3)[OF ih that] later by auto
  then show "sorted_wrt (<) (map (order_key \<circ> fst) es')"
    using suppressedD(2)[OF ih] by (simp add: es')
  show "scope_valid (fst e) \<and> order_key (fst e) \<in> fst ` set (((t, 1, k), b) # c)" if "e \<in> set es'" for e
    using suppressedD(3)[OF ih, of e] that valid by (auto simp: es' split: if_splits)
  show "snd tm AND mode_bits mo' = 0" if key: "(SKey (fst tm) l, mo') \<in> set es'" for l mo'
  proof (cases "fst tm = t")
    case True
    then show ?thesis using key masked suppressedD(4)[OF ih, of l mo'] by (auto simp: es' tm' split: if_splits)
  next
    case False
    then show ?thesis using key t after[of "(SKey (fst tm) l, mo')"] by (auto simp: es' less_prod_def split: if_splits)
  qed
  have "(STable t, mo1) \<notin> set es" for mo1 using after[of "(STable t, mo1)"] by (auto simp: less_prod_def)
  then show "mode_bits mo1 AND mode_bits mo2 = 0"
    if "(STable t', mo1) \<in> set es'" "(SKey t' l, mo2) \<in> set es'" for t' l mo1 mo2
    using that suppressedD(5)[OF ih, of t' mo1 l mo2] by (auto simp: es' split: if_splits)
qed

lemma suppress_ok:
  assumes "combined_ok c" "small (snd tm)" "\<forall>e \<in> set c. (fst tm, 0, []) < fst e"
  shows "\<exists>es. suppress c tm = Inr es \<and> suppressed c tm es"
  using assms
proof (induction c arbitrary: tm)
  case Nil
  then show ?case by (simp add: suppressed_def grants_after_def bits_at_def)
next
  case (Cons e c)
  obtain s b where e: "e = (order_key s, b)" "small b" "b \<noteq> 0" "scope_valid s"
    using Cons.prems(1) by (auto simp: combined_ok_def)
  have c: "combined_ok c" using Cons.prems(1) by (rule combined_ok_Cons)
  have later: "\<forall>e' \<in> set c. order_key s < fst e'" using Cons.prems(1) by (auto simp: combined_ok_def e)
  show ?case
  proof (cases s)
    case (STable t)
    obtain mo where mo: "b = mode_bits mo" using small_mode[OF e(2,3)] by blast
    have t: "fst tm < t" using Cons.prems(3) e STable by (auto simp: less_prod_def)
    obtain es where es: "suppress c (t, b) = Inr es" "suppressed c (t, b) es"
      using Cons.IH[OF c, of "(t, b)"] later e STable by auto
    then show ?thesis
      using suppress_table[of c t tm mo es] later t e mo STable by (auto simp: Let_def)
  next
    case (SKey t k)
    let ?tm = "if fst tm \<noteq> t then (t, 0) else tm"
    have t: "fst tm \<le> t" using Cons.prems(3) e SKey by (auto simp: less_prod_def)
    have "\<forall>e \<in> set c. (fst ?tm, 0, []) < fst e"
    proof -
      have "(t, 0, []) < (t, 1 :: byte, k)" by (simp add: less_prod_def)
      then have "(t, 0, []) < fst e" if "e \<in> set c" for e
        using later that SKey less_trans[of "(t, 0, [])" "(t, 1, k)" "fst e"] by simp
      then show ?thesis by simp
    qed
    moreover have small': "small (snd ?tm)" using Cons.prems(2) by simp
    ultimately obtain es where es: "suppress c ?tm = Inr es" "suppressed c ?tm es"
      using Cons.IH[OF c, of ?tm] by blast
    obtain mo where mo: "b AND NOT (snd ?tm) \<noteq> 0 \<Longrightarrow> mode_bits mo = b AND NOT (snd ?tm)"
      using small_mode[OF small_ops(4)[OF e(2) small']] by metis
    then have mode: "b AND NOT (snd ?tm) \<noteq> 0 \<Longrightarrow> mode_of (b AND NOT (snd ?tm)) = Inr mo"
      by (metis mode_of_bits)
    have "suppress (e # c) tm = Inr (if b AND NOT (snd ?tm) = 0 then es else (SKey t k, mo) # es)"
      using es(1) mode by (cases "fst tm = t") (auto simp: e SKey Let_def)
    with suppress_key[OF _ t e(2) Cons.prems(2) _ refl es(2) refl mo] later e SKey show ?thesis
      by auto
  qed
qed


lemma combine_scopes:
  "combine es c = Inr c' \<Longrightarrow> \<forall>(s, mo) \<in> set es. scope_valid s"
proof (induction es arbitrary: c)
  case (Cons e es)
  obtain s mo where e: "e = (s, mo)" by (cases e)
  show ?case using Cons.prems Cons.IH unfolding e
    by (cases s) (auto simp: scope_valid_def Let_def split: if_splits)
qed simp

lemma combine_total:
  "\<forall>(s, mo) \<in> set es. scope_valid s \<Longrightarrow> \<exists>c'. combine es c = Inr c'"
proof (induction es arbitrary: c)
  case (Cons e es)
  obtain s mo where e: "e = (s, mo)" by (cases e)
  show ?case using Cons.prems Cons.IH unfolding e
    by (cases s) (auto simp: scope_valid_def Let_def)
qed simp

lemma combined_grants:
  assumes "combined_ok c"
    and "\<And>s w. bits_at c (order_key s) AND w \<noteq> 0 \<longleftrightarrow> (\<exists>mo. (s, mo) \<in> set es \<and> mode_bits mo AND w \<noteq> 0)"
  shows "grants_after c (0, 0) w a \<longleftrightarrow> grants es w a"
proof -
  have "grants es w a \<longleftrightarrow> (\<exists>s mo. (s, mo) \<in> set es \<and> in_scope s a \<and> mode_bits mo AND w \<noteq> 0)"
    by (auto simp: grants_def)
  also have "\<dots> \<longleftrightarrow> (\<exists>s. in_scope s a \<and> bits_at c (order_key s) AND w \<noteq> 0)"
    using assms(2) by blast
  also have "\<dots> \<longleftrightarrow> (\<exists>s \<in> {STable (fst a), SKey (fst a) (snd a)}. bits_at c (order_key s) AND w \<noteq> 0)"
  proof -
    have "in_scope s a \<longleftrightarrow> s \<in> {STable (fst a), SKey (fst a) (snd a)}" for s by (cases s) auto
    then show ?thesis by blast
  qed
  finally show ?thesis by (simp add: grants_after_def)
qed

lemma manifest_okI: "suppressed c tm es \<Longrightarrow> manifest_ok es"
  unfolding manifest_ok_def suppressed_def by (auto; blast)

lemma manifest_new_Inr:
  "(\<exists>m. manifest_new es = Inr m) \<longleftrightarrow> (\<forall>(s, mo) \<in> set es. scope_valid s)"
  "manifest_new es = Inr m \<Longrightarrow> manifest_ok m"
  "manifest_new es = Inr m \<Longrightarrow> is_mode_bit w \<Longrightarrow> grants m w a \<longleftrightarrow> grants es w a"
proof -
  have main: "\<exists>m. manifest_new es = Inr m \<and> manifest_ok m \<and> (\<forall>w a. is_mode_bit w \<longrightarrow> grants m w a \<longleftrightarrow> grants es w a)"
    if c: "combine es [] = Inr c" for c
  proof -
    have ok: "combined_ok c" and bits: "bits_at c (order_key s) AND w \<noteq> 0 \<longleftrightarrow> (\<exists>mo. (s, mo) \<in> set es \<and> mode_bits mo AND w \<noteq> 0)" for s w
      using combine_ok[OF c] by (simp_all add: combined_ok_def bits_at_def)
    have "(0, 0, []) < fst e" if e: "e \<in> set c" for e
    proof -
      obtain s where "fst e = order_key s" "scope_valid s" using ok e by (cases e) (auto simp: combined_ok_def)
      then show ?thesis by (cases s) (auto simp: scope_valid_def less_prod_def word_neq_0_conv)
    qed
    then obtain m where "suppress c (0, 0) = Inr m" "suppressed c (0, 0) m"
      using suppress_ok[OF ok, of "(0, 0)"] by auto
    then show ?thesis
      using c combined_grants[OF ok bits] manifest_okI suppressedD(1) by (auto simp: manifest_new_def)
  qed
  show "(\<exists>m. manifest_new es = Inr m) \<longleftrightarrow> (\<forall>(s, mo) \<in> set es. scope_valid s)"
  proof
    assume "\<exists>m. manifest_new es = Inr m"
    then obtain c where "combine es [] = Inr c" by (auto simp: manifest_new_def rbind_eq_Inr)
    then show "\<forall>(s, mo) \<in> set es. scope_valid s" by (rule combine_scopes)
  next
    assume "\<forall>(s, mo) \<in> set es. scope_valid s"
    then obtain c where "combine es [] = Inr c" using combine_total by blast
    then show "\<exists>m. manifest_new es = Inr m" using main by blast
  qed
  assume m: "manifest_new es = Inr m"
  then obtain c where "combine es [] = Inr c" by (auto simp: manifest_new_def rbind_eq_Inr)
  from main[OF this] m show "manifest_ok m" "is_mode_bit w \<Longrightarrow> grants m w a \<longleftrightarrow> grants es w a"
    by (metis sum.inject(2))+
qed


subsection \<open>Exactness of the codec\<close>

lemma four_bytes: "length fs = 4 \<Longrightarrow> drop 2 fs = [0, 0] \<Longrightarrow> fs = [fs ! 0, fs ! 1, 0, 0 :: byte]"
  by (cases fs rule: list.exhaust; simp) (auto simp: length_Suc_conv numeral_eq_Suc)

lemma key_length_word: "length k \<le> 1024 \<Longrightarrow> unat (of_nat (length k) :: u32) = length k"
  by (simp add: unat_of_nat)

lemma read_scope_encoded:
  assumes "scope_valid s"
  shows "read_scope (entry_bytes (s, mo) @ rest) = Inr ((s, mo), rest)"
proof -
  have header: "take_bytes manifest_error 4 ([k, mode_bits mo, 0, 0] @ bs) = Inr ([k, mode_bits mo, 0, 0], bs)" for k bs
    by (rule take_bytes_append) simp
  show ?thesis
  proof (cases s)
    case (STable t)
    have "entry_bytes (s, mo) @ rest = u64_le t @ [0, mode_bits mo, 0, 0] @ u32_le 0 @ rest"
      by (simp add: entry_bytes_def STable)
    then show ?thesis
      using assms by (simp add: read_scope_def STable scope_valid_def header del: append_Cons)
  next
    case (SKey t k)
    have "entry_bytes (s, mo) @ rest = u64_le t @ [1, mode_bits mo, 0, 0] @ u32_le (of_nat (length k)) @ k @ rest"
      by (simp add: entry_bytes_def SKey)
    then show ?thesis
      using assms by (simp add: read_scope_def SKey scope_valid_def header key_length_word del: append_Cons)
  qed
qed

lemma read_scope_Inr:
  "read_scope input = Inr (e, rest) \<longleftrightarrow> scope_valid (fst e) \<and> input = entry_bytes e @ rest"
proof
  assume "read_scope input = Inr (e, rest)"
  then obtain t fs mo len key s where
    input: "input = u64_le t @ fs @ u32_le len @ key @ rest" "length fs = 4" "length key = unat len" and
    t: "t \<noteq> 0" "t \<noteq> - 1" "drop 2 fs = [0, 0]" and mo: "fs ! 1 = mode_bits mo" and len: "unat len \<le> 1024"
    and s: "(if fs ! 0 = 0 \<and> key = [] then Inr (STable t) else if fs ! 0 = 1 then Inr (SKey t key)
      else Inl (Invalid m_scope_kind)) = Inr s" and e: "e = (s, mo)"
    by (auto simp: read_scope_def result_simps rbind_eq_Inr not_le split: if_splits)
  have fs: "fs = [fs ! 0, mode_bits mo, 0, 0]" using four_bytes[OF input(2) t(3)] mo by simp
  have word: "of_nat (length key) = len" by (simp add: input(3))
  from s show "scope_valid (fst e) \<and> input = entry_bytes e @ rest"
    using input fs t len word
    by (auto simp: e scope_valid_def entry_bytes_def unat_eq_0 split: if_splits)
qed (cases e; simp add: read_scope_encoded)

definition next_modes :: "u64 \<times> byte \<Rightarrow> scope \<times> access_mode \<Rightarrow> u64 \<times> byte" where
  "next_modes tm e = (case fst e of STable t \<Rightarrow> (t, mode_bits (snd e))
     | SKey t _ \<Rightarrow> if fst tm \<noteq> t then (t, 0) else tm)"

definition admits :: "manifest \<Rightarrow> u64 \<times> byte \<Rightarrow> scope \<times> access_mode \<Rightarrow> bool" where
  "admits es tm e \<longleftrightarrow> scope_valid (fst e) \<and>
     (es = [] \<or> order_key (fst (last es)) < order_key (fst e)) \<and>
     (\<forall>k. fst e = SKey (fst tm) k \<longrightarrow> snd tm AND mode_bits (snd e) = 0)"

fun chain :: "manifest \<Rightarrow> u64 \<times> byte \<Rightarrow> manifest \<Rightarrow> bool" where
  "chain es tm [] \<longleftrightarrow> True"
| "chain es tm (e # new) \<longleftrightarrow> admits es tm e \<and> chain (es @ [e]) (next_modes tm e) new"

lemma read_entries_step:
  "read_entries (Suc n) es tm input = Inr r \<longleftrightarrow>
     (\<exists>e rest. input = entry_bytes e @ rest \<and> admits es tm e \<and> read_entries n (es @ [e]) (next_modes tm e) rest = Inr r)"
  (is "_ \<longleftrightarrow> (\<exists>e rest. ?body e rest)")
proof -
  have "read_entries (Suc n) es tm input = Inr r \<longleftrightarrow>
     (\<exists>e rest. read_scope input = Inr (e, rest) \<and>
        (es = [] \<or> order_key (fst (last es)) < order_key (fst e)) \<and>
        (\<forall>k. fst e = SKey (fst tm) k \<longrightarrow> snd tm AND mode_bits (snd e) = 0) \<and>
        read_entries n (es @ [e]) (next_modes tm e) rest = Inr r)"
  proof (cases "read_scope input")
    case (Inr x)
    obtain s mo rest where x: "x = ((s, mo), rest)" by (metis prod.exhaust)
    show ?thesis
      by (cases s) (auto simp: Inr x next_modes_def Let_def not_le not_less)
  qed simp
  then show ?thesis unfolding read_scope_Inr admits_def by blast
qed

lemma read_entries_Inr:
  "read_entries n es tm input = Inr (m, rest) \<longleftrightarrow>
     (\<exists>new. m = es @ new \<and> length new = n \<and> chain es tm new \<and> input = concat (map entry_bytes new) @ rest)"
proof (induction n arbitrary: es tm input)
  case (Suc n)
  show ?case unfolding read_entries_step Suc
    by (auto simp: length_Suc_conv)
qed auto


text \<open>The modes met so far in the table of the last entry.\<close>

definition table_bits :: "manifest \<Rightarrow> u64 \<Rightarrow> byte" where
  "table_bits es t = (case map_of es (STable t) of None \<Rightarrow> 0 | Some mo \<Rightarrow> mode_bits mo)"

definition modes_at :: "manifest \<Rightarrow> u64 \<times> byte" where
  "modes_at es = (if es = [] then (0, 0) else let t = scope_table (fst (last es)) in (t, table_bits es t))"

lemma order_key_table: "fst (order_key s) = scope_table s"
  by (cases s) auto

lemma sorted_last:
  assumes "sorted_wrt (<) (map (order_key \<circ> fst) es)" "e \<in> set es"
  shows "order_key (fst e) \<le> order_key (fst (last es))"
  using assms by (induction es rule: rev_induct) (auto simp: sorted_wrt_append less_imp_le)

lemma sorted_distinct:
  "sorted_wrt (<) (map (order_key \<circ> fst) es) \<Longrightarrow> distinct (map fst es)"
proof (induction es)
  case (Cons e es)
  then have "order_key (fst e) \<noteq> order_key (fst e')" if "e' \<in> set es" for e' using that by fastforce
  with Cons show ?case by auto
qed simp

lemma table_bits_in:
  "sorted_wrt (<) (map (order_key \<circ> fst) es) \<Longrightarrow> (STable t, mo) \<in> set es \<Longrightarrow> table_bits es t = mode_bits mo"
  by (simp add: table_bits_def sorted_distinct)

lemma table_bits_zero: "(\<And>mo. (STable t, mo) \<notin> set es) \<Longrightarrow> table_bits es t = 0"
  by (cases "map_of es (STable t)") (auto simp: table_bits_def dest: map_of_SomeD)

lemma table_bits_snoc:
  "table_bits (es @ [(STable t, mo)]) t' = (if t' = t \<and> table_bits es t' = 0 then mode_bits mo else table_bits es t')"
  "table_bits (es @ [(SKey t k, mo)]) t' = table_bits es t'"
  by (auto simp: table_bits_def map_add_def split: option.splits)

lemma before_scope:
  assumes "sorted_wrt (<) (map (order_key \<circ> fst) es)" "order_key (fst (last es)) < order_key s" "e \<in> set es"
  shows "order_key (fst e) < order_key s"
  using sorted_last[OF assms(1,3)] assms(2) by (rule le_less_trans)

lemma modes_at_snoc:
  assumes ok: "sorted_wrt (<) (map (order_key \<circ> fst) es)"
    and order: "es = [] \<or> order_key (fst (last es)) < order_key (fst e)" and valid: "scope_valid (fst e)"
  shows "modes_at (es @ [e]) = next_modes (modes_at es) e"
proof (cases e)
  case (Pair s mo)
  have before: "order_key (fst e') < order_key s" if "e' \<in> set es" for e'
    using before_scope[OF ok _ that] order that Pair by auto
  show ?thesis
  proof (cases s)
    case (STable t)
    have "table_bits es t = 0" using before STable by (intro table_bits_zero) fastforce
    then show ?thesis by (simp add: Pair STable modes_at_def next_modes_def table_bits_snoc)
  next
    case (SKey t k)
    have "table_bits es t = 0" if last: "es \<noteq> []" "scope_table (fst (last es)) \<noteq> t"
    proof (intro table_bits_zero notI)
      fix mo' assume "(STable t, mo') \<in> set es"
      then have "(t, 0, []) \<le> order_key (fst (last es))" using sorted_last[OF ok, of "(STable t, mo')"] by simp
      moreover have "order_key (fst (last es)) < (t, 1, k)" using before[of "last es"] last SKey by simp
      ultimately show False using last order_key_table[of "fst (last es)"]
        by (cases "order_key (fst (last es))") (auto simp: less_eq_prod_def less_prod_def)
    qed
    then show ?thesis using valid
      by (auto simp: Pair SKey modes_at_def next_modes_def table_bits_snoc(2) Let_def scope_valid_def)
         (simp_all add: table_bits_def)
  qed
qed

lemma sorted_snoc:
  "sorted_wrt (<) (map (order_key \<circ> fst) (es @ [e])) \<longleftrightarrow>
     sorted_wrt (<) (map (order_key \<circ> fst) es) \<and> (es = [] \<or> order_key (fst (last es)) < order_key (fst e))"
  using before_scope[of es "fst e"] by (cases es rule: rev_cases) (auto simp: sorted_wrt_append)

lemma modes_at_last:
  assumes sorted: "sorted_wrt (<) (map (order_key \<circ> fst) (es @ [(SKey t k, mo)]))" and "(STable t, mo') \<in> set es"
  shows "modes_at es = (t, mode_bits mo')"
proof -
  have es: "es \<noteq> []" "sorted_wrt (<) (map (order_key \<circ> fst) es)" "order_key (fst (last es)) < (t, 1, k)"
    using sorted assms(2) unfolding sorted_snoc by auto
  have "(t, 0, []) \<le> order_key (fst (last es))" using sorted_last[OF es(2) assms(2)] by simp
  with es(3) have "scope_table (fst (last es)) = t"
    using order_key_table[of "fst (last es)"]
    by (cases "order_key (fst (last es))") (auto simp: less_eq_prod_def less_prod_def)
  then show ?thesis using es table_bits_in[OF es(2) assms(2)] by (simp add: modes_at_def)
qed

lemma modes_at_bits: "snd (modes_at es) \<noteq> 0 \<Longrightarrow> \<exists>mo. (STable (fst (modes_at es)), mo) \<in> set es \<and> snd (modes_at es) = mode_bits mo"
  by (auto simp: modes_at_def table_bits_def Let_def split: if_splits option.splits dest: map_of_SomeD)

lemma manifest_ok_snoc:
  "manifest_ok (es @ [e]) \<longleftrightarrow> manifest_ok es \<and> admits es (modes_at es) e"
proof (cases "sorted_wrt (<) (map (order_key \<circ> fst) (es @ [e]))")
  case sorted: True
  have before: "order_key (fst e') < order_key (fst e)" if "e' \<in> set es" for e'
    using sorted that by (simp add: sorted_wrt_append)
  have no_key: "(SKey t k, mo') \<notin> set es" if "e = (STable t, mo)" for t k mo mo'
    using before[of "(SKey t k, mo')"] that by (auto simp: less_prod_def)
  have new: "(\<forall>k. fst e = SKey (fst (modes_at es)) k \<longrightarrow> snd (modes_at es) AND mode_bits (snd e) = 0) \<longleftrightarrow>
      (\<forall>t k mo mo'. e = (SKey t k, mo') \<longrightarrow> (STable t, mo) \<in> set es \<longrightarrow> mode_bits mo AND mode_bits mo' = 0)"
    using modes_at_last[of es] modes_at_bits[of es] sorted
    by (cases e; cases "snd (modes_at es) = 0") fastforce+
  show ?thesis
    using sorted no_key unfolding manifest_ok_def admits_def new sorted_snoc
    by (auto; metis)
qed (auto simp: manifest_ok_def admits_def sorted_snoc simp del: map_append)

lemma chain_ok: "manifest_ok es \<Longrightarrow> chain es (modes_at es) new \<longleftrightarrow> manifest_ok (es @ new)"
proof (induction new arbitrary: es)
  case (Cons e new)
  have prefix: "manifest_ok (es @ [e])" if "manifest_ok ((es @ [e]) @ new)"
    using that unfolding manifest_ok_def by (auto simp: sorted_wrt_append)
  show ?case
  proof (cases "admits es (modes_at es) e")
    case True
    then have ok: "manifest_ok (es @ [e])" using Cons.prems by (simp add: manifest_ok_snoc)
    moreover have "modes_at (es @ [e]) = next_modes (modes_at es) e"
      using True Cons.prems by (intro modes_at_snoc) (auto simp: admits_def manifest_ok_def)
    ultimately show ?thesis using True Cons.IH[OF ok] by simp
  next
    case False
    then show ?thesis using prefix manifest_ok_snoc[of es e] by auto
  qed
qed simp


lemma manifest_encode_Inr:
  "manifest_encode m = Inr bs \<longleftrightarrow> length m \<le> 16384 \<and> bs = u32_le (of_nat (length m)) @ concat (map entry_bytes m)"
  by (auto simp: manifest_encode_def check_count_def rbind_eq_Inr)

lemma entry_bytes_length: "16 \<le> length (entry_bytes e)"
  by (cases "order_key (fst e)") (simp add: entry_bytes_def)

lemma entries_length: "16 * length m \<le> length (concat (map entry_bytes m))"
  by (induction m) (auto intro: add_mono entry_bytes_length)

lemma manifest_decode_exact: "manifest_decode bs = Inr m \<longleftrightarrow> manifest_ok m \<and> manifest_encode m = Inr bs"
proof -
  have chain: "chain [] (0, 0) m \<longleftrightarrow> manifest_ok m"
    using chain_ok[of "[]" m] by (simp add: manifest_ok_def modes_at_def)
  have "manifest_decode bs = Inr m \<longleftrightarrow>
    (\<exists>count input. bs = u32_le count @ input \<and> unat count \<le> 16384 \<and> unat count \<le> length input div 16 \<and>
       read_entries (unat count) [] (0, 0) input = Inr (m, []))"
    by (auto simp: manifest_decode_def result_simps rbind_eq_Inr not_le not_less)
  also have "\<dots> \<longleftrightarrow> (\<exists>count. bs = u32_le count @ concat (map entry_bytes m) \<and> unat count \<le> 16384 \<and>
       length m = unat count \<and> manifest_ok m)"
    using entries_length[of m] by (auto simp: read_entries_Inr chain)
  also have "\<dots> \<longleftrightarrow> manifest_ok m \<and> length m \<le> 16384 \<and> bs = u32_le (of_nat (length m)) @ concat (map entry_bytes m)"
  proof -
    have "length m = unat count \<longleftrightarrow> count = of_nat (length m)" if "length m \<le> 16384" for count :: u32
      using that by (auto simp: unat_of_nat)
    then show ?thesis by (auto simp: unat_of_nat)
  qed
  finally show ?thesis by (auto simp: manifest_encode_Inr)
qed

interpretation manifest_codec: exact_codec manifest_encode manifest_decode manifest_ok
  by unfold_locales (rule manifest_decode_exact)

subsection \<open>Validation\<close>

lemma declare_scopes_Inr:
  "declare_scopes tables m d = Inr d' \<Longrightarrow> d' k = Some b \<Longrightarrow>
     d k = Some b \<or> (\<exists>(s, mo) \<in> set m. order_key s = k \<and> mode_bits mo = b)"
proof (induction m arbitrary: d)
  case (Cons e m)
  obtain s mo where e: "e = (s, mo)" by (cases e)
  from Cons.prems(1) have "declare_scopes tables m (d(order_key s \<mapsto> mode_bits mo)) = Inr d'"
    by (auto simp: e rbind_eq_Inr)
  from Cons.IH[OF this Cons.prems(2)] show ?case by (auto simp: e split: if_splits)
qed auto

lemma declared_grants:
  assumes "declare_scopes tables m (\<lambda>_. None) = Inr d" "declared d (order_key s) AND w \<noteq> 0" "in_scope s a"
  shows "grants m w a"
proof -
  obtain b where b: "d (order_key s) = Some b" "b AND w \<noteq> 0" using assms(2) by (auto simp: declared_def split: option.splits)
  then obtain mo where "(s, mo) \<in> set m" "mode_bits mo = b" using declare_scopes_Inr[OF assms(1) b(1)] by auto
  then show ?thesis using b assms(3) by (auto simp: grants_def)
qed

lemma validate_grants:
  assumes v: "validate m required tables claims = Inr ()" and g: "grants required w a"
  shows "grants m w a"
proof -
  obtain d where d: "declare_scopes tables m (\<lambda>_. None) = Inr d"
    and cover: "\<forall>(s, mo) \<in> set required.
       (declared d (scope_table s, 0, []) OR declared d (order_key s)) AND mode_bits mo = mode_bits mo"
    using v by (auto simp: validate_def rbind_eq_Inr split: if_splits)
  obtain s mo where s: "(s, mo) \<in> set required" "in_scope s a" "mode_bits mo AND w \<noteq> 0"
    using g by (auto simp: grants_def)
  let ?b = "declared d (scope_table s, 0, []) OR declared d (order_key s)"
  have "?b AND w \<noteq> 0"
  proof
    assume "?b AND w = 0"
    moreover have "?b AND mode_bits mo = mode_bits mo" using bspec[OF cover s(1)] by simp
    then have "mode_bits mo AND w = mode_bits mo AND (?b AND w)" by (metis and.assoc and.commute)
    ultimately show False using s(3) by (simp only: and_zero_eq)
  qed
  then consider "declared d (order_key (STable (scope_table s))) AND w \<noteq> 0" | "declared d (order_key s) AND w \<noteq> 0"
    unfolding or_and_nonzero by auto
  then show ?thesis
  proof cases
    case 1
    then show ?thesis by (rule declared_grants[OF d]) (use s(2) in \<open>cases s; auto\<close>)
  next
    case 2
    then show ?thesis by (rule declared_grants[OF d]) (rule s(2))
  qed
qed


subsection \<open>Properties\<close>

text \<open>
  C37: Building a manifest succeeds exactly when every scope names a table other than 0 and
  \<open>u64::MAX\<close> and a key of at most 1024 bytes; the result is in normal form (strictly ordered
  scopes, no point repeating a mode of its table) and grants reads and writes of exactly the
  addresses the listed scopes grant.
\<close>

theorem manifest_normal_form:
  "(\<exists>m. manifest_new es = Inr m \<and> manifest_ok m \<and>
      (\<forall>a. (grants m 1 a \<longleftrightarrow> grants es 1 a) \<and> (grants m 2 a \<longleftrightarrow> grants es 2 a)))
   \<longleftrightarrow> (\<forall>(s, mo) \<in> set es. scope_valid s)"
  using manifest_new_Inr[of es] unfolding is_mode_bit_def by blast

lemma manifest_normal_form_witness:
  "\<exists>m. manifest_new [(SKey 1 [5], AMRead), (STable 1, AMReadWrite)] = Inr m \<and> grants m 1 (1, [5])"
  using manifest_normal_form[of "[(SKey 1 [5], AMRead), (STable 1, AMReadWrite)]"]
  by (auto simp: scope_valid_def)

text \<open>
  C39: Two scopes overlap exactly when some address lies in both.
\<close>

theorem overlap_shares_address: "overlap s s' \<longleftrightarrow> (\<exists>a. in_scope s a \<and> in_scope s' a)"
  by (rule overlap_iff)

text \<open>
  C38: The decoder of access manifests accepts exactly the encodings of normal-form manifests,
  and each such manifest has one encoding.
\<close>

theorem manifest_codec_exact: "manifest_decode bs = Inr m \<longleftrightarrow> manifest_ok m \<and> manifest_encode m = Inr bs"
  by (rule manifest_codec.dec_iff)

text \<open>
  A declared manifest that validates against the required one grants every read and every
  write the required one grants.
\<close>

theorem validate_covers:
  assumes "validate m required tables claims = Inr ()"
  shows "(grants required 1 a \<longrightarrow> grants m 1 a) \<and> (grants required 2 a \<longrightarrow> grants m 2 a)"
  using validate_grants[OF assms] by blast

lemma validate_covers_witness:
  "grants [(STable 1, AMReadWrite)] 2 (1, [5])"
  using validate_covers[of "[(STable 1, AMReadWrite)]" "[(SKey 1 [5], AMWrite)]"
    "[\<lparr>t_id = 1, t_key = TBool, t_value = TBool\<rparr>]" "replicate 17 9" "(1, [5])"]
  by (simp add: validate_def check_count_def declared_def ok_or_def)

end
