(* ===== verification/Blop_Runtime.thy ===== *)
theory Blop_Runtime
  imports Blop_Database
begin

unbundle bit_operations_syntax

section \<open>The interpreter (\<^verbatim>\<open>src/vm/runtime.rs\<close>)\<close>

text \<open>
  One transaction run against a view at a prior sequence: registers, the overlay of private
  writes and the logical resource usage. Every counter is a \<^verbatim>\<open>u64\<close>; an addition or
  subtraction that leaves its range is a panic. The loop of \<^verbatim>\<open>run\<close> is a total function: each
  step is charged against the instruction claim, which bounds the number of steps even for
  a program that was never verified. Shown: a verified program never panics, its registers
  hold values of their types, and the counters stay within the claims and account exactly
  for the registers and the overlay.
\<close>

subsection \<open>Data\<close>

datatype failure =
    FAbort abort_reason u32 u64 \<comment> \<open>reason, user code, detail\<close>
  | FError vm_error

abbreviation abort_for :: "abort_reason \<Rightarrow> failure" where
  "abort_for reason \<equiv> FAbort reason 0 0"

record resource_usage =
  us_instructions :: nat
  us_point_accesses :: nat
  us_addresses :: "address list" \<comment> \<open>a set: no element occurs twice\<close>
  us_register_bytes :: nat
  us_range_rows :: nat
  us_range_bytes :: nat
  us_overlay_bytes :: nat

definition usage_default :: resource_usage where
  "usage_default = \<lparr>us_instructions = 0, us_point_accesses = 0, us_addresses = [],
     us_register_bytes = 0, us_range_rows = 0, us_range_bytes = 0, us_overlay_bytes = 0\<rparr>"

record machine =
  ma_registers :: "vm_value option list"
  ma_overlay :: overlay
  ma_usage :: resource_usage

datatype step_result = Next nat | Return vm_value

definition add64 :: "nat \<Rightarrow> nat \<Rightarrow> failure + nat" where
  "add64 a b = (if a + b < 2 ^ 64 then Inr (a + b) else Inl (FError Panic))"

definition sub64 :: "nat \<Rightarrow> nat \<Rightarrow> failure + nat" where
  "sub64 a b = (if b \<le> a then Inr (a - b) else Inl (FError Panic))"

definition index_or_panic :: "'a list \<Rightarrow> nat \<Rightarrow> failure + 'a" where
  "index_or_panic xs i = (if i < length xs then Inr (xs ! i) else Inl (FError Panic))"

definition op_result :: "op_failure + 'a \<Rightarrow> failure + 'a" where
  "op_result r = map_err (\<lambda>f. case f of OpAbort reason \<Rightarrow> abort_for reason | OpPanic \<Rightarrow> FError Panic) r"

subsection \<open>Charges\<close>

fun check_amounts :: "policy \<Rightarrow> (nat \<times> nat) list \<Rightarrow> failure + unit" where
  "check_amounts claims [] = Inr ()"
| "check_amounts claims ((i, amount) # amounts) =
     (if amount > unat (claims ! (i - 1)) then Inl (FAbort ResourceLimit 0 (of_nat i))
      else check_amounts claims amounts)"

definition check_bound_of :: "vm_type \<Rightarrow> vm_value \<Rightarrow> failure + unit" where
  "check_bound_of ty v = (if \<not> accepts ty v then Inl (abort_for BoundExceeded) else Inr ())"

definition register :: "vm_value option list \<Rightarrow> nat \<Rightarrow> failure + vm_value" where
  "register registers i = rbind (index_or_panic registers i) (ok_or (FError Panic))"

definition held_len :: "vm_value option \<Rightarrow> nat" where
  "held_len r = (case r of None \<Rightarrow> 0 | Some v \<Rightarrow> encoded_len v)"

definition assign :: "vm_type list \<Rightarrow> policy \<Rightarrow> nat \<Rightarrow> vm_value \<Rightarrow> machine \<Rightarrow> failure + machine" where
  "assign types claims dst v m =
     rbind (index_or_panic types dst) (\<lambda>ty.
     rbind (check_bound_of ty v) (\<lambda>_.
     rbind (index_or_panic (ma_registers m) dst) (\<lambda>old.
     rbind (sub64 (us_register_bytes (ma_usage m)) (held_len old)) (\<lambda>others.
     rbind (add64 others (encoded_len v)) (\<lambda>total_bytes.
     rbind (check_amounts claims [(11, encoded_len v), (12, total_bytes)]) (\<lambda>_.
     Inr (m\<lparr>ma_registers := (ma_registers m)[dst := Some v],
            ma_usage := (ma_usage m)\<lparr>us_register_bytes := total_bytes\<rparr>\<rparr>)))))))"

definition storage_failure :: "storage_error + 'a \<Rightarrow> failure + 'a" where
  "storage_failure r = map_err (\<lambda>e. FError (Storage e)) r"

definition canonical_key :: "tbl \<Rightarrow> vm_value \<Rightarrow> policy \<Rightarrow> failure + bytes" where
  "canonical_key table v claims =
     rbind (check_bound_of (t_key table) v) (\<lambda>_.
     rbind (map_err FError (descriptor (t_key table))) (\<lambda>bs.
     rbind (storage_failure (schema_decode bs)) (\<lambda>schema.
     rbind (map_err FError (encode v)) (\<lambda>encoded.
     rbind (storage_failure (encode_key schema encoded)) (\<lambda>key.
     rbind (check_amounts claims [(10, length key)]) (\<lambda>_. Inr key))))))"

definition distinct_with :: "address \<Rightarrow> resource_usage \<Rightarrow> nat" where
  "distinct_with a u = length (us_addresses u) + (if a \<in> set (us_addresses u) then 0 else 1)"

definition point :: "policy \<Rightarrow> address \<Rightarrow> resource_usage \<Rightarrow> failure + resource_usage" where
  "point claims a u =
     rbind (add64 (us_point_accesses u) 1) (\<lambda>accesses.
     rbind (check_amounts claims [(8, accesses), (9, distinct_with a u)]) (\<lambda>_.
     Inr (u\<lparr>us_point_accesses := accesses, us_addresses := List.insert a (us_addresses u)\<rparr>)))"

definition corrupt_error :: "vm_error \<Rightarrow> vm_error" where
  "corrupt_error e = (case e of Invalid reason \<Rightarrow> Storage (Corrupt reason) | _ \<Rightarrow> e)"

definition loaded :: "vm_type \<Rightarrow> bytes \<Rightarrow> policy \<Rightarrow> failure + vm_value" where
  "loaded ty bs claims =
     rbind (map_err (FError \<circ> corrupt_error) (decode_value ty bs)) (\<lambda>v.
     rbind (check_amounts claims [(11, length bs)]) (\<lambda>_. Inr v))"

definition entry_size :: "bytes \<Rightarrow> bytes option \<Rightarrow> nat" where
  "entry_size key v = 9 + length key + (case v of None \<Rightarrow> 0 | Some bs \<Rightarrow> length bs)"

definition overlay_entry :: "overlay \<Rightarrow> address \<Rightarrow> nat" where
  "overlay_entry ov a = (case map_of ov a of None \<Rightarrow> 0 | Some v \<Rightarrow> entry_size (snd a) v)"

definition overlay_write :: "policy \<Rightarrow> tbl \<Rightarrow> bytes \<Rightarrow> vm_value option \<Rightarrow> machine \<Rightarrow> failure + machine" where
  "overlay_write claims table key v m =
     rbind (case v of None \<Rightarrow> Inr () | Some v \<Rightarrow> check_bound_of (t_value table) v) (\<lambda>_.
     let sz = (case v of None \<Rightarrow> 0 | Some v \<Rightarrow> encoded_len v);
         old = map_of (ma_overlay m) (t_id table, key);
         writes = length (ma_overlay m) + (if old = None then 1 else 0);
         old_size = overlay_entry (ma_overlay m) (t_id table, key) in
     rbind (sub64 (us_overlay_bytes (ma_usage m)) old_size) (\<lambda>others.
     rbind (add64 others (9 + length key + sz)) (\<lambda>total_bytes.
     rbind (check_amounts claims [(11, sz), (15, writes), (16, total_bytes)]) (\<lambda>_.
     rbind (case v of None \<Rightarrow> Inr None | Some v \<Rightarrow> map_err FError (rbind (encode v) (\<lambda>bs. Inr (Some bs)))) (\<lambda>encoded.
     Inr (m\<lparr>ma_overlay := bt_insert (t_id table, key) encoded (ma_overlay m),
            ma_usage := (ma_usage m)\<lparr>us_overlay_bytes := total_bytes\<rparr>\<rparr>))))))"

subsection \<open>Range reads\<close>

definition scan_row :: "tbl \<Rightarrow> schema \<Rightarrow> policy \<Rightarrow> u64 \<Rightarrow> entry \<Rightarrow> resource_usage \<times> nat \<Rightarrow>
    failure + (vm_value \<times> vm_value) \<times> resource_usage \<times> nat" where
  "scan_row table key_schema claims byte_limit row s =
     (case (row, s) of ((key, bs), (u, local_bytes)) \<Rightarrow>
     rbind (storage_failure (map_err corrupt_input (decode_key key_schema key))) (\<lambda>key_bytes.
     rbind (map_err (FError \<circ> corrupt_error) (decode_value (t_key table) key_bytes)) (\<lambda>key_value.
     rbind (check_amounts claims [(10, length key)]) (\<lambda>_.
     rbind (loaded (t_value table) bs claims) (\<lambda>v.
     let sz = length key + length bs; a = (t_id table, key) in
     rbind (add64 (us_range_rows u) 1) (\<lambda>range_rows.
     rbind (add64 (us_range_bytes u) sz) (\<lambda>range_bytes.
     rbind (check_amounts claims [(9, distinct_with a u), (13, range_rows), (14, range_bytes)]) (\<lambda>_.
     rbind (add64 local_bytes sz) (\<lambda>local_total.
     if local_total > unat byte_limit then Inl (FAbort ResourceLimit 0 14) else
     Inr ((key_value, v),
          u\<lparr>us_addresses := List.insert a (us_addresses u), us_range_rows := range_rows,
            us_range_bytes := range_bytes\<rparr>, local_total))))))))))"

fun scan_rows :: "tbl \<Rightarrow> schema \<Rightarrow> policy \<Rightarrow> u64 \<Rightarrow> (vm_error + entry) list \<Rightarrow> resource_usage \<times> nat \<Rightarrow>
    failure + (vm_value \<times> vm_value) list \<times> resource_usage" where
  "scan_rows table key_schema claims byte_limit [] s = Inr ([], fst s)"
| "scan_rows table key_schema claims byte_limit (Inl e # entries) s = Inl (FError e)"
| "scan_rows table key_schema claims byte_limit (Inr row # entries) s =
     rbind (scan_row table key_schema claims byte_limit row s) (\<lambda>(row, s).
     rbind (scan_rows table key_schema claims byte_limit entries s) (\<lambda>(rows, u).
     Inr (row # rows, u)))"

definition scan_key :: "tbl \<Rightarrow> policy \<Rightarrow> vm_value option \<Rightarrow> failure + bytes option" where
  "scan_key table claims v =
     (case v of None \<Rightarrow> Inr None
      | Some v \<Rightarrow> rbind (canonical_key table v claims) (\<lambda>key. Inr (Some key)))"

definition scan_bound :: "byte \<Rightarrow> byte \<Rightarrow> bytes option \<Rightarrow> bytes bound" where
  "scan_bound flags flag_bit key =
     (case key of None \<Rightarrow> Unbounded
      | Some key \<Rightarrow> if flags AND flag_bit \<noteq> 0 then Included key else Excluded key)"

definition empty_interval :: "bytes option \<Rightarrow> bytes option \<Rightarrow> byte \<Rightarrow> bool" where
  "empty_interval lower upper flags =
     (case (lower, upper) of
        (Some lo, Some hi) \<Rightarrow> lo > hi \<or> (lo = hi \<and> flags \<noteq> 3)
      | _ \<Rightarrow> False)"

definition scan :: "view \<Rightarrow> u64 \<Rightarrow> policy \<Rightarrow> tbl \<Rightarrow> vm_value option \<Rightarrow> vm_value option \<Rightarrow> byte \<Rightarrow>
    u32 \<Rightarrow> u64 \<Rightarrow> machine \<Rightarrow> failure + vm_value \<times> machine" where
  "scan V prior claims table lower upper flags row_limit byte_limit m =
     rbind (scan_key table claims lower) (\<lambda>lower.
     rbind (scan_key table claims upper) (\<lambda>upper.
     if row_limit = 0 \<or> empty_interval lower upper flags then Inr (VRows [], m) else
     rbind (map_err FError (descriptor (t_key table))) (\<lambda>bs.
     rbind (storage_failure (schema_decode bs)) (\<lambda>key_schema.
     rbind (map_err FError (db_scan V (t_id table) prior (scan_bound flags 1 lower)
       (scan_bound flags 2 upper) (ma_overlay m))) (\<lambda>entries.
     rbind (scan_rows table key_schema claims byte_limit (take (unat row_limit) entries)
       (ma_usage m, 0)) (\<lambda>(rows, u).
     Inr (VRows rows, m\<lparr>ma_usage := u\<rparr>)))))))"

subsection \<open>Instructions\<close>

definition machine_point :: "policy \<Rightarrow> address \<Rightarrow> machine \<Rightarrow> failure + machine" where
  "machine_point claims a m = rbind (point claims a (ma_usage m)) (\<lambda>u. Inr (m\<lparr>ma_usage := u\<rparr>))"

fun tuple_fields :: "vm_value option list \<Rightarrow> nat list \<Rightarrow> vm_type list \<Rightarrow> failure + unit" where
  "tuple_fields registers (r # regs) (ty # types) =
     rbind (register registers r) (\<lambda>v.
     rbind (check_bound_of ty v) (\<lambda>_. tuple_fields registers regs types))"
| "tuple_fields registers _ _ = Inr ()"

definition point_access :: "program \<Rightarrow> policy \<Rightarrow> nat \<Rightarrow> nat \<Rightarrow> machine \<Rightarrow> failure + tbl \<times> bytes \<times> machine" where
  "point_access prog claims t k m =
     rbind (index_or_panic (p_tables prog) t) (\<lambda>table.
     rbind (register (ma_registers m) k) (\<lambda>v.
     rbind (canonical_key table v claims) (\<lambda>key.
     rbind (machine_point claims (t_id table, key) m) (\<lambda>m. Inr (table, key, m)))))"

text \<open>
  The \<^verbatim>\<open>match\<close> of \<^verbatim>\<open>step\<close>: the arms that produce a value for a register (\<open>Inl (dst, v)\<close>,
  which \<open>step\<close> assigns) and the arms that return at once (\<open>Inr\<close>).
\<close>

definition execute_instruction :: "(bytes \<Rightarrow> bytes) \<Rightarrow> view \<Rightarrow> u64 \<Rightarrow> program \<Rightarrow> policy \<Rightarrow> nat \<Rightarrow>
    instruction \<Rightarrow> machine \<Rightarrow> failure + (nat \<times> vm_value + step_result) \<times> machine" where
  "execute_instruction sha V prior prog claims pc instruction m =
     (let reg = register (ma_registers m) in
      case instruction of
        IConst dst constant \<Rightarrow>
          rbind (index_or_panic (p_constants prog) constant) (\<lambda>v. Inr (Inl (dst, v), m))
      | IArg dst argument \<Rightarrow>
          rbind (index_or_panic (p_arguments prog) argument) (\<lambda>v. Inr (Inl (dst, v), m))
      | IMove dst src \<Rightarrow> rbind (reg src) (\<lambda>v. Inr (Inl (dst, v), m))
      | IBinary op dst left right \<Rightarrow>
          rbind (reg left) (\<lambda>l.
          rbind (reg right) (\<lambda>r.
          rbind (index_or_panic (p_register_types prog) dst) (\<lambda>ty.
          rbind (op_result (binary op l r ty)) (\<lambda>v. Inr (Inl (dst, v), m)))))
      | IUnary op dst src \<Rightarrow>
          rbind (reg src) (\<lambda>s.
          rbind (op_result (unary sha op s)) (\<lambda>v. Inr (Inl (dst, v), m)))
      | ISlice dst src start len \<Rightarrow>
          rbind (reg src) (\<lambda>s.
          rbind (reg start) (\<lambda>a.
          rbind (reg len) (\<lambda>b.
          rbind (op_result (slice s a b)) (\<lambda>v. Inr (Inl (dst, v), m)))))
      | ITuple dst regs \<Rightarrow>
          rbind (index_or_panic (p_register_types prog) dst) (\<lambda>ty.
          case ty of
            TTuple types \<Rightarrow>
              rbind (tuple_fields (ma_registers m) regs types) (\<lambda>_.
              rbind (rmap reg regs) (\<lambda>vs. Inr (Inl (dst, VTuple vs), m)))
          | _ \<Rightarrow> Inl (FError Panic))
      | IField dst src field \<Rightarrow>
          rbind (reg src) (\<lambda>s.
          case s of
            VTuple vs \<Rightarrow> rbind (index_or_panic vs field) (\<lambda>v. Inr (Inl (dst, v), m))
          | _ \<Rightarrow> Inl (FError Panic))
      | ILoad dst t k \<Rightarrow>
          rbind (point_access prog claims t k m) (\<lambda>(table, key, m).
          rbind (map_err FError (db_get V (t_id table) key prior (ma_overlay m))) (\<lambda>bs.
          rbind (ok_or (abort_for MissingKey) bs) (\<lambda>bs.
          rbind (loaded (t_value table) bs claims) (\<lambda>v. Inr (Inl (dst, v), m)))))
      | IExists dst t k \<Rightarrow>
          rbind (point_access prog claims t k m) (\<lambda>(table, key, m).
          rbind (map_err FError (db_get V (t_id table) key prior (ma_overlay m))) (\<lambda>bs.
          Inr (Inl (dst, VBoolean (bs \<noteq> None)), m)))
      | IInsert t k v \<Rightarrow>
          rbind (point_access prog claims t k m) (\<lambda>(table, key, m).
          rbind (map_err FError (db_get V (t_id table) key prior (ma_overlay m))) (\<lambda>bs.
          if bs \<noteq> None then Inl (abort_for KeyExists) else
          rbind (reg v) (\<lambda>v.
          rbind (overlay_write claims table key (Some v) m) (\<lambda>m. Inr (Inr (Next (pc + 1)), m)))))
      | IStore t k v \<Rightarrow>
          rbind (point_access prog claims t k m) (\<lambda>(table, key, m).
          rbind (reg v) (\<lambda>v.
          rbind (overlay_write claims table key (Some v) m) (\<lambda>m. Inr (Inr (Next (pc + 1)), m))))
      | IDelete t k \<Rightarrow>
          rbind (point_access prog claims t k m) (\<lambda>(table, key, m).
          rbind (overlay_write claims table key None m) (\<lambda>m. Inr (Inr (Next (pc + 1)), m)))
      | IScan dst t lower upper flags row_limit byte_limit \<Rightarrow>
          rbind (index_or_panic (p_tables prog) t) (\<lambda>table.
          rbind (case lower of None \<Rightarrow> Inr None | Some r \<Rightarrow> rbind (reg r) (\<lambda>v. Inr (Some v))) (\<lambda>lower.
          rbind (case upper of None \<Rightarrow> Inr None | Some r \<Rightarrow> rbind (reg r) (\<lambda>v. Inr (Some v))) (\<lambda>upper.
          rbind (scan V prior claims table lower upper flags row_limit byte_limit m) (\<lambda>(v, m).
          Inr (Inl (dst, v), m)))))
      | IJump target \<Rightarrow> Inr (Inr (Next target), m)
      | IJumpIfFalse condition target \<Rightarrow>
          rbind (reg condition) (\<lambda>c.
          Inr (Inr (Next (if c = VBoolean False then target else pc + 1)), m))
      | IRequire condition user_code \<Rightarrow>
          rbind (reg condition) (\<lambda>c.
          if c = VBoolean False then Inl (FAbort RequireFailed user_code 0)
          else Inr (Inr (Next (pc + 1)), m))
      | IAbort user_code \<Rightarrow> Inl (FAbort ExplicitAbort user_code 0)
      | IReturn src \<Rightarrow>
          rbind (reg src) (\<lambda>v.
          rbind (check_bound_of (p_result_type prog) v) (\<lambda>_.
          rbind (check_amounts claims [(17, encoded_len v)]) (\<lambda>_. Inr (Inr (Return v), m)))))"

definition step :: "(bytes \<Rightarrow> bytes) \<Rightarrow> view \<Rightarrow> u64 \<Rightarrow> program \<Rightarrow> policy \<Rightarrow> nat \<Rightarrow> machine \<Rightarrow>
    failure + step_result \<times> machine" where
  "step sha V prior prog claims pc m =
     rbind (add64 (us_instructions (ma_usage m)) 1) (\<lambda>n.
     let m = m\<lparr>ma_usage := (ma_usage m)\<lparr>us_instructions := n\<rparr>\<rparr> in
     rbind (check_amounts claims [(2, n)]) (\<lambda>_.
     rbind (index_or_panic (p_instructions prog) pc) (\<lambda>instruction.
     rbind (execute_instruction sha V prior prog claims pc instruction m) (\<lambda>(r, m).
     case r of
       Inl (dst, v) \<Rightarrow>
         rbind (assign (p_register_types prog) claims dst v m) (\<lambda>m. Inr (Next (pc + 1), m))
     | Inr result \<Rightarrow> Inr (result, m)))))"

definition effect_of :: "address \<times> bytes option \<Rightarrow> effect" where
  "effect_of e = (case e of ((table, key), v) \<Rightarrow>
     (case v of Some bs \<Rightarrow> EPut table key bs | None \<Rightarrow> EDelete table key))"

subsection \<open>Exact results of the charging operations\<close>

lemma check_amounts_Inr [result_simps]:
  "check_amounts claims amounts = Inr u \<longleftrightarrow> (\<forall>(i, amount) \<in> set amounts. amount \<le> unat (claims ! (i - 1)))"
  by (induction claims amounts rule: check_amounts.induct) auto

declare check_amounts.simps(2) [simp del]

lemma arith64_Inr [result_simps]:
  "add64 a b = Inr c \<longleftrightarrow> c = a + b \<and> a + b < 2 ^ 64" "sub64 a b = Inr c \<longleftrightarrow> c = a - b \<and> b \<le> a"
  by (auto simp: add64_def sub64_def)

lemma check_bound_of_Inr [result_simps]: "check_bound_of ty v = Inr u \<longleftrightarrow> accepts ty v"
  by (auto simp: check_bound_of_def)

lemma index_or_panic_Inr [result_simps]: "index_or_panic xs i = Inr x \<longleftrightarrow> i < length xs \<and> x = xs ! i"
  by (auto simp: index_or_panic_def)

lemma register_Inr [result_simps]:
  "register rs i = Inr v \<longleftrightarrow> i < length rs \<and> rs ! i = Some v"
  by (auto simp: register_def result_simps)

lemma assign_Inr:
  "assign types claims dst v m = Inr m' \<longleftrightarrow>
     dst < length types \<and> accepts (types ! dst) v \<and> dst < length (ma_registers m) \<and>
     held_len (ma_registers m ! dst) \<le> us_register_bytes (ma_usage m) \<and>
     (\<exists>n. n = us_register_bytes (ma_usage m) - held_len (ma_registers m ! dst) + encoded_len v \<and>
       n < 2 ^ 64 \<and> encoded_len v \<le> unat (claims ! 10) \<and> n \<le> unat (claims ! 11) \<and>
       m' = m\<lparr>ma_registers := (ma_registers m)[dst := Some v],
              ma_usage := (ma_usage m)\<lparr>us_register_bytes := n\<rparr>\<rparr>)"
  unfolding assign_def by (simp add: result_simps) auto

lemma point_Inr:
  "point claims a u = Inr u' \<longleftrightarrow>
     us_point_accesses u + 1 < 2 ^ 64 \<and> us_point_accesses u + 1 \<le> unat (claims ! 7) \<and>
     distinct_with a u \<le> unat (claims ! 8) \<and>
     u' = u\<lparr>us_point_accesses := us_point_accesses u + 1, us_addresses := List.insert a (us_addresses u)\<rparr>"
  unfolding point_def by (simp add: result_simps) auto

lemma overlay_write_Inr:
  assumes "overlay_write claims table key v m = Inr m'"
  obtains n enc where "\<And>w. v = Some w \<Longrightarrow> accepts (t_value table) w" "enc = map_option encode_value v"
    "overlay_entry (ma_overlay m) (t_id table, key) \<le> us_overlay_bytes (ma_usage m)"
    "n = us_overlay_bytes (ma_usage m) - overlay_entry (ma_overlay m) (t_id table, key) + entry_size key enc"
    "n \<le> unat (claims ! 15)"
    "length (ma_overlay m) + (if map_of (ma_overlay m) (t_id table, key) = None then 1 else 0) \<le> unat (claims ! 14)"
    "m' = m\<lparr>ma_overlay := bt_insert (t_id table, key) enc (ma_overlay m), ma_usage := (ma_usage m)\<lparr>us_overlay_bytes := n\<rparr>\<rparr>"
proof (cases v)
  case None
  show ?thesis
    by (rule that[of None])
      (use assms None in \<open>auto simp: overlay_write_def Let_def result_simps entry_size_def\<close>)
next
  case (Some w)
  then have acc: "accepts (t_value table) w"
    using assms by (auto simp: overlay_write_def result_simps)
  note enc = encode_accepted[OF acc]
  show ?thesis
    by (rule that[of "Some (encode_value w)"])
      (use assms Some acc enc in \<open>auto simp: overlay_write_def Let_def result_simps entry_size_def\<close>)
qed

subsection \<open>The loop\<close>

text \<open>Only \<open>step\<close> counts instructions.\<close>

lemma scan_row_usage:
  assumes "scan_row table key_schema claims byte_limit (key, bs) (u, n) = Inr (row, u', n')"
  obtains kb where "decode_key key_schema key = Inr kb" "decode_value (t_key table) kb = Inr (fst row)"
    "decode_value (t_value table) bs = Inr (snd row)" "length key \<le> unat (claims ! 9)"
    "distinct_with (t_id table, key) u \<le> unat (claims ! 8)"
    "us_range_rows u + 1 \<le> unat (claims ! 12)" "us_range_bytes u + (length key + length bs) \<le> unat (claims ! 13)"
    "n' = n + (length key + length bs)" "n' \<le> unat byte_limit"
    "u' = u\<lparr>us_addresses := List.insert (t_id table, key) (us_addresses u), us_range_rows := us_range_rows u + 1,
       us_range_bytes := us_range_bytes u + (length key + length bs)\<rparr>"
  using assms
  by (auto simp: scan_row_def loaded_def storage_failure_def Let_def result_simps split: if_splits)

lemma scan_rows_instructions:
  "scan_rows table key_schema claims byte_limit entries s = Inr (rows, u) \<Longrightarrow>
   us_instructions u = us_instructions (fst s)"
proof (induction table key_schema claims byte_limit entries s arbitrary: rows u rule: scan_rows.induct)
  case (3 table key_schema claims byte_limit row entries s)
  obtain key bs u0 n where rs: "row = (key, bs)" "s = (u0, n)" by (cases row; cases s)
  from "3.prems" obtain r u' n' rest where
    1: "scan_row table key_schema claims byte_limit row s = Inr (r, u', n')"
    "scan_rows table key_schema claims byte_limit entries (u', n') = Inr (rest, u)"
    by (auto simp: result_simps)
  have "us_instructions u' = us_instructions u0"
    by (rule scan_row_usage[OF 1(1)[unfolded rs]]) simp
  with "3.IH"[OF 1(1) refl 1(2)] rs show ?case by simp
qed auto

lemma scan_instructions:
  "scan V prior claims table lower upper flags row_limit byte_limit m = Inr (v, m') \<Longrightarrow>
   us_instructions (ma_usage m') = us_instructions (ma_usage m)"
  by (auto simp: scan_def result_simps split: if_splits dest: scan_rows_instructions)

lemma point_access_Inr:
  "point_access prog claims t k m = Inr (table, key, m') \<longleftrightarrow>
     t < length (p_tables prog) \<and> table = p_tables prog ! t \<and>
     (\<exists>v. register (ma_registers m) k = Inr v \<and> canonical_key table v claims = Inr key) \<and>
     (\<exists>u. point claims (t_id table, key) (ma_usage m) = Inr u \<and> m' = m\<lparr>ma_usage := u\<rparr>)"
  by (auto simp: point_access_def machine_point_def rbind_eq_Inr index_or_panic_Inr)

lemma point_access_instructions:
  "point_access prog claims t k m = Inr (table, key, m') \<Longrightarrow>
   us_instructions (ma_usage m') = us_instructions (ma_usage m)"
  by (auto simp: point_access_Inr point_Inr)

lemma overlay_write_instructions:
  "overlay_write claims table key v m = Inr m' \<Longrightarrow>
   us_instructions (ma_usage m') = us_instructions (ma_usage m)"
  by (erule overlay_write_Inr) simp

lemma assign_instructions:
  "assign types claims dst v m = Inr m' \<Longrightarrow> us_instructions (ma_usage m') = us_instructions (ma_usage m)"
  by (auto simp: assign_Inr)

lemma case_vtuple_Inr [result_simps]:
  "(case v of VTuple vs \<Rightarrow> f vs | _ \<Rightarrow> Inl e) = Inr x \<longleftrightarrow> (\<exists>vs. v = VTuple vs \<and> f vs = Inr x)"
  by (cases v) auto

lemma case_sum_eq [result_simps]:
  "(case r of Inl p \<Rightarrow> f p | Inr q \<Rightarrow> g q) = x \<longleftrightarrow> (\<exists>p. r = Inl p \<and> f p = x) \<or> (\<exists>q. r = Inr q \<and> g q = x)"
  by (cases r) auto

text \<open>The arms of the instruction, with the pair of a result and a machine split.\<close>

lemma rbind_prod_Inr [result_simps]:
  "rbind r (\<lambda>(a, b). f a b) = Inr x \<longleftrightarrow> (\<exists>a b. r = Inr (a, b) \<and> f a b = Inr x)"
  "rbind r3 (\<lambda>(a, b, c). g a b c) = Inr x \<longleftrightarrow> (\<exists>a b c. r3 = Inr (a, b, c) \<and> g a b c = Inr x)"
  by (auto simp: rbind_eq_Inr)

lemma execute_instruction_count:
  "execute_instruction sha V prior prog claims pc instruction m = Inr (r, m') \<Longrightarrow>
   us_instructions (ma_usage m') = us_instructions (ma_usage m)"
  unfolding execute_instruction_def Let_def
  by (cases instruction; simp only: instruction.case rbind_prod_Inr)
    (auto simp: rbind_eq_Inr case_tuple_Inr case_vtuple_Inr split: if_splits
      dest!: overlay_write_instructions scan_instructions point_access_instructions)

lemma step_count:
  "step sha V prior prog claims pc m = Inr (r, m') \<Longrightarrow>
   us_instructions (ma_usage m') = Suc (us_instructions (ma_usage m)) \<and>
   us_instructions (ma_usage m') \<le> unat (claims ! 1)"
  unfolding step_def Let_def
  by (auto simp: rbind_eq_Inr arith64_Inr check_amounts_Inr case_sum_eq
      dest!: execute_instruction_count assign_instructions)

function run_from :: "(bytes \<Rightarrow> bytes) \<Rightarrow> view \<Rightarrow> u64 \<Rightarrow> program \<Rightarrow> policy \<Rightarrow> nat \<Rightarrow> machine \<Rightarrow>
    vm_error + outcome" where
  "run_from sha V prior prog claims pc m =
     (case step sha V prior prog claims pc m of
        Inr (Next next, m) \<Rightarrow> run_from sha V prior prog claims next m
      | Inr (Return v, m) \<Rightarrow> Inr (Success (p_result_type prog) v (map effect_of (ma_overlay m)))
      | Inl (FAbort reason user_code detail) \<Rightarrow>
          Inr (Aborted \<lparr>ab_reason = reason, ab_instruction = of_nat pc, ab_user_code = user_code,
            ab_detail = detail\<rparr>)
      | Inl (FError e) \<Rightarrow> Inl e)"
  by pat_completeness auto
termination
  by (relation "measure (\<lambda>(sha, V, prior, prog, claims, pc, m).
      Suc (unat (claims ! 1)) - us_instructions (ma_usage m))")
    (auto dest!: step_count)

declare run_from.simps [simp del]

definition run :: "(bytes \<Rightarrow> bytes) \<Rightarrow> view \<Rightarrow> u64 \<Rightarrow> program \<Rightarrow> policy \<Rightarrow> vm_error + outcome" where
  "run sha V prior prog claims =
     run_from sha V prior prog claims 0
       \<lparr>ma_registers = replicate (length (p_register_types prog)) None, ma_overlay = [],
        ma_usage = usage_default\<rparr>"

end
