(* ===== verification/Blop_Safety.thy ===== *)
theory Blop_Safety
  imports Blop_Runtime
begin

unbundle bit_operations_syntax

section \<open>Verified programs run safely\<close>

text \<open>
  The interpreter never panics on a verified program: no index is out of range, no register
  is read before it is written, no operand has the wrong shape and no counter leaves the
  range of its machine type, whatever the view holds. A step keeps the machine invariant:
  initialised registers hold values of their declared types, the byte counters are the exact
  sums over registers and overlay, every counter is within its claim, and each private write
  is a well-typed row of a declared table.
\<close>

subsection \<open>Results that are not panics\<close>

definition safe :: "failure + 'a \<Rightarrow> bool" where
  "safe r \<longleftrightarrow> r \<noteq> Inl (FError Panic) \<and> r \<noteq> Inl (FError (Storage SPanic))"

named_theorems safe_intros \<open>results of the interpreter that are not panics\<close>

lemma safe_simps [simp]:
  "safe (Inr x)" "safe (Inl (FAbort reason code detail))"
  "safe (Inl (FError e)) \<longleftrightarrow> e \<noteq> Panic \<and> e \<noteq> Storage SPanic"
  by (auto simp: safe_def)

lemma safe_rbind:
  "safe r \<Longrightarrow> (\<And>x. r = Inr x \<Longrightarrow> safe (f x)) \<Longrightarrow> safe (rbind r f)"
  by (cases r) (auto simp: safe_def)

lemma safe_check [safe_intros]: "safe (check_amounts claims amounts)" "safe (check_bound_of ty v)"
  by (induction claims amounts rule: check_amounts.induct)
    (auto simp: check_amounts.simps check_bound_of_def)

lemma safe_vm: "no_panic r \<Longrightarrow> safe (map_err FError r)"
  by (cases r) (auto simp: no_panic_def)

lemma safe_vm_corrupt: "no_panic r \<Longrightarrow> safe (map_err (FError \<circ> corrupt_error) r)"
  by (cases r) (auto simp: no_panic_def corrupt_error_def split: vm_error.splits)

lemma safe_storage: "r \<noteq> Inl SPanic \<Longrightarrow> safe (storage_failure r)"
  by (cases r) (auto simp: storage_failure_def)

lemma safe_add64: "a + b < 2 ^ 64 \<Longrightarrow> safe (add64 a b)"
  by (simp add: add64_def)

lemma safe_sub64: "b \<le> a \<Longrightarrow> safe (sub64 a b)"
  by (simp add: sub64_def)

lemma safe_index: "i < length xs \<Longrightarrow> safe (index_or_panic xs i)"
  by (simp add: index_or_panic_def)

lemma safe_op: "op_ok ty r \<Longrightarrow> safe (op_result r)"
  by (cases r) (auto simp: op_ok_def op_result_def split: op_failure.splits)

subsection \<open>Views without panics\<close>

text \<open>No operation of the view panics. Any other failure or content is allowed.\<close>

definition calm :: "view \<Rightarrow> bool" where
  "calm V \<longleftrightarrow>
     (\<forall>t k. vw_get V t k \<noteq> Inl SPanic) \<and>
     (\<forall>t k. vw_seek V t k \<noteq> Inl SPanic \<and> (\<forall>c. vw_seek V t k \<noteq> Inr (Some (c, Inl SPanic)))) \<and>
     (\<forall>t lo hi. vw_scan V t lo hi \<noteq> Inl SPanic \<and> (\<forall>es. vw_scan V t lo hi = Inr es \<longrightarrow> Inl SPanic \<notin> set es))"

lemma view_of_calm: "view_of V ents \<Longrightarrow> calm V"
  by (auto simp: view_of_def calm_def split: list.splits if_splits)

lemma corrupt_input_calm [simp]: "corrupt_input e = SPanic \<longleftrightarrow> e = SPanic" "SPanic = corrupt_input e \<longleftrightarrow> e = SPanic"
  by (cases e; auto simp: corrupt_input_def)+

lemma calm_codecs [simp]:
  "check_snapshot t s \<noteq> Inl SPanic" "check_key k \<noteq> Inl SPanic" "check_bound b \<noteq> Inl SPanic"
  "value_payload bs \<noteq> Inl SPanic"
  by (auto simp: check_snapshot_def check_key_def check_bound_def value_payload_def Let_def split: bound.splits)

lemma unescape_from_calm: "unescape_from acc bs \<noteq> Inl SPanic"
  by (induction acc bs rule: unescape_from.induct) (auto split: list.splits if_splits)

lemma unescape_calm [simp]: "unescape bs \<noteq> Inl SPanic"
  using unescape_from_calm by (auto simp: unescape_def rbind_eq_Inl)

lemma state_key_decode_calm [simp]: "state_key_decode bs \<noteq> Inl SPanic"
  by (auto simp: state_key_decode_def state_key_new_def rbind_eq_Inl Let_def split: if_splits prod.splits)

lemma mvcc_get_calm: "calm V \<Longrightarrow> mvcc_get V t k s \<noteq> Inl SPanic"
  by (auto simp: mvcc_get_def mvcc_read_value_def rbind_eq_Inl Let_def calm_def map_err_eq_Inl
      split: option.splits if_splits)

lemma state_scan_calm: "Inl SPanic \<notin> set es \<Longrightarrow> Inl SPanic \<notin> set (state_scan t s sel es)"
  by (induction t s sel es rule: state_scan.induct)
    (auto simp: rbind_eq_Inl map_err_eq_Inl split: sum.splits if_splits option.splits)

lemma mvcc_scan_calm:
  assumes "calm V"
  shows "mvcc_scan V t s lo hi \<noteq> Inl SPanic" "mvcc_scan V t s lo hi = Inr es \<Longrightarrow> Inl SPanic \<notin> set es"
  using assms state_scan_calm
  by (auto simp: mvcc_scan_def rbind_eq_Inl rbind_eq_Inr Let_def calm_def)

definition calm_rows :: "(vm_error + entry) list \<Rightarrow> bool" where
  "calm_rows es \<longleftrightarrow> Inl Panic \<notin> set es \<and> Inl (Storage SPanic) \<notin> set es"

lemma until_error_calm: "Inl SPanic \<notin> set es \<Longrightarrow> calm_rows rest \<Longrightarrow> calm_rows (until_error es rest)"
  by (induction es rest rule: until_error.induct) (auto simp: calm_rows_def)

lemma merge_scan_calm: "calm V \<Longrightarrow> calm_rows (merge_scan V t s hi lo ov)"
proof (induction V t s hi lo ov rule: merge_scan.induct)
  case (1 V t s hi lo)
  then show ?case
    using mvcc_scan_calm by (auto simp: calm_rows_def[of "[_]"] calm_rows_def[of "[]"] split: sum.splits intro!: until_error_calm)
next
  case (2 V t s hi lo tid key val ov)
  have "calm_rows ((case val of Some bs \<Rightarrow> [Inr (key, bs)] | None \<Rightarrow> []) @ merge_scan V t s hi (Excluded key) ov)"
    if "(if segment_empty lo (Some key) then Inr [] else mvcc_scan V t s lo (Excluded key)) = Inr es" for es
    using 2(1)[OF that] 2(2) by (auto simp: calm_rows_def split: option.splits)
  then show ?case
    using mvcc_scan_calm[OF 2(2)]
    by (auto simp: calm_rows_def[of "[_]"] split: sum.splits if_splits intro!: until_error_calm)
qed

lemma db_get_no_panic: "calm V \<Longrightarrow> no_panic (db_get V t k s ov)"
  using mvcc_get_calm[of V t k s]
  by (cases "mvcc_get V t k s") (auto simp: db_get_def no_panic_def split: option.splits)

lemma db_scan_rows_calm: "calm V \<Longrightarrow> db_scan V t s lo hi ov = Inr es \<Longrightarrow> calm_rows es"
  using merge_scan_calm by (auto simp: db_scan_def rbind_eq_Inr split: if_splits)

lemma db_scan_no_panic: "ordered_bounds lo hi \<Longrightarrow> no_panic (db_scan V t s lo hi ov)"
  by (auto simp: db_scan_def valid_id_def bt_range_overlay no_panic_def)

lemma read_key_calm: "read_key node s \<noteq> Inl SPanic"
proof (induction node arbitrary: s)
  case (NTuple nodes)
  have "read_each (map read_key ns) s \<noteq> Inl SPanic" if "set ns \<subseteq> set nodes" for ns s
    using that NTuple by (induction ns arbitrary: s) (auto simp: rbind_eq_Inl)
  then show ?case by auto
qed (auto simp: rbind_eq_Inl take_bytes_eq_Inl take_u8_def split: prod.splits if_splits)

lemma decode_key_calm: "decode_key s k \<noteq> Inl SPanic"
  using read_key_calm by (auto simp: decode_key_def rbind_eq_Inl split: if_splits prod.splits)

subsection \<open>Keys\<close>

definition tables_ok :: "program \<Rightarrow> bool" where
  "tables_ok prog \<longleftrightarrow> (\<forall>table \<in> set (p_tables prog).
     t_id table \<noteq> 0 \<and> t_id table \<noteq> - 1 \<and> table_type True (t_key table) \<and> table_type False (t_value table))"

lemma table_descriptor:
  assumes "table_type key ty"
  shows "descriptor ty = Inr (u16_le 1 @ encode_type ty)"
    "schema_decode (u16_le 1 @ encode_type ty) = Inr (schema_of ty (u16_le 1 @ encode_type ty))"
proof -
  show d: "descriptor ty = Inr (u16_le 1 @ encode_type ty)"
    using assms wf_at_counts[of 1 ty] by (simp add: descriptor_def table_type_def wf_type_def)
  then show "schema_decode (u16_le 1 @ encode_type ty) = Inr (schema_of ty (u16_le 1 @ encode_type ty))"
    using assms by (auto simp: schema_decode_exact type_decode_exact table_type_def)
qed

text \<open>The canonical key of a value, in one equation.\<close>

lemma canonical_key_eq:
  assumes "table_type True (t_key table)" "value_utf8 v"
  shows "canonical_key table v claims =
    (if \<not> accepts (t_key table) v then Inl (abort_for BoundExceeded)
     else rbind (check_amounts claims [(10, length (key_of v))]) (\<lambda>_. Inr (key_of v)))"
proof (cases "accepts (t_key table) v")
  case True
  let ?d = "u16_le 1 @ encode_type (t_key table)"
  have "encode_key (schema_of (t_key table) ?d) (encode_value v) = Inr (key_of v)"
    using assms True by (auto simp: encode_key_iff table_type_def MAX_KEY_BYTES_def)
  with True table_descriptor[OF assms(1)] show ?thesis
    by (simp add: canonical_key_def check_bound_of_def storage_failure_def encode_accepted)
qed (simp add: canonical_key_def check_bound_of_def)

lemma canonical_key_ok:
  assumes "table_type True (t_key table)" "value_utf8 v"
  shows "safe (canonical_key table v claims)"
    "canonical_key table v claims = Inr key \<Longrightarrow> key = key_of v \<and> typed (t_key table) v \<and> length key \<le> 1024"
proof -
  show "safe (canonical_key table v claims)"
    unfolding canonical_key_eq[OF assms] by (auto intro!: safe_rbind safe_intros)
  assume "canonical_key table v claims = Inr key"
  then have "key = key_of v" "accepts (t_key table) v"
    unfolding canonical_key_eq[OF assms] by (auto simp: rbind_eq_Inr split: if_splits)
  then show "key = key_of v \<and> typed (t_key table) v \<and> length key \<le> 1024"
    using assms key_of_bound[of "t_key table" v] by (auto simp: table_type_def typed_def)
qed

subsection \<open>The machine invariant\<close>

definition registers_ok :: "program \<Rightarrow> vm_value option list \<Rightarrow> bool" where
  "registers_ok prog rs \<longleftrightarrow> length rs = length (p_register_types prog) \<and>
     (\<forall>r v. r < length rs \<longrightarrow> rs ! r = Some v \<longrightarrow> typed (p_register_types prog ! r) v)"

definition row_ok :: "program \<Rightarrow> address \<times> bytes option \<Rightarrow> bool" where
  "row_ok prog e \<longleftrightarrow> (\<exists>table \<in> set (p_tables prog). \<exists>k. fst (fst e) = t_id table \<and>
     typed (t_key table) k \<and> snd (fst e) = key_of k \<and> length (key_of k) \<le> 1024 \<and>
     (\<forall>bs. snd e = Some bs \<longrightarrow> (\<exists>v. typed (t_value table) v \<and> bs = encode_value v)))"

definition overlay_size :: "overlay \<Rightarrow> nat" where
  "overlay_size ov = sum_list (map (\<lambda>e. entry_size (snd (fst e)) (snd e)) ov)"

definition overlay_ok :: "program \<Rightarrow> overlay \<Rightarrow> bool" where
  "overlay_ok prog ov \<longleftrightarrow> sorted_map ov \<and> (\<forall>e \<in> set ov. row_ok prog e)"

definition usage_ok :: "policy \<Rightarrow> machine \<Rightarrow> bool" where
  "usage_ok claims m \<longleftrightarrow> (let u = ma_usage m in
     us_instructions u \<le> unat (claims ! 1) \<and> us_point_accesses u \<le> unat (claims ! 7) \<and>
     distinct (us_addresses u) \<and> length (us_addresses u) \<le> unat (claims ! 8) \<and>
     us_register_bytes u = sum_list (map held_len (ma_registers m)) \<and> us_register_bytes u \<le> unat (claims ! 11) \<and>
     us_range_rows u \<le> unat (claims ! 12) \<and> us_range_bytes u \<le> unat (claims ! 13) \<and>
     length (ma_overlay m) \<le> unat (claims ! 14) \<and>
     us_overlay_bytes u = overlay_size (ma_overlay m) \<and> us_overlay_bytes u \<le> unat (claims ! 15))"

definition machine_ok :: "program \<Rightarrow> policy \<Rightarrow> machine \<Rightarrow> bool" where
  "machine_ok prog claims m \<longleftrightarrow> registers_ok prog (ma_registers m) \<and> overlay_ok prog (ma_overlay m) \<and> usage_ok claims m"

definition initialised :: "bitset \<Rightarrow> vm_value option list \<Rightarrow> bool" where
  "initialised bits rs \<longleftrightarrow> (\<forall>r < length rs. init_bit bits r \<longrightarrow> rs ! r \<noteq> None)"

lemma claim_bound:
  assumes "policy_ok claims" "i < 17"
  shows "unat (claims ! i) \<le> 67108864"
proof -
  have "list_all (\<lambda>x. x \<le> 67108864) LIMIT_CEILINGS"
    by (simp add: LIMIT_CEILINGS_def)
  then have "LIMIT_CEILINGS ! i \<le> 67108864" "claims ! i \<le> LIMIT_CEILINGS ! i"
    using assms by (simp_all add: list_all_length policy_ok_def list_all2_conv_all_nth)
  then have "claims ! i \<le> 67108864" by simp
  then show ?thesis by (simp add: word_le_nat_alt)
qed

lemma claim_sum: "policy_ok claims \<Longrightarrow> i < 17 \<Longrightarrow> a \<le> unat (claims ! i) \<Longrightarrow> b \<le> 2 ^ 32 \<Longrightarrow> a + b < 2 ^ 64"
  using claim_bound[of claims i] by simp

lemma typed_len: "wf_type ty \<Longrightarrow> typed ty v \<Longrightarrow> encoded_len v \<le> 16777216"
  using accepts_max[of ty v] wf_type_max[of ty] by (simp add: typed_def MAX_VALUE_BYTES_def)

lemma sum_list_update_nat:
  "i < length xs \<Longrightarrow> sum_list (map f (xs[i := x])) = sum_list (map f xs) - f (xs ! i) + (f x :: nat)"
proof (induction xs arbitrary: i)
  case (Cons y ys)
  then show ?case
  proof (cases i)
    case (Suc j)
    then have "f (ys ! j) \<le> sum_list (map f ys)"
      using Cons.prems by (intro member_le_sum_list) auto
    with Suc Cons show ?thesis by simp
  qed simp
qed simp

lemma nth_le_sum_list: "i < length xs \<Longrightarrow> f (xs ! i) \<le> sum_list (map f xs :: nat list)"
  by (intro member_le_sum_list) auto

lemma assign_safe:
  assumes m: "machine_ok prog claims m" and c: "policy_ok claims" and wf: "list_all wf_type (p_register_types prog)"
    and dst: "dst < length (p_register_types prog)"
  shows "safe (assign (p_register_types prog) claims dst v m)"
proof -
  have len: "length (ma_registers m) = length (p_register_types prog)"
    using m by (simp add: machine_ok_def registers_ok_def)
  have bytes: "us_register_bytes (ma_usage m) = sum_list (map held_len (ma_registers m))"
    "us_register_bytes (ma_usage m) \<le> unat (claims ! 11)"
    using m by (auto simp: machine_ok_def usage_ok_def Let_def)
  have old: "held_len (ma_registers m ! dst) \<le> us_register_bytes (ma_usage m)"
    unfolding bytes using dst len by (intro nth_le_sum_list) simp
  have "encoded_len v \<le> 2 ^ 32" if "accepts (p_register_types prog ! dst) v"
    using accepts_max[OF that] wf dst wf_type_max[of "p_register_types prog ! dst"]
    by (simp add: list_all_length MAX_VALUE_BYTES_def)
  then have "us_register_bytes (ma_usage m) - held_len (ma_registers m ! dst) + encoded_len v < 2 ^ 64"
    if "accepts (p_register_types prog ! dst) v"
    using that bytes(2) by (intro claim_sum[OF c, of 11]) auto
  then show ?thesis
    unfolding assign_def using dst len old
    by (intro safe_rbind safe_intros safe_index safe_sub64 safe_add64) (auto simp: result_simps)
qed

lemma assign_ok:
  assumes m: "machine_ok prog claims m" and u: "value_utf8 v"
    and a: "assign (p_register_types prog) claims dst v m = Inr m'"
  shows "machine_ok prog claims m'" "ma_registers m' = (ma_registers m)[dst := Some v]"
    "ma_overlay m' = ma_overlay m" "accepts (p_register_types prog ! dst) v"
proof -
  let ?n = "us_register_bytes (ma_usage m) - held_len (ma_registers m ! dst) + encoded_len v"
  from a have A: "dst < length (p_register_types prog)" "accepts (p_register_types prog ! dst) v"
    "dst < length (ma_registers m)" "?n \<le> unat (claims ! 11)"
    and m': "m' = m\<lparr>ma_registers := (ma_registers m)[dst := Some v], ma_usage := (ma_usage m)\<lparr>us_register_bytes := ?n\<rparr>\<rparr>"
    unfolding assign_Inr by auto
  have "registers_ok prog ((ma_registers m)[dst := Some v])"
    using m A u by (auto simp: machine_ok_def registers_ok_def nth_list_update typed_def)
  moreover have "sum_list (map held_len ((ma_registers m)[dst := Some v])) = ?n"
    using m A(3) by (simp add: sum_list_update_nat held_len_def machine_ok_def usage_ok_def Let_def)
  ultimately show "machine_ok prog claims m'"
    using m A(4) by (simp add: m' machine_ok_def usage_ok_def Let_def)
  show "ma_registers m' = (ma_registers m)[dst := Some v]" "ma_overlay m' = ma_overlay m"
    "accepts (p_register_types prog ! dst) v"
    using A by (simp_all add: m')
qed

subsection \<open>Accesses keep the invariant\<close>

lemma length_insert_address: "length (List.insert a (us_addresses u)) = distinct_with a u"
  by (simp add: distinct_with_def List.insert_def)

lemma distinct_insert_address: "distinct xs \<Longrightarrow> distinct (List.insert a xs)"
  by (simp add: List.insert_def)

lemma machine_ok_usage:
  "machine_ok prog claims m \<Longrightarrow> usage_ok claims (m\<lparr>ma_usage := u\<rparr>) \<Longrightarrow> machine_ok prog claims (m\<lparr>ma_usage := u\<rparr>)"
  by (simp add: machine_ok_def)

lemma usage_ok_bounds:
  assumes "usage_ok claims m"
  shows "us_instructions (ma_usage m) \<le> unat (claims ! 1)" "us_point_accesses (ma_usage m) \<le> unat (claims ! 7)"
    "us_range_rows (ma_usage m) \<le> unat (claims ! 12)" "us_range_bytes (ma_usage m) \<le> unat (claims ! 13)"
    "us_overlay_bytes (ma_usage m) \<le> unat (claims ! 15)"
  using assms by (auto simp: usage_ok_def Let_def)

lemma point_ok:
  assumes "usage_ok claims m" "policy_ok claims"
  shows "safe (point claims a (ma_usage m))"
    "point claims a (ma_usage m) = Inr u \<Longrightarrow> usage_ok claims (m\<lparr>ma_usage := u\<rparr>)"
proof -
  show "safe (point claims a (ma_usage m))"
    unfolding point_def using usage_ok_bounds(2)[OF assms(1)]
    by (intro safe_rbind safe_intros safe_add64 claim_sum[OF assms(2)]) auto
  show "point claims a (ma_usage m) = Inr u \<Longrightarrow> usage_ok claims (m\<lparr>ma_usage := u\<rparr>)"
    using assms(1) unfolding point_Inr usage_ok_def Let_def
    by (simp add: length_insert_address distinct_insert_address)
qed

lemma map_of_Cons_sorted:
  "sorted_map (e # m) \<Longrightarrow> k < fst e \<Longrightarrow> map_of (e # m) k = None"
  by (intro map_of_absent) (auto intro: less_trans)

lemma length_bt_insert:
  "sorted_map m \<Longrightarrow> length (bt_insert k v m) = length m + (if map_of m k = None then 1 else 0)"
proof (induction k v m rule: bt_insert.induct)
  case (2 k v k' v' m)
  then show ?case
    using map_of_Cons_sorted[of "(k', v')" m k] by (cases "k < k'") auto
qed simp

lemma overlay_size_insert:
  "sorted_map ov \<Longrightarrow> overlay_entry ov a \<le> overlay_size ov \<and>
   overlay_size (bt_insert a v ov) = overlay_size ov - overlay_entry ov a + entry_size (snd a) v"
proof (induction a v ov rule: bt_insert.induct)
  case (1 k v)
  then show ?case by (simp add: overlay_entry_def overlay_size_def)
next
  case (2 k v k' v' m)
  show ?case
  proof (cases k k' rule: linorder_cases)
    case less
    then show ?thesis
      using map_of_Cons_sorted[OF 2(2), of k] by (simp add: overlay_size_def overlay_entry_def)
  next
    case equal
    then show ?thesis by (simp add: overlay_size_def overlay_entry_def)
  next
    case greater
    then show ?thesis
      using 2 by (auto simp: overlay_size_def overlay_entry_def)
  qed
qed

lemma overlay_write_safe:
  assumes m: "machine_ok prog claims m" and c: "policy_ok claims" and t: "wf_type (t_value table)"
    and k: "length key \<le> 1024"
  shows "safe (overlay_write claims table key v m)"
proof -
  have ov: "sorted_map (ma_overlay m)" "us_overlay_bytes (ma_usage m) = overlay_size (ma_overlay m)"
    "us_overlay_bytes (ma_usage m) \<le> unat (claims ! 15)"
    using m by (auto simp: machine_ok_def overlay_ok_def usage_ok_def Let_def)
  have old: "overlay_entry (ma_overlay m) (t_id table, key) \<le> us_overlay_bytes (ma_usage m)"
    using overlay_size_insert[OF ov(1)] ov(2) by simp
  have "encoded_len w \<le> 16777216" if "accepts (t_value table) w" for w
    using accepts_max[OF that] wf_type_max[OF t] by (simp add: MAX_VALUE_BYTES_def)
  moreover have "us_overlay_bytes (ma_usage m) + (9 + length key + x) - n < 2 ^ 64" if "x \<le> 16777216" for n x
    using that ov(3) k by (intro le_less_trans[OF diff_le_self] claim_sum[OF c, of 15]) auto
  from this[of 0] this have "us_overlay_bytes (ma_usage m) + (9 + length key) - n < 2 ^ 64"
    "x \<le> 16777216 \<Longrightarrow> us_overlay_bytes (ma_usage m) + (9 + length key + x) - n < 2 ^ 64" for n x
    by simp_all
  ultimately show ?thesis
    unfolding overlay_write_def Let_def using old
    by (cases v) (auto simp: result_simps encode_accepted simp del: power_numeral
        intro!: safe_rbind safe_intros safe_sub64 safe_add64)
qed

lemma overlay_write_ok:
  assumes m: "machine_ok prog claims m" and w: "overlay_write claims table key v m = Inr m'"
    and row: "table \<in> set (p_tables prog)" "typed (t_key table) k" "key = key_of k" "length key \<le> 1024"
    and v: "\<And>x. v = Some x \<Longrightarrow> value_utf8 x"
  shows "machine_ok prog claims m'" "ma_registers m' = ma_registers m"
proof -
  have ov: "sorted_map (ma_overlay m)" "us_overlay_bytes (ma_usage m) = overlay_size (ma_overlay m)"
    "\<forall>e \<in> set (ma_overlay m). row_ok prog e"
    using m by (auto simp: machine_ok_def overlay_ok_def usage_ok_def Let_def)
  have "machine_ok prog claims m' \<and> ma_registers m' = ma_registers m"
    using w
  proof (rule overlay_write_Inr)
    fix n enc
    assume A: "\<And>x. v = Some x \<Longrightarrow> accepts (t_value table) x" "enc = map_option encode_value v"
      and n: "n = us_overlay_bytes (ma_usage m) - overlay_entry (ma_overlay m) (t_id table, key) + entry_size key enc"
        "n \<le> unat (claims ! 15)"
        "length (ma_overlay m) + (if map_of (ma_overlay m) (t_id table, key) = None then 1 else 0) \<le> unat (claims ! 14)"
      and m': "m' = m\<lparr>ma_overlay := bt_insert (t_id table, key) enc (ma_overlay m),
        ma_usage := (ma_usage m)\<lparr>us_overlay_bytes := n\<rparr>\<rparr>"
    have "row_ok prog ((t_id table, key), enc)"
      unfolding row_ok_def using A row v
      by (intro bexI[of _ table] exI[of _ k]) (auto simp: typed_def)
    then have "overlay_ok prog (bt_insert (t_id table, key) enc (ma_overlay m))"
      using ov set_bt_insert[of "(t_id table, key)" enc "ma_overlay m"]
      by (auto simp: overlay_ok_def bt_insert_sorted)
    moreover have "overlay_size (bt_insert (t_id table, key) enc (ma_overlay m)) = n"
      using overlay_size_insert[OF ov(1), of "(t_id table, key)" enc] n(1) ov(2) by simp
    moreover have "length (bt_insert (t_id table, key) enc (ma_overlay m)) \<le> unat (claims ! 14)"
      using n(3) ov(1) by (simp add: length_bt_insert)
    ultimately show ?thesis
      using m n(2) by (simp add: m' machine_ok_def usage_ok_def Let_def)
  qed
  then show "machine_ok prog claims m'" "ma_registers m' = ma_registers m" by auto
qed

subsection \<open>Range reads keep the invariant\<close>

definition table_ok :: "tbl \<Rightarrow> bool" where
  "table_ok table \<longleftrightarrow> t_id table \<noteq> 0 \<and> t_id table \<noteq> - 1 \<and> table_type True (t_key table) \<and> table_type False (t_value table)"

lemma tables_okD: "tables_ok prog \<Longrightarrow> table \<in> set (p_tables prog) \<Longrightarrow> table_ok table"
  by (simp add: tables_ok_def table_ok_def)

lemma table_ok_types: "table_ok table \<Longrightarrow> wf_type (t_key table) \<and> wf_type (t_value table)"
  by (simp add: table_ok_def table_type_def)

lemma loaded_ok:
  assumes "wf_type ty"
  shows "safe (loaded ty bs claims)" "loaded ty bs claims = Inr v \<Longrightarrow> typed ty v \<and> length bs \<le> 16777216"
proof -
  show "safe (loaded ty bs claims)"
    unfolding loaded_def by (intro safe_rbind safe_intros safe_vm_corrupt no_panic_decode_value) simp_all
  assume "loaded ty bs claims = Inr v"
  then have "typed ty v" "bs = encode_value v"
    using decode_value_typed[OF assms] by (auto simp: loaded_def result_simps)
  with typed_len[OF assms] show "typed ty v \<and> length bs \<le> 16777216" by simp
qed

abbreviation key_schema_of :: "tbl \<Rightarrow> schema" where
  "key_schema_of table \<equiv> schema_of (t_key table) (u16_le 1 @ encode_type (t_key table))"

lemma decode_key_ok:
  assumes "table_ok table" "decode_key (key_schema_of table) key = Inr kb"
  shows "\<exists>k. typed (t_key table) k \<and> kb = encode_value k \<and> key = key_of k \<and> length key \<le> 1024"
proof -
  have t: "wf_type (t_key table)" "storable (t_key table)" "max_key_bytes (t_key table) \<le> 1024"
    using assms(1) by (auto simp: table_ok_def table_type_def)
  then obtain k where "accepts (t_key table) k" "value_utf8 k" "kb = encode_value k" "key = key_of k"
    using assms(2) by (auto simp: decode_key_iff)
  with t key_of_bound[of "t_key table" k] show ?thesis by (auto simp: typed_def intro!: exI[of _ k])
qed

lemma scan_row_safe:
  assumes t: "table_ok table" and c: "policy_ok claims" and u: "usage_ok claims (m\<lparr>ma_usage := u\<rparr>)"
    and n: "n \<le> unat (claims ! 13)"
  shows "safe (scan_row table (key_schema_of table) claims byte_limit (key, bs) (u, n))"
proof -
  have size_bound: "a + (length key + length bs) < 2 ^ 64"
    if "decode_key (key_schema_of table) key = Inr kb" "loaded (t_value table) bs claims = Inr v"
      "a \<le> unat (claims ! 13)" for kb v a
  proof (rule claim_sum[OF c _ that(3)])
    have "length key \<le> 1024" "length bs \<le> 16777216"
      using decode_key_ok[OF t that(1)] loaded_ok(2)[OF _ that(2)] table_ok_types[OF t] by auto
    then show "length key + length bs \<le> 2 ^ 32" by simp
  qed simp
  have rows: "us_range_rows u + 1 < 2 ^ 64" and bytes: "us_range_bytes u \<le> unat (claims ! 13)"
    using usage_ok_bounds[OF u] by (auto intro: claim_sum[OF c, of 12 _ 1, simplified])
  show ?thesis
    unfolding scan_row_def Let_def prod.case
    by (intro safe_rbind safe_intros safe_storage safe_vm_corrupt no_panic_decode_value safe_add64 rows
        loaded_ok(1))
      (use table_ok_types[OF t] bytes n size_bound decode_key_calm in
        \<open>auto simp: storage_failure_def map_err_eq_Inl map_err_eq_Inr simp del: power_numeral\<close>)
qed

lemma scan_row_ok:
  assumes t: "table_ok table" and u: "usage_ok claims (m\<lparr>ma_usage := u\<rparr>)"
    and s: "scan_row table (key_schema_of table) claims byte_limit (key, bs) (u, n) = Inr (row, u', n')"
  shows "usage_ok claims (m\<lparr>ma_usage := u'\<rparr>)" "n' \<le> unat byte_limit" "typed (t_key table) (fst row)"
    "typed (t_value table) (snd row)" "key = key_of (fst row)" "bs = encode_value (snd row)"
    "u' = u\<lparr>us_addresses := List.insert (t_id table, key) (us_addresses u), us_range_rows := us_range_rows u + 1,
       us_range_bytes := us_range_bytes u + (length key + length bs)\<rparr>"
proof -
  note wf = table_ok_types[OF t]
  from s obtain kb where 1: "decode_key (key_schema_of table) key = Inr kb" "decode_value (t_key table) kb = Inr (fst row)"
    "decode_value (t_value table) bs = Inr (snd row)"
    "distinct_with (t_id table, key) u \<le> unat (claims ! 8)"
    "us_range_rows u + 1 \<le> unat (claims ! 12)" "us_range_bytes u + (length key + length bs) \<le> unat (claims ! 13)"
    "n' \<le> unat byte_limit"
    and u': "u' = u\<lparr>us_addresses := List.insert (t_id table, key) (us_addresses u), us_range_rows := us_range_rows u + 1,
       us_range_bytes := us_range_bytes u + (length key + length bs)\<rparr>"
    by (rule scan_row_usage)
  show "usage_ok claims (m\<lparr>ma_usage := u'\<rparr>)"
    using u 1 unfolding u' usage_ok_def Let_def
    by (simp add: length_insert_address distinct_insert_address)
  show "n' \<le> unat byte_limit" by (rule 1)
  show "typed (t_key table) (fst row)" "typed (t_value table) (snd row)" "bs = encode_value (snd row)"
    using decode_value_typed 1(2,3) wf by blast+
  obtain k where "typed (t_key table) k" "kb = encode_value k" "key = key_of k"
    using decode_key_ok[OF t 1(1)] by blast
  moreover have "k = fst row"
    using calculation 1(2) wf by (simp add: decode_value_iff typed_def) (metis decode_value_iff sum.inject(2) wf)
  ultimately show "key = key_of (fst row)" by simp
  show "u' = u\<lparr>us_addresses := List.insert (t_id table, key) (us_addresses u), us_range_rows := us_range_rows u + 1,
       us_range_bytes := us_range_bytes u + (length key + length bs)\<rparr>" by (rule u')
qed

lemma scan_rows_ok:
  assumes "table_ok table" "policy_ok claims" "byte_limit \<le> claims ! 13"
    and "calm_rows entries" "usage_ok claims (m\<lparr>ma_usage := u\<rparr>)" "n \<le> unat byte_limit"
  shows "safe (scan_rows table (key_schema_of table) claims byte_limit entries (u, n)) \<and>
    (\<forall>rows u'. scan_rows table (key_schema_of table) claims byte_limit entries (u, n) = Inr (rows, u') \<longrightarrow>
       usage_ok claims (m\<lparr>ma_usage := u'\<rparr>) \<and> value_utf8 (VRows rows))"
  using assms(4-)
proof (induction entries arbitrary: u n)
  case Nil
  then show ?case by simp
next
  case (Cons e entries)
  have n: "unat byte_limit \<le> unat (claims ! 13)" using assms(3) by (simp add: word_le_nat_alt)
  show ?case
  proof (cases e)
    case (Inl err)
    then show ?thesis using Cons.prems by (auto simp: calm_rows_def)
  next
    case (Inr row)
    obtain key bs where row: "row = (key, bs)" by force
    let ?step = "scan_row table (key_schema_of table) claims byte_limit (key, bs) (u, n)"
    have safe: "safe ?step"
      using Cons.prems n by (intro scan_row_safe[OF assms(1,2)]) auto
    have tail: "safe (scan_rows table (key_schema_of table) claims byte_limit entries (u', n')) \<and>
      (\<forall>rows u''. scan_rows table (key_schema_of table) claims byte_limit entries (u', n') = Inr (rows, u'') \<longrightarrow>
         usage_ok claims (m\<lparr>ma_usage := u''\<rparr>) \<and> value_utf8 (VRows rows)) \<and> value_utf8 (fst r) \<and> value_utf8 (snd r)"
      if "?step = Inr (r, u', n')" for r u' n'
      using Cons.IH[of u' n'] Cons.prems scan_row_ok[OF assms(1) Cons.prems(2) that]
      by (auto simp: calm_rows_def typed_def)
    show ?thesis
      using safe tail by (auto simp: Inr row rbind_prod_Inr intro!: safe_rbind)
  qed
qed

lemma scan_key_ok:
  assumes "table_ok table" "\<And>v. x = Some v \<Longrightarrow> value_utf8 v"
  shows "safe (scan_key table claims x)" "scan_key table claims x = Inr (Some key) \<Longrightarrow> length key \<le> 1024"
  using assms canonical_key_ok[of table _ claims]
  by (auto simp: scan_key_def table_ok_def rbind_eq_Inr split: option.splits intro!: safe_rbind)

lemma scan_bounds_ordered:
  "\<not> empty_interval lower upper flags \<Longrightarrow> ordered_bounds (scan_bound flags 1 lower) (scan_bound flags 2 upper)"
  by (auto simp: empty_interval_def scan_bound_def ordered_bounds_def not_less le_less split: option.splits bound.splits)

lemma scan_ok:
  assumes t: "table_ok table" and c: "policy_ok claims" and lim: "byte_limit \<le> claims ! 13" and V: "calm V"
    and m: "machine_ok prog claims m"
    and v: "\<And>x. lower = Some x \<Longrightarrow> value_utf8 x" "\<And>x. upper = Some x \<Longrightarrow> value_utf8 x"
  shows "safe (scan V prior claims table lower upper flags row_limit byte_limit m)"
    "scan V prior claims table lower upper flags row_limit byte_limit m = Inr (val, m') \<Longrightarrow>
     machine_ok prog claims m' \<and> ma_registers m' = ma_registers m \<and> value_utf8 val"
proof -
  note d = table_descriptor[of True "t_key table"]
  have t': "table_type True (t_key table)" using t by (simp add: table_ok_def)
  have calm_take: "calm_rows (take k es)" if "calm_rows es" for k es
    using that set_take_subset[of k es] unfolding calm_rows_def by blast
  have usage: "usage_ok claims (m\<lparr>ma_usage := ma_usage m\<rparr>)"
    using m by (simp add: machine_ok_def)
  have rows: "safe (scan_rows table (key_schema_of table) claims byte_limit (take k es) (ma_usage m, 0)) \<and>
    (\<forall>rows u'. scan_rows table (key_schema_of table) claims byte_limit (take k es) (ma_usage m, 0) = Inr (rows, u') \<longrightarrow>
       usage_ok claims (m\<lparr>ma_usage := u'\<rparr>) \<and> value_utf8 (VRows rows))"
    if "db_scan V (t_id table) prior lo hi (ma_overlay m) = Inr es" for lo hi es k
    using calm_take[OF db_scan_rows_calm[OF V that]] usage by (intro scan_rows_ok[OF t c lim]) auto
  have head: "scan V prior claims table lower upper flags row_limit byte_limit m =
     rbind (scan_key table claims lower) (\<lambda>lower.
     rbind (scan_key table claims upper) (\<lambda>upper.
     if row_limit = 0 \<or> empty_interval lower upper flags then Inr (VRows [], m) else
     rbind (map_err FError (db_scan V (t_id table) prior (scan_bound flags 1 lower)
       (scan_bound flags 2 upper) (ma_overlay m))) (\<lambda>entries.
     rbind (scan_rows table (key_schema_of table) claims byte_limit (take (unat row_limit) entries)
       (ma_usage m, 0)) (\<lambda>(rows, u).
     Inr (VRows rows, m\<lparr>ma_usage := u\<rparr>)))))"
    unfolding scan_def d[OF t'] map_err_simps rbind.simps storage_failure_def ..
  show "safe (scan V prior claims table lower upper flags row_limit byte_limit m)"
    unfolding head
  proof (intro safe_rbind scan_key_ok(1)[OF t] v, assumption, assumption)
    fix lo hi
    show "safe (if row_limit = 0 \<or> empty_interval lo hi flags then Inr (VRows [], m) else
       rbind (map_err FError (db_scan V (t_id table) prior (scan_bound flags 1 lo)
         (scan_bound flags 2 hi) (ma_overlay m))) (\<lambda>entries.
       rbind (scan_rows table (key_schema_of table) claims byte_limit (take (unat row_limit) entries)
         (ma_usage m, 0)) (\<lambda>(rows, u). Inr (VRows rows, m\<lparr>ma_usage := u\<rparr>))))"
    proof (cases "row_limit = 0 \<or> empty_interval lo hi flags")
      case False
      then have "no_panic (db_scan V (t_id table) prior (scan_bound flags 1 lo) (scan_bound flags 2 hi) (ma_overlay m))"
        by (intro db_scan_no_panic scan_bounds_ordered) simp
      with False rows show ?thesis
        by (simp only: if_False) (intro safe_rbind safe_vm, auto simp: map_err_eq_Inr)
    qed simp
  qed
  show "scan V prior claims table lower upper flags row_limit byte_limit m = Inr (val, m') \<Longrightarrow>
     machine_ok prog claims m' \<and> ma_registers m' = ma_registers m \<and> value_utf8 val"
    unfolding head rbind_eq_Inr
  proof (elim exE conjE)
    fix lo hi
    assume R: "(if row_limit = 0 \<or> empty_interval lo hi flags then Inr (VRows [], m) else
       rbind (map_err FError (db_scan V (t_id table) prior (scan_bound flags 1 lo)
         (scan_bound flags 2 hi) (ma_overlay m))) (\<lambda>entries.
       rbind (scan_rows table (key_schema_of table) claims byte_limit (take (unat row_limit) entries)
         (ma_usage m, 0)) (\<lambda>(rows, u). Inr (VRows rows, m\<lparr>ma_usage := u\<rparr>)))) = Inr (val, m')"
    show "machine_ok prog claims m' \<and> ma_registers m' = ma_registers m \<and> value_utf8 val"
    proof (cases "row_limit = 0 \<or> empty_interval lo hi flags")
      case True
      then show ?thesis using R m by auto
    next
      case False
      then obtain es rs u where "db_scan V (t_id table) prior (scan_bound flags 1 lo) (scan_bound flags 2 hi) (ma_overlay m) = Inr es"
        "scan_rows table (key_schema_of table) claims byte_limit (take (unat row_limit) es) (ma_usage m, 0) = Inr (rs, u)"
        "val = VRows rs" "m' = m\<lparr>ma_usage := u\<rparr>"
        using R by (simp only: if_False rbind_prod_Inr rbind_eq_Inr map_err_eq_Inr) auto
      with rows m show ?thesis by (auto intro!: machine_ok_usage)
    qed
  qed
qed

subsection \<open>Instructions keep the invariant\<close>

definition result_ok :: "program \<Rightarrow> policy \<Rightarrow> nat \<Rightarrow> instruction \<Rightarrow> nat option \<Rightarrow> nat \<times> vm_value + step_result \<Rightarrow> bool" where
  "result_ok prog claims pc instr dst r =
     (case r of
        Inl (d, v) \<Rightarrow> dst = Some d \<and> d < length (p_register_types prog) \<and> value_utf8 v \<and> Suc pc \<in> set (successors pc instr)
      | Inr (Next q) \<Rightarrow> dst = None \<and> q \<in> set (successors pc instr)
      | Inr (Return v) \<Rightarrow> typed (p_result_type prog) v \<and> encoded_len v \<le> unat (claims ! 16))"

definition exec_ok :: "program \<Rightarrow> policy \<Rightarrow> machine \<Rightarrow> nat \<Rightarrow> instruction \<Rightarrow> nat option \<Rightarrow>
    failure + (nat \<times> vm_value + step_result) \<times> machine \<Rightarrow> bool" where
  "exec_ok prog claims m pc instr dst R \<longleftrightarrow> safe R \<and> (\<forall>r m'. R = Inr (r, m') \<longrightarrow>
     result_ok prog claims pc instr dst r \<and> machine_ok prog claims m' \<and> ma_registers m' = ma_registers m)"

lemma exec_ok_bind:
  assumes "safe r" "\<And>x. r = Inr x \<Longrightarrow> exec_ok prog claims m pc instr dst (f x)"
  shows "exec_ok prog claims m pc instr dst (rbind r f)"
proof (cases r)
  case (Inl e)
  then show ?thesis using assms(1) by (simp add: exec_ok_def safe_def)
next
  case (Inr x)
  then show ?thesis using assms(2)[OF Inr] by simp
qed

lemma exec_ok_abort [simp]: "exec_ok prog claims m pc instr dst (Inl (FAbort reason code detail))"
  by (simp add: exec_ok_def)

lemma exec_ok_result:
  "machine_ok prog claims m' \<Longrightarrow> ma_registers m' = ma_registers m \<Longrightarrow> result_ok prog claims pc instr dst r \<Longrightarrow>
   exec_ok prog claims m pc instr dst (Inr (r, m'))"
  by (simp add: exec_ok_def)

lemma reg_source:
  assumes "source_type prog bits r = Inr ty" "registers_ok prog rs" "initialised bits rs"
  shows "\<exists>v. register rs r = Inr v \<and> typed ty v"
proof -
  have r: "r < length (p_register_types prog)" "ty = p_register_types prog ! r" "init_bit bits r"
    using assms(1) by (auto simp: source_type_Inr)
  with assms(2,3) obtain v where "rs ! r = Some v"
    by (auto simp: registers_ok_def initialised_def)
  with r assms(2) show ?thesis
    by (auto simp: register_Inr registers_ok_def)
qed

lemma typed_shape: "typed ty v \<Longrightarrow> shaped ty v \<and> value_utf8 v"
  by (simp add: typed_def accepts_shaped)

lemma op_result_ok: "op_ok ty r \<Longrightarrow> op_result r = Inr v \<Longrightarrow> value_utf8 v"
  by (cases r) (auto simp: op_result_def)

lemma point_access_ok:
  assumes m: "machine_ok prog claims m" and c: "policy_ok claims" and t: "tables_ok prog"
    and i: "i < length (p_tables prog)" and k: "register (ma_registers m) k = Inr kv" "value_utf8 kv"
  shows "safe (point_access prog claims i k m)"
    "point_access prog claims i k m = Inr (table, key, m') \<Longrightarrow>
      table = p_tables prog ! i \<and> table \<in> set (p_tables prog) \<and> table_ok table \<and> key = key_of kv \<and> typed (t_key table) kv \<and>
      length key \<le> 1024 \<and> machine_ok prog claims m' \<and> ma_registers m' = ma_registers m \<and> ma_overlay m' = ma_overlay m"
proof -
  have table: "p_tables prog ! i \<in> set (p_tables prog)" "table_ok (p_tables prog ! i)"
    using i t by (auto intro: tables_okD)
  have tk: "table_type True (t_key (p_tables prog ! i))" using table(2) by (simp add: table_ok_def)
  have u: "usage_ok claims m" using m by (simp add: machine_ok_def)
  have idx: "index_or_panic (p_tables prog) i = Inr (p_tables prog ! i)"
    using i by (simp add: index_or_panic_def)
  show "safe (point_access prog claims i k m)"
    unfolding point_access_def machine_point_def k(1) idx rbind.simps
    by (intro safe_rbind canonical_key_ok[OF tk k(2)] point_ok(1)[OF u c]) simp_all
  assume "point_access prog claims i k m = Inr (table, key, m')"
  then obtain u' where P: "table = p_tables prog ! i" "canonical_key table kv claims = Inr key"
    "point claims (t_id table, key) (ma_usage m) = Inr u'" "m' = m\<lparr>ma_usage := u'\<rparr>"
    using k(1) by (auto simp: point_access_Inr)
  have "machine_ok prog claims m'"
    unfolding P(4) using m point_ok(2)[OF u c P(3)] by (rule machine_ok_usage)
  moreover have "key = key_of kv \<and> typed (t_key table) kv \<and> length key \<le> 1024"
    using canonical_key_ok(2)[OF tk k(2)] P(1,2) by blast
  ultimately show "table = p_tables prog ! i \<and> table \<in> set (p_tables prog) \<and> table_ok table \<and> key = key_of kv \<and> typed (t_key table) kv \<and>
      length key \<le> 1024 \<and> machine_ok prog claims m' \<and> ma_registers m' = ma_registers m \<and> ma_overlay m' = ma_overlay m"
    using P(1,4) table by auto
qed

definition setting_ok :: "program \<Rightarrow> vm_type list \<Rightarrow> vm_type list \<Rightarrow> policy \<Rightarrow> view \<Rightarrow> bool" where
  "setting_ok prog at ct claims V \<longleftrightarrow> list_all2 typed at (p_arguments prog) \<and> list_all2 typed ct (p_constants prog) \<and>
     tables_ok prog \<and> list_all wf_type (p_register_types prog) \<and> wf_type (p_result_type prog) \<and>
     policy_ok claims \<and> calm V"

definition ready :: "program \<Rightarrow> policy \<Rightarrow> bitset \<Rightarrow> machine \<Rightarrow> bool" where
  "ready prog claims bits m \<longleftrightarrow> machine_ok prog claims m \<and> initialised bits (ma_registers m)"

lemma ready_source:
  assumes "ready prog claims bits m" "source_type prog bits r = Inr ty"
  obtains v where "register (ma_registers m) r = Inr v" "typed ty v" "value_utf8 v"
  using reg_source[OF assms(2)] assms(1) by (auto simp: ready_def machine_ok_def typed_def)

lemmas verify_simps = verify_instruction_def Let_def rbind_eq_Inr register_type_Inr get_or_def

lemma get_or_Inr [result_simps]: "get_or e xs i = Inr x \<longleftrightarrow> i < length xs \<and> x = xs ! i"
  by (auto simp: get_or_def)

lemma table_at_Inr [result_simps]: "table_at prog i = Inr t \<longleftrightarrow> i < length (p_tables prog) \<and> t = p_tables prog ! i"
  by (simp add: table_at_def get_or_Inr)

text \<open>Instructions on registers only.\<close>

lemma exec_pool:
  assumes "ready prog claims bits m" "setting_ok prog at ct claims V"
    and "verify_instruction instr prog at ct bits claims = Inr dst"
    and "instr = IConst d i \<or> instr = IArg d i"
  shows "exec_ok prog claims m pc instr dst (execute_instruction sha V prior prog claims pc instr m)"
  using assms
  by (auto simp: verify_simps execute_instruction_def index_or_panic_def ready_def setting_ok_def
      list_all2_conv_all_nth typed_def result_ok_def split: if_splits intro!: exec_ok_result)

lemma exec_move:
  assumes "ready prog claims bits m" "setting_ok prog at ct claims V"
    and "verify_instruction (IMove d s) prog at ct bits claims = Inr dst"
  shows "exec_ok prog claims m pc (IMove d s) dst (execute_instruction sha V prior prog claims pc (IMove d s) m)"
proof -
  obtain ty where "source_type prog bits s = Inr ty" "dst = Some d" "d < length (p_register_types prog)"
    using assms(3) by (auto simp: verify_simps)
  then show ?thesis
    using assms(1) by (elim ready_source[OF assms(1)])
      (auto simp: execute_instruction_def ready_def result_ok_def intro!: exec_ok_result)
qed

lemma exec_binary:
  assumes "ready prog claims bits m" "setting_ok prog at ct claims V"
    and "verify_instruction (IBinary op d l r) prog at ct bits claims = Inr dst"
  shows "exec_ok prog claims m pc (IBinary op d l r) dst
    (execute_instruction sha V prior prog claims pc (IBinary op d l r) m)"
proof -
  obtain tl tr where A: "source_type prog bits l = Inr tl" "source_type prog bits r = Inr tr" "dst = Some d"
    "d < length (p_register_types prog)" "verify_binary op (p_register_types prog ! d) tl tr = Inr ()"
    using assms(3) by (auto simp: verify_simps)
  obtain x where x: "register (ma_registers m) l = Inr x" "typed tl x" by (rule ready_source[OF assms(1) A(1)])
  obtain y where y: "register (ma_registers m) r = Inr y" "typed tr y" by (rule ready_source[OF assms(1) A(2)])
  have ok: "op_ok (p_register_types prog ! d) (binary op x y (p_register_types prog ! d))"
    using typed_shape x(2) y(2) by (intro binary_ok[OF A(5)]) auto
  have "exec_ok prog claims m pc (IBinary op d l r) dst
    (rbind (op_result (binary op x y (p_register_types prog ! d))) (\<lambda>v. Inr (Inl (d, v), m)))"
    using A(3,4) assms(1) op_result_ok[OF ok]
    by (intro exec_ok_bind safe_op[OF ok] exec_ok_result) (auto simp: ready_def result_ok_def)
  with A(4) x(1) y(1) show ?thesis
    by (simp add: execute_instruction_def index_or_panic_def)
qed

lemma exec_unary:
  assumes "ready prog claims bits m" "setting_ok prog at ct claims V"
    and "verify_instruction (IUnary op d s) prog at ct bits claims = Inr dst"
  shows "exec_ok prog claims m pc (IUnary op d s) dst
    (execute_instruction sha V prior prog claims pc (IUnary op d s) m)"
proof -
  obtain ts where A: "source_type prog bits s = Inr ts" "dst = Some d"
    "d < length (p_register_types prog)" "verify_unary op (p_register_types prog ! d) ts = Inr ()"
    using assms(3) by (auto simp: verify_simps)
  obtain x where x: "register (ma_registers m) s = Inr x" "typed ts x" by (rule ready_source[OF assms(1) A(1)])
  have ok: "op_ok (p_register_types prog ! d) (unary sha op x)"
    using typed_shape x(2) by (intro unary_ok[OF A(4)]) auto
  have "exec_ok prog claims m pc (IUnary op d s) dst (rbind (op_result (unary sha op x)) (\<lambda>v. Inr (Inl (d, v), m)))"
    using A(2,3) assms(1) op_result_ok[OF ok]
    by (intro exec_ok_bind safe_op[OF ok] exec_ok_result) (auto simp: ready_def result_ok_def)
  with x(1) show ?thesis by (simp add: execute_instruction_def)
qed

lemma exec_slice:
  assumes "ready prog claims bits m" "setting_ok prog at ct claims V"
    and "verify_instruction (ISlice d s a n) prog at ct bits claims = Inr dst"
  shows "exec_ok prog claims m pc (ISlice d s a n) dst
    (execute_instruction sha V prior prog claims pc (ISlice d s a n) m)"
proof -
  obtain k where A: "source_type prog bits s = Inr (TBytes k)" "source_type prog bits a = Inr TU64"
    "source_type prog bits n = Inr TU64" "dst = Some d" "d < length (p_register_types prog)"
    using assms(3) by (auto simp: verify_simps check_shape_Inr)
  obtain x where x: "register (ma_registers m) s = Inr x" "typed (TBytes k) x" by (rule ready_source[OF assms(1) A(1)])
  obtain y where y: "register (ma_registers m) a = Inr y" "typed TU64 y" by (rule ready_source[OF assms(1) A(2)])
  obtain z where z: "register (ma_registers m) n = Inr z" "typed TU64 z" by (rule ready_source[OF assms(1) A(3)])
  have ok: "op_ok (TBytes 0) (slice x y z)"
    using typed_shape[OF x(2)] typed_shape[OF y(2)] typed_shape[OF z(2)] by (intro slice_ok) auto
  have "exec_ok prog claims m pc (ISlice d s a n) dst (rbind (op_result (slice x y z)) (\<lambda>v. Inr (Inl (d, v), m)))"
    using A(4,5) assms(1) op_result_ok[OF ok]
    by (intro exec_ok_bind safe_op[OF ok] exec_ok_result) (auto simp: ready_def result_ok_def)
  with x(1) y(1) z(1) show ?thesis by (simp add: execute_instruction_def)
qed

lemma fields_ok:
  assumes "ready prog claims bits m" "length types = length regs"
    and "verify_fields prog bits types regs = Inr ()"
  shows "safe (tuple_fields (ma_registers m) regs types) \<and>
    (\<exists>vs. rmap (register (ma_registers m)) regs = Inr vs \<and> list_all value_utf8 vs)"
  using assms(2,3)
proof (induction types regs rule: list_induct2)
  case (Cons ty types r regs)
  then obtain s where s: "source_type prog bits r = Inr s" "verify_fields prog bits types regs = Inr ()"
    by (auto simp: rbind_eq_Inr)
  obtain v where "register (ma_registers m) r = Inr v" "value_utf8 v" by (rule ready_source[OF assms(1) s(1)])
  with Cons.IH[OF s(2)] show ?case by (auto intro!: safe_rbind safe_intros)
qed simp

lemma exec_tuple:
  assumes "ready prog claims bits m" "setting_ok prog at ct claims V"
    and "verify_instruction (ITuple d regs) prog at ct bits claims = Inr dst"
  shows "exec_ok prog claims m pc (ITuple d regs) dst
    (execute_instruction sha V prior prog claims pc (ITuple d regs) m)"
proof -
  obtain types where A: "d < length (p_register_types prog)" "p_register_types prog ! d = TTuple types"
    "length types = length regs" "verify_fields prog bits types regs = Inr ()" "dst = Some d"
    using assms(3) by (auto simp: verify_simps case_tuple_Inr split: if_splits)
  obtain vs where vs: "safe (tuple_fields (ma_registers m) regs types)"
    "rmap (register (ma_registers m)) regs = Inr vs" "list_all value_utf8 vs"
    using fields_ok[OF assms(1) A(3,4)] by blast
  have "exec_ok prog claims m pc (ITuple d regs) dst
    (rbind (tuple_fields (ma_registers m) regs types) (\<lambda>_. Inr (Inl (d, VTuple vs), m)))"
    using vs(3) A(1,5) assms(1)
    by (intro exec_ok_bind vs(1) exec_ok_result) (auto simp: ready_def result_ok_def)
  with A(1,2) vs(2) show ?thesis
    by (simp add: execute_instruction_def index_or_panic_def)
qed

lemma exec_field:
  assumes "ready prog claims bits m" "setting_ok prog at ct claims V"
    and "verify_instruction (IField d s i) prog at ct bits claims = Inr dst"
  shows "exec_ok prog claims m pc (IField d s i) dst
    (execute_instruction sha V prior prog claims pc (IField d s i) m)"
proof -
  obtain tys where A: "source_type prog bits s = Inr (TTuple tys)" "i < length tys" "dst = Some d" "d < length (p_register_types prog)"
    using assms(3) by (auto simp: verify_instruction_def rbind_eq_Inr case_tuple_Inr get_or_Inr register_type_Inr)
  obtain x where x: "register (ma_registers m) s = Inr x" "typed (TTuple tys) x" by (rule ready_source[OF assms(1) A(1)])
  then obtain vs where vs: "x = VTuple vs" "length vs = length tys" "list_all value_utf8 vs"
    by (cases x) (auto simp: typed_def dest: list_all2_lengthD)
  with A x(1) assms(1) show ?thesis
    by (auto simp: execute_instruction_def index_or_panic_def ready_def result_ok_def list_all_length intro!: exec_ok_result)
qed

lemma exec_control:
  assumes "ready prog claims bits m" "setting_ok prog at ct claims V"
    and "verify_instruction instr prog at ct bits claims = Inr dst"
    and "instr = IJump t \<or> instr = IJumpIfFalse s t \<or> instr = IRequire s code \<or> instr = IAbort code \<or> instr = IReturn s"
  shows "exec_ok prog claims m pc instr dst (execute_instruction sha V prior prog claims pc instr m)"
proof (cases "instr = IJump t \<or> instr = IAbort code")
  case True
  then show ?thesis
    using assms(1,3) by (auto simp: verify_instruction_def execute_instruction_def ready_def result_ok_def intro!: exec_ok_result)
next
  case False
  then obtain ty where A: "source_type prog bits s = Inr ty" "dst = None"
    using assms(3,4) by (auto simp: verify_instruction_def rbind_eq_Inr)
  obtain x where x: "register (ma_registers m) s = Inr x" "typed ty x" "value_utf8 x" by (rule ready_source[OF assms(1) A(1)])
  show ?thesis
    using False assms(1,4) x A(2)
    by (auto simp: execute_instruction_def ready_def result_ok_def check_bound_of_Inr check_amounts_Inr typed_def
        intro!: exec_ok_result exec_ok_bind safe_intros)
qed

text \<open>Instructions on tables.\<close>

lemma exec_read:
  assumes "ready prog claims bits m" "setting_ok prog at ct claims V"
    and "verify_instruction instr prog at ct bits claims = Inr dst"
    and "instr = ILoad d t k \<or> instr = IExists d t k"
  shows "exec_ok prog claims m pc instr dst (execute_instruction sha V prior prog claims pc instr m)"
proof -
  have S: "tables_ok prog" "policy_ok claims" "calm V" and m: "machine_ok prog claims m"
    using assms(1,2) by (auto simp: setting_ok_def ready_def)
  obtain tk where A: "t < length (p_tables prog)" "source_type prog bits k = Inr tk" "dst = Some d" "d < length (p_register_types prog)"
    using assms(3,4) by (auto simp: verify_instruction_def rbind_eq_Inr table_at_Inr register_type_Inr)
  obtain kv where kv: "register (ma_registers m) k = Inr kv" "value_utf8 kv" by (rule ready_source[OF assms(1) A(2)])
  note P = point_access_ok[OF m S(2,1) A(1) kv]
  have load: "exec_ok prog claims m pc instr dst
    (rbind (map_err FError (db_get V (t_id table) key prior (ma_overlay m'))) (\<lambda>bs.
     rbind (ok_or (abort_for MissingKey) bs) (\<lambda>bs.
     rbind (loaded (t_value table) bs claims) (\<lambda>v. Inr (Inl (d, v), m')))))"
    if "point_access prog claims t k m = Inr (table, key, m')" "instr = ILoad d t k" for table key m'
  proof -
    have wf: "wf_type (t_value table)" using P(2)[OF that(1)] table_ok_types by blast
    show ?thesis
      by (intro exec_ok_bind safe_vm db_get_no_panic S loaded_ok(1) wf exec_ok_result)
        (use P(2)[OF that(1)] A(3,4) that(2) loaded_ok(2)[OF wf] in \<open>auto simp: result_ok_def ok_or_def typed_def split: option.splits\<close>)
  qed
  have exists: "exec_ok prog claims m pc instr dst
    (rbind (map_err FError (db_get V (t_id table) key prior (ma_overlay m'))) (\<lambda>bs.
     Inr (Inl (d, VBoolean (bs \<noteq> None)), m')))"
    if "point_access prog claims t k m = Inr (table, key, m')" "instr = IExists d t k" for table key m'
    by (intro exec_ok_bind safe_vm db_get_no_panic S exec_ok_result)
      (use P(2)[OF that(1)] A(3,4) that(2) in \<open>auto simp: result_ok_def\<close>)
  from assms(4) show ?thesis
  proof
    assume i: "instr = ILoad d t k"
    show ?thesis unfolding i execute_instruction_def Let_def instruction.case
      by (rule exec_ok_bind[OF P(1)]) (use load i in \<open>auto simp only: split_paired_all prod.case\<close>)
  next
    assume i: "instr = IExists d t k"
    show ?thesis unfolding i execute_instruction_def Let_def instruction.case
      by (rule exec_ok_bind[OF P(1)]) (use exists i in \<open>auto simp only: split_paired_all prod.case\<close>)
  qed
qed

lemma write_result:
  assumes m: "machine_ok prog claims m'" "ma_registers m' = ma_registers m" and c: "policy_ok claims"
    and t: "table \<in> set (p_tables prog)" "table_ok table" "typed (t_key table) kv" "key = key_of kv" "length key \<le> 1024"
    and v: "\<And>x. v = Some x \<Longrightarrow> value_utf8 x" and dst: "dst = None" "Suc pc \<in> set (successors pc instr)"
  shows "exec_ok prog claims m pc instr dst (rbind (overlay_write claims table key v m') (\<lambda>m. Inr (Inr (Next (pc + 1)), m)))"
proof (rule exec_ok_bind)
  show "safe (overlay_write claims table key v m')"
    using t(2,5) table_ok_types by (intro overlay_write_safe[OF m(1) c]) auto
  fix m'' assume w: "overlay_write claims table key v m' = Inr m''"
  show "exec_ok prog claims m pc instr dst (Inr (Inr (Next (pc + 1)), m''))"
    using overlay_write_ok[OF m(1) w t(1,3,4,5) v] m(2) dst
    by (intro exec_ok_result) (auto simp: result_ok_def)
qed

lemma exec_write:
  assumes "ready prog claims bits m" "setting_ok prog at ct claims V"
    and "verify_instruction instr prog at ct bits claims = Inr dst"
    and "instr = IInsert t k v \<or> instr = IStore t k v \<or> instr = IDelete t k"
  shows "exec_ok prog claims m pc instr dst (execute_instruction sha V prior prog claims pc instr m)"
proof -
  have S: "tables_ok prog" "policy_ok claims" "calm V" and m: "machine_ok prog claims m"
    using assms(1,2) by (auto simp: setting_ok_def ready_def)
  obtain tk where A: "t < length (p_tables prog)" "source_type prog bits k = Inr tk" "dst = None"
    using assms(3,4) by (auto simp: verify_instruction_def Let_def rbind_eq_Inr table_at_Inr)
  obtain kv where kv: "register (ma_registers m) k = Inr kv" "value_utf8 kv" by (rule ready_source[OF assms(1) A(2)])
  have val: "\<exists>x. register (ma_registers m) v = Inr x \<and> value_utf8 x" if is_write: "instr \<noteq> IDelete t k"
  proof -
    obtain tv where "source_type prog bits v = Inr tv"
      using assms(3,4) is_write by (auto simp: verify_instruction_def Let_def rbind_eq_Inr)
    then show ?thesis by (metis ready_source[OF assms(1)])
  qed
  note P = point_access_ok[OF m S(2,1) A(1) kv]
  have succ: "Suc pc \<in> set (successors pc instr)" using assms(4) by auto
  have W: "exec_ok prog claims m pc instr dst (rbind (overlay_write claims table key x m') (\<lambda>m. Inr (Inr (Next (pc + 1)), m)))"
    if "point_access prog claims t k m = Inr (table, key, m')" "\<And>y. x = Some y \<Longrightarrow> value_utf8 y" for table key m' x
    using P(2)[OF that(1)] that(2) by (intro write_result[OF _ _ S(2) _ _ _ _ _ _ A(3) succ]) auto
  have body: "exec_ok prog claims m pc instr dst (rbind (point_access prog claims t k m) f)"
    if "\<And>table key m'. point_access prog claims t k m = Inr (table, key, m') \<Longrightarrow> exec_ok prog claims m pc instr dst (f (table, key, m'))" for f
    using that by (intro exec_ok_bind P(1)) (auto simp only: split_paired_all)
  from assms(4) consider "instr = IDelete t k" | "instr \<noteq> IDelete t k" "instr = IInsert t k v" | "instr \<noteq> IDelete t k" "instr = IStore t k v"
    by auto
  then show ?thesis
  proof cases
    case 1
    show ?thesis
      unfolding execute_instruction_def Let_def
      by (subst (2) 1, simp only: instruction.case) (rule body, simp only: prod.case, rule W, auto)
  next
    case 2
    obtain x where x: "register (ma_registers m) v = Inr x" "value_utf8 x" using val[OF 2(1)] by blast
    show ?thesis
      unfolding execute_instruction_def Let_def x(1) rbind.simps
      by (subst (2) 2(2), simp only: instruction.case) (rule body, simp only: prod.case x(1) rbind.simps,
        rule exec_ok_bind, rule safe_vm, rule db_get_no_panic, rule S, auto simp: x(2) simp del: Suc_eq_plus1 intro!: W[simplified])
  next
    case 3
    obtain x where x: "register (ma_registers m) v = Inr x" "value_utf8 x" using val[OF 3(1)] by blast
    show ?thesis
      unfolding execute_instruction_def Let_def
      by (subst (2) 3(2), simp only: instruction.case) (rule body, simp only: prod.case x(1) rbind.simps, rule W, auto simp: x(2))
  qed
qed

lemma exec_scan:
  assumes "ready prog claims bits m" "setting_ok prog at ct claims V"
    and "verify_instruction (IScan d t lower upper flags row_limit byte_limit) prog at ct bits claims = Inr dst"
  shows "exec_ok prog claims m pc (IScan d t lower upper flags row_limit byte_limit) dst
    (execute_instruction sha V prior prog claims pc (IScan d t lower upper flags row_limit byte_limit) m)"
proof -
  have S: "tables_ok prog" "policy_ok claims" "calm V" and m: "machine_ok prog claims m"
    using assms(1,2) by (auto simp: setting_ok_def ready_def)
  have A: "byte_limit \<le> claims ! 13" "t < length (p_tables prog)" "dst = Some d" "d < length (p_register_types prog)"
    "verify_endpoints prog bits (t_key (p_tables prog ! t)) [lower, upper] = Inr ()"
    using assms(3) by (auto simp: verify_instruction_def Let_def rbind_eq_Inr table_at_Inr register_type_Inr
        case_rows_Inr not_less split: if_splits)
  have endpoint: "\<exists>x. (case e of None \<Rightarrow> Inr None | Some r \<Rightarrow> rbind (register (ma_registers m) r) (\<lambda>v. Inr (Some v))) = Inr x
      \<and> (\<forall>v. x = Some v \<longrightarrow> value_utf8 v)" if e: "e = lower \<or> e = upper" for e
  proof (cases e)
    case (Some r)
    then obtain ty where "source_type prog bits r = Inr ty"
      using A(5) e by (cases lower; cases upper) (auto simp: rbind_eq_Inr)
    then obtain v where "register (ma_registers m) r = Inr v" "value_utf8 v" by (rule ready_source[OF assms(1)])
    with Some show ?thesis by simp
  qed simp
  obtain lo where lo: "(case lower of None \<Rightarrow> Inr None | Some r \<Rightarrow> rbind (register (ma_registers m) r) (\<lambda>v. Inr (Some v))) = Inr lo"
    "\<And>v. lo = Some v \<Longrightarrow> value_utf8 v" using endpoint[of lower] by blast
  obtain hi where hi: "(case upper of None \<Rightarrow> Inr None | Some r \<Rightarrow> rbind (register (ma_registers m) r) (\<lambda>v. Inr (Some v))) = Inr hi"
    "\<And>v. hi = Some v \<Longrightarrow> value_utf8 v" using endpoint[of upper] by blast
  let ?table = "p_tables prog ! t"
  have table: "table_ok ?table" using S(1) A(2) by (intro tables_okD) auto
  have idx: "index_or_panic (p_tables prog) t = Inr ?table" using A(2) by (simp add: index_or_panic_def)
  note scan = scan_ok[OF table S(2) A(1) S(3) m lo(2) hi(2)]
  show ?thesis
    unfolding execute_instruction_def Let_def instruction.case idx rbind.simps lo(1) hi(1)
    by (rule exec_ok_bind[OF scan(1)]) (use scan(2) A(3,4) in \<open>auto simp: result_ok_def intro!: exec_ok_result\<close>)
qed

lemma execute_ok:
  assumes "ready prog claims bits m" "setting_ok prog at ct claims V"
    and "verify_instruction instr prog at ct bits claims = Inr dst"
  shows "exec_ok prog claims m pc instr dst (execute_instruction sha V prior prog claims pc instr m)"
proof (cases instr)
  case (IConst d i)
  then show ?thesis by (intro exec_pool[where d = d and i = i]) (use assms in simp_all)
next
  case (IArg d i)
  then show ?thesis by (intro exec_pool[where d = d and i = i]) (use assms in simp_all)
next
  case (IMove d s)
  show ?thesis unfolding IMove by (rule exec_move[OF assms[unfolded IMove]])
next
  case (IBinary op d l r)
  show ?thesis unfolding IBinary by (rule exec_binary[OF assms[unfolded IBinary]])
next
  case (IUnary op d s)
  show ?thesis unfolding IUnary by (rule exec_unary[OF assms[unfolded IUnary]])
next
  case (ILoad d t k)
  then show ?thesis by (intro exec_read[where d = d and t = t and k = k]) (use assms in simp_all)
next
  case (IExists d t k)
  then show ?thesis by (intro exec_read[where d = d and t = t and k = k]) (use assms in simp_all)
next
  case (IInsert t k v)
  then show ?thesis by (intro exec_write[where t = t and k = k and v = v]) (use assms in simp_all)
next
  case (IStore t k v)
  then show ?thesis by (intro exec_write[where t = t and k = k and v = v]) (use assms in simp_all)
next
  case (IDelete t k)
  then show ?thesis by (intro exec_write[where t = t and k = k and v = 0]) (use assms in simp_all)
next
  case (IScan d t lower upper flags row_limit byte_limit)
  show ?thesis unfolding IScan by (rule exec_scan[OF assms[unfolded IScan]])
next
  case (ISlice d s a n)
  show ?thesis unfolding ISlice by (rule exec_slice[OF assms[unfolded ISlice]])
next
  case (ITuple d regs)
  show ?thesis unfolding ITuple by (rule exec_tuple[OF assms[unfolded ITuple]])
next
  case (IField d s i)
  show ?thesis unfolding IField by (rule exec_field[OF assms[unfolded IField]])
next
  case (IJump t)
  then show ?thesis by (intro exec_control[where t = t and s = 0 and code = 0]) (use assms in simp_all)
next
  case (IJumpIfFalse s t)
  then show ?thesis by (intro exec_control[where t = t and s = s and code = 0]) (use assms in simp_all)
next
  case (IRequire s code)
  then show ?thesis by (intro exec_control[where t = 0 and s = s and code = code]) (use assms in simp_all)
next
  case (IAbort code)
  then show ?thesis by (intro exec_control[where t = 0 and s = 0 and code = code]) (use assms in simp_all)
next
  case (IReturn s)
  then show ?thesis by (intro exec_control[where t = 0 and s = s and code = 0]) (use assms in simp_all)
qed

subsection \<open>Steps and runs\<close>

definition step_ok :: "program \<Rightarrow> policy \<Rightarrow> (nat \<Rightarrow> bitset) \<Rightarrow> nat \<Rightarrow> step_result \<Rightarrow> machine \<Rightarrow> bool" where
  "step_ok prog claims I pc r m \<longleftrightarrow>
     (case r of
        Next q \<Rightarrow> pc < q \<and> q < length (p_instructions prog) \<and> ready prog claims (I q) m
      | Return v \<Rightarrow> machine_ok prog claims m \<and> typed (p_result_type prog) v \<and> encoded_len v \<le> unat (claims ! 16))"

lemma initialised_mono:
  "initialised a rs \<Longrightarrow> (\<And>r. init_bit b r \<Longrightarrow> init_bit a r) \<Longrightarrow> initialised b rs"
  by (auto simp: initialised_def)

lemma initialised_assign:
  "initialised a rs \<Longrightarrow> (\<And>r. init_bit b r \<Longrightarrow> init_bit a r \<or> r = d) \<Longrightarrow> initialised b (rs[d := Some v])"
  unfolding initialised_def length_list_update by (metis nth_list_update_eq nth_list_update_neq option.distinct(1))

lemma exec_okD:
  assumes "exec_ok prog claims m pc instr dst R"
  shows "safe R" "R = Inr (r, m') \<Longrightarrow> result_ok prog claims pc instr dst r"
    "R = Inr (r, m') \<Longrightarrow> machine_ok prog claims m'" "R = Inr (r, m') \<Longrightarrow> ma_registers m' = ma_registers m"
  using assms unfolding exec_ok_def by blast+

lemma step_safe:
  assumes sol: "solution prog at ct claims I" and set: "setting_ok prog at ct claims V"
    and pc: "pc < length (p_instructions prog)" and r: "ready prog claims (I pc) m"
  shows "safe (step sha V prior prog claims pc m)"
    "step sha V prior prog claims pc m = Inr (res, m') \<Longrightarrow> step_ok prog claims I pc res m'"
proof -
  let ?instr = "p_instructions prog ! pc"
  let ?m = "m\<lparr>ma_usage := (ma_usage m)\<lparr>us_instructions := us_instructions (ma_usage m) + 1\<rparr>\<rparr>"
  let ?add = "add64 (us_instructions (ma_usage m)) 1" and ?check = "check_amounts claims [(2, us_instructions (ma_usage m) + 1)]"
  have c: "policy_ok claims" and wf: "list_all wf_type (p_register_types prog)"
    using set by (auto simp: setting_ok_def)
  have mok: "machine_ok prog claims m" and init: "initialised (I pc) (ma_registers m)" using r by (auto simp: ready_def)
  have small: "us_instructions (ma_usage m) + 1 < 2 ^ 64"
    using mok by (intro claim_sum[OF c, of 1]) (auto simp: machine_ok_def usage_ok_def Let_def)
  have add: "?add = Inr (us_instructions (ma_usage m) + 1)" using small by (simp add: add64_def)
  have ready: "ready prog claims (I pc) ?m" if "?check = Inr ()"
    using that mok init by (simp add: check_amounts_Inr ready_def machine_ok_def usage_ok_def Let_def)
  have idx: "index_or_panic (p_instructions prog) pc = Inr ?instr" using pc by (simp add: index_or_panic_def)
  have node: "node_ok prog at ct claims I pc" using sol pc by (simp add: solution_def)
  then obtain dst where dst: "verify_instruction ?instr prog at ct (I pc) claims = Inr dst"
    and succ: "\<And>j. j \<in> set (successors pc ?instr) \<Longrightarrow> pc < j \<and> j < length (p_instructions prog) \<and>
      (\<forall>r. init_bit (I j) r \<longrightarrow> init_bit (I pc) r \<or> dst = Some r)"
    by (auto simp: node_ok_def)
  let ?exec = "execute_instruction sha V prior prog claims pc ?instr ?m"
  have exec: "exec_ok prog claims ?m pc ?instr dst ?exec" if "?check = Inr ()"
    by (rule execute_ok[OF ready[OF that] set dst])
  have eq: "step sha V prior prog claims pc m = rbind ?check (\<lambda>_. rbind ?exec (\<lambda>(r, m).
     case r of
       Inl (dst, v) \<Rightarrow> rbind (assign (p_register_types prog) claims dst v m) (\<lambda>m. Inr (Next (pc + 1), m))
     | Inr result \<Rightarrow> Inr (result, m)))"
    unfolding step_def add rbind.simps Let_def idx ..
  show "safe (step sha V prior prog claims pc m)"
    unfolding eq
  proof (intro safe_rbind safe_intros)
    fix u x assume "?check = Inr u" and x: "?exec = Inr x"
    then have e: "exec_ok prog claims ?m pc ?instr dst ?exec" using exec by simp
    obtain r m1 where rm: "x = (r, m1)" by force
    note E = exec_okD(2,3)[OF e x[unfolded rm]]
    show "safe (case x of (r, m) \<Rightarrow> case r of
        Inl (dst, v) \<Rightarrow> rbind (assign (p_register_types prog) claims dst v m) (\<lambda>m. Inr (Next (pc + 1), m))
      | Inr result \<Rightarrow> Inr (result, m))"
    proof (cases r)
      case (Inl p)
      then obtain d v where p: "r = Inl (d, v)" by (cases p) auto
      then have "d < length (p_register_types prog)" using E(1) by (simp add: result_ok_def)
      from assign_safe[OF E(2) c wf this] show ?thesis
        unfolding rm p prod.case sum.case by (intro safe_rbind) simp_all
    qed (simp add: rm)
  next
    fix u assume "?check = Inr u"
    then show "safe ?exec" using exec_okD(1)[OF exec] by simp
  qed
  assume "step sha V prior prog claims pc m = Inr (res, m')"
  then obtain r m1 where x: "?check = Inr ()" "?exec = Inr (r, m1)" and R: "(case r of
       Inl (dst, v) \<Rightarrow> rbind (assign (p_register_types prog) claims dst v m1) (\<lambda>m. Inr (Next (pc + 1), m))
     | Inr result \<Rightarrow> Inr (result, m1)) = Inr (res, m')"
    unfolding eq rbind_prod_Inr rbind_eq_Inr by auto
  note E0 = exec_okD(2-4)[OF exec[OF x(1)] x(2)]
  then have E: "result_ok prog claims pc ?instr dst r" "machine_ok prog claims m1" "ma_registers m1 = ma_registers m"
    by simp_all
  show "step_ok prog claims I pc res m'"
  proof (cases r)
    case (Inl p)
    then obtain d v where p: "r = Inl (d, v)" by (cases p) auto
    have a: "assign (p_register_types prog) claims d v m1 = Inr m'" "res = Next (pc + 1)"
      using R unfolding p sum.case prod.case rbind_eq_Inr by blast+
    have D: "dst = Some d" "value_utf8 v" "Suc pc \<in> set (successors pc ?instr)"
      using E(1) by (auto simp: p result_ok_def)
    note A = assign_ok[OF E(2) D(2) a(1)]
    have "initialised (I (Suc pc)) (ma_registers m')"
      unfolding A(2) E(3) by (rule initialised_assign[OF init]) (use succ[OF D(3)] D(1) in blast)
    then show ?thesis using A(1) succ[OF D(3)] a(2) by (simp add: step_ok_def ready_def)
  next
    case (Inr q)
    then have q: "res = q" "m' = m1" using R by auto
    show ?thesis
    proof (cases q)
      case (Next j)
      then have D: "dst = None" "j \<in> set (successors pc ?instr)"
        using E(1) Inr by (auto simp: result_ok_def)
      have "initialised (I j) (ma_registers m1)"
        unfolding E(3) by (rule initialised_mono[OF init]) (use succ[OF D(2)] D(1) in blast)
      then show ?thesis using E(2) succ[OF D(2)] q Next by (simp add: step_ok_def ready_def)
    next
      case (Return v)
      then show ?thesis using E(1,2) Inr q by (simp add: step_ok_def result_ok_def)
    qed
  qed
qed

text \<open>
  What a run delivers. On success: a result of the declared type within its claim, and the
  effects are the overlay in ascending address order, every one a well-typed row of a
  declared table, within the claimed number and bytes of writes.
\<close>

definition outcome_ok :: "program \<Rightarrow> policy \<Rightarrow> outcome \<Rightarrow> bool" where
  "outcome_ok prog claims out =
     (case out of
        Success ty v effs \<Rightarrow> ty = p_result_type prog \<and> typed ty v \<and> encoded_len v \<le> unat (claims ! 16) \<and>
          (\<exists>ov. effs = map effect_of ov \<and> sorted_map ov \<and> (\<forall>e \<in> set ov. row_ok prog e) \<and>
             length ov \<le> unat (claims ! 14) \<and> overlay_size ov \<le> unat (claims ! 15))
      | Aborted a \<Rightarrow> ab_instruction a \<in> of_nat ` {..< length (p_instructions prog)})"

lemma success_ok:
  assumes "machine_ok prog claims m" "typed (p_result_type prog) v" "encoded_len v \<le> unat (claims ! 16)"
  shows "outcome_ok prog claims (Success (p_result_type prog) v (map effect_of (ma_overlay m)))"
proof -
  have "sorted_map (ma_overlay m)" "\<forall>e \<in> set (ma_overlay m). row_ok prog e"
    "length (ma_overlay m) \<le> unat (claims ! 14)" "overlay_size (ma_overlay m) \<le> unat (claims ! 15)"
    using assms(1) by (auto simp: machine_ok_def overlay_ok_def usage_ok_def Let_def)
  with assms show ?thesis unfolding outcome_ok_def by auto
qed

lemma run_from_ok:
  assumes "solution prog at ct claims I" "setting_ok prog at ct claims V"
  shows "pc < length (p_instructions prog) \<Longrightarrow> ready prog claims (I pc) m \<Longrightarrow>
    no_panic (run_from sha V prior prog claims pc m) \<and>
    (\<forall>out. run_from sha V prior prog claims pc m = Inr out \<longrightarrow> outcome_ok prog claims out)"
  using assms
proof (induction sha V prior prog claims pc m rule: run_from.induct)
  case (1 sha V prior prog claims pc m)
  note S = step_safe[OF "1.prems"(3,4,1,2), of sha prior]
  show ?case
  proof (cases "step sha V prior prog claims pc m")
    case (Inl f)
    with S(1) "1.prems"(1) show ?thesis
      by (cases f) (auto simp: run_from.simps[of sha V prior prog claims pc m] no_panic_def outcome_ok_def)
  next
    case (Inr p)
    obtain r m' where p: "p = (r, m')" by force
    note ok = S(2)[OF Inr[unfolded p]]
    show ?thesis
    proof (cases r)
      case (Next q)
      have "q < length (p_instructions prog)" "ready prog claims (I q) m'"
        using ok by (auto simp: Next step_ok_def)
      from "1.IH"[OF Inr p[symmetric] Next this "1.prems"(3,4)] show ?thesis
        by (simp add: run_from.simps[of sha V prior prog claims pc m] Inr p Next)
    next
      case (Return v)
      have "machine_ok prog claims m'" "typed (p_result_type prog) v" "encoded_len v \<le> unat (claims ! 16)"
        using ok by (auto simp: Return step_ok_def)
      from success_ok[OF this] show ?thesis
        by (simp add: run_from.simps[of sha V prior prog claims pc m] Inr p Return)
    qed
  qed
qed

lemma initial_ready:
  assumes "\<forall>r. \<not> init_bit bits r"
  shows "ready prog claims bits \<lparr>ma_registers = replicate (length (p_register_types prog)) None, ma_overlay = [],
    ma_usage = usage_default\<rparr>"
  using assms
  by (simp add: ready_def machine_ok_def registers_ok_def overlay_ok_def usage_ok_def initialised_def
      usage_default_def overlay_size_def held_len_def Let_def sum_list_0)

lemma run_ok:
  assumes "program_ok prog claims" "tables_ok prog" "policy_ok claims" "calm V"
  shows "no_panic (run sha V prior prog claims)"
    "run sha V prior prog claims = Inr out \<Longrightarrow> outcome_ok prog claims out"
proof -
  obtain at ct I where S: "solution prog at ct claims I" "setting_ok prog at ct claims V"
    using assms by (auto simp: program_ok_def setting_ok_def)
  have "0 < length (p_instructions prog)" "\<forall>r. \<not> init_bit (I 0) r"
    using S(1) by (auto simp: solution_def)
  from run_from_ok[OF S this(1) initial_ready[OF this(2)]]
  show "no_panic (run sha V prior prog claims)"
    "run sha V prior prog claims = Inr out \<Longrightarrow> outcome_ok prog claims out"
    by (auto simp: run_def)
qed

subsection \<open>Executions as a step relation\<close>

definition initial_machine :: "program \<Rightarrow> machine" where
  "initial_machine prog =
     \<lparr>ma_registers = replicate (length (p_register_types prog)) None, ma_overlay = [], ma_usage = usage_default\<rparr>"

inductive reaches :: "(bytes \<Rightarrow> bytes) \<Rightarrow> view \<Rightarrow> u64 \<Rightarrow> program \<Rightarrow> policy \<Rightarrow> nat \<Rightarrow> nat \<Rightarrow> machine \<Rightarrow> bool"
  for sha V prior prog claims where
  start: "reaches sha V prior prog claims 0 0 (initial_machine prog)"
| onward: "reaches sha V prior prog claims n pc m \<Longrightarrow> step sha V prior prog claims pc m = Inr (Next q, m') \<Longrightarrow>
     reaches sha V prior prog claims (Suc n) q m'"

inductive_cases reaches_zero: "reaches sha V prior prog claims 0 pc m"




subsection \<open>Properties\<close>

text \<open>
  C1: Running a verified program never panics: whatever a view that does not panic itself
  holds, no index is out of range, no register is read before it is assigned, no operand has
  an unexpected shape and no counter overflows.
\<close>

theorem run_never_panics:
  assumes "program_ok prog claims" "tables_ok prog" "policy_ok claims" "calm V"
  shows "no_panic (run sha V prior prog claims)"
  using assms by (rule run_ok(1))

lemma example_calm: "calm (list_view example_entries)"
  using example_view by (rule view_of_calm)

definition example_program :: program where
  "example_program = \<lparr>p_result_type = TBoolean, p_tables = [], p_arguments = [], p_register_types = [TBoolean],
     p_constants = [VBoolean True], p_instructions = [IConst 0 0, IReturn 0]\<rparr>"

lemma example_program_ok:
  "program_ok example_program LIMIT_CEILINGS" "tables_ok example_program" "policy_ok LIMIT_CEILINGS"
  using decode_ok[OF decode_example]
  by (simp_all add: example_program_def tables_ok_def policy_ok_def list_all2_same)

theorem run_never_panics_witness:
  "no_panic (run (\<lambda>bs. bs) (list_view example_entries) 4 example_program LIMIT_CEILINGS)"
  by (rule run_never_panics[OF example_program_ok example_calm])

text \<open>
  C2: What a verified program returns: on success a result of the declared type within its
  claimed size, and effects that are the private writes in ascending address order, each a
  well-typed row or a deletion in a declared table, within the claimed number and bytes of
  writes; on an abort the index of an instruction of the program.
\<close>

theorem run_outcome_typed:
  assumes "program_ok prog claims" "tables_ok prog" "policy_ok claims" "calm V"
    and "run sha V prior prog claims = Inr out"
  shows "outcome_ok prog claims out"
  using assms by (rule run_ok(2))

lemma example_run:
  "run (\<lambda>bs. bs) V prior example_program LIMIT_CEILINGS = Inr (Success TBoolean (VBoolean True) [])"
proof -
  have [simp]: "LIMIT_CEILINGS ! Suc 0 = 65535" "LIMIT_CEILINGS ! 10 = 16777216" "LIMIT_CEILINGS ! 11 = 67108864"
    "LIMIT_CEILINGS ! 16 = 16777216"
    by (simp_all add: LIMIT_CEILINGS_def)
  show ?thesis
    by (simp add: run_def run_from.simps step_def example_program_def usage_default_def execute_instruction_def
        add64_def sub64_def index_or_panic_def assign_def check_bound_of_def check_amounts.simps held_len_def
        register_def ok_or_def Let_def)
qed

theorem run_outcome_typed_witness:
  "outcome_ok example_program LIMIT_CEILINGS (Success TBoolean (VBoolean True) [])"
  by (rule run_outcome_typed[OF example_program_ok example_calm example_run])





end
