(* ===== verification/Blop_Analysis.thy ===== *)
theory Blop_Analysis
  imports Blop_Access Blop_Safety
begin

unbundle bit_operations_syntax

section \<open>Derivation of access scopes (\<^verbatim>\<open>src/vm/access_analysis.rs\<close>)\<close>

text \<open>
  Constant propagation over the forward branches of a verified program finds the keys that
  are known before it runs; each access becomes a point scope when its key is known and a
  table scope otherwise. Shown: the derived scopes cover every access a run makes, so a run
  depends on a view only through the declared reads and writes only declared addresses, and
  deriving the scopes of a verified program never panics.
\<close>

subsection \<open>Known values\<close>

type_synonym known = "nat \<Rightarrow> vm_value option"

definition join :: "known \<Rightarrow> known \<Rightarrow> known" where
  "join current incoming = (\<lambda>r. if incoming r = current r then current r else None)"

definition op_value :: "op_failure + vm_value \<Rightarrow> vm_error + vm_value option" where
  "op_value r = (case r of Inr v \<Rightarrow> Inr (Some v) | Inl (OpAbort _) \<Rightarrow> Inr None | Inl OpPanic \<Rightarrow> Inl Panic)"

fun fields_accepted :: "known \<Rightarrow> nat list \<Rightarrow> vm_type list \<Rightarrow> bool" where
  "fields_accepted known (f # fs) (ty # tys) \<longleftrightarrow>
     (case known f of None \<Rightarrow> False | Some v \<Rightarrow> accepts ty v) \<and> fields_accepted known fs tys"
| "fields_accepted known _ _ \<longleftrightarrow> True"

definition evaluate :: "(bytes \<Rightarrow> bytes) \<Rightarrow> instruction \<Rightarrow> program \<Rightarrow> known \<Rightarrow> vm_error + vm_value option" where
  "evaluate sha instruction prog known =
     (case instruction of
        IConst dst constant \<Rightarrow> rbind (get_or Panic (p_constants prog) constant) (\<lambda>v. Inr (Some v))
      | IArg dst argument \<Rightarrow> rbind (get_or Panic (p_arguments prog) argument) (\<lambda>v. Inr (Some v))
      | IMove dst src \<Rightarrow> Inr (known src)
      | IBinary op dst left right \<Rightarrow>
          (case (known left, known right) of
             (Some l, Some r) \<Rightarrow>
               rbind (get_or Panic (p_register_types prog) dst) (\<lambda>ty. op_value (binary op l r ty))
           | _ \<Rightarrow> Inr None)
      | IUnary op dst src \<Rightarrow>
          (case known src of Some v \<Rightarrow> op_value (unary sha op v) | None \<Rightarrow> Inr None)
      | ISlice dst src start len \<Rightarrow>
          (case (known src, known start, known len) of
             (Some s, Some a, Some b) \<Rightarrow> op_value (slice s a b)
           | _ \<Rightarrow> Inr None)
      | ITuple dst regs \<Rightarrow>
          rbind (get_or Panic (p_register_types prog) dst) (\<lambda>ty.
          case ty of
            TTuple types \<Rightarrow>
              if fields_accepted known regs types
              then rbind (rmap (\<lambda>f. ok_or Panic (known f)) regs) (\<lambda>vs. Inr (Some (VTuple vs)))
              else Inr None
          | _ \<Rightarrow> Inl Panic)
      | IField dst src field \<Rightarrow>
          (case known src of
             None \<Rightarrow> Inr None
           | Some v \<Rightarrow>
               (case v of VTuple vs \<Rightarrow> rbind (get_or Panic vs field) (\<lambda>v. Inr (Some v))
                | _ \<Rightarrow> Inl Panic))
      | _ \<Rightarrow> Inr None)"

subsection \<open>Accesses and destinations\<close>

definition access_of :: "instruction \<Rightarrow> (nat \<times> nat option \<times> access_mode) option" where
  "access_of instruction =
     (case instruction of
        ILoad _ table key \<Rightarrow> Some (table, Some key, AMRead)
      | IExists _ table key \<Rightarrow> Some (table, Some key, AMRead)
      | IInsert table key _ \<Rightarrow> Some (table, Some key, AMReadWrite)
      | IStore table key _ \<Rightarrow> Some (table, Some key, AMWrite)
      | IDelete table key \<Rightarrow> Some (table, Some key, AMWrite)
      | IScan _ table _ _ _ _ _ \<Rightarrow> Some (table, None, AMRead)
      | _ \<Rightarrow> None)"

definition destination_of :: "instruction \<Rightarrow> nat option" where
  "destination_of instruction =
     (case instruction of
        IConst dst _ \<Rightarrow> Some dst | IArg dst _ \<Rightarrow> Some dst | IMove dst _ \<Rightarrow> Some dst
      | IBinary _ dst _ _ \<Rightarrow> Some dst | IUnary _ dst _ \<Rightarrow> Some dst | ISlice dst _ _ _ \<Rightarrow> Some dst
      | ITuple dst _ \<Rightarrow> Some dst | IField dst _ _ \<Rightarrow> Some dst | ILoad dst _ _ \<Rightarrow> Some dst
      | IExists dst _ _ \<Rightarrow> Some dst | IScan dst _ _ _ _ _ _ \<Rightarrow> Some dst
      | _ \<Rightarrow> None)"

definition known_key :: "schema list \<Rightarrow> nat \<Rightarrow> vm_value \<Rightarrow> vm_error + bytes option" where
  "known_key schemas table v =
     rbind (get_or Panic schemas table) (\<lambda>schema.
     rbind (encode v) (\<lambda>bs.
     case encode_key schema bs of
       Inr key \<Rightarrow> Inr (Some key)
     | Inl SPanic \<Rightarrow> Inl (Storage SPanic)
     | Inl _ \<Rightarrow> Inr None))"

definition derive_scope :: "program \<Rightarrow> schema list \<Rightarrow> known \<Rightarrow> nat \<Rightarrow> nat option \<Rightarrow> vm_error + scope" where
  "derive_scope prog schemas known table key =
     rbind (get_or Panic (p_tables prog) table) (\<lambda>t.
     rbind (case key of
         None \<Rightarrow> Inr None
       | Some r \<Rightarrow> (case known r of None \<Rightarrow> Inr None | Some v \<Rightarrow> known_key schemas table v)) (\<lambda>key.
     Inr (case key of None \<Rightarrow> STable (t_id t) | Some key \<Rightarrow> SKey (t_id t) key)))"

definition record_access :: "program \<Rightarrow> schema list \<Rightarrow> known \<Rightarrow> instruction \<Rightarrow> vm_error + (scope \<times> access_mode) list" where
  "record_access prog schemas known instruction =
     (case access_of instruction of
        None \<Rightarrow> Inr []
      | Some (table, key, mo) \<Rightarrow>
          rbind (derive_scope prog schemas known table key) (\<lambda>s. Inr [(s, mo)]))"

definition learn :: "(bytes \<Rightarrow> bytes) \<Rightarrow> program \<Rightarrow> instruction \<Rightarrow> known \<Rightarrow> vm_error + known" where
  "learn sha prog instruction known =
     (case destination_of instruction of
        None \<Rightarrow> Inr known
      | Some dst \<Rightarrow>
          rbind (evaluate sha instruction prog known) (\<lambda>v.
          rbind (case v of
              None \<Rightarrow> Inr None
            | Some v \<Rightarrow>
                rbind (get_or Panic (p_register_types prog) dst) (\<lambda>ty.
                Inr (if accepts ty v then Some v else None))) (\<lambda>v.
          Inr (known(dst := v)))))"

subsection \<open>The loop\<close>

definition join_flow :: "known option \<Rightarrow> known option \<Rightarrow> vm_error + known" where
  "join_flow fallthrough pending =
     (case (fallthrough, pending) of
        (Some current, Some incoming) \<Rightarrow> Inr (join current incoming)
      | (Some current, None) \<Rightarrow> Inr current
      | (None, Some current) \<Rightarrow> Inr current
      | (None, None) \<Rightarrow> Inl Panic)"

definition join_target :: "known option \<Rightarrow> known \<Rightarrow> known" where
  "join_target pending known = (case pending of Some incoming \<Rightarrow> join incoming known | None \<Rightarrow> known)"

fun derive_from :: "(bytes \<Rightarrow> bytes) \<Rightarrow> program \<Rightarrow> schema list \<Rightarrow> nat \<Rightarrow> instruction list \<Rightarrow>
    known option list \<Rightarrow> known option \<Rightarrow> vm_error + (scope \<times> access_mode) list" where
  "derive_from sha prog schemas index [] pending fallthrough = Inr []"
| "derive_from sha prog schemas index (instruction # rest) pending fallthrough =
     rbind (get_or Panic pending index) (\<lambda>incoming.
     rbind (join_flow fallthrough incoming) (\<lambda>known.
     rbind (record_access prog schemas known instruction) (\<lambda>entry.
     rbind (learn sha prog instruction known) (\<lambda>known.
     let pending = pending[index := None] in
     rbind (case instruction of
         IJump target \<Rightarrow>
           rbind (get_or Panic pending target) (\<lambda>p.
           derive_from sha prog schemas (index + 1) rest (pending[target := Some (join_target p known)]) None)
       | IJumpIfFalse _ target \<Rightarrow>
           rbind (get_or Panic pending target) (\<lambda>p.
           derive_from sha prog schemas (index + 1) rest (pending[target := Some (join_target p known)]) (Some known))
       | IReturn _ \<Rightarrow> derive_from sha prog schemas (index + 1) rest pending None
       | IAbort _ \<Rightarrow> derive_from sha prog schemas (index + 1) rest pending None
       | _ \<Rightarrow> derive_from sha prog schemas (index + 1) rest pending (Some known)) (\<lambda>entries.
     Inr (entry @ entries))))))"

definition table_key_schema :: "tbl \<Rightarrow> vm_error + schema" where
  "table_key_schema table = rbind (descriptor (t_key table)) (\<lambda>bs. map_err Storage (schema_decode bs))"

definition derive :: "(bytes \<Rightarrow> bytes) \<Rightarrow> program \<Rightarrow> vm_error + manifest" where
  "derive sha prog =
     rbind (rmap table_key_schema (p_tables prog)) (\<lambda>schemas.
     rbind (derive_from sha prog schemas 0 (p_instructions prog)
       (replicate (length (p_instructions prog)) None) (Some Map.empty)) (\<lambda>entries.
     manifest_new entries))"

subsection \<open>The derivation solves the dataflow problem\<close>

lemma join_le: "join a b \<subseteq>\<^sub>m a" "join a b \<subseteq>\<^sub>m b"
  by (auto simp: join_def map_le_def)

definition flow_known :: "instruction \<Rightarrow> known \<Rightarrow> known option list \<Rightarrow> known option list" where
  "flow_known ins k pending = (case jump_target ins of
     None \<Rightarrow> pending | Some t \<Rightarrow> pending[t := Some (join_target (pending ! t) k)])"

lemma join_target_le: "join_target p k \<subseteq>\<^sub>m k" "p = Some q \<Longrightarrow> join_target p k \<subseteq>\<^sub>m q"
  by (auto simp: join_target_def join_le split: option.splits)

lemma join_flow_le:
  assumes "join_flow ft p = Inr k"
  shows "ft = Some f \<Longrightarrow> k \<subseteq>\<^sub>m f" "p = Some q \<Longrightarrow> k \<subseteq>\<^sub>m q"
  using assms by (auto simp: join_flow_def join_le split: option.splits)

lemma derive_from_Cons_eq:
  "derive_from sha prog schemas i (ins # rest) pending ft =
     rbind (get_or Panic pending i) (\<lambda>incoming.
     rbind (join_flow ft incoming) (\<lambda>k.
     rbind (record_access prog schemas k ins) (\<lambda>e.
     rbind (learn sha prog ins k) (\<lambda>k'.
     rbind (case jump_target ins of None \<Rightarrow> Inr () | Some t \<Rightarrow> rbind (get_or Panic pending t) (\<lambda>_. Inr ())) (\<lambda>_.
     rbind (derive_from sha prog schemas (Suc i) rest (flow_known ins k' (pending[i := None]))
       (if falls_through ins then Some k' else None)) (\<lambda>es. Inr (e @ es)))))))"
  by (cases ins)
    (auto simp: jump_target_def falls_through_def flow_known_def get_or_def Let_def intro!: rbind_cong)

text \<open>What is known before each instruction, and the scope that covers its access.\<close>

definition covered :: "(bytes \<Rightarrow> bytes) \<Rightarrow> program \<Rightarrow> schema list \<Rightarrow> (scope \<times> access_mode) list \<Rightarrow> (nat \<Rightarrow> known) \<Rightarrow> nat \<Rightarrow> bool" where
  "covered sha prog schemas es K i \<longleftrightarrow>
     (\<exists>e k'. record_access prog schemas (K i) (p_instructions prog ! i) = Inr e \<and> set e \<subseteq> set es \<and>
        learn sha prog (p_instructions prog ! i) (K i) = Inr k' \<and>
        (\<forall>j \<in> set (successors i (p_instructions prog ! i)). K j \<subseteq>\<^sub>m k'))"

lemma covered_cong:
  assumes "covered sha prog schemas es' K i" "set es' \<subseteq> set es" "K' i = K i"
    and "\<And>j. j \<in> set (successors i (p_instructions prog ! i)) \<Longrightarrow> K' j = K j"
  shows "covered sha prog schemas es K' i"
  using assms(1) unfolding covered_def assms(3) using assms(2,4) by (metis subset_trans)

definition forward :: "program \<Rightarrow> bool" where
  "forward prog \<longleftrightarrow> (\<forall>i < length (p_instructions prog). \<forall>j \<in> set (successors i (p_instructions prog ! i)).
     i < j \<and> j < length (p_instructions prog))"

lemma forwardD:
  "forward prog \<Longrightarrow> i < length (p_instructions prog) \<Longrightarrow> j \<in> set (successors i (p_instructions prog ! i)) \<Longrightarrow>
     i < j \<and> j < length (p_instructions prog)"
  unfolding forward_def by blast

lemma solution_forward: "solution prog at ct claims I \<Longrightarrow> forward prog"
  by (auto simp: solution_def forward_def node_ok_def)

lemma derive_from_sound:
  assumes "derive_from sha prog schemas i rest pending ft = Inr es"
    and "rest = drop i (p_instructions prog)" and "length pending = length (p_instructions prog)" and "forward prog"
  shows "\<exists>K. (\<forall>j. i \<le> j \<and> j < length (p_instructions prog) \<longrightarrow> covered sha prog schemas es K j)
    \<and> (\<forall>j q. i \<le> j \<and> j < length (p_instructions prog) \<and> pending ! j = Some q \<longrightarrow> K j \<subseteq>\<^sub>m q)
    \<and> (\<forall>f. ft = Some f \<longrightarrow> K i \<subseteq>\<^sub>m f)"
  using assms
proof (induction rest arbitrary: i pending ft es)
  case Nil
  then show ?case by (intro exI[of _ "\<lambda>_. Map.empty"]) auto
next
  case (Cons ins rest)
  let ?n = "length (p_instructions prog)"
  obtain k e k' es' where S: "i < length pending" "join_flow ft (pending ! i) = Inr k"
    "record_access prog schemas k ins = Inr e" "learn sha prog ins k = Inr k'"
    "derive_from sha prog schemas (Suc i) rest (flow_known ins k' (pending[i := None]))
       (if falls_through ins then Some k' else None) = Inr es'" "es = e @ es'"
    using Cons.prems(1) unfolding derive_from_Cons_eq by (auto simp: rbind_eq_Inr get_or_Inr)
  have ins: "p_instructions prog ! i = ins" "rest = drop (Suc i) (p_instructions prog)"
    using Cons.prems(2,3) S(1) by (simp_all add: Cons_nth_drop_Suc[symmetric])
  have fwd: "i < j" "j < ?n" if "j \<in> set (successors i ins)" for j
    using forwardD[OF Cons.prems(4), of i j] Cons.prems(3) S(1) ins that by simp_all
  let ?p = "flow_known ins k' (pending[i := None])"
  let ?f = "if falls_through ins then Some k' else None"
  have len: "length ?p = ?n" using Cons.prems(3) by (simp add: flow_known_def split: option.splits)
  obtain K where K: "\<And>j. Suc i \<le> j \<Longrightarrow> j < ?n \<Longrightarrow> covered sha prog schemas es' K j"
    "\<And>j q. Suc i \<le> j \<Longrightarrow> j < ?n \<Longrightarrow> ?p ! j = Some q \<Longrightarrow> K j \<subseteq>\<^sub>m q"
    "\<And>f. ?f = Some f \<Longrightarrow> K (Suc i) \<subseteq>\<^sub>m f"
    using Cons.IH[OF S(5) ins(2) len Cons.prems(4)] by blast
  let ?K = "K(i := k)"
  have keep: "K j \<subseteq>\<^sub>m q" if j: "Suc i \<le> j" "j < ?n" "pending ! j = Some q" for j q
  proof (cases "jump_target ins = Some j")
    case True
    then have "?p ! j = Some (join_target (pending ! j) k')" using j Cons.prems(3) by (simp add: flow_known_def)
    from K(2)[OF j(1,2) this] join_target_le(2)[OF j(3)] show ?thesis by (rule map_le_trans)
  next
    case False
    then have "?p ! j = pending ! j" using j by (auto simp: flow_known_def split: option.splits)
    with K(2)[OF j(1,2)] j(3) show ?thesis by simp
  qed
  have succ: "K j \<subseteq>\<^sub>m k'" if j: "j \<in> set (successors i ins)" for j
  proof (cases "jump_target ins = Some j")
    case True
    then have "?p ! j = Some (join_target (pending ! j) k')" using fwd[OF j] Cons.prems(3) by (simp add: flow_known_def)
    from K(2)[OF _ _ this] fwd[OF j] join_target_le(1)[of "pending ! j" k'] show ?thesis
      by (auto intro: map_le_trans)
  next
    case False
    then have "falls_through ins" "j = Suc i" using j by (auto simp: set_successors split: if_splits)
    then show ?thesis using K(3)[of k'] by simp
  qed
  have "covered sha prog schemas es ?K j" if "i \<le> j" "j < ?n" for j
  proof (cases "j = i")
    case True
    have "?K l \<subseteq>\<^sub>m k'" if "l \<in> set (successors i ins)" for l
      using succ[OF that] fwd(1)[OF that] by simp
    then have "covered sha prog schemas es ?K i"
      unfolding covered_def ins(1) using S(3,4,6) by (intro exI[of _ e] exI[of _ k']) simp
    then show ?thesis using True by simp
  next
    case False
    have later: "l \<noteq> i" if l: "l \<in> set (successors j (p_instructions prog ! j))" for l
      using forwardD[OF Cons.prems(4) \<open>j < ?n\<close> l] \<open>i \<le> j\<close> by simp
    show ?thesis
      by (rule covered_cong[OF K(1)]) (use that False S(6) later in auto)
  qed
  moreover have "?K j \<subseteq>\<^sub>m q" if "i \<le> j" "j < ?n" "pending ! j = Some q" for j q
    using keep[of j q] join_flow_le(2)[OF S(2), of q] that by (cases "j = i") auto
  moreover have "?K i \<subseteq>\<^sub>m f" if "ft = Some f" for f
    using join_flow_le(1)[OF S(2) that] by simp
  ultimately show ?case by blast
qed

lemma derive_sound:
  assumes "derive sha prog = Inr m" "forward prog"
  obtains schemas es K where "rmap table_key_schema (p_tables prog) = Inr schemas" "manifest_new es = Inr m"
    "\<And>i. i < length (p_instructions prog) \<Longrightarrow> covered sha prog schemas es K i" "K 0 = Map.empty"
proof -
  from assms(1) obtain schemas es where 1: "rmap table_key_schema (p_tables prog) = Inr schemas" "manifest_new es = Inr m"
    "derive_from sha prog schemas 0 (p_instructions prog) (replicate (length (p_instructions prog)) None) (Some Map.empty) = Inr es"
    by (auto simp: derive_def rbind_eq_Inr)
  from derive_from_sound[OF 1(3) _ _ assms(2)] obtain K where
    "\<And>i. i < length (p_instructions prog) \<Longrightarrow> covered sha prog schemas es K i" "K 0 \<subseteq>\<^sub>m Map.empty"
    by auto
  then show thesis using that[OF 1(1,2)] by (metis map_le_def domIff ext)
qed

subsection \<open>Runs stay within the scopes\<close>

definition agrees :: "known \<Rightarrow> vm_value option list \<Rightarrow> bool" where
  "agrees k rs \<longleftrightarrow> (\<forall>r v. k r = Some v \<longrightarrow> r < length rs \<and> rs ! r = Some v)"

lemma agreesD: "agrees k rs \<Longrightarrow> k r = Some v \<Longrightarrow> register rs r = Inr v' \<Longrightarrow> v' = v"
  by (auto simp: agrees_def register_Inr)

lemma agrees_mono: "agrees k rs \<Longrightarrow> k' \<subseteq>\<^sub>m k \<Longrightarrow> agrees k' rs"
  unfolding agrees_def map_le_def by (metis domI)

lemma op_values_agree: "op_value r = Inr (Some v') \<Longrightarrow> op_result r = Inr v \<Longrightarrow> v = v'"
  by (cases r) (auto simp: op_value_def op_result_def split: op_failure.splits)

lemma fields_agree:
  "agrees k rs \<Longrightarrow> rmap (register rs) regs = Inr vs \<Longrightarrow> rmap (\<lambda>f. ok_or Panic (k f)) regs = Inr vs' \<Longrightarrow> vs = vs'"
proof (induction regs arbitrary: vs vs')
  case (Cons r regs)
  then obtain v ws v' ws' where "register rs r = Inr v" "rmap (register rs) regs = Inr ws" "vs = v # ws"
    "k r = Some v'" "rmap (\<lambda>f. ok_or Panic (k f)) regs = Inr ws'" "vs' = v' # ws'"
    by (auto simp: rbind_eq_Inr ok_or_eq_Inr)
  with Cons.IH[OF Cons.prems(1)] agreesD[OF Cons.prems(1)] show ?case by blast
qed simp

lemma scan_state:
  "scan V prior claims table lower upper flags row_limit byte_limit m = Inr (v, m') \<Longrightarrow>
   ma_registers m' = ma_registers m \<and> ma_overlay m' = ma_overlay m"
  by (auto simp: scan_def result_simps split: if_splits)

lemma point_access_state:
  "point_access prog claims t k m = Inr (table, key, m') \<Longrightarrow>
   ma_registers m' = ma_registers m \<and> ma_overlay m' = ma_overlay m"
  by (auto simp: point_access_Inr)

lemma overlay_write_state:
  "overlay_write claims table key v m = Inr m' \<Longrightarrow>
   ma_registers m' = ma_registers m \<and> fst ` set (ma_overlay m') \<subseteq> insert (t_id table, key) (fst ` set (ma_overlay m))"
proof (elim overlay_write_Inr)
  fix n enc
  assume m': "m' = m\<lparr>ma_overlay := bt_insert (t_id table, key) enc (ma_overlay m), ma_usage := (ma_usage m)\<lparr>us_overlay_bytes := n\<rparr>\<rparr>"
  have "fst ` set (bt_insert (t_id table, key) enc (ma_overlay m)) \<subseteq> fst ` insert ((t_id table, key), enc) (set (ma_overlay m))"
    using set_bt_insert by (rule image_mono)
  then show ?thesis by (simp add: m')
qed

definition keeps :: "vm_value option list \<Rightarrow> failure + 'a \<times> machine \<Rightarrow> bool" where
  "keeps rs R \<longleftrightarrow> (\<forall>r m'. R = Inr (r, m') \<longrightarrow> ma_registers m' = rs)"

lemma keeps_simps [simp]: "keeps rs (Inl e)" "keeps rs (Inr (r, m)) \<longleftrightarrow> ma_registers m = rs"
  by (auto simp: keeps_def)

lemma keeps_bind: "(\<And>x. r = Inr x \<Longrightarrow> keeps rs (f x)) \<Longrightarrow> keeps rs (rbind r f)"
  by (cases r) auto

lemma keeps_if: "(c \<Longrightarrow> keeps rs a) \<Longrightarrow> (\<not> c \<Longrightarrow> keeps rs b) \<Longrightarrow> keeps rs (if c then a else b)"
  by simp

lemma keeps_point:
  "(\<And>table key m'. ma_registers m' = ma_registers m \<Longrightarrow> keeps rs (f table key m')) \<Longrightarrow>
   keeps rs (rbind (point_access prog claims t k m) (\<lambda>(table, key, m'). f table key m'))"
  using point_access_state by (intro keeps_bind) (auto; metis)

lemma keeps_write:
  "(\<And>m'. ma_registers m' = ma_registers m \<Longrightarrow> keeps rs (f m')) \<Longrightarrow> keeps rs (rbind (overlay_write claims table key w m) f)"
  using overlay_write_state by (intro keeps_bind) blast

lemma keeps_scan:
  "(\<And>v m'. ma_registers m' = ma_registers m \<Longrightarrow> keeps rs (f v m')) \<Longrightarrow>
   keeps rs (rbind (scan V prior claims table lower upper flags row_limit byte_limit m) (\<lambda>(v, m'). f v m'))"
  using scan_state by (intro keeps_bind) (auto; metis)

lemma keeps_case: "(\<And>vs. keeps rs (f vs)) \<Longrightarrow> keeps rs (case v of VTuple vs \<Rightarrow> f vs | _ \<Rightarrow> Inl e)"
  "(\<And>ts. keeps rs (g ts)) \<Longrightarrow> keeps rs (case ty of TTuple ts \<Rightarrow> g ts | _ \<Rightarrow> Inl e)"
  by (cases v; simp) (cases ty; simp)

lemma execute_registers:
  "keeps (ma_registers m) (execute_instruction sha V prior prog claims pc ins m)"
  unfolding execute_instruction_def Let_def
  by (cases ins; simp only: instruction.case)
    (intro keeps_point keeps_write keeps_scan keeps_if keeps_case keeps_bind | simp)+

lemma execute_assigns:
  "execute_instruction sha V prior prog claims pc ins m = Inr (Inl (dst, v), m') \<Longrightarrow>
   destination_of ins = Some dst \<and> successors pc ins = [Suc pc]"
  unfolding execute_instruction_def Let_def
  by (cases ins; simp only: instruction.case rbind_prod_Inr)
    (auto simp: rbind_eq_Inr case_tuple_Inr case_vtuple_Inr destination_of_def split: if_splits)

lemma execute_moves:
  "execute_instruction sha V prior prog claims pc ins m = Inr (Inr (Next q), m') \<Longrightarrow>
   destination_of ins = None \<and> q \<in> set (successors pc ins)"
  unfolding execute_instruction_def Let_def
  by (cases ins; simp only: instruction.case rbind_prod_Inr)
    (auto simp: rbind_eq_Inr case_tuple_Inr case_vtuple_Inr destination_of_def split: if_splits)

lemma evaluate_agrees:
  assumes ex: "execute_instruction sha V prior prog claims pc ins m = Inr (Inl (dst, v), m')"
    and ev: "evaluate sha ins prog k = Inr (Some v')" and k: "agrees k (ma_registers m)"
  shows "v = v'"
proof (cases ins)
  case (IBinary op d l r)
  with ex ev obtain a b a' b' where "register (ma_registers m) l = Inr a" "register (ma_registers m) r = Inr b"
    "op_result (binary op a b (p_register_types prog ! d)) = Inr v" "k l = Some a'" "k r = Some b'"
    "op_value (binary op a' b' (p_register_types prog ! d)) = Inr (Some v')"
    by (auto simp: execute_instruction_def evaluate_def Let_def rbind_eq_Inr index_or_panic_Inr get_or_Inr split: option.splits)
  then show ?thesis using agreesD[OF k] op_values_agree by metis
next
  case (ISlice d s a b)
  with ex ev obtain x y z x' y' z' where "register (ma_registers m) s = Inr x" "register (ma_registers m) a = Inr y"
    "register (ma_registers m) b = Inr z" "op_result (slice x y z) = Inr v" "k s = Some x'" "k a = Some y'" "k b = Some z'"
    "op_value (slice x' y' z') = Inr (Some v')"
    by (auto simp: execute_instruction_def evaluate_def Let_def rbind_eq_Inr split: option.splits)
  then show ?thesis using agreesD[OF k] op_values_agree by metis
next
  case (ITuple d regs)
  with ex ev obtain vs vs' where "rmap (register (ma_registers m)) regs = Inr vs" "v = VTuple vs"
    "rmap (\<lambda>f. ok_or Panic (k f)) regs = Inr vs'" "v' = VTuple vs'"
    by (auto simp: execute_instruction_def evaluate_def Let_def rbind_eq_Inr case_tuple_Inr split: if_splits)
  then show ?thesis using fields_agree[OF k] by metis
next
  case (IUnary op d s)
  with ex ev obtain a a' where "register (ma_registers m) s = Inr a" "op_result (unary sha op a) = Inr v"
    "k s = Some a'" "op_value (unary sha op a') = Inr (Some v')"
    by (auto simp: execute_instruction_def evaluate_def Let_def rbind_eq_Inr split: option.splits)
  then show ?thesis using agreesD[OF k] op_values_agree by metis
next
  case (IField d s f)
  with ex ev obtain vs vs' where "register (ma_registers m) s = Inr (VTuple vs)" "v = vs ! f"
    "k s = Some (VTuple vs')" "v' = vs' ! f"
    by (auto simp: execute_instruction_def evaluate_def Let_def rbind_eq_Inr case_vtuple_Inr index_or_panic_Inr get_or_Inr
        split: option.splits)
  then show ?thesis using agreesD[OF k] by fastforce
qed (use ex ev agreesD[OF k] in \<open>auto simp: execute_instruction_def evaluate_def Let_def rbind_eq_Inr index_or_panic_Inr get_or_Inr\<close>)


text \<open>A step keeps the known values true and goes to a successor.\<close>

lemma step_Inr:
  assumes "step sha V prior prog claims pc m = Inr (r, m')"
  obtains res m1 m0 where "pc < length (p_instructions prog)" "ma_registers m0 = ma_registers m" "ma_overlay m0 = ma_overlay m"
    "execute_instruction sha V prior prog claims pc (p_instructions prog ! pc) m0 = Inr (res, m1)"
    "\<And>dst v. res = Inl (dst, v) \<Longrightarrow> r = Next (Suc pc) \<and> assign (p_register_types prog) claims dst v m1 = Inr m'"
    "\<And>r'. res = Inr r' \<Longrightarrow> r = r' \<and> m' = m1"
proof -
  from assms obtain n res m1 where *: "pc < length (p_instructions prog)"
    "execute_instruction sha V prior prog claims pc (p_instructions prog ! pc)
       (m\<lparr>ma_usage := (ma_usage m)\<lparr>us_instructions := n\<rparr>\<rparr>) = Inr (res, m1)"
    "(case res of Inl (dst, v) \<Rightarrow> rbind (assign (p_register_types prog) claims dst v m1) (\<lambda>m. Inr (Next (pc + 1), m))
      | Inr r' \<Rightarrow> Inr (r', m1)) = Inr (r, m')"
    unfolding step_def Let_def by (auto simp: rbind_eq_Inr index_or_panic_Inr)
  show thesis
    by (rule that[OF *(1) _ _ *(2)]) (use *(3) in \<open>auto simp: rbind_eq_Inr\<close>)
qed

lemma learn_agrees:
  assumes st: "step sha V prior prog claims pc m = Inr (Next q, m')" and k: "agrees k (ma_registers m)"
    and learn: "learn sha prog (p_instructions prog ! pc) k = Inr k'"
  shows "agrees k' (ma_registers m') \<and> q \<in> set (successors pc (p_instructions prog ! pc))"
proof -
  let ?ins = "p_instructions prog ! pc"
  obtain res m1 m0 where S: "ma_registers m0 = ma_registers m"
    "execute_instruction sha V prior prog claims pc ?ins m0 = Inr (res, m1)"
    "\<And>dst v. res = Inl (dst, v) \<Longrightarrow> q = Suc pc \<and> assign (p_register_types prog) claims dst v m1 = Inr m'"
    "\<And>r'. res = Inr r' \<Longrightarrow> Next q = r' \<and> m' = m1"
    by (rule step_Inr[OF st]) (use that in auto)
  have regs: "ma_registers m1 = ma_registers m" using execute_registers[of m0] S(1,2) unfolding keeps_def by metis
  show ?thesis
  proof (cases res)
    case (Inl p)
    obtain dst v where p: "p = (dst, v)" by (cases p)
    note ex = S(2)[unfolded Inl p]
    have d: "destination_of ?ins = Some dst" "successors pc ?ins = [Suc pc]" using execute_assigns[OF ex] by auto
    have q: "q = Suc pc" and as: "assign (p_register_types prog) claims dst v m1 = Inr m'" using S(3)[of dst v] Inl p by auto
    obtain w where w: "evaluate sha ?ins prog k = Inr w"
      "k' = k(dst := None) \<or> (k' = k(dst := w) \<and> w \<noteq> None)"
      using learn d(1) by (auto simp: learn_def rbind_eq_Inr split: option.splits if_splits)
    have "w = Some v \<or> w = None" using evaluate_agrees[OF ex, of k] w(1) k S(1) by (cases w) auto
    then have k': "k' dst = None \<or> k' dst = Some v" "\<And>r. r \<noteq> dst \<Longrightarrow> k' r = k r" using w(2) by auto
    have "ma_registers m' = (ma_registers m)[dst := Some v]" "dst < length (ma_registers m)"
      using as regs by (auto simp: assign_Inr)
    then show ?thesis using k k' q d(2) unfolding agrees_def
      by (metis length_list_update list.set_intros(1) nth_list_update_eq nth_list_update_neq option.distinct(1))
  next
    case (Inr r')
    then have r': "r' = Next q" "m' = m1" using S(4) by auto
    have "destination_of ?ins = None" "q \<in> set (successors pc ?ins)"
      using execute_moves[OF S(2)[unfolded Inr r'(1)]] by auto
    then show ?thesis using k learn regs r'(2) by (simp add: learn_def)
  qed
qed

text \<open>The address of a point access lies in the scope recorded for its instruction.\<close>

lemma point_in_scope:
  assumes k: "agrees k (ma_registers m)" and pa: "point_access prog claims t r m = Inr (table, key, m')"
    and schemas: "rmap table_key_schema (p_tables prog) = Inr schemas"
    and sc: "derive_scope prog schemas k t (Some r) = Inr s"
  shows "in_scope s (t_id table, key)"
proof -
  obtain v where v: "t < length (p_tables prog)" "table = p_tables prog ! t" "register (ma_registers m) r = Inr v"
    "canonical_key table v claims = Inr key"
    using pa by (auto simp: point_access_Inr)
  have schema: "table_key_schema table = Inr (schemas ! t)" "t < length schemas"
    using schemas v(1,2) by (auto simp: rmap_eq_Inr list_all2_conv_all_nth)
  show ?thesis
  proof (cases "k r")
    case None
    then show ?thesis using sc v(2) by (auto simp: derive_scope_def rbind_eq_Inr get_or_Inr)
  next
    case (Some v')
    then have "v' = v" using agreesD[OF k Some v(3)] by simp
    moreover obtain bs where "encode v = Inr bs" "encode_key (schemas ! t) bs = Inr key"
      using v(4) schema(1) by (auto simp: canonical_key_def table_key_schema_def storage_failure_def rbind_eq_Inr map_err_eq_Inr)
    ultimately show ?thesis using sc v(2) schema(2) Some
      by (auto simp: derive_scope_def known_key_def rbind_eq_Inr get_or_Inr)
  qed
qed


subsection \<open>Runs depend on the declared reads only\<close>

definition same_reads :: "manifest \<Rightarrow> u64 \<Rightarrow> view \<Rightarrow> view \<Rightarrow> bool" where
  "same_reads m prior V V' \<longleftrightarrow>
     (\<forall>t k. grants m 1 (t, k) \<longrightarrow> mvcc_get V t k prior = mvcc_get V' t k prior) \<and>
     (\<forall>t. (\<forall>k. grants m 1 (t, k)) \<longrightarrow> (\<forall>lo hi. mvcc_scan V t prior lo hi = mvcc_scan V' t prior lo hi))"

lemma merge_scan_same:
  "(\<And>lo hi. mvcc_scan V t s lo hi = mvcc_scan V' t s lo hi) \<Longrightarrow> merge_scan V t s hi lo ov = merge_scan V' t s hi lo ov"
proof (induction ov arbitrary: lo)
  case (Cons e ov)
  obtain tid key val where e: "e = ((tid, key), val)" by (metis prod.exhaust)
  show ?case unfolding e merge_scan.simps Cons.prems Cons.IH[OF Cons.prems] by simp
qed simp

lemma scan_same:
  assumes "\<And>lo hi. mvcc_scan V (t_id table) prior lo hi = mvcc_scan V' (t_id table) prior lo hi"
  shows "scan V prior claims table lower upper flags row_limit byte_limit m =
         scan V' prior claims table lower upper flags row_limit byte_limit m"
  unfolding scan_def db_scan_def merge_scan_same[OF assms] by (rule refl)

lemma db_get_same: "mvcc_get V t k prior = mvcc_get V' t k prior \<Longrightarrow> db_get V t k prior ov = db_get V' t k prior ov"
  unfolding db_get_def by (erule arg_cong)

lemma grantsI: "(s, mo) \<in> set es \<Longrightarrow> in_scope s a \<Longrightarrow> mode_bits mo AND w \<noteq> 0 \<Longrightarrow> grants es w a"
  by (auto simp: grants_def)

text \<open>The recorded scope grants each access of the instruction.\<close>

lemma access_granted:
  assumes k: "agrees k (ma_registers m)" and e: "record_access prog schemas k ins = Inr e" "set e \<subseteq> set es"
    and schemas: "rmap table_key_schema (p_tables prog) = Inr schemas"
  shows "access_of ins = Some (t, Some r, mo) \<Longrightarrow> point_access prog claims t r m = Inr (table, key, m') \<Longrightarrow>
      mode_bits mo AND w \<noteq> 0 \<Longrightarrow> grants es w (t_id table, key)"
    and "access_of ins = Some (t, None, mo) \<Longrightarrow> t < length (p_tables prog) \<Longrightarrow> mode_bits mo AND w \<noteq> 0 \<Longrightarrow>
      grants es w (t_id (p_tables prog ! t), l)"
proof -
  assume a: "access_of ins = Some (t, Some r, mo)" "mode_bits mo AND w \<noteq> 0"
    and p: "point_access prog claims t r m = Inr (table, key, m')"
  then obtain s where s: "derive_scope prog schemas k t (Some r) = Inr s" "(s, mo) \<in> set es"
    using e by (auto simp: record_access_def rbind_eq_Inr)
  show "grants es w (t_id table, key)"
    by (rule grantsI[OF s(2) point_in_scope[OF k p schemas s(1)] a(2)])
next
  assume a: "access_of ins = Some (t, None, mo)" "t < length (p_tables prog)" "mode_bits mo AND w \<noteq> 0"
  then have "(STable (t_id (p_tables prog ! t)), mo) \<in> set es"
    using e by (auto simp: record_access_def derive_scope_def rbind_eq_Inr get_or_Inr)
  then show "grants es w (t_id (p_tables prog ! t), l)" by (rule grantsI) (use a(3) in simp_all)
qed

lemma point_same:
  assumes "\<And>table key m'. point_access prog claims t r m = Inr (table, key, m') \<Longrightarrow> f table key m' = g table key m'"
  shows "rbind (point_access prog claims t r m) (\<lambda>(table, key, m'). f table key m') =
         rbind (point_access prog claims t r m) (\<lambda>(table, key, m'). g table key m')"
  using assms by (intro rbind_cong refl) (auto split: prod.splits)

lemma execute_same:
  assumes k: "agrees k (ma_registers m)" and e: "record_access prog schemas k ins = Inr e" "set e \<subseteq> set es"
    and schemas: "rmap table_key_schema (p_tables prog) = Inr schemas"
    and m: "\<And>a. grants es 1 a \<Longrightarrow> grants man 1 a" and same: "same_reads man prior V V'"
  shows "execute_instruction sha V prior prog claims pc ins m = execute_instruction sha V' prior prog claims pc ins m"
proof -
  note granted = access_granted[OF k e schemas]
  have get: "db_get V (t_id table) key prior ov = db_get V' (t_id table) key prior ov"
    if "access_of ins = Some (t, Some r, mo)" "mode_bits mo AND 1 \<noteq> 0" "point_access prog claims t r m = Inr (table, key, m')"
    for t r mo table key m' ov
    using m[OF granted(1)[OF that(1,3,2)]] same by (intro db_get_same) (simp add: same_reads_def)
  show ?thesis
  proof (cases ins)
    case (ILoad d t r)
    then show ?thesis using get[of t r AMRead]
      by (auto simp: execute_instruction_def access_of_def intro!: point_same)
  next
    case (IExists d t r)
    then show ?thesis using get[of t r AMRead]
      by (auto simp: execute_instruction_def access_of_def intro!: point_same)
  next
    case (IInsert t r v)
    then show ?thesis using get[of t r AMReadWrite]
      by (auto simp: execute_instruction_def access_of_def intro!: point_same)
  next
    case (IScan d t lower upper flags row_limit byte_limit)
    have "grants man 1 (t_id (p_tables prog ! t), l)" if "t < length (p_tables prog)" for l
      using m[OF granted(2)[of t AMRead 1 l]] that IScan by (simp add: access_of_def)
    then have "mvcc_scan V (t_id (p_tables prog ! t)) prior lo hi = mvcc_scan V' (t_id (p_tables prog ! t)) prior lo hi"
      if "t < length (p_tables prog)" for lo hi
      using same that by (simp add: same_reads_def)
    from scan_same[OF this] show ?thesis
      by (auto simp: execute_instruction_def IScan index_or_panic_Inr Let_def intro!: rbind_cong)
  qed (simp_all add: execute_instruction_def)
qed

lemma step_same:
  assumes "pc < length (p_instructions prog) \<Longrightarrow> covered sha prog schemas es K pc" and k: "agrees (K pc) (ma_registers m)"
    and schemas: "rmap table_key_schema (p_tables prog) = Inr schemas"
    and man: "\<And>a. grants es 1 a \<Longrightarrow> grants man 1 a" and same: "same_reads man prior V V'"
  shows "step sha V prior prog claims pc m = step sha V' prior prog claims pc m"
proof (cases "pc < length (p_instructions prog)")
  case True
  then obtain e where e: "record_access prog schemas (K pc) (p_instructions prog ! pc) = Inr e" "set e \<subseteq> set es"
    using assms(1) unfolding covered_def by blast
  have "execute_instruction sha V prior prog claims pc (p_instructions prog ! pc) (m\<lparr>ma_usage := u\<rparr>) =
        execute_instruction sha V' prior prog claims pc (p_instructions prog ! pc) (m\<lparr>ma_usage := u\<rparr>)" for u
    by (rule execute_same[OF _ e schemas man same]) (use k in simp_all)
  then show ?thesis using True unfolding step_def Let_def index_or_panic_def by simp
next
  case False
  then show ?thesis unfolding step_def Let_def index_or_panic_def by simp
qed

lemma covered_step:
  assumes "\<And>i. i < length (p_instructions prog) \<Longrightarrow> covered sha prog schemas es K i" and k: "agrees (K pc) (ma_registers m)"
    and st: "step sha V prior prog claims pc m = Inr (Next q, m')"
  shows "agrees (K q) (ma_registers m')"
proof -
  have "pc < length (p_instructions prog)" using st by (rule step_Inr)
  then obtain k' where k': "learn sha prog (p_instructions prog ! pc) (K pc) = Inr k'"
    "\<And>j. j \<in> set (successors pc (p_instructions prog ! pc)) \<Longrightarrow> K j \<subseteq>\<^sub>m k'"
    using assms(1) unfolding covered_def by blast
  show ?thesis using learn_agrees[OF st k k'(1)] k'(2) agrees_mono by blast
qed

lemma run_from_same:
  assumes cov: "\<And>i. i < length (p_instructions prog) \<Longrightarrow> covered sha prog schemas es K i"
    and schemas: "rmap table_key_schema (p_tables prog) = Inr schemas"
    and man: "\<And>a. grants es 1 a \<Longrightarrow> grants man 1 a" and same: "same_reads man prior V V'"
  shows "agrees (K pc) (ma_registers m) \<Longrightarrow> run_from sha V prior prog claims pc m = run_from sha V' prior prog claims pc m"
  using assms
proof (induction sha V prior prog claims pc m rule: run_from.induct)
  case (1 sha V prior prog claims pc m)
  have st: "step sha V prior prog claims pc m = step sha V' prior prog claims pc m"
    by (rule step_same[OF "1.prems"(2,1,3,4,5)])
  show ?case
  proof (cases "\<exists>q m'. step sha V prior prog claims pc m = Inr (Next q, m')")
    case True
    then obtain q m' where q: "step sha V prior prog claims pc m = Inr (Next q, m')" by blast
    have "run_from sha V prior prog claims q m' = run_from sha V' prior prog claims q m'"
      by (rule "1.IH"[OF q refl refl covered_step[OF "1.prems"(2,1) q] "1.prems"(2-5)])
    then show ?thesis by (simp add: run_from.simps[of _ _ _ _ _ pc m] q st[symmetric])
  next
    case False
    then show ?thesis
      by (auto simp: run_from.simps[of _ _ _ _ _ pc m] st split: sum.splits step_result.splits failure.splits)
  qed
qed

subsection \<open>Effects lie within the declared writes\<close>

fun effect_granted :: "(scope \<times> access_mode) list \<Rightarrow> effect \<Rightarrow> bool" where
  "effect_granted es (EPut t k _) \<longleftrightarrow> grants es 2 (t, k)"
| "effect_granted es (EDelete t k) \<longleftrightarrow> grants es 2 (t, k)"
| "effect_granted es _ \<longleftrightarrow> False"

lemma effect_granted_of: "effect_granted es (effect_of e) \<longleftrightarrow> grants es 2 (fst e)"
  by (cases e) (auto simp: effect_of_def split: option.splits)

lemma execute_writes:
  assumes k: "agrees k (ma_registers m)" and e: "record_access prog schemas k ins = Inr e" "set e \<subseteq> set es"
    and schemas: "rmap table_key_schema (p_tables prog) = Inr schemas"
    and ex: "execute_instruction sha V prior prog claims pc ins m = Inr (r, m')"
  shows "fst ` set (ma_overlay m') \<subseteq> fst ` set (ma_overlay m) \<union> {a. grants es 2 a}"
proof -
  note granted = access_granted[OF k e schemas]
  have put: "fst ` set (ma_overlay m') \<subseteq> fst ` set (ma_overlay m) \<union> {a. grants es 2 a}"
    if "access_of ins = Some (t, Some r, mo)" "mode_bits mo AND 2 \<noteq> 0" "point_access prog claims t r m = Inr (table, key, m1)"
      "overlay_write claims table key w m1 = Inr m'" for t r mo table key m1 w
    using granted(1)[OF that(1,3,2)] overlay_write_state[OF that(4)] point_access_state[OF that(3)] by auto
  show ?thesis
  proof (cases ins)
    case (IInsert t k v)
    with ex obtain table key m1 w where "point_access prog claims t k m = Inr (table, key, m1)"
      "overlay_write claims table key w m1 = Inr m'"
      by (auto simp: execute_instruction_def Let_def rbind_prod_Inr rbind_eq_Inr split: if_splits)
    then show ?thesis by (intro put[of t k AMReadWrite]) (simp_all add: IInsert access_of_def)
  next
    case (IStore t k v)
    with ex obtain table key m1 w where "point_access prog claims t k m = Inr (table, key, m1)"
      "overlay_write claims table key w m1 = Inr m'"
      by (auto simp: execute_instruction_def Let_def rbind_prod_Inr rbind_eq_Inr)
    then show ?thesis by (intro put[of t k AMWrite]) (simp_all add: IStore access_of_def)
  next
    case (IDelete t k)
    with ex obtain table key m1 w where "point_access prog claims t k m = Inr (table, key, m1)"
      "overlay_write claims table key w m1 = Inr m'"
      by (auto simp: execute_instruction_def Let_def rbind_prod_Inr rbind_eq_Inr)
    then show ?thesis by (intro put[of t k AMWrite]) (simp_all add: IDelete access_of_def)
  next
    case (IScan d t lower upper flags row_limit byte_limit)
    then show ?thesis using ex
      by (auto simp: execute_instruction_def Let_def rbind_prod_Inr rbind_eq_Inr dest!: scan_state)
  next
    case (ILoad d t k)
    then show ?thesis using ex
      by (auto simp: execute_instruction_def Let_def rbind_prod_Inr rbind_eq_Inr dest!: point_access_state)
  next
    case (IExists d t k)
    then show ?thesis using ex
      by (auto simp: execute_instruction_def Let_def rbind_prod_Inr rbind_eq_Inr dest!: point_access_state)
  qed (use ex in \<open>auto simp: execute_instruction_def Let_def rbind_eq_Inr case_tuple_Inr case_vtuple_Inr split: if_splits\<close>)
qed

lemma step_writes:
  assumes cov: "\<And>i. i < length (p_instructions prog) \<Longrightarrow> covered sha prog schemas es K i" and k: "agrees (K pc) (ma_registers m)"
    and schemas: "rmap table_key_schema (p_tables prog) = Inr schemas"
    and st: "step sha V prior prog claims pc m = Inr (r, m')"
  shows "fst ` set (ma_overlay m') \<subseteq> fst ` set (ma_overlay m) \<union> {a. grants es 2 a}"
proof (rule step_Inr[OF st])
  fix m0 res m1
  assume S: "pc < length (p_instructions prog)" "ma_registers m0 = ma_registers m" "ma_overlay m0 = ma_overlay m"
    "execute_instruction sha V prior prog claims pc (p_instructions prog ! pc) m0 = Inr (res, m1)"
    "\<And>dst v. res = Inl (dst, v) \<Longrightarrow> r = Next (Suc pc) \<and> assign (p_register_types prog) claims dst v m1 = Inr m'"
    "\<And>r'. res = Inr r' \<Longrightarrow> r = r' \<and> m' = m1"
  obtain e where e: "record_access prog schemas (K pc) (p_instructions prog ! pc) = Inr e" "set e \<subseteq> set es"
    using cov[OF S(1)] unfolding covered_def by blast
  have "ma_overlay m' = ma_overlay m1"
    using S(5,6) by (cases res) (auto simp: assign_Inr)
  then show ?thesis using execute_writes[OF _ e schemas S(4)] k S(2,3) by simp
qed

lemma run_from_writes:
  assumes cov: "\<And>i. i < length (p_instructions prog) \<Longrightarrow> covered sha prog schemas es K i"
    and schemas: "rmap table_key_schema (p_tables prog) = Inr schemas"
  shows "agrees (K pc) (ma_registers m) \<Longrightarrow> fst ` set (ma_overlay m) \<subseteq> {a. grants es 2 a} \<Longrightarrow>
    run_from sha V prior prog claims pc m = Inr (Success ty v effs) \<Longrightarrow> \<forall>f \<in> set effs. effect_granted es f"
  using assms
proof (induction sha V prior prog claims pc m rule: run_from.induct)
  case (1 sha V prior prog claims pc m)
  from "1.prems"(3) obtain r m' where st: "step sha V prior prog claims pc m = Inr (r, m')"
    by (auto simp: run_from.simps[of _ _ _ _ _ pc m] split: sum.splits failure.splits)
  have ov: "fst ` set (ma_overlay m') \<subseteq> {a. grants es 2 a}"
    using step_writes[OF "1.prems"(4,1,5) st] "1.prems"(2) by blast
  show ?case
  proof (cases r)
    case (Next q)
    have "run_from sha V prior prog claims q m' = Inr (Success ty v effs)"
      using "1.prems"(3) by (simp add: run_from.simps[of _ _ _ _ _ pc m] st Next)
    from "1.IH"[OF st refl Next covered_step[OF "1.prems"(4,1) st[unfolded Next]] ov this "1.prems"(4,5)] show ?thesis .
  next
    case (Return w)
    have "effs = map effect_of (ma_overlay m')"
      using "1.prems"(3) by (simp add: run_from.simps[of _ _ _ _ _ pc m] st Return)
    then show ?thesis using ov by (auto simp: effect_granted_of)
  qed
qed

subsection \<open>Deriving the scopes of a verified program does not panic\<close>

definition typed_known :: "program \<Rightarrow> known \<Rightarrow> bool" where
  "typed_known prog k \<longleftrightarrow> (\<forall>r v. k r = Some v \<longrightarrow> r < length (p_register_types prog) \<and> typed (p_register_types prog ! r) v)"

lemma known_source: "typed_known prog k \<Longrightarrow> source_type prog bits r = Inr ty \<Longrightarrow> k r = Some v \<Longrightarrow> typed ty v"
  by (auto simp: typed_known_def source_type_Inr)

lemma op_value_ok: "op_ok ty r \<Longrightarrow> \<exists>w. op_value r = Inr w \<and> (\<forall>v. w = Some v \<longrightarrow> value_utf8 v)"
  by (cases r) (auto simp: op_value_def op_ok_def split: op_failure.splits)

lemma fields_known:
  "fields_accepted k regs types \<Longrightarrow> length types = length regs \<Longrightarrow>
   \<exists>vs. rmap (\<lambda>f. ok_or Panic (k f)) regs = Inr vs \<and> (\<forall>v \<in> set vs. \<exists>r. k r = Some v)"
proof (induction k regs types rule: fields_accepted.induct)
  case (1 k f fs ty tys)
  then obtain v where "k f = Some v" by (auto split: option.splits)
  with 1 show ?case by auto
qed auto

lemma evaluate_ok:
  assumes v: "verify_instruction ins prog at ct bits claims = Inr dst" and k: "typed_known prog k"
    and pools: "list_all2 typed at (p_arguments prog)" "list_all2 typed ct (p_constants prog)"
  shows "\<exists>w. evaluate sha ins prog k = Inr w \<and> (\<forall>v. w = Some v \<longrightarrow> value_utf8 v)"
proof (cases ins)
  case (IConst d i)
  then show ?thesis using v pools
    by (auto simp: verify_simps evaluate_def list_all2_conv_all_nth typed_def split: if_splits)
next
  case (IArg d i)
  then show ?thesis using v pools
    by (auto simp: verify_simps evaluate_def list_all2_conv_all_nth typed_def split: if_splits)
next
  case (IMove d s)
  then show ?thesis using v k by (auto simp: evaluate_def typed_known_def typed_def)
next
  case (IBinary op d l r)
  obtain tl tr where A: "source_type prog bits l = Inr tl" "source_type prog bits r = Inr tr"
    "d < length (p_register_types prog)" "verify_binary op (p_register_types prog ! d) tl tr = Inr ()"
    using v IBinary by (auto simp: verify_simps)
  show ?thesis
  proof (cases "\<exists>x y. k l = Some x \<and> k r = Some y")
    case True
    then obtain x y where xy: "k l = Some x" "k r = Some y" by blast
    have "op_ok (p_register_types prog ! d) (binary op x y (p_register_types prog ! d))"
      using typed_shape[OF known_source[OF k A(1) xy(1)]] typed_shape[OF known_source[OF k A(2) xy(2)]]
      by (intro binary_ok[OF A(4)]) auto
    from op_value_ok[OF this] show ?thesis using xy A(3) by (simp add: IBinary evaluate_def get_or_def)
  qed (auto simp: IBinary evaluate_def split: option.splits)
next
  case (IUnary op d s)
  obtain ts where A: "source_type prog bits s = Inr ts" "verify_unary op (p_register_types prog ! d) ts = Inr ()"
    using v IUnary by (auto simp: verify_simps)
  show ?thesis
  proof (cases "k s")
    case (Some x)
    have "op_ok (p_register_types prog ! d) (unary sha op x)"
      using typed_shape[OF known_source[OF k A(1) Some]] by (intro unary_ok[OF A(2)]) auto
    from op_value_ok[OF this] show ?thesis by (simp add: IUnary evaluate_def Some)
  qed (simp add: IUnary evaluate_def)
next
  case (ISlice d s a n)
  obtain b where A: "source_type prog bits s = Inr (TBytes b)" "source_type prog bits a = Inr TU64" "source_type prog bits n = Inr TU64"
    using v ISlice by (auto simp: verify_simps check_shape_Inr)
  show ?thesis
  proof (cases "\<exists>x y z. k s = Some x \<and> k a = Some y \<and> k n = Some z")
    case True
    then obtain x y z where xyz: "k s = Some x" "k a = Some y" "k n = Some z" by blast
    have "op_ok (TBytes 0) (slice x y z)"
      using typed_shape[OF known_source[OF k A(1) xyz(1)]] typed_shape[OF known_source[OF k A(2) xyz(2)]]
        typed_shape[OF known_source[OF k A(3) xyz(3)]] by (intro slice_ok) auto
    from op_value_ok[OF this] show ?thesis using xyz by (simp add: ISlice evaluate_def)
  qed (auto simp: ISlice evaluate_def split: option.splits)
next
  case (ITuple d regs)
  obtain types where A: "d < length (p_register_types prog)" "p_register_types prog ! d = TTuple types" "length types = length regs"
    using v ITuple by (auto simp: verify_simps case_tuple_Inr split: if_splits)
  show ?thesis
  proof (cases "fields_accepted k regs types")
    case True
    obtain vs where vs: "rmap (\<lambda>f. ok_or Panic (k f)) regs = Inr vs" "\<forall>v \<in> set vs. \<exists>r. k r = Some v"
      using fields_known[OF True A(3)] by blast
    have "list_all value_utf8 vs" unfolding list_all_iff
    proof
      fix v assume "v \<in> set vs"
      then obtain r where "k r = Some v" using vs(2) by blast
      then show "value_utf8 v" using k by (auto simp: typed_known_def typed_def)
    qed
    then show ?thesis using True A vs(1) by (simp add: ITuple evaluate_def get_or_def)
  qed (use A in \<open>simp add: ITuple evaluate_def get_or_def\<close>)
next
  case (IField d s i)
  obtain tys where A: "source_type prog bits s = Inr (TTuple tys)" "i < length tys"
    using v IField by (auto simp: verify_instruction_def rbind_eq_Inr case_tuple_Inr get_or_Inr register_type_Inr)
  show ?thesis
  proof (cases "k s")
    case (Some x)
    have "typed (TTuple tys) x" by (rule known_source[OF k A(1) Some])
    then obtain vs where "x = VTuple vs" "length vs = length tys" "list_all value_utf8 vs"
      by (cases x) (auto simp: typed_def dest: list_all2_lengthD)
    then show ?thesis using A(2) by (auto simp: IField evaluate_def Some get_or_def list_all_length)
  qed (simp add: IField evaluate_def)
qed (simp_all add: evaluate_def)

lemma verify_destination:
  "verify_instruction ins prog at ct bits claims = Inr dst \<Longrightarrow> destination_of ins = dst"
  by (cases ins)
    (auto simp: verify_instruction_def destination_of_def Let_def result_simps register_type_Inr split: if_splits)

lemma verify_access:
  "verify_instruction ins prog at ct bits claims = Inr dst \<Longrightarrow> access_of ins = Some (t, r, mo) \<Longrightarrow> t < length (p_tables prog)"
  by (cases ins)
    (auto simp: verify_instruction_def access_of_def Let_def result_simps register_type_Inr split: if_splits)

lemma learn_ok:
  assumes v: "verify_instruction ins prog at ct bits claims = Inr dst" and k: "typed_known prog k"
    and pools: "list_all2 typed at (p_arguments prog)" "list_all2 typed ct (p_constants prog)"
  shows "\<exists>k'. learn sha prog ins k = Inr k' \<and> typed_known prog k'"
proof (cases dst)
  case None
  then show ?thesis using verify_destination[OF v] k by (simp add: learn_def)
next
  case (Some d)
  have d: "d < length (p_register_types prog)" using verify_instruction_destination v Some by blast
  obtain w where w: "evaluate sha ins prog k = Inr w" "\<And>v. w = Some v \<Longrightarrow> value_utf8 v"
    using evaluate_ok[OF assms] by blast
  let ?w = "case w of None \<Rightarrow> None | Some v \<Rightarrow> if accepts (p_register_types prog ! d) v then Some v else None"
  have "learn sha prog ins k = Inr (k(d := ?w))"
    using verify_destination[OF v] w(1) d Some by (cases w) (simp_all add: learn_def get_or_def)
  moreover have "typed_known prog (k(d := ?w))"
    using k d w(2) unfolding typed_known_def by (auto simp: typed_def split: option.splits if_splits)
  ultimately show ?thesis by blast
qed

lemma read_value_calm: "read_value node s \<noteq> Inl SPanic"
proof (induction node arbitrary: s)
  case (NTuple nodes)
  have "read_each (map read_value ns) s \<noteq> Inl SPanic" if "set ns \<subseteq> set nodes" for ns s
    using that NTuple by (induction ns arbitrary: s) (auto simp: rbind_eq_Inl)
  then show ?case by auto
qed (auto simp: rbind_eq_Inl take_bytes_eq_Inl take_u8_def take_u32_def take_u64_def split: prod.splits if_splits)

lemma encode_key_calm: "encode_key s bs \<noteq> Inl SPanic"
  using read_value_calm by (auto simp: encode_key_def rbind_eq_Inl split: if_splits prod.splits)

lemma table_schemas:
  assumes "tables_ok prog"
  shows "rmap table_key_schema (p_tables prog) = Inr (map key_schema_of (p_tables prog))"
  unfolding rmap_eq_Inr list_all2_map2
proof (rule list_all2_all_nthI)
  fix i assume "i < length (p_tables prog)"
  then have "table_type True (t_key (p_tables prog ! i))" using assms nth_mem by (auto simp: tables_ok_def)
  from table_descriptor[OF this] show "table_key_schema (p_tables prog ! i) = Inr (key_schema_of (p_tables prog ! i))"
    by (simp add: table_key_schema_def)
qed simp

lemma encoded_key_length:
  "table_type True ty \<Longrightarrow> encode_key (schema_of ty d) bs = Inr key \<Longrightarrow> length key \<le> 1024"
  using key_of_bound[of ty] by (auto simp: table_type_def encode_key_iff intro: order_trans)

lemma derive_scope_ok:
  assumes t: "t < length (p_tables prog)" and tables: "tables_ok prog" and k: "typed_known prog k"
  shows "\<exists>s. derive_scope prog (map key_schema_of (p_tables prog)) k t r = Inr s \<and> scope_valid s"
proof -
  let ?t = "p_tables prog ! t"
  have ok: "t_id ?t \<noteq> 0" "t_id ?t \<noteq> - 1" "table_type True (t_key ?t)"
    using t tables nth_mem[OF t] by (auto simp: tables_ok_def)
  have key: "\<exists>key. known_key (map key_schema_of (p_tables prog)) t v = Inr key \<and> (\<forall>bs. key = Some bs \<longrightarrow> length bs \<le> 1024)"
    if "k q = Some v" for q v
  proof -
    have "accepts (p_register_types prog ! q) v" using k that by (auto simp: typed_known_def typed_def)
    then have e: "encode v = Inr (encode_value v)" by (rule encode_accepted)
    show ?thesis
    proof (cases "encode_key (key_schema_of ?t) (encode_value v)")
      case (Inl e')
      then show ?thesis using t e encode_key_calm[of "key_schema_of ?t" "encode_value v"]
        by (cases e') (auto simp: known_key_def get_or_def)
    next
      case (Inr bs)
      then show ?thesis using t e encoded_key_length[OF ok(3) Inr] by (auto simp: known_key_def get_or_def)
    qed
  qed
  show ?thesis
  proof (cases "r = None \<or> k (the r) = None")
    case True
    then show ?thesis using t ok by (auto simp: derive_scope_def get_or_def scope_valid_def split: option.splits)
  next
    case False
    then obtain q v where q: "r = Some q" "k q = Some v" by auto
    obtain key' where "known_key (map key_schema_of (p_tables prog)) t v = Inr key'" "\<forall>bs. key' = Some bs \<longrightarrow> length bs \<le> 1024"
      using key[OF q(2)] by blast
    then show ?thesis using q t ok by (cases key') (auto simp: derive_scope_def get_or_def scope_valid_def)
  qed
qed


lemma record_access_ok:
  assumes v: "verify_instruction ins prog at ct bits claims = Inr dst" and tables: "tables_ok prog" and k: "typed_known prog k"
  shows "\<exists>e. record_access prog (map key_schema_of (p_tables prog)) k ins = Inr e \<and> (\<forall>(s, mo) \<in> set e. scope_valid s)"
proof (cases "access_of ins")
  case (Some a)
  obtain t r mo where a: "a = (t, r, mo)" by (cases a)
  obtain s where "derive_scope prog (map key_schema_of (p_tables prog)) k t r = Inr s" "scope_valid s"
    using derive_scope_ok[OF verify_access[OF v Some[unfolded a]] tables k] by blast
  then show ?thesis by (simp add: record_access_def Some a)
qed (simp add: record_access_def)

text \<open>The loops of the verifier and of the analysis visit the same edges.\<close>

definition parallel :: "program \<Rightarrow> nat \<Rightarrow> bitset option list \<Rightarrow> bitset option \<Rightarrow> known option list \<Rightarrow> known option \<Rightarrow> bool" where
  "parallel prog i pv fv pd fd \<longleftrightarrow> length pd = length pv \<and>
     (\<forall>j < length pv. i \<le> j \<longrightarrow> (pv ! j = None \<longleftrightarrow> pd ! j = None)) \<and> (fv = None \<longleftrightarrow> fd = None) \<and>
     (\<forall>j < length pd. \<forall>k. pd ! j = Some k \<longrightarrow> typed_known prog k) \<and> (\<forall>k. fd = Some k \<longrightarrow> typed_known prog k)"

lemma typed_join: "typed_known prog a \<Longrightarrow> typed_known prog (join a b)"
  unfolding typed_known_def join_def by (metis option.distinct(1))

lemma typed_join_flow:
  "join_flow fd p = Inr k \<Longrightarrow> (\<And>f. fd = Some f \<Longrightarrow> typed_known prog f) \<Longrightarrow> (\<And>q. p = Some q \<Longrightarrow> typed_known prog q) \<Longrightarrow>
   typed_known prog k"
  by (auto simp: join_flow_def typed_join split: option.splits)

lemma parallel_step:
  assumes p: "parallel prog i pv fv pd fd" and i: "i < length pv" and k: "typed_known prog k"
    and t: "\<And>t. jump_target ins = Some t \<Longrightarrow> i < t \<and> t < length pv"
  shows "parallel prog (Suc i) (flow_pending ins s (pv[i := None])) (if falls_through ins then Some s else None)
    (flow_known ins k (pd[i := None])) (if falls_through ins then Some k else None)"
proof (cases "jump_target ins")
  case None
  then show ?thesis using p i k by (auto simp: parallel_def flow_pending_def flow_known_def nth_list_update)
next
  case (Some t')
  have target: "typed_known prog (join_target (pd ! t') k)"
    using p t[OF Some] k typed_join by (auto simp: parallel_def join_target_def split: option.splits)
  show ?thesis using p i k t[OF Some] target
    by (auto simp: parallel_def flow_pending_def flow_known_def Some nth_list_update)
qed

lemma derive_from_total:
  assumes "verify_from prog at ct claims i rest pv fv = Inr ()" and "flow_ok prog pv fv"
    and "parallel prog i pv fv pd fd" and tables: "tables_ok prog"
    and pools: "list_all2 typed at (p_arguments prog)" "list_all2 typed ct (p_constants prog)"
  shows "\<exists>es. derive_from sha prog (map key_schema_of (p_tables prog)) i rest pd fd = Inr es \<and> (\<forall>(s, mo) \<in> set es. scope_valid s)"
  using assms(1-3)
proof (induction rest arbitrary: i pv fv pd fd)
  case (Cons ins rest)
  obtain s dst s' where S: "i < length pv" "length s' = words prog" "verify_instruction ins prog at ct s claims = Inr dst"
    "\<And>t. jump_target ins = Some t \<Longrightarrow> i < t \<and> t < length pv"
    "verify_from prog at ct claims (Suc i) rest (flow_pending ins s' (pv[i := None]))
       (if falls_through ins then Some s' else None) = Inr ()"
    by (rule verify_from_step[OF Cons.prems(1,2)]) blast
  have reach: "\<not> (fv = None \<and> pv ! i = None)"
    using Cons.prems(1) S(1) unfolding verify_from_Cons_eq by (auto simp: get_or_def merge_state_def split: option.splits)
  note par = Cons.prems(3)[unfolded parallel_def]
  obtain k where k: "join_flow fd (pd ! i) = Inr k"
    using reach par S(1) by (auto simp: join_flow_def split: option.splits)
  have tk: "typed_known prog k" using typed_join_flow[OF k] par S(1) by simp
  obtain e where e: "record_access prog (map key_schema_of (p_tables prog)) k ins = Inr e" "\<forall>(s, mo) \<in> set e. scope_valid s"
    using record_access_ok[OF S(3) tables tk] by blast
  obtain k' where k': "learn sha prog ins k = Inr k'" "typed_known prog k'"
    using learn_ok[OF S(3) tk pools] by blast
  obtain es where es: "derive_from sha prog (map key_schema_of (p_tables prog)) (Suc i) rest (flow_known ins k' (pd[i := None]))
      (if falls_through ins then Some k' else None) = Inr es" "\<forall>(s, mo) \<in> set es. scope_valid s"
    using Cons.IH[OF S(5) flow_ok_step[OF Cons.prems(2) S(2,1,4)] parallel_step[OF Cons.prems(3) S(1) k'(2) S(4)]] by blast
  have "derive_from sha prog (map key_schema_of (p_tables prog)) i (ins # rest) pd fd = Inr (e @ es)"
    unfolding derive_from_Cons_eq using S(1,4) par k e(1) k'(1) es(1)
    by (auto simp: get_or_def split: option.splits)
  moreover have "\<forall>(s, mo) \<in> set (e @ es). scope_valid s" using e(2) es(2) by auto
  ultimately show ?case by blast
qed simp

lemma derive_total:
  assumes "verified prog claims" "tables_ok prog"
  shows "\<exists>m. derive sha prog = Inr m \<and> manifest_ok m"
proof -
  obtain at ct where v: "verify prog at ct claims = Inr ()" "list_all2 typed at (p_arguments prog)" "list_all2 typed ct (p_constants prog)"
    using assms(1) unfolding verified_def by blast
  let ?n = "length (p_instructions prog)"
  obtain es where es: "derive_from sha prog (map key_schema_of (p_tables prog)) 0 (p_instructions prog) (replicate ?n None) (Some Map.empty) = Inr es"
      "\<forall>(s, mo) \<in> set es. scope_valid s"
    using derive_from_total[OF v(1)[unfolded verify_def] _ _ assms(2) v(2,3), of "replicate ?n None" "Some Map.empty"]
    by (auto simp: flow_ok_def words_def parallel_def typed_known_def)
  obtain m where "manifest_new es = Inr m" "manifest_ok m"
    using es(2) manifest_new_Inr(1,2)[of es] by blast
  then show ?thesis using es(1) by (simp add: derive_def table_schemas[OF assms(2)])
qed


lemma run_depends:
  assumes "program_ok prog claims" and "derive sha prog = Inr required"
    and "validate m required (p_tables prog) claims = Inr ()" and "same_reads m prior V V'"
  shows "run sha V prior prog claims = run sha V' prior prog claims"
proof -
  have "forward prog" using assms(1) solution_forward by (auto simp: program_ok_def)
  from assms(2) this show ?thesis
  proof (rule derive_sound)
    fix schemas es K
    assume D: "rmap table_key_schema (p_tables prog) = Inr schemas" "manifest_new es = Inr required"
      "\<And>i. i < length (p_instructions prog) \<Longrightarrow> covered sha prog schemas es K i" "K 0 = Map.empty"
    have "grants m 1 a" if "grants es 1 a" for a
      using validate_grants[OF assms(3)] manifest_new_Inr(3)[OF D(2), of 1 a] that by (simp add: is_mode_bit_def)
    from run_from_same[OF D(3,1) this assms(4), of 0] show ?thesis
      unfolding run_def by (simp add: D(4) agrees_def)
  qed
qed

lemma run_effects:
  assumes "program_ok prog claims" and "derive sha prog = Inr required"
    and "validate m required (p_tables prog) claims = Inr ()"
    and "run sha V prior prog claims = Inr (Success ty v effs)"
  shows "\<forall>f \<in> set effs. effect_granted m f"
proof -
  have "forward prog" using assms(1) solution_forward by (auto simp: program_ok_def)
  from assms(2) this show ?thesis
  proof (rule derive_sound)
    fix schemas es K
    assume D: "rmap table_key_schema (p_tables prog) = Inr schemas" "manifest_new es = Inr required"
      "\<And>i. i < length (p_instructions prog) \<Longrightarrow> covered sha prog schemas es K i" "K 0 = Map.empty"
    have g: "grants m 2 a" if "grants es 2 a" for a
      using validate_grants[OF assms(3)] manifest_new_Inr(3)[OF D(2), of 2 a] that by (simp add: is_mode_bit_def)
    have "\<forall>f \<in> set effs. effect_granted es f"
      by (rule run_from_writes[OF D(3,1) _ _ assms(4)[unfolded run_def]]) (simp_all add: D(4) agrees_def)
    moreover have "effect_granted m f" if "effect_granted es f" for f using that g by (cases f) auto
    ultimately show ?thesis by blast
  qed
qed

subsection \<open>Properties\<close>

text \<open>
  C8: A run depends on the stored data only through the declared reads: when two views agree
  on the visible value at every address a validated manifest lets the program read, and on
  the range reads of every table it may read whole, the program has the same outcome on both.
\<close>

theorem run_depends_on_declared_reads:
  assumes "program_ok prog claims" and "derive sha prog = Inr required"
    and "validate m required (p_tables prog) claims = Inr ()" and "same_reads m prior V V'"
  shows "run sha V prior prog claims = run sha V' prior prog claims"
  using assms by (rule run_depends)

text \<open>
  C9: The effects of a successful run are puts and deletions at addresses that the validated
  manifest lets the program write.
\<close>

theorem effects_within_declared_writes:
  assumes "program_ok prog claims" and "derive sha prog = Inr required"
    and "validate m required (p_tables prog) claims = Inr ()"
    and "run sha V prior prog claims = Inr (Success ty v effs)"
  shows "\<forall>f \<in> set effs. effect_granted m f"
  using assms by (rule run_effects)

text \<open>
  C21: Deriving the scopes of a decoded program whose tables are well formed always succeeds,
  with a manifest in normal form; in particular the analysis never panics.
\<close>

theorem derivation_succeeds:
  assumes "verified prog claims" "tables_ok prog"
  shows "\<exists>m. derive sha prog = Inr m \<and> manifest_ok m"
  using assms by (rule derive_total)

text \<open>
  A program that stores a constant under a constant key; its one scope is that point.
\<close>

definition writer_table :: tbl where
  "writer_table = \<lparr>t_id = 1, t_key = TBoolean, t_value = TBoolean\<rparr>"

definition writer_program :: program where
  "writer_program = \<lparr>p_result_type = TBoolean, p_tables = [writer_table], p_arguments = [], p_register_types = [TBoolean],
     p_constants = [VBoolean True], p_instructions = [IConst 0 0, IStore 0 0 0, IReturn 0]\<rparr>"

lemma boolean_table_type: "table_type key TBoolean"
  by (simp add: table_type_def wf_type_def MAX_DESCRIPTOR_BYTES_def)

lemma writer_tables_ok: "tables_ok writer_program"
  by (simp add: tables_ok_def writer_program_def writer_table_def boolean_table_type)

lemma writer_verified: "verified writer_program LIMIT_CEILINGS"
proof -
  have "verify writer_program [] [TBoolean] LIMIT_CEILINGS = Inr ()"
    by (simp add: verify_def writer_program_def writer_table_def verify_instruction_def merge_state_def get_or_def
        register_type_def check_shape_def set_bit_at_def source_type_def table_at_def Let_def)
  moreover have "wf_type TBoolean" "typed TBoolean (VBoolean True)"
    by (simp_all add: wf_type_def typed_def MAX_DESCRIPTOR_BYTES_def)
  ultimately show ?thesis unfolding verified_def
    by (intro conjI exI[of _ "[]"] exI[of _ "[TBoolean]"]) (simp_all add: writer_program_def)
qed


theorem derivation_succeeds_witness: "\<exists>m. derive (\<lambda>bs. bs) writer_program = Inr m \<and> manifest_ok m"
  by (rule derivation_succeeds[OF writer_verified writer_tables_ok])

lemma boolean_key: "encode_key (schema_of TBoolean d) [1] = Inr [1]"
proof -
  have "encode_key (schema_of TBoolean d) (encode_value (VBoolean True)) = Inr (key_of (VBoolean True))"
    using boolean_table_type[of True] unfolding table_type_def
    by (subst encode_key_iff) (auto simp: MAX_KEY_BYTES_def intro!: exI[of _ "VBoolean True"])
  then show ?thesis by simp
qed

lemma writer_scopes: "derive (\<lambda>bs. bs) writer_program = Inr [(SKey 1 [1], AMWrite)]"
  unfolding derive_def table_schemas[OF writer_tables_ok]
  by (simp add: writer_program_def writer_table_def get_or_def join_flow_def record_access_def access_of_def
      learn_def destination_of_def evaluate_def derive_scope_def known_key_def encode_def boolean_key
      manifest_new_def mode_of_def)

lemma writer_valid: "validate [(SKey 1 [1], AMWrite)] [(SKey 1 [1], AMWrite)] (p_tables writer_program) LIMIT_CEILINGS = Inr ()"
proof -
  have "decode_key (schema_of TBoolean d) [1] = Inr [1]" for d
    using boolean_table_type[of True] unfolding table_type_def
    by (subst decode_key_iff) (auto simp: MAX_KEY_BYTES_def intro!: exI[of _ "VBoolean True"])
  moreover have "LIMIT_CEILINGS ! 6 = 16384" by (simp add: LIMIT_CEILINGS_def)
  ultimately show ?thesis
    by (simp add: validate_def check_count_def writer_program_def writer_table_def declared_def
        table_descriptor[OF boolean_table_type] del: encode_type.simps)
qed


lemma writer_run:
  "run (\<lambda>bs. bs) V prior writer_program LIMIT_CEILINGS = Inr (Success TBoolean (VBoolean True) [EPut 1 [1] [1]])"
proof -
  have [simp]: "LIMIT_CEILINGS ! Suc 0 = 65535" "LIMIT_CEILINGS ! 7 = 65535" "LIMIT_CEILINGS ! 8 = 65535"
    "LIMIT_CEILINGS ! 9 = 1024" "LIMIT_CEILINGS ! 10 = 16777216" "LIMIT_CEILINGS ! 11 = 67108864"
    "LIMIT_CEILINGS ! 14 = 65535" "LIMIT_CEILINGS ! 15 = 67108864" "LIMIT_CEILINGS ! 16 = 16777216"
    by (simp_all add: LIMIT_CEILINGS_def)
  have [simp]: "canonical_key writer_table (VBoolean True) LIMIT_CEILINGS = Inr [1]"
    by (simp add: canonical_key_eq writer_table_def boolean_table_type check_amounts.simps)
  have [simp]: "t_id writer_table = 1" "t_value writer_table = TBoolean"
    by (simp_all add: writer_table_def)
  show ?thesis
    by (simp add: run_def run_from.simps step_def writer_program_def usage_default_def execute_instruction_def
        add64_def sub64_def index_or_panic_def assign_def check_bound_of_def check_amounts.simps held_len_def
        register_def ok_or_def point_access_def machine_point_def point_def distinct_with_def overlay_write_def
        overlay_entry_def encode_def effect_of_def Let_def)
qed

theorem run_depends_on_declared_reads_witness:
  "run (\<lambda>bs. bs) (list_view example_entries) 4 writer_program LIMIT_CEILINGS =
   run (\<lambda>bs. bs) (list_view (\<lambda>_. [])) 4 writer_program LIMIT_CEILINGS"
proof -
  have "same_reads [(SKey 1 [1], AMWrite)] 4 (list_view example_entries) (list_view (\<lambda>_. []))"
    by (auto simp: same_reads_def)
  then show ?thesis
    by (rule run_depends_on_declared_reads[OF verified_program_ok[OF writer_verified] writer_scopes writer_valid])
qed

theorem effects_within_declared_writes_witness:
  "effect_granted [(SKey 1 [1], AMWrite)] (EPut 1 [1] [1])"
  using effects_within_declared_writes[OF verified_program_ok[OF writer_verified] writer_scopes writer_valid
      writer_run[of "list_view example_entries" 4]] by simp

end
