(* ===== verification/Blop_Interpret.thy ===== *)
theory Blop_Interpret
  imports Blop_Analysis
begin

section \<open>Preparing and interpreting transactions (\<^verbatim>\<open>src/vm/mod.rs\<close>)\<close>

text \<open>
  A transaction is bytes: a program and its arguments. Preparation reads the historical
  policy and the tables the program names, decodes and verifies the program against them,
  derives its scopes and checks the declared manifest. Shown for arbitrary bytes: preparing
  and interpreting never panics, and what a prepared transaction reads and writes is what
  its manifest declares.
\<close>

subsection \<open>Definitions\<close>

definition m_reserved_sequence :: string where "m_reserved_sequence = ''reserved record sequence''"
definition m_claims_policy :: string where
  "m_claims_policy = ''transaction claims exceed historical policy''"

record transaction =
  tx_program :: bytes
  tx_arguments :: bytes

record prepared =
  pt_prior :: u64
  pt_program :: program
  pt_claims :: policy
  pt_manifest :: manifest

definition prior_sequence :: "u64 \<Rightarrow> vm_error + u64" where
  "prior_sequence sequence =
     (if sequence = 0 \<or> sequence = - 1 then Inl (Invalid m_reserved_sequence) else Inr (sequence - 1))"

definition prepare_program :: "view \<Rightarrow> u64 \<Rightarrow> bytes \<Rightarrow> bytes \<Rightarrow> policy \<Rightarrow> vm_error + u64 \<times> program" where
  "prepare_program V sequence program_bytes argument_bytes claims =
     rbind (prior_sequence sequence) (\<lambda>prior.
     rbind (db_policy V prior) (\<lambda>policy.
     if list_ex (\<lambda>(claim, limit). claim > limit) (zip claims policy) then Inl (Invalid m_claims_policy) else
     rbind (table_ids program_bytes) (\<lambda>ids.
     rbind (rmap (\<lambda>i. db_table V i prior) ids) (\<lambda>tables.
     rbind (decode program_bytes argument_bytes tables claims) (\<lambda>prog.
     Inr (prior, prog))))))"

definition vm_interpret :: "(bytes \<Rightarrow> bytes) \<Rightarrow> view \<Rightarrow> u64 \<Rightarrow> bytes \<Rightarrow> bytes \<Rightarrow> policy \<Rightarrow> vm_error + outcome" where
  "vm_interpret sha V sequence program_bytes argument_bytes claims =
     rbind (prepare_program V sequence program_bytes argument_bytes claims) (\<lambda>(prior, prog).
     run sha V prior prog claims)"

definition finish_preparation :: "(bytes \<Rightarrow> bytes) \<Rightarrow> u64 \<Rightarrow> program \<Rightarrow> policy \<Rightarrow> manifest option \<Rightarrow> vm_error + prepared" where
  "finish_preparation sha prior prog claims manifest =
     rbind (derive sha prog) (\<lambda>required.
     let manifest = (case manifest of None \<Rightarrow> required | Some m \<Rightarrow> m) in
     rbind (validate manifest required (p_tables prog) claims) (\<lambda>_.
     Inr \<lparr>pt_prior = prior, pt_program = prog, pt_claims = claims, pt_manifest = manifest\<rparr>))"

definition prepare_transaction :: "(bytes \<Rightarrow> bytes) \<Rightarrow> view \<Rightarrow> u64 \<Rightarrow> transaction \<Rightarrow> policy \<Rightarrow> manifest option \<Rightarrow> vm_error + prepared" where
  "prepare_transaction sha V sequence tx claims manifest =
     rbind (prepare_program V sequence (tx_program tx) (tx_arguments tx) claims) (\<lambda>(prior, prog).
     finish_preparation sha prior prog claims manifest)"

definition interpret_prepared :: "(bytes \<Rightarrow> bytes) \<Rightarrow> view \<Rightarrow> prepared \<Rightarrow> vm_error + outcome" where
  "interpret_prepared sha V p = run sha V (pt_prior p) (pt_program p) (pt_claims p)"

subsection \<open>Lookups do not panic\<close>

definition calm_result :: "storage_error + 'a \<Rightarrow> bool" where
  "calm_result r \<longleftrightarrow> r \<noteq> Inl SPanic"

named_theorems calm_intros \<open>storage results that are not panics\<close>

lemma calm_result_simps [simp]: "calm_result (Inr x)" "calm_result (Inl e) \<longleftrightarrow> e \<noteq> SPanic"
  by (auto simp: calm_result_def)

lemma calm_rbind [calm_intros]:
  "calm_result r \<Longrightarrow> (\<And>x. r = Inr x \<Longrightarrow> calm_result (f x)) \<Longrightarrow> calm_result (rbind r f)"
  by (cases r) auto

lemma calm_if [calm_intros]:
  "(c \<Longrightarrow> calm_result a) \<Longrightarrow> (\<not> c \<Longrightarrow> calm_result b) \<Longrightarrow> calm_result (if c then a else b)"
  by simp

lemma calm_case_prod [calm_intros]: "(\<And>a b. p = (a, b) \<Longrightarrow> calm_result (f a b)) \<Longrightarrow> calm_result (case p of (a, b) \<Rightarrow> f a b)"
  by (cases p) simp

lemma calm_basics [calm_intros]:
  "e \<noteq> SPanic \<Longrightarrow> calm_result (take_u8 e i)" "e \<noteq> SPanic \<Longrightarrow> calm_result (take_u16 e i)"
  "e \<noteq> SPanic \<Longrightarrow> calm_result (take_u32 e i)" "e \<noteq> SPanic \<Longrightarrow> calm_result (ok_or e x)"
  by (auto simp: calm_result_def take_uint_eq_Inl ok_or_eq_Inl)

lemma calm_read_nodes: "(\<And>i. calm_result (f i)) \<Longrightarrow> calm_result (read_nodes f n input vb kb nodes)"
  by (induction n arbitrary: input vb kb nodes) (auto intro!: calm_intros)

lemma calm_decode_node: "calm_result (decode_node input depth)"
proof (induction "17 - depth" arbitrary: input depth rule: less_induct)
  case less
  have "depth \<le> 16 \<Longrightarrow> calm_result (decode_node i (Suc depth))" for i
    by (rule less) auto
  then have "depth \<le> 16 \<Longrightarrow> calm_result (read_nodes (\<lambda>i. decode_node i (Suc depth)) n i vb kb ns)" for n i vb kb ns
    by (intro calm_read_nodes)
  then show ?case
    by (subst decode_node.simps) (auto intro!: calm_intros)
qed

lemma calm_schema_decode: "calm_result (schema_decode bs)"
  by (auto simp: schema_decode_def intro!: calm_intros calm_decode_node)

lemma no_panic_input_error: "calm_result r \<Longrightarrow> no_panic (map_err input_error r)"
  by (cases r) (auto simp: input_error_def no_panic_def split: storage_error.splits)

lemma no_panic_persisted: "no_panic r \<Longrightarrow> no_panic (map_err persisted r)"
  by (cases r) (auto simp: persisted_def no_panic_def split: vm_error.splits storage_error.splits)

lemma no_panic_table_schema [no_panic_intros]: "no_panic (table_schema bs key)"
  by (auto simp: table_schema_def intro!: no_panic_intros no_panic_input_error calm_schema_decode)

lemma no_panic_ids [no_panic_intros]: "no_panic (valid_id i)" "no_panic (valid_name n)"
  by (auto simp: valid_id_def valid_name_def)

lemma no_panic_decode_catalogue: "no_panic (decode_catalogue i bs)"
  by (auto simp: decode_catalogue_def intro!: no_panic_intros)

lemma no_panic_decode_catalogue_key: "no_panic (decode_catalogue_key bs)"
  unfolding decode_catalogue_key_def Let_def by (auto intro!: no_panic_intros no_panic_persisted)


lemma calmD:
  assumes "calm V"
  shows "vw_scan V t lo hi \<noteq> Inl SPanic" "vw_scan V t lo hi = Inr es \<Longrightarrow> Inl SPanic \<notin> set es"
  using assms by (auto simp: calm_def)

lemma no_panic_Storage: "calm_result r \<Longrightarrow> no_panic (map_err Storage r)"
  by (cases r) (auto simp: no_panic_def)

lemma no_panic_catalogue_version:
  assumes "calm V"
  shows "no_panic (catalogue_version V i s)"
  unfolding catalogue_version_def
proof (intro no_panic_rbind no_panic_if no_panic_ids no_panic_Storage)
  show "calm_result (vw_scan V Catalogue (Included (catalogue_key i s)) (Excluded (u64_be (i + 1))))"
    using calmD(1)[OF assms] by (simp add: calm_result_def)
next
  fix es
  assume "map_err Storage (vw_scan V Catalogue (Included (catalogue_key i s)) (Excluded (u64_be (i + 1)))) = Inr es"
  then have "Inl SPanic \<notin> set es" using calmD(2)[OF assms] by (simp add: map_err_eq_Inr)
  then show "no_panic (case es of [] \<Rightarrow> Inr None | Inl e # _ \<Rightarrow> Inl (Storage e)
     | Inr (key, val) # _ \<Rightarrow> rbind (decode_catalogue_key key) (\<lambda>(found_id, found_sequence).
         if found_id \<noteq> i \<or> found_sequence > s then Inl (Storage (Corrupt m_cat_seek)) else
         rbind (map_err persisted (decode_catalogue i val)) (\<lambda>version. Inr (Some version))))"
    by (cases es rule: list.exhaust; cases "hd es")
      (auto intro!: no_panic_intros no_panic_persisted no_panic_decode_catalogue no_panic_decode_catalogue_key)
qed simp

lemma calm_policy_decode: "calm_result (policy_decode bs)"
  by (auto simp: policy_decode_def calm_result_def rbind_eq_Inl map_err_eq_Inl Let_def check_version_def split: if_splits)

lemma no_panic_latest_policy: "Inl SPanic \<notin> set es \<Longrightarrow> no_panic (latest_policy es p)"
  by (induction es p rule: latest_policy.induct)
    (auto intro!: no_panic_rbind no_panic_if no_panic_input_error calm_policy_decode)

lemma no_panic_db_policy: "calm V \<Longrightarrow> no_panic (db_policy V s)"
  unfolding db_policy_def using calmD[of V]
  by (intro no_panic_if no_panic_rbind no_panic_Storage no_panic_latest_policy)
    (auto simp: calm_result_def map_err_eq_Inr no_panic_def ok_or_eq_Inl)

lemma no_panic_db_table: "calm V \<Longrightarrow> no_panic (db_table V i s)"
  unfolding db_table_def by (intro no_panic_rbind no_panic_catalogue_version) (auto simp: no_panic_def ok_or_eq_Inl)

lemma no_panic_rmap: "(\<And>x. no_panic (f x)) \<Longrightarrow> no_panic (rmap f xs)"
  by (induction xs) (auto intro!: no_panic_rbind)

lemma no_panic_prepare_program: "calm V \<Longrightarrow> no_panic (prepare_program V s pb ab claims)"
  unfolding prepare_program_def
  by (intro no_panic_rbind no_panic_if no_panic_db_policy no_panic_rmap no_panic_db_table no_panic_table_ids no_panic_decode)
    (auto simp: prior_sequence_def)

subsection \<open>What preparation establishes\<close>

lemma encode_catalogue_table:
  "encode_catalogue c = Inr bs \<Longrightarrow> table_ok (cv_table c)"
  by (auto simp: encode_catalogue_def table_ok_def rbind_eq_Inr schema_descriptor_iff valid_id_def split: if_splits)

lemma catalogue_version_ok: "catalogue_version V i s = Inr (Some c) \<Longrightarrow> table_ok (cv_table c) \<and> t_id (cv_table c) = i"
proof -
  assume c: "catalogue_version V i s = Inr (Some c)"
  then obtain es where es: "(case es of [] \<Rightarrow> Inr None | Inl e # _ \<Rightarrow> Inl (Storage e)
     | Inr (key, val) # _ \<Rightarrow> rbind (decode_catalogue_key key) (\<lambda>(found_id, found_sequence).
         if found_id \<noteq> i \<or> found_sequence > s then Inl (Storage (Corrupt m_cat_seek)) else
         rbind (map_err persisted (decode_catalogue i val)) (\<lambda>version. Inr (Some version)))) = Inr (Some c)"
    by (auto simp: catalogue_version_def rbind_eq_Inr split: if_splits)
  then obtain bs where "decode_catalogue i bs = Inr c"
    by (cases es; cases "hd es") (auto simp: rbind_eq_Inr map_err_eq_Inr split: if_splits)
  then show ?thesis by (auto simp: decode_catalogue_exact valid_catalogue_def dest: encode_catalogue_table)
qed

lemma db_table_ok: "db_table V i s = Inr t \<Longrightarrow> table_ok t \<and> t_id t = i"
  using catalogue_version_ok
  by (auto simp: db_table_def live_version_def rbind_eq_Inr ok_or_eq_Inr split: option.splits if_splits)

lemma latest_policy_ok: "latest_policy es p = Inr (Some q) \<Longrightarrow> (\<And>r. p = Some r \<Longrightarrow> policy_ok r) \<Longrightarrow> policy_ok q"
  by (induction es p rule: latest_policy.induct)
    (auto simp: rbind_eq_Inr map_err_eq_Inr policy_decode_exact split: if_splits)

lemma claims_within_policy:
  assumes "policy_ok p" "length claims = 17" "\<not> list_ex (\<lambda>(claim, limit). claim > limit) (zip claims p)"
  shows "policy_ok claims"
proof -
  have n: "length p = 17" "length LIMIT_CEILINGS = 17" using policy_ok_length[OF assms(1)] by (simp_all add: LIMIT_CEILINGS_def)
  have "claims ! i \<le> LIMIT_CEILINGS ! i" if i: "i < 17" for i
  proof -
    have "(claims ! i, p ! i) \<in> set (zip claims p)" using i n assms(2) by (auto simp: set_zip)
    then have "claims ! i \<le> p ! i" using assms(3) by (auto simp: list_ex_iff)
    also have "p ! i \<le> LIMIT_CEILINGS ! i" using assms(1) i n by (simp add: policy_ok_def list_all2_conv_all_nth)
    finally show ?thesis .
  qed
  then show ?thesis using n assms(2) by (simp add: policy_ok_def list_all2_conv_all_nth)
qed

lemma prepare_program_ok:
  assumes "prepare_program V s pb ab claims = Inr (prior, prog)" "length claims = 17"
  shows "verified prog claims" "tables_ok prog" "policy_ok claims" "prior = s - 1" "s \<noteq> 0" "s \<noteq> - 1"
proof -
  obtain p ids tables where P: "prior_sequence s = Inr prior" "db_policy V prior = Inr p"
    "\<not> list_ex (\<lambda>(claim, limit). claim > limit) (zip claims p)" "rmap (\<lambda>i. db_table V i prior) ids = Inr tables"
    "decode pb ab tables claims = Inr prog"
    using assms(1) by (auto simp: prepare_program_def rbind_eq_Inr split: if_splits)
  show "prior = s - 1" "s \<noteq> 0" "s \<noteq> - 1" using P(1) by (auto simp: prior_sequence_def split: if_splits)
  show "verified prog claims" by (rule decode_verifies(1)[OF P(5)])
  have "policy_ok p" using P(2) latest_policy_ok by (auto simp: db_policy_def rbind_eq_Inr ok_or_eq_Inr split: if_splits)
  then show "policy_ok claims" using claims_within_policy assms(2) P(3) by blast
  have "table_ok t" if t: "t \<in> set tables" for t
  proof -
    obtain j where "j < length tables" "t = tables ! j" using t by (metis in_set_conv_nth)
    then have "db_table V (ids ! j) prior = Inr t" using P(4) by (auto simp: rmap_eq_Inr list_all2_conv_all_nth)
    then show ?thesis using db_table_ok by blast
  qed
  then show "tables_ok prog" using decode_verifies(2)[OF P(5)] by (auto simp: tables_ok_def table_ok_def)
qed


lemma prepare_transaction_Inr:
  assumes "prepare_transaction sha V s tx claims mf = Inr p"
  obtains prior prog required where
    "prepare_program V s (tx_program tx) (tx_arguments tx) claims = Inr (prior, prog)" "derive sha prog = Inr required"
    "validate (pt_manifest p) required (p_tables prog) claims = Inr ()"
    "p = \<lparr>pt_prior = prior, pt_program = prog, pt_claims = claims, pt_manifest = (case mf of None \<Rightarrow> required | Some m \<Rightarrow> m)\<rparr>"
  using assms by (auto simp: prepare_transaction_def finish_preparation_def rbind_eq_Inr Let_def split: option.splits)

lemma no_panic_declare: "no_panic (declare_scopes tables m d)" if "\<forall>t \<in> set tables. table_ok t"
proof -
  have find: "t \<in> set tables" if "table_by_id tables i = Some t" for i t
    using that by (induction tables i rule: table_by_id.induct) (auto split: if_splits)
  show ?thesis
  proof (induction m arbitrary: d)
    case (Cons e m)
    obtain s mo where e: "e = (s, mo)" by (cases e)
    have "no_panic (case s of STable _ \<Rightarrow> Inr () | SKey _ key \<Rightarrow>
           rbind (descriptor (t_key t)) (\<lambda>bs. rbind (map_err Storage (schema_decode bs)) (\<lambda>schema.
           rbind (map_err (\<lambda>_. Invalid m_manifest_canonical) (decode_key schema key)) (\<lambda>_. Inr ()))))"
      if t: "table_by_id tables (scope_table s) = Some t" for t
    proof -
      have "table_ok t" using find[OF t] \<open>\<forall>t \<in> set tables. table_ok t\<close> by blast
      then have ty: "table_type True (t_key t)" by (simp add: table_ok_def)
      have "no_panic (map_err (\<lambda>_. Invalid m_manifest_canonical) r)" for r :: "storage_error + bytes" by (cases r) auto
      then show ?thesis using table_descriptor[OF ty] by (cases s) (auto intro!: no_panic_rbind)
    qed
    then show ?case unfolding e declare_scopes.simps
      by (intro no_panic_rbind Cons.IH) (auto simp: no_panic_def ok_or_eq_Inl ok_or_eq_Inr)
  qed simp
qed

lemma no_panic_validate: "\<forall>t \<in> set tables. table_ok t \<Longrightarrow> no_panic (validate m required tables claims)"
  unfolding validate_def by (intro no_panic_rbind no_panic_if no_panic_declare) (auto simp: check_count_def)

lemma no_panic_prod:
  "no_panic r \<Longrightarrow> (\<And>a b. r = Inr (a, b) \<Longrightarrow> no_panic (f a b)) \<Longrightarrow> no_panic (rbind r (\<lambda>(a, b). f a b))"
  by (rule no_panic_rbind) auto

subsection \<open>Properties\<close>

text \<open>
  C5: Interpreting arbitrary program and argument bytes never panics, with or without a
  declared manifest, on any view whose own operations do not panic: malformed input, corrupt
  stored data and exceeded limits are errors or aborts.
\<close>

theorem interpret_never_panics:
  assumes "calm V" "length claims = 17"
  shows "no_panic (vm_interpret sha V s pb ab claims) \<and> no_panic (prepare_transaction sha V s tx claims mf)"
proof
  show "no_panic (vm_interpret sha V s pb ab claims)"
    unfolding vm_interpret_def
  proof (rule no_panic_prod[OF no_panic_prepare_program[OF assms(1)]])
    fix prior prog
    assume P: "prepare_program V s pb ab claims = Inr (prior, prog)"
    note ok = prepare_program_ok[OF P assms(2)]
    show "no_panic (run sha V prior prog claims)"
      by (rule run_ok(1)[OF verified_program_ok[OF ok(1)] ok(2,3) assms(1)])
  qed
  show "no_panic (prepare_transaction sha V s tx claims mf)"
    unfolding prepare_transaction_def
  proof (rule no_panic_prod[OF no_panic_prepare_program[OF assms(1)]])
    fix prior prog
    assume P: "prepare_program V s (tx_program tx) (tx_arguments tx) claims = Inr (prior, prog)"
    note ok = prepare_program_ok[OF P assms(2)]
    obtain required where "derive sha prog = Inr required" using derive_total[OF ok(1,2)] by blast
    moreover have "\<forall>t \<in> set (p_tables prog). table_ok t" using ok(2) tables_okD by blast
    ultimately show "no_panic (finish_preparation sha prior prog claims mf)"
      by (auto simp: finish_preparation_def Let_def intro!: no_panic_rbind no_panic_validate)
  qed
qed


text \<open>
  A view with no tables whose policy admits every claim up to the ceilings, and the smallest
  program: it returns a constant.
\<close>

definition policy_view :: view where
  "policy_view = list_view (\<lambda>t. if t = Policy then [(replicate 8 0, policy_encode LIMIT_CEILINGS)] else [])"

definition example_transaction :: transaction where
  "example_transaction = \<lparr>tx_program =
     [0x42, 0x4c, 0x4f, 0x50, 0x56, 0x4d, 0x30, 0x31, 1, 0, 0, 0, 72, 0, 0, 0, 1, 0, 0, 0, 0, 0, 1, 0,
      2, 0, 0, 0, 0, 0, 0, 0, 3, 0, 0, 0, 1, 0, 1, 3, 0, 0, 0, 1, 0, 1, 3, 0, 0, 0, 1, 0, 1, 1, 0, 0, 0, 1,
      1, 0, 4, 0, 0, 0, 0, 0, 0x64, 0, 2, 0, 0, 0], tx_arguments = [0, 0, 0, 0]\<rparr>"

lemma policy_view_calm: "calm policy_view"
  unfolding policy_view_def by (rule view_of_calm, rule list_view_of) simp

lemma policy_view_policy: "db_policy policy_view 0 = Inr LIMIT_CEILINGS"
proof -
  have "policy_decode (policy_encode LIMIT_CEILINGS) = Inr LIMIT_CEILINGS"
    using example_program_ok(3) by (simp add: policy_decode_exact)
  moreover have "u64_be 0 = replicate 8 0" by code_simp
  ultimately show ?thesis by (simp add: db_policy_def policy_view_def list_view_def MAX_STATE_KEY_BYTES_def MAX_KEY_BYTES_def)
qed

lemma example_table_ids: "table_ids (tx_program example_transaction) = Inr []"
  by (simp add: table_ids_def example_transaction_def read_header_def MAX_PROGRAM_BYTES_def BLOPVM01_def take_bytes_def codec_eval
      u16_of_le_def u32_of_le_def prog_u16_def take_blob_def type_decode_boolean read_tables_def)

lemma example_prepared_program:
  "prepare_program policy_view 1 (tx_program example_transaction) (tx_arguments example_transaction) LIMIT_CEILINGS
   = Inr (0, example_program)"
proof -
  have "decode (tx_program example_transaction) (tx_arguments example_transaction) [] LIMIT_CEILINGS = Inr example_program"
    using decode_example by (simp add: example_transaction_def example_program_def)
  moreover have "\<not> list_ex (\<lambda>(claim, limit). claim > limit) (zip LIMIT_CEILINGS LIMIT_CEILINGS)"
    by (simp add: LIMIT_CEILINGS_def)
  ultimately show ?thesis
    by (simp add: prepare_program_def prior_sequence_def policy_view_policy example_table_ids)
qed


theorem interpret_never_panics_witness:
  "no_panic (vm_interpret (\<lambda>bs. bs) policy_view 1 [66, 76] [] LIMIT_CEILINGS)"
  using interpret_never_panics[OF policy_view_calm, of LIMIT_CEILINGS] by (simp add: LIMIT_CEILINGS_def)

text \<open>
  C6: A prepared transaction is isolated: its outcome is the same on any two views that agree
  on the reads its manifest declares, and its effects lie within the writes its manifest
  declares, whatever view it is interpreted on.
\<close>

theorem prepared_isolated:
  assumes "prepare_transaction sha V s tx claims mf = Inr p" "length claims = 17"
  shows "(\<forall>V1 V2. same_reads (pt_manifest p) (pt_prior p) V1 V2 \<longrightarrow> interpret_prepared sha V1 p = interpret_prepared sha V2 p)
    \<and> (\<forall>V1 ty v effs. interpret_prepared sha V1 p = Inr (Success ty v effs) \<longrightarrow> (\<forall>f \<in> set effs. effect_granted (pt_manifest p) f))"
proof (rule prepare_transaction_Inr[OF assms(1)])
  fix prior prog required
  assume P: "prepare_program V s (tx_program tx) (tx_arguments tx) claims = Inr (prior, prog)" "derive sha prog = Inr required"
    "validate (pt_manifest p) required (p_tables prog) claims = Inr ()"
    "p = \<lparr>pt_prior = prior, pt_program = prog, pt_claims = claims, pt_manifest = (case mf of None \<Rightarrow> required | Some m \<Rightarrow> m)\<rparr>"
  have ok: "program_ok prog claims" using prepare_program_ok(1)[OF P(1) assms(2)] by (rule verified_program_ok)
  have q: "pt_prior p = prior" "pt_program p = prog" "pt_claims p = claims" by (simp_all add: P(4))
  show ?thesis
    unfolding interpret_prepared_def q
    using run_depends[OF ok P(2,3)] run_effects[OF ok P(2,3)] by blast
qed

text \<open>
  Interpreting a prepared transaction on the view it was prepared against gives what
  interpreting its bytes directly gives: preparation changes no outcome.
\<close>

theorem prepared_agrees:
  assumes "prepare_transaction sha V s tx claims mf = Inr p"
  shows "interpret_prepared sha V p = vm_interpret sha V s (tx_program tx) (tx_arguments tx) claims"
  by (rule prepare_transaction_Inr[OF assms]) (simp add: interpret_prepared_def vm_interpret_def)

lemma example_prepare:
  "prepare_transaction (\<lambda>bs. bs) policy_view 1 example_transaction LIMIT_CEILINGS None
   = Inr \<lparr>pt_prior = 0, pt_program = example_program, pt_claims = LIMIT_CEILINGS, pt_manifest = []\<rparr>"
proof -
  have "derive (\<lambda>bs. bs) example_program = Inr []"
    by (simp add: derive_def example_program_def get_or_def join_flow_def record_access_def access_of_def
        learn_def destination_of_def evaluate_def manifest_new_def)
  then show ?thesis
    by (simp add: prepare_transaction_def example_prepared_program finish_preparation_def validate_def check_count_def)
qed

theorem prepared_agrees_witness:
  "vm_interpret (\<lambda>bs. bs) policy_view 1 (tx_program example_transaction) (tx_arguments example_transaction) LIMIT_CEILINGS
   = interpret_prepared (\<lambda>bs. bs) policy_view
       \<lparr>pt_prior = 0, pt_program = example_program, pt_claims = LIMIT_CEILINGS, pt_manifest = []\<rparr>"
  using prepared_agrees[OF example_prepare] by simp

theorem prepared_isolated_witness:
  "interpret_prepared (\<lambda>bs. bs) policy_view
     \<lparr>pt_prior = 0, pt_program = example_program, pt_claims = LIMIT_CEILINGS, pt_manifest = []\<rparr> =
   interpret_prepared (\<lambda>bs. bs) (list_view example_entries)
     \<lparr>pt_prior = 0, pt_program = example_program, pt_claims = LIMIT_CEILINGS, pt_manifest = []\<rparr>"
  using prepared_isolated[OF example_prepare] by (simp add: LIMIT_CEILINGS_def same_reads_def)

end
