(* ===== verification/Blop_Outcome.thy ===== *)
theory Blop_Outcome
  imports Blop_Interpret
begin

section \<open>Outcome records (\<^verbatim>\<open>src/vm/outcome.rs\<close>)\<close>

text \<open>
  The stored outcome of a log record: its sequence, digest, kind and either an abort or a
  typed return value with the final effects in address order. Shown: the decoder accepts
  exactly the encodings of valid outcomes with ordered effects, an encoder's output decodes to
  the outcome with its effects put in order, and decoding never panics.
\<close>

subsection \<open>Data\<close>

record outcome_record =
  or_sequence :: u64
  or_digest :: bytes
  or_kind :: byte
  or_outcome :: outcome

definition MAX_OUTCOME_BYTES :: nat where "MAX_OUTCOME_BYTES = 134217728"

definition m_outcome_truncated :: string where "m_outcome_truncated = ''truncated outcome''"
definition m_outcome_blob :: string where "m_outcome_blob = ''outcome blob exceeds u32''"
definition m_outcome_reason :: string where "m_outcome_reason = ''unknown outcome abort reason''"
definition m_outcome_abort :: string where "m_outcome_abort = ''invalid abort fields for record kind''"
definition m_outcome_put :: string where "m_outcome_put = ''outcome Put exceeds 16 MiB''"
definition m_outcome_creation :: string where "m_outcome_creation = ''invalid catalogue effect creation sequence''"
definition m_outcome_effect :: string where "m_outcome_effect = ''effect does not match record kind''"
definition m_outcome_count :: string where "m_outcome_count = ''invalid outcome effect count''"
definition m_outcome_return :: string where "m_outcome_return = ''invalid administrative return value''"
definition m_outcome_overlay :: string where "m_outcome_overlay = ''outcome overlay exceeds 64 MiB''"
definition m_outcome_long :: string where "m_outcome_long = ''outcome exceeds 128 MiB''"
definition m_outcome_kind :: string where "m_outcome_kind = ''invalid outcome record kind''"
definition m_outcome_reserved :: string where "m_outcome_reserved = ''nonzero outcome reserved field''"
definition m_outcome_success :: string where "m_outcome_success = ''invalid success outcome fields''"
definition m_outcome_typed :: string where "m_outcome_typed = ''trailing outcome TypedValue bytes''"
definition m_outcome_address :: string where "m_outcome_address = ''invalid outcome state address''"
definition m_outcome_order :: string where "m_outcome_order = ''outcome effects are not strictly ordered''"
definition m_outcome_aborted :: string where "m_outcome_aborted = ''aborted outcome has return bytes or effects''"
definition m_outcome_status :: string where "m_outcome_status = ''invalid outcome status''"
definition m_outcome_trailing :: string where "m_outcome_trailing = ''trailing outcome bytes''"
definition m_type_nesting :: string where "m_type_nesting = ''type nesting exceeds depth 16''"
definition m_type_fields :: string where "m_type_fields = ''tuple exceeds 256 fields''"
definition m_type_bytes :: string where "m_type_bytes = ''type descriptor exceeds 65,536 bytes''"
definition m_outcome_value :: string where "m_outcome_value = ''outcome value does not match result type''"
definition m_outcome_duplicate :: string where "m_outcome_duplicate = ''duplicate final effect address''"
definition m_outcome_key :: string where "m_outcome_key = ''outcome sequence differs from tree key''"

abbreviation outcome_error :: vm_error where "outcome_error \<equiv> Invalid m_outcome_truncated"
abbreviation blob_error :: vm_error where "blob_error \<equiv> Invalid m_outcome_blob"

fun effect_address :: "effect \<Rightarrow> address" where
  "effect_address (EPut table key _) = (table, key)"
| "effect_address (EDelete table key) = (table, key)"
| "effect_address (ECatalogue table _) = (table, [])"
| "effect_address (ELimits _) = (0, [])"

fun reason_code :: "abort_reason \<Rightarrow> u16" where
  "reason_code MissingKey = 1" | "reason_code KeyExists = 2" | "reason_code RequireFailed = 3"
| "reason_code ExplicitAbort = 4" | "reason_code IntegerOverflow = 5" | "reason_code BoundExceeded = 6"
| "reason_code ResourceLimit = 7" | "reason_code DivisionByZero = 8" | "reason_code InvalidShift = 9"
| "reason_code IndexOutOfBounds = 10" | "reason_code InvalidUtf8 = 11" | "reason_code NameInUse = 16"
| "reason_code TableNotLive = 17"

definition reason_of :: "u16 \<Rightarrow> vm_error + abort_reason" where
  "reason_of reason =
     (if reason = 1 then Inr MissingKey else if reason = 2 then Inr KeyExists
      else if reason = 3 then Inr RequireFailed else if reason = 4 then Inr ExplicitAbort
      else if reason = 5 then Inr IntegerOverflow else if reason = 6 then Inr BoundExceeded
      else if reason = 7 then Inr ResourceLimit else if reason = 8 then Inr DivisionByZero
      else if reason = 9 then Inr InvalidShift else if reason = 10 then Inr IndexOutOfBounds
      else if reason = 11 then Inr InvalidUtf8 else if reason = 16 then Inr NameInUse
      else if reason = 17 then Inr TableNotLive else Inl (Invalid m_outcome_reason))"

subsection \<open>Validation\<close>

definition validate_abort :: "byte \<Rightarrow> abort \<Rightarrow> vm_error + unit" where
  "validate_abort kind a =
     (let reason = reason_code (ab_reason a);
          legal = (if kind = 1 then 1 \<le> reason \<and> reason \<le> 11 \<and> ab_instruction a < 65535
                   else if kind = 2 then 16 \<le> reason \<and> reason \<le> 17 \<and> ab_instruction a = - 1
                   else False) in
      if \<not> legal \<or> (reason \<noteq> 3 \<and> reason \<noteq> 4 \<and> ab_user_code a \<noteq> 0)
         \<or> (reason = 7 \<and> \<not> (1 \<le> ab_detail a \<and> ab_detail a \<le> 17)) \<or> (reason \<noteq> 7 \<and> ab_detail a \<noteq> 0)
      then Inl (Invalid m_outcome_abort) else Inr ())"

fun validate_effect :: "u64 \<Rightarrow> byte \<Rightarrow> effect \<Rightarrow> vm_error + unit" where
  "validate_effect sequence kind (EPut table key val) =
     (if kind = 1 then
        rbind (map_err input_error (state_key_new table key sequence)) (\<lambda>_.
        if length val > 16777216 then Inl (Invalid m_outcome_put) else Inr ())
      else Inl (Invalid m_outcome_effect))"
| "validate_effect sequence kind (EDelete table key) =
     (if kind = 1 then rbind (map_err input_error (state_key_new table key sequence)) (\<lambda>_. Inr ())
      else Inl (Invalid m_outcome_effect))"
| "validate_effect sequence kind (ECatalogue table val) =
     (if kind = 2 then
        rbind (decode_catalogue table val) (\<lambda>version.
        if table > sequence \<or> (table = sequence \<and> \<not> cv_live version) then Inl (Invalid m_outcome_creation)
        else Inr ())
      else Inl (Invalid m_outcome_effect))"
| "validate_effect sequence kind (ELimits _) =
     (if kind = 3 then Inr () else Inl (Invalid m_outcome_effect))"

definition effect_size :: "effect \<Rightarrow> nat" where
  "effect_size f =
     (case f of EPut _ key val \<Rightarrow> 9 + length key + length val | EDelete _ key \<Rightarrow> 9 + length key | _ \<Rightarrow> 0)"

fun validate_effects :: "u64 \<Rightarrow> byte \<Rightarrow> effect list \<Rightarrow> nat \<Rightarrow> vm_error + nat" where
  "validate_effects sequence kind [] overlay_bytes = Inr overlay_bytes"
| "validate_effects sequence kind (f # effects) overlay_bytes =
     rbind (validate_effect sequence kind f) (\<lambda>_.
     validate_effects sequence kind effects (overlay_bytes + effect_size f))"

definition expected_return :: "u64 \<Rightarrow> byte \<Rightarrow> effect list \<Rightarrow> (vm_type \<times> vm_value) option" where
  "expected_return sequence kind effects =
     (if kind = 2 \<and> (case effects of ECatalogue table _ # _ \<Rightarrow> table = sequence | _ \<Rightarrow> False)
      then Some (TU64, VU64 sequence)
      else if kind = 2 \<or> kind = 3 then Some (TUnit, VUnit) else None)"

definition validate_success :: "u64 \<Rightarrow> byte \<Rightarrow> vm_type \<Rightarrow> vm_value \<Rightarrow> effect list \<Rightarrow> vm_error + unit" where
  "validate_success sequence kind ty v effects =
     (if length effects > 65535 \<or> (kind \<noteq> 1 \<and> length effects \<noteq> 1) then Inl (Invalid m_outcome_count)
      else if (case expected_return sequence kind effects of
                 None \<Rightarrow> False | Some (expected_type, expected_value) \<Rightarrow> ty \<noteq> expected_type \<or> v \<noteq> expected_value)
      then Inl (Invalid m_outcome_return) else
      rbind (validate_effects sequence kind effects 0) (\<lambda>overlay_bytes.
      if overlay_bytes > 67108864 then Inl (Invalid m_outcome_overlay) else Inr ()))"

subsection \<open>Decoding\<close>

definition read_effect :: "u64 \<Rightarrow> byte \<Rightarrow> bytes \<Rightarrow> vm_error + effect \<times> bytes" where
  "read_effect sequence kind input =
     rbind (take_u8 outcome_error input) (\<lambda>(tag, input).
     if kind = 1 \<and> (tag = 1 \<or> tag = 2) then
       rbind (take_u64 outcome_error input) (\<lambda>(table, input).
       rbind (valid_id table) (\<lambda>_.
       rbind (take_blob outcome_error input) (\<lambda>(key, input).
       if table \<ge> sequence \<or> length key > 1024 then Inl (Invalid m_outcome_address)
       else if tag = 1 then
         rbind (take_blob outcome_error input) (\<lambda>(val, input).
         if length val > 16777216 then Inl (Invalid m_outcome_put) else Inr (EPut table key val, input))
       else Inr (EDelete table key, input))))
     else if kind = 2 \<and> tag = 3 then
       rbind (take_u64 outcome_error input) (\<lambda>(table, input).
       rbind (take_blob outcome_error input) (\<lambda>(val, input).
       rbind (decode_catalogue table val) (\<lambda>_. Inr (ECatalogue table val, input))))
     else if kind = 3 \<and> tag = 4 then
       rbind (take_blob outcome_error input) (\<lambda>(bs, input).
       rbind (map_err input_error (policy_decode bs)) (\<lambda>policy. Inr (ELimits policy, input)))
     else Inl (Invalid m_outcome_effect))"

fun read_effects :: "nat \<Rightarrow> u64 \<Rightarrow> byte \<Rightarrow> effect list \<Rightarrow> bytes \<Rightarrow> vm_error + effect list \<times> bytes" where
  "read_effects 0 sequence kind effects input = Inr (effects, input)"
| "read_effects (Suc n) sequence kind effects input =
     rbind (read_effect sequence kind input) (\<lambda>(f, input).
     if effects \<noteq> [] \<and> effect_address (last effects) \<ge> effect_address f then Inl (Invalid m_outcome_order)
     else read_effects n sequence kind (effects @ [f]) input)"

definition read_returned :: "bytes \<Rightarrow> vm_error + vm_type \<times> vm_value" where
  "read_returned returned =
     rbind (take_blob outcome_error returned) (\<lambda>(ty_bytes, returned).
     rbind (type_decode ty_bytes) (\<lambda>ty.
     rbind (take_blob outcome_error returned) (\<lambda>(value_bytes, returned).
     rbind (decode_value ty value_bytes) (\<lambda>v.
     if returned \<noteq> [] then Inl (Invalid m_outcome_typed) else Inr (ty, v)))))"

definition read_body :: "u64 \<Rightarrow> byte \<Rightarrow> byte \<Rightarrow> u16 \<Rightarrow> u32 \<Rightarrow> u32 \<Rightarrow> u64 \<Rightarrow> bytes \<Rightarrow> nat \<Rightarrow> bytes \<Rightarrow> vm_error + outcome \<times> bytes" where
  "read_body sequence kind status reason instruction user_code detail returned count input =
     (if status = 0 then
        if reason \<noteq> 0 \<or> instruction \<noteq> - 1 \<or> user_code \<noteq> 0 \<or> detail \<noteq> 0 then Inl (Invalid m_outcome_success)
        else if count > 65535 \<or> count > length input div 13 \<or> (kind \<noteq> 1 \<and> count \<noteq> 1) then Inl (Invalid m_outcome_count)
        else
          rbind (read_returned returned) (\<lambda>(ty, v).
          rbind (read_effects count sequence kind [] input) (\<lambda>(effects, input).
          rbind (validate_success sequence kind ty v effects) (\<lambda>_.
          Inr (Success ty v effects, input))))
      else if status = 1 then
        if returned \<noteq> [] \<or> count \<noteq> 0 then Inl (Invalid m_outcome_aborted)
        else
          rbind (reason_of reason) (\<lambda>reason.
          let a = \<lparr>ab_reason = reason, ab_instruction = instruction, ab_user_code = user_code, ab_detail = detail\<rparr> in
          rbind (validate_abort kind a) (\<lambda>_. Inr (Aborted a, input)))
      else Inl (Invalid m_outcome_status))"

definition decode_outcome :: "bytes \<Rightarrow> vm_error + outcome_record" where
  "decode_outcome bs =
     (if length bs > MAX_OUTCOME_BYTES then Inl (Invalid m_outcome_long) else
      rbind (take_u16 outcome_error bs) (\<lambda>(version, input).
      if version \<noteq> 1 then Inl (Unsupported ''outcome'' version) else
      rbind (take_u8 outcome_error input) (\<lambda>(kind, input).
      if \<not> (1 \<le> kind \<and> kind \<le> 3) then Inl (Invalid m_outcome_kind) else
      rbind (take_u8 outcome_error input) (\<lambda>(status, input).
      rbind (take_u64 outcome_error input) (\<lambda>(sequence, input).
      rbind (valid_id sequence) (\<lambda>_.
      rbind (take_bytes outcome_error 32 input) (\<lambda>(digest, input).
      rbind (take_u16 outcome_error input) (\<lambda>(reason, input).
      rbind (take_bytes outcome_error 2 input) (\<lambda>(reserved, input).
      if reserved \<noteq> [0, 0] then Inl (Invalid m_outcome_reserved) else
      rbind (take_u32 outcome_error input) (\<lambda>(instruction, input).
      rbind (take_u32 outcome_error input) (\<lambda>(user_code, input).
      rbind (take_bytes outcome_error 4 input) (\<lambda>(reserved, input).
      if reserved \<noteq> [0, 0, 0, 0] then Inl (Invalid m_outcome_reserved) else
      rbind (take_u64 outcome_error input) (\<lambda>(detail, input).
      rbind (take_blob outcome_error input) (\<lambda>(returned, input).
      rbind (take_u32 outcome_error input) (\<lambda>(count, input).
      rbind (read_body sequence kind status reason instruction user_code detail returned (unat count) input) (\<lambda>(out, input).
      if input \<noteq> [] then Inl (Invalid m_outcome_trailing) else
      Inr \<lparr>or_sequence = sequence, or_digest = digest, or_kind = kind, or_outcome = out\<rparr>))))))))))))))))"

subsection \<open>Encoding\<close>

text \<open>The bounded traversal of \<^verbatim>\<open>descriptor\<close>; the top of the stack is the head.\<close>

definition type_node_size :: "vm_type \<Rightarrow> nat \<Rightarrow> vm_error + nat \<times> (vm_type \<times> nat) list" where
  "type_node_size ty depth =
     (case ty of
        TTuple fs \<Rightarrow>
          if length fs > 256 then Inl (Invalid m_type_fields)
          else Inr (3, rev (map (\<lambda>f. (f, depth + 1)) fs))
      | TRows _ key val \<Rightarrow> Inr (5, [(val, depth + 1), (key, depth + 1)])
      | TBytes _ \<Rightarrow> Inr (5, [])
      | TString _ \<Rightarrow> Inr (5, [])
      | _ \<Rightarrow> Inr (1, []))"

definition pending_bytes :: "(vm_type \<times> nat) list \<Rightarrow> nat" where
  "pending_bytes pending = sum_list (map (\<lambda>p. length (encode_type (fst p))) pending)"

lemma pending_bytes_simps [simp]:
  "pending_bytes [] = 0" "pending_bytes (p # ps) = length (encode_type (fst p)) + pending_bytes ps"
  "pending_bytes (ps @ qs) = pending_bytes ps + pending_bytes qs"
  by (simp_all add: pending_bytes_def)

lemma type_node_bytes:
  "type_node_size ty depth = Inr (n, inner) \<Longrightarrow> 0 < n \<and> n + pending_bytes inner = length (encode_type ty)"
proof -
  have "pending_bytes (rev (map (\<lambda>f. (f, depth + 1)) fs)) = length (concat (map encode_type fs))" for fs
    by (induction fs) auto
  then show "type_node_size ty depth = Inr (n, inner) \<Longrightarrow> 0 < n \<and> n + pending_bytes inner = length (encode_type ty)"
    by (cases ty) (auto simp: type_node_size_def split: if_splits)
qed

function bounded_descriptor :: "(vm_type \<times> nat) list \<Rightarrow> nat \<Rightarrow> vm_error + unit" where
  "bounded_descriptor [] bs = Inr ()"
| "bounded_descriptor ((ty, depth) # pending) bs =
     (if depth > 16 then Inl (Invalid m_type_nesting) else
      rbind (type_node_size ty depth) (\<lambda>(n, inner).
      if bs + n > 65536 then Inl (Invalid m_type_bytes)
      else bounded_descriptor (inner @ pending) (bs + n)))"
  by pat_completeness auto
termination
  by (relation "measure (\<lambda>(pending, _). pending_bytes pending)") (auto dest!: type_node_bytes)

declare bounded_descriptor.simps(2) [simp del]

definition outcome_descriptor :: "vm_type \<Rightarrow> vm_error + bytes" where
  "outcome_descriptor ty =
     rbind (bounded_descriptor [(ty, 1)] 2) (\<lambda>_.
     rbind (descriptor ty) (\<lambda>bs.
     rbind (type_decode bs) (\<lambda>_. Inr bs)))"

fun effect_bytes :: "effect \<Rightarrow> vm_error + bytes" where
  "effect_bytes (EPut table key val) =
     rbind (put_blob blob_error key) (\<lambda>key.
     rbind (put_blob blob_error val) (\<lambda>val. Inr (1 # u64_le table @ key @ val)))"
| "effect_bytes (EDelete table key) =
     rbind (put_blob blob_error key) (\<lambda>key. Inr (2 # u64_le table @ key))"
| "effect_bytes (ECatalogue table val) =
     rbind (put_blob blob_error val) (\<lambda>val. Inr (3 # u64_le table @ val))"
| "effect_bytes (ELimits policy) =
     rbind (put_blob blob_error (policy_encode policy)) (\<lambda>bs. Inr (4 # bs))"

definition abort_bytes :: "byte \<Rightarrow> abort \<Rightarrow> vm_error + bytes" where
  "abort_bytes kind a =
     rbind (validate_abort kind a) (\<lambda>_.
     Inr (u16_le (reason_code (ab_reason a)) @ [0, 0] @ u32_le (ab_instruction a) @ u32_le (ab_user_code a) @
       [0, 0, 0, 0] @ u64_le (ab_detail a) @ replicate 8 0))"

definition success_bytes :: "u64 \<Rightarrow> byte \<Rightarrow> vm_type \<Rightarrow> vm_value \<Rightarrow> effect list \<Rightarrow> vm_error + bytes" where
  "success_bytes sequence kind ty v effects =
     rbind (outcome_descriptor ty) (\<lambda>d.
     if \<not> accepts ty v then Inl (Invalid m_outcome_value) else
     rbind (validate_success sequence kind ty v effects) (\<lambda>_.
     rbind (put_blob blob_error d) (\<lambda>d.
     rbind (encode v) (\<lambda>encoded.
     rbind (put_blob blob_error encoded) (\<lambda>encoded.
     rbind (put_blob blob_error (d @ encoded)) (\<lambda>returned.
     let effects = sort_key effect_address effects in
     if \<not> distinct_adj (map effect_address effects) then Inl (Invalid m_outcome_duplicate) else
     rbind (rmap effect_bytes effects) (\<lambda>parts.
     Inr (replicate 4 0 @ u32_le (- 1) @ replicate 16 0 @ returned @ u32_le (of_nat (length effects)) @ concat parts))))))))"

definition encode_outcome :: "u64 \<Rightarrow> bytes \<Rightarrow> byte \<Rightarrow> outcome \<Rightarrow> vm_error + bytes" where
  "encode_outcome sequence digest kind out =
     rbind (valid_id sequence) (\<lambda>_.
     if \<not> (1 \<le> kind \<and> kind \<le> 3) then Inl (Invalid m_outcome_kind) else
     rbind (case out of
         Aborted a \<Rightarrow> abort_bytes kind a
       | Success ty v effects \<Rightarrow> success_bytes sequence kind ty v effects) (\<lambda>body.
     let bs = [1, 0, kind, case out of Aborted _ \<Rightarrow> 1 | Success _ _ _ \<Rightarrow> 0] @ u64_le sequence @ digest @ body in
     if length bs > MAX_OUTCOME_BYTES then Inl (Invalid m_outcome_long) else Inr bs))"

definition read_outcome :: "view \<Rightarrow> u64 \<Rightarrow> vm_error + outcome_record option" where
  "read_outcome V sequence =
     rbind (valid_id sequence) (\<lambda>_.
     rbind (map_err Storage (vw_get V Outcomes (u64_be sequence))) (\<lambda>found.
     case found of
       None \<Rightarrow> Inr None
     | Some bs \<Rightarrow>
         rbind (map_err persisted (decode_outcome bs)) (\<lambda>r.
         if or_sequence r \<noteq> sequence then Inl (persisted (Invalid m_outcome_key)) else Inr (Some r))))"

subsection \<open>Descriptors of result types\<close>

lemma type_node_valid:
  assumes "wf_at depth ty"
  shows "depth \<le> 16 \<and> (\<exists>n inner. type_node_size ty depth = Inr (n, inner) \<and> (\<forall>p \<in> set inner. wf_at (snd p) (fst p)))"
  using assms by (cases ty) (auto simp: type_node_size_def list_all_iff)

lemma bounded_descriptor_valid:
  "(\<forall>p \<in> set pending. wf_at (snd p) (fst p)) \<Longrightarrow>
   bs + pending_bytes pending \<le> 65536 \<Longrightarrow>
   bounded_descriptor pending bs = Inr ()"
proof (induction pending bs rule: bounded_descriptor.induct)
  case (2 ty depth pending bs)
  obtain n inner where node: "type_node_size ty depth = Inr (n, inner)" "depth \<le> 16"
    "n + pending_bytes inner = length (encode_type ty)" "\<forall>p \<in> set inner. wf_at (snd p) (fst p)"
    using type_node_valid[of depth ty] type_node_bytes[of ty depth] "2.prems"(1) by auto
  have "\<not> bs + n > 65536" using "2.prems"(2) node(3) by simp
  moreover have "bounded_descriptor (inner @ pending) (bs + n) = Inr ()"
    using "2.prems" node by (intro "2.IH"[OF _ node(1) refl]) auto
  ultimately show ?case
    using node(1,2) by (simp add: bounded_descriptor.simps(2))
qed simp

lemma outcome_descriptor_iff: "outcome_descriptor ty = Inr bs \<longleftrightarrow> wf_type ty \<and> descriptor ty = Inr bs"
proof
  assume "outcome_descriptor ty = Inr bs"
  then obtain ty' where d: "bounded_descriptor [(ty, 1)] 2 = Inr ()" "descriptor ty = Inr bs" "type_decode bs = Inr ty'"
    by (auto simp: outcome_descriptor_def rbind_eq_Inr)
  have "wf_type ty'" "descriptor ty' = Inr bs" using d(3) by (auto simp: type_decode_exact)
  then show "wf_type ty \<and> descriptor ty = Inr bs"
    using d(2) descriptor_inject[of ty bs ty'] by auto
next
  assume ty: "wf_type ty \<and> descriptor ty = Inr bs"
  then have "bounded_descriptor [(ty, 1)] 2 = Inr ()"
    by (intro bounded_descriptor_valid) (auto simp: wf_type_def MAX_DESCRIPTOR_BYTES_def)
  then show "outcome_descriptor ty = Inr bs"
    using ty type_decode_exact[of bs ty] by (simp add: outcome_descriptor_def)
qed

subsection \<open>Effects\<close>

lemma reason_of_Inr [result_simps]: "reason_of c = Inr r \<longleftrightarrow> c = reason_code r"
proof
  show "reason_of c = Inr r \<Longrightarrow> c = reason_code r" by (auto simp: reason_of_def split: if_splits)
  show "c = reason_code r \<Longrightarrow> reason_of c = Inr r" by (cases r) (simp_all add: reason_of_def)
qed

fun effect_fits :: "u64 \<Rightarrow> byte \<Rightarrow> effect \<Rightarrow> bool" where
  "effect_fits sequence kind (EPut t k v) \<longleftrightarrow> kind = 1 \<and> t \<noteq> 0 \<and> t \<noteq> - 1 \<and> t < sequence \<and> length k \<le> 1024 \<and> length v \<le> 16777216"
| "effect_fits sequence kind (EDelete t k) \<longleftrightarrow> kind = 1 \<and> t \<noteq> 0 \<and> t \<noteq> - 1 \<and> t < sequence \<and> length k \<le> 1024"
| "effect_fits sequence kind (ECatalogue t v) \<longleftrightarrow> kind = 2 \<and> is_ok (decode_catalogue t v)"
| "effect_fits sequence kind (ELimits p) \<longleftrightarrow> kind = 3 \<and> policy_ok p"

lemma valid_id_Inr [result_simps]: "valid_id i = Inr u \<longleftrightarrow> i \<noteq> 0 \<and> i \<noteq> - 1"
  by (auto simp: valid_id_def)

lemma read_effect_encoded:
  assumes "effect_fits sequence kind f" "effect_bytes f = Inr bs"
  shows "read_effect sequence kind (bs @ rest) = Inr (f, rest)"
proof (cases f)
  case (EPut t k v)
  obtain kb vb where "put_blob blob_error k = Inr kb" "put_blob blob_error v = Inr vb" "bs = 1 # u64_le t @ kb @ vb"
    using assms(2) EPut by (auto simp: rbind_eq_Inr)
  then show ?thesis using assms(1) EPut by (simp add: read_effect_def valid_id_def take_put_blob not_le)
next
  case (EDelete t k)
  obtain kb where "put_blob blob_error k = Inr kb" "bs = 2 # u64_le t @ kb"
    using assms(2) EDelete by (auto simp: rbind_eq_Inr)
  then show ?thesis using assms(1) EDelete by (simp add: read_effect_def valid_id_def take_put_blob not_le)
next
  case (ECatalogue t v)
  obtain vb where "put_blob blob_error v = Inr vb" "bs = 3 # u64_le t @ vb"
    using assms(2) ECatalogue by (auto simp: rbind_eq_Inr)
  then show ?thesis using assms(1) ECatalogue by (auto simp: read_effect_def take_put_blob is_ok_iff)
next
  case (ELimits p)
  obtain pb where "put_blob blob_error (policy_encode p) = Inr pb" "bs = 4 # pb"
    using assms(2) ELimits by (auto simp: rbind_eq_Inr)
  moreover have "policy_decode (policy_encode p) = Inr p" using assms(1) ELimits by (simp add: policy_decode_exact)
  ultimately show ?thesis using assms(1) ELimits by (simp add: read_effect_def take_put_blob)
qed

lemma take_blob_Inr: "take_blob e input = Inr (bs, rest) \<longleftrightarrow> (\<exists>out. put_blob blob_error bs = Inr out \<and> input = out @ rest)"
  by (rule take_blob_iff)

lemma read_effect_Inr:
  "read_effect sequence kind input = Inr (f, rest) \<longleftrightarrow>
     effect_fits sequence kind f \<and> (\<exists>bs. effect_bytes f = Inr bs \<and> input = bs @ rest)"
proof
  assume "read_effect sequence kind input = Inr (f, rest)"
  then show "effect_fits sequence kind f \<and> (\<exists>bs. effect_bytes f = Inr bs \<and> input = bs @ rest)"
    unfolding read_effect_def
    by (auto simp: rbind_prod_Inr rbind_eq_Inr take_uint_eq_Inr take_blob_Inr map_err_eq_Inr valid_id_Inr policy_decode_exact is_ok_iff not_le not_less
        split: if_splits)
qed (use read_effect_encoded in blast)

lemma read_effects_Inr:
  assumes "ascending (map effect_address es)"
  shows "read_effects n sequence kind es input = Inr (m, rest) \<longleftrightarrow>
    (\<exists>new parts. m = es @ new \<and> length new = n \<and> ascending (map effect_address m) \<and> (\<forall>f \<in> set new. effect_fits sequence kind f) \<and>
       rmap effect_bytes new = Inr parts \<and> input = concat parts @ rest)"
  using assms
proof (induction n arbitrary: es input)
  case (Suc n)
  have "read_effects (Suc n) sequence kind es input = Inr (m, rest) \<longleftrightarrow>
    (\<exists>f input'. read_effect sequence kind input = Inr (f, input') \<and> ascending (map effect_address (es @ [f])) \<and>
       read_effects n sequence kind (es @ [f]) input' = Inr (m, rest))"
    using Suc.prems by (cases "es = []") (auto simp: rbind_prod_Inr ascending_snoc last_map not_le split: if_splits)
  also have "\<dots> \<longleftrightarrow> (\<exists>f input' new parts. read_effect sequence kind input = Inr (f, input') \<and> ascending (map effect_address (es @ [f])) \<and>
      m = es @ f # new \<and> length new = n \<and> ascending (map effect_address m) \<and> (\<forall>f \<in> set new. effect_fits sequence kind f) \<and>
       rmap effect_bytes new = Inr parts \<and> input' = concat parts @ rest)"
    using Suc.IH by fastforce
  also have "\<dots> \<longleftrightarrow> (\<exists>f bs new parts. effect_fits sequence kind f \<and> effect_bytes f = Inr bs \<and> input = bs @ concat parts @ rest \<and>
      m = es @ f # new \<and> length new = n \<and> ascending (map effect_address m) \<and> (\<forall>f \<in> set new. effect_fits sequence kind f) \<and>
       rmap effect_bytes new = Inr parts)"
    unfolding read_effect_Inr by (auto simp: ascending_iff sorted_wrt_append)
  also have "\<dots> \<longleftrightarrow> (\<exists>new parts. m = es @ new \<and> length new = Suc n \<and> ascending (map effect_address m) \<and>
      (\<forall>f \<in> set new. effect_fits sequence kind f) \<and> rmap effect_bytes new = Inr parts \<and> input = concat parts @ rest)"
    by (auto simp: length_Suc_conv rbind_eq_Inr)
  finally show ?case .
qed auto

subsection \<open>Exactness of the codec\<close>

text \<open>What the types of the source guarantee of a record: digests are 32 bytes, strings are UTF-8, policies are valid.\<close>

fun effect_policy_ok :: "effect \<Rightarrow> bool" where
  "effect_policy_ok (ELimits p) \<longleftrightarrow> policy_ok p"
| "effect_policy_ok _ \<longleftrightarrow> True"

definition outcome_typed :: "outcome \<Rightarrow> bool" where
  "outcome_typed out \<longleftrightarrow>
     (case out of Aborted _ \<Rightarrow> True | Success ty v effects \<Rightarrow> value_utf8 v \<and> (\<forall>f \<in> set effects. effect_policy_ok f))"

definition effects_ordered :: "outcome \<Rightarrow> bool" where
  "effects_ordered out \<longleftrightarrow> (case out of Aborted _ \<Rightarrow> True | Success ty v effects \<Rightarrow> ascending (map effect_address effects))"

lemma validate_effect_fits:
  "validate_effect sequence kind f = Inr () \<Longrightarrow> effect_policy_ok f \<Longrightarrow> effect_fits sequence kind f"
  by (cases f)
    (auto simp: rbind_eq_Inr map_err_eq_Inr state_key_new_Inr valid_state_key_def MAX_KEY_BYTES_def is_ok_iff split: if_splits)

lemma validate_effects_Inr:
  "validate_effects sequence kind effects n = Inr m \<longleftrightarrow>
     (\<forall>f \<in> set effects. validate_effect sequence kind f = Inr ()) \<and> m = n + sum_list (map effect_size effects)"
  by (induction effects arbitrary: n) (auto simp: rbind_eq_Inr)

lemma validate_success_fits:
  assumes "validate_success sequence kind ty v effects = Inr ()" "\<forall>f \<in> set effects. effect_policy_ok f"
  shows "\<forall>f \<in> set effects. effect_fits sequence kind f"
  using assms validate_effect_fits by (auto simp: validate_success_def rbind_eq_Inr validate_effects_Inr split: if_splits)

lemma put_blob_length: "put_blob e bs = Inr out \<Longrightarrow> 4 \<le> length out"
  by (auto simp: put_blob_def split: if_splits)

lemma policy_encode_length: "policy_ok p \<Longrightarrow> length (policy_encode p) = 140"
proof -
  have "length (concat (map u64_le q)) = 8 * length q" for q by (induction q) auto
  then show "policy_ok p \<Longrightarrow> length (policy_encode p) = 140" by (simp add: policy_encode_def policy_ok_length)
qed

lemma effect_bytes_length: "effect_bytes f = Inr bs \<Longrightarrow> effect_fits sequence kind f \<Longrightarrow> 13 \<le> length bs"
  by (cases f) (auto simp: rbind_eq_Inr put_blob_def policy_encode_length split: if_splits)

lemma effects_bytes_length:
  "rmap effect_bytes fs = Inr parts \<Longrightarrow> \<forall>f \<in> set fs. effect_fits sequence kind f \<Longrightarrow> 13 * length fs \<le> length (concat parts)"
proof (induction fs arbitrary: parts)
  case (Cons f fs)
  then obtain bs rest where "effect_bytes f = Inr bs" "rmap effect_bytes fs = Inr rest" "parts = bs # rest"
    by (auto simp: rbind_eq_Inr)
  with Cons effect_bytes_length[of f bs sequence kind] show ?case by fastforce
qed simp

lemma read_returned_Inr:
  "read_returned returned = Inr (ty, v) \<longleftrightarrow> wf_type ty \<and> accepts ty v \<and> value_utf8 v \<and>
     (\<exists>d db vb. descriptor ty = Inr d \<and> put_blob blob_error d = Inr db \<and>
        put_blob blob_error (encode_value v) = Inr vb \<and> returned = db @ vb)"
proof
  assume "read_returned returned = Inr (ty, v)"
  then obtain d db bs vb where "put_blob blob_error d = Inr db" "type_decode d = Inr ty" "put_blob blob_error bs = Inr vb"
    "decode_value ty bs = Inr v" "returned = db @ vb"
    by (auto simp: read_returned_def rbind_prod_Inr rbind_eq_Inr take_blob_Inr split: if_splits)
  then show "wf_type ty \<and> accepts ty v \<and> value_utf8 v \<and> (\<exists>d db vb. descriptor ty = Inr d \<and> put_blob blob_error d = Inr db \<and>
      put_blob blob_error (encode_value v) = Inr vb \<and> returned = db @ vb)"
    by (auto simp: type_decode_exact decode_value_iff)
next
  assume "wf_type ty \<and> accepts ty v \<and> value_utf8 v \<and> (\<exists>d db vb. descriptor ty = Inr d \<and> put_blob blob_error d = Inr db \<and>
      put_blob blob_error (encode_value v) = Inr vb \<and> returned = db @ vb)"
  then obtain d db vb where R: "wf_type ty" "accepts ty v" "value_utf8 v" "descriptor ty = Inr d" "put_blob blob_error d = Inr db"
      "put_blob blob_error (encode_value v) = Inr vb" "returned = db @ vb @ []" by auto
  then have "type_decode d = Inr ty" "decode_value ty (encode_value v) = Inr v"
    by (auto simp: type_decode_exact decode_value_iff)
  then show "read_returned returned = Inr (ty, v)"
    unfolding read_returned_def R(7) by (simp add: take_put_blob[OF R(5)] take_put_blob[OF R(6)] del: append_Nil2)
qed

lemma sorted_distinct_adj: "sorted xs \<Longrightarrow> distinct_adj xs \<longleftrightarrow> ascending xs"
  by (induction xs rule: ascending.induct) (auto simp: less_le)

lemma success_bytes_Inr:
  assumes "ascending (map effect_address effects)"
  shows "success_bytes sequence kind ty v effects = Inr bs \<longleftrightarrow>
    (\<exists>d db vb rb parts. wf_type ty \<and> descriptor ty = Inr d \<and> accepts ty v \<and> validate_success sequence kind ty v effects = Inr () \<and>
       put_blob blob_error d = Inr db \<and> put_blob blob_error (encode_value v) = Inr vb \<and> put_blob blob_error (db @ vb) = Inr rb \<and>
       rmap effect_bytes effects = Inr parts \<and>
       bs = replicate 4 0 @ u32_le (- 1) @ replicate 16 0 @ rb @ u32_le (of_nat (length effects)) @ concat parts)"
proof -
  have asc: "sorted (map effect_address effects)"
    using assms by (simp add: ascending_iff strict_sorted_imp_sorted)
  then have sort: "sort_key effect_address effects = effects" by (rule sort_key_id_if_sorted)
  have "distinct_adj (map effect_address effects)" using assms by (simp add: sorted_distinct_adj[OF asc])
  then show ?thesis
    unfolding success_bytes_def by (auto simp: sort Let_def rbind_eq_Inr outcome_descriptor_iff encode_accepted split: if_splits)
qed


definition outcome_header :: "byte \<Rightarrow> byte \<Rightarrow> u64 \<Rightarrow> bytes \<Rightarrow> u16 \<Rightarrow> u32 \<Rightarrow> u32 \<Rightarrow> u64 \<Rightarrow> bytes" where
  "outcome_header kind status sequence digest reason instruction user_code detail =
     [1, 0, kind, status] @ u64_le sequence @ digest @ u16_le reason @ [0, 0] @ u32_le instruction @ u32_le user_code @
     [0, 0, 0, 0] @ u64_le detail"

lemma decode_outcome_Inr:
  "decode_outcome bs = Inr r \<longleftrightarrow>
     length bs \<le> MAX_OUTCOME_BYTES \<and> 1 \<le> or_kind r \<and> or_kind r \<le> 3 \<and> or_sequence r \<noteq> 0 \<and> or_sequence r \<noteq> - 1 \<and>
     length (or_digest r) = 32 \<and>
     (\<exists>status reason instruction user_code detail returned rb count tail.
        bs = outcome_header (or_kind r) status (or_sequence r) (or_digest r) reason instruction user_code detail @ rb @ u32_le count @ tail \<and>
        put_blob blob_error returned = Inr rb \<and>
        read_body (or_sequence r) (or_kind r) status reason instruction user_code detail returned (unat count) tail = Inr (or_outcome r, []))"
  (is "_ \<longleftrightarrow> ?R")
proof
  assume "decode_outcome bs = Inr r"
  then show ?R
    unfolding decode_outcome_def outcome_header_def
    by (simp add: rbind_prod_Inr rbind_eq_Inr take_uint_eq_Inr take_bytes_eq_Inr take_blob_Inr valid_id_Inr u16_le_1 not_less split: if_splits) fastforce
next
  assume ?R
  then obtain status reason instruction user_code detail returned rb count tail where
    R: "bs = outcome_header (or_kind r) status (or_sequence r) (or_digest r) reason instruction user_code detail @ rb @ u32_le count @ tail"
      "put_blob blob_error returned = Inr rb"
      "read_body (or_sequence r) (or_kind r) status reason instruction user_code detail returned (unat count) tail = Inr (or_outcome r, [])"
    by blast
  have "take_u16 outcome_error (1 # 0 # rest) = Inr (1, rest)" for rest
    using take_uint_append[of outcome_error] by (metis append_Cons append_Nil u16_le_1)
  moreover have "take_bytes outcome_error 2 (0 # 0 # rest) = Inr ([0, 0], rest)"
    "take_bytes outcome_error 4 (0 # 0 # 0 # 0 # rest) = Inr ([0, 0, 0, 0], rest)" for rest
    by (simp_all add: take_bytes_def)
  moreover have "\<not> length bs > MAX_OUTCOME_BYTES" "1 \<le> or_kind r" "or_kind r \<le> 3" "or_sequence r \<noteq> 0" "or_sequence r \<noteq> - 1"
     "length (or_digest r) = 32" using \<open>?R\<close> by auto
  ultimately show "decode_outcome bs = Inr r"
    using R(2,3) unfolding decode_outcome_def by (simp add: R(1) outcome_header_def take_put_blob valid_id_def)
qed

lemma read_body_success:
  "read_body sequence kind status reason instruction user_code detail returned count tail = Inr (Success ty v effects, []) \<longleftrightarrow>
     status = 0 \<and> reason = 0 \<and> instruction = - 1 \<and> user_code = 0 \<and> detail = 0 \<and> count = length effects \<and>
     read_returned returned = Inr (ty, v) \<and> validate_success sequence kind ty v effects = Inr () \<and>
     ascending (map effect_address effects) \<and> (\<forall>f \<in> set effects. effect_policy_ok f) \<and>
     (\<exists>parts. rmap effect_bytes effects = Inr parts \<and> tail = concat parts)"
  (is "?L \<longleftrightarrow> ?R")
proof
  assume ?L
  then have L: "status = 0" "reason = 0" "instruction = - 1" "user_code = 0" "detail = 0" "read_returned returned = Inr (ty, v)"
    "read_effects count sequence kind [] tail = Inr (effects, [])" "validate_success sequence kind ty v effects = Inr ()"
    by (auto simp: read_body_def rbind_prod_Inr rbind_eq_Inr Let_def split: if_splits)
  from L(7) obtain parts where "length effects = count" "ascending (map effect_address effects)" "\<forall>f \<in> set effects. effect_fits sequence kind f"
    "rmap effect_bytes effects = Inr parts" "tail = concat parts"
    by (auto simp: read_effects_Inr)
  moreover have "effect_policy_ok f" if "effect_fits sequence kind f" for f using that by (cases f) auto
  ultimately show ?R using L by auto
next
  assume R: ?R
  then obtain parts where parts: "rmap effect_bytes effects = Inr parts" "tail = concat parts" by blast
  have fits: "\<forall>f \<in> set effects. effect_fits sequence kind f" using R validate_success_fits by blast
  have "count \<le> length tail div 13" using effects_bytes_length[OF parts(1) fits] R parts(2) by simp
  moreover have "read_effects count sequence kind [] tail = Inr (effects, [])"
    using R parts fits by (auto simp: read_effects_Inr)
  moreover have "length effects \<le> 65535" "kind = 1 \<or> length effects = 1" using R by (auto simp: validate_success_def split: if_splits)
  ultimately show ?L using R by (simp add: read_body_def)
qed

lemma read_body_abort:
  "read_body sequence kind status reason instruction user_code detail returned count tail = Inr (Aborted a, []) \<longleftrightarrow>
     status = 1 \<and> returned = [] \<and> count = 0 \<and> tail = [] \<and> reason = reason_code (ab_reason a) \<and> instruction = ab_instruction a \<and>
     user_code = ab_user_code a \<and> detail = ab_detail a \<and> validate_abort kind a = Inr ()"
  (is "?L \<longleftrightarrow> ?R")
proof
  show "?L \<Longrightarrow> ?R" by (auto simp: read_body_def rbind_prod_Inr rbind_eq_Inr reason_of_Inr Let_def split: if_splits)
  have "reason_of (reason_code (ab_reason a)) = Inr (ab_reason a)" by (simp add: reason_of_Inr)
  then show "?R \<Longrightarrow> ?L" by (cases a) (simp add: read_body_def Let_def)
qed


lemma zero_fields: "u16_le 0 @ [0, 0] = replicate 4 0" "u32_le 0 @ [0, 0, 0, 0] @ u64_le 0 = replicate 16 0"
  "u32_le 0 @ u32_le 0 = replicate 8 0"
  by code_simp+

lemma encode_outcome_Inr:
  "encode_outcome sequence digest kind out = Inr bs \<longleftrightarrow> sequence \<noteq> 0 \<and> sequence \<noteq> - 1 \<and> 1 \<le> kind \<and> kind \<le> 3 \<and>
     length bs \<le> MAX_OUTCOME_BYTES \<and>
     (\<exists>body. bs = [1, 0, kind, case out of Aborted _ \<Rightarrow> 1 | Success _ _ _ \<Rightarrow> 0] @ u64_le sequence @ digest @ body \<and>
       (case out of Aborted a \<Rightarrow> abort_bytes kind a | Success ty v effects \<Rightarrow> success_bytes sequence kind ty v effects) = Inr body)"
  unfolding encode_outcome_def Let_def by (auto simp: rbind_eq_Inr valid_id_Inr not_less split: if_splits)

lemma decode_abort_exact:
  assumes "or_outcome r = Aborted a"
  shows "decode_outcome bs = Inr r \<longleftrightarrow> length (or_digest r) = 32 \<and>
    encode_outcome (or_sequence r) (or_digest r) (or_kind r) (or_outcome r) = Inr bs"
proof -
  have body: "abort_bytes (or_kind r) a = Inr body \<longleftrightarrow> validate_abort (or_kind r) a = Inr () \<and>
      body = u16_le (reason_code (ab_reason a)) @ [0, 0] @ u32_le (ab_instruction a) @ u32_le (ab_user_code a) @
        [0, 0, 0, 0] @ u64_le (ab_detail a) @ replicate 8 0" for body
    by (auto simp: abort_bytes_def rbind_eq_Inr)
  have empty: "put_blob blob_error [] = Inr (u32_le 0)" by (simp add: put_blob_def)
  show ?thesis
    unfolding decode_outcome_Inr encode_outcome_Inr assms outcome.case body read_body_abort outcome_header_def
    using zero_fields(3) by (auto simp: empty unat_eq_0)
qed

lemma decode_success_exact:
  assumes "or_outcome r = Success ty v effects"
  shows "decode_outcome bs = Inr r \<longleftrightarrow> length (or_digest r) = 32 \<and> outcome_typed (or_outcome r) \<and> effects_ordered (or_outcome r) \<and>
    encode_outcome (or_sequence r) (or_digest r) (or_kind r) (or_outcome r) = Inr bs"
  (is "?L \<longleftrightarrow> ?R")
proof -
  let ?head = "[1, 0, or_kind r, 0] @ u64_le (or_sequence r) @ or_digest r @ replicate 4 0 @ u32_le (- 1) @ replicate 16 0"
  let ?typed = "value_utf8 v \<and> (\<forall>f \<in> set effects. effect_policy_ok f) \<and> ascending (map effect_address effects)"
  let ?common = "length bs \<le> MAX_OUTCOME_BYTES \<and> 1 \<le> or_kind r \<and> or_kind r \<le> 3 \<and> or_sequence r \<noteq> 0 \<and> or_sequence r \<noteq> - 1 \<and>
     length (or_digest r) = 32"
  have head: "outcome_header (or_kind r) 0 (or_sequence r) (or_digest r) 0 (- 1) 0 0 = ?head"
    unfolding outcome_header_def zero_fields[symmetric] append_assoc by simp
  have "?L \<longleftrightarrow> ?common \<and> ?typed \<and> (\<exists>d db vb rb count parts. wf_type ty \<and> descriptor ty = Inr d \<and> accepts ty v \<and>
      validate_success (or_sequence r) (or_kind r) ty v effects = Inr () \<and>
      put_blob blob_error d = Inr db \<and> put_blob blob_error (encode_value v) = Inr vb \<and> put_blob blob_error (db @ vb) = Inr rb \<and>
      rmap effect_bytes effects = Inr parts \<and> length effects = unat count \<and> bs = ?head @ rb @ u32_le count @ concat parts)"
    unfolding decode_outcome_Inr assms read_body_success read_returned_Inr head[symmetric] by (auto; metis)
  also have "\<dots> \<longleftrightarrow> ?common \<and> ?typed \<and> (\<exists>body. success_bytes (or_sequence r) (or_kind r) ty v effects = Inr body \<and>
      bs = [1, 0, or_kind r, 0] @ u64_le (or_sequence r) @ or_digest r @ body)"
  proof (cases "?typed \<and> validate_success (or_sequence r) (or_kind r) ty v effects = Inr ()")
    case True
    then have "length effects \<le> 65535" by (auto simp: validate_success_def split: if_splits)
    then have count: "length effects = unat count \<longleftrightarrow> count = of_nat (length effects)" for count :: u32
      by (auto simp: unat_of_nat)
    show ?thesis using success_bytes_Inr[of effects] True unfolding count by auto
  next
    case False
    then show ?thesis using success_bytes_Inr[of effects "or_sequence r" "or_kind r" ty v] by blast
  qed
  also have "\<dots> \<longleftrightarrow> ?R"
    unfolding encode_outcome_Inr assms outcome.case outcome_typed_def effects_ordered_def by auto
  finally show ?thesis .
qed

text \<open>Sorting the effects changes neither the checks nor the encoding.\<close>

lemma validate_success_sorted:
  "validate_success sequence kind ty v (sort_key effect_address effects) = validate_success sequence kind ty v effects"
  if "validate_success sequence kind ty v effects = Inr ()"
proof (cases "length effects = 1")
  case True
  then obtain f where "effects = [f]" by (cases effects) auto
  then show ?thesis by simp
next
  case False
  with that have kind: "kind = 1" by (auto simp: validate_success_def split: if_splits)
  have insort: "sum_list (map effect_size (insort_key effect_address f fs)) = effect_size f + sum_list (map effect_size fs)" for f fs
    by (induction fs) auto
  have "sum_list (map effect_size (sort_key effect_address effects)) = sum_list (map effect_size effects)"
    by (induction effects) (simp_all add: insort)
  then show ?thesis using that kind
    by (auto simp: validate_success_def expected_return_def rbind_eq_Inr validate_effects_Inr split: if_splits)
qed

lemma encode_sorted:
  assumes "encode_outcome sequence digest kind (Success ty v effects) = Inr bs"
  shows "encode_outcome sequence digest kind (Success ty v (sort_key effect_address effects)) = Inr bs \<and>
    ascending (map effect_address (sort_key effect_address effects))"
proof -
  let ?s = "sort_key effect_address effects"
  have "success_bytes sequence kind ty v effects = Inr body \<Longrightarrow> success_bytes sequence kind ty v ?s = Inr body \<and>
      ascending (map effect_address ?s)" for body
    using validate_success_sorted[of sequence kind ty v effects] sorted_distinct_adj[of "map effect_address ?s"]
    by (auto simp: success_bytes_def rbind_eq_Inr Let_def sort_key_id_if_sorted split: if_splits)
  then show ?thesis using assms unfolding encode_outcome_Inr by auto
qed

lemma decode_outcome_exact:
  "decode_outcome bs = Inr r \<longleftrightarrow>
     (length (or_digest r) = 32 \<and> outcome_typed (or_outcome r) \<and> effects_ordered (or_outcome r)) \<and>
     encode_outcome (or_sequence r) (or_digest r) (or_kind r) (or_outcome r) = Inr bs"
proof (cases "or_outcome r")
  case (Success ty v effects)
  then show ?thesis using decode_success_exact[OF Success] by simp
next
  case (Aborted a)
  then show ?thesis using decode_abort_exact[OF Aborted] by (simp add: outcome_typed_def effects_ordered_def)
qed

interpretation outcome_codec: exact_codec
  "\<lambda>r. encode_outcome (or_sequence r) (or_digest r) (or_kind r) (or_outcome r)" decode_outcome
  "\<lambda>r. length (or_digest r) = 32 \<and> outcome_typed (or_outcome r) \<and> effects_ordered (or_outcome r)"
  by unfold_locales (rule decode_outcome_exact)

definition in_order :: "outcome \<Rightarrow> outcome" where
  "in_order out = (case out of Success ty v effects \<Rightarrow> Success ty v (sort_key effect_address effects) | Aborted a \<Rightarrow> Aborted a)"

lemma encode_in_order:
  assumes "encode_outcome sequence digest kind out = Inr bs" "length digest = 32" "outcome_typed out"
  shows "decode_outcome bs = Inr \<lparr>or_sequence = sequence, or_digest = digest, or_kind = kind, or_outcome = in_order out\<rparr>"
proof (rule outcome_codec.round_trip; (cases out))
  fix ty v effects
  assume out: "out = Success ty v effects"
  show "length (or_digest \<lparr>or_sequence = sequence, or_digest = digest, or_kind = kind, or_outcome = in_order out\<rparr>) = 32 \<and>
    outcome_typed (or_outcome \<lparr>or_sequence = sequence, or_digest = digest, or_kind = kind, or_outcome = in_order out\<rparr>) \<and>
    effects_ordered (or_outcome \<lparr>or_sequence = sequence, or_digest = digest, or_kind = kind, or_outcome = in_order out\<rparr>)"
    using assms encode_sorted[of sequence digest kind ty v effects bs]
    by (auto simp: out in_order_def outcome_typed_def effects_ordered_def)
qed (use assms encode_sorted in \<open>auto simp: in_order_def outcome_typed_def effects_ordered_def\<close>)

subsection \<open>Properties\<close>

text \<open>
  C40: The outcome decoder accepts exactly the encodings of valid outcome records whose
  effects are in strictly ascending address order, so each record has one encoding.
\<close>

theorem outcome_codec_exact:
  "decode_outcome bs = Inr r \<longleftrightarrow>
     length (or_digest r) = 32 \<and> outcome_typed (or_outcome r) \<and> effects_ordered (or_outcome r) \<and>
     encode_outcome (or_sequence r) (or_digest r) (or_kind r) (or_outcome r) = Inr bs"
  using outcome_codec.dec_iff by simp

text \<open>
  Whatever the encoder writes, the decoder reads back as the same record, with the
  effects of a success put in address order.
\<close>

theorem outcome_round_trip:
  assumes "encode_outcome sequence digest kind out = Inr bs" "length digest = 32" "outcome_typed out"
  shows "decode_outcome bs = Inr \<lparr>or_sequence = sequence, or_digest = digest, or_kind = kind, or_outcome = in_order out\<rparr>"
  using assms by (rule encode_in_order)

definition example_abort :: outcome where
  "example_abort = Aborted \<lparr>ab_reason = MissingKey, ab_instruction = 3, ab_user_code = 0, ab_detail = 0\<rparr>"

lemma example_abort_encodes:
  "is_ok (encode_outcome 5 (replicate 32 7) 1 example_abort)"
  by (simp add: encode_outcome_def example_abort_def valid_id_def abort_bytes_def validate_abort_def MAX_OUTCOME_BYTES_def Let_def)

theorem outcome_round_trip_witness:
  "\<exists>bs. decode_outcome bs = Inr \<lparr>or_sequence = 5, or_digest = replicate 32 7, or_kind = 1, or_outcome = example_abort\<rparr>"
proof -
  obtain bs where "encode_outcome 5 (replicate 32 7) 1 example_abort = Inr bs"
    using example_abort_encodes by (auto simp: is_ok_iff)
  from outcome_round_trip[OF this] show ?thesis
    by (auto simp: outcome_typed_def example_abort_def in_order_def)
qed

end
