(* ===== verification/Blop_Recordable.thy ===== *)
theory Blop_Recordable
  imports Blop_Outcome
begin

section \<open>Outcomes of the interpreter can be recorded\<close>

text \<open>
  What \<^verbatim>\<open>interpret\<close> returns, \<^verbatim>\<open>encode_outcome\<close> accepts: the abort fields match the record kind,
  effects name tables older than the record, and the sizes stay within the format. A decoded
  program and its claims thus never lead to an outcome that cannot be stored.
\<close>

subsection \<open>Abort fields\<close>

definition abort_fields :: "abort_reason \<Rightarrow> u32 \<Rightarrow> u64 \<Rightarrow> bool" where
  "abort_fields reason user_code detail \<longleftrightarrow>
     reason \<noteq> NameInUse \<and> reason \<noteq> TableNotLive \<and>
     (user_code \<noteq> 0 \<longrightarrow> reason = RequireFailed \<or> reason = ExplicitAbort) \<and>
     (if reason = ResourceLimit then 1 \<le> detail \<and> detail \<le> 17 else detail = 0)"

definition fair :: "failure + 'a \<Rightarrow> bool" where
  "fair r \<longleftrightarrow> (\<forall>reason user_code detail. r = Inl (FAbort reason user_code detail) \<longrightarrow> abort_fields reason user_code detail)"

named_theorems fair_intros \<open>results of the interpreter with well-formed abort fields\<close>

lemma fair_simps [simp]:
  "fair (Inr x)" "fair (Inl (FError e))" "fair (Inl (FAbort reason user_code detail)) \<longleftrightarrow> abort_fields reason user_code detail"
  by (auto simp: fair_def)

lemma fair_bind [fair_intros]: "fair r \<Longrightarrow> (\<And>x. r = Inr x \<Longrightarrow> fair (f x)) \<Longrightarrow> fair (rbind r f)"
  by (cases r) (auto simp: fair_def)

lemma fair_if [fair_intros]: "(c \<Longrightarrow> fair a) \<Longrightarrow> (\<not> c \<Longrightarrow> fair b) \<Longrightarrow> fair (if c then a else b)"
  by simp

lemma fair_prod [fair_intros]: "(\<And>a b. fair (f a b)) \<Longrightarrow> fair (case p of (a, b) \<Rightarrow> f a b)"
  by (cases p) simp

lemma fair_option [fair_intros]: "fair n \<Longrightarrow> (\<And>x. fair (s x)) \<Longrightarrow> fair (case opt of None \<Rightarrow> n | Some x \<Rightarrow> s x)"
  by (cases opt) simp_all

lemma fair_sum [fair_intros]:
  "(\<And>l. fair (il l)) \<Longrightarrow> (\<And>r. fair (ir r)) \<Longrightarrow> fair (case sm of Inl l \<Rightarrow> il l | Inr r \<Rightarrow> ir r)"
  by (cases sm) simp_all

lemma fair_case [fair_intros]:
  "(\<And>vs. fair (g vs)) \<Longrightarrow> fair (case v of VTuple vs \<Rightarrow> g vs | _ \<Rightarrow> Inl (FError e))"
  "(\<And>ts. fair (h ts)) \<Longrightarrow> fair (case ty of TTuple ts \<Rightarrow> h ts | _ \<Rightarrow> Inl (FError e))"
  by (cases v; simp) (cases ty; simp)

lemma fair_check: "\<forall>(i, amount) \<in> set amounts. 1 \<le> i \<and> i \<le> 17 \<Longrightarrow> fair (check_amounts claims amounts)"
proof (induction claims amounts rule: check_amounts.induct)
  case (2 claims i amount amounts)
  have "(1 :: u64) \<le> of_nat i \<and> of_nat i \<le> (17 :: u64)"
    using "2.prems" by (simp add: word_le_nat_alt unat_of_nat)
  then show ?case using 2 by (simp add: check_amounts.simps abort_fields_def)
qed simp

lemma fair_checks [fair_intros]:
  "1 \<le> i \<Longrightarrow> i \<le> 17 \<Longrightarrow> fair (check_amounts claims [(i, a)])"
  "fair (check_amounts claims [(8, a), (9, b)])" "fair (check_amounts claims [(11, a), (12, b)])"
  "fair (check_amounts claims [(11, a), (15, b), (16, c)])" "fair (check_amounts claims [(9, a), (13, b), (14, c)])"
  by (rule fair_check; simp)+

lemma fair_basics [fair_intros]:
  "fair (add64 a b)" "fair (sub64 a b)" "fair (index_or_panic xs n)" "fair (register rs n)" "fair (check_bound_of ty v)"
  "fair (map_err FError r)" "fair (map_err (FError \<circ> g) r)" "fair (storage_failure s)"
  "reason \<noteq> NameInUse \<Longrightarrow> reason \<noteq> TableNotLive \<Longrightarrow> reason \<noteq> ResourceLimit \<Longrightarrow> fair (ok_or (abort_for reason) x)"
  by (auto simp: fair_def add64_def sub64_def index_or_panic_def register_def check_bound_of_def rbind_eq_Inl map_err_eq_Inl
      storage_failure_def ok_or_eq_Inl abort_fields_def split: if_splits)

lemma arith_reason: "arith_result con r = Inl (OpAbort reason) \<Longrightarrow> reason = IntegerOverflow"
  by (auto simp: arith_result_def split: option.splits)

lemma binary_reason: "binary op a b ty = Inl (OpAbort reason) \<Longrightarrow> reason \<notin> {NameInUse, TableNotLive, ResourceLimit}"
  by (auto simp: binary_def rows_get_def shift_def dest: arith_reason
      split: if_splits vm_value.splits vm_type.splits binary_op.splits)

lemma unary_reason: "unary sha op a = Inl (OpAbort reason) \<Longrightarrow> reason \<notin> {NameInUse, TableNotLive, ResourceLimit}"
  by (auto simp: unary_def dest: arith_reason split: if_splits vm_value.splits unary_op.splits)

lemma slice_reason: "slice a b c = Inl (OpAbort reason) \<Longrightarrow> reason \<notin> {NameInUse, TableNotLive, ResourceLimit}"
  by (auto simp: slice_def split: if_splits vm_value.splits)

lemma fair_op_result:
  assumes "\<And>reason. r = Inl (OpAbort reason) \<Longrightarrow> reason \<notin> {NameInUse, TableNotLive, ResourceLimit}"
  shows "fair (op_result r)"
proof (cases r)
  case (Inl e)
  then show ?thesis using assms by (cases e) (auto simp: op_result_def abort_fields_def)
qed (simp add: op_result_def)

lemma fair_op [fair_intros]:
  "fair (op_result (binary op a b ty))" "fair (op_result (unary sha uop a))" "fair (op_result (slice a b c))"
  by (rule fair_op_result, erule binary_reason unary_reason slice_reason)+

lemma fair_assign [fair_intros]: "fair (assign types claims dst v m)"
  unfolding assign_def by (intro fair_intros) simp_all

lemma fair_key [fair_intros]: "fair (canonical_key table v claims)"
  unfolding canonical_key_def by (intro fair_intros) simp_all

lemma fair_point [fair_intros]: "fair (point claims a u)" "fair (machine_point claims a m)" "fair (point_access prog claims t k m)"
  unfolding point_def machine_point_def point_access_def by (intro fair_intros; simp)+

lemma fair_loaded [fair_intros]: "fair (loaded ty bs claims)"
  unfolding loaded_def by (intro fair_intros) simp_all

lemma fair_write [fair_intros]: "fair (overlay_write claims table key v m)"
  unfolding overlay_write_def Let_def by (intro fair_intros) simp_all

lemma fair_scan_row [fair_intros]: "fair (scan_row table s claims lim row st)"
  unfolding scan_row_def Let_def by (intro fair_intros) (simp_all add: abort_fields_def)

lemma fair_scan_rows [fair_intros]: "fair (scan_rows table s claims lim es st)"
proof (induction es arbitrary: st)
  case (Cons e es)
  then show ?case by (cases e) (auto intro!: fair_intros)
qed simp

lemma fair_scan [fair_intros]: "fair (scan V prior claims table lower upper flags row_limit byte_limit m)"
  unfolding scan_def scan_key_def by (intro fair_intros fair_scan_rows) simp_all

lemma fair_tuple [fair_intros]: "fair (tuple_fields rs regs types)"
  by (induction rs regs types rule: tuple_fields.induct) (auto intro!: fair_intros)

lemma fair_rmap [fair_intros]: "fair (rmap (register rs) regs)"
  by (induction regs) (auto intro!: fair_intros)

lemma fair_execute: "fair (execute_instruction sha V prior prog claims pc ins m)"
  unfolding execute_instruction_def Let_def
  by (cases ins; simp only: instruction.case) (intro fair_intros | simp add: abort_fields_def)+

lemma fair_step: "fair (step sha V prior prog claims pc m)"
  unfolding step_def Let_def by (intro fair_intros fair_execute) simp_all

definition abort_ok :: "outcome \<Rightarrow> bool" where
  "abort_ok out \<longleftrightarrow> (\<forall>a. out = Aborted a \<longrightarrow> abort_fields (ab_reason a) (ab_user_code a) (ab_detail a))"

lemma run_from_abort: "run_from sha V prior prog claims pc m = Inr out \<Longrightarrow> abort_ok out"
proof (induction sha V prior prog claims pc m rule: run_from.induct)
  case (1 sha V prior prog claims pc m)
  have step: "fair (step sha V prior prog claims pc m)" by (rule fair_step)
  show ?case
  proof (cases "step sha V prior prog claims pc m")
    case (Inl f)
    then show ?thesis using "1.prems" step
      by (cases f) (auto simp: run_from.simps[of sha V prior prog claims pc m] abort_ok_def)
  next
    case (Inr p)
    obtain r m' where p: "p = (r, m')" by force
    show ?thesis
    proof (cases r)
      case (Next q)
      then have "run_from sha V prior prog claims q m' = Inr out"
        using "1.prems" Inr p by (simp add: run_from.simps[of sha V prior prog claims pc m])
      then show ?thesis using "1.IH" Inr p Next by blast
    next
      case (Return v)
      then show ?thesis using "1.prems" Inr p
        by (auto simp: run_from.simps[of sha V prior prog claims pc m] abort_ok_def)
    qed
  qed
qed

lemma validate_abort_fields:
  "abort_fields (ab_reason a) (ab_user_code a) (ab_detail a) \<Longrightarrow> ab_instruction a < 65535 \<Longrightarrow> validate_abort 1 a = Inr ()"
  by (cases "ab_reason a") (auto simp: validate_abort_def abort_fields_def Let_def)

subsection \<open>What preparation guarantees\<close>

lemma read_instructions_length:
  "read_instructions n acc input = Inr (instrs, rest) \<Longrightarrow> length instrs = length acc + n"
  by (induction n acc input rule: read_instructions.induct) (auto simp: rbind_eq_Inr split: if_splits)

lemma decode_instruction_count:
  assumes "decode pb ab tables claims = Inr prog"
  shows "length (p_instructions prog) \<le> 65535"
proof -
  obtain h input i1 i2 instrs where h: "read_header pb = Inr (h, input)"
    and i: "read_instructions (h_instructions h) [] i1 = Inr (instrs, i2)" "p_instructions prog = instrs"
    using assms unfolding decode_def Let_def by (auto simp: rbind_eq_Inr split: if_splits)
  have "h_instructions h \<le> 65535"
    using h unfolding read_header_def Let_def by (auto simp: rbind_eq_Inr split: if_splits)
  then show ?thesis using read_instructions_length[OF i(1)] i(2) by simp
qed

lemma catalogue_version_age: "catalogue_version V i s = Inr (Some c) \<Longrightarrow> i \<le> s"
proof -
  assume c: "catalogue_version V i s = Inr (Some c)"
  then obtain es where es: "(case es of [] \<Rightarrow> Inr None | Inl e # _ \<Rightarrow> Inl (Storage e)
     | Inr (key, val) # _ \<Rightarrow> rbind (decode_catalogue_key key) (\<lambda>(found_id, found_sequence).
         if found_id \<noteq> i \<or> found_sequence > s then Inl (Storage (Corrupt m_cat_seek)) else
         rbind (map_err persisted (decode_catalogue i val)) (\<lambda>version. Inr (Some version)))) = Inr (Some c)"
    by (auto simp: catalogue_version_def rbind_eq_Inr split: if_splits)
  then obtain key f where "decode_catalogue_key key = Inr (i, f)" "f \<le> s"
    by (cases es; cases "hd es") (auto simp: rbind_eq_Inr not_less split: if_splits)
  then show "i \<le> s" by (auto simp: decode_catalogue_key_def Let_def rbind_eq_Inr split: if_splits)
qed

lemma prepare_program_bounds:
  assumes "prepare_program V s pb ab claims = Inr (prior, prog)"
  shows "length (p_instructions prog) \<le> 65535" "\<forall>t \<in> set (p_tables prog). t_id t < s"
proof -
  obtain ids tables where P: "prior_sequence s = Inr prior" "rmap (\<lambda>i. db_table V i prior) ids = Inr tables"
    "decode pb ab tables claims = Inr prog"
    using assms by (auto simp: prepare_program_def rbind_eq_Inr split: if_splits)
  show "length (p_instructions prog) \<le> 65535" by (rule decode_instruction_count[OF P(3)])
  have "t_id t < s" if t: "t \<in> set tables" for t
  proof -
    obtain j where "j < length tables" "t = tables ! j" using t by (metis in_set_conv_nth)
    then have d: "db_table V (ids ! j) prior = Inr t" using P(2) by (auto simp: rmap_eq_Inr list_all2_conv_all_nth)
    then obtain c where "catalogue_version V (ids ! j) prior = Inr (Some c)"
      by (auto simp: db_table_def live_version_def rbind_eq_Inr ok_or_eq_Inr split: option.splits if_splits)
    then have "t_id t \<le> prior" using catalogue_version_age db_table_ok[OF d] by auto
    moreover have "s \<noteq> 0" "prior = s - 1" using P(1) by (auto simp: prior_sequence_def split: if_splits)
    ultimately show ?thesis using unat_eq_zero[of s] by (simp add: word_le_nat_alt word_less_nat_alt unat_minus_one)
  qed
  then show "\<forall>t \<in> set (p_tables prog). t_id t < s" using decode_verifies(2)[OF P(3)] by simp
qed

subsection \<open>Encoding the result of a run\<close>

lemma effect_of_address: "effect_address (effect_of e) = fst e"
  by (cases e; cases "fst e"; cases "snd e") (auto simp: effect_of_def)

lemma ascending_sorted_wrt: "ascending xs \<longleftrightarrow> sorted_wrt (<) xs"
  by (induction xs rule: ascending.induct) (auto intro: less_trans)

lemma overlay_addresses: "sorted_map ov \<Longrightarrow> ascending (map effect_address (map effect_of ov))"
  by (simp add: ascending_sorted_wrt sorted_map_def comp_def effect_of_address)

lemma effect_of_size: "effect_size (effect_of e) = entry_size (snd (fst e)) (snd e)"
  by (cases e; cases "fst e"; cases "snd e") (auto simp: effect_of_def effect_size_def entry_size_def)

lemma row_value_bound:
  assumes "row_ok prog ((t, k), Some bs)" "tables_ok prog"
  shows "length bs \<le> 16777216"
proof -
  obtain table v where t: "table \<in> set (p_tables prog)" "typed (t_value table) v" "bs = encode_value v"
    using assms(1) by (auto simp: row_ok_def)
  have "wf_type (t_value table)" using tables_okD[OF assms(2) t(1)] table_ok_types by blast
  then show ?thesis using accepts_max[of "t_value table" v] wf_type_max[of "t_value table"] t(2,3)
    by (simp add: typed_def MAX_VALUE_BYTES_def)
qed

lemma row_effect_valid:
  assumes "row_ok prog e" "tables_ok prog" "\<forall>t \<in> set (p_tables prog). t_id t < s" "s \<noteq> - 1"
  shows "validate_effect s 1 (effect_of e) = Inr ()"
proof -
  obtain t k v where e: "e = ((t, k), v)" by (cases e; cases "fst e") auto
  obtain table where "table \<in> set (p_tables prog)" "t = t_id table" "length k \<le> 1024"
    using assms(1) unfolding e by (auto simp: row_ok_def)
  then have "valid_state_key \<lparr>sk_table_id = t, sk_key = k, sk_sequence = s\<rparr>"
    using assms(2-4) by (auto simp: valid_state_key_def tables_ok_def MAX_KEY_BYTES_def)
  then have "state_key_new t k s = Inr \<lparr>sk_table_id = t, sk_key = k, sk_sequence = s\<rparr>"
    by (simp add: state_key_new_Inr)
  moreover have "length bs \<le> 16777216" if "v = Some bs" for bs
    using row_value_bound[of prog t k bs] assms(1,2) that unfolding e by simp
  ultimately show ?thesis unfolding e by (cases v) (auto simp: effect_of_def)
qed

lemma effect_bytes_row:
  assumes "row_ok prog e" "tables_ok prog"
  shows "\<exists>bs. effect_bytes (effect_of e) = Inr bs \<and> length bs \<le> 8 + entry_size (snd (fst e)) (snd e)"
proof -
  obtain t k v where e: "e = ((t, k), v)" by (cases e; cases "fst e") auto
  have "length k \<le> 1024" using assms(1) unfolding e by (auto simp: row_ok_def)
  moreover have "length bs \<le> 16777216" if "v = Some bs" for bs
    using row_value_bound[of prog t k bs] assms that unfolding e by simp
  ultimately show ?thesis unfolding e by (cases v) (auto simp: effect_of_def put_blob_def entry_size_def)
qed

lemma effects_bytes_rows:
  "\<forall>e \<in> set ov. row_ok prog e \<Longrightarrow> tables_ok prog \<Longrightarrow>
   \<exists>parts. rmap effect_bytes (map effect_of ov) = Inr parts \<and> length (concat parts) \<le> 8 * length ov + overlay_size ov"
proof (induction ov)
  case (Cons e ov)
  then obtain parts where "rmap effect_bytes (map effect_of ov) = Inr parts"
    "length (concat parts) \<le> 8 * length ov + overlay_size ov" by auto
  moreover obtain bs where "effect_bytes (effect_of e) = Inr bs" "length bs \<le> 8 + entry_size (snd (fst e)) (snd e)"
    using effect_bytes_row[of prog e] Cons.prems by auto
  ultimately show ?case by (simp add: overlay_size_def)
qed (simp add: overlay_size_def)

lemma validate_rows:
  assumes "\<forall>e \<in> set ov. row_ok prog e" "tables_ok prog" "\<forall>t \<in> set (p_tables prog). t_id t < s" "s \<noteq> - 1"
    and "length ov \<le> 65535" "overlay_size ov \<le> 67108864"
  shows "validate_success s 1 ty v (map effect_of ov) = Inr ()"
proof -
  have "validate_effects s 1 (map effect_of ov) 0 = Inr (overlay_size ov)"
    using assms(1-4) row_effect_valid by (auto simp: validate_effects_Inr overlay_size_def comp_def effect_of_size)
  then show ?thesis using assms(5,6) by (simp add: validate_success_def expected_return_def)
qed

lemma success_encodes:
  assumes "\<forall>e \<in> set ov. row_ok prog e" "tables_ok prog" "\<forall>t \<in> set (p_tables prog). t_id t < s" "s \<noteq> - 1"
    and "length ov \<le> 65535" "overlay_size ov \<le> 67108864" "sorted_map ov"
    and "wf_type ty" "typed ty v" "encoded_len v \<le> 16777216"
  shows "\<exists>bs. success_bytes s 1 ty v (map effect_of ov) = Inr bs \<and> length bs \<le> 100000000"
proof -
  obtain d where d: "descriptor ty = Inr d" "length d \<le> 65536"
    using assms(8) by (auto simp: descriptor_def wf_type_def MAX_DESCRIPTOR_BYTES_def wf_at_counts)
  obtain parts where p: "rmap effect_bytes (map effect_of ov) = Inr parts" "length (concat parts) \<le> 8 * length ov + overlay_size ov"
    using effects_bytes_rows[OF assms(1,2)] by blast
  show ?thesis
    unfolding success_bytes_Inr[OF overlay_addresses[OF assms(7)]]
    using d p assms(5,6,8-10) validate_rows[OF assms(1-6), of ty v]
    by (auto simp: put_blob_def typed_def)
qed

lemma policy_ceiling: "policy_ok claims \<Longrightarrow> i < 17 \<Longrightarrow> unat (claims ! i) \<le> unat (LIMIT_CEILINGS ! i)"
  by (simp add: policy_ok_def list_all2_conv_all_nth word_le_nat_alt)

lemma encode_aborted:
  assumes "abort_ok (Aborted a)" "ab_instruction a < 65535" "s \<noteq> 0" "s \<noteq> - 1" "length digest = 32"
  shows "is_ok (encode_outcome s digest 1 (Aborted a))"
  using assms validate_abort_fields[of a]
  by (auto simp: encode_outcome_def valid_id_def abort_bytes_def abort_ok_def MAX_OUTCOME_BYTES_def Let_def)

lemma run_encodes:
  assumes "verified prog claims" "tables_ok prog" "policy_ok claims" "calm V"
    and "length (p_instructions prog) \<le> 65535" "\<forall>t \<in> set (p_tables prog). t_id t < s" "s \<noteq> 0" "s \<noteq> - 1"
    and "run sha V prior prog claims = Inr out" "length digest = 32"
  shows "is_ok (encode_outcome s digest 1 out)" "outcome_typed out" "effects_ordered out"
proof -
  have ok: "outcome_ok prog claims out" by (rule run_ok(2)[OF verified_program_ok[OF assms(1)] assms(2-4,9)])
  have ab: "abort_ok out" using assms(9) unfolding run_def by (rule run_from_abort)
  have "is_ok (encode_outcome s digest 1 out) \<and> outcome_typed out \<and> effects_ordered out"
  proof (cases out)
    case (Aborted a)
    obtain pc where pc: "ab_instruction a = of_nat pc" "pc < length (p_instructions prog)"
      using ok Aborted by (auto simp: outcome_ok_def)
    then have "ab_instruction a < 65535" using assms(5) by (simp add: word_less_nat_alt unat_of_nat)
    then show ?thesis using encode_aborted[of a s digest] ab Aborted assms(7,8,10)
      by (simp add: outcome_typed_def effects_ordered_def)
  next
    case (Success ty v effs)
    obtain ov where ov: "effs = map effect_of ov" "sorted_map ov" "\<forall>e \<in> set ov. row_ok prog e"
      "length ov \<le> unat (claims ! 14)" "overlay_size ov \<le> unat (claims ! 15)"
      and ty: "ty = p_result_type prog" "typed ty v" "encoded_len v \<le> unat (claims ! 16)"
      using ok Success by (auto simp: outcome_ok_def)
    have "length ov \<le> 65535" "overlay_size ov \<le> 67108864" "encoded_len v \<le> 16777216"
      using ov(4,5) ty(3) policy_ceiling[OF assms(3), of 14] policy_ceiling[OF assms(3), of 15]
        policy_ceiling[OF assms(3), of 16] by (simp_all add: LIMIT_CEILINGS_def)
    moreover have "wf_type ty" using assms(1) ty(1) by (simp add: verified_def)
    ultimately obtain bs where "success_bytes s 1 ty v effs = Inr bs" "length bs \<le> 100000000"
      using success_encodes[OF ov(3) assms(2,6,8) _ _ ov(2) _ ty(2)] ov(1) by blast
    moreover have "\<forall>f \<in> set effs. effect_policy_ok f"
      using ov(1) by (auto simp: effect_of_def split: option.splits)
    ultimately show ?thesis using Success assms(7,8,10) overlay_addresses[OF ov(2)] ov(1) ty(2)
      by (simp add: encode_outcome_def valid_id_def MAX_OUTCOME_BYTES_def Let_def outcome_typed_def effects_ordered_def typed_def)
  qed
  then show "is_ok (encode_outcome s digest 1 out)" "outcome_typed out" "effects_ordered out" by auto
qed

lemma interpret_encodes:
  assumes "calm V" "length claims = 17" "vm_interpret sha V s pb ab claims = Inr out" "length digest = 32"
  shows "is_ok (encode_outcome s digest 1 out)" "outcome_typed out" "effects_ordered out"
proof -
  obtain prior prog where p: "prepare_program V s pb ab claims = Inr (prior, prog)" "run sha V prior prog claims = Inr out"
    using assms(3) by (auto simp: vm_interpret_def rbind_eq_Inr)
  note ok = prepare_program_ok[OF p(1) assms(2)]
  note all = run_encodes[OF ok(1-3) assms(1) prepare_program_bounds[OF p(1)] ok(5,6) p(2) assms(4)]
  show "is_ok (encode_outcome s digest 1 out)" "outcome_typed out" "effects_ordered out" by (fact all)+
qed

subsection \<open>Property\<close>

text \<open>
  C7: Whatever the interpreter returns for a transaction can be recorded: the outcome encodes
  as a record of its sequence, and the decoder reads back the same outcome with its effects in
  the order the interpreter left them.
\<close>

theorem interpret_recordable:
  assumes "calm V" "length claims = 17" "vm_interpret sha V s pb ab claims = Inr out" "length digest = 32"
  shows "\<exists>bs. encode_outcome s digest 1 out = Inr bs \<and>
    decode_outcome bs = Inr \<lparr>or_sequence = s, or_digest = digest, or_kind = 1, or_outcome = out\<rparr>"
  using interpret_encodes[OF assms] assms(4) by (auto simp: is_ok_iff decode_outcome_exact)

theorem interpret_recordable_witness:
  "\<exists>bs. encode_outcome 1 (replicate 32 7) 1 (Success TBoolean (VBoolean True) []) = Inr bs \<and>
    decode_outcome bs = Inr \<lparr>or_sequence = 1, or_digest = replicate 32 7, or_kind = 1,
      or_outcome = Success TBoolean (VBoolean True) []\<rparr>"
proof (rule interpret_recordable[OF policy_view_calm])
  show "vm_interpret (\<lambda>bs. bs) policy_view 1 (tx_program example_transaction) (tx_arguments example_transaction) LIMIT_CEILINGS
    = Inr (Success TBoolean (VBoolean True) [])"
    by (simp add: vm_interpret_def example_prepared_program example_run)
qed (simp_all add: LIMIT_CEILINGS_def)

end
