(* ===== verification/Blop_Page.thy ===== *)
theory Blop_Page
  imports Blop_Mvcc Blop_Limits
begin

section \<open>Pages and the page file (\<^verbatim>\<open>src/storage/page.rs\<close>)\<close>

text \<open>
  A page is 16,384 bytes: a 64-byte header, then the slots and cells of a tree node or the
  payload of an overflow page. The page file is append-only: a page gets the next ID, and a
  reader sees the prefix of pages that existed when it was taken. Shown: what is appended
  reads back, earlier pages and pinned readers do not change, decoding a page of a node is
  exact, and values survive being split over overflow pages.

  The checksum \<open>crc\<close> is a parameter (the crate \<^verbatim>\<open>crc32c\<close>); nothing is assumed of it. The file is
  its bytes together with what the platform answers to each positional read and write, so an
  I/O failure at any page is a case of the model. The decoded-node cache is left out: a reader
  here is one without a cache.
\<close>

subsection \<open>Data\<close>

definition PAGE_SIZE :: nat where "PAGE_SIZE = 16384"
definition HEADER_SIZE :: nat where "HEADER_SIZE = 64"
definition PAYLOAD_SIZE :: nat where "PAYLOAD_SIZE = PAGE_SIZE - HEADER_SIZE"
definition MAX_KEY :: nat where "MAX_KEY = 2066"
definition INLINE_LIMIT :: nat where "INLINE_LIMIT = 1024"
definition MAX_VALUE :: nat where "MAX_VALUE = 134217728"
definition MAX_PAGES :: u64 where "MAX_PAGES = 281474976710656"

text \<open>
  \<open>of_read\<close> and \<open>of_write\<close> are the failures of the positional operations on a page; a failed
  write leaves some of its bytes in the file. \<open>of_resize\<close> is the failure of \<^verbatim>\<open>set_len\<close>.
\<close>

record os_file =
  of_data :: bytes
  of_read :: "u64 \<Rightarrow> storage_error option"
  of_write :: "u64 \<Rightarrow> (storage_error \<times> nat) option"
  of_resize :: "storage_error option"

record page_reader =
  pr_file :: os_file
  pr_count :: u64

record page_file =
  pf_reader :: page_reader
  pf_next :: u64
  pf_poisoned :: bool

datatype stored_value = Inline bytes | Overflow nat u64

record leaf_cell =
  lc_key :: bytes
  lc_value :: stored_value

datatype node =
    NLeaf "leaf_cell list"
  | NInternal byte "bytes list" "u64 list"

fun node_level :: "node \<Rightarrow> byte" where
  "node_level (NLeaf _) = 0"
| "node_level (NInternal level _ _) = level"

definition m_page_nonempty :: string where "m_page_nonempty = ''page file is not empty''"
definition m_page_count :: string where "m_page_count = ''invalid page count''"
definition m_page_file_short :: string where "m_page_file_short = ''truncated page file''"
definition m_page_identity :: string where "m_page_identity = ''page file identity mismatch''"
definition m_page_long_value :: string where "m_page_long_value = ''value exceeds 128 MiB''"
definition m_page_prefix :: string where "m_page_prefix = ''page reference outside tree prefix''"
definition m_page_short :: string where "m_page_short = ''truncated page''"
definition m_overflow_length :: string where "m_overflow_length = ''invalid overflow value length''"
definition m_page_owned :: string where "m_page_owned = ''repeated page ownership''"
definition m_overflow_payload :: string where "m_overflow_payload = ''incorrect overflow payload length or kind''"
definition m_overflow_chain :: string where "m_overflow_chain = ''incorrect overflow chain length''"
definition m_page_magic :: string where "m_page_magic = ''page magic or checksum mismatch''"
definition m_page_tree :: string where "m_page_tree = ''page identity or tree mismatch''"
definition m_page_reserved :: string where "m_page_reserved = ''nonzero reserved page bytes''"
definition m_page_file_header :: string where "m_page_file_header = ''invalid file header''"
definition m_page_bounds :: string where "m_page_bounds = ''invalid node boundaries''"
definition m_page_leaf :: string where "m_page_leaf = ''invalid leaf header''"
definition m_page_internal :: string where "m_page_internal = ''invalid internal header''"
definition m_page_overflow :: string where "m_page_overflow = ''invalid overflow header''"
definition m_page_kind :: string where "m_page_kind = ''invalid page kind''"
definition m_node_kind :: string where "m_node_kind = ''tree reference is not a node''"
definition m_node_slots :: string where "m_node_slots = ''noncanonical node slots''"
definition m_node_key :: string where "m_node_key = ''invalid cell key length''"
definition m_node_order :: string where "m_node_order = ''node keys are not strictly ordered''"
definition m_node_value :: string where "m_node_value = ''invalid leaf value header''"
definition m_node_storage :: string where "m_node_storage = ''invalid leaf value storage''"
definition m_node_cell :: string where "m_node_cell = ''invalid internal cell''"
definition m_node_packing :: string where "m_node_packing = ''cell packing does not meet upper boundary''"
definition m_node_internal :: string where "m_node_internal = ''invalid internal node''"
definition m_node_fit :: string where "m_node_fit = ''node does not fit a page''"
definition m_node_long_key :: string where "m_node_long_key = ''key exceeds 2066 bytes''"

subsection \<open>Bytes of a page\<close>

text \<open>\<^verbatim>\<open>bytes[offset..offset + n].copy_from_slice(x)\<close>, and the page as it is created.\<close>

definition blit :: "nat \<Rightarrow> bytes \<Rightarrow> bytes \<Rightarrow> bytes" where
  "blit offset x bs = take offset bs @ x @ drop (offset + length x) bs"

fun tree_code :: "tree_id \<Rightarrow> u32" where
  "tree_code State = 1" | "tree_code Catalogue = 2" | "tree_code Policy = 3"
| "tree_code Outcomes = 4" | "tree_code Cursors = 5"

definition BLP1 :: bytes where "BLP1 = [66, 76, 80, 49]"
definition BLOPST01 :: bytes where "BLOPST01 = [66, 76, 79, 80, 83, 84, 48, 49]"

definition page_header :: "byte \<Rightarrow> byte \<Rightarrow> u32 \<Rightarrow> bytes" where
  "page_header kind level tree =
     (let bs = replicate PAGE_SIZE 0;
          bs = blit 0 BLP1 bs;
          bs = blit 4 (u16_le 1) bs;
          bs = blit 6 [kind] bs;
          bs = blit 7 [level] bs;
          bs = blit 16 (u32_le tree) bs;
          bs = blit 24 (u16_le (of_nat HEADER_SIZE)) bs
      in blit 26 (u16_le (of_nat PAGE_SIZE)) bs)"

definition checksum :: "(bytes \<Rightarrow> u32) \<Rightarrow> bytes \<Rightarrow> bytes" where
  "checksum crc bs = (let bs = blit 60 [0, 0, 0, 0] bs in blit 60 (u32_le (crc bs)) bs)"

definition valid_ref :: "u64 \<Rightarrow> u64 \<Rightarrow> bool" where
  "valid_ref i count \<longleftrightarrow> i \<noteq> 0 \<and> i < count"

text \<open>The bytes \<^verbatim>\<open>bytes[a..b]\<close> are all zero.\<close>

definition zeros_in :: "nat \<Rightarrow> nat \<Rightarrow> bytes \<Rightarrow> bool" where
  "zeros_in a b bs \<longleftrightarrow> list_all (\<lambda>x. x = 0) (take (b - a) (drop a bs))"

definition check_kind :: "bytes \<Rightarrow> u64 \<Rightarrow> u64 \<Rightarrow> storage_error + unit" where
  "check_kind bs i count =
     (let cells = unat (u16_at bs 20); lower = unat (u16_at bs 24); upper = unat (u16_at bs 26);
          link = u64_at bs 32; payload = unat (u32_at bs 40) in
      if bs ! 6 = 0 \<and> i = 0 then
        if bs ! 7 \<noteq> 0 \<or> cells \<noteq> 0 \<or> lower \<noteq> 64 \<or> upper \<noteq> PAGE_SIZE \<or> link \<noteq> 0 \<or> payload \<noteq> 32
           \<or> take 8 (drop 64 bs) \<noteq> BLOPST01 \<or> \<not> zeros_in 96 PAGE_SIZE bs
        then Inl (Corrupt m_page_file_header) else Inr ()
      else if (bs ! 6 = 1 \<or> bs ! 6 = 2) \<and> i \<noteq> 0 then
        if cells = 0 \<or> lower \<noteq> 64 + 4 * cells \<or> lower > upper \<or> upper > PAGE_SIZE \<or> payload \<noteq> 0
           \<or> \<not> zeros_in lower upper bs
        then Inl (Corrupt m_page_bounds)
        else if bs ! 6 = 1 then
          if bs ! 7 \<noteq> 0 \<or> link \<noteq> 0 then Inl (Corrupt m_page_leaf) else Inr ()
        else if bs ! 7 = 0 \<or> \<not> valid_ref link count then Inl (Corrupt m_page_internal) else Inr ()
      else if bs ! 6 = 3 \<and> i \<noteq> 0 then
        if bs ! 7 \<noteq> 0 \<or> cells \<noteq> 0 \<or> lower \<noteq> 64 \<or> upper \<noteq> PAGE_SIZE \<or> \<not> (1 \<le> payload \<and> payload \<le> PAYLOAD_SIZE)
           \<or> (link \<noteq> 0 \<and> \<not> valid_ref link count) \<or> \<not> zeros_in (64 + payload) PAGE_SIZE bs
        then Inl (Corrupt m_page_overflow) else Inr ()
      else Inl (Corrupt m_page_kind))"

definition validate_header :: "(bytes \<Rightarrow> u32) \<Rightarrow> bytes \<Rightarrow> u64 \<Rightarrow> tree_id option \<Rightarrow> u64 \<Rightarrow> storage_error + unit" where
  "validate_header crc bs i tree count =
     (let sum = u32_at bs 60; valid_crc = (crc (blit 60 [0, 0, 0, 0] bs) = sum) in
      if take 4 bs \<noteq> BLP1 \<or> \<not> valid_crc then Inl (Corrupt m_page_magic)
      else if u16_at bs 4 \<noteq> 1 then Inl (Storage_Unsupported ''page'' (u16_at bs 4))
      else if u64_at bs 8 \<noteq> i \<or> u32_at bs 16 \<noteq> (case tree of None \<Rightarrow> 0 | Some t \<Rightarrow> tree_code t)
      then Inl (Corrupt m_page_tree)
      else if \<not> zeros_in 22 24 bs \<or> \<not> zeros_in 28 32 bs \<or> \<not> zeros_in 44 60 bs
      then Inl (Corrupt m_page_reserved)
      else check_kind bs i count)"

subsection \<open>Decoding a node\<close>

definition read_stored :: "bytes \<Rightarrow> nat \<Rightarrow> nat \<Rightarrow> u64 \<Rightarrow> storage_error + stored_value" where
  "read_stored cell len key_len page_count =
     (let value_len = unat (u32_at cell 4); head = u64_at cell 8 in
      if cell ! 3 \<noteq> 0 \<or> value_len > MAX_VALUE then Inl (Corrupt m_node_value)
      else if cell ! 2 = 0 \<and> value_len \<le> INLINE_LIMIT \<and> head = 0 \<and> len = 16 + key_len + value_len
      then Inr (Inline (drop (16 + key_len) cell))
      else if cell ! 2 = 1 \<and> value_len > INLINE_LIMIT \<and> valid_ref head page_count \<and> len = 16 + key_len
      then Inr (Overflow value_len head)
      else Inl (Corrupt m_node_storage))"

definition read_child :: "bytes \<Rightarrow> nat \<Rightarrow> nat \<Rightarrow> u64 \<Rightarrow> storage_error + u64" where
  "read_child cell len key_len page_count =
     (let child = u64_at cell 4 in
      if u16_at cell 2 \<noteq> 0 \<or> len \<noteq> 12 + key_len \<or> \<not> valid_ref child page_count then Inl (Corrupt m_node_cell)
      else Inr child)"

text \<open>One slot: its cell must end where the previous cell starts.\<close>

definition read_slot :: "bytes \<Rightarrow> bool \<Rightarrow> nat \<Rightarrow> nat \<Rightarrow> nat \<Rightarrow> bytes list \<Rightarrow> storage_error + nat \<times> bytes \<times> bytes" where
  "read_slot bs leaf upper index fin keys =
     (if 68 + 4 * index > length bs then Inl SPanic else
      let offset = unat (u16_at bs (64 + 4 * index)); len = unat (u16_at bs (66 + 4 * index));
          fixed = (if leaf then 16 else 12) in
      if offset < upper \<or> offset + len \<noteq> fin \<or> len < fixed then Inl (Corrupt m_node_slots) else
      let cell = take (fin - offset) (drop offset bs); key_len = unat (u16_at cell 0) in
      if key_len > MAX_KEY \<or> fixed + key_len > len then Inl (Corrupt m_node_key) else
      let key = take key_len (drop fixed cell) in
      if keys \<noteq> [] \<and> last keys \<ge> key then Inl (Corrupt m_node_order)
      else Inr (offset, key, cell))"

fun read_slots :: "bytes \<Rightarrow> u64 \<Rightarrow> bool \<Rightarrow> nat \<Rightarrow> nat \<Rightarrow> nat \<Rightarrow> nat \<Rightarrow> bytes list \<Rightarrow> leaf_cell list \<Rightarrow> u64 list \<Rightarrow>
    storage_error + nat \<times> bytes list \<times> leaf_cell list \<times> u64 list" where
  "read_slots bs page_count leaf upper 0 index fin keys cells children = Inr (fin, keys, cells, children)"
| "read_slots bs page_count leaf upper (Suc n) index fin keys cells children =
     rbind (read_slot bs leaf upper index fin keys) (\<lambda>(offset, key, cell).
     if leaf then
       rbind (read_stored cell (fin - offset) (length key) page_count) (\<lambda>v.
       read_slots bs page_count leaf upper n (Suc index) offset (keys @ [key])
         (cells @ [\<lparr>lc_key = key, lc_value = v\<rparr>]) children)
     else
       rbind (read_child cell (fin - offset) (length key) page_count) (\<lambda>child.
       read_slots bs page_count leaf upper n (Suc index) offset (keys @ [key]) cells (children @ [child])))"

definition decode_node_page :: "bytes \<Rightarrow> u64 \<Rightarrow> storage_error + node" where
  "decode_node_page bs page_count =
     (if bs ! 6 \<noteq> 1 \<and> bs ! 6 \<noteq> 2 then Inl (Corrupt m_node_kind) else
      let leaf = (bs ! 6 = 1); count = unat (u16_at bs 20); upper = unat (u16_at bs 26) in
      rbind (read_slots bs page_count leaf upper count 0 PAGE_SIZE [] [] [u64_at bs 32])
        (\<lambda>(fin, keys, cells, children).
      if fin \<noteq> upper then Inl (Corrupt m_node_packing)
      else Inr (if leaf then NLeaf cells else NInternal (bs ! 7) keys children)))"

subsection \<open>Encoding a node\<close>

definition leaf_size :: "leaf_cell \<Rightarrow> nat" where
  "leaf_size cell = 4 + 16 + length (lc_key cell) +
     (case lc_value cell of Inline v \<Rightarrow> length v | Overflow _ _ \<Rightarrow> 0)"

text \<open>A cell as it is laid out in its zeroed slice of the page.\<close>

definition leaf_cell_bytes :: "leaf_cell \<Rightarrow> bytes" where
  "leaf_cell_bytes cell =
     (case lc_value cell of
        Inline v \<Rightarrow>
          u16_le (of_nat (length (lc_key cell))) @ [0, 0] @ u32_le (of_nat (length v)) @ u64_le 0 @ lc_key cell @ v
      | Overflow len head \<Rightarrow>
          u16_le (of_nat (length (lc_key cell))) @ [1, 0] @ u32_le (of_nat len) @ u64_le head @ lc_key cell)"

definition internal_cell_bytes :: "bytes \<times> u64 \<Rightarrow> bytes" where
  "internal_cell_bytes kc = (case kc of (key, child) \<Rightarrow>
     u16_le (of_nat (length key)) @ [0, 0] @ u64_le child @ key)"

fun write_cells :: "(bytes \<times> bytes) list \<Rightarrow> nat \<Rightarrow> nat \<Rightarrow> bytes \<Rightarrow> storage_error + nat \<times> bytes" where
  "write_cells [] index fin bs = Inr (fin, bs)"
| "write_cells ((key, cell) # cells) index fin bs =
     (if length key > MAX_KEY then Inl (InvalidInput m_node_long_key)
      else if length cell > fin then Inl SPanic else
      let start = fin - length cell;
          bs = blit (64 + 4 * index) (u16_le (of_nat start)) bs;
          bs = blit (66 + 4 * index) (u16_le (of_nat (length cell))) bs in
      write_cells cells (Suc index) start (blit start cell bs))"

definition node_cells :: "node \<Rightarrow> (bytes \<times> bytes) list" where
  "node_cells n =
     (case n of
        NLeaf cells \<Rightarrow> map (\<lambda>c. (lc_key c, leaf_cell_bytes c)) cells
      | NInternal level keys children \<Rightarrow> map (\<lambda>kc. (fst kc, internal_cell_bytes kc)) (zip keys (tl children)))"

definition node_measure :: "node \<Rightarrow> storage_error + byte \<times> nat \<times> nat" where
  "node_measure n =
     (case n of
        NLeaf cells \<Rightarrow> Inr (1, length cells, HEADER_SIZE + sum_list (map leaf_size cells))
      | NInternal level keys children \<Rightarrow>
          if level = 0 \<or> length children \<noteq> length keys + 1 \<or> 0 \<in> set children
          then Inl (InvalidInput m_node_internal)
          else Inr (2, length keys, HEADER_SIZE + sum_list (map (\<lambda>key. 16 + length key) keys)))"

definition encode_node :: "tree_id \<Rightarrow> node \<Rightarrow> storage_error + bytes" where
  "encode_node tree n =
     rbind (node_measure n) (\<lambda>(kind, count, total_size).
     if count = 0 \<or> total_size > PAGE_SIZE then Inl (InvalidInput m_node_fit) else
     let bs = page_header kind (node_level n) (tree_code tree);
         bs = blit 20 (u16_le (of_nat count)) bs;
         bs = blit 24 (u16_le (of_nat (64 + 4 * count))) bs in
     rbind (write_cells (node_cells n) 0 PAGE_SIZE bs) (\<lambda>(fin, bs).
     let bs = (case n of NInternal _ _ (c # _) \<Rightarrow> blit 32 (u64_le c) bs | _ \<Rightarrow> bs) in
     Inr (blit 26 (u16_le (of_nat fin)) bs)))"

subsection \<open>Reading the file\<close>

definition reader_read :: "(bytes \<Rightarrow> u32) \<Rightarrow> page_reader \<Rightarrow> u64 \<Rightarrow> tree_id option \<Rightarrow> storage_error + bytes" where
  "reader_read crc r i tree =
     (if i \<ge> pr_count r \<or> (i = 0) \<noteq> (tree = None) then Inl (Corrupt m_page_prefix) else
      case of_read (pr_file r) i of
        Some e \<Rightarrow> Inl e
      | None \<Rightarrow>
          let bs = take PAGE_SIZE (drop (unat i * PAGE_SIZE) (of_data (pr_file r))) in
          if length bs < PAGE_SIZE then Inl (Corrupt m_page_short) else
          rbind (validate_header crc bs i tree (pr_count r)) (\<lambda>_. Inr bs))"

definition reader_node :: "(bytes \<Rightarrow> u32) \<Rightarrow> page_reader \<Rightarrow> tree_id \<Rightarrow> u64 \<Rightarrow> storage_error + node" where
  "reader_node crc r tree i =
     rbind (reader_read crc r i (Some tree)) (\<lambda>bs. decode_node_page bs (pr_count r))"

definition shared_node :: "(bytes \<Rightarrow> u32) \<Rightarrow> page_reader \<Rightarrow> tree_id \<Rightarrow> u64 \<Rightarrow> storage_error + node" where
  "shared_node crc r tree i =
     (if \<not> valid_ref i (pr_count r) then Inl (Corrupt m_page_prefix) else
      rbind (reader_read crc r i (Some tree)) (\<lambda>bs. decode_node_page bs (pr_count r)))"

function overflow_pages :: "(bytes \<Rightarrow> u32) \<Rightarrow> page_reader \<Rightarrow> tree_id \<Rightarrow> u64 \<Rightarrow> nat \<Rightarrow> u64 set \<Rightarrow> bytes \<Rightarrow>
    storage_error + u64 set \<times> bytes" where
  "overflow_pages crc r tree i remaining owned output =
     (if remaining = 0 then Inr (owned, output)
      else if i \<in> owned then Inl (Corrupt m_page_owned) else
      rbind (reader_read crc r i (Some tree)) (\<lambda>bs.
      let len = min remaining PAYLOAD_SIZE in
      if bs ! 6 \<noteq> 3 \<or> unat (u32_at bs 40) \<noteq> len then Inl (Corrupt m_overflow_payload) else
      let next = u64_at bs 32 in
      if (next = 0) \<noteq> (remaining - len = 0) then Inl (Corrupt m_overflow_chain) else
      overflow_pages crc r tree next (remaining - len) (insert i owned) (output @ take len (drop 64 bs))))"
  by pat_completeness auto
termination
  by (relation "measure (\<lambda>(crc, r, tree, i, remaining, owned, output). remaining)")
    (auto simp: PAYLOAD_SIZE_def PAGE_SIZE_def HEADER_SIZE_def)

declare overflow_pages.simps [simp del]

definition walk_overflow :: "(bytes \<Rightarrow> u32) \<Rightarrow> page_reader \<Rightarrow> tree_id \<Rightarrow> u64 \<Rightarrow> nat \<Rightarrow> u64 set \<Rightarrow>
    storage_error + u64 set \<times> bytes" where
  "walk_overflow crc r tree i remaining owned =
     (if \<not> (INLINE_LIMIT + 1 \<le> remaining \<and> remaining \<le> MAX_VALUE) then Inl (Corrupt m_overflow_length)
      else overflow_pages crc r tree i remaining owned [])"

definition reader_value :: "(bytes \<Rightarrow> u32) \<Rightarrow> page_reader \<Rightarrow> tree_id \<Rightarrow> stored_value \<Rightarrow> storage_error + bytes" where
  "reader_value crc r tree v =
     (case v of
        Inline bs \<Rightarrow> Inr bs
      | Overflow len head \<Rightarrow> rbind (walk_overflow crc r tree head len {}) (\<lambda>(owned, output). Inr output))"

definition reader_validate_value :: "(bytes \<Rightarrow> u32) \<Rightarrow> page_reader \<Rightarrow> tree_id \<Rightarrow> stored_value \<Rightarrow> u64 set \<Rightarrow>
    storage_error + u64 set" where
  "reader_validate_value crc r tree v owned =
     (case v of
        Inline bs \<Rightarrow> Inr owned
      | Overflow len head \<Rightarrow> rbind (walk_overflow crc r tree head len owned) (\<lambda>(owned, output). Inr owned))"

subsection \<open>Appending\<close>

text \<open>
  Operations on the page file return it also when they fail: a failed write poisons it.
  \<open>pbind\<close> is \<^verbatim>\<open>?\<close> in a function that mutates the file.
\<close>

type_synonym 'a paged = "page_file \<Rightarrow> (storage_error + 'a) \<times> page_file"

definition pbind :: "'a paged \<Rightarrow> ('a \<Rightarrow> 'b paged) \<Rightarrow> 'b paged" where
  "pbind m g f = (case m f of (Inl e, f) \<Rightarrow> (Inl e, f) | (Inr x, f) \<Rightarrow> g x f)"

definition pret :: "'a \<Rightarrow> 'a paged" where
  "pret x f = (Inr x, f)"

definition plift :: "storage_error + 'a \<Rightarrow> 'a paged" where
  "plift r f = (r, f)"

text \<open>\<^verbatim>\<open>write_all_at\<close>: a gap before the offset reads as zeros.\<close>

definition write_at :: "nat \<Rightarrow> bytes \<Rightarrow> bytes \<Rightarrow> bytes" where
  "write_at offset x bs = take offset (bs @ replicate (offset - length bs) 0) @ x @ drop (offset + length x) bs"

definition append_page :: "(bytes \<Rightarrow> u32) \<Rightarrow> bytes \<Rightarrow> u64 paged" where
  "append_page crc bs f =
     (if pf_poisoned f then (Inl NeedsRecovery, f)
      else if pf_next f \<ge> MAX_PAGES then (Inl Exhausted, f) else
      let i = pf_next f; f = f\<lparr>pf_next := i + 1\<rparr>;
          bs = checksum crc (blit 8 (u64_le i) bs);
          r = pf_reader f; file = pr_file r in
      case of_write file i of
        Some (e, n) \<Rightarrow>
          (Inl e, f\<lparr>pf_poisoned := True,
             pf_reader := r\<lparr>pr_file := file\<lparr>of_data := write_at (unat i * PAGE_SIZE) (take n bs) (of_data file)\<rparr>\<rparr>\<rparr>)
      | None \<Rightarrow>
          (Inr i, f\<lparr>pf_reader := \<lparr>pr_file = file\<lparr>of_data := write_at (unat i * PAGE_SIZE) bs (of_data file)\<rparr>,
             pr_count = pf_next f\<rparr>\<rparr>))"

definition append_node :: "(bytes \<Rightarrow> u32) \<Rightarrow> tree_id \<Rightarrow> node \<Rightarrow> u64 paged" where
  "append_node crc tree n = pbind (plift (encode_node tree n)) (append_page crc)"

definition overflow_page :: "tree_id \<Rightarrow> u64 \<Rightarrow> bytes \<Rightarrow> bytes" where
  "overflow_page tree head chunk =
     (let bs = page_header 3 0 (tree_code tree);
          bs = blit 32 (u64_le head) bs;
          bs = blit 40 (u32_le (of_nat (length chunk))) bs
      in blit 64 chunk bs)"

fun store_chunks :: "(bytes \<Rightarrow> u32) \<Rightarrow> tree_id \<Rightarrow> bytes list \<Rightarrow> u64 \<Rightarrow> u64 paged" where
  "store_chunks crc tree [] head f = (Inr head, f)"
| "store_chunks crc tree (chunk # chunks) head f =
     pbind (append_page crc (overflow_page tree head chunk)) (\<lambda>head. store_chunks crc tree chunks head) f"

text \<open>\<^verbatim>\<open>slice::chunks\<close>.\<close>

function chunks_of :: "nat \<Rightarrow> bytes \<Rightarrow> bytes list" where
  "chunks_of n bs = (if bs = [] \<or> n = 0 then [] else take n bs # chunks_of n (drop n bs))"
  by pat_completeness auto
termination
  by (relation "measure (\<lambda>(n, bs). length bs)") auto

declare chunks_of.simps [simp del]

definition store_value :: "(bytes \<Rightarrow> u32) \<Rightarrow> tree_id \<Rightarrow> bytes \<Rightarrow> stored_value paged" where
  "store_value crc tree v =
     (if length v > MAX_VALUE then plift (Inl (InvalidInput m_page_long_value))
      else if length v \<le> INLINE_LIMIT then pret (Inline v)
      else pbind (store_chunks crc tree (rev (chunks_of PAYLOAD_SIZE v)) 0) (\<lambda>head. pret (Overflow (length v) head)))"

subsection \<open>Opening and trimming\<close>

definition pf_create :: "(bytes \<Rightarrow> u32) \<Rightarrow> os_file \<Rightarrow> bytes \<Rightarrow> u64 \<Rightarrow> storage_error + page_file" where
  "pf_create crc file database_id file_id =
     (if of_data file \<noteq> [] then Inl (InvalidInput m_page_nonempty) else
      let bs = page_header 0 0 0;
          bs = blit 40 (u32_le 32) bs;
          bs = blit 64 BLOPST01 bs;
          bs = blit 72 database_id bs;
          bs = checksum crc (blit 88 (u64_le file_id) bs) in
      case of_write file 0 of
        Some (e, n) \<Rightarrow> Inl e
      | None \<Rightarrow> Inr \<lparr>pf_reader = \<lparr>pr_file = file\<lparr>of_data := write_at 0 bs (of_data file)\<rparr>, pr_count = 1\<rparr>,
          pf_next = 1, pf_poisoned = False\<rparr>)"

definition pf_open :: "(bytes \<Rightarrow> u32) \<Rightarrow> os_file \<Rightarrow> bytes \<Rightarrow> u64 \<Rightarrow> u64 \<Rightarrow> storage_error + page_file" where
  "pf_open crc file database_id file_id page_count =
     (if \<not> (1 \<le> page_count \<and> page_count \<le> MAX_PAGES) then Inl (Corrupt m_page_count)
      else if length (of_data file) < unat page_count * PAGE_SIZE then Inl (Corrupt m_page_file_short) else
      let r = \<lparr>pr_file = file, pr_count = page_count\<rparr> in
      rbind (reader_read crc r 0 None) (\<lambda>bs.
      if take 16 (drop 72 bs) \<noteq> database_id \<or> u64_at bs 88 \<noteq> file_id then Inl (Corrupt m_page_identity)
      else Inr \<lparr>pf_reader = r, pf_next = of_nat ((length (of_data file) + PAGE_SIZE - 1) div PAGE_SIZE),
        pf_poisoned = False\<rparr>))"

definition truncate_tail :: "unit paged" where
  "truncate_tail f =
     (if pf_poisoned f then (Inl NeedsRecovery, f) else
      let r = pf_reader f; file = pr_file r in
      case of_resize file of
        Some e \<Rightarrow> (Inl e, f\<lparr>pf_poisoned := True\<rparr>)
      | None \<Rightarrow>
          (Inr (), f\<lparr>pf_next := pr_count r,
             pf_reader := r\<lparr>pr_file := file\<lparr>of_data :=
               (let n = unat (pr_count r) * PAGE_SIZE in take n (of_data file) @ replicate (n - length (of_data file)) 0)\<rparr>\<rparr>\<rparr>))"

subsection \<open>Reading what was written\<close>

named_theorems page_simps \<open>fields of a page after a write to it\<close>

lemma length_blit [simp]: "offset + length x \<le> length bs \<Longrightarrow> length (blit offset x bs) = length bs"
  by (simp add: blit_def)

lemma nth_blit:
  "offset + length x \<le> length bs \<Longrightarrow> i < length bs \<Longrightarrow>
   blit offset x bs ! i = (if offset \<le> i \<and> i < offset + length x then x ! (i - offset) else bs ! i)"
  by (auto simp: blit_def nth_append)

lemma window_blit_other [page_simps]:
  assumes "offset + length x \<le> length bs" "a + n \<le> offset \<or> offset + length x \<le> a"
  shows "take n (drop a (blit offset x bs)) = take n (drop a bs)"
  using assms by (intro nth_equalityI) (auto simp: nth_blit)

lemma window_blit_same [page_simps]:
  "offset + length x \<le> length bs \<Longrightarrow> n = length x \<Longrightarrow> take n (drop offset (blit offset x bs)) = x"
  by (simp add: blit_def)

lemma nth_blit_other [page_simps]:
  "offset + length x \<le> length bs \<Longrightarrow> i < length bs \<Longrightarrow> i < offset \<or> offset + length x \<le> i \<Longrightarrow>
   blit offset x bs ! i = bs ! i"
  by (auto simp: nth_blit)

lemma nth_blit_one [page_simps]: "offset < length bs \<Longrightarrow> blit offset [b] bs ! offset = b"
  by (simp add: nth_blit)

lemma uint_blit_other [page_simps]:
  "offset + length x \<le> length bs \<Longrightarrow> a + 2 \<le> offset \<or> offset + length x \<le> a \<Longrightarrow> u16_at (blit offset x bs) a = u16_at bs a"
  "offset + length x \<le> length bs \<Longrightarrow> a + 4 \<le> offset \<or> offset + length x \<le> a \<Longrightarrow> u32_at (blit offset x bs) a = u32_at bs a"
  "offset + length x \<le> length bs \<Longrightarrow> a + 8 \<le> offset \<or> offset + length x \<le> a \<Longrightarrow> u64_at (blit offset x bs) a = u64_at bs a"
  by (simp_all add: u16_at_def u32_at_def u64_at_def window_blit_other)

lemma uint_blit_same [page_simps]:
  "offset + 2 \<le> length bs \<Longrightarrow> u16_at (blit offset (u16_le v) bs) offset = v"
  "offset + 4 \<le> length bs \<Longrightarrow> u32_at (blit offset (u32_le w) bs) offset = w"
  "offset + 8 \<le> length bs \<Longrightarrow> u64_at (blit offset (u64_le z) bs) offset = z"
  by (simp_all add: u16_at_def u32_at_def u64_at_def window_blit_same)

lemma zeros_blit_other [page_simps]:
  "offset + length x \<le> length bs \<Longrightarrow> b \<le> offset \<or> offset + length x \<le> a \<Longrightarrow> zeros_in a b (blit offset x bs) \<longleftrightarrow> zeros_in a b bs"
  by (cases "a \<le> b") (auto simp: zeros_in_def window_blit_other)

lemma zeros_replicate [page_simps]: "zeros_in a b (replicate n 0)"
  by (auto simp: zeros_in_def list_all_iff dest: in_set_takeD in_set_dropD)

lemma uint_zeros [page_simps]:
  "a + 2 \<le> n \<Longrightarrow> u16_at (replicate n 0) a = 0" "a + 4 \<le> n \<Longrightarrow> u32_at (replicate n 0) a = 0"
  "a + 8 \<le> n \<Longrightarrow> u64_at (replicate n 0) a = 0"
proof -
  have "from_le (replicate k 0) = 0" for k by (induction k) auto
  then show "a + 2 \<le> n \<Longrightarrow> u16_at (replicate n 0) a = 0" "a + 4 \<le> n \<Longrightarrow> u32_at (replicate n 0) a = 0"
    "a + 8 \<le> n \<Longrightarrow> u64_at (replicate n 0) a = 0"
    by (simp_all add: u16_at_def u32_at_def u64_at_def u16_of_le_def u32_of_le_def u64_of_le_def)
qed

lemma magic_lengths [simp]: "length BLP1 = 4" "length BLOPST01 = 8"
  by (simp_all add: BLP1_def BLOPST01_def)

lemma take_blit_zero [page_simps]:
  "length x \<le> length bs \<Longrightarrow> take (length x) (blit 0 x bs) = x"
  "offset + length x \<le> length bs \<Longrightarrow> n \<le> offset \<Longrightarrow> take n (blit offset x bs) = take n bs"
  by (simp_all add: blit_def)

text \<open>The fields of a fresh page.\<close>

lemma length_page_header [simp]: "length (page_header kind level tree) = PAGE_SIZE"
  by (simp add: page_header_def PAGE_SIZE_def)

lemma page_header_fields [page_simps]:
  "take 4 (page_header kind level tree) = BLP1" "u16_at (page_header kind level tree) 4 = 1"
  "page_header kind level tree ! 6 = kind" "page_header kind level tree ! 7 = level"
  "u32_at (page_header kind level tree) 16 = tree" "u16_at (page_header kind level tree) 20 = 0"
  "u16_at (page_header kind level tree) 24 = 64" "u16_at (page_header kind level tree) 26 = 16384"
  "u64_at (page_header kind level tree) 32 = 0" "u32_at (page_header kind level tree) 40 = 0"
proof -
  show "take 4 (page_header kind level tree) = BLP1"
    using take_blit_zero(1)[of BLP1 "replicate PAGE_SIZE 0"]
    by (simp add: page_header_def PAGE_SIZE_def take_blit_zero(2))
qed (simp_all add: page_header_def PAGE_SIZE_def HEADER_SIZE_def page_simps)

lemma page_header_zeros [page_simps]:
  "zeros_in 22 24 (page_header kind level tree)" "28 \<le> a \<Longrightarrow> zeros_in a b (page_header kind level tree)"
  by (simp_all add: page_header_def PAGE_SIZE_def HEADER_SIZE_def page_simps)

subsection \<open>Layout of the cells\<close>

text \<open>The slots from \<open>index\<close> on describe the given cells, packed downwards from \<open>fin\<close>.\<close>

fun laid_out :: "bytes \<Rightarrow> bytes list \<Rightarrow> nat \<Rightarrow> nat \<Rightarrow> bool" where
  "laid_out bs [] index fin \<longleftrightarrow> True"
| "laid_out bs (cell # cells) index fin \<longleftrightarrow> length cell \<le> fin \<and>
     unat (u16_at bs (64 + 4 * index)) = fin - length cell \<and> unat (u16_at bs (66 + 4 * index)) = length cell \<and>
     take (length cell) (drop (fin - length cell) bs) = cell \<and> laid_out bs cells (Suc index) (fin - length cell)"

definition cells_length :: "bytes list \<Rightarrow> nat" where
  "cells_length cells = sum_list (map length cells)"

lemma cells_length_simps [simp]:
  "cells_length [] = 0" "cells_length (c # cs) = length c + cells_length cs"
  by (simp_all add: cells_length_def)

lemma laid_out_blit:
  assumes "offset + length x \<le> length bs" "laid_out bs cells index fin" "cells_length cells \<le> fin"
    and "offset + length x \<le> 64 + 4 * index \<or> fin \<le> offset \<or>
      (64 + 4 * (index + length cells) \<le> offset \<and> offset + length x \<le> fin - cells_length cells)"
    and "64 + 4 * (index + length cells) \<le> fin - cells_length cells"
  shows "laid_out (blit offset x bs) cells index fin"
  using assms
proof (induction cells arbitrary: index fin)
  case (Cons cell cells)
  have "offset + length x \<le> 64 + 4 * Suc index \<or> fin - length cell \<le> offset \<or>
      (64 + 4 * (Suc index + length cells) \<le> offset \<and> offset + length x \<le> fin - length cell - cells_length cells)"
    using Cons.prems(4) by auto
  then have "laid_out (blit offset x bs) cells (Suc index) (fin - length cell)"
    using Cons.prems by (intro Cons.IH) auto
  moreover have "u16_at (blit offset x bs) (64 + 4 * index) = u16_at bs (64 + 4 * index)"
    "u16_at (blit offset x bs) (66 + 4 * index) = u16_at bs (66 + 4 * index)"
    using Cons.prems by (auto intro!: uint_blit_other(1))
  moreover have "take (length cell) (drop (fin - length cell) (blit offset x bs)) = take (length cell) (drop (fin - length cell) bs)"
    using Cons.prems by (intro window_blit_other) auto
  ultimately show ?case using Cons.prems(2) by simp
qed simp

lemma unat_u16: "k < 65536 \<Longrightarrow> unat (of_nat k :: u16) = k"
  by (simp add: unat_of_nat)

lemma unat_u32: "k < 4294967296 \<Longrightarrow> unat (of_nat k :: u32) = k"
  by (simp add: unat_of_nat)

lemma write_cells_layout:
  assumes "write_cells cs index fin bs = Inr (fin', bs')"
    and "length bs = PAGE_SIZE" "fin \<le> PAGE_SIZE" "64 + 4 * (index + length cs) + cells_length (map snd cs) \<le> fin"
  shows "fin' = fin - cells_length (map snd cs)" "length bs' = PAGE_SIZE"
    "laid_out bs' (map snd cs) index fin"
    "a + n \<le> 64 + 4 * index \<or> (64 + 4 * (index + length cs) \<le> a \<and> a + n \<le> fin') \<or> fin \<le> a \<Longrightarrow>
      take n (drop a bs') = take n (drop a bs)"
proof -
  have "fin' = fin - cells_length (map snd cs) \<and> length bs' = PAGE_SIZE \<and> laid_out bs' (map snd cs) index fin \<and>
    (\<forall>a n. a + n \<le> 64 + 4 * index \<or> (64 + 4 * (index + length cs) \<le> a \<and> a + n \<le> fin') \<or> fin \<le> a \<longrightarrow>
      take n (drop a bs') = take n (drop a bs))"
    using assms
  proof (induction cs arbitrary: index fin bs)
    case (Cons kc cs)
    obtain key cell where kc: "kc = (key, cell)" by force
    let ?start = "fin - length cell"
    define b1 where "b1 = blit (64 + 4 * index) (u16_le (of_nat ?start)) bs"
    define b2 where "b2 = blit (66 + 4 * index) (u16_le (of_nat (length cell))) b1"
    define b3 where "b3 = blit ?start cell b2"
    have fits: "length cell \<le> fin" "fin \<le> PAGE_SIZE" "68 + 4 * (index + length cs) + cells_length (map snd cs) \<le> ?start"
      using Cons.prems(3,4) by (simp_all add: kc)
    have len: "length b1 = PAGE_SIZE" "length b2 = PAGE_SIZE" "length b3 = PAGE_SIZE"
      using fits Cons.prems(2) by (simp_all add: b1_def b2_def b3_def)
    have w: "write_cells cs (Suc index) ?start b3 = Inr (fin', bs')"
      using Cons.prems(1) fits by (simp add: kc b1_def b2_def b3_def Let_def split: if_splits)
    have room: "?start \<le> PAGE_SIZE" "64 + 4 * (Suc index + length cs) + cells_length (map snd cs) \<le> ?start"
      using fits by simp_all
    have IH: "fin' = ?start - cells_length (map snd cs)" "length bs' = PAGE_SIZE" "laid_out bs' (map snd cs) (Suc index) ?start"
      and frame: "a + n \<le> 64 + 4 * Suc index \<or> (64 + 4 * (Suc index + length cs) \<le> a \<and> a + n \<le> fin') \<or> ?start \<le> a \<Longrightarrow>
        take n (drop a bs') = take n (drop a b3)" for a n
      using Cons.IH[OF w len(3) room] by blast+
    have own: "take (length cell) (drop ?start bs') = cell"
      using frame[of ?start "length cell"] fits len by (simp add: b3_def window_blit_same)
    have slot: "u16_at bs' (64 + 4 * index) = of_nat ?start" "u16_at bs' (66 + 4 * index) = of_nat (length cell)"
    proof -
      have "u16_at bs' (64 + 4 * index) = u16_at b3 (64 + 4 * index)" "u16_at bs' (66 + 4 * index) = u16_at b3 (66 + 4 * index)"
        using frame[of "64 + 4 * index" 2] frame[of "66 + 4 * index" 2] by (simp_all add: u16_at_def)
      then show "u16_at bs' (64 + 4 * index) = of_nat ?start" "u16_at bs' (66 + 4 * index) = of_nat (length cell)"
        using fits len Cons.prems(2) by (simp_all add: b3_def b2_def b1_def uint_blit_other uint_blit_same)
    qed
    have small: "unat (of_nat ?start :: u16) = ?start" "unat (of_nat (length cell) :: u16) = length cell"
      using fits by (intro unat_u16; simp add: PAGE_SIZE_def)+
    have "take n (drop a bs') = take n (drop a bs)"
      if "a + n \<le> 64 + 4 * index \<or> (64 + 4 * (index + length (kc # cs)) \<le> a \<and> a + n \<le> fin') \<or> fin \<le> a" for a n
    proof -
      have "take n (drop a bs') = take n (drop a b3)" using that fits by (intro frame) auto
      also have "\<dots> = take n (drop a b2)" unfolding b3_def
        using that fits len IH(1) by (intro window_blit_other) auto
      also have "\<dots> = take n (drop a b1)" unfolding b2_def
        using that fits len by (intro window_blit_other) auto
      also have "\<dots> = take n (drop a bs)" unfolding b1_def
        using that fits Cons.prems(2) by (intro window_blit_other) auto
      finally show ?thesis .
    qed
    then show ?case using IH own slot small fits(1) by (simp add: kc)
  qed simp
  then show "fin' = fin - cells_length (map snd cs)" "length bs' = PAGE_SIZE"
    "laid_out bs' (map snd cs) index fin"
    "a + n \<le> 64 + 4 * index \<or> (64 + 4 * (index + length cs) \<le> a \<and> a + n \<le> fin') \<or> fin \<le> a \<Longrightarrow>
      take n (drop a bs') = take n (drop a bs)"
    by blast+
qed

lemma write_cells_total:
  "\<forall>kc \<in> set cs. length (fst kc) \<le> MAX_KEY \<Longrightarrow> cells_length (map snd cs) \<le> fin \<Longrightarrow>
   \<exists>fin' bs'. write_cells cs index fin bs = Inr (fin', bs')"
proof (induction cs arbitrary: index fin bs)
  case (Cons kc cs)
  then show ?case by (cases kc) (simp add: Let_def)
qed simp

subsection \<open>Cells\<close>

fun value_ok :: "u64 \<Rightarrow> stored_value \<Rightarrow> bool" where
  "value_ok count (Inline v) \<longleftrightarrow> length v \<le> INLINE_LIMIT"
| "value_ok count (Overflow len head) \<longleftrightarrow> INLINE_LIMIT < len \<and> len \<le> MAX_VALUE \<and> valid_ref head count"

lemma window_split: "a \<le> b \<Longrightarrow> b \<le> length c \<Longrightarrow> drop a c = take (b - a) (drop a c) @ drop b c"
  by (metis append_take_drop_id drop_drop le_add_diff_inverse2)

lemma byte_split: "a < length c \<Longrightarrow> drop a c = [c ! a] @ drop (Suc a) c"
  by (simp add: Cons_nth_drop_Suc)

lemma cell_split: "4 \<le> length c \<Longrightarrow> c = take 2 c @ [c ! 2, c ! 3] @ drop 4 c"
  using window_split[of 0 2 c] byte_split[of 2 c] byte_split[of 3 c] by simp

lemma u16_prefix: "2 \<le> length bs \<Longrightarrow> take 2 bs = u16_le (of_nat (unat (u16_at bs 0)))"
  by (simp add: u16_at_def codec_simps)

lemma MAX_KEY_fits: "n \<le> MAX_KEY \<Longrightarrow> unat (of_nat n :: u16) = n"
  by (rule unat_u16) (simp add: MAX_KEY_def)

lemma MAX_VALUE_fits: "n \<le> MAX_VALUE \<Longrightarrow> unat (of_nat n :: u32) = n"
  by (rule unat_u32) (simp add: MAX_VALUE_def)

lemma length_leaf_cell_bytes: "4 + length (leaf_cell_bytes c) = leaf_size c"
  by (auto simp: leaf_cell_bytes_def leaf_size_def split: stored_value.splits)

lemma length_internal_cell_bytes: "length (internal_cell_bytes kc) = 12 + length (fst kc)"
  by (auto simp: internal_cell_bytes_def split: prod.splits)

lemma tag_bytes: "(u16_le n @ a # b # rest) ! 2 = a" "(u16_le n @ a # b # rest) ! 3 = b"
  by (simp_all add: nth_append)

lemma leaf_cell_fields:
  assumes "length (lc_key c) \<le> MAX_KEY" "value_ok count (lc_value c)"
  shows "unat (u16_at (leaf_cell_bytes c) 0) = length (lc_key c)"
    "take (length (lc_key c)) (drop 16 (leaf_cell_bytes c)) = lc_key c"
    "read_stored (leaf_cell_bytes c) (length (leaf_cell_bytes c)) (length (lc_key c)) count = Inr (lc_value c)"
proof -
  show "unat (u16_at (leaf_cell_bytes c) 0) = length (lc_key c)"
    "take (length (lc_key c)) (drop 16 (leaf_cell_bytes c)) = lc_key c"
    using MAX_KEY_fits[OF assms(1)] by (auto simp: leaf_cell_bytes_def u16_at_def split: stored_value.splits)
  show "read_stored (leaf_cell_bytes c) (length (leaf_cell_bytes c)) (length (lc_key c)) count = Inr (lc_value c)"
  proof (cases "lc_value c")
    case (Inline v)
    then have "length v \<le> 1024" using assms(2) by (simp add: INLINE_LIMIT_def)
    moreover from this have "unat (of_nat (length v) :: u32) = length v" by (intro unat_u32) simp
    ultimately show ?thesis
      by (simp add: Inline leaf_cell_bytes_def read_stored_def u32_at_def u64_at_def tag_bytes INLINE_LIMIT_def MAX_VALUE_def drop_Cons')
  next
    case (Overflow len head)
    then have "unat (of_nat len :: u32) = len" using assms(2) by (intro MAX_VALUE_fits) simp
    then show ?thesis using assms(2)
      by (simp add: Overflow leaf_cell_bytes_def read_stored_def u32_at_def u64_at_def tag_bytes)
  qed
qed

lemma read_stored_exact:
  assumes "length cell = len" "16 + key_len \<le> len" "key_len = unat (u16_at cell 0)" "read_stored cell len key_len count = Inr v"
  shows "cell = leaf_cell_bytes \<lparr>lc_key = take key_len (drop 16 cell), lc_value = v\<rparr>" "value_ok count v"
proof -
  have len: "16 \<le> length cell" using assms(1,2) by simp
  have k: "take 2 cell = u16_le (of_nat key_len)"
    using len u16_prefix[of cell] unfolding assms(3) by simp
  have split: "cell = u16_le (of_nat key_len) @ [cell ! 2, cell ! 3] @ take 4 (drop 4 cell) @ take 8 (drop 8 cell)
      @ take key_len (drop 16 cell) @ drop (16 + key_len) cell"
    using cell_split[of cell] window_split[of 4 8 cell] window_split[of 8 16 cell]
      window_split[of 16 "16 + key_len" cell] assms(1,2) k by simp
  have vl: "u32_le (of_nat (unat (u32_at cell 4))) = take 4 (drop 4 cell)"
    using len by (simp add: u32_at_def codec_simps)
  have hd: "u64_le (u64_at cell 8) = take 8 (drop 8 cell)"
    using len by (simp add: u64_at_def codec_simps)
  have "cell = leaf_cell_bytes \<lparr>lc_key = take key_len (drop 16 cell), lc_value = v\<rparr> \<and> value_ok count v"
  proof (cases v)
    case (Inline x)
    then have v: "cell ! 2 = 0" "cell ! 3 = 0" "u64_at cell 8 = 0" "x = drop (16 + key_len) cell"
      "unat (u32_at cell 4) \<le> INLINE_LIMIT" "len = 16 + key_len + unat (u32_at cell 4)"
      using assms(4) by (auto simp: read_stored_def Let_def split: if_splits)
    then have "length x = unat (u32_at cell 4)" using assms(1) by simp
    then show ?thesis using split vl hd v assms(1,2) by (simp add: Inline leaf_cell_bytes_def)
  next
    case (Overflow n head)
    then have v: "cell ! 2 = 1" "cell ! 3 = 0" "head = u64_at cell 8" "n = unat (u32_at cell 4)" "len = 16 + key_len"
      "INLINE_LIMIT < n" "n \<le> MAX_VALUE" "valid_ref head count"
      using assms(4) by (auto simp: read_stored_def Let_def split: if_splits)
    then show ?thesis using split vl hd assms(1,2) by (simp add: Overflow leaf_cell_bytes_def)
  qed
  then show "cell = leaf_cell_bytes \<lparr>lc_key = take key_len (drop 16 cell), lc_value = v\<rparr>" "value_ok count v" by auto
qed

lemma zero_u16: "u16_of_le [0, 0] = 0"
  by (simp add: u16_of_le_def)

lemma internal_cell_fields:
  assumes "length key \<le> MAX_KEY" "valid_ref child count"
  shows "unat (u16_at (internal_cell_bytes (key, child)) 0) = length key"
    "take (length key) (drop 12 (internal_cell_bytes (key, child))) = key"
    "read_child (internal_cell_bytes (key, child)) (12 + length key) (length key) count = Inr child"
  using MAX_KEY_fits[OF assms(1)] assms(2)
  by (simp_all add: internal_cell_bytes_def u16_at_def read_child_def u64_at_def zero_u16)

lemma read_child_exact:
  assumes "length cell = len" "12 + key_len \<le> len" "key_len = unat (u16_at cell 0)" "read_child cell len key_len count = Inr child"
  shows "cell = internal_cell_bytes (take key_len (drop 12 cell), child)" "valid_ref child count"
proof -
  have c: "child = u64_at cell 4" "u16_at cell 2 = 0" "len = 12 + key_len" "valid_ref child count"
    using assms(4) by (auto simp: read_child_def Let_def split: if_splits)
  have len: "12 \<le> length cell" using assms(1,2) by simp
  have "take 2 cell = u16_le (of_nat key_len)"
    using len u16_prefix[of cell] unfolding assms(3) by simp
  moreover have "take 2 (drop 2 cell) = u16_le 0"
    using len c(2) uint_codec_canonical(1)[of "take 2 (drop 2 cell)"] by (simp add: u16_at_def)
  moreover have "u64_le child = take 8 (drop 4 cell)"
    using len c(1) by (simp add: u64_at_def codec_simps)
  moreover have "u16_le 0 = [0, 0]" by (simp add: codec_eval)
  ultimately show "cell = internal_cell_bytes (take key_len (drop 12 cell), child)"
    using window_split[of 0 2 cell] window_split[of 2 4 cell] window_split[of 4 12 cell] assms(1) c(3)
    by (simp add: internal_cell_bytes_def)
  show "valid_ref child count" by (rule c(4))
qed

subsection \<open>Slots\<close>

lemma read_slot_Inr:
  "read_slot bs leaf upper index fin keys = Inr (offset, key, cell) \<longleftrightarrow>
     68 + 4 * index \<le> length bs \<and> offset = unat (u16_at bs (64 + 4 * index)) \<and>
     unat (u16_at bs (66 + 4 * index)) = fin - offset \<and> offset \<le> fin \<and> upper \<le> offset \<and>
     cell = take (fin - offset) (drop offset bs) \<and>
     (if leaf then 16 else 12) + unat (u16_at cell 0) \<le> fin - offset \<and> unat (u16_at cell 0) \<le> MAX_KEY \<and>
     key = take (unat (u16_at cell 0)) (drop (if leaf then 16 else 12) cell) \<and> (keys = [] \<or> last keys < key)"
proof -
  define o1 len where o1: "o1 = unat (u16_at bs (64 + 4 * index))" and len: "len = unat (u16_at bs (66 + 4 * index))"
  define c fixed where c: "c = take (fin - o1) (drop o1 bs)" and fixed: "fixed = (if leaf then 16 else 12 :: nat)"
  define k where k: "k = unat (u16_at c 0)"
  have "o1 + len \<noteq> fin \<longleftrightarrow> \<not> (len = fin - o1 \<and> o1 \<le> fin)" by auto
  then have "read_slot bs leaf upper index fin keys = Inr (offset, key, cell) \<longleftrightarrow>
      68 + 4 * index \<le> length bs \<and> (len = fin - o1 \<and> o1 \<le> fin) \<and> upper \<le> o1 \<and> fixed + k \<le> len \<and> k \<le> MAX_KEY \<and>
      (keys = [] \<or> last keys < take k (drop fixed c)) \<and> (o1, take k (drop fixed c), c) = (offset, key, cell)"
    unfolding read_slot_def Let_def o1[symmetric] len[symmetric] c[symmetric] fixed[symmetric] k[symmetric] by auto
  then show ?thesis unfolding o1 len c fixed k by (auto simp only: prod.inject)
qed

lemma leaf_cell_eta: "\<lparr>lc_key = lc_key c, lc_value = lc_value c\<rparr> = c"
  by (cases c) simp

definition cell_ok :: "u64 \<Rightarrow> leaf_cell \<Rightarrow> bool" where
  "cell_ok count c \<longleftrightarrow> length (lc_key c) \<le> MAX_KEY \<and> value_ok count (lc_value c)"

lemma read_slots_leaf:
  assumes "laid_out bs (map leaf_cell_bytes cs) index fin" "\<forall>c \<in> set cs. cell_ok count c" "ascending (keys @ map lc_key cs)"
    and "upper + cells_length (map leaf_cell_bytes cs) \<le> fin" "fin \<le> length bs" "64 + 4 * (index + length cs) \<le> length bs"
  shows "read_slots bs count True upper (length cs) index fin keys acc ch =
    Inr (fin - cells_length (map leaf_cell_bytes cs), keys @ map lc_key cs, acc @ cs, ch)"
  using assms
proof (induction cs arbitrary: index fin keys acc)
  case (Cons c cs)
  let ?cell = "leaf_cell_bytes c" and ?offset = "fin - length (leaf_cell_bytes c)"
  have c: "length (lc_key c) \<le> MAX_KEY" "value_ok count (lc_value c)" using Cons.prems(2) by (simp_all add: cell_ok_def)
  note f = leaf_cell_fields[OF c]
  have fits: "16 + length (lc_key c) \<le> length ?cell"
    by (auto simp: leaf_cell_bytes_def split: stored_value.splits)
  have L: "length ?cell \<le> fin" "unat (u16_at bs (64 + 4 * index)) = ?offset" "unat (u16_at bs (66 + 4 * index)) = length ?cell"
    "take (length ?cell) (drop ?offset bs) = ?cell" using Cons.prems(1) by simp_all
  have order: "keys = [] \<or> last keys < lc_key c"
    using Cons.prems(3) by (cases keys rule: rev_cases) (auto simp: ascending_iff sorted_wrt_append)
  have slot: "read_slot bs True upper index fin keys = Inr (?offset, lc_key c, ?cell)"
    unfolding read_slot_Inr using L f(1,2) fits c order Cons.prems(4-6) by simp
  have "read_slots bs count True upper (length cs) (Suc index) ?offset (keys @ [lc_key c]) (acc @ [c]) ch =
    Inr (?offset - cells_length (map leaf_cell_bytes cs), (keys @ [lc_key c]) @ map lc_key cs, (acc @ [c]) @ cs, ch)"
    using Cons.prems L(1) by (intro Cons.IH) auto
  then show ?case using slot f(3) L(1) by (simp add: leaf_cell_eta)
qed simp

lemma read_slots_leaf_exact:
  assumes "read_slots bs count True upper n index fin keys acc ch = Inr (fin', keys', acc', ch')"
    and "ascending keys" "fin \<le> length bs"
  shows "\<exists>cs. length cs = n \<and> keys' = keys @ map lc_key cs \<and> acc' = acc @ cs \<and> (\<forall>c \<in> set cs. cell_ok count c) \<and>
    ascending (keys @ map lc_key cs) \<and> laid_out bs (map leaf_cell_bytes cs) index fin \<and>
    fin = fin' + cells_length (map leaf_cell_bytes cs)"
  using assms
proof (induction n arbitrary: index fin keys acc)
  case (Suc n)
  obtain offset key cell where slot: "read_slot bs True upper index fin keys = Inr (offset, key, cell)"
    using Suc.prems(1) by (auto simp: rbind_eq_Inr)
  obtain v where v: "read_stored cell (fin - offset) (length key) count = Inr v"
    and rest: "read_slots bs count True upper n (Suc index) offset (keys @ [key]) (acc @ [\<lparr>lc_key = key, lc_value = v\<rparr>]) ch
      = Inr (fin', keys', acc', ch')"
    using Suc.prems(1) slot by (auto simp: rbind_eq_Inr)
  have s: "offset = unat (u16_at bs (64 + 4 * index))" "unat (u16_at bs (66 + 4 * index)) = fin - offset" "offset \<le> fin"
    "cell = take (fin - offset) (drop offset bs)" "16 + unat (u16_at cell 0) \<le> fin - offset" "unat (u16_at cell 0) \<le> MAX_KEY"
    "key = take (unat (u16_at cell 0)) (drop 16 cell)" "keys = [] \<or> last keys < key"
    using slot unfolding read_slot_Inr by auto
  have len: "length cell = fin - offset" using s(3,4) Suc.prems(3) by simp
  then have klen: "length key = unat (u16_at cell 0)" using s(5,7) by simp
  let ?c = "\<lparr>lc_key = key, lc_value = v\<rparr>"
  have cell: "cell = leaf_cell_bytes ?c" "value_ok count v"
    using read_stored_exact[OF len _ klen v] klen s(5,7) by auto
  have "ascending (keys @ [key])" "offset \<le> length bs" using Suc.prems(2,3) s(3,8) by (auto simp: ascending_snoc)
  from Suc.IH[OF rest this] obtain cs where cs: "length cs = n" "keys' = keys @ map lc_key (?c # cs)" "acc' = acc @ ?c # cs"
    "\<forall>c \<in> set cs. cell_ok count c" "ascending (keys @ map lc_key (?c # cs))" "laid_out bs (map leaf_cell_bytes cs) (Suc index) offset"
    "offset = fin' + cells_length (map leaf_cell_bytes cs)" by auto
  have "cell_ok count ?c" using cell(2) klen s(6) by (simp add: cell_ok_def)
  moreover have "laid_out bs (map leaf_cell_bytes (?c # cs)) index fin" "fin = fin' + cells_length (map leaf_cell_bytes (?c # cs))"
    using cs(6,7) s(1-4) len unfolding cell(1) by auto
  ultimately show ?case using cs(1-5) by (intro exI[of _ "?c # cs"]) simp
qed simp

text \<open>The same for internal nodes; a cell holds a key and the child to its right.\<close>

definition ref_ok :: "u64 \<Rightarrow> bytes \<times> u64 \<Rightarrow> bool" where
  "ref_ok count kc \<longleftrightarrow> length (fst kc) \<le> MAX_KEY \<and> valid_ref (snd kc) count"

lemma read_slots_internal:
  assumes "laid_out bs (map internal_cell_bytes cs) index fin" "\<forall>c \<in> set cs. ref_ok count c" "ascending (keys @ map fst cs)"
    and "upper + cells_length (map internal_cell_bytes cs) \<le> fin" "fin \<le> length bs" "64 + 4 * (index + length cs) \<le> length bs"
  shows "read_slots bs count False upper (length cs) index fin keys acc ch =
    Inr (fin - cells_length (map internal_cell_bytes cs), keys @ map fst cs, acc, ch @ map snd cs)"
  using assms
proof (induction cs arbitrary: index fin keys ch)
  case (Cons kc cs)
  obtain key child where kc: "kc = (key, child)" by force
  let ?cell = "internal_cell_bytes kc" and ?offset = "fin - length (internal_cell_bytes kc)"
  have c: "length key \<le> MAX_KEY" "valid_ref child count" using Cons.prems(2) by (simp_all add: ref_ok_def kc)
  note f = internal_cell_fields[OF c]
  have fits: "length ?cell = 12 + length key" by (simp add: length_internal_cell_bytes kc)
  have L: "length ?cell \<le> fin" "unat (u16_at bs (64 + 4 * index)) = ?offset" "unat (u16_at bs (66 + 4 * index)) = length ?cell"
    "take (length ?cell) (drop ?offset bs) = ?cell" using Cons.prems(1) by simp_all
  have order: "keys = [] \<or> last keys < key"
    using Cons.prems(3) by (cases keys rule: rev_cases) (auto simp: kc ascending_iff sorted_wrt_append)
  have slot: "read_slot bs False upper index fin keys = Inr (?offset, key, ?cell)"
    unfolding read_slot_Inr using L f(1,2) fits c order Cons.prems(4-6) by (simp add: kc)
  have "read_slots bs count False upper (length cs) (Suc index) ?offset (keys @ [key]) acc (ch @ [child]) =
    Inr (?offset - cells_length (map internal_cell_bytes cs), (keys @ [key]) @ map fst cs, acc, (ch @ [child]) @ map snd cs)"
    using Cons.prems L(1) by (intro Cons.IH) (auto simp: kc)
  then show ?case using slot f(3) L(1) fits by (simp add: kc)
qed simp

lemma read_slots_internal_exact:
  assumes "read_slots bs count False upper n index fin keys acc ch = Inr (fin', keys', acc', ch')"
    and "ascending keys" "fin \<le> length bs"
  shows "\<exists>cs. length cs = n \<and> keys' = keys @ map fst cs \<and> ch' = ch @ map snd cs \<and> (\<forall>c \<in> set cs. ref_ok count c) \<and>
    ascending (keys @ map fst cs) \<and> laid_out bs (map internal_cell_bytes cs) index fin \<and>
    fin = fin' + cells_length (map internal_cell_bytes cs)"
  using assms
proof (induction n arbitrary: index fin keys ch)
  case (Suc n)
  obtain offset key cell where slot: "read_slot bs False upper index fin keys = Inr (offset, key, cell)"
    using Suc.prems(1) by (auto simp: rbind_eq_Inr)
  obtain child where v: "read_child cell (fin - offset) (length key) count = Inr child"
    and rest: "read_slots bs count False upper n (Suc index) offset (keys @ [key]) acc (ch @ [child]) = Inr (fin', keys', acc', ch')"
    using Suc.prems(1) slot by (auto simp: rbind_eq_Inr)
  have s: "offset = unat (u16_at bs (64 + 4 * index))" "unat (u16_at bs (66 + 4 * index)) = fin - offset" "offset \<le> fin"
    "cell = take (fin - offset) (drop offset bs)" "12 + unat (u16_at cell 0) \<le> fin - offset" "unat (u16_at cell 0) \<le> MAX_KEY"
    "key = take (unat (u16_at cell 0)) (drop 12 cell)" "keys = [] \<or> last keys < key"
    using slot unfolding read_slot_Inr by auto
  have len: "length cell = fin - offset" using s(3,4) Suc.prems(3) by simp
  then have klen: "length key = unat (u16_at cell 0)" using s(5,7) by simp
  have cell: "cell = internal_cell_bytes (key, child)" "valid_ref child count"
    using read_child_exact[OF len _ klen v] klen s(5,7) by auto
  have "ascending (keys @ [key])" "offset \<le> length bs" using Suc.prems(2,3) s(3,8) by (auto simp: ascending_snoc)
  from Suc.IH[OF rest this] obtain cs where cs: "length cs = n" "keys' = keys @ map fst ((key, child) # cs)"
    "ch' = ch @ map snd ((key, child) # cs)" "\<forall>c \<in> set cs. ref_ok count c" "ascending (keys @ map fst ((key, child) # cs))"
    "laid_out bs (map internal_cell_bytes cs) (Suc index) offset" "offset = fin' + cells_length (map internal_cell_bytes cs)" by auto
  have "ref_ok count (key, child)" using cell(2) klen s(6) by (simp add: ref_ok_def)
  moreover have "laid_out bs (map internal_cell_bytes ((key, child) # cs)) index fin"
    "fin = fin' + cells_length (map internal_cell_bytes ((key, child) # cs))"
    using cs(6,7) s(1-4) len unfolding cell(1) by auto
  ultimately show ?case using cs(1-5) by (intro exI[of _ "(key, child) # cs"]) simp
qed simp

subsection \<open>Node pages\<close>

fun node_ok :: "u64 \<Rightarrow> node \<Rightarrow> bool" where
  "node_ok count (NLeaf cells) \<longleftrightarrow> cells \<noteq> [] \<and> (\<forall>c \<in> set cells. cell_ok count c) \<and> ascending (map lc_key cells) \<and>
     HEADER_SIZE + sum_list (map leaf_size cells) \<le> PAGE_SIZE"
| "node_ok count (NInternal level keys children) \<longleftrightarrow> level \<noteq> 0 \<and> keys \<noteq> [] \<and> length children = length keys + 1 \<and>
     (\<forall>key \<in> set keys. length key \<le> MAX_KEY) \<and> (\<forall>child \<in> set children. valid_ref child count) \<and> ascending keys \<and>
     HEADER_SIZE + sum_list (map (\<lambda>key. 16 + length key) keys) \<le> PAGE_SIZE"

lemma blit_again: "length x = length y \<Longrightarrow> offset + length y \<le> length bs \<Longrightarrow> blit offset x (blit offset y bs) = blit offset x bs"
  by (simp add: blit_def)

lemma length_checksum [simp]: "length bs = PAGE_SIZE \<Longrightarrow> length (checksum crc bs) = PAGE_SIZE"
  by (simp add: checksum_def Let_def PAGE_SIZE_def)

lemma checksum_sum: "length bs = PAGE_SIZE \<Longrightarrow> crc (blit 60 [0, 0, 0, 0] (checksum crc bs)) = u32_at (checksum crc bs) 60"
  by (simp add: checksum_def Let_def PAGE_SIZE_def blit_again page_simps)

lemma checksum_window:
  "length bs = PAGE_SIZE \<Longrightarrow> a + n \<le> 60 \<or> 64 \<le> a \<Longrightarrow> take n (drop a (checksum crc bs)) = take n (drop a bs)"
  by (simp add: checksum_def Let_def PAGE_SIZE_def page_simps)

lemma window_uint:
  "take 2 (drop a bs) = take 2 (drop a bs') \<Longrightarrow> u16_at bs a = u16_at bs' a"
  "take 4 (drop a bs) = take 4 (drop a bs') \<Longrightarrow> u32_at bs a = u32_at bs' a"
  "take 8 (drop a bs) = take 8 (drop a bs') \<Longrightarrow> u64_at bs a = u64_at bs' a"
  by (simp_all add: u16_at_def u32_at_def u64_at_def)

lemma window_nth: "take 1 (drop a bs) = take 1 (drop a bs') \<Longrightarrow> a < length bs \<Longrightarrow> a < length bs' \<Longrightarrow> bs ! a = bs' ! a"
  by (metis One_nat_def hd_drop_conv_nth hd_take zero_less_one)

lemma window_zeros: "take (b - a) (drop a bs) = take (b - a) (drop a bs') \<Longrightarrow> zeros_in a b bs \<longleftrightarrow> zeros_in a b bs'"
  by (simp add: zeros_in_def)

text \<open>The page that is written for \<open>bs\<close> under an ID has the fields of \<open>bs\<close> elsewhere.\<close>

lemma stamped_fields:
  fixes i :: u64 and crc :: "bytes \<Rightarrow> u32"
  assumes "length bs = PAGE_SIZE"
  defines "p \<equiv> checksum crc (blit 8 (u64_le i) bs)"
  shows "length p = PAGE_SIZE" "u64_at p 8 = i" "crc (blit 60 [0, 0, 0, 0] p) = u32_at p 60"
    "a + n \<le> 8 \<or> (16 \<le> a \<and> a + n \<le> 60) \<or> 64 \<le> a \<Longrightarrow> take n (drop a p) = take n (drop a bs)"
proof -
  have len: "length (blit 8 (u64_le i) bs) = PAGE_SIZE" using assms(1) by (simp add: PAGE_SIZE_def)
  show "length p = PAGE_SIZE" "crc (blit 60 [0, 0, 0, 0] p) = u32_at p 60"
    unfolding p_def using len by (simp_all add: checksum_sum)
  show "u64_at p 8 = i"
    using window_uint(3)[OF checksum_window[OF len, of 8 8 crc]] assms(1)
    unfolding p_def by (simp add: PAGE_SIZE_def page_simps)
  show "take n (drop a p) = take n (drop a bs)" if "a + n \<le> 8 \<or> (16 \<le> a \<and> a + n \<le> 60) \<or> 64 \<le> a"
  proof -
    have "take n (drop a p) = take n (drop a (blit 8 (u64_le i) bs))"
      unfolding p_def using that len by (intro checksum_window) auto
    also have "\<dots> = take n (drop a bs)" using that assms(1) by (intro window_blit_other) (auto simp: PAGE_SIZE_def)
    finally show ?thesis .
  qed
qed

lemma laid_out_window:
  assumes "laid_out bs cells index fin" "cells_length cells \<le> fin"
    and "\<And>a n. 64 + 4 * index \<le> a \<Longrightarrow> a + n \<le> fin \<Longrightarrow> take n (drop a bs') = take n (drop a bs)"
    and "64 + 4 * (index + length cells) \<le> fin - cells_length cells"
  shows "laid_out bs' cells index fin"
  using assms
proof (induction cells arbitrary: index fin)
  case (Cons cell cells)
  have "laid_out bs' cells (Suc index) (fin - length cell)"
    using Cons.prems(1,2,4) by (intro Cons.IH Cons.prems(3)) auto
  moreover have "u16_at bs' (64 + 4 * index) = u16_at bs (64 + 4 * index)" "u16_at bs' (66 + 4 * index) = u16_at bs (66 + 4 * index)"
    using Cons.prems(2,4) by (auto intro!: window_uint(1) Cons.prems(3))
  moreover have "take (length cell) (drop (fin - length cell) bs') = take (length cell) (drop (fin - length cell) bs)"
    using Cons.prems(2,4) by (intro Cons.prems(3)) auto
  ultimately show ?case using Cons.prems(1) by simp
qed simp

lemma node_cells_measure:
  assumes "node_measure n = Inr (kind, c, total_size)"
  shows "length (node_cells n) = c" "total_size = HEADER_SIZE + 4 * c + cells_length (map snd (node_cells n))"
proof -
  have "sum_list (map leaf_size cells) = 4 * length cells + cells_length (map leaf_cell_bytes cells)" for cells
    by (induction cells) (auto simp: length_leaf_cell_bytes[symmetric])
  moreover have "sum_list (map (\<lambda>key. 16 + length key) keys) = 4 * length keys + cells_length (map internal_cell_bytes (zip keys cs))"
    if "length cs = length keys" for keys and cs :: "u64 list"
    using that by (induction cs keys rule: list_induct2) (auto simp: length_internal_cell_bytes)
  ultimately show "length (node_cells n) = c" "total_size = HEADER_SIZE + 4 * c + cells_length (map snd (node_cells n))"
    using assms by (auto simp: node_measure_def node_cells_def comp_def split: node.splits if_splits)
qed

lemma encode_node_page:
  assumes "encode_node tree n = Inr bs"
  obtains kind c fin where "node_measure n = Inr (kind, c, HEADER_SIZE + 4 * c + cells_length (map snd (node_cells n)))"
    "c \<noteq> 0" "64 + 4 * c \<le> fin" "fin + cells_length (map snd (node_cells n)) = PAGE_SIZE"
    "length bs = PAGE_SIZE" "take 4 bs = BLP1" "u16_at bs 4 = 1" "bs ! 6 = kind" "bs ! 7 = node_level n"
    "u32_at bs 16 = tree_code tree" "u16_at bs 20 = of_nat c" "zeros_in 22 24 bs" "u16_at bs 24 = of_nat (64 + 4 * c)"
    "u16_at bs 26 = of_nat fin" "zeros_in 28 32 bs"
    "u64_at bs 32 = (case n of NInternal _ _ (child # _) \<Rightarrow> child | _ \<Rightarrow> 0)" "u32_at bs 40 = 0" "zeros_in 44 60 bs"
    "zeros_in (64 + 4 * c) fin bs" "laid_out bs (map snd (node_cells n)) 0 PAGE_SIZE" "length (node_cells n) = c"
proof -
  obtain kind c total_size where m: "node_measure n = Inr (kind, c, total_size)" and c: "c \<noteq> 0" "total_size \<le> PAGE_SIZE"
    using assms by (auto simp: encode_node_def Let_def rbind_eq_Inr split: if_splits)
  note mm = node_cells_measure[OF m]
  define b0 where "b0 = blit 24 (u16_le (of_nat (64 + 4 * c))) (blit 20 (u16_le (of_nat c)) (page_header kind (node_level n) (tree_code tree)))"
  obtain fin b1 where w: "write_cells (node_cells n) 0 PAGE_SIZE b0 = Inr (fin, b1)"
    and bs: "bs = blit 26 (u16_le (of_nat fin)) (case n of NInternal _ _ (c # _) \<Rightarrow> blit 32 (u64_le c) b1 | _ \<Rightarrow> b1)"
    using assms m c by (auto simp: encode_node_def Let_def rbind_eq_Inr b0_def)
  have b0: "length b0 = PAGE_SIZE" by (simp add: b0_def PAGE_SIZE_def)
  have room: "64 + 4 * (0 + length (node_cells n)) + cells_length (map snd (node_cells n)) \<le> PAGE_SIZE"
    using c(2) mm by (simp add: HEADER_SIZE_def)
  note W = write_cells_layout[OF w b0 order_refl room]
  define b2 where "b2 = (case n of NInternal _ _ (c # _) \<Rightarrow> blit 32 (u64_le c) b1 | _ \<Rightarrow> b1)"
  have b2: "length b2 = PAGE_SIZE" using W(2) by (auto simp: b2_def PAGE_SIZE_def split: node.splits list.splits)
  have far: "take k (drop a bs) = take k (drop a b1)" if "a + k \<le> 26 \<or> (28 \<le> a \<and> a + k \<le> 32) \<or> 40 \<le> a" for a k
  proof -
    have "take k (drop a bs) = take k (drop a b2)"
      unfolding bs b2_def[symmetric] using that b2 by (intro window_blit_other) (auto simp: PAGE_SIZE_def)
    also have "\<dots> = take k (drop a b1)"
      using that W(2) unfolding b2_def
      by (auto simp: PAGE_SIZE_def intro!: window_blit_other split: node.splits list.splits)
    finally show ?thesis .
  qed
  have near: "take k (drop a bs) = take k (drop a b0)"
    if "a + k \<le> 26 \<or> (28 \<le> a \<and> a + k \<le> 32) \<or> (40 \<le> a \<and> a + k \<le> 64) \<or> (64 + 4 * c \<le> a \<and> a + k \<le> fin)" for a k
    using that far[of a k] W(4)[of a k] mm(1) by (cases "a + k \<le> 64") auto
  have clear: "zeros_in a b bs \<longleftrightarrow> zeros_in a b b0"
    if "a \<le> b" "b \<le> 26 \<or> (28 \<le> a \<and> b \<le> 32) \<or> (40 \<le> a \<and> b \<le> 64) \<or> (64 + 4 * c \<le> a \<and> b \<le> fin)" for a b
    using that by (intro window_zeros near) auto
  have len: "length bs = PAGE_SIZE" using b2 unfolding bs b2_def[symmetric] by (simp add: PAGE_SIZE_def)
  have fin: "fin + cells_length (map snd (node_cells n)) = PAGE_SIZE" "64 + 4 * c \<le> fin"
    using W(1) room mm(1) by simp_all
  have link: "u64_at bs 32 = (case n of NInternal _ _ (child # _) \<Rightarrow> child | _ \<Rightarrow> 0)"
  proof -
    have "u64_at b1 32 = u64_at b0 32" by (intro window_uint(3) W(4)) simp
    then have "u64_at b2 32 = (case n of NInternal _ _ (child # _) \<Rightarrow> child | _ \<Rightarrow> 0)"
      using W(2) by (auto simp: b2_def b0_def PAGE_SIZE_def page_simps split: node.splits list.splits)
    moreover have "u64_at bs 32 = u64_at b2 32"
      unfolding bs b2_def[symmetric] using b2 by (intro uint_blit_other(3)) (simp_all add: PAGE_SIZE_def)
    ultimately show ?thesis by simp
  qed
  have "u16_at bs 26 = of_nat fin"
    unfolding bs b2_def[symmetric] using b2 by (intro uint_blit_same(1)) (simp add: PAGE_SIZE_def)
  moreover have "take 4 bs = BLP1" "u16_at bs 4 = 1" "bs ! 6 = kind" "bs ! 7 = node_level n" "u32_at bs 16 = tree_code tree"
    "u16_at bs 20 = of_nat c" "zeros_in 22 24 bs" "u16_at bs 24 = of_nat (64 + 4 * c)" "zeros_in 28 32 bs" "u32_at bs 40 = 0"
    "zeros_in 44 60 bs" "zeros_in (64 + 4 * c) fin bs"
    using near[of 0 4] window_uint(1)[OF near[of 4 2]] window_nth[OF near[of 6 1]] window_nth[OF near[of 7 1]]
      window_uint(2)[OF near[of 16 4]] window_uint(1)[OF near[of 20 2]] window_uint(1)[OF near[of 24 2]]
      window_uint(2)[OF near[of 40 4]] clear[of 22 24] clear[of 28 32] clear[of 44 60] clear[of "64 + 4 * c" fin] len b0 fin(2)
    by (simp_all add: b0_def PAGE_SIZE_def page_simps)
  moreover have "laid_out bs (map snd (node_cells n)) 0 PAGE_SIZE"
    using fin mm(1) by (intro laid_out_window[OF W(3) _ far]) auto
  ultimately show thesis using that m c(1) mm fin len link by blast
qed

lemma node_page_valid:
  fixes i :: u64 and crc :: "bytes \<Rightarrow> u32"
  assumes "node_ok count n" "encode_node tree n = Inr bs" "i \<noteq> 0"
  defines "p \<equiv> checksum crc (blit 8 (u64_le i) bs)"
  shows "validate_header crc p i (Some tree) count = Inr ()" "decode_node_page p count = Inr n"
proof -
  obtain kind c fin where E: "node_measure n = Inr (kind, c, HEADER_SIZE + 4 * c + cells_length (map snd (node_cells n)))"
    "c \<noteq> 0" "64 + 4 * c \<le> fin" "fin + cells_length (map snd (node_cells n)) = PAGE_SIZE"
    "length bs = PAGE_SIZE" "take 4 bs = BLP1" "u16_at bs 4 = 1" "bs ! 6 = kind" "bs ! 7 = node_level n"
    "u32_at bs 16 = tree_code tree" "u16_at bs 20 = of_nat c" "zeros_in 22 24 bs" "u16_at bs 24 = of_nat (64 + 4 * c)"
    "u16_at bs 26 = of_nat fin" "zeros_in 28 32 bs"
    "u64_at bs 32 = (case n of NInternal _ _ (child # _) \<Rightarrow> child | _ \<Rightarrow> 0)" "u32_at bs 40 = 0" "zeros_in 44 60 bs"
    "zeros_in (64 + 4 * c) fin bs" "laid_out bs (map snd (node_cells n)) 0 PAGE_SIZE" "length (node_cells n) = c"
    by (rule encode_node_page[OF assms(2)])
  note S = stamped_fields[OF E(5), where crc = crc and i = i, folded p_def]
  have same: "u16_at p 4 = 1" "p ! 6 = kind" "p ! 7 = node_level n" "u32_at p 16 = tree_code tree" "u16_at p 20 = of_nat c"
    "u16_at p 24 = of_nat (64 + 4 * c)" "u16_at p 26 = of_nat fin"
    "u64_at p 32 = (case n of NInternal _ _ (child # _) \<Rightarrow> child | _ \<Rightarrow> 0)" "u32_at p 40 = 0"
    using window_uint(1)[OF S(4)[of 4 2]] window_nth[OF S(4)[of 6 1]] window_nth[OF S(4)[of 7 1]]
      window_uint(2)[OF S(4)[of 16 4]] window_uint(1)[OF S(4)[of 20 2]] window_uint(1)[OF S(4)[of 24 2]]
      window_uint(1)[OF S(4)[of 26 2]] window_uint(3)[OF S(4)[of 32 8]] window_uint(2)[OF S(4)[of 40 4]] E S(1)
    by (simp_all add: PAGE_SIZE_def)
  have clear: "zeros_in a b p \<longleftrightarrow> zeros_in a b bs" if "a \<le> b" "16 \<le> a" "b \<le> 60 \<or> 64 \<le> a" for a b
    using that by (intro window_zeros S(4)) auto
  have magic: "take 4 p = BLP1" using S(4)[of 0 4] E(6) by simp
  have small: "unat (of_nat c :: u16) = c" "unat (of_nat fin :: u16) = fin" "unat (of_nat (64 + 4 * c) :: u16) = 64 + 4 * c"
    using E(3,4) by (intro unat_u16; simp add: PAGE_SIZE_def)+
  have kind: "kind = (case n of NLeaf _ \<Rightarrow> 1 | NInternal _ _ _ \<Rightarrow> 2)"
    using E(1) by (auto simp: node_measure_def split: node.splits if_splits)
  have "check_kind p i count = Inr ()"
    unfolding check_kind_def Let_def same small kind
    using assms(1,3) E(2,3,4,19) clear[of "64 + 4 * c" fin]
    by (cases n) (auto split: list.splits simp: valid_ref_def)
  then show "validate_header crc p i (Some tree) count = Inr ()"
    using S(2,3) same magic clear E(12,15,18) by (simp add: validate_header_def Let_def)
  have lay: "laid_out p (map snd (node_cells n)) 0 PAGE_SIZE"
    using E by (intro laid_out_window[OF E(20) _ S(4)]) auto
  show "decode_node_page p count = Inr n"
  proof (cases n)
    case (NLeaf cells)
    have "read_slots p count True fin (length cells) 0 PAGE_SIZE [] [] [u64_at p 32] =
        Inr (PAGE_SIZE - cells_length (map leaf_cell_bytes cells), [] @ map lc_key cells, [] @ cells, [u64_at p 32])"
      using lay assms(1) E(3,4,21) S(1) by (intro read_slots_leaf) (simp_all add: NLeaf node_cells_def comp_def)
    then show ?thesis
      using E(4,21) by (simp add: decode_node_page_def same small kind NLeaf node_cells_def comp_def)
  next
    case (NInternal level keys children)
    then obtain child rest where ch: "children = child # rest" "length rest = length keys"
      using assms(1) by (cases children) auto
    have sz: "map snd (node_cells n) = map internal_cell_bytes (zip keys rest)"
      by (simp add: NInternal node_cells_def ch comp_def)
    have "read_slots p count False fin (length (zip keys rest)) 0 PAGE_SIZE [] [] [child] =
        Inr (PAGE_SIZE - cells_length (map internal_cell_bytes (zip keys rest)), [] @ map fst (zip keys rest), [], [child] @ map snd (zip keys rest))"
      using lay assms(1) E(3,4,21) S(1) ch unfolding sz
      by (intro read_slots_internal) (auto simp: NInternal node_cells_def ref_ok_def dest: set_zip_leftD set_zip_rightD)
    moreover have "unat (of_nat c :: u16) = length (zip keys rest)" using E(21) ch small(1) by (simp add: NInternal node_cells_def)
    ultimately show ?thesis
      using E(4) ch unfolding sz by (simp add: decode_node_page_def same small(2) kind NInternal)
  qed
qed

lemma decode_node_ok:
  assumes "length p = PAGE_SIZE" "check_kind p i count = Inr ()" "decode_node_page p count = Inr n"
  shows "node_ok count n"
proof -
  define c upper where c: "c = unat (u16_at p 20)" and upper: "upper = unat (u16_at p 26)"
  have kind: "p ! 6 = 1 \<or> p ! 6 = 2" using assms(3) by (auto simp: decode_node_page_def split: if_splits)
  then have K: "c \<noteq> 0" "64 + 4 * c \<le> upper" "p ! 6 = 2 \<Longrightarrow> p ! 7 \<noteq> 0 \<and> valid_ref (u64_at p 32) count"
    using assms(2) by (auto simp: check_kind_def Let_def c upper split: if_splits)
  obtain keys cells children where
    R: "read_slots p count (p ! 6 = 1) upper c 0 PAGE_SIZE [] [] [u64_at p 32] = Inr (upper, keys, cells, children)"
    and n: "n = (if p ! 6 = 1 then NLeaf cells else NInternal (p ! 7) keys children)"
    using assms(3) kind by (auto simp: decode_node_page_def Let_def rbind_eq_Inr c upper split: if_splits)
  show ?thesis
  proof (cases "p ! 6 = 1")
    case True
    then have "read_slots p count True upper c 0 PAGE_SIZE [] [] [u64_at p 32] = Inr (upper, keys, cells, children)" using R by simp
    from read_slots_leaf_exact[OF this] assms(1) have cs: "length cells = c" "\<forall>c \<in> set cells. cell_ok count c"
      "ascending (map lc_key cells)" "PAGE_SIZE = upper + cells_length (map leaf_cell_bytes cells)" by auto
    have "node_measure (NLeaf cells) = Inr (1, c, HEADER_SIZE + sum_list (map leaf_size cells))"
      using cs(1) by (simp add: node_measure_def)
    from node_cells_measure(2)[OF this] have "HEADER_SIZE + sum_list (map leaf_size cells) \<le> PAGE_SIZE"
      using cs(4) K(2) by (simp add: node_cells_def comp_def HEADER_SIZE_def)
    then show ?thesis using True n cs K(1) by auto
  next
    case False
    then have "read_slots p count False upper c 0 PAGE_SIZE [] [] [u64_at p 32] = Inr (upper, keys, cells, children)" using R by simp
    from read_slots_internal_exact[OF this] assms(1) obtain cs where cs: "length cs = c" "keys = map fst cs"
      "children = u64_at p 32 # map snd cs" "\<forall>c \<in> set cs. ref_ok count c" "ascending keys"
      "PAGE_SIZE = upper + cells_length (map internal_cell_bytes cs)" by auto
    have "sum_list (map (\<lambda>key. 16 + length key) (map fst cs)) = 4 * length cs + cells_length (map internal_cell_bytes cs)"
      by (induction cs) (auto simp: length_internal_cell_bytes)
    then have "HEADER_SIZE + sum_list (map (\<lambda>key. 16 + length key) keys) \<le> PAGE_SIZE"
      using cs(1,2,6) K(2) by (simp add: HEADER_SIZE_def)
    then show ?thesis using False n cs K kind by (auto simp: ref_ok_def)
  qed
qed

lemma encode_node_total: "node_ok count n \<Longrightarrow> is_ok (encode_node tree n)"
proof -
  assume n: "node_ok count n"
  obtain kind c total_size where m: "node_measure n = Inr (kind, c, total_size)" and c: "c \<noteq> 0" "total_size \<le> PAGE_SIZE"
    using n by (cases n) (auto simp: node_measure_def valid_ref_def)
  have "\<forall>kc \<in> set (node_cells n). length (fst kc) \<le> MAX_KEY"
    using n by (cases n) (auto simp: node_cells_def cell_ok_def dest: set_zip_leftD)
  moreover have "cells_length (map snd (node_cells n)) \<le> PAGE_SIZE" using node_cells_measure(2)[OF m] c(2) by simp
  ultimately show "is_ok (encode_node tree n)"
    using write_cells_total m c by (force simp: encode_node_def Let_def is_ok_iff rbind_eq_Inr)
qed

lemma valid_ref_mono: "valid_ref i count \<Longrightarrow> count \<le> count' \<Longrightarrow> valid_ref i count'"
  by (auto simp: valid_ref_def)

lemma node_ok_mono: "node_ok count n \<Longrightarrow> count \<le> count' \<Longrightarrow> node_ok count' n"
proof -
  have "value_ok count v \<Longrightarrow> count \<le> count' \<Longrightarrow> value_ok count' v" for v by (cases v) (auto intro: valid_ref_mono)
  then show "node_ok count n \<Longrightarrow> count \<le> count' \<Longrightarrow> node_ok count' n"
    by (cases n) (auto simp: cell_ok_def intro: valid_ref_mono)
qed

text \<open>A page that reads under a shorter prefix reads the same under a longer one.\<close>

lemma kind_shape:
  assumes "(if a then r1 else if b then if c then Inl x else if d then r2 else if e \<or> \<not> v then Inl y else Inr ()
     else if f then if g \<or> h \<or> k \<or> l \<or> m \<or> (n \<and> \<not> v) \<or> z then Inl w else Inr () else r3) = Inr ()" "v \<Longrightarrow> v'"
  shows "(if a then r1 else if b then if c then Inl x else if d then r2 else if e \<or> \<not> v' then Inl y else Inr ()
     else if f then if g \<or> h \<or> k \<or> l \<or> m \<or> (n \<and> \<not> v') \<or> z then Inl w else Inr () else r3) = Inr ()"
  using assms by (cases v; simp; cases v'; simp split: if_splits)

lemma check_kind_mono: "check_kind p i count = Inr () \<Longrightarrow> count \<le> count' \<Longrightarrow> check_kind p i count' = Inr ()"
  unfolding check_kind_def Let_def by (erule kind_shape) (erule valid_ref_mono)

lemma validate_header_check:
  "validate_header crc p i tree count = Inr () \<Longrightarrow> check_kind p i count = Inr ()"
  by (simp add: validate_header_def Let_def split: if_split_asm)

lemma validate_header_mono:
  assumes "validate_header crc p i tree count = Inr ()" "count \<le> count'"
  shows "validate_header crc p i tree count' = Inr ()"
  using assms check_kind_mono[OF validate_header_check[OF assms(1)] assms(2)]
  by (simp add: validate_header_def Let_def split: if_split_asm)

lemma read_slots_mono:
  "read_slots p count leaf upper n index fin keys cells children = Inr r \<Longrightarrow> count \<le> count' \<Longrightarrow>
   read_slots p count' leaf upper n index fin keys cells children = Inr r"
proof (induction n arbitrary: index fin keys cells children)
  case (Suc n)
  have "read_stored cell len k count = Inr v \<Longrightarrow> read_stored cell len k count' = Inr v"
    "read_child cell len k count = Inr ch \<Longrightarrow> read_child cell len k count' = Inr ch" for cell len k v ch
    using Suc.prems(2) valid_ref_mono[of _ count count'] by (auto simp: read_stored_def read_child_def Let_def split: if_splits)
  then show ?case using Suc by (cases leaf) (force simp: rbind_eq_Inr)+
qed simp

lemma decode_node_mono: "decode_node_page p count = Inr n \<Longrightarrow> count \<le> count' \<Longrightarrow> decode_node_page p count' = Inr n"
  unfolding decode_node_page_def Let_def by (auto simp: rbind_eq_Inr dest: read_slots_mono split: if_splits)

subsection \<open>The append-only file\<close>

definition page_at :: "os_file \<Rightarrow> u64 \<Rightarrow> bytes" where
  "page_at file i = take PAGE_SIZE (drop (unat i * PAGE_SIZE) (of_data file))"

text \<open>The readable prefix is complete, and the next page lies beyond every byte of the file.\<close>

definition file_ok :: "page_file \<Rightarrow> bool" where
  "file_ok f \<longleftrightarrow> 1 \<le> pr_count (pf_reader f) \<and> pr_count (pf_reader f) \<le> pf_next f \<and>
     unat (pr_count (pf_reader f)) * PAGE_SIZE \<le> length (of_data (pr_file (pf_reader f))) \<and>
     length (of_data (pr_file (pf_reader f))) \<le> unat (pf_next f) * PAGE_SIZE"

text \<open>A later state of the file: it still holds the pages of the earlier prefix.\<close>

definition later :: "page_file \<Rightarrow> page_file \<Rightarrow> bool" where
  "later f f' \<longleftrightarrow> pr_count (pf_reader f) \<le> pr_count (pf_reader f') \<and>
     of_read (pr_file (pf_reader f')) = of_read (pr_file (pf_reader f)) \<and>
     of_write (pr_file (pf_reader f')) = of_write (pr_file (pf_reader f)) \<and>
     (\<forall>i < pr_count (pf_reader f). page_at (pr_file (pf_reader f')) i = page_at (pr_file (pf_reader f)) i)"

lemma later_refl [simp]: "later f f"
  by (simp add: later_def)

lemma later_trans [trans]: "later f g \<Longrightarrow> later g h \<Longrightarrow> later f h"
  by (auto simp: later_def)

lemma page_offset: "i < count \<Longrightarrow> unat i * PAGE_SIZE + PAGE_SIZE \<le> unat (count :: u64) * PAGE_SIZE"
proof -
  assume "i < count"
  then have "Suc (unat i) \<le> unat count" by (simp add: word_less_nat_alt)
  from mult_le_mono1[OF this, of PAGE_SIZE] show ?thesis by simp
qed

lemma write_at_window:
  assumes "length bs \<le> offset"
  shows "a + n \<le> length bs \<Longrightarrow> take n (drop a (write_at offset x bs)) = take n (drop a bs)"
    "take (length x) (drop offset (write_at offset x bs)) = x"
    "length (write_at offset x bs) = offset + length x"
  using assms by (auto simp: write_at_def take_drop)

lemma reader_read_eq:
  "reader_read crc r i tree =
     (if i \<ge> pr_count r \<or> (i = 0) \<noteq> (tree = None) then Inl (Corrupt m_page_prefix) else
      case of_read (pr_file r) i of
        Some e \<Rightarrow> Inl e
      | None \<Rightarrow>
          if length (page_at (pr_file r) i) < PAGE_SIZE then Inl (Corrupt m_page_short)
          else rbind (validate_header crc (page_at (pr_file r) i) i tree (pr_count r)) (\<lambda>_. Inr (page_at (pr_file r) i)))"
  unfolding reader_read_def page_at_def Let_def by (rule refl)

text \<open>A reader pinned to the earlier prefix reads the same from the later file.\<close>

lemma pinned_read:
  assumes "later f f'"
  shows "reader_read crc \<lparr>pr_file = pr_file (pf_reader f'), pr_count = pr_count (pf_reader f)\<rparr> i tree = reader_read crc (pf_reader f) i tree"
proof (cases "i \<ge> pr_count (pf_reader f) \<or> (i = 0) \<noteq> (tree = None)")
  case True
  then show ?thesis unfolding reader_read_eq by (simp only: page_reader.simps if_True)
next
  case False
  then show ?thesis using assms unfolding reader_read_eq page_reader.simps by (simp only: if_False later_def not_le de_Morgan_disj)
qed

lemma later_read:
  assumes "later f f'" "reader_read crc (pf_reader f) i tree = Inr bs"
  shows "reader_read crc (pf_reader f') i tree = Inr bs"
proof -
  have i: "i < pr_count (pf_reader f)" "(i = 0) = (tree = None)" "of_read (pr_file (pf_reader f)) i = None"
    "PAGE_SIZE \<le> length (page_at (pr_file (pf_reader f)) i)" "bs = page_at (pr_file (pf_reader f)) i"
    "validate_header crc bs i tree (pr_count (pf_reader f)) = Inr ()"
    using assms(2) by (auto simp: reader_read_eq rbind_eq_Inr not_le not_less split: if_splits option.splits)
  moreover have "validate_header crc bs i tree (pr_count (pf_reader f')) = Inr ()"
    using assms(1) by (intro validate_header_mono[OF i(6)]) (simp add: later_def)
  ultimately show ?thesis using assms(1) by (auto simp: reader_read_eq later_def not_le)
qed

lemma later_node: "later f f' \<Longrightarrow> reader_node crc (pf_reader f) tree i = Inr n \<Longrightarrow> reader_node crc (pf_reader f') tree i = Inr n"
  unfolding reader_node_def rbind_eq_Inr using later_read decode_node_mono by (metis later_def)

lemma later_overflow:
  assumes "later f f'"
  shows "overflow_pages crc (pf_reader f) tree i n owned out = Inr r \<Longrightarrow> overflow_pages crc (pf_reader f') tree i n owned out = Inr r"
proof (induction n arbitrary: i owned out rule: less_induct)
  case (less n)
  show ?case
  proof (cases "n = 0")
    case True
    then show ?thesis using less.prems by (simp add: overflow_pages.simps)
  next
    case False
    let ?len = "min n PAYLOAD_SIZE"
    obtain bs where bs: "i \<notin> owned" "reader_read crc (pf_reader f) i (Some tree) = Inr bs" "bs ! 6 = 3" "unat (u32_at bs 40) = ?len"
      "(u64_at bs 32 = 0) = (n - ?len = 0)"
      "overflow_pages crc (pf_reader f) tree (u64_at bs 32) (n - ?len) (insert i owned) (out @ take ?len (drop 64 bs)) = Inr r"
      using less.prems False by (subst (asm) overflow_pages.simps) (auto simp: rbind_eq_Inr Let_def split: if_splits)
    have "n - ?len < n" using False by (auto simp: PAYLOAD_SIZE_def PAGE_SIZE_def HEADER_SIZE_def)
    from less.IH[OF this bs(6)] show ?thesis
      using bs later_read[OF assms bs(2)] False by (subst overflow_pages.simps) (simp add: Let_def)
  qed
qed

lemma later_value: "later f f' \<Longrightarrow> reader_value crc (pf_reader f) tree v = Inr bs \<Longrightarrow> reader_value crc (pf_reader f') tree v = Inr bs"
  by (cases v) (auto simp: reader_value_def walk_overflow_def rbind_eq_Inr dest: later_overflow split: if_splits)

lemma shared_node_eq: "shared_node crc r tree i = reader_node crc r tree i"
  by (auto simp: shared_node_def reader_node_def reader_read_def valid_ref_def)

lemma reader_node_ok: "reader_node crc r tree i = Inr n \<Longrightarrow> node_ok (pr_count r) n"
proof -
  assume "reader_node crc r tree i = Inr n"
  then obtain p where p: "reader_read crc r i (Some tree) = Inr p" "decode_node_page p (pr_count r) = Inr n"
    by (auto simp: reader_node_def rbind_eq_Inr)
  then have "length p = PAGE_SIZE" "validate_header crc p i (Some tree) (pr_count r) = Inr ()"
    by (auto simp: reader_read_def Let_def rbind_eq_Inr split: if_splits option.splits)
  then show "node_ok (pr_count r) n" using p(2) by (auto intro: decode_node_ok dest: validate_header_check)
qed

lemma next_page_unat: "(i :: u64) < MAX_PAGES \<Longrightarrow> unat (i + 1) = Suc (unat i)"
  by (rule Word.unat_word_ariths(1)[THEN trans]) (simp add: word_less_nat_alt MAX_PAGES_def)

lemma append_page_spec:
  assumes "file_ok f" "length bs = PAGE_SIZE" "append_page crc bs f = (r, f')"
  shows "file_ok f'" "later f f'" "pf_next f \<le> pf_next f'"
    "r = Inr i \<Longrightarrow> i = pf_next f \<and> i \<noteq> 0 \<and> pr_count (pf_reader f) \<le> i \<and> i < pr_count (pf_reader f') \<and> pr_count (pf_reader f') = pf_next f'
      \<and> page_at (pr_file (pf_reader f')) i = checksum crc (blit 8 (u64_le i) bs) \<and> pf_poisoned f' = pf_poisoned f"
proof -
  let ?data = "of_data (pr_file (pf_reader f))" and ?i = "pf_next f"
  let ?p = "checksum crc (blit 8 (u64_le ?i) bs)"
  have F: "1 \<le> pr_count (pf_reader f)" "pr_count (pf_reader f) \<le> ?i" "unat (pr_count (pf_reader f)) * PAGE_SIZE \<le> length ?data"
    "length ?data \<le> unat ?i * PAGE_SIZE" using assms(1) by (simp_all add: file_ok_def)
  have p: "length ?p = PAGE_SIZE" using stamped_fields(1)[OF assms(2)] by simp
  have keep: "page_at (pr_file (pf_reader f)\<lparr>of_data := write_at (unat ?i * PAGE_SIZE) x ?data\<rparr>) j = page_at (pr_file (pf_reader f)) j"
    if "j < pr_count (pf_reader f)" for x j
    using page_offset[OF that] F(3,4) by (simp add: page_at_def write_at_window(1))
  have "file_ok f' \<and> later f f' \<and> pf_next f \<le> pf_next f' \<and>
    (\<forall>i. r = Inr i \<longrightarrow> i = ?i \<and> i \<noteq> 0 \<and> pr_count (pf_reader f) \<le> i \<and> i < pr_count (pf_reader f') \<and> pr_count (pf_reader f') = pf_next f'
      \<and> page_at (pr_file (pf_reader f')) i = checksum crc (blit 8 (u64_le i) bs) \<and> pf_poisoned f' = pf_poisoned f)"
  proof (cases "pf_poisoned f \<or> ?i \<ge> MAX_PAGES")
    case True
    then show ?thesis using assms(1,3) by (auto simp: append_page_def split: if_splits)
  next
    case False
    then have next_i: "unat (?i + 1) = Suc (unat ?i)" by (intro next_page_unat) auto
    then have grow: "?i < ?i + 1" "1 \<le> ?i + 1" "?i \<le> ?i + 1"
      by (simp_all add: word_less_nat_alt word_le_nat_alt)
    have i0: "?i \<noteq> 0" using F(1,2) by auto
    show ?thesis
    proof (cases "of_write (pr_file (pf_reader f)) ?i")
      case None
      then have rf: "r = Inr ?i" "f' = f\<lparr>pf_next := ?i + 1, pf_reader := \<lparr>pr_file = pr_file (pf_reader f)\<lparr>of_data := write_at (unat ?i * PAGE_SIZE) ?p ?data\<rparr>,
          pr_count = ?i + 1\<rparr>\<rparr>"
        using assms(3) False by (auto simp: append_page_def Let_def)
      have len: "length (write_at (unat ?i * PAGE_SIZE) ?p ?data) = unat (?i + 1) * PAGE_SIZE"
        using write_at_window(3)[OF F(4)] p next_i by simp
      then have "file_ok f'" using grow by (simp add: file_ok_def rf(2))
      moreover have "later f f'" using keep F(2) grow(3) by (simp add: later_def rf(2))
      moreover have "page_at (pr_file (pf_reader f')) ?i = ?p"
        using write_at_window(2)[OF F(4), of ?p] p by (simp add: page_at_def rf(2))
      ultimately show ?thesis using rf grow i0 F(2) by simp
    next
      case (Some en)
      then have rf: "r = Inl (fst en)" "f' = f\<lparr>pf_next := ?i + 1, pf_poisoned := True,
          pf_reader := (pf_reader f)\<lparr>pr_file := pr_file (pf_reader f)\<lparr>of_data := write_at (unat ?i * PAGE_SIZE) (take (snd en) ?p) ?data\<rparr>\<rparr>\<rparr>"
        using assms(3) False by (auto simp: append_page_def Let_def split: prod.splits)
      have "length (write_at (unat ?i * PAGE_SIZE) (take (snd en) ?p) ?data) \<le> unat (?i + 1) * PAGE_SIZE"
        using write_at_window(3)[OF F(4)] p next_i by simp
      moreover have "unat (pr_count (pf_reader f)) * PAGE_SIZE \<le> length (write_at (unat ?i * PAGE_SIZE) (take (snd en) ?p) ?data)"
        using write_at_window(3)[OF F(4), of "take (snd en) ?p"] F(3,4) by simp
      ultimately have "file_ok f'" using F(1,2) grow(3) by (simp add: file_ok_def rf(2))
      moreover have "later f f'" using keep by (simp add: later_def rf(2))
      ultimately show ?thesis using rf grow by simp
    qed
  qed
  then show "file_ok f'" "later f f'" "pf_next f \<le> pf_next f'"
    "r = Inr i \<Longrightarrow> i = pf_next f \<and> i \<noteq> 0 \<and> pr_count (pf_reader f) \<le> i \<and> i < pr_count (pf_reader f') \<and> pr_count (pf_reader f') = pf_next f'
      \<and> page_at (pr_file (pf_reader f')) i = checksum crc (blit 8 (u64_le i) bs) \<and> pf_poisoned f' = pf_poisoned f"
    by blast+
qed

definition readable :: "page_file \<Rightarrow> bool" where
  "readable f \<longleftrightarrow> (\<forall>i. of_read (pr_file (pf_reader f)) i = None)"

lemma later_readable: "later f f' \<Longrightarrow> readable f \<Longrightarrow> readable f'"
  by (simp add: later_def readable_def)

lemma read_written:
  assumes "readable f" "i < pr_count (pf_reader f)" "i \<noteq> 0" "page_at (pr_file (pf_reader f)) i = p" "length p = PAGE_SIZE"
    "validate_header crc p i (Some tree) (pr_count (pf_reader f)) = Inr ()"
  shows "reader_read crc (pf_reader f) i (Some tree) = Inr p"
  using assms by (simp add: reader_read_eq readable_def not_le[symmetric])

lemma encode_node_length: "encode_node tree n = Inr bs \<Longrightarrow> length bs = PAGE_SIZE"
  by (erule encode_node_page) simp

lemma append_node_spec:
  assumes "file_ok f" "append_node crc tree n f = (r, f')"
  shows "file_ok f'" "later f f'" "pf_next f \<le> pf_next f'"
    "r = Inr i \<Longrightarrow> readable f \<Longrightarrow> node_ok (pr_count (pf_reader f')) n \<Longrightarrow> reader_node crc (pf_reader f') tree i = Inr n"
    "r = Inr i \<Longrightarrow> i = pf_next f \<and> valid_ref i (pr_count (pf_reader f')) \<and> pr_count (pf_reader f) \<le> i \<and> pr_count (pf_reader f') = pf_next f' \<and> pf_poisoned f' = pf_poisoned f"
proof -
  have "file_ok f' \<and> later f f' \<and> pf_next f \<le> pf_next f' \<and>
    (\<forall>i. r = Inr i \<longrightarrow> i = pf_next f \<and> valid_ref i (pr_count (pf_reader f')) \<and> pr_count (pf_reader f) \<le> i \<and> pr_count (pf_reader f') = pf_next f' \<and>
      pf_poisoned f' = pf_poisoned f \<and>
      (readable f \<longrightarrow> node_ok (pr_count (pf_reader f')) n \<longrightarrow> reader_node crc (pf_reader f') tree i = Inr n))"
  proof (cases "encode_node tree n")
    case (Inl e)
    then show ?thesis using assms by (auto simp: append_node_def pbind_def plift_def)
  next
    case (Inr bs)
    then have a: "append_page crc bs f = (r, f')" using assms(2) by (simp add: append_node_def pbind_def plift_def)
    note S = append_page_spec[OF assms(1) encode_node_length[OF Inr] a]
    have "reader_node crc (pf_reader f') tree i = Inr n" if "r = Inr i" "readable f" "node_ok (pr_count (pf_reader f')) n" for i
    proof -
      let ?p = "checksum crc (blit 8 (u64_le i) bs)"
      have i: "i \<noteq> 0" "i < pr_count (pf_reader f')" "page_at (pr_file (pf_reader f')) i = ?p" using S(4)[OF that(1)] by blast+
      note V = node_page_valid[OF that(3) Inr i(1), of crc]
      have "reader_read crc (pf_reader f') i (Some tree) = Inr ?p"
        using later_readable[OF S(2) that(2)] i V(1) stamped_fields(1)[OF encode_node_length[OF Inr]] by (intro read_written) auto
      then show ?thesis using V(2) by (simp add: reader_node_def)
    qed
    then show ?thesis using S unfolding valid_ref_def by blast
  qed
  then show "file_ok f'" "later f f'" "pf_next f \<le> pf_next f'"
    "r = Inr i \<Longrightarrow> readable f \<Longrightarrow> node_ok (pr_count (pf_reader f')) n \<Longrightarrow> reader_node crc (pf_reader f') tree i = Inr n"
    "r = Inr i \<Longrightarrow> i = pf_next f \<and> valid_ref i (pr_count (pf_reader f')) \<and> pr_count (pf_reader f) \<le> i \<and> pr_count (pf_reader f') = pf_next f' \<and> pf_poisoned f' = pf_poisoned f"
    by blast+
qed

subsection \<open>Overflow chains\<close>

lemma overflow_page_fields:
  assumes "length chunk \<le> PAYLOAD_SIZE"
  shows "length (overflow_page tree head chunk) = PAGE_SIZE" "take 4 (overflow_page tree head chunk) = BLP1"
    "u16_at (overflow_page tree head chunk) 4 = 1" "overflow_page tree head chunk ! 6 = 3" "overflow_page tree head chunk ! 7 = 0"
    "u32_at (overflow_page tree head chunk) 16 = tree_code tree" "u16_at (overflow_page tree head chunk) 20 = 0"
    "zeros_in 22 24 (overflow_page tree head chunk)" "u16_at (overflow_page tree head chunk) 24 = 64"
    "u16_at (overflow_page tree head chunk) 26 = 16384" "zeros_in 28 32 (overflow_page tree head chunk)"
    "u64_at (overflow_page tree head chunk) 32 = head" "u32_at (overflow_page tree head chunk) 40 = of_nat (length chunk)"
    "zeros_in 44 60 (overflow_page tree head chunk)" "zeros_in (64 + length chunk) PAGE_SIZE (overflow_page tree head chunk)"
    "take (length chunk) (drop 64 (overflow_page tree head chunk)) = chunk"
  using assms by (simp_all add: overflow_page_def Let_def PAYLOAD_SIZE_def PAGE_SIZE_def HEADER_SIZE_def page_simps)

lemma overflow_page_valid:
  fixes i :: u64 and crc :: "bytes \<Rightarrow> u32" and tree :: tree_id
  assumes "1 \<le> length chunk" "length chunk \<le> PAYLOAD_SIZE" "head = 0 \<or> valid_ref head count" "i \<noteq> 0"
  defines "p \<equiv> checksum crc (blit 8 (u64_le i) (overflow_page tree head chunk))"
  shows "validate_header crc p i (Some tree) count = Inr ()" "p ! 6 = 3" "unat (u32_at p 40) = length chunk" "u64_at p 32 = head"
    "take (length chunk) (drop 64 p) = chunk"
proof -
  note E = overflow_page_fields[OF assms(2), of tree head]
  note S = stamped_fields[OF E(1), where crc = crc and i = i, folded p_def]
  have same: "u16_at p 4 = 1" "p ! 6 = 3" "p ! 7 = 0" "u32_at p 16 = tree_code tree" "u16_at p 20 = 0"
    "u16_at p 24 = 64" "u16_at p 26 = 16384" "u64_at p 32 = head" "u32_at p 40 = of_nat (length chunk)"
    using window_uint(1)[OF S(4)[of 4 2]] window_nth[OF S(4)[of 6 1]] window_nth[OF S(4)[of 7 1]]
      window_uint(2)[OF S(4)[of 16 4]] window_uint(1)[OF S(4)[of 20 2]] window_uint(1)[OF S(4)[of 24 2]]
      window_uint(1)[OF S(4)[of 26 2]] window_uint(3)[OF S(4)[of 32 8]] window_uint(2)[OF S(4)[of 40 4]] E S(1)
    by (simp_all add: PAGE_SIZE_def)
  have clear: "zeros_in a b p \<longleftrightarrow> zeros_in a b (overflow_page tree head chunk)" if "a \<le> b" "16 \<le> a" "b \<le> 60 \<or> 64 \<le> a" for a b
    using that by (intro window_zeros S(4)) auto
  have magic: "take 4 p = BLP1" using S(4)[of 0 4] E(2) by simp
  show len: "unat (u32_at p 40) = length chunk"
    unfolding same using assms(2) by (intro unat_u32) (simp add: PAYLOAD_SIZE_def PAGE_SIZE_def HEADER_SIZE_def)
  have "64 + length chunk \<le> PAGE_SIZE" using assms(2) by (simp add: PAYLOAD_SIZE_def PAGE_SIZE_def HEADER_SIZE_def)
  then have "zeros_in (64 + length chunk) PAGE_SIZE p" using E(15) clear[of "64 + length chunk" PAGE_SIZE] by simp
  then have "check_kind p i count = Inr ()"
    unfolding check_kind_def Let_def len using assms(1-4) by (auto simp: same PAGE_SIZE_def)
  then show "validate_header crc p i (Some tree) count = Inr ()"
    using S(2,3) same magic clear E(8,11,14) by (simp add: validate_header_def Let_def)
  show "p ! 6 = 3" "u64_at p 32 = head" by (fact same)+
  show "take (length chunk) (drop 64 p) = chunk" using S(4)[of 64 "length chunk"] E(16) by simp
qed

text \<open>The chain at \<open>head\<close> holds \<open>bs\<close>, whatever later pages were visited before.\<close>

definition chain :: "(bytes \<Rightarrow> u32) \<Rightarrow> page_file \<Rightarrow> tree_id \<Rightarrow> u64 \<Rightarrow> bytes \<Rightarrow> bool" where
  "chain crc f tree head bs \<longleftrightarrow>
     (if bs = [] then head = 0 else valid_ref head (pr_count (pf_reader f)) \<and>
        (\<forall>owned out. (\<forall>x \<in> owned. head < x) \<longrightarrow>
           (\<exists>owned'. overflow_pages crc (pf_reader f) tree head (length bs) owned out = Inr (owned', out @ bs))))"

lemma chain_later: "chain crc f tree head bs \<Longrightarrow> later f f' \<Longrightarrow> chain crc f' tree head bs"
proof -
  assume c: "chain crc f tree head bs" and l: "later f f'"
  show "chain crc f' tree head bs"
  proof (cases "bs = []")
    case True
    then show ?thesis using c by (simp add: chain_def)
  next
    case False
    then have c': "valid_ref head (pr_count (pf_reader f))"
      "\<forall>owned out. (\<forall>x \<in> owned. head < x) \<longrightarrow> (\<exists>owned'. overflow_pages crc (pf_reader f) tree head (length bs) owned out = Inr (owned', out @ bs))"
      using c by (simp_all add: chain_def)
    have "valid_ref head (pr_count (pf_reader f'))" using l by (intro valid_ref_mono[OF c'(1)]) (simp add: later_def)
    moreover have "\<exists>owned'. overflow_pages crc (pf_reader f') tree head (length bs) owned out = Inr (owned', out @ bs)"
      if "\<forall>x \<in> owned. head < x" for owned out
    proof -
      obtain owned' where "overflow_pages crc (pf_reader f) tree head (length bs) owned out = Inr (owned', out @ bs)"
        using c'(2) \<open>\<forall>x \<in> owned. head < x\<close> by presburger
      from later_overflow[OF l this] show ?thesis by (rule exI)
    qed
    ultimately show ?thesis using False by (simp add: chain_def)
  qed
qed

lemma chain_cons:
  assumes "file_ok f" "readable f" "chain crc f tree head bs" "1 \<le> length chunk" "length chunk \<le> PAYLOAD_SIZE"
    "bs \<noteq> [] \<Longrightarrow> length chunk = PAYLOAD_SIZE" "append_page crc (overflow_page tree head chunk) f = (Inr i, f')"
  shows "chain crc f' tree i (chunk @ bs)"
proof -
  let ?p = "checksum crc (blit 8 (u64_le i) (overflow_page tree head chunk))"
  note len = overflow_page_fields(1)[OF assms(5), of tree head]
  note S = append_page_spec[OF assms(1) len assms(7)]
  have i: "i \<noteq> 0" "i < pr_count (pf_reader f')" "page_at (pr_file (pf_reader f')) i = ?p" "pr_count (pf_reader f) \<le> i"
    using S(4)[OF refl] by blast+
  have head: "head = 0 \<or> valid_ref head (pr_count (pf_reader f'))" "bs \<noteq> [] \<Longrightarrow> head < i" "head = 0 \<longleftrightarrow> bs = []"
    using assms(3) chain_later[OF assms(3) S(2)] i(4) by (auto simp: chain_def valid_ref_def split: if_splits)
  note V = overflow_page_valid[OF assms(4,5) head(1) i(1), where crc = crc and tree = tree]
  have read: "reader_read crc (pf_reader f') i (Some tree) = Inr ?p"
    using later_readable[OF S(2) assms(2)] i V(1) stamped_fields(1)[OF len] by (intro read_written) auto
  have rem: "min (length (chunk @ bs)) PAYLOAD_SIZE = length chunk" "length (chunk @ bs) - length chunk = length bs"
    using assms(4-6) by (cases "bs = []"; simp)+
  have "\<exists>owned'. overflow_pages crc (pf_reader f') tree i (length (chunk @ bs)) owned out = Inr (owned', out @ chunk @ bs)"
    if "\<forall>x \<in> owned. i < x" for owned out
  proof -
    have "overflow_pages crc (pf_reader f') tree i (length (chunk @ bs)) owned out =
        overflow_pages crc (pf_reader f') tree head (length bs) (insert i owned) (out @ chunk)"
      using that read V assms(4) rem head(3) by (subst overflow_pages.simps) (auto simp: Let_def)
    moreover have "\<exists>owned'. overflow_pages crc (pf_reader f') tree head (length bs) (insert i owned) (out @ chunk) = Inr (owned', (out @ chunk) @ bs)"
    proof (cases "bs = []")
      case True
      then show ?thesis by (simp add: overflow_pages.simps)
    next
      case False
      then have "\<forall>x \<in> insert i owned. head < x" using head(2) that by (auto intro: less_trans)
      then show ?thesis using chain_later[OF assms(3) S(2)] False unfolding chain_def by (simp del: append_assoc)
    qed
    ultimately show ?thesis by simp
  qed
  then show ?thesis using i(1,2) assms(4) by (auto simp: chain_def valid_ref_def)
qed

subsection \<open>Operations on the file\<close>

text \<open>Whatever their result, operations keep the file well formed and its earlier pages.\<close>

definition op_ok :: "'a paged \<Rightarrow> bool" where
  "op_ok m \<longleftrightarrow> (\<forall>f r f'. file_ok f \<longrightarrow> m f = (r, f') \<longrightarrow> file_ok f' \<and> later f f')"

text \<open>With a platform that answers no write with a failure, an operation fails only for want of page IDs.\<close>

definition healthy :: "page_file \<Rightarrow> bool" where
  "healthy f \<longleftrightarrow> \<not> pf_poisoned f \<and> (\<forall>i. of_write (pr_file (pf_reader f)) i = None)"

named_theorems paged_intros \<open>operations that keep the file well formed\<close>

lemma op_okI: "(\<And>f r f'. file_ok f \<Longrightarrow> m f = (r, f') \<Longrightarrow> file_ok f' \<and> later f f') \<Longrightarrow> op_ok m"
  by (simp add: op_ok_def)

lemma op_okD: "op_ok m \<Longrightarrow> file_ok f \<Longrightarrow> m f = (r, f') \<Longrightarrow> file_ok f'" "op_ok m \<Longrightarrow> file_ok f \<Longrightarrow> m f = (r, f') \<Longrightarrow> later f f'"
  unfolding op_ok_def by blast+

lemma op_ok_pbind [paged_intros]: "op_ok m \<Longrightarrow> (\<And>x. op_ok (g x)) \<Longrightarrow> op_ok (pbind m g)"
proof (rule op_okI)
  fix f r f'
  assume m: "op_ok m" and g: "\<And>x. op_ok (g x)" and f: "file_ok f" and b: "pbind m g f = (r, f')"
  obtain r1 f1 where 1: "m f = (r1, f1)" by force
  note ok = op_okD[OF m f 1]
  show "file_ok f' \<and> later f f'"
  proof (cases r1)
    case (Inl e)
    then show ?thesis using b 1 ok by (simp add: pbind_def)
  next
    case (Inr x)
    then have "g x f1 = (r, f')" using b 1 by (simp add: pbind_def)
    then show ?thesis using op_okD[OF g ok(1)] ok(2) later_trans by blast
  qed
qed

lemma op_ok_pure [paged_intros, simp]: "op_ok (pret x)" "op_ok (plift r)"
  by (auto simp: op_ok_def pret_def plift_def)

lemma op_ok_if [paged_intros]: "(c \<Longrightarrow> op_ok a) \<Longrightarrow> (\<not> c \<Longrightarrow> op_ok b) \<Longrightarrow> op_ok (if c then a else b)"
  by simp

lemma op_ok_append_node [paged_intros]: "op_ok (append_node crc tree n)"
  by (rule op_okI) (metis append_node_spec(1,2))

lemma append_page_healthy:
  assumes "healthy f" "append_page crc bs f = (r, f')"
  shows "healthy f'" "r = Inl e \<Longrightarrow> e = Exhausted"
  using assms by (auto simp: append_page_def healthy_def Let_def split: if_splits)

lemma append_node_healthy:
  assumes "healthy f" "append_node crc tree n f = (r, f')" "node_ok count n"
  shows "healthy f'" "r = Inl e \<Longrightarrow> e = Exhausted"
  using assms encode_node_total[OF assms(3), of tree] append_page_healthy[OF assms(1)]
  by (auto simp: append_node_def pbind_def plift_def is_ok_iff)

lemma store_chunks_spec:
  assumes "file_ok f" "readable f" "chain crc f tree head bs" "\<forall>c \<in> set cs. 1 \<le> length c \<and> length c \<le> PAYLOAD_SIZE"
    "\<forall>c \<in> set (tl cs). length c = PAYLOAD_SIZE" "bs \<noteq> [] \<Longrightarrow> \<forall>c \<in> set cs. length c = PAYLOAD_SIZE"
    "store_chunks crc tree cs head f = (r, f')"
  shows "file_ok f' \<and> later f f' \<and> (\<forall>h. r = Inr h \<longrightarrow> chain crc f' tree h (concat (rev cs) @ bs)) \<and>
    (healthy f \<longrightarrow> healthy f' \<and> (\<forall>e. r = Inl e \<longrightarrow> e = Exhausted))"
  using assms
proof (induction cs arbitrary: head bs f)
  case (Cons c cs)
  have c: "1 \<le> length c" "length c \<le> PAYLOAD_SIZE" "bs \<noteq> [] \<Longrightarrow> length c = PAYLOAD_SIZE"
    using Cons.prems(4,6) by auto
  obtain r1 f1 where 1: "append_page crc (overflow_page tree head c) f = (r1, f1)" by force
  note S = append_page_spec[OF Cons.prems(1) overflow_page_fields(1)[OF c(2)] 1]
  note H = append_page_healthy[OF _ 1]
  show ?case
  proof (cases r1)
    case (Inl e)
    then show ?thesis using Cons.prems(7) 1 S(1,2) H by (auto simp: pbind_def)
  next
    case (Inr h)
    then have rest: "store_chunks crc tree cs h f1 = (r, f')" using Cons.prems(7) 1 by (simp add: pbind_def)
    have "chain crc f1 tree h (c @ bs)" using chain_cons[OF Cons.prems(1-3) c] 1 Inr by simp
    moreover have "\<forall>x \<in> set (tl cs). length x = PAYLOAD_SIZE" using Cons.prems(5) by (cases cs) auto
    ultimately have "file_ok f' \<and> later f1 f' \<and> (\<forall>h. r = Inr h \<longrightarrow> chain crc f' tree h (concat (rev cs) @ c @ bs)) \<and>
      (healthy f1 \<longrightarrow> healthy f' \<and> (\<forall>e. r = Inl e \<longrightarrow> e = Exhausted))"
      using Cons.prems(4,5) S(1) later_readable[OF S(2) Cons.prems(2)] rest by (intro Cons.IH) auto
    then show ?thesis using later_trans[OF S(2)] H(1) by auto
  qed
qed auto

lemma chunks_of_Nil [simp]: "chunks_of n [] = []"
  by (subst chunks_of.simps) simp

lemma chunks_of_Cons: "bs \<noteq> [] \<Longrightarrow> 0 < n \<Longrightarrow> chunks_of n bs = take n bs # chunks_of n (drop n bs)"
  by (subst chunks_of.simps) simp

lemma chunks_of_concat: "0 < n \<Longrightarrow> concat (chunks_of n bs) = bs"
proof (induction bs rule: length_induct)
  case (1 bs)
  then show ?case by (cases "bs = []") (simp_all add: chunks_of_Cons)
qed

lemma chunks_of_lengths: "0 < n \<Longrightarrow> c \<in> set (chunks_of n bs) \<Longrightarrow> 1 \<le> length c \<and> length c \<le> n"
proof (induction bs rule: length_induct)
  case (1 bs)
  show ?case
  proof (cases "bs = []")
    case False
    then have "c = take n bs \<or> c \<in> set (chunks_of n (drop n bs))" "length (drop n bs) < length bs" "1 \<le> length bs"
      using "1.prems" by (simp_all add: chunks_of_Cons Suc_le_eq)
    then show ?thesis using "1.IH"[rule_format, of "drop n bs"] "1.prems"(1) by auto
  qed (use "1.prems" in simp)
qed

lemma chunks_of_full: "0 < n \<Longrightarrow> c \<in> set (butlast (chunks_of n bs)) \<Longrightarrow> length c = n"
proof (induction bs rule: length_induct)
  case (1 bs)
  show ?case
  proof (cases "length bs \<le> n")
    case True
    then show ?thesis using "1.prems" by (cases "bs = []") (simp_all add: chunks_of_Cons)
  next
    case False
    then have ne: "bs \<noteq> []" "drop n bs \<noteq> []" by auto
    then have "c = take n bs \<or> c \<in> set (butlast (chunks_of n (drop n bs)))" "length (drop n bs) < length bs"
      using "1.prems" chunks_of_Cons[OF ne(1) "1.prems"(1)] by (auto split: if_splits)
    then show ?thesis using "1.IH"[rule_format, of "drop n bs"] "1.prems"(1) False by auto
  qed
qed

lemma tl_rev: "tl (rev xs) = rev (butlast xs)"
  by (cases xs rule: rev_cases) auto

lemma chainD:
  assumes "chain crc f tree head bs" "bs \<noteq> []"
  shows "valid_ref head (pr_count (pf_reader f))"
    "\<forall>x \<in> owned. head < x \<Longrightarrow> \<exists>owned'. overflow_pages crc (pf_reader f) tree head (length bs) owned out = Inr (owned', out @ bs)"
  using assms by (simp_all add: chain_def)

lemma store_value_spec:
  assumes "file_ok f" "readable f" "store_value crc tree v f = (r, f')"
  shows "file_ok f'" "later f f'"
    "r = Inr sv \<Longrightarrow> value_ok (pr_count (pf_reader f')) sv \<and> reader_value crc (pf_reader f') tree sv = Inr v"
    "healthy f \<Longrightarrow> length v \<le> MAX_VALUE \<Longrightarrow> healthy f' \<and> (\<forall>e. r = Inl e \<longrightarrow> e = Exhausted)"
proof -
  have "file_ok f' \<and> later f f' \<and>
    (\<forall>sv. r = Inr sv \<longrightarrow> value_ok (pr_count (pf_reader f')) sv \<and> reader_value crc (pf_reader f') tree sv = Inr v) \<and>
    (healthy f \<longrightarrow> length v \<le> MAX_VALUE \<longrightarrow> healthy f' \<and> (\<forall>e. r = Inl e \<longrightarrow> e = Exhausted))"
  proof (cases "length v > MAX_VALUE \<or> length v \<le> INLINE_LIMIT")
    case True
    then show ?thesis using assms by (auto simp: store_value_def plift_def pret_def reader_value_def split: if_splits)
  next
    case False
    have pos: "0 < PAYLOAD_SIZE" by (simp add: PAYLOAD_SIZE_def PAGE_SIZE_def HEADER_SIZE_def)
    let ?cs = "rev (chunks_of PAYLOAD_SIZE v)"
    obtain r1 f1 where 1: "store_chunks crc tree ?cs 0 f = (r1, f1)" by force
    have v: "v \<noteq> []" using False by auto
    have "file_ok f1 \<and> later f f1 \<and> (\<forall>h. r1 = Inr h \<longrightarrow> chain crc f1 tree h (concat (rev ?cs) @ [])) \<and>
      (healthy f \<longrightarrow> healthy f1 \<and> (\<forall>e. r1 = Inl e \<longrightarrow> e = Exhausted))"
      using chunks_of_lengths[OF pos, of _ v] chunks_of_full[OF pos, of _ v] assms(1,2) 1
      by (intro store_chunks_spec) (auto simp: chain_def tl_rev)
    then have S: "file_ok f1" "later f f1" "healthy f \<Longrightarrow> healthy f1 \<and> (\<forall>e. r1 = Inl e \<longrightarrow> e = Exhausted)"
      "\<And>h. r1 = Inr h \<Longrightarrow> chain crc f1 tree h v" using chunks_of_concat[OF pos, of v] by auto
    have e: "(case r1 of Inl e \<Rightarrow> Inl e | Inr h \<Rightarrow> Inr (Overflow (length v) h), f1) = (r, f')"
      using assms(3) False 1 by (auto simp: store_value_def pbind_def pret_def split: sum.splits)
    show ?thesis
    proof (cases r1)
      case (Inl d)
      then show ?thesis using e S by auto
    next
      case (Inr h)
      then have c: "valid_ref h (pr_count (pf_reader f1))" "\<exists>owned'. overflow_pages crc (pf_reader f1) tree h (length v) {} [] = Inr (owned', [] @ v)"
        using chainD(1)[OF S(4)[OF Inr] v] chainD(2)[OF S(4)[OF Inr] v, of "{}" "[]"] by simp_all
      then show ?thesis using e S Inr False by (auto simp: reader_value_def walk_overflow_def)
    qed
  qed
  then show "file_ok f'" "later f f'"
    "r = Inr sv \<Longrightarrow> value_ok (pr_count (pf_reader f')) sv \<and> reader_value crc (pf_reader f') tree sv = Inr v"
    "healthy f \<Longrightarrow> length v \<le> MAX_VALUE \<Longrightarrow> healthy f' \<and> (\<forall>e. r = Inl e \<longrightarrow> e = Exhausted)"
    by blast+
qed

lemma op_ok_append_page: "length bs = PAGE_SIZE \<Longrightarrow> op_ok (append_page crc bs)"
  by (rule op_okI) (metis append_page_spec(1,2))

lemma op_ok_store_chunks: "\<forall>c \<in> set cs. length c \<le> PAYLOAD_SIZE \<Longrightarrow> op_ok (store_chunks crc tree cs head)"
proof (induction cs arbitrary: head)
  case Nil
  then show ?case by (auto simp: op_ok_def)
next
  case (Cons c cs)
  then have "op_ok (pbind (append_page crc (overflow_page tree head c)) (store_chunks crc tree cs))"
    by (intro op_ok_pbind op_ok_append_page overflow_page_fields(1)) auto
  then show ?case by (simp add: op_ok_def)
qed

lemma op_ok_store_value [paged_intros]: "op_ok (store_value crc tree v)"
  unfolding store_value_def
  by (intro paged_intros op_ok_store_chunks)
    (auto simp: PAYLOAD_SIZE_def PAGE_SIZE_def HEADER_SIZE_def dest: chunks_of_lengths[rotated])

lemma pf_create_ok:
  assumes "pf_create crc file database_id file_id = Inr f" "length database_id = 16"
  shows "file_ok f" "pr_count (pf_reader f) = 1" "of_read (pr_file (pf_reader f)) = of_read file" "\<not> pf_poisoned f"
    "of_write (pr_file (pf_reader f)) = of_write file"
  using assms
  by (auto simp: pf_create_def Let_def file_ok_def write_at_def PAGE_SIZE_def checksum_def page_header_def split: if_splits option.splits)

lemma pf_open_ok:
  assumes "pf_open crc file database_id file_id page_count = Inr f" "length (of_data file) < 2 ^ 64"
  shows "file_ok f" "pr_count (pf_reader f) = page_count" "\<not> pf_poisoned f"
proof -
  let ?n = "(length (of_data file) + PAGE_SIZE - 1) div PAGE_SIZE"
  have o: "1 \<le> page_count" "unat page_count * PAGE_SIZE \<le> length (of_data file)" "pr_count (pf_reader f) = page_count" "\<not> pf_poisoned f"
    "pf_next f = of_nat ?n" "pr_file (pf_reader f) = file"
    using assms(1) by (auto simp: pf_open_def Let_def rbind_eq_Inr split: if_splits)
  have "?n \<le> length (of_data file)"
    by (cases "of_data file = []") (simp_all add: PAGE_SIZE_def)
  then have "?n < 18446744073709551616" using assms(2) by simp
  then have n: "unat (pf_next f) = ?n" unfolding o(5) by (simp add: unat_of_nat)
  have "length (of_data file) \<le> ?n * PAGE_SIZE" "unat page_count \<le> ?n"
    using o(2) by (simp_all add: PAGE_SIZE_def)
  then show "file_ok f" using o n by (simp add: file_ok_def word_le_nat_alt)
  show "pr_count (pf_reader f) = page_count" "\<not> pf_poisoned f" by (fact o)+
qed

subsection \<open>Properties\<close>

text \<open>
  A node appended to the page file reads back as itself; every node and every value that
  read before still reads the same, and a reader pinned to the earlier prefix is unaffected.
\<close>

theorem append_node_reads_back:
  assumes "file_ok f" "readable f" "append_node crc tree n f = (Inr i, f')" "node_ok (pr_count (pf_reader f')) n"
  shows "reader_node crc (pf_reader f') tree i = Inr n \<and>
    (\<forall>t j m. reader_node crc (pf_reader f) t j = Inr m \<longrightarrow> reader_node crc (pf_reader f') t j = Inr m) \<and>
    (\<forall>t v bs. reader_value crc (pf_reader f) t v = Inr bs \<longrightarrow> reader_value crc (pf_reader f') t v = Inr bs) \<and>
    (\<forall>t j. reader_read crc \<lparr>pr_file = pr_file (pf_reader f'), pr_count = pr_count (pf_reader f)\<rparr> j t = reader_read crc (pf_reader f) j t)"
  using append_node_spec(4)[OF assms(1,3) refl assms(2,4)] append_node_spec(2)[OF assms(1,3)] later_node later_value pinned_read by blast

text \<open>
  C18: A value stored in the page file reads back as itself, whether it stays inline or is
  split over overflow pages; on a platform whose writes succeed storing fails only when the
  page IDs are exhausted.
\<close>

theorem store_value_reads_back:
  assumes "file_ok f" "readable f" "store_value crc tree v f = (r, f')" "length v \<le> MAX_VALUE"
  shows "(\<forall>sv. r = Inr sv \<longrightarrow> reader_value crc (pf_reader f') tree sv = Inr v) \<and>
    (healthy f \<longrightarrow> (\<forall>e. r = Inl e \<longrightarrow> e = Exhausted))"
  using store_value_spec(3,4)[OF assms(1-3)] assms(4) by blast

text \<open>A new file on a platform without failures.\<close>

definition empty_file :: os_file where
  "empty_file = \<lparr>of_data = [], of_read = (\<lambda>_. None), of_write = (\<lambda>_. None), of_resize = None\<rparr>"

definition example_leaf :: node where
  "example_leaf = NLeaf [\<lparr>lc_key = [97], lc_value = Inline [1, 2]\<rparr>, \<lparr>lc_key = [98], lc_value = Inline [3]\<rparr>]"

lemma example_file:
  obtains f where "pf_create crc empty_file (replicate 16 7) 19 = Inr f" "file_ok f" "readable f" "healthy f" "pf_next f = 1"
proof -
  obtain f where f: "pf_create crc empty_file (replicate 16 7) 19 = Inr f"
    by (simp add: pf_create_def empty_file_def Let_def)
  moreover have "pf_next f = 1" using f by (auto simp: pf_create_def empty_file_def Let_def)
  ultimately show thesis using that pf_create_ok[OF f] by (simp add: readable_def healthy_def empty_file_def)
qed

lemma example_leaf_ok: "node_ok count example_leaf"
  by (simp add: example_leaf_def cell_ok_def MAX_KEY_def INLINE_LIMIT_def leaf_size_def HEADER_SIZE_def PAGE_SIZE_def)

theorem append_node_reads_back_witness:
  "\<exists>f f'. pf_create (\<lambda>_. 0) empty_file (replicate 16 7) 19 = Inr f \<and> append_node (\<lambda>_. 0) State example_leaf f = (Inr 1, f') \<and>
     reader_node (\<lambda>_. 0) (pf_reader f') State 1 = Inr example_leaf"
proof -
  obtain f where f: "pf_create (\<lambda>_. 0) empty_file (replicate 16 7) 19 = Inr f" "file_ok f" "readable f" "healthy f" "pf_next f = 1"
    by (rule example_file)
  obtain r f' where a: "append_node (\<lambda>_. 0) State example_leaf f = (r, f')" by force
  obtain bs where "encode_node State example_leaf = Inr bs" using encode_node_total[OF example_leaf_ok] by (auto simp: is_ok_iff)
  moreover have "\<not> MAX_PAGES \<le> 1" by (simp add: MAX_PAGES_def word_le_nat_alt)
  ultimately have "r = Inr 1" using a f(4,5) by (auto simp: append_node_def pbind_def plift_def append_page_def healthy_def Let_def)
  then show ?thesis using append_node_reads_back[OF f(2,3) _ example_leaf_ok] a f(1) by blast
qed

theorem store_value_reads_back_witness:
  "\<exists>f sv f'. pf_create (\<lambda>_. 0) empty_file (replicate 16 7) 19 = Inr f \<and>
     store_value (\<lambda>_. 0) State [1, 2, 3] f = (Inr sv, f') \<and> reader_value (\<lambda>_. 0) (pf_reader f') State sv = Inr [1, 2, 3]"
proof -
  obtain f where f: "pf_create (\<lambda>_. 0) empty_file (replicate 16 7) 19 = Inr f" "file_ok f" "readable f" by (rule example_file)
  have s: "store_value (\<lambda>_. 0) State [1, 2, 3] f = (Inr (Inline [1, 2, 3]), f)"
    by (simp add: store_value_def MAX_VALUE_def INLINE_LIMIT_def pret_def)
  then show ?thesis using store_value_reads_back[OF f(2,3) s] f(1) by (auto simp: MAX_VALUE_def)
qed

end
