(* ===== verification/Blop_Tree.thy ===== *)
theory Blop_Tree
  imports Blop_Page "HOL-Library.Multiset"
begin

section \<open>Copy-on-write B+ trees (\<^verbatim>\<open>src/storage/tree.rs\<close>)\<close>

text \<open>
  A tree is a root page ID, 0 for the empty tree. Lookups and scans walk down from the root and
  check that the level falls by one at every step, which is why they end on any file, corrupt
  ones included. An edit appends the changed path and repairs underfull nodes with a sibling;
  the pages of the old root stay as they are.

  \<^verbatim>\<open>partition_point\<close> and \<^verbatim>\<open>binary_search_by\<close> are used on keys in ascending order only (decoding
  checks it), where they count the keys below the bound.
\<close>

subsection \<open>Reading nodes\<close>

definition m_tree_level :: string where "m_tree_level = ''child level does not decrease by one''"
definition m_tree_scan :: string where "m_tree_scan = ''scan keys are not strictly ordered''"
definition m_tree_transition :: string where "m_tree_transition = ''invalid deletion level transition''"
definition m_tree_sibling :: string where "m_tree_sibling = ''underflow sibling is not internal''"
definition m_tree_split :: string where "m_tree_split = ''node cannot be split''"
definition m_tree_ranges :: string where "m_tree_ranges = ''inexact separator or overlapping child ranges''"

definition tree_check_key :: "bytes \<Rightarrow> storage_error + unit" where
  "tree_check_key key = (if length key > MAX_KEY then Inl (InvalidInput m_node_long_key) else Inr ())"

definition level_check :: "byte option \<Rightarrow> node \<Rightarrow> storage_error + node" where
  "level_check expected n =
     (if (case expected of None \<Rightarrow> False | Some l \<Rightarrow> node_level n \<noteq> l) then Inl (Corrupt m_tree_level) else Inr n)"

definition load :: "(bytes \<Rightarrow> u32) \<Rightarrow> page_reader \<Rightarrow> tree_id \<Rightarrow> u64 \<Rightarrow> byte option \<Rightarrow> storage_error + node" where
  "load crc r tree i expected = rbind (reader_node crc r tree i) (level_check expected)"

definition load_shared :: "(bytes \<Rightarrow> u32) \<Rightarrow> page_reader \<Rightarrow> tree_id \<Rightarrow> u64 \<Rightarrow> byte option \<Rightarrow> storage_error + node" where
  "load_shared crc r tree i expected = rbind (shared_node crc r tree i) (level_check expected)"

definition route :: "bytes list \<Rightarrow> bytes \<Rightarrow> nat" where
  "route keys key = length (takeWhile (\<lambda>separator. separator \<le> key) keys)"

text \<open>\<^verbatim>\<open>binary_search_by\<close>: the index of the key, or the index to insert it at.\<close>

definition search :: "leaf_cell list \<Rightarrow> bytes \<Rightarrow> nat + nat" where
  "search cells key =
     (let index = length (takeWhile (\<lambda>c. lc_key c < key) cells) in
      if index < length cells \<and> lc_key (cells ! index) = key then Inr index else Inl index)"

definition at :: "'a list \<Rightarrow> nat \<Rightarrow> storage_error + 'a" where
  "at xs i = (if i < length xs then Inr (xs ! i) else Inl SPanic)"

text \<open>\<^verbatim>\<open>level - 1\<close>\<close>

definition below :: "byte \<Rightarrow> storage_error + byte" where
  "below level = (if level = 0 then Inl SPanic else Inr (level - 1))"

text \<open>How far a walk can still descend.\<close>

definition depth_bound :: "byte option \<Rightarrow> nat" where
  "depth_bound expected = (case expected of None \<Rightarrow> 257 | Some l \<Rightarrow> Suc (unat l))"

lemma load_level:
  "load crc r tree i expected = Inr n \<Longrightarrow> Suc (unat (node_level n)) \<le> depth_bound expected"
  "load_shared crc r tree i expected = Inr n \<Longrightarrow> Suc (unat (node_level n)) \<le> depth_bound expected"
  using unat_byte_less[of "node_level n"]
  by (auto simp: load_def load_shared_def rbind_eq_Inr level_check_def depth_bound_def split: option.splits if_splits)

lemma below_Inr [result_simps]: "below level = Inr l \<longleftrightarrow> level \<noteq> 0 \<and> l = level - 1"
  by (auto simp: below_def)

lemma below_depth: "below level = Inr l \<Longrightarrow> depth_bound (Some l) = unat level"
  using unat_eq_zero[of level] by (auto simp: below_Inr depth_bound_def unat_minus_one)

lemma descend_bound:
  "load crc r tree i expected = Inr (NInternal level keys children) \<Longrightarrow> below level = Inr l \<Longrightarrow> depth_bound (Some l) < depth_bound expected"
  "load_shared crc r tree i expected = Inr (NInternal level keys children) \<Longrightarrow> below level = Inr l \<Longrightarrow> depth_bound (Some l) < depth_bound expected"
  using load_level[of crc r tree i expected "NInternal level keys children"] by (auto simp: below_depth)

subsection \<open>Point lookup\<close>

function get_from :: "(bytes \<Rightarrow> u32) \<Rightarrow> page_reader \<Rightarrow> tree_id \<Rightarrow> bytes \<Rightarrow> u64 \<Rightarrow> byte option \<Rightarrow> storage_error + bytes option" where
  "get_from crc r tree key i expected =
     rbind (load_shared crc r tree i expected) (\<lambda>n.
     case n of
       NLeaf cells \<Rightarrow>
         (case search cells key of
            Inr index \<Rightarrow> rbind (reader_value crc r tree (lc_value (cells ! index))) (\<lambda>v. Inr (Some v))
          | Inl _ \<Rightarrow> Inr None)
     | NInternal level keys children \<Rightarrow>
         rbind (at children (route keys key)) (\<lambda>child.
         rbind (below level) (\<lambda>l. get_from crc r tree key child (Some l))))"
  by pat_completeness auto
termination
  by (relation "measure (\<lambda>(crc, r, tree, key, i, expected). depth_bound expected)") (auto simp: descend_bound)

declare get_from.simps [simp del]

definition tree_get :: "(bytes \<Rightarrow> u32) \<Rightarrow> page_reader \<Rightarrow> tree_id \<Rightarrow> u64 \<Rightarrow> bytes \<Rightarrow> storage_error + bytes option" where
  "tree_get crc r tree root key =
     rbind (tree_check_key key) (\<lambda>_. if root = 0 then Inr None else get_from crc r tree key root None)"

subsection \<open>Seeking\<close>

text \<open>
  The walk remembers the nearest subtree to its right. Every jump goes to a subtree below the
  level where it was remembered, which bounds the walk.
\<close>

definition seek_bound :: "byte option \<Rightarrow> (u64 \<times> byte) option \<Rightarrow> nat" where
  "seek_bound expected successor =
     3 ^ depth_bound expected + (case successor of None \<Rightarrow> 0 | Some (_, l) \<Rightarrow> 3 ^ depth_bound (Some l))"

lemma seek_bound_descend:
  assumes "depth_bound (Some l) < depth_bound expected"
  shows "seek_bound (Some l) s < seek_bound expected s" "seek_bound (Some l) (Some (next, l)) < seek_bound expected s"
proof -
  have "Suc (depth_bound (Some l)) \<le> depth_bound expected" using assms(1) by simp
  from power_increasing[OF this, of "3 :: nat"] have "3 * 3 ^ depth_bound (Some l) \<le> (3 :: nat) ^ depth_bound expected" by simp
  moreover have "(0 :: nat) < 3 ^ depth_bound (Some l)" by simp
  ultimately have "2 * 3 ^ depth_bound (Some l) < (3 :: nat) ^ depth_bound expected" by linarith
  then show "seek_bound (Some l) s < seek_bound expected s" "seek_bound (Some l) (Some (next, l)) < seek_bound expected s"
    using assms by (auto simp: seek_bound_def split: option.splits)
qed

lemma seek_bound_jump: "seek_bound (Some l) None < seek_bound expected (Some (next, l))"
  by (simp add: seek_bound_def)

function seek_from :: "(bytes \<Rightarrow> u32) \<Rightarrow> page_reader \<Rightarrow> tree_id \<Rightarrow> bytes \<Rightarrow> u64 \<Rightarrow> byte option \<Rightarrow> (u64 \<times> byte) option \<Rightarrow>
    storage_error + leaf_cell option" where
  "seek_from crc r tree key i expected successor =
     rbind (load_shared crc r tree i expected) (\<lambda>n.
     case n of
       NLeaf cells \<Rightarrow>
         let index = length (takeWhile (\<lambda>c. lc_key c < key) cells) in
         if index < length cells then Inr (Some (cells ! index)) else
         (case successor of
            None \<Rightarrow> Inr None
          | Some (next, level) \<Rightarrow> seek_from crc r tree key next (Some level) None)
     | NInternal level keys children \<Rightarrow>
         rbind (below level) (\<lambda>l.
         let index = route keys key;
             successor = (if index + 1 < length children then Some (children ! (index + 1), l) else successor) in
         rbind (at children index) (\<lambda>child.
         seek_from crc r tree key child (Some l) successor)))"
  by pat_completeness auto
termination
  by (relation "measure (\<lambda>(crc, r, tree, key, i, expected, successor). seek_bound expected successor)")
    (auto intro!: seek_bound_descend seek_bound_jump descend_bound(2))

declare seek_from.simps [simp del]

definition tree_seek :: "(bytes \<Rightarrow> u32) \<Rightarrow> page_reader \<Rightarrow> tree_id \<Rightarrow> u64 \<Rightarrow> bytes \<Rightarrow> storage_error + leaf_cell option" where
  "tree_seek crc r tree root key =
     rbind (tree_check_key key) (\<lambda>_. if root = 0 then Inr None else seek_from crc r tree key root None None)"

subsection \<open>Range scans\<close>

text \<open>
  The iterator holds a leaf, the position in it and the path of ancestors with the next child
  of each. \<open>scan_run\<close> is the list of what it yields, one round of the loop in \<^verbatim>\<open>advance\<close> per step;
  an error ends it.
\<close>

record tree_scan =
  ts_stack :: "(node \<times> nat) list"
  ts_leaf :: "leaf_cell list option"
  ts_next :: nat
  ts_upper :: "bytes bound"
  ts_last :: "bytes option"
  ts_done :: bool

function descend :: "(bytes \<Rightarrow> u32) \<Rightarrow> page_reader \<Rightarrow> tree_id \<Rightarrow> bytes bound \<Rightarrow> u64 \<Rightarrow> byte option \<Rightarrow> tree_scan \<Rightarrow> storage_error + tree_scan" where
  "descend crc r tree lower i expected s =
     rbind (load_shared crc r tree i expected) (\<lambda>n.
     case n of
       NLeaf cells \<Rightarrow>
         let start = length (takeWhile (\<lambda>c. \<not> above lower (lc_key c)) cells) in
         Inr (s\<lparr>ts_leaf := Some cells, ts_next := start\<rparr>)
     | NInternal level keys children \<Rightarrow>
         let index = (case lower of Unbounded \<Rightarrow> 0 | Included key \<Rightarrow> route keys key | Excluded key \<Rightarrow> route keys key) in
         rbind (at children index) (\<lambda>child.
         rbind (below level) (\<lambda>l.
         descend crc r tree lower child (Some l) (s\<lparr>ts_stack := (n, index + 1) # ts_stack s\<rparr>))))"
  by pat_completeness auto
termination
  by (relation "measure (\<lambda>(crc, r, tree, lower, i, expected, s). depth_bound expected)") (auto simp: descend_bound)

declare descend.simps [simp del]

text \<open>The levels of the children still to be visited; a descent replaces one by lower ones.\<close>

definition frame_weight :: "node \<times> nat \<Rightarrow> nat multiset" where
  "frame_weight f =
     (case f of (NInternal level keys children, next) \<Rightarrow> replicate_mset (length children - next) (unat level) | _ \<Rightarrow> {#})"

definition stack_weight :: "(node \<times> nat) list \<Rightarrow> nat multiset" where
  "stack_weight stack = sum_list (map frame_weight stack)"

lemma stack_weight_simps [simp]:
  "stack_weight [] = {#}" "stack_weight (f # stack) = frame_weight f + stack_weight stack"
  "stack_weight (xs @ ys) = stack_weight xs + stack_weight ys"
  by (simp_all add: stack_weight_def)

lemma descend_stack:
  "descend crc r tree lower i expected s = Inr s' \<Longrightarrow>
   \<exists>pushed. ts_stack s' = pushed @ ts_stack s \<and> (\<forall>l \<in># stack_weight pushed. Suc l \<le> depth_bound expected)"
proof (induction crc r tree lower i expected s rule: descend.induct)
  case (1 crc r tree lower i expected s)
  obtain n where n: "load_shared crc r tree i expected = Inr n"
    using "1.prems" by (subst (asm) descend.simps) (auto simp: rbind_eq_Inr)
  show ?case
  proof (cases n)
    case (NLeaf cells)
    then show ?thesis using "1.prems" n by (subst (asm) descend.simps) (auto simp: Let_def)
  next
    case (NInternal level keys children)
    define index where "index = (case lower of Unbounded \<Rightarrow> 0 | Included key \<Rightarrow> route keys key | Excluded key \<Rightarrow> route keys key)"
    obtain child l where c: "at children index = Inr child" "below level = Inr l"
      "descend crc r tree lower child (Some l) (s\<lparr>ts_stack := (n, index + 1) # ts_stack s\<rparr>) = Inr s'"
      using "1.prems" n NInternal by (subst (asm) descend.simps) (auto simp: Let_def rbind_eq_Inr index_def)
    obtain pushed where p: "ts_stack s' = pushed @ (n, index + 1) # ts_stack s" "\<forall>m \<in># stack_weight pushed. Suc m \<le> depth_bound (Some l)"
      using "1.IH"[OF n NInternal index_def c(1,2)] c(3) NInternal by auto
    have "\<forall>m \<in># frame_weight (n, index + 1). Suc m \<le> depth_bound expected"
      using load_level(2)[OF n] by (auto simp: frame_weight_def NInternal)
    moreover have "Suc m \<le> depth_bound expected" if "m \<in># stack_weight pushed" for m
      using p(2) that descend_bound(2)[OF n[unfolded NInternal] c(2)] by fastforce
    ultimately show ?thesis using p(1) by (intro exI[of _ "pushed @ [(n, index + 1)]"]) auto
  qed
qed

definition scan_order :: "(tree_scan \<times> tree_scan) set" where
  "scan_order = inv_image (mult less_than <*lex*> less_than <*lex*> less_than)
     (\<lambda>s. (stack_weight (ts_stack s), length (ts_stack s), case ts_leaf s of None \<Rightarrow> 0 | Some cells \<Rightarrow> length cells - ts_next s))"

lemma wf_scan_order: "wf scan_order"
  unfolding scan_order_def by (intro wf_inv_image wf_lex_prod wf_mult wf_less_than)

lemma descend_order:
  assumes "descend crc r tree lower i (Some l) (s\<lparr>ts_stack := (NInternal level keys children, Suc next) # stack\<rparr>) = Inr s'"
    and "ts_stack s = (NInternal level keys children, next) # stack" "below level = Inr l" "next < length children"
  shows "(s', s) \<in> scan_order"
proof -
  obtain pushed where p: "ts_stack s' = pushed @ (NInternal level keys children, Suc next) # stack"
    "\<forall>m \<in># stack_weight pushed. Suc m \<le> unat level"
    using descend_stack[OF assms(1)] below_depth[OF assms(3)] by auto
  obtain k where k: "length children - next = Suc k" "length children - Suc next = k"
    using assms(4) by (cases "length children - next") auto
  let ?rest = "replicate_mset k (unat level) + stack_weight stack"
  have "(?rest + stack_weight pushed, ?rest + {#unat level#}) \<in> mult less_than"
    using p(2) by (intro one_step_implies_mult) (auto simp: Suc_le_eq)
  moreover have "stack_weight (ts_stack s') = ?rest + stack_weight pushed" "stack_weight (ts_stack s) = ?rest + {#unat level#}"
    using assms(2) k by (simp_all add: p(1) frame_weight_def ac_simps)
  ultimately show ?thesis by (simp add: scan_order_def)
qed

lemma scan_cell_order:
  "(case ts_leaf s of None \<Rightarrow> None | Some cells \<Rightarrow> if ts_next s < length cells then Some (cells ! ts_next s) else None) = Some cell \<Longrightarrow>
   (s\<lparr>ts_next := Suc (ts_next s), ts_last := seen\<rparr>, s) \<in> scan_order"
  by (auto simp: scan_order_def split: option.splits if_splits)

lemma scan_pop_order:
  "ts_stack s = (NInternal level keys children, length children) # stack \<Longrightarrow> (s\<lparr>ts_stack := stack\<rparr>, s) \<in> scan_order"
  by (simp add: scan_order_def frame_weight_def)

function scan_run :: "(bytes \<Rightarrow> u32) \<Rightarrow> page_reader \<Rightarrow> tree_id \<Rightarrow> tree_scan \<Rightarrow> (storage_error + entry) list" where
  "scan_run crc r tree s =
     (case (case ts_leaf s of Some cells \<Rightarrow> if ts_next s < length cells then Some (cells ! ts_next s) else None | None \<Rightarrow> None) of
        Some cell \<Rightarrow>
          if \<not> beneath (ts_upper s) (lc_key cell) then []
          else if (case ts_last s of None \<Rightarrow> False | Some seen \<Rightarrow> seen \<ge> lc_key cell) then [Inl (Corrupt m_tree_scan)]
          else (case reader_value crc r tree (lc_value cell) of
            Inl e \<Rightarrow> [Inl e]
          | Inr v \<Rightarrow> Inr (lc_key cell, v) # scan_run crc r tree (s\<lparr>ts_next := ts_next s + 1, ts_last := Some (lc_key cell)\<rparr>))
      | None \<Rightarrow>
          (case ts_stack s of
             [] \<Rightarrow> []
           | (NInternal level keys children, next) # stack \<Rightarrow>
               if next = length children then scan_run crc r tree (s\<lparr>ts_stack := stack\<rparr>)
               else if next > length children then [Inl SPanic]
               else (case rbind (below level) (\<lambda>l.
                   descend crc r tree Unbounded (children ! next) (Some l)
                     (s\<lparr>ts_stack := (NInternal level keys children, Suc next) # stack\<rparr>)) of
                 Inl e \<Rightarrow> [Inl e]
               | Inr s \<Rightarrow> scan_run crc r tree s)
           | (NLeaf _, _) # _ \<Rightarrow> [Inl SPanic]))"
  by pat_completeness auto
termination
proof (relation "inv_image scan_order (\<lambda>(crc, r, tree, s). s)", goal_cases)
  case 1
  show ?case by (intro wf_inv_image wf_scan_order)
next
  case 2
  then show ?case unfolding in_inv_image split by (metis scan_pop_order)
next
  case 3
  then show ?case by (auto simp: rbind_eq_Inr intro: descend_order)
next
  case 4
  then show ?case by (simp add: scan_cell_order)
qed

declare scan_run.simps [simp del]

definition scan_empty :: "bytes bound \<Rightarrow> bytes bound \<Rightarrow> bool" where
  "scan_empty lower upper =
     (case (lower, upper) of
        (Included a, Included b) \<Rightarrow> a > b
      | (Included a, Excluded b) \<Rightarrow> a \<ge> b
      | (Excluded a, Included b) \<Rightarrow> a \<ge> b
      | (Excluded a, Excluded b) \<Rightarrow> a \<ge> b
      | _ \<Rightarrow> False)"

definition check_scan_bound :: "bytes bound \<Rightarrow> storage_error + unit" where
  "check_scan_bound b = (case b of Included key \<Rightarrow> tree_check_key key | Excluded key \<Rightarrow> tree_check_key key | Unbounded \<Rightarrow> Inr ())"

definition tree_scan_start :: "(bytes \<Rightarrow> u32) \<Rightarrow> page_reader \<Rightarrow> tree_id \<Rightarrow> u64 \<Rightarrow> bytes bound \<Rightarrow> bytes bound \<Rightarrow> storage_error + tree_scan" where
  "tree_scan_start crc r tree root lower upper =
     rbind (check_scan_bound lower) (\<lambda>_.
     rbind (check_scan_bound upper) (\<lambda>_.
     let s = \<lparr>ts_stack = [], ts_leaf = None, ts_next = 0, ts_upper = upper, ts_last = None,
           ts_done = (root = 0 \<or> scan_empty lower upper)\<rparr> in
     if ts_done s then Inr s else descend crc r tree lower root None s))"

text \<open>Starting a scan and running its iterator to the end.\<close>

definition tree_scan_all :: "(bytes \<Rightarrow> u32) \<Rightarrow> page_reader \<Rightarrow> tree_id \<Rightarrow> u64 \<Rightarrow> bytes bound \<Rightarrow> bytes bound \<Rightarrow>
    storage_error + (storage_error + entry) list" where
  "tree_scan_all crc r tree root lower upper =
     rbind (tree_scan_start crc r tree root lower upper) (\<lambda>s. Inr (if ts_done s then [] else scan_run crc r tree s))"

subsection \<open>Writing nodes\<close>

record child =
  ch_id :: u64
  ch_min :: bytes

record edit =
  ed_level :: byte
  ed_children :: "child list"

text \<open>
  The split that balances the two pages best, among those that fit; each side of an internal
  node keeps two children, and neither side stores its first separator.
\<close>

definition split_best :: "bool \<Rightarrow> nat list \<Rightarrow> nat \<Rightarrow> nat \<Rightarrow> (nat \<times> nat) option \<Rightarrow> (nat \<times> nat) option" where
  "split_best internal sizes index left best =
     (let minimum = (if internal then 2 else 1); total_size = sum_list sizes in
      if index < minimum \<or> length sizes - index < minimum then best
      else
        let left_size = HEADER_SIZE + left - (if internal then sizes ! 0 else 0);
            right_size = HEADER_SIZE + total_size - left - (if internal then sizes ! index else 0) in
        if left_size \<le> PAGE_SIZE \<and> right_size \<le> PAGE_SIZE then
          let difference = (if left_size \<ge> right_size then left_size - right_size else right_size - left_size) in
          if (case best of None \<Rightarrow> True | Some (_, previous) \<Rightarrow> difference < previous) then Some (index, difference) else best
        else best)"

primrec split_from :: "nat \<Rightarrow> bool \<Rightarrow> nat list \<Rightarrow> nat \<Rightarrow> nat \<Rightarrow> (nat \<times> nat) option \<Rightarrow> (nat \<times> nat) option" where
  "split_from 0 internal sizes index left best = best"
| "split_from (Suc n) internal sizes index left best =
     (let left = left + sizes ! (index - 1) in
      split_from n internal sizes (Suc index) left (split_best internal sizes index left best))"

definition split_point :: "nat list \<Rightarrow> bool \<Rightarrow> storage_error + nat" where
  "split_point sizes internal =
     ok_or (InvalidInput m_tree_split) (map_option fst (split_from (length sizes - 1) internal sizes 1 0 None))"

definition append_leaf :: "(bytes \<Rightarrow> u32) \<Rightarrow> tree_id \<Rightarrow> leaf_cell list \<Rightarrow> child paged" where
  "append_leaf crc tree cells =
     pbind (append_node crc tree (NLeaf cells)) (\<lambda>i. pret \<lparr>ch_id = i, ch_min = lc_key (hd cells)\<rparr>)"

definition write_leaves :: "(bytes \<Rightarrow> u32) \<Rightarrow> tree_id \<Rightarrow> leaf_cell list \<Rightarrow> edit paged" where
  "write_leaves crc tree cells =
     (if cells = [] then pret \<lparr>ed_level = 0, ed_children = []\<rparr> else
      let sizes = map leaf_size cells in
      if HEADER_SIZE + sum_list sizes > PAGE_SIZE then
        pbind (plift (split_point sizes False)) (\<lambda>split.
        pbind (append_leaf crc tree (take split cells)) (\<lambda>a.
        pbind (append_leaf crc tree (drop split cells)) (\<lambda>b.
        pret \<lparr>ed_level = 0, ed_children = [a, b]\<rparr>)))
      else pbind (append_leaf crc tree cells) (\<lambda>a. pret \<lparr>ed_level = 0, ed_children = [a]\<rparr>))"

definition internal_node :: "byte \<Rightarrow> child list \<Rightarrow> node" where
  "internal_node level children = NInternal level (map ch_min (tl children)) (map ch_id children)"

definition append_internal :: "(bytes \<Rightarrow> u32) \<Rightarrow> tree_id \<Rightarrow> byte \<Rightarrow> child list \<Rightarrow> child paged" where
  "append_internal crc tree level children =
     pbind (append_node crc tree (internal_node level children)) (\<lambda>i. pret \<lparr>ch_id = i, ch_min = ch_min (hd children)\<rparr>)"

definition write_internal :: "(bytes \<Rightarrow> u32) \<Rightarrow> tree_id \<Rightarrow> byte \<Rightarrow> child list \<Rightarrow> edit paged" where
  "write_internal crc tree level children =
     (if children = [] then plift (Inl SPanic) else
      let sizes = map (\<lambda>c. 16 + length (ch_min c)) children in
      if HEADER_SIZE + sum_list (tl sizes) > PAGE_SIZE then
        pbind (plift (split_point sizes True)) (\<lambda>split.
        pbind (append_internal crc tree level (take split children)) (\<lambda>a.
        pbind (append_internal crc tree level (drop split children)) (\<lambda>b.
        pret \<lparr>ed_level = level, ed_children = [a, b]\<rparr>)))
      else pbind (append_internal crc tree level children) (\<lambda>a. pret \<lparr>ed_level = level, ed_children = [a]\<rparr>))"

subsection \<open>Editing\<close>

function minimum :: "(bytes \<Rightarrow> u32) \<Rightarrow> page_reader \<Rightarrow> tree_id \<Rightarrow> u64 \<Rightarrow> byte option \<Rightarrow> storage_error + bytes" where
  "minimum crc r tree i expected =
     rbind (load_shared crc r tree i expected) (\<lambda>n.
     case n of
       NLeaf cells \<Rightarrow> rbind (at cells 0) (\<lambda>c. Inr (lc_key c))
     | NInternal level keys children \<Rightarrow>
         rbind (at children 0) (\<lambda>child.
         rbind (below level) (\<lambda>l. minimum crc r tree child (Some l))))"
  by pat_completeness auto
termination
  by (relation "measure (\<lambda>(crc, r, tree, i, expected). depth_bound expected)") (auto simp: descend_bound)

declare minimum.simps [simp del]

definition child_list :: "(bytes \<Rightarrow> u32) \<Rightarrow> page_reader \<Rightarrow> tree_id \<Rightarrow> byte \<Rightarrow> bytes list \<Rightarrow> u64 list \<Rightarrow> storage_error + child list" where
  "child_list crc r tree level keys children =
     rbind (at children 0) (\<lambda>first.
     rbind (below level) (\<lambda>l.
     rbind (minimum crc r tree first (Some l)) (\<lambda>least.
     Inr (map (\<lambda>(i, least). \<lparr>ch_id = i, ch_min = least\<rparr>) (zip children (least # keys))))))"

text \<open>\<^verbatim>\<open>xs.splice(a..=b, ys)\<close>\<close>

definition splice :: "nat \<Rightarrow> nat \<Rightarrow> 'a list \<Rightarrow> 'a list \<Rightarrow> 'a list" where
  "splice a b ys xs = take a xs @ ys @ drop (Suc b) xs"

text \<open>Merge a lone grandchild into a sibling of its parent.\<close>

definition repair :: "(bytes \<Rightarrow> u32) \<Rightarrow> tree_id \<Rightarrow> byte \<Rightarrow> child list \<Rightarrow> nat \<Rightarrow> child list \<Rightarrow> child list paged" where
  "repair crc tree level children index underflow f =
     (let sibling = (if index = 0 then 1 else index - 1); r = pf_reader f in
      pbind (plift (rbind (at children sibling) (\<lambda>c. rbind (below level) (\<lambda>l. load crc r tree (ch_id c) (Some l))))) (\<lambda>n.
      case n of
        NLeaf _ \<Rightarrow> plift (Inl (Corrupt m_tree_sibling))
      | NInternal sibling_level keys ids \<Rightarrow>
          pbind (plift (child_list crc r tree sibling_level keys ids)) (\<lambda>combined.
          let combined = (if sibling < index then combined @ underflow else underflow @ combined) in
          pbind (write_internal crc tree sibling_level combined) (\<lambda>repaired.
          pret (splice (min index sibling) (max index sibling) (ed_children repaired) children)))) f)"

definition edit_leaf :: "(bytes \<Rightarrow> u32) \<Rightarrow> tree_id \<Rightarrow> bytes \<Rightarrow> bytes option \<Rightarrow> leaf_cell list \<Rightarrow> edit option paged" where
  "edit_leaf crc tree key v cells =
     (case (search cells key, v) of
        (Inl _, None) \<Rightarrow> pret None
      | (Inr index, None) \<Rightarrow>
          pbind (write_leaves crc tree (take index cells @ drop (Suc index) cells)) (\<lambda>e. pret (Some e))
      | (found, Some v) \<Rightarrow>
          pbind (store_value crc tree v) (\<lambda>stored.
          let cell = \<lparr>lc_key = key, lc_value = stored\<rparr>;
              cells = (case found of Inr index \<Rightarrow> cells[index := cell] | Inl index \<Rightarrow> take index cells @ cell # drop index cells) in
          pbind (write_leaves crc tree cells) (\<lambda>e. pret (Some e))))"

text \<open>The edit of a child taken over into its parent.\<close>

definition edit_internal :: "(bytes \<Rightarrow> u32) \<Rightarrow> tree_id \<Rightarrow> byte \<Rightarrow> child list \<Rightarrow> nat \<Rightarrow> edit \<Rightarrow> edit option paged" where
  "edit_internal crc tree level children index e =
     pbind (if ed_children e \<noteq> [] \<and> ed_level e \<noteq> level - 1 then
              if level < 2 \<or> ed_level e \<noteq> level - 2 \<or> length (ed_children e) \<noteq> 1 then plift (Inl (Corrupt m_tree_transition))
              else repair crc tree level children index (ed_children e)
            else pret (splice index index (ed_children e) children)) (\<lambda>children.
     if length children = 1 then pret (Some \<lparr>ed_level = level - 1, ed_children = children\<rparr>)
     else pbind (write_internal crc tree level children) (\<lambda>e. pret (Some e)))"

function update :: "(bytes \<Rightarrow> u32) \<Rightarrow> tree_id \<Rightarrow> bytes \<Rightarrow> bytes option \<Rightarrow> u64 \<Rightarrow> byte option \<Rightarrow> edit option paged" where
  "update crc tree key v i expected f =
     (let r = pf_reader f in
      case load crc r tree i expected of
        Inl e \<Rightarrow> (Inl e, f)
      | Inr (NLeaf cells) \<Rightarrow> edit_leaf crc tree key v cells f
      | Inr (NInternal level keys children) \<Rightarrow>
          (let index = route keys key in
           case rbind (at children index) (\<lambda>child. rbind (below level) (\<lambda>l. Inr (child, l))) of
             Inl e \<Rightarrow> (Inl e, f)
           | Inr (child, l) \<Rightarrow>
               (case update crc tree key v child (Some l) f of
                  (Inl e, f) \<Rightarrow> (Inl e, f)
                | (Inr None, f) \<Rightarrow> (Inr None, f)
                | (Inr (Some e), f) \<Rightarrow>
                    pbind (plift (child_list crc r tree level keys children)) (\<lambda>children.
                    edit_internal crc tree level children index e) f)))"
  by pat_completeness auto
termination
  by (relation "measure (\<lambda>(crc, tree, key, v, i, expected, f). depth_bound expected)") (auto simp: rbind_eq_Inr descend_bound)

declare update.simps [simp del]

definition tree_finish :: "(bytes \<Rightarrow> u32) \<Rightarrow> tree_id \<Rightarrow> u64 \<Rightarrow> bytes \<Rightarrow> bytes option \<Rightarrow> u64 paged" where
  "tree_finish crc tree root key v =
     pbind (update crc tree key v root None) (\<lambda>e.
     case e of
       None \<Rightarrow> pret root
     | Some e \<Rightarrow>
         (case ed_children e of
            [] \<Rightarrow> pret 0
          | [c] \<Rightarrow> pret (ch_id c)
          | _ \<Rightarrow>
              if ed_level e = 255 then plift (Inl Exhausted)
              else append_node crc tree (internal_node (ed_level e + 1) (ed_children e))))"

definition tree_put :: "(bytes \<Rightarrow> u32) \<Rightarrow> tree_id \<Rightarrow> u64 \<Rightarrow> bytes \<Rightarrow> bytes \<Rightarrow> u64 paged" where
  "tree_put crc tree root key v =
     pbind (plift (tree_check_key key)) (\<lambda>_.
     if length v > MAX_VALUE then plift (Inl (InvalidInput m_page_long_value))
     else if root = 0 then
       pbind (store_value crc tree v) (\<lambda>stored. append_node crc tree (NLeaf [\<lparr>lc_key = key, lc_value = stored\<rparr>]))
     else tree_finish crc tree root key (Some v))"

definition tree_delete :: "(bytes \<Rightarrow> u32) \<Rightarrow> tree_id \<Rightarrow> u64 \<Rightarrow> bytes \<Rightarrow> u64 paged" where
  "tree_delete crc tree root key =
     pbind (plift (tree_check_key key)) (\<lambda>_. if root = 0 then pret 0 else tree_finish crc tree root key None)"

subsection \<open>Validation\<close>

text \<open>Every reachable page once, levels falling by one, separators that are the least keys of their subtrees.\<close>

fun validate_values :: "(bytes \<Rightarrow> u32) \<Rightarrow> page_reader \<Rightarrow> tree_id \<Rightarrow> leaf_cell list \<Rightarrow> u64 set \<Rightarrow> storage_error + u64 set" where
  "validate_values crc r tree [] owned = Inr owned"
| "validate_values crc r tree (c # cells) owned =
     rbind (reader_validate_value crc r tree (lc_value c) owned) (\<lambda>owned. validate_values crc r tree cells owned)"

fun validate_children :: "(u64 \<Rightarrow> u64 set \<Rightarrow> storage_error + (bytes \<times> bytes) \<times> u64 set) \<Rightarrow> (bytes \<times> u64) list \<Rightarrow> bytes \<Rightarrow> u64 set \<Rightarrow>
    storage_error + bytes \<times> u64 set" where
  "validate_children check [] greatest owned = Inr (greatest, owned)"
| "validate_children check ((separator, child) # rest) greatest owned =
     rbind (check child owned) (\<lambda>((child_min, child_max), owned).
     if separator \<noteq> child_min \<or> greatest \<ge> child_min then Inl (Corrupt m_tree_ranges)
     else validate_children check rest child_max owned)"

function validate_subtree :: "(bytes \<Rightarrow> u32) \<Rightarrow> page_reader \<Rightarrow> tree_id \<Rightarrow> byte option \<Rightarrow> u64 \<Rightarrow> u64 set \<Rightarrow>
    storage_error + (bytes \<times> bytes) \<times> u64 set" where
  "validate_subtree crc r tree expected i owned =
     (if i \<in> owned then Inl (Corrupt m_page_owned) else
      rbind (load crc r tree i expected) (\<lambda>n.
      case n of
        NLeaf cells \<Rightarrow>
          rbind (validate_values crc r tree cells (insert i owned)) (\<lambda>owned.
          if cells = [] then Inl SPanic else Inr ((lc_key (hd cells), lc_key (last cells)), owned))
      | NInternal level keys children \<Rightarrow>
          (case children of
             [] \<Rightarrow> Inl SPanic
           | first # rest \<Rightarrow>
               rbind (below level) (\<lambda>l.
               rbind (validate_subtree crc r tree (Some l) first (insert i owned)) (\<lambda>((least, greatest), owned).
               rbind (validate_children (\<lambda>child owned. validate_subtree crc r tree (Some l) child owned) (zip keys rest) greatest owned)
                 (\<lambda>(greatest, owned). Inr ((least, greatest), owned)))))))"
  by pat_completeness auto
termination
  by (relation "measure (\<lambda>(crc, r, tree, expected, i, owned). depth_bound expected)") (auto simp: descend_bound)

declare validate_subtree.simps [simp del]

definition tree_validate :: "(bytes \<Rightarrow> u32) \<Rightarrow> page_reader \<Rightarrow> tree_id \<Rightarrow> u64 \<Rightarrow> storage_error + unit" where
  "tree_validate crc r tree root =
     (if root \<noteq> 0 then rbind (validate_subtree crc r tree None root {}) (\<lambda>_. Inr ()) else Inr ())"

subsection \<open>The cells of a tree\<close>

text \<open>
  \<open>tree_rep n\<close>: below page \<open>i\<close> hangs a tree of height \<open>n\<close> whose leaves hold the given cells in
  ascending key order; each separator is the least key of the subtree to its right.
\<close>

primrec tree_rep :: "nat \<Rightarrow> (bytes \<Rightarrow> u32) \<Rightarrow> page_reader \<Rightarrow> tree_id \<Rightarrow> u64 \<Rightarrow> leaf_cell list \<Rightarrow> bool" where
  "tree_rep 0 crc r tree i cells \<longleftrightarrow> reader_node crc r tree i = Inr (NLeaf cells)"
| "tree_rep (Suc n) crc r tree i cells \<longleftrightarrow> n < 255 \<and>
     (\<exists>keys children parts. reader_node crc r tree i = Inr (NInternal (of_nat (Suc n)) keys children) \<and>
        list_all2 (tree_rep n crc r tree) children parts \<and> cells = concat parts \<and>
        ascending (map lc_key cells) \<and> keys = map (\<lambda>p. lc_key (hd p)) (tl parts))"

lemma tree_rep_height: "tree_rep n crc r tree i cells \<Longrightarrow> n \<le> 255"
  by (cases n) auto

lemma tree_rep_cells:
  "tree_rep n crc r tree i cells \<Longrightarrow> cells \<noteq> [] \<and> ascending (map lc_key cells) \<and> (\<forall>c \<in> set cells. cell_ok (pr_count r) c)"
proof (induction n arbitrary: i cells)
  case 0
  then show ?case using reader_node_ok[of crc r tree i "NLeaf cells"] by simp
next
  case (Suc n)
  then obtain keys children parts where t: "reader_node crc r tree i = Inr (NInternal (of_nat (Suc n)) keys children)"
    "list_all2 (tree_rep n crc r tree) children parts" "cells = concat parts" "ascending (map lc_key cells)" by auto
  have "children \<noteq> []" using reader_node_ok[OF t(1)] by auto
  have p: "p \<noteq> [] \<and> (\<forall>c \<in> set p. cell_ok (pr_count r) c)" if "p \<in> set parts" for p
    using t(2) that Suc.IH by (auto simp: list_all2_conv_all_nth in_set_conv_nth)
  have "parts \<noteq> []" using t(2) \<open>children \<noteq> []\<close> by auto
  then show ?case using t(3,4) p by (auto simp: neq_Nil_conv)
qed

lemma tree_rep_node:
  assumes "tree_rep n crc r tree i cells"
  obtains (leaf) "n = 0" "reader_node crc r tree i = Inr (NLeaf cells)"
  | (internal) m keys children parts where "n = Suc m" "m < 255" "reader_node crc r tree i = Inr (NInternal (of_nat n) keys children)"
      "list_all2 (tree_rep m crc r tree) children parts" "cells = concat parts" "keys = map (\<lambda>p. lc_key (hd p)) (tl parts)"
      "length children = length keys + 1" "length parts = length children" "\<forall>p \<in> set parts. p \<noteq> []"
proof (cases n)
  case 0
  then show thesis using leaf assms by simp
next
  case (Suc m)
  then obtain keys children parts where t: "m < 255" "reader_node crc r tree i = Inr (NInternal (of_nat n) keys children)"
    "list_all2 (tree_rep m crc r tree) children parts" "cells = concat parts" "keys = map (\<lambda>p. lc_key (hd p)) (tl parts)"
    using assms by auto
  have "\<forall>p \<in> set parts. p \<noteq> []"
  proof
    fix p
    assume "p \<in> set parts"
    then obtain k where "k < length parts" "p = parts ! k" by (metis in_set_conv_nth)
    then have "tree_rep m crc r tree (children ! k) p" using t(3) by (simp add: list_all2_conv_all_nth)
    then show "p \<noteq> []" using tree_rep_cells by blast
  qed
  moreover have "length children = length keys + 1" using reader_node_ok[OF t(2)] by simp
  moreover have "length parts = length children" using list_all2_lengthD[OF t(3)] by simp
  ultimately show thesis using internal[OF Suc t] by blast
qed

text \<open>A tree read under the expected level.\<close>

definition fits :: "nat \<Rightarrow> byte option \<Rightarrow> bool" where
  "fits n expected \<longleftrightarrow> (case expected of None \<Rightarrow> True | Some l \<Rightarrow> l = of_nat n)"

lemma fits_simps [simp]: "fits n None" "fits n (Some l) \<longleftrightarrow> l = of_nat n"
  by (simp_all add: fits_def)

lemma level_unat: "n \<le> 255 \<Longrightarrow> unat (of_nat n :: byte) = n"
  by (simp add: unat_of_nat)

lemma level_below: "m < 255 \<Longrightarrow> below (of_nat (Suc m)) = Inr (of_nat m)"
proof -
  assume m: "m < 255"
  have "(of_nat (Suc m) :: byte) \<noteq> 0" using level_unat[of "Suc m"] m by (metis Suc_leI nat.simps(3) unat_0)
  then show ?thesis by (simp add: below_def)
qed

lemma load_rep:
  "reader_node crc r tree i = Inr (NLeaf cells) \<Longrightarrow> fits 0 expected \<Longrightarrow> load crc r tree i expected = Inr (NLeaf cells)"
  "reader_node crc r tree i = Inr (NInternal (of_nat n) keys children) \<Longrightarrow> fits n expected \<Longrightarrow>
   load crc r tree i expected = Inr (NInternal (of_nat n) keys children)"
  by (auto simp: load_def level_check_def fits_def split: option.splits)

lemma load_shared_eq: "load_shared crc r tree i expected = load crc r tree i expected"
  by (simp add: load_shared_def load_def shared_node_eq)

lemma tree_rep_later: "tree_rep n crc (pf_reader f) tree i cells \<Longrightarrow> later f f' \<Longrightarrow> tree_rep n crc (pf_reader f') tree i cells"
proof (induction n arbitrary: i cells)
  case 0
  then show ?case by (auto dest: later_node)
next
  case (Suc n)
  from Suc.prems(1) obtain keys children parts where t: "n < 255"
    "reader_node crc (pf_reader f) tree i = Inr (NInternal (of_nat (Suc n)) keys children)"
    "list_all2 (tree_rep n crc (pf_reader f) tree) children parts" "cells = concat parts" "ascending (map lc_key cells)"
    "keys = map (\<lambda>p. lc_key (hd p)) (tl parts)"
    unfolding tree_rep.simps by blast
  have "list_all2 (tree_rep n crc (pf_reader f') tree) children parts"
    using t(3) Suc.IH[OF _ Suc.prems(2)] by (rule list_all2_mono)
  with t(1,4,5,6) later_node[OF Suc.prems(2) t(2)] show ?case unfolding tree_rep.simps by blast
qed

subsection \<open>Routing\<close>

lemma hd_concat: "xss \<noteq> [] \<Longrightarrow> hd xss \<noteq> [] \<Longrightarrow> hd (concat xss) = hd (hd xss)"
  by (cases xss) auto

lemma route_parts:
  fixes key :: bytes
  assumes asc: "ascending (map lc_key (concat parts))" and ne: "\<forall>p \<in> set parts. p \<noteq> []" "parts \<noteq> []"
  defines "index \<equiv> route (map (\<lambda>p. lc_key (hd p)) (tl parts)) key"
  shows "index < length parts" "\<forall>c \<in> set (concat (take index parts)). lc_key c < key"
    "\<forall>c \<in> set (concat (drop (Suc index) parts)). key < lc_key c"
proof -
  let ?keys = "map (\<lambda>p. lc_key (hd p)) (tl parts)"
  have len: "length ?keys = length parts - 1" by simp
  have "index \<le> length ?keys" unfolding index_def route_def using length_takeWhile_le by fast
  moreover have "0 < length parts" using ne(2) by simp
  ultimately show index: "index < length parts" using len by linarith
  have sorted: "sorted_wrt (\<lambda>c d. lc_key c < lc_key d) (concat parts)" using asc by (simp add: ascending_iff sorted_wrt_map)
  have cross: "lc_key c < lc_key d" if "c \<in> set (concat (take k parts))" "d \<in> set (concat (drop k parts))" for c d k
  proof -
    have "concat parts = concat (take k parts) @ concat (drop k parts)" by (metis append_take_drop_id concat_append)
    then have "sorted_wrt (\<lambda>c d. lc_key c < lc_key d) (concat (take k parts) @ concat (drop k parts))" using sorted by simp
    then show ?thesis using that unfolding sorted_wrt_append by blast
  qed
  have hd_in: "hd (parts ! k) \<in> set (concat (drop k parts))" if "k < length parts" for k
    using that ne(1) by (auto simp: in_set_conv_nth[of _ "drop k parts"] intro!: bexI[of _ "parts ! k"] exI[of _ 0])
  show "\<forall>c \<in> set (concat (take index parts)). lc_key c < key"
  proof
    fix c
    assume c: "c \<in> set (concat (take index parts))"
    then obtain k where k: "index = Suc k" by (cases index) auto
    have "?keys ! k \<le> key"
      using nth_length_takeWhile takeWhile_nth[of k "\<lambda>s. s \<le> key" ?keys] set_takeWhileD[of "?keys ! k" "\<lambda>s. s \<le> key" ?keys] k
      unfolding index_def route_def by (metis lessI nth_mem takeWhile_nth)
    moreover have "?keys ! k = lc_key (hd (parts ! index))" using index k by (cases parts) simp_all
    moreover have "lc_key c < lc_key (hd (parts ! index))" using cross[OF c hd_in[OF index]] .
    ultimately show "lc_key c < key" by simp
  qed
  show "\<forall>c \<in> set (concat (drop (Suc index) parts)). key < lc_key c"
  proof
    fix c
    assume c: "c \<in> set (concat (drop (Suc index) parts))"
    then have more: "Suc index < length parts" by (cases "Suc index < length parts") auto
    then have k: "index < length ?keys" by simp
    have "\<not> ?keys ! index \<le> key"
      using nth_length_takeWhile[of "\<lambda>s. s \<le> key" ?keys] k unfolding index_def route_def by simp
    moreover have "?keys ! index = lc_key (hd (parts ! Suc index))" using more by (cases parts) simp_all
    ultimately have min: "key < lc_key (hd (parts ! Suc index))" by simp
    have "concat (drop (Suc index) parts) = parts ! Suc index @ concat (drop (Suc (Suc index)) parts)"
      using more by (simp add: Cons_nth_drop_Suc[symmetric])
    moreover have "parts ! Suc index \<noteq> []" using ne(1) more by simp
    ultimately have "c = hd (parts ! Suc index) \<or> (c \<in> set (tl (concat (drop (Suc index) parts))) \<and> hd (concat (drop (Suc index) parts)) = hd (parts ! Suc index))"
      using c by (cases "parts ! Suc index") auto
    moreover have "sorted_wrt (\<lambda>c d. lc_key c < lc_key d) (concat (drop (Suc index) parts))"
      using sorted by (metis append_take_drop_id concat_append sorted_wrt_append)
    ultimately show "key < lc_key c"
      using min by (cases "concat (drop (Suc index) parts)") auto
  qed
qed

lemma tree_rep_route:
  fixes key :: bytes
  assumes "tree_rep (Suc m) crc r tree i cells"
  obtains keys children A P B where "m < 255" "reader_node crc r tree i = Inr (NInternal (of_nat (Suc m)) keys children)"
    "route keys key < length children" "tree_rep m crc r tree (children ! route keys key) P" "cells = A @ P @ B"
    "\<forall>c \<in> set A. lc_key c < key" "\<forall>c \<in> set B. key < lc_key c"
    "(B = [] \<and> Suc (route keys key) = length children) \<or>
     (\<exists>Q B'. Suc (route keys key) < length children \<and> tree_rep m crc r tree (children ! Suc (route keys key)) Q \<and> B = Q @ B')"
proof (rule tree_rep_node[OF assms])
  fix m' keys children parts
  assume t: "Suc m = Suc m'" "m' < 255" "reader_node crc r tree i = Inr (NInternal (of_nat (Suc m)) keys children)"
    "list_all2 (tree_rep m' crc r tree) children parts" "cells = concat parts" "keys = map (\<lambda>p. lc_key (hd p)) (tl parts)"
    "length children = length keys + 1" "length parts = length children" "\<forall>p \<in> set parts. p \<noteq> []"
  let ?k = "route keys key"
  have asc: "ascending (map lc_key (concat parts))" using tree_rep_cells[OF assms] t(5) by simp
  have ne: "parts \<noteq> []" using t(7,8) by auto
  note R = route_parts[OF asc t(9) ne, of key, folded t(6)]
  have split: "cells = concat (take ?k parts) @ parts ! ?k @ concat (drop (Suc ?k) parts)"
    using id_take_nth_drop[OF R(1)] t(5) by (metis concat.simps(2) concat_append)
  have rep: "tree_rep m crc r tree (children ! k) (parts ! k)" if "k < length children" for k
    using t(1,4) that by (simp add: list_all2_conv_all_nth)
  have tail: "(concat (drop (Suc ?k) parts) = [] \<and> Suc ?k = length children) \<or>
    (\<exists>Q B'. Suc ?k < length children \<and> tree_rep m crc r tree (children ! Suc ?k) Q \<and> concat (drop (Suc ?k) parts) = Q @ B')"
  proof (cases "Suc ?k < length children")
    case True
    have "concat (drop (Suc ?k) parts) = parts ! Suc ?k @ concat (drop (Suc (Suc ?k)) parts)"
      using True t(8) by (simp add: Cons_nth_drop_Suc[symmetric])
    then show ?thesis using True rep[OF True] by blast
  next
    case False
    then show ?thesis using R(1) t(8) by simp
  qed
  show thesis by (rule that[OF _ t(3) _ rep split R(2,3) tail]) (use t(1,2,8) R(1) in simp_all)
qed simp

lemma tree_rep_leaf: "tree_rep 0 crc r tree i cells \<Longrightarrow> fits 0 expected \<Longrightarrow> load crc r tree i expected = Inr (NLeaf cells)"
  by (simp add: load_rep)

subsection \<open>Lookups read the cells\<close>

lemma takeWhile_split:
  "\<forall>x \<in> set xs. p x \<Longrightarrow> ys = [] \<or> \<not> p (hd ys) \<Longrightarrow> takeWhile p (xs @ ys) = xs"
  by (cases ys) simp_all

lemma find_append: "List.find p (xs @ ys) = (case List.find p xs of None \<Rightarrow> List.find p ys | Some x \<Rightarrow> Some x)"
  by (induction xs) auto

lemma find_none: "\<forall>x \<in> set xs. \<not> p x \<Longrightarrow> List.find p xs = None"
  by (simp add: find_None_iff)

lemma sorted_above:
  "sorted_wrt (\<lambda>c d. lc_key c < lc_key d) B \<Longrightarrow> B \<noteq> [] \<Longrightarrow> (key :: bytes) \<le> lc_key (hd B) \<Longrightarrow> \<forall>c \<in> set B. key \<le> lc_key c"
  by (cases B) (auto intro: order_trans less_imp_le)

lemma sorted_dropWhile:
  "sorted_wrt (\<lambda>c d. lc_key c < lc_key d) cells \<Longrightarrow> sorted_wrt (\<lambda>c d. lc_key c < lc_key d) (dropWhile p cells)"
  by (metis sorted_wrt_append takeWhile_dropWhile_id)

lemma dropWhile_above:
  assumes "ascending (map lc_key cells)"
  shows "\<forall>c \<in> set (dropWhile (\<lambda>c. lc_key c < key) cells). key \<le> lc_key c"
proof (cases "dropWhile (\<lambda>c. lc_key c < key) cells = []")
  case False
  then have "key \<le> lc_key (hd (dropWhile (\<lambda>c. lc_key c < key) cells))"
    using hd_dropWhile[of "\<lambda>c. lc_key c < key" cells] by simp
  then show ?thesis using assms False by (intro sorted_above sorted_dropWhile) (simp_all add: ascending_iff sorted_wrt_map)
next
  case True
  show ?thesis unfolding True by simp
qed

lemma sorted_key_split:
  assumes "ascending (map lc_key cells)"
  obtains A B where "cells = A @ B" "\<forall>c \<in> set A. lc_key c < key" "\<forall>c \<in> set B. key \<le> lc_key c"
    "length (takeWhile (\<lambda>c. lc_key c < key) cells) = length A"
proof -
  have "\<forall>c \<in> set (takeWhile (\<lambda>c. lc_key c < key) cells). lc_key c < key"
    using set_takeWhileD[of _ "\<lambda>c. lc_key c < key" cells] by blast
  from that[OF takeWhile_dropWhile_id[symmetric] this dropWhile_above[OF assms] refl] show thesis .
qed

definition find_cell :: "bytes \<Rightarrow> leaf_cell list \<Rightarrow> leaf_cell option" where
  "find_cell key = List.find (\<lambda>c. lc_key c = key)"

lemma search_cell:
  assumes "ascending (map lc_key cells)"
  shows "find_cell key cells = (case search cells key of Inr i \<Rightarrow> Some (cells ! i) | Inl _ \<Rightarrow> None)"
proof -
  obtain A B where s: "cells = A @ B" "\<forall>c \<in> set A. lc_key c < key" "\<forall>c \<in> set B. key \<le> lc_key c"
    "length (takeWhile (\<lambda>c. lc_key c < key) cells) = length A"
    by (rule sorted_key_split[OF assms])
  have a: "find_cell key A = None" using s(2) by (auto simp: find_cell_def intro!: find_none)
  have b: "find_cell key B = (if B \<noteq> [] \<and> lc_key (hd B) = key then Some (hd B) else None)"
  proof (cases B)
    case (Cons c B')
    have "lc_key c < lc_key d" if "d \<in> set B'" for d
      using assms that by (auto simp: s(1) Cons ascending_iff sorted_wrt_append)
    then have "find_cell key B' = None" if "lc_key c \<noteq> key"
      using s(3) Cons that unfolding find_cell_def by (intro find_none) force
    then show ?thesis by (auto simp: Cons find_cell_def)
  qed (simp add: find_cell_def)
  show ?thesis using a b s(1,4)
    by (cases B) (auto simp: search_def Let_def find_cell_def find_append)
qed

lemma get_rep:
  "tree_rep n crc r tree i cells \<Longrightarrow> fits n expected \<Longrightarrow>
   get_from crc r tree key i expected =
     (case find_cell key cells of None \<Rightarrow> Inr None | Some c \<Rightarrow> rbind (reader_value crc r tree (lc_value c)) (\<lambda>v. Inr (Some v)))"
proof (induction n arbitrary: i cells expected)
  case 0
  have "ascending (map lc_key cells)" using tree_rep_cells[OF 0(1)] by simp
  then show ?case using tree_rep_leaf[OF 0] search_cell[of cells key]
    by (subst get_from.simps) (auto simp: load_shared_eq split: sum.splits)
next
  case (Suc m)
  show ?case
  proof (rule tree_rep_route[OF Suc.prems(1), of key])
    fix keys children A P B
    assume t: "m < 255" "reader_node crc r tree i = Inr (NInternal (of_nat (Suc m)) keys children)"
      "route keys key < length children" "tree_rep m crc r tree (children ! route keys key) P" "cells = A @ P @ B"
      "\<forall>c \<in> set A. lc_key c < key" "\<forall>c \<in> set B. key < lc_key c"
    have "find_cell key A = None" "find_cell key B = None" using t(6,7) by (auto simp: find_cell_def intro!: find_none)
    then have "find_cell key cells = find_cell key P" by (simp add: t(5) find_cell_def find_append split: option.splits)
    then show ?thesis
      using load_rep(2)[OF t(2) Suc.prems(2)] t(1,3) Suc.IH[OF t(4), of "Some (of_nat m)"]
      by (subst get_from.simps) (simp add: load_shared_eq at_def level_below del: of_nat_Suc)
  qed
qed

lemma seek_rep:
  "tree_rep n crc r tree i cells \<Longrightarrow> fits n expected \<Longrightarrow>
   seek_from crc r tree key i expected successor =
     (case List.find (\<lambda>c. key \<le> lc_key c) cells of
        Some c \<Rightarrow> Inr (Some c)
      | None \<Rightarrow> (case successor of None \<Rightarrow> Inr None | Some (next, l) \<Rightarrow> seek_from crc r tree key next (Some l) None))"
proof (induction n arbitrary: i cells expected successor)
  case 0
  have asc: "ascending (map lc_key cells)" using tree_rep_cells[OF 0(1)] by simp
  obtain A B where s: "cells = A @ B" "\<forall>c \<in> set A. lc_key c < key" "\<forall>c \<in> set B. key \<le> lc_key c"
    "length (takeWhile (\<lambda>c. lc_key c < key) cells) = length A" by (rule sorted_key_split[OF asc])
  have "List.find (\<lambda>c. key \<le> lc_key c) A = None" using s(2) by (auto intro!: find_none)
  then have "List.find (\<lambda>c. key \<le> lc_key c) cells = (if B = [] then None else Some (hd B))"
    using s(3) by (cases B) (auto simp: s(1) find_append)
  then show ?case using tree_rep_leaf[OF 0] s(1,4)
    by (subst seek_from.simps) (cases B; simp add: load_shared_eq Let_def)
next
  case (Suc m)
  show ?case
  proof (rule tree_rep_route[OF Suc.prems(1), of key])
    fix keys children A P B
    let ?k = "route keys key"
    assume t: "m < 255" "reader_node crc r tree i = Inr (NInternal (of_nat (Suc m)) keys children)"
      "?k < length children" "tree_rep m crc r tree (children ! ?k) P" "cells = A @ P @ B"
      "\<forall>c \<in> set A. lc_key c < key" "\<forall>c \<in> set B. key < lc_key c"
      "(B = [] \<and> Suc ?k = length children) \<or>
       (\<exists>Q B'. Suc ?k < length children \<and> tree_rep m crc r tree (children ! Suc ?k) Q \<and> B = Q @ B')"
    let ?next = "if Suc ?k < length children then Some (children ! Suc ?k, of_nat m) else successor"
    have step: "seek_from crc r tree key i expected successor = seek_from crc r tree key (children ! ?k) (Some (of_nat m)) ?next"
      using load_rep(2)[OF t(2) Suc.prems(2)] t(1,3)
      by (subst seek_from.simps) (simp add: load_shared_eq at_def level_below Let_def del: of_nat_Suc)
    note IH = Suc.IH[OF t(4), of "Some (of_nat m)" ?next, simplified fits_simps, OF refl]
    have a: "List.find (\<lambda>c. key \<le> lc_key c) A = None" using t(6) by (auto intro!: find_none)
    show ?thesis
    proof (cases "List.find (\<lambda>c. key \<le> lc_key c) P")
      case (Some c)
      then show ?thesis using step IH a by (simp add: t(5) find_append)
    next
      case None
      from t(8) show ?thesis
      proof
        assume "B = [] \<and> Suc ?k = length children"
        then show ?thesis using step IH a None by (simp add: t(5) find_append)
      next
        assume "\<exists>Q B'. Suc ?k < length children \<and> tree_rep m crc r tree (children ! Suc ?k) Q \<and> B = Q @ B'"
        then obtain Q B' where Q: "Suc ?k < length children" "tree_rep m crc r tree (children ! Suc ?k) Q" "B = Q @ B'" by blast
        obtain q Q' where q: "Q = q # Q'" using tree_rep_cells[OF Q(2)] by (cases Q) auto
        have "List.find (\<lambda>c. key \<le> lc_key c) Q = Some q" using t(7) Q(3) q by auto
        then show ?thesis
          using step IH a None Q(1) Suc.IH[OF Q(2), of "Some (of_nat m)" None] by (simp add: t(5) Q(3) find_append)
      qed
    qed
  qed
qed

lemma minimum_rep:
  "tree_rep n crc r tree i cells \<Longrightarrow> fits n expected \<Longrightarrow> minimum crc r tree i expected = Inr (lc_key (hd cells))"
proof (induction n arbitrary: i cells expected)
  case 0
  then show ?case using tree_rep_leaf[OF 0] tree_rep_cells[OF 0(1)] by (subst minimum.simps) (simp add: load_shared_eq at_def hd_conv_nth)
next
  case (Suc m)
  show ?case
  proof (rule tree_rep_node[OF Suc.prems(1)])
    fix m' keys children parts
    assume t: "Suc m = Suc m'" "m' < 255" "reader_node crc r tree i = Inr (NInternal (of_nat (Suc m)) keys children)"
      "list_all2 (tree_rep m' crc r tree) children parts" "cells = concat parts" "length children = length keys + 1"
      "length parts = length children" "\<forall>p \<in> set parts. p \<noteq> []"
    have rep: "tree_rep m crc r tree (children ! 0) (parts ! 0)" using list_all2_nthD[OF t(4), of 0] t(1,6) by simp
    have ne: "children \<noteq> []" using t(6) by auto
    have "lc_key (hd cells) = lc_key (hd (parts ! 0))" using t(5-8) by (cases parts) auto
    then show ?thesis using load_rep(2)[OF t(3) Suc.prems(2)] t(1,2) ne Suc.IH[OF rep, of "Some (of_nat m)"]
      by (subst minimum.simps) (simp add: load_shared_eq at_def level_below del: of_nat_Suc)
  qed simp
qed

subsection \<open>Scans read the cells within the bounds\<close>

primrec stack_rep :: "(bytes \<Rightarrow> u32) \<Rightarrow> page_reader \<Rightarrow> tree_id \<Rightarrow> (node \<times> nat) list \<Rightarrow> leaf_cell list \<Rightarrow> bool" where
  "stack_rep crc r tree [] cells \<longleftrightarrow> cells = []"
| "stack_rep crc r tree (frame # stack) cells \<longleftrightarrow>
     (\<exists>m keys children parts rest. fst frame = NInternal (of_nat (Suc m)) keys children \<and> m < 255 \<and> snd frame \<le> length children \<and>
        list_all2 (tree_rep m crc r tree) (drop (snd frame) children) parts \<and> cells = concat parts @ rest \<and> stack_rep crc r tree stack rest)"

lemma above_mono: "above lower (j :: bytes) \<Longrightarrow> j < k \<Longrightarrow> above lower k"
  by (cases lower) auto

lemma drop_below:
  assumes "ascending (map lc_key cells)"
  shows "drop (length (takeWhile (\<lambda>c. \<not> above lower (lc_key c)) cells)) cells = filter (\<lambda>c. above lower (lc_key c)) cells"
  using assms
proof (induction cells)
  case (Cons c cells)
  show ?case
  proof (cases "above lower (lc_key c)")
    case True
    have "\<forall>d \<in> set cells. above lower (lc_key d)" using Cons.prems above_mono[OF True] by (auto simp: ascending_iff)
    then show ?thesis using True by simp
  next
    case False
    then show ?thesis using Cons by (simp add: ascending_iff)
  qed
qed simp

lemma descend_rep:
  "tree_rep n crc r tree i cells \<Longrightarrow> fits n expected \<Longrightarrow> stack_rep crc r tree (ts_stack s) rest \<Longrightarrow>
   \<exists>stack leaf k rest'. descend crc r tree lower i expected s = Inr (s\<lparr>ts_stack := stack, ts_leaf := Some leaf, ts_next := k\<rparr>) \<and>
     stack_rep crc r tree stack rest' \<and> drop k leaf @ rest' = filter (\<lambda>c. above lower (lc_key c)) cells @ rest"
proof (induction n arbitrary: i cells expected s rest)
  case 0
  let ?k = "length (takeWhile (\<lambda>c. \<not> above lower (lc_key c)) cells)"
  have "descend crc r tree lower i expected s = Inr (s\<lparr>ts_stack := ts_stack s, ts_leaf := Some cells, ts_next := ?k\<rparr>)"
    using tree_rep_leaf[OF 0(1,2)] by (subst descend.simps) (simp add: load_shared_eq Let_def)
  moreover have "drop ?k cells @ rest = filter (\<lambda>c. above lower (lc_key c)) cells @ rest"
    using drop_below[of cells lower] tree_rep_cells[OF 0(1)] by simp
  ultimately show ?case using 0(3) by blast
next
  case (Suc m)
  show ?case
  proof (rule tree_rep_node[OF Suc.prems(1)])
    fix m' keys children parts
    assume t: "Suc m = Suc m'" "m' < 255" "reader_node crc r tree i = Inr (NInternal (of_nat (Suc m)) keys children)"
      "list_all2 (tree_rep m' crc r tree) children parts" "cells = concat parts" "keys = map (\<lambda>p. lc_key (hd p)) (tl parts)"
      "length children = length keys + 1" "length parts = length children" "\<forall>p \<in> set parts. p \<noteq> []"
    define index where "index = (case lower of Unbounded \<Rightarrow> 0 | Included key \<Rightarrow> route keys key | Excluded key \<Rightarrow> route keys key)"
    let ?A = "concat (take index parts)" and ?B = "concat (drop (Suc index) parts)"
    have asc: "ascending (map lc_key (concat parts))" using tree_rep_cells[OF Suc.prems(1)] t(5) by simp
    have ne: "parts \<noteq> []" using t(7,8) by auto
    note R = route_parts[OF asc t(9) ne, folded t(6)]
    have ix: "index < length parts" using R(1) ne by (auto simp: index_def split: bound.splits)
    have A: "\<forall>c \<in> set ?A. \<not> above lower (lc_key c)"
      using R(2) by (cases lower) (fastforce simp: index_def)+
    have B: "\<forall>c \<in> set ?B. above lower (lc_key c)"
      using R(3) by (cases lower) (fastforce simp: index_def)+
    have cells: "cells = ?A @ parts ! index @ ?B"
      using id_take_nth_drop[OF ix] t(5) by (metis concat.simps(2) concat_append)
    have rep: "tree_rep m crc r tree (children ! index) (parts ! index)"
      using list_all2_nthD[OF t(4), of index] t(1,8) ix by simp
    let ?n = "NInternal (of_nat (Suc m)) keys children"
    have "list_all2 (tree_rep m crc r tree) (drop (Suc index) children) (drop (Suc index) parts)"
      using list_all2_dropI[OF t(4)] t(1) by simp
    then have st: "stack_rep crc r tree (ts_stack (s\<lparr>ts_stack := (?n, Suc index) # ts_stack s\<rparr>)) (?B @ rest)"
      using Suc.prems(3) t(1,2,8) ix by (auto simp del: of_nat_Suc intro!: exI[of _ m] exI[of _ "drop (Suc index) parts"])
    obtain stack leaf k rest' where d: "descend crc r tree lower (children ! index) (Some (of_nat m)) (s\<lparr>ts_stack := (?n, Suc index) # ts_stack s\<rparr>) =
        Inr (s\<lparr>ts_stack := (?n, Suc index) # ts_stack s\<rparr>\<lparr>ts_stack := stack, ts_leaf := Some leaf, ts_next := k\<rparr>)"
      "stack_rep crc r tree stack rest'" "drop k leaf @ rest' = filter (\<lambda>c. above lower (lc_key c)) (parts ! index) @ ?B @ rest"
      using Suc.IH[OF rep, of "Some (of_nat m)", OF _ st] by auto
    have "descend crc r tree lower i expected s = Inr (s\<lparr>ts_stack := stack, ts_leaf := Some leaf, ts_next := k\<rparr>)"
      using load_rep(2)[OF t(3) Suc.prems(2)] d(1) t(1,2,8) ix
      by (subst descend.simps) (simp add: load_shared_eq at_def level_below Let_def index_def[symmetric] del: of_nat_Suc)
    moreover have "filter (\<lambda>c. above lower (lc_key c)) cells = filter (\<lambda>c. above lower (lc_key c)) (parts ! index) @ ?B"
      using A B by (simp add: cells filter_False filter_True)
    ultimately show ?thesis using d(2,3) by auto
  qed simp
qed

text \<open>What a scan yields for the cells it has before it.\<close>

fun emit :: "(bytes \<Rightarrow> u32) \<Rightarrow> page_reader \<Rightarrow> tree_id \<Rightarrow> bytes bound \<Rightarrow> leaf_cell list \<Rightarrow> (storage_error + entry) list" where
  "emit crc r tree upper [] = []"
| "emit crc r tree upper (c # cells) =
     (if \<not> beneath upper (lc_key c) then []
      else case reader_value crc r tree (lc_value c) of
        Inl e \<Rightarrow> [Inl e]
      | Inr v \<Rightarrow> Inr (lc_key c, v) # emit crc r tree upper cells)"

definition scan_rep :: "(bytes \<Rightarrow> u32) \<Rightarrow> page_reader \<Rightarrow> tree_id \<Rightarrow> tree_scan \<Rightarrow> leaf_cell list \<Rightarrow> bool" where
  "scan_rep crc r tree s cells \<longleftrightarrow> ascending (map lc_key cells) \<and>
     (\<forall>seen. ts_last s = Some seen \<longrightarrow> (\<forall>c \<in> set cells. seen < lc_key c)) \<and>
     (\<exists>rest. stack_rep crc r tree (ts_stack s) rest \<and>
        cells = (case ts_leaf s of None \<Rightarrow> [] | Some leaf \<Rightarrow> drop (ts_next s) leaf) @ rest)"

lemma scan_rep_pop:
  assumes "scan_rep crc r tree s cells" "ts_stack s = (NInternal level keys children, length children) # stack"
  shows "scan_rep crc r tree (s\<lparr>ts_stack := stack\<rparr>) cells"
  using assms by (cases "ts_leaf s") (auto simp: scan_rep_def)

lemma scan_rep_descend:
  assumes rep: "scan_rep crc r tree s cells" and st: "ts_stack s = (NInternal level keys children, j) # stack" "j < length children"
    and spent: "case ts_leaf s of None \<Rightarrow> True | Some leaf \<Rightarrow> length leaf \<le> ts_next s"
  obtains l s' where "below level = Inr l" "scan_rep crc r tree s' cells" "ts_upper s' = ts_upper s"
    "descend crc r tree Unbounded (children ! j) (Some l) (s\<lparr>ts_stack := (NInternal level keys children, Suc j) # stack\<rparr>) = Inr s'"
proof -
  obtain m parts rest where m: "level = of_nat (Suc m)" "m < 255" "list_all2 (tree_rep m crc r tree) (drop j children) parts"
    "cells = concat parts @ rest" "stack_rep crc r tree stack rest"
    using rep st spent by (auto simp: scan_rep_def split: option.splits)
  obtain p parts' where p: "parts = p # parts'" "tree_rep m crc r tree (children ! j) p"
    "list_all2 (tree_rep m crc r tree) (drop (Suc j) children) parts'"
    using m(3) by (auto simp: Cons_nth_drop_Suc[OF st(2), symmetric] list_all2_Cons1)
  let ?s = "s\<lparr>ts_stack := (NInternal level keys children, Suc j) # stack\<rparr>"
  have "stack_rep crc r tree (ts_stack ?s) (concat parts' @ rest)" using m(1,2,5) p(3) st(2) by (auto simp del: of_nat_Suc)
  from descend_rep[OF p(2), of "Some (of_nat m)", OF _ this, of Unbounded]
  obtain stack' leaf k rest' where d: "descend crc r tree Unbounded (children ! j) (Some (of_nat m)) ?s = Inr (?s\<lparr>ts_stack := stack', ts_leaf := Some leaf, ts_next := k\<rparr>)"
    "stack_rep crc r tree stack' rest'" "drop k leaf @ rest' = p @ concat parts' @ rest" by auto
  show thesis
  proof (rule that)
    show "below level = Inr (of_nat m)" using m(1,2) by (simp add: level_below del: of_nat_Suc)
    show "scan_rep crc r tree (?s\<lparr>ts_stack := stack', ts_leaf := Some leaf, ts_next := k\<rparr>) cells"
      using rep d(2,3) m(4) p(1) by (auto simp: scan_rep_def)
  qed (use d(1) in simp_all)
qed

lemma scan_run_rep: "scan_rep crc r tree s cells \<Longrightarrow> scan_run crc r tree s = emit crc r tree (ts_upper s) cells"
proof (induction crc r tree s arbitrary: cells rule: scan_run.induct)
  case (1 crc r tree s)
  let ?cell = "case ts_leaf s of Some cells \<Rightarrow> if ts_next s < length cells then Some (cells ! ts_next s) else None | None \<Rightarrow> None"
  show ?case
  proof (cases ?cell)
    case (Some c)
    then obtain leaf where leaf: "ts_leaf s = Some leaf" "ts_next s < length leaf" "c = leaf ! ts_next s"
      by (auto split: option.splits if_splits)
    then obtain cells' where c: "cells = c # cells'" using "1.prems" by (auto simp: scan_rep_def Cons_nth_drop_Suc[symmetric])
    have next': "scan_rep crc r tree (s\<lparr>ts_next := ts_next s + 1, ts_last := Some (lc_key c)\<rparr>) cells'"
      using "1.prems" leaf c by (auto simp: scan_rep_def Cons_nth_drop_Suc[symmetric] ascending_iff)
    have fresh: "\<not> (case ts_last s of None \<Rightarrow> False | Some seen \<Rightarrow> seen \<ge> lc_key c)"
      using "1.prems" c by (auto simp: scan_rep_def split: option.splits)
    show ?thesis
    proof (cases "beneath (ts_upper s) (lc_key c)")
      case True
      note IH = "1.IH"(3)[OF Some, simplified True fresh, OF _ _ _ next', simplified]
      show ?thesis using True fresh Some IH c by (subst scan_run.simps) (simp split: sum.splits)
    next
      case False
      then show ?thesis using Some c by (subst scan_run.simps) simp
    qed
  next
    case None
    have spent: "case ts_leaf s of None \<Rightarrow> True | Some leaf \<Rightarrow> length leaf \<le> ts_next s"
      using None by (auto split: option.splits if_splits)
    show ?thesis
    proof (cases "ts_stack s")
      case Nil
      have "cells = []" using "1.prems" spent Nil by (auto simp: scan_rep_def split: option.splits)
      then show ?thesis using None Nil by (subst scan_run.simps) simp
    next
      case (Cons frame stack)
      then obtain level keys children j where f: "frame = (NInternal level keys children, j)" "j \<le> length children"
        using "1.prems" by (cases frame) (auto simp: scan_rep_def)
      show ?thesis
      proof (cases "j = length children")
        case True
        show ?thesis using "1.IH"(1)[OF None Cons f(1)[symmetric] refl True scan_rep_pop[OF "1.prems" Cons[unfolded f(1) True]]] None Cons f True
          by (subst scan_run.simps) simp
      next
        case False
        have j: "j < length children" using False f(2) by simp
        show ?thesis
        proof (rule scan_rep_descend[OF "1.prems" Cons[unfolded f(1)] j spent])
          fix l s'
          assume d: "below level = Inr l" "scan_rep crc r tree s' cells" "ts_upper s' = ts_upper s"
            "descend crc r tree Unbounded (children ! j) (Some l) (s\<lparr>ts_stack := (NInternal level keys children, Suc j) # stack\<rparr>) = Inr s'"
          have "scan_run crc r tree s' = emit crc r tree (ts_upper s') cells"
            using "1.IH"(2)[OF None Cons f(1)[symmetric] refl False _ _ d(2)] d(1,4) j by simp
          then show ?thesis using None Cons f d j False by (subst scan_run.simps) simp
        qed
      qed
    qed
  qed
qed

subsection \<open>A tree as an ordered map\<close>

text \<open>\<open>tree_holds\<close>: the tree at \<open>root\<close> holds exactly the entries, in key order.\<close>

definition cell_entry :: "(bytes \<Rightarrow> u32) \<Rightarrow> page_reader \<Rightarrow> tree_id \<Rightarrow> leaf_cell \<Rightarrow> entry \<Rightarrow> bool" where
  "cell_entry crc r tree c e \<longleftrightarrow> lc_key c = fst e \<and> reader_value crc r tree (lc_value c) = Inr (snd e)"

definition tree_holds :: "(bytes \<Rightarrow> u32) \<Rightarrow> page_reader \<Rightarrow> tree_id \<Rightarrow> u64 \<Rightarrow> entry list \<Rightarrow> bool" where
  "tree_holds crc r tree root ents \<longleftrightarrow>
     (if root = 0 then ents = []
      else \<exists>n cells. tree_rep n crc r tree root cells \<and> list_all2 (cell_entry crc r tree) cells ents)"

lemma entry_keys: "list_all2 (cell_entry crc r tree) cells ents \<Longrightarrow> map lc_key cells = map fst ents"
  by (induction rule: list_all2_induct) (simp_all add: cell_entry_def)

lemma find_entry:
  "list_all2 (cell_entry crc r tree) cells ents \<Longrightarrow>
   (case find_cell key cells of None \<Rightarrow> Inr None | Some c \<Rightarrow> rbind (reader_value crc r tree (lc_value c)) (\<lambda>v. Inr (Some v))) =
   Inr (map_of ents key)"
  by (induction rule: list_all2_induct) (auto simp: cell_entry_def find_cell_def)

lemma first_entry:
  "list_all2 (cell_entry crc r tree) cells ents \<Longrightarrow>
   rel_option (cell_entry crc r tree) (List.find (\<lambda>c. key \<le> lc_key c) cells) (List.find (\<lambda>e. key \<le> fst e) ents)"
  by (induction rule: list_all2_induct) (auto simp: cell_entry_def)

lemma filter_entries:
  "list_all2 (cell_entry crc r tree) cells ents \<Longrightarrow>
   list_all2 (cell_entry crc r tree) (filter (\<lambda>c. p (lc_key c)) cells) (filter (\<lambda>e. p (fst e)) ents)"
  by (induction rule: list_all2_induct) (auto simp: cell_entry_def)

lemma beneath_mono: "beneath upper (k :: bytes) \<Longrightarrow> j < k \<Longrightarrow> beneath upper j"
  by (cases upper) auto

lemma emit_entries:
  "list_all2 (cell_entry crc r tree) cells ents \<Longrightarrow> ascending (map lc_key cells) \<Longrightarrow>
   emit crc r tree upper cells = map Inr (filter (\<lambda>e. beneath upper (fst e)) ents)"
proof (induction rule: list_all2_induct)
  case (Cons c cells e ents)
  show ?case
  proof (cases "beneath upper (lc_key c)")
    case True
    then show ?thesis using Cons by (cases e) (simp add: cell_entry_def ascending_iff)
  next
    case False
    have "\<not> beneath upper (fst e')" if "e' \<in> set ents" for e'
    proof -
      have "fst e' \<in> lc_key ` set cells" using that entry_keys[OF Cons(2)] by (metis image_eqI list.set_map)
      then show ?thesis using Cons.prems False beneath_mono by (auto simp: ascending_iff)
    qed
    then show ?thesis using False Cons(1) by (simp add: cell_entry_def filter_False)
  qed
qed simp

lemma tree_holds_later: "tree_holds crc (pf_reader f) tree root ents \<Longrightarrow> later f f' \<Longrightarrow> tree_holds crc (pf_reader f') tree root ents"
proof (cases "root = 0")
  case False
  assume later: "later f f'" and "tree_holds crc (pf_reader f) tree root ents"
  then obtain n cells where t: "tree_rep n crc (pf_reader f) tree root cells" "list_all2 (cell_entry crc (pf_reader f) tree) cells ents"
    using False by (auto simp: tree_holds_def)
  have "list_all2 (cell_entry crc (pf_reader f') tree) cells ents"
    using t(2) by (rule list_all2_mono) (simp add: cell_entry_def later_value[OF later])
  then show ?thesis using tree_rep_later[OF t(1) later] False unfolding tree_holds_def by auto
qed (simp add: tree_holds_def)

lemma tree_holds_ascending: "tree_holds crc r tree root ents \<Longrightarrow> ascending (map fst ents)"
  by (auto simp: tree_holds_def dest!: tree_rep_cells dest: entry_keys split: if_splits)

lemma scan_empty_filter: "scan_empty lo hi \<Longrightarrow> filter (\<lambda>e. above lo (fst e) \<and> beneath hi (fst e)) (ents :: entry list) = []"
  by (cases lo; cases hi) (auto simp: scan_empty_def filter_empty_conv)

lemma tree_get_holds: "tree_holds crc r tree root ents \<Longrightarrow> length key \<le> MAX_KEY \<Longrightarrow> tree_get crc r tree root key = Inr (map_of ents key)"
  by (auto simp: tree_holds_def tree_get_def tree_check_key_def get_rep find_entry split: if_splits)

lemma tree_seek_holds:
  assumes "tree_holds crc r tree root ents" "length key \<le> MAX_KEY"
  obtains found where "tree_seek crc r tree root key = Inr found"
    "rel_option (cell_entry crc r tree) found (List.find (\<lambda>e. key \<le> fst e) ents)"
proof (cases "root = 0")
  case True
  then show thesis using that[of None] assms by (simp add: tree_holds_def tree_seek_def tree_check_key_def)
next
  case False
  then obtain n cells where t: "tree_rep n crc r tree root cells" "list_all2 (cell_entry crc r tree) cells ents"
    using assms(1) by (auto simp: tree_holds_def)
  show thesis using that[OF _ first_entry[OF t(2), of key]] seek_rep[OF t(1), of None key None] assms(2) False
    by (auto simp: tree_seek_def tree_check_key_def split: option.splits)
qed

lemma tree_scan_holds:
  assumes "tree_holds crc r tree root ents" "check_scan_bound lo = Inr ()" "check_scan_bound hi = Inr ()"
  shows "tree_scan_all crc r tree root lo hi = Inr (map Inr (filter (\<lambda>e. above lo (fst e) \<and> beneath hi (fst e)) ents))"
proof (cases "root = 0 \<or> scan_empty lo hi")
  case True
  then show ?thesis using assms scan_empty_filter[of lo hi ents]
    by (auto simp: tree_scan_all_def tree_scan_start_def tree_holds_def Let_def)
next
  case False
  then obtain n cells where t: "tree_rep n crc r tree root cells" "list_all2 (cell_entry crc r tree) cells ents"
    using assms(1) by (auto simp: tree_holds_def)
  define s where "s = \<lparr>ts_stack = [], ts_leaf = None, ts_next = 0, ts_upper = hi, ts_last = None, ts_done = False\<rparr>"
  have asc: "ascending (map lc_key (filter (\<lambda>c. above lo (lc_key c)) cells))"
    using tree_rep_cells[OF t(1)] by (simp add: ascending_iff sorted_wrt_map sorted_wrt_filter)
  have "stack_rep crc r tree (ts_stack s) []" by (simp add: s_def)
  from descend_rep[OF t(1) _ this, of None lo]
  obtain stack leaf k rest where d: "descend crc r tree lo root None s = Inr (s\<lparr>ts_stack := stack, ts_leaf := Some leaf, ts_next := k\<rparr>)"
    "stack_rep crc r tree stack rest" "drop k leaf @ rest = filter (\<lambda>c. above lo (lc_key c)) cells" by auto
  let ?s = "s\<lparr>ts_stack := stack, ts_leaf := Some leaf, ts_next := k\<rparr>"
  have rep: "scan_rep crc r tree ?s (filter (\<lambda>c. above lo (lc_key c)) cells)"
    unfolding scan_rep_def using asc d(2,3) by (intro conjI exI[of _ rest]) (simp_all add: s_def)
  have "scan_run crc r tree ?s = map Inr (filter (\<lambda>e. beneath hi (fst e)) (filter (\<lambda>e. above lo (fst e)) ents))"
    unfolding scan_run_rep[OF rep] emit_entries[OF filter_entries[OF t(2)] asc] by (simp add: s_def)
  then have "tree_scan_all crc r tree root lo hi = Inr (map Inr (filter (\<lambda>e. beneath hi (fst e)) (filter (\<lambda>e. above lo (fst e)) ents)))"
    using assms(2,3) False d(1) by (simp add: tree_scan_all_def tree_scan_start_def s_def)
  then show ?thesis by (simp add: filter_filter conj_commute)
qed

subsection \<open>Validation\<close>

lemma overflow_fewer:
  "overflow_pages crc r tree i n owned out = Inr (o1, bs) \<Longrightarrow> fewer \<subseteq> owned \<Longrightarrow> \<exists>o2. overflow_pages crc r tree i n fewer out = Inr (o2, bs)"
proof (induction n arbitrary: i owned fewer out rule: less_induct)
  case (less n)
  show ?case
  proof (cases "n = 0")
    case True
    then show ?thesis using less.prems by (simp add: overflow_pages.simps)
  next
    case False
    let ?len = "min n PAYLOAD_SIZE"
    obtain p where p: "i \<notin> owned" "reader_read crc r i (Some tree) = Inr p" "p ! 6 = 3" "unat (u32_at p 40) = ?len"
      "(u64_at p 32 = 0) = (n - ?len = 0)"
      "overflow_pages crc r tree (u64_at p 32) (n - ?len) (insert i owned) (out @ take ?len (drop 64 p)) = Inr (o1, bs)"
      using less.prems(1) False by (subst (asm) overflow_pages.simps) (auto simp: rbind_eq_Inr Let_def split: if_splits)
    have "n - ?len < n" using False by (auto simp: PAYLOAD_SIZE_def PAGE_SIZE_def HEADER_SIZE_def)
    from less.IH[OF this p(6) insert_mono[OF less.prems(2)]] show ?thesis
      using p less.prems(2) False by (subst overflow_pages.simps) (auto simp: Let_def)
  qed
qed

lemma validate_value_reads:
  assumes "reader_validate_value crc r tree v owned = Inr owned'"
  obtains bs where "reader_value crc r tree v = Inr bs"
proof (cases v)
  case (Overflow len head)
  then obtain o1 bs where "overflow_pages crc r tree head len owned [] = Inr (o1, bs)" "INLINE_LIMIT + 1 \<le> len \<and> len \<le> MAX_VALUE"
    using assms by (auto simp: reader_validate_value_def walk_overflow_def rbind_eq_Inr split: if_splits)
  then show thesis using overflow_fewer[of crc r tree head len owned "[]" o1 bs "{}"] that Overflow
    by (auto simp: reader_value_def walk_overflow_def)
qed (use that in \<open>simp add: reader_value_def\<close>)

lemma validate_values_read:
  "validate_values crc r tree cells owned = Inr owned' \<Longrightarrow> \<forall>c \<in> set cells. \<exists>bs. reader_value crc r tree (lc_value c) = Inr bs"
  by (induction cells arbitrary: owned) (auto simp: rbind_eq_Inr elim: validate_value_reads)

text \<open>A sound subtree: its cells lie between the two keys and their values can be read.\<close>

definition sound :: "nat \<Rightarrow> (bytes \<Rightarrow> u32) \<Rightarrow> page_reader \<Rightarrow> tree_id \<Rightarrow> u64 \<Rightarrow> leaf_cell list \<Rightarrow> bytes \<times> bytes \<Rightarrow> bool" where
  "sound n crc r tree i cells span \<longleftrightarrow> tree_rep n crc r tree i cells \<and> span = (lc_key (hd cells), lc_key (last cells)) \<and>
     (\<forall>c \<in> set cells. \<exists>bs. reader_value crc r tree (lc_value c) = Inr bs)"

lemma ascending_join:
  assumes "ascending xs" "ascending ys" "xs \<noteq> []" "ys \<noteq> []" "last xs < (hd ys :: 'a :: linorder)"
  shows "ascending (xs @ ys)"
proof -
  have "x \<le> last xs" if "x \<in> set xs" for x
    using that assms(1) by (induction xs rule: rev_induct) (auto simp: ascending_iff sorted_wrt_append less_imp_le)
  moreover have "hd ys \<le> y" if "y \<in> set ys" for y
    using that assms(2) by (cases ys) (auto simp: ascending_iff less_imp_le)
  ultimately show ?thesis using assms by (fastforce simp: ascending_iff sorted_wrt_append)
qed

lemma validate_children_sound:
  assumes "validate_children check kcs greatest owned = Inr (g, owned')"
    and "\<And>k c o1 o2 span. (k, c) \<in> set kcs \<Longrightarrow> check c o1 = Inr (span, o2) \<Longrightarrow> \<exists>cells. sound m crc r tree c cells span"
    and "pre \<noteq> []" "ascending (map lc_key pre)" "lc_key (last pre) = greatest"
  shows "\<exists>parts. list_all2 (\<lambda>(k, c) p. tree_rep m crc r tree c p \<and> k = lc_key (hd p) \<and>
      (\<forall>x \<in> set p. \<exists>bs. reader_value crc r tree (lc_value x) = Inr bs)) kcs parts \<and>
    ascending (map lc_key (pre @ concat parts)) \<and> lc_key (last (pre @ concat parts)) = g"
  using assms
proof (induction kcs arbitrary: greatest owned pre)
  case Nil
  then show ?case by simp
next
  case (Cons kc kcs)
  obtain k c where kc: "kc = (k, c)" by force
  obtain lo hi o1 where c: "check c owned = Inr ((lo, hi), o1)" "k = lo" "greatest < lo" "validate_children check kcs hi o1 = Inr (g, owned')"
    using Cons.prems(1) kc by (auto simp: rbind_eq_Inr not_le split: if_splits)
  obtain p where p: "sound m crc r tree c p (lo, hi)" using Cons.prems(2)[OF _ c(1)] kc by auto
  have rep: "tree_rep m crc r tree c p" "lc_key (hd p) = lo" "lc_key (last p) = hi" using p by (simp_all add: sound_def)
  note pc = tree_rep_cells[OF rep(1)]
  have asc: "ascending (map lc_key (pre @ p))"
    unfolding map_append using Cons.prems(3,4,5) pc rep(2) c(3) by (intro ascending_join) (simp_all add: last_map hd_map)
  have "\<exists>parts. list_all2 (\<lambda>(k, c) p. tree_rep m crc r tree c p \<and> k = lc_key (hd p) \<and>
      (\<forall>x \<in> set p. \<exists>bs. reader_value crc r tree (lc_value x) = Inr bs)) kcs parts \<and>
    ascending (map lc_key ((pre @ p) @ concat parts)) \<and> lc_key (last ((pre @ p) @ concat parts)) = g"
  proof (rule Cons.IH[OF c(4) _ _ asc])
    show "\<exists>cells. sound m crc r tree c' cells span" if "(k', c') \<in> set kcs" "check c' o1 = Inr (span, o2)" for k' c' o1 o2 span
      using Cons.prems(2)[OF _ that(2), of k'] that(1) by simp
    show "pre @ p \<noteq> []" "lc_key (last (pre @ p)) = hi" using pc rep(3) by (simp_all add: last_append)
  qed
  then obtain parts where parts: "list_all2 (\<lambda>(k, c) p. tree_rep m crc r tree c p \<and> k = lc_key (hd p) \<and>
      (\<forall>x \<in> set p. \<exists>bs. reader_value crc r tree (lc_value x) = Inr bs)) kcs parts"
    "ascending (map lc_key ((pre @ p) @ concat parts))" "lc_key (last ((pre @ p) @ concat parts)) = g" by blast
  show ?case using parts p c(2) kc by (intro exI[of _ "p # parts"]) (simp add: sound_def)
qed

lemma validate_subtree_sound:
  "validate_subtree crc r tree expected i owned = Inr (span, owned') \<Longrightarrow> \<exists>n cells. sound n crc r tree i cells span \<and> fits n expected"
proof (induction "depth_bound expected" arbitrary: expected i owned span owned' rule: less_induct)
  case less
  obtain n where n: "load crc r tree i expected = Inr n"
    using less.prems by (subst (asm) validate_subtree.simps) (auto simp: rbind_eq_Inr split: if_splits)
  then have node: "reader_node crc r tree i = Inr n" "\<forall>l. expected = Some l \<longrightarrow> node_level n = l"
    by (auto simp: load_def level_check_def rbind_eq_Inr split: option.splits if_splits)
  show ?case
  proof (cases n)
    case (NLeaf cells)
    then obtain o1 where "validate_values crc r tree cells (insert i owned) = Inr o1" "span = (lc_key (hd cells), lc_key (last cells))"
      using less.prems n by (subst (asm) validate_subtree.simps) (auto simp: rbind_eq_Inr split: if_splits)
    then show ?thesis using node NLeaf validate_values_read
      by (intro exI[of _ 0] exI[of _ cells]) (auto simp: sound_def fits_def split: option.splits)
  next
    case (NInternal level keys children)
    obtain first rest l lo mid o1 hi o2 where v: "children = first # rest" "below level = Inr l"
      "validate_subtree crc r tree (Some l) first (insert i owned) = Inr ((lo, mid), o1)"
      "validate_children (\<lambda>child owned. validate_subtree crc r tree (Some l) child owned) (zip keys rest) mid o1 = Inr (hi, o2)" "span = (lo, hi)"
      using less.prems n NInternal
      by (subst (asm) validate_subtree.simps) (auto simp: rbind_eq_Inr split: if_splits list.splits)
    define m where "m = unat l"
    have lt: "depth_bound (Some l) < depth_bound expected" using descend_bound(1)[OF n[unfolded NInternal] v(2)] .
    have l: "l = of_nat m" "level = of_nat (Suc m)" "m < 255"
    proof -
      show "l = of_nat m" by (simp add: m_def)
      have *: "level \<noteq> 0" "l = level - 1" using v(2) by (simp_all add: below_Inr)
      then have u: "unat level = Suc m" using unat_eq_zero[of level] by (simp add: m_def unat_minus_one)
      show "level = of_nat (Suc m)" unfolding u[symmetric] by simp
      show "m < 255" using u unat_byte_less[of level] by simp
    qed
    have sub: "\<exists>cells. sound m crc r tree c cells ran" if ok: "validate_subtree crc r tree (Some l) c w = Inr (ran, w')" for c w ran w'
    proof -
      obtain k cells where k: "sound k crc r tree c cells ran" "fits k (Some l)" using less.hyps[OF lt ok] by blast
      have "k \<le> 255" using k(1) tree_rep_height by (auto simp: sound_def)
      then have "k = m" using k(2) l(1,3) level_unat[of k] level_unat[of m] by simp
      then show ?thesis using k(1) by blast
    qed
    obtain p where p: "sound m crc r tree first p (lo, mid)" using sub[OF v(3)] by blast
    have rep: "tree_rep m crc r tree first p" "lc_key (hd p) = lo" "lc_key (last p) = mid" using p by (simp_all add: sound_def)
    note pc = tree_rep_cells[OF rep(1)]
    obtain parts where parts: "list_all2 (\<lambda>(k, c) p. tree_rep m crc r tree c p \<and> k = lc_key (hd p) \<and>
        (\<forall>x \<in> set p. \<exists>bs. reader_value crc r tree (lc_value x) = Inr bs)) (zip keys rest) parts"
      "ascending (map lc_key (p @ concat parts))" "lc_key (last (p @ concat parts)) = hi"
      using validate_children_sound[OF v(4), of m crc r tree p] sub pc rep(3) by blast
    have len: "length rest = length keys" "length parts = length keys"
      using reader_node_ok[OF node(1)] list_all2_lengthD[OF parts(1)] by (simp_all add: NInternal v(1))
    have "tree_rep (Suc m) crc r tree i (p @ concat parts)"
      unfolding tree_rep.simps
    proof (intro conjI exI[of _ keys] exI[of _ children] exI[of _ "p # parts"])
      show "list_all2 (tree_rep m crc r tree) children (p # parts)"
        using parts(1) rep(1) len by (simp add: v(1)) (simp add: list_all2_conv_all_nth)
      show "keys = map (\<lambda>p. lc_key (hd p)) (tl (p # parts))"
        using parts(1) len by (auto simp: list_all2_conv_all_nth intro: nth_equalityI)
    qed (use l node NInternal parts(2) in simp_all)
    moreover have "\<forall>c \<in> set (p @ concat parts). \<exists>bs. reader_value crc r tree (lc_value c) = Inr bs"
    proof -
      have "\<forall>x \<in> set q. \<exists>bs. reader_value crc r tree (lc_value x) = Inr bs" if "q \<in> set parts" for q
        using that parts(1) len unfolding list_all2_conv_all_nth in_set_conv_nth[of q] by force
      then show ?thesis using p by (auto simp: sound_def)
    qed
    moreover have "fits (Suc m) expected" using node(2) l(2) NInternal by (auto simp: fits_def split: option.splits)
    ultimately show ?thesis using pc rep(2) parts(3) v(5) by (intro exI[of _ "Suc m"] exI[of _ "p @ concat parts"]) (simp add: sound_def)
  qed
qed

lemma sound_entries:
  "\<forall>c \<in> set cells. \<exists>bs. reader_value crc r tree (lc_value c) = Inr bs \<Longrightarrow> \<exists>ents. list_all2 (cell_entry crc r tree) cells ents"
proof (induction cells)
  case (Cons c cells)
  then obtain bs ents where "reader_value crc r tree (lc_value c) = Inr bs" "list_all2 (cell_entry crc r tree) cells ents" by auto
  then show ?case by (intro exI[of _ "(lc_key c, bs) # ents"]) (simp add: cell_entry_def[of _ _ _ c])
qed (auto intro: exI[of _ "[]"])

lemma tree_validate_holds:
  assumes "tree_validate crc r tree root = Inr ()"
  obtains ents where "tree_holds crc r tree root ents"
proof (cases "root = 0")
  case False
  then obtain span owned where "validate_subtree crc r tree None root {} = Inr (span, owned)"
    using assms by (auto simp: tree_validate_def rbind_eq_Inr)
  from validate_subtree_sound[OF this] obtain n cells where "tree_rep n crc r tree root cells" "\<forall>c \<in> set cells. \<exists>bs. reader_value crc r tree (lc_value c) = Inr bs"
    unfolding sound_def by blast
  then show thesis using that sound_entries False unfolding tree_holds_def by (metis (full_types))
qed (use that[of "[]"] in \<open>simp add: tree_holds_def\<close>)

end
