(* ===== verification/Blop_Edit.thy ===== *)
theory Blop_Edit
  imports Blop_Tree
begin

section \<open>Edits of a B+ tree\<close>

text \<open>
  What \<^verbatim>\<open>put\<close> and \<^verbatim>\<open>delete\<close> of \<^verbatim>\<open>src/storage/tree.rs\<close> do to the entries of a tree. A split always
  finds a place: the cells and separators are small against a page. The new root holds the
  changed entries, the old root still holds the old ones, and on a platform whose reads and
  writes succeed an edit fails only when page IDs or levels run out.
\<close>

subsection \<open>Splitting\<close>

definition admissible :: "bool \<Rightarrow> nat list \<Rightarrow> nat \<Rightarrow> bool" where
  "admissible internal sizes i \<longleftrightarrow>
     (let minimum = (if internal then 2 else 1); left = sum_list (take i sizes) in
      minimum \<le> i \<and> minimum \<le> length sizes - i \<and>
      HEADER_SIZE + left - (if internal then sizes ! 0 else 0) \<le> PAGE_SIZE \<and>
      HEADER_SIZE + sum_list sizes - left - (if internal then sizes ! i else 0) \<le> PAGE_SIZE)"

lemma split_best_cases:
  assumes "left = sum_list (take index sizes)"
  shows "\<not> admissible internal sizes index \<Longrightarrow> split_best internal sizes index left best = best"
    "admissible internal sizes index \<Longrightarrow> split_best internal sizes index left best \<noteq> None \<and>
      (split_best internal sizes index left best = best \<or> (\<exists>d. split_best internal sizes index left best = Some (index, d)))"
proof -
  define low where "low = (if internal then 2 else 1 :: nat)"
  define a where "a = HEADER_SIZE + left - (if internal then sizes ! 0 else 0)"
  define b where "b = HEADER_SIZE + sum_list sizes - left - (if internal then sizes ! index else 0)"
  have best: "split_best internal sizes index left best =
      (if index < low \<or> length sizes - index < low then best
       else if a \<le> PAGE_SIZE \<and> b \<le> PAGE_SIZE then
         if (case best of None \<Rightarrow> True | Some (_, previous) \<Rightarrow> (if a \<ge> b then a - b else b - a) < previous)
         then Some (index, if a \<ge> b then a - b else b - a) else best
       else best)"
    unfolding split_best_def Let_def low_def a_def b_def by (rule refl)
  have adm: "admissible internal sizes index \<longleftrightarrow> low \<le> index \<and> low \<le> length sizes - index \<and> a \<le> PAGE_SIZE \<and> b \<le> PAGE_SIZE"
    unfolding admissible_def Let_def low_def a_def b_def assms by (rule refl)
  show "\<not> admissible internal sizes index \<Longrightarrow> split_best internal sizes index left best = best"
    unfolding best adm by (simp only: not_le de_Morgan_conj) (elim disjE; simp)
  show "admissible internal sizes index \<Longrightarrow> split_best internal sizes index left best \<noteq> None \<and>
      (split_best internal sizes index left best = best \<or> (\<exists>d. split_best internal sizes index left best = Some (index, d)))"
    unfolding best adm by (cases best) simp_all
qed

lemma split_best_admissible:
  assumes "left = sum_list (take index sizes)" "\<forall>j d. best = Some (j, d) \<longrightarrow> admissible internal sizes j"
  shows "split_best internal sizes index left best = Some (j, d) \<Longrightarrow> admissible internal sizes j"
    "best \<noteq> None \<or> admissible internal sizes index \<Longrightarrow> split_best internal sizes index left best \<noteq> None"
  using split_best_cases[OF assms(1), of internal best] assms(2) by (cases "admissible internal sizes index"; fastforce)+

lemma split_from_admissible:
  assumes "left = sum_list (take (index - 1) sizes)" "1 \<le> index" "index + n \<le> length sizes"
    "\<forall>j d. best = Some (j, d) \<longrightarrow> admissible internal sizes j"
    "best \<noteq> None \<or> (\<exists>i. index \<le> i \<and> i < index + n \<and> admissible internal sizes i)"
  shows "\<exists>j d. split_from n internal sizes index left best = Some (j, d) \<and> admissible internal sizes j"
  using assms
proof (induction n arbitrary: index left best)
  case 0
  then obtain j d where "best = Some (j, d)" by auto
  then show ?case using "0.prems"(4) by simp
next
  case (Suc n)
  let ?left = "left + sizes ! (index - 1)"
  let ?best = "split_best internal sizes index ?left best"
  have left: "?left = sum_list (take index sizes)"
    using Suc.prems(1-3) take_Suc_conv_app_nth[of "index - 1" sizes] by simp
  note best = split_best_admissible[OF left, where best = best and internal = internal, OF Suc.prems(4)]
  have "?best \<noteq> None \<or> (\<exists>i. Suc index \<le> i \<and> i < Suc index + n \<and> admissible internal sizes i)"
  proof (cases "best \<noteq> None \<or> admissible internal sizes index")
    case True
    then show ?thesis using best(2) by blast
  next
    case False
    then obtain i where "index \<le> i" "i < index + Suc n" "admissible internal sizes i" "i \<noteq> index" using Suc.prems(5) by blast
    then show ?thesis by (intro disjI2 exI[of _ i]) simp
  qed
  then have "\<exists>j d. split_from n internal sizes (Suc index) ?left ?best = Some (j, d) \<and> admissible internal sizes j"
    using left Suc.prems(3) best(1) by (intro Suc.IH) simp_all
  then show ?case by (simp only: split_from.simps Let_def)
qed

lemma split_point_admissible:
  assumes "admissible internal sizes i" "i < length sizes"
  obtains j where "split_point sizes internal = Inr j" "admissible internal sizes j"
proof -
  have "1 \<le> i" using assms(1) by (auto simp: admissible_def Let_def split: if_splits)
  then have "\<exists>j d. split_from (length sizes - 1) internal sizes 1 0 None = Some (j, d) \<and> admissible internal sizes j"
    using assms by (intro split_from_admissible) auto
  then show thesis using that by (auto simp: split_point_def ok_or_def)
qed

text \<open>The first prefix that reaches a target overshoots it by less than one element.\<close>

lemma prefix_reaching:
  fixes xs :: "nat list"
  assumes "\<forall>x \<in> set xs. x \<le> M" "L \<le> sum_list xs" "0 < L"
  obtains i where "0 < i" "i \<le> length xs" "L \<le> sum_list (take i xs)" "sum_list (take i xs) < L + M"
proof -
  define i where "i = (LEAST i. L \<le> sum_list (take i xs))"
  have ex: "L \<le> sum_list (take (length xs) xs)" using assms(2) by simp
  have reach: "L \<le> sum_list (take i xs)" unfolding i_def by (rule LeastI[of "\<lambda>i. L \<le> sum_list (take i xs)", OF ex])
  have len: "i \<le> length xs" unfolding i_def by (rule Least_le[of "\<lambda>i. L \<le> sum_list (take i xs)", OF ex])
  have pos: "0 < i" using reach assms(3) by (cases i) auto
  then obtain k where k: "i = Suc k" by (cases i) auto
  have "\<not> L \<le> sum_list (take k xs)" using not_less_Least[of k "\<lambda>i. L \<le> sum_list (take i xs)"] k by (simp add: i_def)
  moreover have "sum_list (take i xs) = sum_list (take k xs) + xs ! k" using len k by (simp add: take_Suc_conv_app_nth)
  moreover have "xs ! k \<le> M" using assms(1) len k by simp
  ultimately show thesis using that[OF pos len reach] by simp
qed

lemma sum_take_drop: "sum_list (xs :: nat list) = sum_list (take i xs) + sum_list (drop i xs)"
  by (metis append_take_drop_id sum_list_append)

lemma leaf_split:
  assumes "\<forall>x \<in> set sizes. x \<le> 3110" "PAGE_SIZE < HEADER_SIZE + sum_list sizes" "sum_list sizes \<le> 19430"
  obtains i where "split_point sizes False = Inr i" "admissible False sizes i"
proof -
  obtain i where i: "0 < i" "i \<le> length sizes" "8000 \<le> sum_list (take i sizes)" "sum_list (take i sizes) < 8000 + 3110"
    using assms by (auto simp: PAGE_SIZE_def HEADER_SIZE_def intro: prefix_reaching[of sizes 3110 8000])
  have "i \<noteq> length sizes" using i(4) assms(2) by (auto simp: PAGE_SIZE_def HEADER_SIZE_def)
  then have "admissible False sizes i" "i < length sizes"
    using i assms(2,3) by (auto simp: admissible_def Let_def PAGE_SIZE_def HEADER_SIZE_def)
  then show thesis using split_point_admissible that by metis
qed

lemma internal_split:
  assumes "\<forall>x \<in> set sizes. x \<le> 2082" "PAGE_SIZE < HEADER_SIZE + sum_list (tl sizes)" "sum_list (tl sizes) \<le> 20484"
  obtains i where "split_point sizes True = Inr i" "admissible True sizes i"
proof -
  obtain s0 ss where s: "sizes = s0 # ss" using assms(2) by (cases sizes) (auto simp: PAGE_SIZE_def HEADER_SIZE_def)
  obtain i where i: "0 < i" "i \<le> length ss" "8000 \<le> sum_list (take i ss)" "sum_list (take i ss) < 8000 + 2082"
    using assms by (auto simp: s PAGE_SIZE_def HEADER_SIZE_def intro: prefix_reaching[of ss 2082 8000])
  have rest: "sum_list (drop i ss) \<ge> 6239" using i(4) assms(2) sum_take_drop[of ss i] by (simp add: s PAGE_SIZE_def HEADER_SIZE_def)
  have "2 \<le> length ss - i"
  proof (rule ccontr)
    assume "\<not> 2 \<le> length ss - i"
    then have "length (drop i ss) \<le> 1" by simp
    then consider "drop i ss = []" | x where "drop i ss = [x]" by (metis One_nat_def le_Suc_eq le_zero_eq length_0_conv length_Suc_conv)
    then show False
    proof cases
      case 2
      then have "x \<in> set ss" by (metis in_set_dropD list.set_intros(1))
      then show False using 2 rest assms(1) s by auto
    qed (use rest in simp)
  qed
  then have "admissible True sizes (Suc i)" "Suc i < length sizes"
    using i assms(2,3) s by (auto simp: admissible_def Let_def PAGE_SIZE_def HEADER_SIZE_def)
  then show thesis using split_point_admissible that by metis
qed

subsection \<open>What an operation on the file establishes\<close>

definition good :: "page_file \<Rightarrow> bool" where
  "good f \<longleftrightarrow> file_ok f \<and> readable f"

text \<open>
  The operation keeps the pages the file has, and a result it returns satisfies \<open>Q\<close> in the
  file it leaves. With a platform that fails no write it fails only for want of IDs.
\<close>

definition yields :: "'a paged \<Rightarrow> page_file \<Rightarrow> ('a \<Rightarrow> page_file \<Rightarrow> bool) \<Rightarrow> bool" where
  "yields m f Q \<longleftrightarrow> (\<forall>r f'. m f = (r, f') \<longrightarrow> good f' \<and> later f f' \<and>
     (healthy f \<longrightarrow> healthy f' \<and> (\<forall>e. r = Inl e \<longrightarrow> e = Exhausted)) \<and> (\<forall>x. r = Inr x \<longrightarrow> Q x f'))"

lemma yieldsI:
  assumes "\<And>r f'. m f = (r, f') \<Longrightarrow> good f' \<and> later f f' \<and>
     (healthy f \<longrightarrow> healthy f' \<and> (\<forall>e. r = Inl e \<longrightarrow> e = Exhausted)) \<and> (\<forall>x. r = Inr x \<longrightarrow> Q x f')"
  shows "yields m f Q"
  using assms by (simp add: yields_def)

lemma yieldsD:
  assumes "yields m f Q" "m f = (r, f')"
  shows "good f'" "later f f'" "r = Inr x \<Longrightarrow> Q x f'" "healthy f \<Longrightarrow> healthy f'" "healthy f \<Longrightarrow> r = Inl e \<Longrightarrow> e = Exhausted"
  using assms unfolding yields_def by blast+

lemma yields_mono: "yields m f Q \<Longrightarrow> (\<And>x f'. later f f' \<Longrightarrow> good f' \<Longrightarrow> Q x f' \<Longrightarrow> R x f') \<Longrightarrow> yields m f R"
  unfolding yields_def by blast

lemma yields_pret: "good f \<Longrightarrow> Q x f \<Longrightarrow> yields (pret x) f Q"
  by (simp add: yields_def pret_def)

lemma yields_plift: "good f \<Longrightarrow> r = Inr x \<Longrightarrow> Q x f \<Longrightarrow> yields (plift r) f Q"
  by (simp add: yields_def plift_def)

lemma pbind_plift [simp]: "pbind (plift (Inr x)) g = g x"
  by (rule ext) (simp add: pbind_def plift_def)

lemma yields_exhausted: "good f \<Longrightarrow> yields (plift (Inl Exhausted)) f Q"
  by (simp add: yields_def plift_def)

lemma yields_pbind:
  assumes "yields m f Q" "\<And>x f'. later f f' \<Longrightarrow> good f' \<Longrightarrow> Q x f' \<Longrightarrow> yields (g x) f' R"
  shows "yields (pbind m g) f R"
proof (rule yieldsI)
  fix r f'
  assume b: "pbind m g f = (r, f')"
  obtain r1 f1 where m: "m f = (r1, f1)" by force
  note d = yieldsD[OF assms(1) m]
  show "good f' \<and> later f f' \<and> (healthy f \<longrightarrow> healthy f' \<and> (\<forall>e. r = Inl e \<longrightarrow> e = Exhausted)) \<and> (\<forall>x. r = Inr x \<longrightarrow> R x f')"
  proof (cases r1)
    case (Inl e)
    then show ?thesis using b m d by (auto simp: pbind_def)
  next
    case (Inr x)
    have g: "g x f1 = (r, f')" using b m Inr by (simp add: pbind_def)
    note y = yieldsD[OF assms(2)[OF d(2,1) d(3)[OF Inr]] g]
    show ?thesis using y(1) later_trans[OF d(2) y(2)] y(3,4,5) d(4) by blast
  qed
qed

lemma yields_append_node:
  assumes "good f" "node_ok (pr_count (pf_reader f)) n"
  shows "yields (append_node crc tree n) f (\<lambda>i f'. reader_node crc (pf_reader f') tree i = Inr n)"
proof (rule yieldsI)
  fix r f'
  assume a: "append_node crc tree n f = (r, f')"
  have f: "file_ok f" "readable f" using assms(1) by (simp_all add: good_def)
  note s = append_node_spec[OF f(1) a]
  have n: "node_ok (pr_count (pf_reader f')) n" using assms(2) s(2) by (auto simp: later_def intro: node_ok_mono)
  show "good f' \<and> later f f' \<and> (healthy f \<longrightarrow> healthy f' \<and> (\<forall>e. r = Inl e \<longrightarrow> e = Exhausted)) \<and>
      (\<forall>x. r = Inr x \<longrightarrow> reader_node crc (pf_reader f') tree x = Inr n)"
    using s(1,2) s(4)[OF _ f(2) n] later_readable[OF s(2) f(2)] append_node_healthy[OF _ a assms(2)] by (auto simp: good_def)
qed

lemma yields_store_value:
  assumes "good f" "length v \<le> MAX_VALUE"
  shows "yields (store_value crc tree v) f (\<lambda>sv f'. value_ok (pr_count (pf_reader f')) sv \<and> reader_value crc (pf_reader f') tree sv = Inr v)"
proof (rule yieldsI)
  fix r f'
  assume a: "store_value crc tree v f = (r, f')"
  have f: "file_ok f" "readable f" using assms(1) by (simp_all add: good_def)
  note s = store_value_spec[OF f a]
  show "good f' \<and> later f f' \<and> (healthy f \<longrightarrow> healthy f' \<and> (\<forall>e. r = Inl e \<longrightarrow> e = Exhausted)) \<and>
      (\<forall>sv. r = Inr sv \<longrightarrow> value_ok (pr_count (pf_reader f')) sv \<and> reader_value crc (pf_reader f') tree sv = Inr v)"
    using s(1,2,3) s(4)[OF _ assms(2)] later_readable[OF s(2) f(2)] by (simp add: good_def)
qed

subsection \<open>Writing nodes\<close>

definition child_rep :: "nat \<Rightarrow> (bytes \<Rightarrow> u32) \<Rightarrow> page_reader \<Rightarrow> tree_id \<Rightarrow> child \<Rightarrow> leaf_cell list \<Rightarrow> bool" where
  "child_rep m crc r tree c part \<longleftrightarrow> tree_rep m crc r tree (ch_id c) part \<and> ch_min c = lc_key (hd part)"

definition edit_rep :: "nat \<Rightarrow> (bytes \<Rightarrow> u32) \<Rightarrow> page_reader \<Rightarrow> tree_id \<Rightarrow> edit \<Rightarrow> leaf_cell list \<Rightarrow> bool" where
  "edit_rep m crc r tree e cells \<longleftrightarrow> ed_level e = of_nat m \<and>
     (\<exists>parts. list_all2 (child_rep m crc r tree) (ed_children e) parts \<and> cells = concat parts)"

lemma child_rep_later: "later f f' \<Longrightarrow> child_rep m crc (pf_reader f) tree c part \<Longrightarrow> child_rep m crc (pf_reader f') tree c part"
  by (auto simp: child_rep_def intro: tree_rep_later)

lemma children_rep_later:
  "later f f' \<Longrightarrow> list_all2 (child_rep m crc (pf_reader f) tree) cs parts \<Longrightarrow> list_all2 (child_rep m crc (pf_reader f') tree) cs parts"
  by (erule list_all2_mono) (rule child_rep_later)

lemma cell_ok_mono: "cell_ok n c \<Longrightarrow> n \<le> n' \<Longrightarrow> cell_ok n' c"
  using valid_ref_mono by (cases "lc_value c") (auto simp: cell_ok_def)

lemma cell_ok_later: "later f f' \<Longrightarrow> cell_ok (pr_count (pf_reader f)) c \<Longrightarrow> cell_ok (pr_count (pf_reader f')) c"
  by (auto simp: later_def intro: cell_ok_mono)

lemma node_ok_later: "later f f' \<Longrightarrow> node_ok (pr_count (pf_reader f)) n \<Longrightarrow> node_ok (pr_count (pf_reader f')) n"
  by (auto simp: later_def intro: node_ok_mono)

lemma leaf_size_bound: "cell_ok n c \<Longrightarrow> leaf_size c \<le> 3110"
  by (cases "lc_value c") (auto simp: cell_ok_def leaf_size_def MAX_KEY_def INLINE_LIMIT_def)

lemma ascending_take_drop: "ascending xs \<Longrightarrow> ascending (take i xs) \<and> ascending (drop i (xs :: 'a :: linorder list))"
  by (metis append_take_drop_id ascending_iff sorted_wrt_append)

lemma yields_append_leaf:
  assumes "good f" "node_ok (pr_count (pf_reader f)) (NLeaf cells)"
  shows "yields (append_leaf crc tree cells) f (\<lambda>c f'. child_rep 0 crc (pf_reader f') tree c cells)"
  unfolding append_leaf_def
  by (rule yields_pbind[OF yields_append_node[OF assms]]) (auto intro!: yields_pret simp: child_rep_def)

text \<open>Two nodes written one after the other.\<close>

lemma yields_pair:
  assumes "yields A f (\<lambda>a f'. child_rep m crc (pf_reader f') tree a p)"
    "\<And>f'. later f f' \<Longrightarrow> good f' \<Longrightarrow> yields B f' (\<lambda>b f'. child_rep m crc (pf_reader f') tree b q)"
    "\<And>a b f'. child_rep m crc (pf_reader f') tree a p \<Longrightarrow> child_rep m crc (pf_reader f') tree b q \<Longrightarrow> Q (k a b) f'"
  shows "yields (pbind A (\<lambda>a. pbind B (\<lambda>b. pret (k a b)))) f Q"
proof (rule yields_pbind[OF assms(1)], rule yields_pbind[OF assms(2)])
  fix a f1 b f2
  assume *: "later f1 f2" "good f2" "child_rep m crc (pf_reader f1) tree a p" "child_rep m crc (pf_reader f2) tree b q"
  show "yields (pret (k a b)) f2 Q" using assms(3)[OF child_rep_later[OF *(1,3)] *(4)] *(2) by (intro yields_pret)
qed

lemma yields_write_leaves:
  assumes f: "good f" and cells: "\<forall>c \<in> set cells. cell_ok (pr_count (pf_reader f)) c" "ascending (map lc_key cells)"
    "sum_list (map leaf_size cells) \<le> 19430"
  shows "yields (write_leaves crc tree cells) f (\<lambda>e f'. edit_rep 0 crc (pf_reader f') tree e cells \<and>
    length (ed_children e) \<le> 2 \<and> (cells = [] \<longleftrightarrow> ed_children e = []))"
proof (cases "cells = []")
  case True
  then show ?thesis using f by (auto simp: write_leaves_def edit_rep_def intro!: yields_pret)
next
  case False
  let ?sizes = "map leaf_size cells"
  show ?thesis
  proof (cases "PAGE_SIZE < HEADER_SIZE + sum_list ?sizes")
    case True
    have bound: "\<forall>x \<in> set ?sizes. x \<le> 3110" using cells(1) leaf_size_bound by auto
    show ?thesis
    proof (rule leaf_split[OF bound True cells(3)])
      fix i
      assume i: "split_point ?sizes False = Inr i" "admissible False ?sizes i"
      have sub: "set (take i cells) \<subseteq> set cells" "set (drop i cells) \<subseteq> set cells" by (simp_all add: set_take_subset set_drop_subset)
      have size: "sum_list (map leaf_size cells) = sum_list (map leaf_size (take i cells)) + sum_list (map leaf_size (drop i cells))"
        by (metis append_take_drop_id map_append sum_list_append)
      have ok: "node_ok (pr_count (pf_reader f)) (NLeaf (take i cells))" "node_ok (pr_count (pf_reader f)) (NLeaf (drop i cells))"
        using i(2) sub cells(1) ascending_take_drop[OF cells(2), of i] size
        by (auto simp: admissible_def Let_def take_map drop_map)
      have "yields (pbind (append_leaf crc tree (take i cells)) (\<lambda>a. pbind (append_leaf crc tree (drop i cells)) (\<lambda>b.
          pret \<lparr>ed_level = 0, ed_children = [a, b]\<rparr>))) f
          (\<lambda>e f'. edit_rep 0 crc (pf_reader f') tree e cells \<and> length (ed_children e) = 2)"
        by (rule yields_pair[OF yields_append_leaf[OF f ok(1)] yields_append_leaf])
          (simp_all del: node_ok.simps add: node_ok_later[OF _ ok(2)] edit_rep_def exI[of _ "[take i cells, drop i cells]"])
      then show ?thesis unfolding write_leaves_def Let_def using False True i(1) by simp (erule yields_mono, auto)
    qed
  next
    case fits: False
    then have "node_ok (pr_count (pf_reader f)) (NLeaf cells)" using cells False by simp
    then show ?thesis using False fits unfolding write_leaves_def Let_def
      by (auto intro!: yields_pbind[OF yields_append_leaf[OF f]] yields_pret simp: edit_rep_def intro: exI[of _ "[cells]"])
  qed
qed

text \<open>Below: the children of an internal node, each with the cells of its subtree.\<close>

lemma tree_rep_ref: "tree_rep n crc r tree i cells \<Longrightarrow> valid_ref i (pr_count r)"
  by (cases n) (auto simp: reader_node_def rbind_eq_Inr reader_read_eq valid_ref_def not_le split: if_splits)

lemma ascending_heads:
  "ascending (map lc_key (concat parts)) \<Longrightarrow> \<forall>p \<in> set parts. p \<noteq> [] \<Longrightarrow> ascending (map (\<lambda>p. lc_key (hd p)) parts)"
proof (induction parts)
  case (Cons p parts)
  have "lc_key (hd p) < lc_key (hd q)" if "q \<in> set parts" for q
  proof -
    have "hd p \<in> set p" "hd q \<in> set (concat parts)" using Cons.prems(2) that by (auto intro!: bexI[of _ q])
    then show ?thesis using Cons.prems(1) by (auto simp: ascending_iff sorted_wrt_append)
  qed
  then show ?case using Cons by (auto simp: ascending_iff sorted_wrt_append)
qed simp

lemma child_facts:
  assumes "child_rep m crc r tree c p"
  shows "p \<noteq> []" "length (ch_min c) \<le> MAX_KEY" "valid_ref (ch_id c) (pr_count r)"
proof -
  have t: "tree_rep m crc r tree (ch_id c) p" "ch_min c = lc_key (hd p)" using assms by (simp_all add: child_rep_def)
  show ne: "p \<noteq> []" using tree_rep_cells[OF t(1)] by simp
  show "length (ch_min c) \<le> MAX_KEY" using tree_rep_cells[OF t(1)] t(2) hd_in_set[OF ne] by (auto simp: cell_ok_def)
  show "valid_ref (ch_id c) (pr_count r)" by (rule tree_rep_ref[OF t(1)])
qed

lemma children_facts:
  assumes "list_all2 (child_rep m crc r tree) cs parts"
  shows "list_all2 (tree_rep m crc r tree) (map ch_id cs) parts" "map ch_min cs = map (\<lambda>p. lc_key (hd p)) parts"
    "\<forall>p \<in> set parts. p \<noteq> []" "\<forall>c \<in> set cs. length (ch_min c) \<le> MAX_KEY \<and> valid_ref (ch_id c) (pr_count r)"
    "length parts = length cs"
  using assms
  by (induction rule: list_all2_induct)
    (simp_all add: child_facts, simp_all add: child_rep_def)

lemma internal_node_ok:
  assumes cs: "list_all2 (child_rep m crc r tree) cs parts" and "m < 255" "2 \<le> length cs" "ascending (map lc_key (concat parts))"
    and "HEADER_SIZE + sum_list (map (\<lambda>c. 16 + length (ch_min c)) (tl cs)) \<le> PAGE_SIZE"
  shows "node_ok (pr_count r) (internal_node (of_nat (Suc m)) cs)"
proof -
  note c = children_facts[OF cs]
  have "(of_nat (Suc m) :: byte) \<noteq> 0" using level_unat[of "Suc m"] assms(2) by (metis Suc_leI nat.simps(3) unat_0)
  moreover have "ascending (map ch_min (tl cs))"
    using ascending_heads[OF assms(4) c(3), folded c(2)] by (cases cs) (simp_all add: ascending_iff)
  moreover have "map ch_min (tl cs) \<noteq> []" "length (map ch_id cs) = length (map ch_min (tl cs)) + 1" using assms(3) by (cases cs; auto)+
  moreover have "\<forall>key \<in> set (map ch_min (tl cs)). length key \<le> MAX_KEY" using c(4) by (cases cs) auto
  ultimately show ?thesis using c(4) assms(5) by (auto simp: internal_node_def comp_def simp del: of_nat_Suc)
qed

lemma internal_node_rep:
  assumes "list_all2 (child_rep m crc r tree) cs parts" "m < 255" "ascending (map lc_key (concat parts))"
    "reader_node crc r tree i = Inr (internal_node (of_nat (Suc m)) cs)"
  shows "tree_rep (Suc m) crc r tree i (concat parts)"
  using children_facts(1,2)[OF assms(1)] assms(2-4) by (auto simp: internal_node_def map_tl simp del: of_nat_Suc)

lemma yields_append_internal:
  assumes f: "good f" and cs: "list_all2 (child_rep m crc (pf_reader f) tree) cs parts" and c: "m < 255" "2 \<le> length cs"
    "ascending (map lc_key (concat parts))" "HEADER_SIZE + sum_list (map (\<lambda>c. 16 + length (ch_min c)) (tl cs)) \<le> PAGE_SIZE"
  shows "yields (append_internal crc tree (of_nat (Suc m)) cs) f (\<lambda>c f'. child_rep (Suc m) crc (pf_reader f') tree c (concat parts))"
  unfolding append_internal_def
proof (rule yields_pbind[OF yields_append_node[OF f internal_node_ok[OF cs c]]], rule yields_pret)
  fix i f'
  assume *: "later f f'" "reader_node crc (pf_reader f') tree i = Inr (internal_node (of_nat (Suc m)) cs)"
  have "hd (concat parts) = hd (hd parts)" "ch_min (hd cs) = lc_key (hd (hd parts))"
    using c(2) children_facts(2,3,5)[OF cs] by (cases parts; cases cs; auto)+
  then show "child_rep (Suc m) crc (pf_reader f') tree \<lparr>ch_id = i, ch_min = ch_min (hd cs)\<rparr> (concat parts)"
    using internal_node_rep[OF children_rep_later[OF *(1) cs] c(1,3) *(2)] by (simp add: child_rep_def)
qed

lemma internal_sizes:
  assumes "admissible True (map g cs) i"
  shows "2 \<le> i" "2 \<le> length cs - i" "HEADER_SIZE + sum_list (map g (tl (take i cs))) \<le> PAGE_SIZE"
    "HEADER_SIZE + sum_list (map g (tl (drop i cs))) \<le> PAGE_SIZE"
proof -
  have a: "2 \<le> i" "2 \<le> length cs - i" "HEADER_SIZE + sum_list (take i (map g cs)) - map g cs ! 0 \<le> PAGE_SIZE"
    "HEADER_SIZE + sum_list (map g cs) - sum_list (take i (map g cs)) - map g cs ! i \<le> PAGE_SIZE"
    using assms by (simp_all add: admissible_def Let_def)
  obtain c cs' k where c: "cs = c # cs'" "i = Suc k" using a(1,2) by (cases cs; cases i) auto
  show "HEADER_SIZE + sum_list (map g (tl (take i cs))) \<le> PAGE_SIZE" using a(3) by (simp add: c take_map)
  have "drop i cs = cs ! i # drop (Suc i) cs" using a(2) by (simp add: Cons_nth_drop_Suc)
  then have "sum_list (drop i (map g cs)) = map g cs ! i + sum_list (map g (tl (drop i cs)))" using a(2) by (simp add: drop_map)
  then show "HEADER_SIZE + sum_list (map g (tl (drop i cs))) \<le> PAGE_SIZE" using a(4) sum_take_drop[of "map g cs" i] by simp
  show "2 \<le> i" "2 \<le> length cs - i" by (fact a(1), fact a(2))
qed

lemma yields_write_internal:
  assumes f: "good f" and cs: "list_all2 (child_rep m crc (pf_reader f) tree) cs parts" and c: "m < 255" "2 \<le> length cs"
    "ascending (map lc_key (concat parts))" "sum_list (map (\<lambda>c. 16 + length (ch_min c)) (tl cs)) \<le> 20484"
  shows "yields (write_internal crc tree (of_nat (Suc m)) cs) f (\<lambda>e f'. edit_rep (Suc m) crc (pf_reader f') tree e (concat parts) \<and>
    length (ed_children e) \<in> {1, 2})"
proof -
  let ?sizes = "map (\<lambda>c. 16 + length (ch_min c)) cs"
  have ne: "cs \<noteq> []" using c(2) by auto
  show ?thesis
  proof (cases "PAGE_SIZE < HEADER_SIZE + sum_list (tl ?sizes)")
    case True
    have bound: "\<forall>x \<in> set ?sizes. x \<le> 2082" using children_facts(4)[OF cs] by (auto simp: MAX_KEY_def)
    show ?thesis
    proof (rule internal_split[OF bound True])
      show "sum_list (tl ?sizes) \<le> 20484" using c(4) by (simp add: map_tl)
    next
      fix i
      assume i: "split_point ?sizes True = Inr i" "admissible True ?sizes i"
      note adm = internal_sizes[OF i(2)]
      have parts: "concat parts = concat (take i parts) @ concat (drop i parts)" by (metis append_take_drop_id concat_append)
      have asc: "ascending (map lc_key (concat (take i parts)))" "ascending (map lc_key (concat (drop i parts)))"
        using c(3) unfolding parts by (simp_all add: ascending_iff sorted_wrt_append)
      have "yields (pbind (append_internal crc tree (of_nat (Suc m)) (take i cs)) (\<lambda>a. pbind (append_internal crc tree (of_nat (Suc m)) (drop i cs)) (\<lambda>b.
          pret \<lparr>ed_level = of_nat (Suc m), ed_children = [a, b]\<rparr>))) f
          (\<lambda>e f'. edit_rep (Suc m) crc (pf_reader f') tree e (concat parts) \<and> length (ed_children e) = 2)"
      proof (rule yields_pair)
        show "yields (append_internal crc tree (of_nat (Suc m)) (take i cs)) f (\<lambda>a f'. child_rep (Suc m) crc (pf_reader f') tree a (concat (take i parts)))"
          using adm(1,2) by (intro yields_append_internal[OF f list_all2_takeI[OF cs] c(1) _ asc(1) adm(3)]) simp
        show "yields (append_internal crc tree (of_nat (Suc m)) (drop i cs)) f' (\<lambda>b f'. child_rep (Suc m) crc (pf_reader f') tree b (concat (drop i parts)))"
          if "later f f'" "good f'" for f'
          using adm(2) by (intro yields_append_internal[OF that(2) list_all2_dropI[OF children_rep_later[OF that(1) cs]] c(1) _ asc(2) adm(4)]) simp
      qed (auto simp: edit_rep_def parts intro!: exI[of _ "[concat (take i parts), concat (drop i parts)]"])
      then show ?thesis unfolding write_internal_def Let_def using ne True i(1) by (simp del: of_nat_Suc) (erule yields_mono, simp)
    qed
  next
    case False
    then have small: "HEADER_SIZE + sum_list (map (\<lambda>c. 16 + length (ch_min c)) (tl cs)) \<le> PAGE_SIZE" by (simp add: map_tl not_less)
    have "yields (pbind (append_internal crc tree (of_nat (Suc m)) cs) (\<lambda>a. pret \<lparr>ed_level = of_nat (Suc m), ed_children = [a]\<rparr>)) f
        (\<lambda>e f'. edit_rep (Suc m) crc (pf_reader f') tree e (concat parts) \<and> length (ed_children e) \<in> {1, 2})"
      by (rule yields_pbind[OF yields_append_internal[OF f cs c(1,2,3) small]], rule yields_pret)
        (auto simp: edit_rep_def intro!: exI[of _ "[concat parts]"])
    then show ?thesis unfolding write_internal_def Let_def using ne False by (simp del: of_nat_Suc)
  qed
qed

subsection \<open>The cells after an edit\<close>

definition edited :: "bytes \<Rightarrow> leaf_cell list \<Rightarrow> leaf_cell list \<Rightarrow> leaf_cell list" where
  "edited key mid cells = filter (\<lambda>c. lc_key c < key) cells @ mid @ filter (\<lambda>c. key < lc_key c) cells"

text \<open>The cell an edit puts at its key, if any.\<close>

definition put_cell :: "(bytes \<Rightarrow> u32) \<Rightarrow> page_reader \<Rightarrow> tree_id \<Rightarrow> bytes \<Rightarrow> bytes option \<Rightarrow> leaf_cell list \<Rightarrow> bool" where
  "put_cell crc r tree key v mid \<longleftrightarrow>
     (case v of
        None \<Rightarrow> mid = []
      | Some v \<Rightarrow> \<exists>sv. mid = [\<lparr>lc_key = key, lc_value = sv\<rparr>] \<and> value_ok (pr_count r) sv \<and> reader_value crc r tree sv = Inr v)"

lemma put_cell_later: "later f f' \<Longrightarrow> put_cell crc (pf_reader f) tree key v mid \<Longrightarrow> put_cell crc (pf_reader f') tree key v mid"
proof -
  assume l: "later f f'" and p: "put_cell crc (pf_reader f) tree key v mid"
  have "value_ok (pr_count (pf_reader f')) sv" if "value_ok (pr_count (pf_reader f)) sv" for sv
    using cell_ok_later[OF l, of "\<lparr>lc_key = [], lc_value = sv\<rparr>"] that by (simp add: cell_ok_def)
  then show "put_cell crc (pf_reader f') tree key v mid" using p later_value[OF l] unfolding put_cell_def by (cases v) (simp, simp, blast)
qed

lemma put_cell_key: "put_cell crc r tree key v mid \<Longrightarrow> c \<in> set mid \<Longrightarrow> lc_key c = key"
  by (auto simp: put_cell_def split: option.splits)

lemma put_cell_ok: "put_cell crc r tree key v mid \<Longrightarrow> length key \<le> MAX_KEY \<Longrightarrow> \<forall>c \<in> set mid. cell_ok (pr_count r) c"
  by (auto simp: put_cell_def cell_ok_def split: option.splits)

lemma put_cell_short: "put_cell crc r tree key v mid \<Longrightarrow> length mid \<le> 1"
  by (auto simp: put_cell_def split: option.splits)

lemma edited_between:
  assumes "\<forall>c \<in> set A. lc_key c < key" "\<forall>c \<in> set B. key < lc_key c"
  shows "edited key mid (A @ P @ B) = A @ edited key mid P @ B"
proof -
  have "filter (\<lambda>c. lc_key c < key) A = A" "filter (\<lambda>c. key < lc_key c) A = []"
    "filter (\<lambda>c. lc_key c < key) B = []" "filter (\<lambda>c. key < lc_key c) B = B"
    using assms by (auto simp: filter_empty_conv intro!: filter_True)
  then show ?thesis by (simp add: edited_def)
qed

lemma edited_ascending:
  assumes "ascending (map lc_key cells)" "put_cell crc r tree key v mid"
  shows "ascending (map lc_key (edited key mid cells))"
proof -
  have "sorted_wrt (\<lambda>c d. lc_key c < lc_key d) cells" using assms(1) by (simp add: ascending_iff sorted_wrt_map)
  then have "sorted_wrt (\<lambda>c d. lc_key c < lc_key d) (filter p cells)" for p by (rule sorted_wrt_filter)
  moreover have "sorted_wrt (\<lambda>c d. lc_key c < lc_key d) mid" using put_cell_short[OF assms(2)] by (cases mid) auto
  moreover have "\<forall>c \<in> set mid. lc_key c = key" using put_cell_key[OF assms(2)] by blast
  ultimately show ?thesis by (auto simp: edited_def ascending_iff sorted_wrt_map sorted_wrt_append)
qed

text \<open>A leaf edited in place: the found cell replaced or removed, or the new one inserted.\<close>

lemma search_edited:
  assumes "ascending (map lc_key cells)"
  shows "search cells key = Inr i \<Longrightarrow> i < length cells \<and> take i cells @ mid @ drop (Suc i) cells = edited key mid cells"
    "search cells key = Inl i \<Longrightarrow> take i cells @ mid @ drop i cells = edited key mid cells"
proof -
  obtain A B where s: "cells = A @ B" "\<forall>c \<in> set A. lc_key c < key" "\<forall>c \<in> set B. key \<le> lc_key c"
    "length (takeWhile (\<lambda>c. lc_key c < key) cells) = length A" by (rule sorted_key_split[OF assms])
  show "search cells key = Inl i \<Longrightarrow> take i cells @ mid @ drop i cells = edited key mid cells"
  proof -
    assume f: "search cells key = Inl i"
    have "\<forall>c \<in> set B. key < lc_key c"
    proof (cases B)
      case (Cons b B')
      have "lc_key b \<noteq> key" using f s(1,4) Cons by (auto simp: search_def Let_def split: if_splits)
      moreover have "\<forall>c \<in> set B'. lc_key b < lc_key c" using assms by (simp add: s(1) Cons ascending_iff sorted_wrt_append)
      ultimately show ?thesis using s(3) Cons by force
    qed simp
    from edited_between[OF s(2) this, of mid "[]"] show ?thesis
      using f s(1,4) by (auto simp: search_def Let_def edited_def split: if_splits)
  qed
  show "search cells key = Inr i \<Longrightarrow> i < length cells \<and> take i cells @ mid @ drop (Suc i) cells = edited key mid cells"
  proof -
    assume "search cells key = Inr i"
    then have f: "i = length A" "i < length cells" "lc_key (cells ! i) = key" using s(4) by (auto simp: search_def Let_def split: if_splits)
    then obtain b B' where B: "B = b # B'" "lc_key b = key" using s(1) by (cases B) auto
    have "\<forall>c \<in> set B'. key < lc_key c" using assms B by (simp add: s(1) ascending_iff sorted_wrt_append)
    from edited_between[OF s(2) this, of mid "[b]"] show ?thesis using f(1,2) s(1) B by (simp add: edited_def)
  qed
qed

lemma edited_size:
  assumes "put_cell crc r tree key v mid" "length key \<le> MAX_KEY"
  shows "sum_list (map leaf_size (edited key mid cells)) \<le> sum_list (map leaf_size cells) + 3110"
proof -
  have "sum_list (map leaf_size (filter (\<lambda>c. lc_key c < key) cells)) + sum_list (map leaf_size (filter (\<lambda>c. key < lc_key c) cells)) \<le>
      sum_list (map leaf_size cells)"
    by (induction cells) auto
  moreover have "sum_list (map leaf_size mid) \<le> 3110"
    using put_cell_short[OF assms(1)] put_cell_ok[OF assms] leaf_size_bound by (cases mid) auto
  ultimately show ?thesis by (simp add: edited_def)
qed

lemma absent_edited: "find_cell key cells = None \<Longrightarrow> ascending (map lc_key cells) \<Longrightarrow> edited key [] cells = cells"
proof -
  assume "find_cell key cells = None" and asc: "ascending (map lc_key cells)"
  then obtain i where "search cells key = Inl i" using search_cell[OF asc, of key] by (auto split: sum.splits)
  from search_edited(2)[OF asc this, of "[]"] show ?thesis by simp
qed

text \<open>What an edit of a subtree of height \<open>n\<close> hands to its parent.\<close>

definition edit_result :: "nat \<Rightarrow> (bytes \<Rightarrow> u32) \<Rightarrow> tree_id \<Rightarrow> bytes \<Rightarrow> bytes option \<Rightarrow> leaf_cell list \<Rightarrow> edit option \<Rightarrow> page_file \<Rightarrow> bool" where
  "edit_result n crc tree key v cells e f \<longleftrightarrow>
     (case e of
        None \<Rightarrow> v = None \<and> edited key [] cells = cells
      | Some e \<Rightarrow> \<exists>m mid. put_cell crc (pf_reader f) tree key v mid \<and> edit_rep m crc (pf_reader f) tree e (edited key mid cells) \<and>
          (m = n \<and> length (ed_children e) \<le> 2 \<and> (ed_children e = [] \<longrightarrow> n = 0) \<or> Suc m = n \<and> length (ed_children e) = 1))"

lemma yields_edit_leaf:
  assumes f: "good f" and leaf: "tree_rep 0 crc (pf_reader f) tree i cells" and key: "length key \<le> MAX_KEY"
    and v: "\<forall>x. v = Some x \<longrightarrow> length x \<le> MAX_VALUE"
  shows "yields (edit_leaf crc tree key v cells) f (edit_result 0 crc tree key v cells)"
proof -
  have node: "node_ok (pr_count (pf_reader f)) (NLeaf cells)" by (rule reader_node_ok[OF leaf[unfolded tree_rep.simps]])
  have asc: "ascending (map lc_key cells)" and cells: "\<forall>c \<in> set cells. cell_ok (pr_count (pf_reader f)) c"
    and size: "sum_list (map leaf_size cells) \<le> 16320" using node by (simp_all add: HEADER_SIZE_def PAGE_SIZE_def)
  have written: "yields (pbind (write_leaves crc tree (edited key mid cells)) (\<lambda>e. pret (Some e))) f' (edit_result 0 crc tree key v cells)"
    if "later f f'" "good f'" "put_cell crc (pf_reader f') tree key v mid" for f' mid
  proof (rule yields_pbind[OF yields_write_leaves[OF that(2)]], rule_tac [4] yields_pret)
    show "\<forall>c \<in> set (edited key mid cells). cell_ok (pr_count (pf_reader f')) c"
      using put_cell_ok[OF that(3) key] cells cell_ok_later[OF that(1)] by (auto simp: edited_def)
    show "ascending (map lc_key (edited key mid cells))" by (rule edited_ascending[OF asc that(3)])
    show "sum_list (map leaf_size (edited key mid cells)) \<le> 19430" using edited_size[OF that(3) key, of cells] size by simp
  qed (use put_cell_later[OF _ that(3)] in \<open>auto simp: edit_result_def\<close>)
  show ?thesis
  proof (cases v)
    case None
    note w = written[OF later_refl f, of "[]"]
    show ?thesis
    proof (cases "search cells key")
      case (Inl i)
      then show ?thesis using search_edited(2)[OF asc Inl, of "[]"] None f
        by (auto simp: edit_leaf_def edit_result_def intro!: yields_pret)
    next
      case (Inr i)
      then show ?thesis using search_edited(1)[OF asc Inr, of "[]"] None w by (simp add: edit_leaf_def put_cell_def)
    qed
  next
    case (Some x)
    have "yields (pbind (store_value crc tree x) (\<lambda>sv. pbind (write_leaves crc tree (edited key [\<lparr>lc_key = key, lc_value = sv\<rparr>] cells)) (\<lambda>e. pret (Some e))))
        f (edit_result 0 crc tree key v cells)"
      by (rule yields_pbind[OF yields_store_value[OF f]], use v Some in simp, rule written) (simp_all add: put_cell_def Some)
    moreover have "edit_leaf crc tree key v cells =
        pbind (store_value crc tree x) (\<lambda>sv. pbind (write_leaves crc tree (edited key [\<lparr>lc_key = key, lc_value = sv\<rparr>] cells)) (\<lambda>e. pret (Some e)))"
    proof (cases "search cells key")
      case (Inl a)
      have "take a cells @ c # drop a cells = edited key [c] cells" for c using search_edited(2)[OF asc Inl, of "[c]"] by simp
      then show ?thesis by (simp add: edit_leaf_def Let_def Inl Some)
    next
      case (Inr b)
      have "cells[b := c] = edited key [c] cells" for c
        using search_edited(1)[OF asc Inr, of "[c]"] by (simp add: upd_conv_take_nth_drop)
      then show ?thesis by (simp add: edit_leaf_def Let_def Inr Some)
    qed
    ultimately show ?thesis by simp
  qed
qed

subsection \<open>Internal nodes after an edit of a child\<close>

abbreviation separators :: "child list \<Rightarrow> nat" where
  "separators cs \<equiv> sum_list (map (\<lambda>c. 16 + length (ch_min c)) (tl cs))"

lemma sizes_of_keys: "separators cs = sum_list (map (\<lambda>key. 16 + length key) (map ch_min (tl cs)))"
  by (simp add: comp_def)

lemma child_list_rep:
  assumes "tree_rep (Suc m) crc r tree i cells"
  obtains keys cs parts where "m < 255" "reader_node crc r tree i = Inr (NInternal (of_nat (Suc m)) keys (map ch_id cs))"
    "child_list crc r tree (of_nat (Suc m)) keys (map ch_id cs) = Inr cs" "list_all2 (child_rep m crc r tree) cs parts"
    "cells = concat parts" "keys = map (\<lambda>p. lc_key (hd p)) (tl parts)" "2 \<le> length cs" "separators cs \<le> 16320"
proof (rule tree_rep_node[OF assms])
  fix m' keys children parts
  assume t: "Suc m = Suc m'" "m' < 255" "reader_node crc r tree i = Inr (NInternal (of_nat (Suc m)) keys children)"
    "list_all2 (tree_rep m' crc r tree) children parts" "cells = concat parts" "keys = map (\<lambda>p. lc_key (hd p)) (tl parts)"
    "length children = length keys + 1" "length parts = length children" "\<forall>p \<in> set parts. p \<noteq> []"
  let ?cs = "map (\<lambda>(i, least). \<lparr>ch_id = i, ch_min = least\<rparr>) (zip children (map (\<lambda>p. lc_key (hd p)) parts))"
  have ne: "parts \<noteq> []" "children \<noteq> []" using t(7,8) by auto
  have mins: "lc_key (hd (parts ! 0)) # keys = map (\<lambda>p. lc_key (hd p)) parts" using ne t(6) by (cases parts) auto
  have first: "tree_rep m crc r tree (children ! 0) (parts ! 0)" using list_all2_nthD[OF t(4), of 0] t(1) ne(2) by simp
  have list: "child_list crc r tree (of_nat (Suc m)) keys children = Inr ?cs"
    using minimum_rep[OF first, of "Some (of_nat m)"] t(1,2) ne(2) mins by (simp add: child_list_def at_def level_below del: of_nat_Suc)
  have cs: "list_all2 (child_rep m crc r tree) ?cs parts"
    using t(1,4,8) by (auto simp: list_all2_conv_all_nth child_rep_def)
  have ids: "map ch_id ?cs = children" using t(8) by (simp add: comp_def case_prod_beta)
  have "map ch_min ?cs = map (\<lambda>p. lc_key (hd p)) parts" using t(8) by (simp add: comp_def case_prod_beta)
  then have "map ch_min (tl ?cs) = keys" using t(6) by (simp add: map_tl)
  then have seps: "separators ?cs = sum_list (map (\<lambda>key. 16 + length key) keys)" by (metis (no_types) sizes_of_keys)
  note n = reader_node_ok[OF t(3)]
  have size: "separators ?cs \<le> 16320" using n seps by (simp add: HEADER_SIZE_def PAGE_SIZE_def del: of_nat_Suc)
  have "keys \<noteq> []" using n by (simp del: of_nat_Suc)
  then have len: "2 \<le> length ?cs" using t(7,8) by (cases keys) simp_all
  from t(1,2) have m: "m < 255" by simp
  show thesis by (rule that[where cs = ?cs, unfolded ids, OF m t(3) list cs t(5,6) len size])
qed simp

lemma separators_splice:
  assumes "a \<le> b"
  shows "separators (splice a b ys cs) \<le> separators cs + sum_list (map (\<lambda>c. 16 + length (ch_min c)) ys)"
proof -
  let ?g = "\<lambda>c. 16 + length (ch_min c)"
  have tl: "sum_list (map ?g (tl xs)) \<le> sum_list (map ?g xs)" for xs by (cases xs) auto
  have part: "sum_list (map ?g (take j xs)) + sum_list (map ?g (drop k xs)) \<le> sum_list (map ?g xs)" if "j \<le> k" for j k xs
  proof -
    have "sum_list (map ?g (drop j xs)) = sum_list (map ?g (take (k - j) (drop j xs))) + sum_list (map ?g (drop k xs))"
      using sum_take_drop[of "map ?g (drop j xs)" "k - j"] that by (simp add: take_map drop_map)
    then show ?thesis using sum_take_drop[of "map ?g xs" j] by (simp add: take_map drop_map)
  qed
  show ?thesis
  proof (cases cs)
    case Nil
    then show ?thesis using tl[of ys] by (simp add: splice_def)
  next
    case (Cons c cs')
    show ?thesis
    proof (cases a)
      case 0
      then show ?thesis using tl[of "ys @ drop b cs'"] part[of 0 b cs'] by (simp add: splice_def Cons)
    next
      case (Suc a')
      then show ?thesis using part[of a' b cs'] assms by (simp add: splice_def Cons)
    qed
  qed
qed

lemma child_size: "list_all2 (child_rep m crc r tree) ys qs \<Longrightarrow> sum_list (map (\<lambda>c. 16 + length (ch_min c)) ys) \<le> 2082 * length ys"
  by (induction rule: list_all2_induct) (auto simp: MAX_KEY_def dest!: child_facts(2))

lemma children_splice:
  "list_all2 R cs parts \<Longrightarrow> list_all2 R ys qs \<Longrightarrow> list_all2 R (splice a b ys cs) (splice a b qs parts)"
  by (simp add: splice_def list_all2_appendI list_all2_takeI list_all2_dropI)

text \<open>The last step of an edit of an internal node: its new children, or the one that is left.\<close>

lemma yields_finish_internal:
  assumes f: "good f" and cs: "list_all2 (child_rep m crc (pf_reader f) tree) cs parts" and m: "m < 255"
    and ne: "cs \<noteq> []" and asc: "ascending (map lc_key (concat parts))" and size: "separators cs \<le> 20484"
  shows "yields (if length cs = 1 then pret (Some \<lparr>ed_level = of_nat (Suc m) - 1, ed_children = cs\<rparr>)
      else pbind (write_internal crc tree (of_nat (Suc m)) cs) (\<lambda>e. pret (Some e))) f
    (\<lambda>e f'. \<exists>e' k. e = Some e' \<and> edit_rep k crc (pf_reader f') tree e' (concat parts) \<and>
      (k = Suc m \<and> length (ed_children e') \<in> {1, 2} \<or> k = m \<and> length (ed_children e') = 1))"
proof (cases "length cs = 1")
  case True
  then show ?thesis using f cs by (auto simp: edit_rep_def intro!: yields_pret exI[of _ m])
next
  case False
  have two: "2 \<le> length cs" using False ne by (cases cs; cases "tl cs") auto
  show ?thesis using False
    by (simp only: if_False)
      (rule yields_pbind[OF yields_write_internal[OF f cs m two asc size]], rule yields_pret, auto)
qed

lemma yields_repair:
  assumes f: "good f" and cs: "list_all2 (child_rep (Suc k) crc (pf_reader f) tree) cs parts" and k: "k < 254"
    and index: "index < length cs" "2 \<le> length cs" and u: "child_rep k crc (pf_reader f) tree u q"
    and asc: "ascending (map lc_key (concat (splice index index [q] parts)))"
  shows "yields (repair crc tree (of_nat (Suc (Suc k))) cs index [u]) f
    (\<lambda>cs' f'. \<exists>a b ys qs. cs' = splice a b ys cs \<and> a \<le> b \<and> length ys \<in> {1, 2} \<and>
      list_all2 (child_rep (Suc k) crc (pf_reader f') tree) ys qs \<and> concat (splice a b qs parts) = concat (splice index index [q] parts))"
proof -
  define sibling where "sibling = (if index = 0 then 1 else index - 1)"
  let ?r = "pf_reader f" and ?a = "min index sibling" and ?b = "max index sibling"
  have sib: "sibling < length cs" "length parts = length cs" using index children_facts(5)[OF cs] by (auto simp: sibling_def)
  have rep: "tree_rep (Suc k) crc ?r tree (ch_id (cs ! sibling)) (parts ! sibling)"
    using list_all2_nthD[OF cs sib(1)] by (simp add: child_rep_def)
  show ?thesis
  proof (rule child_list_rep[OF rep])
    fix keys cs' parts'
    assume s: "reader_node crc ?r tree (ch_id (cs ! sibling)) = Inr (NInternal (of_nat (Suc k)) keys (map ch_id cs'))"
      "child_list crc ?r tree (of_nat (Suc k)) keys (map ch_id cs') = Inr cs'" "list_all2 (child_rep k crc ?r tree) cs' parts'"
      "parts ! sibling = concat parts'" "2 \<le> length cs'" "separators cs' \<le> 16320"
    let ?new = "if sibling < index then cs' @ [u] else [u] @ cs'" and ?parts = "if sibling < index then parts' @ [q] else [q] @ parts'"
    have new: "list_all2 (child_rep k crc ?r tree) ?new ?parts" using s(3) u by (auto intro: list_all2_appendI)
    have cells: "concat (splice ?a ?b [concat ?parts] parts) = concat (splice index index [q] parts)"
    proof (cases index)
      case 0
      then have "drop (Suc 0) parts = parts ! 1 # drop 2 parts"
        using sib index(2) by (simp add: Cons_nth_drop_Suc numeral_2_eq_2)
      then show ?thesis using 0 s(4) by (simp add: splice_def sibling_def numeral_2_eq_2)
    next
      case (Suc j)
      then have "take index parts = take j parts @ [parts ! j]" using sib index(1) by (simp add: take_Suc_conv_app_nth)
      then show ?thesis using Suc s(4) by (simp add: splice_def sibling_def)
    qed
    have "ascending (map lc_key (concat ?parts))"
      using asc unfolding cells[symmetric] by (simp add: splice_def ascending_iff sorted_wrt_append)
    moreover have "separators ?new \<le> 20484"
    proof -
      have "separators (cs' @ [u]) \<le> separators cs' + 2082" "separators ([u] @ cs') \<le> separators cs' + 2082"
        using s(5) child_facts(2)[OF u] children_facts(4)[OF s(3)] by (cases cs'; simp add: MAX_KEY_def)+
      then show ?thesis using s(6) by (cases "sibling < index") (simp_all only: if_True if_False)
    qed
    moreover have "2 \<le> length ?new" using s(5) by simp
    ultimately have w: "yields (write_internal crc tree (of_nat (Suc k)) ?new) f
        (\<lambda>e f'. edit_rep (Suc k) crc (pf_reader f') tree e (concat ?parts) \<and> length (ed_children e) \<in> {1, 2})"
      using k by (intro yields_write_internal[OF f new]) simp_all
    have "yields (pbind (write_internal crc tree (of_nat (Suc k)) ?new) (\<lambda>e. pret (splice ?a ?b (ed_children e) cs))) f
      (\<lambda>cs' f'. \<exists>a b ys qs. cs' = splice a b ys cs \<and> a \<le> b \<and> length ys \<in> {1, 2} \<and>
        list_all2 (child_rep (Suc k) crc (pf_reader f') tree) ys qs \<and> concat (splice a b qs parts) = concat (splice index index [q] parts))"
    proof (rule yields_pbind[OF w], rule yields_pret)
      fix e f'
      assume e: "edit_rep (Suc k) crc (pf_reader f') tree e (concat ?parts) \<and> length (ed_children e) \<in> {1, 2}"
      then obtain qs where qs: "list_all2 (child_rep (Suc k) crc (pf_reader f') tree) (ed_children e) qs" "concat ?parts = concat qs"
        by (auto simp: edit_rep_def)
      have "concat (splice ?a ?b qs parts) = concat (splice ?a ?b [concat ?parts] parts)" unfolding qs(2) by (simp add: splice_def)
      then show "\<exists>a b ys qs. splice ?a ?b (ed_children e) cs = splice a b ys cs \<and> a \<le> b \<and> length ys \<in> {1, 2} \<and>
          list_all2 (child_rep (Suc k) crc (pf_reader f') tree) ys qs \<and> concat (splice a b qs parts) = concat (splice index index [q] parts)"
        using e qs(1) cells by (intro exI[of _ ?a] exI[of _ ?b] exI[of _ "ed_children e"] exI[of _ qs]) auto
    qed
    moreover have "repair crc tree (of_nat (Suc (Suc k))) cs index [u] f =
        pbind (write_internal crc tree (of_nat (Suc k)) ?new) (\<lambda>e. pret (splice ?a ?b (ed_children e) cs)) f"
      using load_rep(2)[OF s(1), of "Some (of_nat (Suc k))"] s(2) sib(1) k level_below[of "Suc k"]
      by (simp add: repair_def Let_def sibling_def[symmetric] at_def del: of_nat_Suc)
    ultimately show ?thesis by (simp add: yields_def)
  qed
qed

lemma pbind_pret [simp]: "pbind (pret x) g = g x"
  by (rule ext) (simp add: pbind_def pret_def)

lemma yields_edit_internal:
  assumes f: "good f" and cs: "list_all2 (child_rep m crc (pf_reader f) tree) cs parts" and m: "m < 255"
    and index: "index < length cs" "2 \<le> length cs" and size: "separators cs \<le> 16320"
    and e: "edit_rep m' crc (pf_reader f) tree e Q" "m' = m \<and> length (ed_children e) \<le> 2 \<or> Suc m' = m \<and> length (ed_children e) = 1"
    and asc: "ascending (map lc_key (concat (splice index index [Q] parts)))"
  shows "yields (edit_internal crc tree (of_nat (Suc m)) cs index e) f
    (\<lambda>r f'. \<exists>e' k. r = Some e' \<and> edit_rep k crc (pf_reader f') tree e' (concat (splice index index [Q] parts)) \<and>
      (k = Suc m \<and> length (ed_children e') \<in> {1, 2} \<or> k = m \<and> length (ed_children e') = 1))"
proof -
  have len: "length parts = length cs" using children_facts(5)[OF cs] .
  have replaced: "yields (if length (splice a b ys cs) = 1 then pret (Some \<lparr>ed_level = of_nat (Suc m) - 1, ed_children = splice a b ys cs\<rparr>)
        else pbind (write_internal crc tree (of_nat (Suc m)) (splice a b ys cs)) (\<lambda>e. pret (Some e))) f'
      (\<lambda>r f'. \<exists>e' k. r = Some e' \<and> edit_rep k crc (pf_reader f') tree e' (concat (splice index index [Q] parts)) \<and>
        (k = Suc m \<and> length (ed_children e') \<in> {1, 2} \<or> k = m \<and> length (ed_children e') = 1))"
    if "later f f'" "good f'" "a \<le> b" "length ys \<le> 2" "splice a b ys cs \<noteq> []" "list_all2 (child_rep m crc (pf_reader f') tree) ys qs"
      "concat (splice a b qs parts) = concat (splice index index [Q] parts)" for a b ys qs f'
  proof -
    have "separators (splice a b ys cs) \<le> 20484"
      using separators_splice[OF that(3), of ys cs] child_size[OF that(6)] size that(4) by simp
    then show ?thesis
      using yields_finish_internal[OF that(2) children_splice[OF children_rep_later[OF that(1) cs] that(6)] m that(5)] asc
      unfolding that(7) by blast
  qed
  obtain qs where qs: "ed_level e = of_nat m'" "list_all2 (child_rep m' crc (pf_reader f) tree) (ed_children e) qs" "Q = concat qs"
    using e(1) by (auto simp: edit_rep_def)
  from e(2) show ?thesis
  proof
    assume m': "m' = m \<and> length (ed_children e) \<le> 2"
    have "take index cs \<noteq> [] \<or> drop (Suc index) cs \<noteq> []" using index by auto
    then have "splice index index (ed_children e) cs \<noteq> []" by (auto simp: splice_def)
    moreover have "concat (splice index index qs parts) = concat (splice index index [Q] parts)" by (simp add: splice_def qs(3))
    moreover have "edit_internal crc tree (of_nat (Suc m)) cs index e =
        (if length (splice index index (ed_children e) cs) = 1
         then pret (Some \<lparr>ed_level = of_nat (Suc m) - 1, ed_children = splice index index (ed_children e) cs\<rparr>)
         else pbind (write_internal crc tree (of_nat (Suc m)) (splice index index (ed_children e) cs)) (\<lambda>e. pret (Some e)))"
      unfolding edit_internal_def using m' qs(1) by simp
    moreover have "list_all2 (child_rep m crc (pf_reader f) tree) (ed_children e) qs" using qs(2) m' by simp
    ultimately show ?thesis using replaced[OF later_refl f order_refl, of "ed_children e" index qs] m' by simp
  next
    assume m': "Suc m' = m \<and> length (ed_children e) = 1"
    then obtain u q where u: "ed_children e = [u]" "qs = [q]" "child_rep m' crc (pf_reader f) tree u q"
      using qs(2) by (auto simp: length_Suc_conv list_all2_Cons1)
    have Q: "Q = q" using qs(3) u(2) by simp
    have mm: "m = Suc m'" "m' < 254" using m' m by auto
    have "unat (of_nat (Suc (Suc m')) :: byte) = Suc (Suc m')" using mm by (intro level_unat) simp
    then have "\<not> (of_nat (Suc (Suc m')) :: byte) < 2" by (simp add: word_less_nat_alt del: of_nat_Suc)
    then have "edit_internal crc tree (of_nat (Suc m)) cs index e =
        pbind (repair crc tree (of_nat (Suc (Suc m'))) cs index [u]) (\<lambda>children.
          if length children = 1 then pret (Some \<lparr>ed_level = of_nat (Suc m) - 1, ed_children = children\<rparr>)
          else pbind (write_internal crc tree (of_nat (Suc m)) children) (\<lambda>e. pret (Some e)))"
      unfolding edit_internal_def using u(1) qs(1) mm(1) by simp
    moreover have "yields \<dots> f (\<lambda>r f'. \<exists>e' k. r = Some e' \<and> edit_rep k crc (pf_reader f') tree e' (concat (splice index index [Q] parts)) \<and>
        (k = Suc m \<and> length (ed_children e') \<in> {1, 2} \<or> k = m \<and> length (ed_children e') = 1))"
    proof (rule yields_pbind[OF yields_repair[OF f cs[unfolded mm(1)] mm(2) index u(3) asc[unfolded Q]]])
      fix cs' f'
      assume l: "later f f'" "good f'" and "\<exists>a b ys qs. cs' = splice a b ys cs \<and> a \<le> b \<and> length ys \<in> {1, 2} \<and>
        list_all2 (child_rep (Suc m') crc (pf_reader f') tree) ys qs \<and> concat (splice a b qs parts) = concat (splice index index [q] parts)"
      then obtain a b ys qs where n: "cs' = splice a b ys cs" "a \<le> b" "length ys \<in> {1, 2}"
        "list_all2 (child_rep (Suc m') crc (pf_reader f') tree) ys qs" "concat (splice a b qs parts) = concat (splice index index [q] parts)"
        by blast
      have "length ys \<le> 2" "splice a b ys cs \<noteq> []" using n(3) by (auto simp: splice_def)
      from replaced[OF l n(2) this n(4)[folded mm(1)] n(5)[folded Q]]
      show "yields (if length cs' = 1 then pret (Some \<lparr>ed_level = of_nat (Suc m) - 1, ed_children = cs'\<rparr>)
          else pbind (write_internal crc tree (of_nat (Suc m)) cs') (\<lambda>e. pret (Some e))) f'
        (\<lambda>r f'. \<exists>e' k. r = Some e' \<and> edit_rep k crc (pf_reader f') tree e' (concat (splice index index [Q] parts)) \<and>
          (k = Suc m \<and> length (ed_children e') \<in> {1, 2} \<or> k = m \<and> length (ed_children e') = 1))"
        unfolding n(1) .
    qed
    ultimately show ?thesis by simp
  qed
qed

subsection \<open>Edits of a tree\<close>

lemma update_internal:
  assumes "load crc (pf_reader f) tree i expected = Inr (NInternal level keys children)" "route keys key < length children" "below level = Inr l"
  shows "update crc tree key v i expected f =
    pbind (update crc tree key v (children ! route keys key) (Some l)) (\<lambda>e.
      case e of
        None \<Rightarrow> pret None
      | Some e \<Rightarrow> pbind (plift (child_list crc (pf_reader f) tree level keys children)) (\<lambda>children.
          edit_internal crc tree level children (route keys key) e)) f"
  using assms by (subst update.simps) (auto simp: Let_def at_def pbind_def pret_def split: prod.splits sum.splits option.splits)

lemma update_leaf:
  "load crc (pf_reader f) tree i expected = Inr (NLeaf cells) \<Longrightarrow> update crc tree key v i expected f = edit_leaf crc tree key v cells f"
  by (subst update.simps) (simp add: Let_def)

lemma yields_eq: "m f = m' f \<Longrightarrow> yields m' f Q \<Longrightarrow> yields m f Q"
  by (simp add: yields_def)

lemma yields_update:
  assumes key: "length key \<le> MAX_KEY" and v: "\<forall>x. v = Some x \<longrightarrow> length x \<le> MAX_VALUE"
  shows "tree_rep n crc (pf_reader f) tree i cells \<Longrightarrow> fits n expected \<Longrightarrow> good f \<Longrightarrow>
    yields (update crc tree key v i expected) f (edit_result n crc tree key v cells)"
proof (induction n arbitrary: i cells expected)
  case 0
  show ?case by (rule yields_eq[where m' = "edit_leaf crc tree key v cells"])
    (use update_leaf[OF tree_rep_leaf[OF 0(1,2)]] yields_edit_leaf[OF 0(3,1) key v] in simp_all)
next
  case (Suc m)
  let ?r = "pf_reader f"
  show ?case
  proof (rule child_list_rep[OF Suc.prems(1)])
    fix keys cs parts
    let ?k = "route keys key" and ?level = "of_nat (Suc m) :: byte"
    assume t: "m < 255" "reader_node crc ?r tree i = Inr (NInternal ?level keys (map ch_id cs))"
      "child_list crc ?r tree ?level keys (map ch_id cs) = Inr cs" "list_all2 (child_rep m crc ?r tree) cs parts"
      "cells = concat parts" "keys = map (\<lambda>p. lc_key (hd p)) (tl parts)" "2 \<le> length cs" "separators cs \<le> 16320"
    note c = children_facts[OF t(4)]
    have asc: "ascending (map lc_key (concat parts))" using tree_rep_cells[OF Suc.prems(1)] t(5) by simp
    have "parts \<noteq> []" using c(5) t(7) by auto
    note R = route_parts[OF asc c(3) this, of key, folded t(6)]
    have ix: "?k < length cs" using R(1) c(5) by simp
    have rep: "tree_rep m crc ?r tree (ch_id (cs ! ?k)) (parts ! ?k)" using list_all2_nthD[OF t(4) ix] by (simp add: child_rep_def)
    have cells: "concat (splice ?k ?k [edited key mid (parts ! ?k)] parts) = edited key mid cells" for mid
    proof -
      have "cells = concat (take ?k parts) @ parts ! ?k @ concat (drop (Suc ?k) parts)"
        using id_take_nth_drop[OF R(1)] t(5) by (metis concat.simps(2) concat_append)
      then show ?thesis using edited_between[OF R(2,3)] by (simp add: splice_def)
    qed
    have go: "yields (case e of None \<Rightarrow> pret None
        | Some e \<Rightarrow> pbind (plift (child_list crc ?r tree ?level keys (map ch_id cs))) (\<lambda>children. edit_internal crc tree ?level children ?k e)) f'
        (edit_result (Suc m) crc tree key v cells)"
      if l: "later f f'" "good f'" and e: "edit_result m crc tree key v (parts ! ?k) e f'" for e f'
    proof (cases e)
      case None
      then have "v = None" "edited key [] cells = cells" using e cells[of "[]"] R(1) t(5) by (simp_all add: edit_result_def splice_def id_take_nth_drop[symmetric])
      then show ?thesis using None l(2) by (auto simp: edit_result_def intro!: yields_pret)
    next
      case (Some e')
      then obtain m' mid where m': "put_cell crc (pf_reader f') tree key v mid" "edit_rep m' crc (pf_reader f') tree e' (edited key mid (parts ! ?k))"
        "m' = m \<and> length (ed_children e') \<le> 2 \<or> Suc m' = m \<and> length (ed_children e') = 1"
        using e by (auto simp: edit_result_def)
      have "ascending (map lc_key (concat (splice ?k ?k [edited key mid (parts ! ?k)] parts)))"
        unfolding cells using edited_ascending[OF asc m'(1)] t(5) by simp
      note y = yields_edit_internal[OF l(2) children_rep_later[OF l(1) t(4)] t(1) ix t(7,8) m'(2,3) this, unfolded cells]
      show ?thesis unfolding Some t(3) option.case pbind_plift
        by (rule yields_mono[OF y]) (use put_cell_later[OF _ m'(1)] in \<open>fastforce simp: edit_result_def\<close>)
    qed
    let ?m = "pbind (update crc tree key v (map ch_id cs ! ?k) (Some (of_nat m))) (\<lambda>e. case e of None \<Rightarrow> pret None
        | Some e \<Rightarrow> pbind (plift (child_list crc ?r tree ?level keys (map ch_id cs))) (\<lambda>children. edit_internal crc tree ?level children ?k e))"
    show ?thesis
    proof (rule yields_eq[where m' = ?m])
      show "update crc tree key v i expected f = ?m f"
        using ix by (intro update_internal[OF load_rep(2)[OF t(2) Suc.prems(2)] _ level_below[OF t(1)]]) simp
      show "yields ?m f (edit_result (Suc m) crc tree key v cells)"
        using ix Suc.IH[OF rep, of "Some (of_nat m)"] Suc.prems(3) by (intro yields_pbind[OF _ go]) simp_all
    qed
  qed
qed

definition upd_entries :: "bytes \<Rightarrow> bytes option \<Rightarrow> entry list \<Rightarrow> entry list" where
  "upd_entries key v ents =
     filter (\<lambda>e. fst e < key) ents @ (case v of None \<Rightarrow> [] | Some v \<Rightarrow> [(key, v)]) @ filter (\<lambda>e. key < fst e) ents"

lemma map_of_upd_entries: "map_of (upd_entries key v ents) = (map_of ents)(key := v)"
proof
  fix k
  have low: "map_of (filter (\<lambda>e. fst e < key) ents) k = (if k < key then map_of ents k else None)" by (induction ents) auto
  have high: "map_of (filter (\<lambda>e. key < fst e) ents) k = (if key < k then map_of ents k else None)" by (induction ents) auto
  show "map_of (upd_entries key v ents) k = ((map_of ents)(key := v)) k"
    unfolding upd_entries_def map_of_append map_add_def low high
    by (cases k key rule: linorder_cases) (auto split: option.splits)
qed

lemma edited_entries:
  assumes "list_all2 (cell_entry crc (pf_reader f) tree) cells ents" "later f f'" "put_cell crc (pf_reader f') tree key v mid"
  shows "list_all2 (cell_entry crc (pf_reader f') tree) (edited key mid cells) (upd_entries key v ents)"
proof -
  have e: "list_all2 (cell_entry crc (pf_reader f') tree) cells ents"
    using assms(1) by (rule list_all2_mono) (simp add: cell_entry_def later_value[OF assms(2)])
  have "list_all2 (cell_entry crc (pf_reader f') tree) mid (case v of None \<Rightarrow> [] | Some v \<Rightarrow> [(key, v)])"
    using assms(3) by (auto simp: put_cell_def cell_entry_def split: option.splits)
  then show ?thesis unfolding edited_def upd_entries_def
    by (intro list_all2_appendI filter_entries[OF e, of "\<lambda>k. k < key"] filter_entries[OF e, of "\<lambda>k. key < k"])
qed

lemma tree_rep_nonzero: "tree_rep n crc r tree i cells \<Longrightarrow> i \<noteq> 0"
  using tree_rep_ref by (auto simp: valid_ref_def)

lemma yields_tree_finish:
  assumes f: "good f" and holds: "tree_holds crc (pf_reader f) tree root ents" "root \<noteq> 0"
    and key: "length key \<le> MAX_KEY" and v: "\<forall>x. v = Some x \<longrightarrow> length x \<le> MAX_VALUE"
  shows "yields (tree_finish crc tree root key v) f (\<lambda>root' f'. tree_holds crc (pf_reader f') tree root' (upd_entries key v ents))"
proof -
  obtain n cells where t: "tree_rep n crc (pf_reader f) tree root cells" "list_all2 (cell_entry crc (pf_reader f) tree) cells ents"
    using holds by (auto simp: tree_holds_def)
  show ?thesis unfolding tree_finish_def
  proof (rule yields_pbind[OF yields_update[OF key v t(1) _ f]])
    fix e f'
    assume l: "later f f'" "good f'" and e: "edit_result n crc tree key v cells e f'"
    let ?Q = "\<lambda>root' f'. tree_holds crc (pf_reader f') tree root' (upd_entries key v ents)"
    show "yields (case e of None \<Rightarrow> pret root
        | Some e \<Rightarrow> (case ed_children e of [] \<Rightarrow> pret 0 | [c] \<Rightarrow> pret (ch_id c)
            | _ \<Rightarrow> if ed_level e = 255 then plift (Inl Exhausted) else append_node crc tree (internal_node (ed_level e + 1) (ed_children e)))) f' ?Q"
    proof (cases e)
      case None
      then have "put_cell crc (pf_reader f') tree key v []" "edited key [] cells = cells" using e by (simp_all add: edit_result_def put_cell_def)
      then have "list_all2 (cell_entry crc (pf_reader f') tree) cells (upd_entries key v ents)"
        using edited_entries[OF t(2) l(1), of key v "[]"] by simp
      then have "?Q root f'" using tree_rep_later[OF t(1) l(1)] holds(2) unfolding tree_holds_def by auto
      then show ?thesis using None l(2) by (simp add: yields_pret)
    next
      case (Some e')
      then obtain m mid parts where m: "put_cell crc (pf_reader f') tree key v mid" "ed_level e' = of_nat m"
        "list_all2 (child_rep m crc (pf_reader f') tree) (ed_children e') parts" "edited key mid cells = concat parts"
        "length (ed_children e') \<le> 2"
        using e by (auto simp: edit_result_def edit_rep_def)
      have ents: "list_all2 (cell_entry crc (pf_reader f') tree) (concat parts) (upd_entries key v ents)"
        using edited_entries[OF t(2) l(1) m(1)] m(4) by simp
      have asc: "ascending (map lc_key (concat parts))"
        using edited_ascending[OF _ m(1)] tree_rep_cells[OF t(1)] m(4) by metis
      consider (none) "ed_children e' = []" | (one) c where "ed_children e' = [c]" | (two) c d where "ed_children e' = [c, d]"
        using m(5) by (cases "ed_children e'"; cases "tl (ed_children e')") auto
      then show ?thesis
      proof cases
        case none
        then show ?thesis using Some l(2) m(3) ents by (simp add: yields_pret tree_holds_def)
      next
        case (one c)
        then obtain p where p: "parts = [p]" "tree_rep m crc (pf_reader f') tree (ch_id c) p" using m(3) by (auto simp: list_all2_Cons1 child_rep_def)
        have "?Q (ch_id c) f'" using p ents tree_rep_nonzero[OF p(2)] unfolding tree_holds_def by auto
        then show ?thesis using Some one l(2) by (simp add: yields_pret)
      next
        case (two c d)
        then obtain p where "tree_rep m crc (pf_reader f') tree (ch_id c) p" using m(3) by (auto simp: list_all2_Cons1 child_rep_def)
        then have "m \<le> 255" by (rule tree_rep_height)
        show ?thesis
        proof (cases "m = 255")
          case True
          then show ?thesis using Some two l(2) m(2) by (simp add: yields_exhausted)
        next
          case False
          then have lt: "m < 255" using \<open>m \<le> 255\<close> by simp
          have "ed_level e' \<noteq> 255" using level_unat[of m] lt m(2) by auto
          moreover have "node_ok (pr_count (pf_reader f')) (internal_node (of_nat (Suc m)) (ed_children e'))"
            using child_size[OF m(3)] two by (intro internal_node_ok[OF m(3) lt _ asc]) (simp_all add: HEADER_SIZE_def PAGE_SIZE_def)
          from yields_append_node[OF l(2) this, of crc tree]
          have "yields (append_node crc tree (internal_node (of_nat (Suc m)) (ed_children e'))) f' ?Q"
          proof (rule yields_mono)
            fix i f''
            assume i: "later f' f''" "reader_node crc (pf_reader f'') tree i = Inr (internal_node (of_nat (Suc m)) (ed_children e'))"
            have rep: "tree_rep (Suc m) crc (pf_reader f'') tree i (concat parts)"
              by (rule internal_node_rep[OF children_rep_later[OF i(1) m(3)] lt asc i(2)])
            have "list_all2 (cell_entry crc (pf_reader f'') tree) (concat parts) (upd_entries key v ents)"
              using ents by (rule list_all2_mono) (simp add: cell_entry_def later_value[OF i(1)])
            with rep tree_rep_nonzero[OF rep] show "?Q i f''" unfolding tree_holds_def if_not_P[OF tree_rep_nonzero[OF rep]] by blast
          qed
          ultimately show ?thesis using Some two m(2) by (simp add: add.commute)
        qed
      qed
    qed
  qed simp
qed

lemma yields_tree_put:
  assumes "good f" "tree_holds crc (pf_reader f) tree root ents" "length key \<le> MAX_KEY" "length v \<le> MAX_VALUE"
  shows "yields (tree_put crc tree root key v) f (\<lambda>root' f'. tree_holds crc (pf_reader f') tree root' (upd_entries key (Some v) ents))"
proof (cases "root = 0")
  case False
  then show ?thesis using yields_tree_finish[OF assms(1,2) False assms(3), of "Some v"] assms(3,4) by (simp add: tree_put_def tree_check_key_def)
next
  case True
  have "yields (pbind (store_value crc tree v) (\<lambda>stored. append_node crc tree (NLeaf [\<lparr>lc_key = key, lc_value = stored\<rparr>]))) f
      (\<lambda>root' f'. tree_holds crc (pf_reader f') tree root' [(key, v)])"
  proof (rule yields_pbind[OF yields_store_value[OF assms(1,4)]])
    fix sv f'
    assume l: "good f'" and sv: "value_ok (pr_count (pf_reader f')) sv \<and> reader_value crc (pf_reader f') tree sv = Inr v"
    let ?c = "\<lparr>lc_key = key, lc_value = sv\<rparr>"
    have c: "cell_ok (pr_count (pf_reader f')) ?c" using sv assms(3) by (simp add: cell_ok_def)
    then have "node_ok (pr_count (pf_reader f')) (NLeaf [?c])" using leaf_size_bound[OF c] by (simp add: HEADER_SIZE_def PAGE_SIZE_def)
    from yields_append_node[OF l this, of crc tree] show "yields (append_node crc tree (NLeaf [?c])) f' (\<lambda>root' f'. tree_holds crc (pf_reader f') tree root' [(key, v)])"
    proof (rule yields_mono)
      fix i f''
      assume i: "later f' f''" "reader_node crc (pf_reader f'') tree i = Inr (NLeaf [?c])"
      have rep: "tree_rep 0 crc (pf_reader f'') tree i [?c]" using i(2) by simp
      have "list_all2 (cell_entry crc (pf_reader f'') tree) [?c] [(key, v)]" using later_value[OF i(1)] sv by (simp add: cell_entry_def)
      with rep show "tree_holds crc (pf_reader f'') tree i [(key, v)]"
        unfolding tree_holds_def if_not_P[OF tree_rep_nonzero[OF rep]] by blast
    qed
  qed
  then show ?thesis using True assms(2,3,4) by (simp add: tree_put_def tree_check_key_def tree_holds_def upd_entries_def)
qed

lemma yields_tree_delete:
  assumes "good f" "tree_holds crc (pf_reader f) tree root ents" "length key \<le> MAX_KEY"
  shows "yields (tree_delete crc tree root key) f (\<lambda>root' f'. tree_holds crc (pf_reader f') tree root' (upd_entries key None ents))"
proof (cases "root = 0")
  case True
  then show ?thesis using assms by (auto simp: tree_delete_def tree_check_key_def tree_holds_def upd_entries_def intro!: yields_pret)
next
  case False
  then show ?thesis using yields_tree_finish[OF assms(1,2) False assms(3), of None] assms(3) by (simp add: tree_delete_def tree_check_key_def)
qed

subsection \<open>The tree as a map\<close>

text \<open>
  C15: \<^verbatim>\<open>put\<close> and \<^verbatim>\<open>delete\<close> on a tree that holds a list of entries return the root of a tree that
  holds the updated list, whatever splits, merges or loss of height the edit needs; the old
  root still holds the old entries, and on a platform whose writes succeed an edit fails only
  when page IDs or levels are exhausted.
\<close>

theorem tree_edit_refines:
  assumes "file_ok f" "readable f" "tree_holds crc (pf_reader f) tree root ents" "length key \<le> MAX_KEY"
    "\<forall>x. v = Some x \<longrightarrow> length x \<le> MAX_VALUE"
    "(case v of Some x \<Rightarrow> tree_put crc tree root key x | None \<Rightarrow> tree_delete crc tree root key) f = (r, f')"
  shows "file_ok f' \<and> tree_holds crc (pf_reader f') tree root ents \<and>
    (\<forall>root'. r = Inr root' \<longrightarrow> tree_holds crc (pf_reader f') tree root' (upd_entries key v ents) \<and>
      map_of (upd_entries key v ents) = (map_of ents)(key := v)) \<and>
    (healthy f \<longrightarrow> (\<forall>e. r = Inl e \<longrightarrow> e = Exhausted))"
proof -
  have f: "good f" using assms(1,2) by (simp add: good_def)
  have "yields (case v of Some x \<Rightarrow> tree_put crc tree root key x | None \<Rightarrow> tree_delete crc tree root key) f
      (\<lambda>root' f'. tree_holds crc (pf_reader f') tree root' (upd_entries key v ents))"
    using yields_tree_put[OF f assms(3,4)] yields_tree_delete[OF f assms(3,4)] assms(5) by (cases v) simp_all
  note y = yieldsD[OF this assms(6)]
  show ?thesis using y(1,3,5) tree_holds_later[OF assms(3) y(2)] map_of_upd_entries by (auto simp: good_def)
qed

text \<open>
  C16: Lookup, seek and range scan of a tree that holds a list of entries return exactly what
  the list has: the value of the key, the first entry at or above it, and the entries within
  the bounds in key order.
\<close>

theorem tree_reads_entries:
  assumes "tree_holds crc r tree root ents" "length key \<le> MAX_KEY" "check_scan_bound lo = Inr ()" "check_scan_bound hi = Inr ()"
  shows "tree_get crc r tree root key = Inr (map_of ents key) \<and>
    (\<exists>found. tree_seek crc r tree root key = Inr found \<and>
      rel_option (cell_entry crc r tree) found (List.find (\<lambda>e. key \<le> fst e) ents)) \<and>
    tree_scan_all crc r tree root lo hi = Inr (map Inr (filter (\<lambda>e. above lo (fst e) \<and> beneath hi (fst e)) ents))"
proof -
  obtain found where "tree_seek crc r tree root key = Inr found" "rel_option (cell_entry crc r tree) found (List.find (\<lambda>e. key \<le> fst e) ents)"
    by (rule tree_seek_holds[OF assms(1,2)])
  then show ?thesis using tree_get_holds[OF assms(1,2)] tree_scan_holds[OF assms(1,3,4)] by blast
qed

text \<open>
  C17: A root that validation accepts is the root of a tree: whatever bytes the file has, its
  entries are in ascending key order and lookups and scans succeed and agree with them.
\<close>

theorem tree_validate_sound:
  assumes "tree_validate crc r tree root = Inr ()"
  shows "\<exists>ents. ascending (map fst ents) \<and> tree_scan_all crc r tree root Unbounded Unbounded = Inr (map Inr ents) \<and>
    (\<forall>key. length key \<le> MAX_KEY \<longrightarrow> tree_get crc r tree root key = Inr (map_of ents key))"
proof (rule tree_validate_holds[OF assms])
  fix ents
  assume h: "tree_holds crc r tree root ents"
  show ?thesis using tree_holds_ascending[OF h] tree_scan_holds[OF h, of Unbounded Unbounded] tree_get_holds[OF h]
    by (intro exI[of _ ents]) (simp add: check_scan_bound_def)
qed

text \<open>A tree of one entry on a new file.\<close>

lemma example_tree:
  obtains f f' where "pf_create (\<lambda>_. 0) empty_file (replicate 16 7) 19 = Inr f" "file_ok f" "readable f" "healthy f"
    "tree_put (\<lambda>_. 0) State 0 [97] [1, 2] f = (Inr 1, f')" "tree_holds (\<lambda>_. 0) (pf_reader f') State 1 [([97], [1, 2])]"
    "reader_node (\<lambda>_. 0) (pf_reader f') State 1 = Inr (NLeaf [\<lparr>lc_key = [97], lc_value = Inline [1, 2]\<rparr>])"
proof -
  let ?n = "NLeaf [\<lparr>lc_key = [97], lc_value = Inline [1, 2]\<rparr>]"
  obtain f where f: "pf_create (\<lambda>_. 0) empty_file (replicate 16 7) 19 = Inr f" "file_ok f" "readable f" "healthy f" "pf_next f = 1"
    by (rule example_file)
  obtain r f' where a: "append_node (\<lambda>_. 0) State ?n f = (r, f')" by force
  have ok: "node_ok n ?n" for n
    by (simp add: cell_ok_def MAX_KEY_def INLINE_LIMIT_def leaf_size_def HEADER_SIZE_def PAGE_SIZE_def)
  obtain bs where "encode_node State ?n = Inr bs" using encode_node_total[OF ok] by (auto simp: is_ok_iff)
  moreover have "\<not> MAX_PAGES \<le> 1" by (simp add: MAX_PAGES_def word_le_nat_alt)
  ultimately have r: "r = Inr 1" using a f(4,5) by (auto simp: append_node_def pbind_def plift_def append_page_def healthy_def Let_def)
  have put: "tree_put (\<lambda>_. 0) State 0 [97] [1, 2] f = (Inr 1, f')"
    using a r by (simp add: tree_put_def tree_check_key_def store_value_def MAX_KEY_def MAX_VALUE_def INLINE_LIMIT_def)
  have "good f" "tree_holds (\<lambda>_. 0) (pf_reader f) State 0 []" using f by (simp_all add: good_def tree_holds_def)
  from yieldsD(3)[OF yields_tree_put[OF this, of "[97]" "[1, 2]"] put]
  have "tree_holds (\<lambda>_. 0) (pf_reader f') State 1 [([97], [1, 2])]" by (simp add: MAX_KEY_def MAX_VALUE_def upd_entries_def)
  moreover have "reader_node (\<lambda>_. 0) (pf_reader f') State 1 = Inr ?n"
    using append_node_spec(4)[OF f(2) a r f(3) ok] .
  ultimately show thesis using that f put by blast
qed

theorem tree_edit_refines_witness:
  "\<exists>f f'. pf_create (\<lambda>_. 0) empty_file (replicate 16 7) 19 = Inr f \<and> tree_put (\<lambda>_. 0) State 0 [97] [1, 2] f = (Inr 1, f') \<and>
     tree_holds (\<lambda>_. 0) (pf_reader f') State 1 [([97], [1, 2])]"
proof (rule example_tree)
  fix f f'
  assume f: "pf_create (\<lambda>_. 0) empty_file (replicate 16 7) 19 = Inr f" "file_ok f" "readable f"
    "tree_put (\<lambda>_. 0) State 0 [97] [1, 2] f = (Inr 1, f')"
  have "tree_holds (\<lambda>_. 0) (pf_reader f) State 0 []" by (simp add: tree_holds_def)
  from tree_edit_refines[OF f(2,3) this, of "[97]" "Some [1, 2]" "Inr 1" f'] f(1,4) show ?thesis
    by (auto simp: MAX_KEY_def MAX_VALUE_def upd_entries_def)
qed

theorem tree_reads_entries_witness:
  "\<exists>f f'. pf_create (\<lambda>_. 0) empty_file (replicate 16 7) 19 = Inr f \<and> tree_put (\<lambda>_. 0) State 0 [97] [1, 2] f = (Inr 1, f') \<and>
     tree_get (\<lambda>_. 0) (pf_reader f') State 1 [97] = Inr (Some [1, 2]) \<and>
     tree_scan_all (\<lambda>_. 0) (pf_reader f') State 1 (Included [97]) Unbounded = Inr [Inr ([97], [1, 2])]"
proof (rule example_tree)
  fix f f'
  assume f: "pf_create (\<lambda>_. 0) empty_file (replicate 16 7) 19 = Inr f"
    "tree_put (\<lambda>_. 0) State 0 [97] [1, 2] f = (Inr 1, f')" "tree_holds (\<lambda>_. 0) (pf_reader f') State 1 [([97], [1, 2])]"
  from tree_reads_entries[OF f(3), of "[97]" "Included [97]" Unbounded] f(1,2) show ?thesis
    by (auto simp: MAX_KEY_def check_scan_bound_def tree_check_key_def)
qed

theorem tree_validate_sound_witness:
  "\<exists>f f' ents. pf_create (\<lambda>_. 0) empty_file (replicate 16 7) 19 = Inr f \<and> tree_put (\<lambda>_. 0) State 0 [97] [1, 2] f = (Inr 1, f') \<and>
     tree_validate (\<lambda>_. 0) (pf_reader f') State 1 = Inr () \<and>
     tree_scan_all (\<lambda>_. 0) (pf_reader f') State 1 Unbounded Unbounded = Inr (map Inr ents)"
proof (rule example_tree)
  fix f f'
  assume f: "pf_create (\<lambda>_. 0) empty_file (replicate 16 7) 19 = Inr f" "tree_put (\<lambda>_. 0) State 0 [97] [1, 2] f = (Inr 1, f')"
    "reader_node (\<lambda>_. 0) (pf_reader f') State 1 = Inr (NLeaf [\<lparr>lc_key = [97], lc_value = Inline [1, 2]\<rparr>])"
  have "tree_validate (\<lambda>_. 0) (pf_reader f') State 1 = Inr ()"
    using f(3) by (simp add: tree_validate_def validate_subtree.simps load_def level_check_def reader_validate_value_def)
  with tree_validate_sound[OF this] f(1,2) show ?thesis by blast
qed

end
