(* ===== verification/Blop_Metadata.thy ===== *)
theory Blop_Metadata
  imports Blop_Limits
begin

section \<open>Store metadata (\<^verbatim>\<open>src/storage/metadata.rs\<close>)\<close>

text \<open>
  The binary forms of the genesis, the log segment descriptors, the manifest and the pointer
  to the current manifest, and the consistency of a manifest: its roots, frontiers and the
  chain of log segments. The checksum is a parameter \<open>crc\<close>. Fields of the type \<^verbatim>\<open>[u8; N]\<close>
  are byte lists; the \<open>_shape\<close> predicates say that they have the length the type gives them.

  Counts of bytes and records that the code computes in \<^verbatim>\<open>u128\<close> are natural numbers: with
  \<open>u64\<close> operands they stay below \<open>2 ^ 128\<close>.
\<close>

subsection \<open>Framing\<close>

definition GENESIS_LENGTH :: nat where "GENESIS_LENGTH = 180"
definition MANIFEST_BASE_LENGTH :: nat where "MANIFEST_BASE_LENGTH = 272"
definition MAX_MANIFEST_LENGTH :: nat where "MAX_MANIFEST_LENGTH = 16 * 1024 * 1024"
definition DESCRIPTOR_LENGTH :: nat where "DESCRIPTOR_LENGTH = 96"
definition MAX_RECORD_LENGTH :: nat where "MAX_RECORD_LENGTH = 64 * 1024 * 1024"
definition BLOCK_BYTES :: nat where "BLOCK_BYTES = 4096"
definition MAX_GROUP_RECORDS :: nat where "MAX_GROUP_RECORDS = 64"
definition GROUP_OVERHEAD :: nat where "GROUP_OVERHEAD = 112 + 56"

definition m_meta_length :: string where "m_meta_length = ''invalid metadata length''"
definition m_meta_crc :: string where "m_meta_crc = ''metadata CRC mismatch''"
definition m_meta_magic :: string where "m_meta_magic = ''invalid metadata magic''"
definition m_meta_flags :: string where "m_meta_flags = ''nonzero metadata flags''"
definition m_meta_total :: string where "m_meta_total = ''metadata length mismatch''"
definition m_genesis_policy :: string where "m_genesis_policy = ''invalid genesis policy blob length''"
definition m_zero_database :: string where "m_zero_database = ''zero database ID''"
definition m_descriptor_length :: string where "m_descriptor_length = ''invalid segment descriptor length''"
definition m_segment_id :: string where "m_segment_id = ''invalid segment ID''"
definition m_segment_sequences :: string where "m_segment_sequences = ''invalid segment sequence range''"
definition m_segment_prefix :: string where "m_segment_prefix = ''segment prefix length cannot contain its record range''"
definition m_manifest_vector :: string where "m_manifest_vector = ''invalid manifest segment vector length''"
definition m_manifest_ceiling :: string where "m_manifest_ceiling = ''manifest exceeds the hard size ceiling''"
definition m_manifest_zero :: string where "m_manifest_zero = ''zero database ID or cursor namespace''"
definition m_manifest_generation :: string where "m_manifest_generation = ''invalid manifest generation or page file ID''"
definition m_manifest_next :: string where "m_manifest_next = ''invalid next ID''"
definition m_manifest_pages :: string where "m_manifest_pages = ''invalid page count''"
definition m_manifest_root :: string where "m_manifest_root = ''invalid tree root''"
definition m_manifest_shared :: string where "m_manifest_shared = ''different system trees share a root''"
definition m_manifest_frontiers :: string where "m_manifest_frontiers = ''invalid manifest sequence frontiers''"
definition m_manifest_floor :: string where "m_manifest_floor = ''invalid log floor''"
definition m_manifest_digests :: string where "m_manifest_digests = ''inconsistent frontier digests''"
definition m_manifest_empty :: string where "m_manifest_empty = ''empty log does not match manifest frontiers''"
definition m_segments_ids :: string where "m_segments_ids = ''segment IDs are not increasing below the next ID''"
definition m_segments_gap :: string where "m_segments_gap = ''segment sequence gap or overlap''"
definition m_segments_predecessor :: string where "m_segments_predecessor = ''segment predecessor digest mismatch''"
definition m_segments_checkpoint :: string where "m_segments_checkpoint = ''segment checkpoint digest mismatch''"
definition m_segments_end :: string where "m_segments_end = ''segments do not end at the durable frontier''"
definition m_current_generation :: string where "m_current_generation = ''invalid current manifest generation''"
definition m_current_reserved :: string where "m_current_reserved = ''nonzero current reserved field''"

definition BLOPGN01 :: bytes where "BLOPGN01 = [66, 76, 79, 80, 71, 78, 48, 49]"
definition BLOPMF01 :: bytes where "BLOPMF01 = [66, 76, 79, 80, 77, 70, 48, 49]"
definition BLOPCU01 :: bytes where "BLOPCU01 = [66, 76, 79, 80, 67, 85, 48, 49]"

definition array_at :: "nat \<Rightarrow> bytes \<Rightarrow> nat \<Rightarrow> bytes" where
  "array_at n bs offset = take n (drop offset bs)"

definition valid_number :: "u64 \<Rightarrow> bool" where
  "valid_number i \<longleftrightarrow> i \<noteq> 0 \<and> i \<noteq> - 1"

definition metadata_prefix :: "bytes \<Rightarrow> nat \<Rightarrow> bytes" where
  "metadata_prefix magic len = magic @ u16_le 1 @ u16_le 0 @ u32_le (of_nat len)"

definition append_crc :: "(bytes \<Rightarrow> u32) \<Rightarrow> bytes \<Rightarrow> bytes" where
  "append_crc crc bs = bs @ u32_le (crc bs)"

definition check_metadata :: "(bytes \<Rightarrow> u32) \<Rightarrow> bytes \<Rightarrow> bytes \<Rightarrow> string \<Rightarrow> nat \<Rightarrow> nat \<Rightarrow> storage_error + unit" where
  "check_metadata crc bs magic fmt low high =
     (if \<not> (low \<le> length bs \<and> length bs \<le> high) then Inl (Corrupt m_meta_length)
      else if crc (take (length bs - 4) bs) \<noteq> u32_at bs (length bs - 4) then Inl (Corrupt m_meta_crc)
      else if take 8 bs \<noteq> magic then Inl (Corrupt m_meta_magic)
      else rbind (check_version (u16_at bs 8) fmt) (\<lambda>_.
        if u16_at bs 10 \<noteq> 0 then Inl (Corrupt m_meta_flags)
        else if unat (u32_at bs 12) \<noteq> length bs then Inl (Corrupt m_meta_total)
        else Inr ()))"

subsection \<open>Genesis\<close>

record genesis =
  gn_database_id :: bytes
  gn_initial_policy :: policy

definition genesis_encode :: "(bytes \<Rightarrow> u32) \<Rightarrow> genesis \<Rightarrow> storage_error + bytes" where
  "genesis_encode crc g =
     (if gn_database_id g = replicate 16 0 then Inl (InvalidInput m_zero_database)
      else Inr (append_crc crc (metadata_prefix BLOPGN01 GENESIS_LENGTH @ gn_database_id g @
        u32_le (of_nat POLICY_LENGTH) @ policy_encode (gn_initial_policy g))))"

definition genesis_decode :: "(bytes \<Rightarrow> u32) \<Rightarrow> bytes \<Rightarrow> storage_error + genesis" where
  "genesis_decode crc bs =
     rbind (check_metadata crc bs BLOPGN01 ''genesis'' GENESIS_LENGTH GENESIS_LENGTH) (\<lambda>_.
     if u32_at bs 32 \<noteq> of_nat POLICY_LENGTH then Inl (Corrupt m_genesis_policy)
     else if array_at 16 bs 16 = replicate 16 0 then Inl (Corrupt m_zero_database)
     else rbind (policy_decode (take 140 (drop 36 bs))) (\<lambda>p.
       Inr \<lparr>gn_database_id = array_at 16 bs 16, gn_initial_policy = p\<rparr>))"

subsection \<open>Segment descriptors\<close>

record segment =
  sg_id :: u64
  sg_first :: u64
  sg_last :: u64
  sg_committed :: u64
  sg_predecessor :: bytes
  sg_digest :: bytes

definition div_ceil :: "nat \<Rightarrow> nat \<Rightarrow> nat" where
  "div_ceil a b = (a + b - 1) div b"

definition validate_descriptor :: "segment \<Rightarrow> string + unit" where
  "validate_descriptor s =
     (if \<not> valid_number (sg_id s) then Inl m_segment_id
      else if \<not> valid_number (sg_first s) \<or> \<not> valid_number (sg_last s) \<or> sg_first s > sg_last s then Inl m_segment_sequences
      else
        let records = unat (sg_last s - sg_first s + 1);
            groups = div_ceil records MAX_GROUP_RECORDS;
            low = div_ceil (records * 72 + groups * GROUP_OVERHEAD) BLOCK_BYTES * BLOCK_BYTES;
            high = records * div_ceil (MAX_RECORD_LENGTH + GROUP_OVERHEAD) BLOCK_BYTES * BLOCK_BYTES in
        if unat (sg_committed s) mod BLOCK_BYTES \<noteq> 0 \<or>
          \<not> (BLOCK_BYTES + low \<le> unat (sg_committed s) \<and> unat (sg_committed s) \<le> BLOCK_BYTES + high)
        then Inl m_segment_prefix else Inr ())"

definition append_descriptor :: "segment \<Rightarrow> bytes" where
  "append_descriptor s =
     u64_le (sg_id s) @ u64_le (sg_first s) @ u64_le (sg_last s) @ u64_le (sg_committed s) @ sg_predecessor s @ sg_digest s"

definition descriptor_encode :: "segment \<Rightarrow> storage_error + bytes" where
  "descriptor_encode s = rbind (map_err InvalidInput (validate_descriptor s)) (\<lambda>_. Inr (append_descriptor s))"

definition descriptor_decode :: "bytes \<Rightarrow> storage_error + segment" where
  "descriptor_decode bs =
     (if length bs \<noteq> DESCRIPTOR_LENGTH then Inl (Corrupt m_descriptor_length) else
      let s = \<lparr>sg_id = u64_at bs 0, sg_first = u64_at bs 8, sg_last = u64_at bs 16, sg_committed = u64_at bs 24,
            sg_predecessor = array_at 32 bs 32, sg_digest = array_at 32 bs 64\<rparr> in
      rbind (map_err Corrupt (validate_descriptor s)) (\<lambda>_. Inr s))"

subsection \<open>The manifest\<close>

record manifest =
  mf_database_id :: bytes
  mf_genesis_digest :: bytes
  mf_cursor_namespace :: bytes
  mf_generation :: u64
  mf_page_file_id :: u64
  mf_page_count :: u64
  mf_checkpoint_sequence :: u64
  mf_checkpoint_digest :: bytes
  mf_durable_sequence :: u64
  mf_durable_digest :: bytes
  mf_history_floor :: u64
  mf_log_floor :: u64
  mf_next_cursor_id :: u64
  mf_next_segment_id :: u64
  mf_next_page_file_id :: u64
  mf_roots :: "u64 list"
  mf_segments :: "segment list"

fun shared_root :: "u64 list \<Rightarrow> u64 list \<Rightarrow> bool" where
  "shared_root seen [] = False"
| "shared_root seen (root # roots) = (root \<noteq> 0 \<and> root \<in> set seen \<or> shared_root (seen @ [root]) roots)"

text \<open>One round of the loop over the segments: the next sequence, the last ID and the expected digest.\<close>

definition chain_segment :: "manifest \<Rightarrow> segment \<Rightarrow> u64 \<times> u64 \<times> bytes option \<Rightarrow> string + u64 \<times> u64 \<times> bytes option" where
  "chain_segment m s = (\<lambda>(next_sequence, previous_id, predecessor).
     rbind (validate_descriptor s) (\<lambda>_.
     if sg_id s \<le> previous_id \<or> sg_id s \<ge> mf_next_segment_id m then Inl m_segments_ids
     else if sg_first s \<noteq> next_sequence then Inl m_segments_gap
     else if (case predecessor of None \<Rightarrow> False | Some digest \<Rightarrow> digest \<noteq> sg_predecessor s) then Inl m_segments_predecessor
     else if sg_first s = mf_checkpoint_sequence m + 1 \<and> sg_predecessor s \<noteq> mf_checkpoint_digest m \<or>
       sg_last s = mf_checkpoint_sequence m \<and> sg_digest s \<noteq> mf_checkpoint_digest m then Inl m_segments_checkpoint
     else Inr (sg_last s + 1, sg_id s, Some (sg_digest s))))"

definition validate_segments :: "manifest \<Rightarrow> string + unit" where
  "validate_segments m =
     (let predecessor = (if mf_log_floor m = 1 then Some (mf_genesis_digest m)
            else if mf_log_floor m = mf_checkpoint_sequence m + 1 then Some (mf_checkpoint_digest m) else None) in
      rbind (rfold (chain_segment m) (mf_segments m) (mf_log_floor m, 0, predecessor)) (\<lambda>(next_sequence, _, predecessor).
      if next_sequence \<noteq> mf_durable_sequence m + 1 \<or> predecessor \<noteq> Some (mf_durable_digest m) then Inl m_segments_end
      else Inr ()))"

definition validate_manifest :: "manifest \<Rightarrow> string + unit" where
  "validate_manifest m =
     (if length (mf_segments m) > (MAX_MANIFEST_LENGTH - MANIFEST_BASE_LENGTH) div DESCRIPTOR_LENGTH then Inl m_manifest_ceiling
      else if mf_database_id m = replicate 16 0 \<or> mf_cursor_namespace m = replicate 16 0 then Inl m_manifest_zero
      else if \<not> valid_number (mf_generation m) \<or> \<not> valid_number (mf_page_file_id m) then Inl m_manifest_generation
      else if mf_next_cursor_id m = 0 \<or> mf_next_segment_id m = 0 \<or> mf_next_page_file_id m \<le> mf_page_file_id m then Inl m_manifest_next
      else if mf_page_count m = 0 \<or> mf_page_count m > push_bit 48 1 then Inl m_manifest_pages
      else if mf_roots m ! 2 = 0 \<or> list_ex (\<lambda>root. root \<ge> mf_page_count m) (mf_roots m) then Inl m_manifest_root
      else if shared_root [] (mf_roots m) then Inl m_manifest_shared
      else if mf_durable_sequence m = - 1 \<or> mf_history_floor m > mf_checkpoint_sequence m \<or>
        mf_checkpoint_sequence m > mf_durable_sequence m then Inl m_manifest_frontiers
      else if mf_log_floor m = 0 \<or> mf_log_floor m > mf_checkpoint_sequence m + 1 then Inl m_manifest_floor
      else if mf_checkpoint_sequence m = 0 \<and> mf_checkpoint_digest m \<noteq> mf_genesis_digest m \<or>
        mf_durable_sequence m = 0 \<and> mf_durable_digest m \<noteq> mf_genesis_digest m \<or>
        mf_checkpoint_sequence m = mf_durable_sequence m \<and> mf_checkpoint_digest m \<noteq> mf_durable_digest m then Inl m_manifest_digests
      else if mf_segments m = [] then
        if mf_durable_sequence m \<noteq> mf_checkpoint_sequence m \<or> mf_log_floor m \<noteq> mf_durable_sequence m + 1 then Inl m_manifest_empty
        else Inr ()
      else validate_segments m)"

definition manifest_encode :: "(bytes \<Rightarrow> u32) \<Rightarrow> manifest \<Rightarrow> storage_error + bytes" where
  "manifest_encode crc m =
     rbind (map_err InvalidInput (validate_manifest m)) (\<lambda>_.
     let len = MANIFEST_BASE_LENGTH + length (mf_segments m) * DESCRIPTOR_LENGTH in
     Inr (append_crc crc (metadata_prefix BLOPMF01 len @ mf_database_id m @ mf_genesis_digest m @ mf_cursor_namespace m @
       u64_le (mf_generation m) @ u64_le (mf_page_file_id m) @ u64_le (mf_page_count m) @ u64_le (mf_checkpoint_sequence m) @
       mf_checkpoint_digest m @ u64_le (mf_durable_sequence m) @ mf_durable_digest m @
       u64_le (mf_history_floor m) @ u64_le (mf_log_floor m) @ u64_le (mf_next_cursor_id m) @ u64_le (mf_next_segment_id m) @
       u64_le (mf_next_page_file_id m) @ concat (map u64_le (mf_roots m)) @ u32_le (of_nat (length (mf_segments m))) @
       concat (map append_descriptor (mf_segments m)))))"

fun as_chunks :: "nat \<Rightarrow> nat \<Rightarrow> bytes \<Rightarrow> bytes list" where
  "as_chunks 0 n bs = []"
| "as_chunks (Suc k) n bs = take n bs # as_chunks k n (drop n bs)"

definition manifest_decode :: "(bytes \<Rightarrow> u32) \<Rightarrow> bytes \<Rightarrow> storage_error + manifest" where
  "manifest_decode crc bs =
     rbind (check_metadata crc bs BLOPMF01 ''manifest'' MANIFEST_BASE_LENGTH MAX_MANIFEST_LENGTH) (\<lambda>_.
     let n = unat (u32_at bs 264) in
     if n * DESCRIPTOR_LENGTH + MANIFEST_BASE_LENGTH \<noteq> length bs then Inl (Corrupt m_manifest_vector) else
     rbind (rmap descriptor_decode (as_chunks n DESCRIPTOR_LENGTH (take (length bs - 4 - 268) (drop 268 bs)))) (\<lambda>segments.
     let m = \<lparr>mf_database_id = array_at 16 bs 16, mf_genesis_digest = array_at 32 bs 32, mf_cursor_namespace = array_at 16 bs 64,
           mf_generation = u64_at bs 80, mf_page_file_id = u64_at bs 88, mf_page_count = u64_at bs 96,
           mf_checkpoint_sequence = u64_at bs 104, mf_checkpoint_digest = array_at 32 bs 112, mf_durable_sequence = u64_at bs 144,
           mf_durable_digest = array_at 32 bs 152, mf_history_floor = u64_at bs 184, mf_log_floor = u64_at bs 192,
           mf_next_cursor_id = u64_at bs 200, mf_next_segment_id = u64_at bs 208, mf_next_page_file_id = u64_at bs 216,
           mf_roots = map (\<lambda>index. u64_at bs (224 + index * 8)) [0..<5], mf_segments = segments\<rparr> in
     rbind (map_err Corrupt (validate_manifest m)) (\<lambda>_. Inr m)))"

subsection \<open>The current manifest\<close>

record current =
  cu_generation :: u64
  cu_digest :: bytes

definition current_encode :: "(bytes \<Rightarrow> u32) \<Rightarrow> current \<Rightarrow> storage_error + bytes" where
  "current_encode crc c =
     (if \<not> valid_number (cu_generation c) then Inl (InvalidInput m_current_generation)
      else Inr (append_crc crc (metadata_prefix BLOPCU01 64 @ u64_le (cu_generation c) @ cu_digest c @ u32_le 0)))"

definition current_decode :: "(bytes \<Rightarrow> u32) \<Rightarrow> bytes \<Rightarrow> storage_error + current" where
  "current_decode crc bs =
     rbind (check_metadata crc bs BLOPCU01 ''current'' 64 64) (\<lambda>_.
     if u32_at bs 56 \<noteq> 0 then Inl (Corrupt m_current_reserved)
     else if \<not> valid_number (u64_at bs 16) then Inl (Corrupt m_current_generation)
     else Inr \<lparr>cu_generation = u64_at bs 16, cu_digest = array_at 32 bs 24\<rparr>)"

subsection \<open>Fields of a layout\<close>

lemma at_skip:
  "length xs \<le> n \<Longrightarrow> u16_at (xs @ ys) n = u16_at ys (n - length xs)"
  "length xs \<le> n \<Longrightarrow> u32_at (xs @ ys) n = u32_at ys (n - length xs)"
  "length xs \<le> n \<Longrightarrow> u64_at (xs @ ys) n = u64_at ys (n - length xs)"
  "length xs \<le> n \<Longrightarrow> array_at k (xs @ ys) n = array_at k ys (n - length xs)"
  "length xs = k \<Longrightarrow> array_at k (xs @ ys) 0 = xs"
  "length xs = k \<Longrightarrow> array_at k xs 0 = xs"
  "u16_at (u16_le a) 0 = a" "u32_at (u32_le b) 0 = b" "u64_at (u64_le c) 0 = c"
  by (simp_all add: u16_at_def u32_at_def u64_at_def array_at_def)

lemma le_at:
  "k + 2 \<le> length bs \<Longrightarrow> u16_le (u16_at bs k) = take 2 (drop k bs)"
  "k + 4 \<le> length bs \<Longrightarrow> u32_le (u32_at bs k) = take 4 (drop k bs)"
  "k + 8 \<le> length bs \<Longrightarrow> u64_le (u64_at bs k) = take 8 (drop k bs)"
  by (simp_all add: u16_at_def u32_at_def u64_at_def codec_simps)

fun slices :: "nat list \<Rightarrow> bytes \<Rightarrow> bytes list" where
  "slices [] bs = [bs]"
| "slices (n # ns) bs = take n bs # slices ns (drop n bs)"

lemma concat_slices: "concat (slices ns bs) = bs"
  by (induction ns arbitrary: bs) simp_all

lemma concat_chunks: "length bs = k * n \<Longrightarrow> concat (as_chunks k n bs) = bs"
  by (induction k arbitrary: bs) (simp_all add: add.commute)

lemma chunks_concat: "\<forall>x \<in> set xs. length x = n \<Longrightarrow> as_chunks (length xs) n (concat xs) = xs"
  by (induction xs) simp_all

lemma check_metadata_exact:
  assumes "length magic = 8" "20 \<le> low" "high < 2 ^ 32"
  shows "check_metadata crc bs magic fmt low high = Inr () \<longleftrightarrow>
    low \<le> length bs \<and> length bs \<le> high \<and> (\<exists>body. bs = append_crc crc (metadata_prefix magic (length bs) @ body))"
proof
  assume "check_metadata crc bs magic fmt low high = Inr ()"
  then have c: "low \<le> length bs" "length bs \<le> high" "crc (take (length bs - 4) bs) = u32_at bs (length bs - 4)" "take 8 bs = magic"
    "u16_at bs 8 = 1" "u16_at bs 10 = 0" "unat (u32_at bs 12) = length bs"
    by (auto simp: check_metadata_def check_version_def rbind_eq_Inr split: if_splits)
  let ?p = "take (length bs - 4) bs"
  have len: "20 \<le> length bs" using c(1) assms(2) by simp
  have "u32_le (crc ?p) = drop (length bs - 4) bs" using le_at(2)[of "length bs - 4" bs] len c(3) by simp
  then have whole: "bs = append_crc crc ?p" by (simp add: append_crc_def)
  have "u16_le 1 = take 2 (drop 8 bs)" "u16_le 0 = take 2 (drop 10 bs)" using le_at(1)[of 8 bs] le_at(1)[of 10 bs] len c(5,6) by simp_all
  moreover have "u32_le (of_nat (length bs)) = take 4 (drop 12 bs)"
    unfolding c(7)[symmetric] using le_at(2)[of 12 bs] len by simp
  moreover have "take 8 ?p @ take 2 (drop 8 ?p) @ take 2 (drop 10 ?p) @ take 4 (drop 12 ?p) @ drop 16 ?p = ?p"
    using concat_slices[of "[8, 2, 2, 4]" ?p] by simp
  moreover have "take 8 ?p = take 8 bs" "take 2 (drop 8 ?p) = take 2 (drop 8 bs)" "take 2 (drop 10 ?p) = take 2 (drop 10 bs)"
    "take 4 (drop 12 ?p) = take 4 (drop 12 bs)" using len by (auto simp: drop_take min_def)
  ultimately have "metadata_prefix magic (length bs) @ drop 16 ?p = ?p" using c(4) by (simp add: metadata_prefix_def)
  then show "low \<le> length bs \<and> length bs \<le> high \<and> (\<exists>body. bs = append_crc crc (metadata_prefix magic (length bs) @ body))"
    using c(1,2) whole by metis
next
  assume "low \<le> length bs \<and> length bs \<le> high \<and> (\<exists>body. bs = append_crc crc (metadata_prefix magic (length bs) @ body))"
  then obtain body n where b: "low \<le> n" "n \<le> high" "length bs = n" "bs = append_crc crc (metadata_prefix magic n @ body)" by blast
  let ?p = "metadata_prefix magic n @ body"
  have split: "bs = ?p @ u32_le (crc ?p)" using b(4) by (simp add: append_crc_def)
  have p: "n - 4 = length ?p" using arg_cong[OF split, of length] b(3) by simp
  have "take (n - 4) bs = ?p" unfolding p split by simp
  moreover have "u32_at bs (n - 4) = crc ?p" unfolding p split by (simp only: at_skip order_refl diff_self_eq_0)
  moreover have "take 8 bs = magic" "u16_at bs 8 = 1" "u16_at bs 10 = 0" "u32_at bs 12 = of_nat n"
    unfolding split using assms(1) by (simp_all add: metadata_prefix_def at_skip)
  moreover have "unat (of_nat n :: u32) = n" using b(2) assms(3) by (simp add: unat_of_nat)
  ultimately show "check_metadata crc bs magic fmt low high = Inr ()" using b(1,2,3) by (simp add: check_metadata_def check_version_def)
qed

subsection \<open>Exactness\<close>

definition segment_shape :: "segment \<Rightarrow> bool" where
  "segment_shape s \<longleftrightarrow> length (sg_predecessor s) = 32 \<and> length (sg_digest s) = 32"

lemma descriptor_decode_exact:
  "descriptor_decode bs = Inr s \<longleftrightarrow> segment_shape s \<and> validate_descriptor s = Inr () \<and> bs = append_descriptor s"
proof
  assume "descriptor_decode bs = Inr s"
  then have d: "length bs = 96" "s = \<lparr>sg_id = u64_at bs 0, sg_first = u64_at bs 8, sg_last = u64_at bs 16, sg_committed = u64_at bs 24,
      sg_predecessor = array_at 32 bs 32, sg_digest = array_at 32 bs 64\<rparr>" "validate_descriptor s = Inr ()"
    by (auto simp: descriptor_decode_def DESCRIPTOR_LENGTH_def result_simps Let_def split: if_splits)
  have "append_descriptor s = bs"
    using concat_slices[of "[8, 8, 8, 8, 32]" bs] d(1) by (simp add: d(2) append_descriptor_def le_at array_at_def)
  then show "segment_shape s \<and> validate_descriptor s = Inr () \<and> bs = append_descriptor s" using d by (simp add: segment_shape_def array_at_def)
next
  assume s: "segment_shape s \<and> validate_descriptor s = Inr () \<and> bs = append_descriptor s"
  then have "\<lparr>sg_id = u64_at bs 0, sg_first = u64_at bs 8, sg_last = u64_at bs 16, sg_committed = u64_at bs 24,
      sg_predecessor = array_at 32 bs 32, sg_digest = array_at 32 bs 64\<rparr> = s" "length bs = 96"
    by (simp_all add: append_descriptor_def segment_shape_def at_skip)
  then show "descriptor_decode bs = Inr s" using s by (simp add: descriptor_decode_def DESCRIPTOR_LENGTH_def)
qed

lemma descriptor_length: "segment_shape s \<Longrightarrow> length (append_descriptor s) = 96"
  by (simp add: segment_shape_def append_descriptor_def)

lemma descriptors_exact:
  "length bs = n * 96 \<Longrightarrow> rmap descriptor_decode (as_chunks n DESCRIPTOR_LENGTH bs) = Inr ss \<longleftrightarrow>
   length ss = n \<and> (\<forall>s \<in> set ss. segment_shape s \<and> validate_descriptor s = Inr ()) \<and> bs = concat (map append_descriptor ss)"
proof
  assume len: "length bs = n * 96" and "rmap descriptor_decode (as_chunks n DESCRIPTOR_LENGTH bs) = Inr ss"
  then have l: "list_all2 (\<lambda>b s. segment_shape s \<and> validate_descriptor s = Inr () \<and> b = append_descriptor s) (as_chunks n 96 bs) ss"
    by (simp add: rmap_eq_Inr descriptor_decode_exact DESCRIPTOR_LENGTH_def)
  have "length (as_chunks n 96 bs) = n" by (induction n arbitrary: bs) simp_all
  moreover have "as_chunks n 96 bs = map append_descriptor ss" "\<forall>s \<in> set ss. segment_shape s \<and> validate_descriptor s = Inr ()"
    using l by (induction rule: list_all2_induct) auto
  ultimately show "length ss = n \<and> (\<forall>s \<in> set ss. segment_shape s \<and> validate_descriptor s = Inr ()) \<and> bs = concat (map append_descriptor ss)"
    using concat_chunks[OF len] by (metis length_map)
next
  assume ss: "length ss = n \<and> (\<forall>s \<in> set ss. segment_shape s \<and> validate_descriptor s = Inr ()) \<and> bs = concat (map append_descriptor ss)"
  then have "as_chunks n 96 bs = map append_descriptor ss"
    using chunks_concat[of "map append_descriptor ss" 96] by (simp add: descriptor_length)
  then show "rmap descriptor_decode (as_chunks n DESCRIPTOR_LENGTH bs) = Inr ss"
    using ss by (simp add: rmap_eq_Inr descriptor_decode_exact DESCRIPTOR_LENGTH_def list_all2_map1 list.rel_refl_strong)
qed

definition manifest_shape :: "manifest \<Rightarrow> bool" where
  "manifest_shape m \<longleftrightarrow> length (mf_database_id m) = 16 \<and> length (mf_genesis_digest m) = 32 \<and> length (mf_cursor_namespace m) = 16 \<and>
     length (mf_checkpoint_digest m) = 32 \<and> length (mf_durable_digest m) = 32 \<and> length (mf_roots m) = 5 \<and>
     (\<forall>s \<in> set (mf_segments m). segment_shape s)"

definition manifest_body :: "manifest \<Rightarrow> bytes" where
  "manifest_body m = mf_database_id m @ mf_genesis_digest m @ mf_cursor_namespace m @
     u64_le (mf_generation m) @ u64_le (mf_page_file_id m) @ u64_le (mf_page_count m) @ u64_le (mf_checkpoint_sequence m) @
     mf_checkpoint_digest m @ u64_le (mf_durable_sequence m) @ mf_durable_digest m @
     u64_le (mf_history_floor m) @ u64_le (mf_log_floor m) @ u64_le (mf_next_cursor_id m) @ u64_le (mf_next_segment_id m) @
     u64_le (mf_next_page_file_id m) @ concat (map u64_le (mf_roots m)) @ u32_le (of_nat (length (mf_segments m))) @
     concat (map append_descriptor (mf_segments m))"

lemma manifest_encode_body:
  "manifest_encode crc m = Inr bs \<longleftrightarrow> validate_manifest m = Inr () \<and>
   bs = append_crc crc (metadata_prefix BLOPMF01 (MANIFEST_BASE_LENGTH + length (mf_segments m) * DESCRIPTOR_LENGTH) @ manifest_body m)"
  by (auto simp: manifest_encode_def manifest_body_def result_simps Let_def)

lemma concat_u64_length: "length (concat (map u64_le xs)) = 8 * length xs"
  by (induction xs) simp_all

lemma concat_descriptor_length: "\<forall>s \<in> set ss. segment_shape s \<Longrightarrow> length (concat (map append_descriptor ss)) = 96 * length ss"
  by (induction ss) (simp_all add: descriptor_length)

lemma manifest_body_length: "manifest_shape m \<Longrightarrow> length (manifest_body m) = 252 + 96 * length (mf_segments m)"
  by (simp add: manifest_body_def manifest_shape_def concat_u64_length concat_descriptor_length)

lemma validated_segments: "validate_manifest m = Inr () \<Longrightarrow> s \<in> set (mf_segments m) \<Longrightarrow> validate_descriptor s = Inr ()"
proof -
  have "rfold (chain_segment m) ss st = Inr st' \<Longrightarrow> s \<in> set ss \<Longrightarrow> validate_descriptor s = Inr ()" for ss st st'
    by (induction ss arbitrary: st) (auto simp: rbind_eq_Inr chain_segment_def split: prod.splits)
  then show "validate_manifest m = Inr () \<Longrightarrow> s \<in> set (mf_segments m) \<Longrightarrow> validate_descriptor s = Inr ()"
    unfolding validate_manifest_def validate_segments_def Let_def by (fastforce simp: rbind_eq_Inr split: if_splits)
qed

lemma validated_count: "validate_manifest m = Inr () \<Longrightarrow> length (mf_segments m) \<le> 174759"
  by (auto simp: validate_manifest_def MAX_MANIFEST_LENGTH_def MANIFEST_BASE_LENGTH_def DESCRIPTOR_LENGTH_def split: if_splits)

definition manifest_fields :: "bytes \<Rightarrow> segment list \<Rightarrow> manifest" where
  "manifest_fields bs segments = \<lparr>mf_database_id = array_at 16 bs 16, mf_genesis_digest = array_at 32 bs 32,
     mf_cursor_namespace = array_at 16 bs 64,
     mf_generation = u64_at bs 80, mf_page_file_id = u64_at bs 88, mf_page_count = u64_at bs 96,
     mf_checkpoint_sequence = u64_at bs 104, mf_checkpoint_digest = array_at 32 bs 112, mf_durable_sequence = u64_at bs 144,
     mf_durable_digest = array_at 32 bs 152, mf_history_floor = u64_at bs 184, mf_log_floor = u64_at bs 192,
     mf_next_cursor_id = u64_at bs 200, mf_next_segment_id = u64_at bs 208, mf_next_page_file_id = u64_at bs 216,
     mf_roots = map (\<lambda>index. u64_at bs (224 + index * 8)) [0..<5], mf_segments = segments\<rparr>"

lemma manifest_decode_fields:
  "manifest_decode crc bs =
     rbind (check_metadata crc bs BLOPMF01 ''manifest'' MANIFEST_BASE_LENGTH MAX_MANIFEST_LENGTH) (\<lambda>_.
     let n = unat (u32_at bs 264) in
     if n * DESCRIPTOR_LENGTH + MANIFEST_BASE_LENGTH \<noteq> length bs then Inl (Corrupt m_manifest_vector) else
     rbind (rmap descriptor_decode (as_chunks n DESCRIPTOR_LENGTH (take (length bs - 4 - 268) (drop 268 bs)))) (\<lambda>segments.
     rbind (map_err Corrupt (validate_manifest (manifest_fields bs segments))) (\<lambda>_. Inr (manifest_fields bs segments))))"
  unfolding manifest_decode_def manifest_fields_def Let_def by (rule refl)

lemma manifest_layout:
  assumes "272 \<le> length bs" "length ss < 2 ^ 32" "unat (u32_at bs 264) = length ss"
    "take (length bs - 4 - 268) (drop 268 bs) = concat (map append_descriptor ss)"
  shows "drop 16 (take (length bs - 4) bs) = manifest_body (manifest_fields bs ss)"
proof -
  let ?p = "take (length bs - 4) bs"
  have field: "take n (drop k ?p) = take n (drop k bs)" if "k + n \<le> 268" for k n
    using that assms(1) by (auto simp: drop_take min_def)
  have roots: "concat (map u64_le (map (\<lambda>index. u64_at bs (224 + index * 8)) [0..<5])) = take 40 (drop 224 bs)"
  proof -
    have "u64_at bs (224 + index * 8) = u64_at (take 40 (drop 224 bs)) (8 * index)" if "index < 5" for index
      using that by (auto simp: u64_at_def drop_take min_def mult.commute add.commute)
    then have e: "map (\<lambda>index. u64_at bs (224 + index * 8)) [0..<5] = map (\<lambda>i. u64_at (take 40 (drop 224 bs)) (8 * i)) [0..<5]" by simp
    show ?thesis unfolding e using concat_u64_at[of "take 40 (drop 224 bs)" 5] assms(1) by (simp add: comp_def)
  qed
  have n: "u32_le (of_nat (length ss)) = take 4 (drop 264 bs)"
    unfolding assms(3)[symmetric] using le_at(2)[of 264 bs] assms(1) by simp
  have "drop 268 ?p = concat (map append_descriptor ss)" using assms(4) by (simp add: drop_take)
  moreover have "concat (slices [16, 32, 16, 8, 8, 8, 8, 32, 8, 32, 8, 8, 8, 8, 8, 40, 4] (drop 16 ?p)) = drop 16 ?p" by (rule concat_slices)
  ultimately have "drop 16 ?p = take 16 (drop 16 bs) @ take 32 (drop 32 bs) @ take 16 (drop 64 bs) @ take 8 (drop 80 bs) @ take 8 (drop 88 bs) @
      take 8 (drop 96 bs) @ take 8 (drop 104 bs) @ take 32 (drop 112 bs) @ take 8 (drop 144 bs) @ take 32 (drop 152 bs) @ take 8 (drop 184 bs) @
      take 8 (drop 192 bs) @ take 8 (drop 200 bs) @ take 8 (drop 208 bs) @ take 8 (drop 216 bs) @ take 40 (drop 224 bs) @ take 4 (drop 264 bs) @
      concat (map append_descriptor ss)"
    by (simp add: field)
  then show ?thesis using assms(1) roots n by (simp add: manifest_body_def manifest_fields_def array_at_def le_at)
qed

lemma manifest_fields_encoded:
  assumes "manifest_shape m" "length prefix = 16"
  shows "manifest_fields (prefix @ manifest_body m @ rest) (mf_segments m) = m"
    "u32_at (prefix @ manifest_body m @ rest) 264 = of_nat (length (mf_segments m))"
    "take (96 * length (mf_segments m)) (drop 268 (prefix @ manifest_body m @ rest)) = concat (map append_descriptor (mf_segments m))"
proof -
  obtain r0 r1 r2 r3 r4 where roots: "mf_roots m = [r0, r1, r2, r3, r4]"
    using assms(1) by (auto simp: manifest_shape_def numeral_eq_Suc length_Suc_conv)
  have five: "[0..<5] = [0, 1, 2, 3, 4 :: nat]" by (simp add: upt_rec)
  have s: "length (mf_database_id m) = 16" "length (mf_genesis_digest m) = 32" "length (mf_cursor_namespace m) = 16"
    "length (mf_checkpoint_digest m) = 32" "length (mf_durable_digest m) = 32" using assms(1) by (simp_all add: manifest_shape_def)
  show "manifest_fields (prefix @ manifest_body m @ rest) (mf_segments m) = m"
    by (rule manifest.equality) (simp_all add: manifest_fields_def manifest_body_def s assms(2) at_skip roots five)
  show "u32_at (prefix @ manifest_body m @ rest) 264 = of_nat (length (mf_segments m))"
    by (simp add: manifest_body_def s assms(2) at_skip roots)
  show "take (96 * length (mf_segments m)) (drop 268 (prefix @ manifest_body m @ rest)) = concat (map append_descriptor (mf_segments m))"
    using concat_descriptor_length[of "mf_segments m"] assms(1) by (simp add: manifest_body_def s assms(2) roots manifest_shape_def)
qed

lemma store_manifest_exact:
  "manifest_decode crc bs = Inr m \<longleftrightarrow> manifest_shape m \<and> manifest_encode crc m = Inr bs"
proof
  assume "manifest_decode crc bs = Inr m"
  then obtain ss where d: "check_metadata crc bs BLOPMF01 ''manifest'' MANIFEST_BASE_LENGTH MAX_MANIFEST_LENGTH = Inr ()"
    "unat (u32_at bs 264) * 96 + 272 = length bs"
    "rmap descriptor_decode (as_chunks (unat (u32_at bs 264)) DESCRIPTOR_LENGTH (take (length bs - 4 - 268) (drop 268 bs))) = Inr ss"
    "validate_manifest m = Inr ()" "m = manifest_fields bs ss"
    unfolding manifest_decode_fields Let_def by (auto simp: result_simps DESCRIPTOR_LENGTH_def MANIFEST_BASE_LENGTH_def split: if_splits)
  obtain body where b: "bs = append_crc crc (metadata_prefix BLOPMF01 (length bs) @ body)"
    using d(1) by (auto simp: check_metadata_exact BLOPMF01_def MANIFEST_BASE_LENGTH_def MAX_MANIFEST_LENGTH_def)
  have "length (take (length bs - 4 - 268) (drop 268 bs)) = unat (u32_at bs 264) * 96" using d(2) by simp
  from d(3)[unfolded descriptors_exact[OF this]]
  have ss: "length ss = unat (u32_at bs 264)" "\<forall>s \<in> set ss. segment_shape s" "take (length bs - 4 - 268) (drop 268 bs) = concat (map append_descriptor ss)" by auto
  have l: "272 \<le> length bs" using d(2) by simp
  have "drop 16 (take (length bs - 4) bs) = manifest_body m"
    unfolding d(5) using ss(1) unat_u32_less[of "u32_at bs 264"] by (intro manifest_layout[OF l _ _ ss(3)]) simp_all
  moreover have "drop 16 (take (length bs - 4) bs) = body"
  proof -
    have "take (length bs - 4) bs = metadata_prefix BLOPMF01 (length bs) @ body"
      using b by (metis (no_types, lifting) append_crc_def append_eq_conv_conj diff_add_inverse2 length_append length_uint_codecs(2))
    then show ?thesis by (simp add: metadata_prefix_def BLOPMF01_def)
  qed
  moreover have "length bs = MANIFEST_BASE_LENGTH + length (mf_segments m) * DESCRIPTOR_LENGTH"
    using d(2,5) ss(1) by (simp add: manifest_fields_def MANIFEST_BASE_LENGTH_def DESCRIPTOR_LENGTH_def)
  moreover have "manifest_shape m" using l ss(2) by (simp add: d(5) manifest_shape_def manifest_fields_def array_at_def)
  ultimately show "manifest_shape m \<and> manifest_encode crc m = Inr bs" using d(4) b unfolding manifest_encode_body by metis
next
  assume e: "manifest_shape m \<and> manifest_encode crc m = Inr bs"
  let ?n = "length (mf_segments m)"
  let ?len = "MANIFEST_BASE_LENGTH + ?n * DESCRIPTOR_LENGTH"
  have v: "validate_manifest m = Inr ()" and bs: "bs = append_crc crc (metadata_prefix BLOPMF01 ?len @ manifest_body m)" and shape: "manifest_shape m"
    using e by (auto simp: manifest_encode_body)
  have n: "?n \<le> 174759" by (rule validated_count[OF v])
  have len: "length bs = 272 + ?n * 96" "?len = length bs"
    by (simp_all add: bs append_crc_def metadata_prefix_def BLOPMF01_def manifest_body_length[OF shape] MANIFEST_BASE_LENGTH_def DESCRIPTOR_LENGTH_def)
  have pre: "length (metadata_prefix BLOPMF01 ?len) = 16" by (simp add: metadata_prefix_def BLOPMF01_def)
  have split: "bs = metadata_prefix BLOPMF01 ?len @ manifest_body m @ u32_le (crc (metadata_prefix BLOPMF01 ?len @ manifest_body m))"
    using bs by (simp add: append_crc_def)
  note f = manifest_fields_encoded[OF shape pre, of "u32_le (crc (metadata_prefix BLOPMF01 ?len @ manifest_body m))", folded split]
  have "check_metadata crc bs BLOPMF01 ''manifest'' MANIFEST_BASE_LENGTH MAX_MANIFEST_LENGTH = Inr ()"
  proof (rule iffD2[OF check_metadata_exact], goal_cases)
    case 4
    show ?case using bs[unfolded len(2)] len(1) n by (intro conjI exI[of _ "manifest_body m"]) (simp_all add: MANIFEST_BASE_LENGTH_def MAX_MANIFEST_LENGTH_def)
  qed (simp_all add: BLOPMF01_def MANIFEST_BASE_LENGTH_def MAX_MANIFEST_LENGTH_def)
  moreover have c: "unat (u32_at bs 264) = ?n" using f(2) n by (simp add: unat_of_nat)
  moreover have "rmap descriptor_decode (as_chunks ?n DESCRIPTOR_LENGTH (take (length bs - 4 - 268) (drop 268 bs))) = Inr (mf_segments m)"
    using f(3) len(1) shape validated_segments[OF v] by (subst descriptors_exact) (auto simp: manifest_shape_def mult.commute concat_descriptor_length)
  ultimately show "manifest_decode crc bs = Inr m"
    unfolding manifest_decode_fields Let_def using f(1) v len(1) by (simp add: MANIFEST_BASE_LENGTH_def DESCRIPTOR_LENGTH_def)
qed

interpretation manifest_codec: exact_codec "manifest_encode crc" "manifest_decode crc" manifest_shape for crc
  by unfold_locales (simp add: store_manifest_exact)

definition genesis_shape :: "genesis \<Rightarrow> bool" where
  "genesis_shape g \<longleftrightarrow> length (gn_database_id g) = 16 \<and> policy_ok (gn_initial_policy g)"

lemma policy_bytes_length: "policy_ok p \<Longrightarrow> length (policy_encode p) = 140"
  using concat_u64_length[of p] policy_ok_length[of p] by (simp add: policy_encode_def)

text \<open>The parts of accepted metadata of a fixed length.\<close>

lemma check_metadata_parts:
  assumes "check_metadata crc bs magic fmt n n = Inr ()" "length magic = 8" "20 \<le> n" "n < 2 ^ 32"
  shows "length bs = n" "bs = append_crc crc (metadata_prefix magic n @ take (n - 20) (drop 16 bs))"
proof -
  have c: "n \<le> length bs \<and> length bs \<le> n \<and> (\<exists>body. bs = append_crc crc (metadata_prefix magic (length bs) @ body))"
    by (rule iffD1[OF check_metadata_exact[OF assms(2-4)] assms(1)])
  then have l: "length bs = n" by (elim conjE) (rule antisym)
  obtain body where b: "length bs = n" "bs = append_crc crc (metadata_prefix magic n @ body)" using c l unfolding l by blast
  have "length bs = 20 + length body" by (subst b(2)) (simp add: append_crc_def metadata_prefix_def assms(2))
  then have body: "length body = n - 20" using b(1) by simp
  have "drop 16 bs = body @ u32_le (crc (metadata_prefix magic n @ body))"
    by (subst b(2)) (simp add: append_crc_def metadata_prefix_def assms(2))
  then have "take (n - 20) (drop 16 bs) = body" using body by simp
  with b show "length bs = n" "bs = append_crc crc (metadata_prefix magic n @ take (n - 20) (drop 16 bs))" by metis+
qed

lemma magic_length [simp]: "length BLOPGN01 = 8" "length BLOPMF01 = 8" "length BLOPCU01 = 8"
  by (simp_all add: BLOPGN01_def BLOPMF01_def BLOPCU01_def)

lemma check_metadata_intro:
  assumes "bs = append_crc crc (metadata_prefix magic n @ body)" "length bs = n" "length magic = 8" "20 \<le> n" "n < 2 ^ 32"
  shows "check_metadata crc bs magic fmt n n = Inr ()"
  unfolding check_metadata_exact[OF assms(3-5)] assms(2) using assms(1) by blast

lemma genesis_decode_exact:
  "genesis_decode crc bs = Inr g \<longleftrightarrow> genesis_shape g \<and> genesis_encode crc g = Inr bs"
proof
  assume "genesis_decode crc bs = Inr g"
  then obtain p where d: "check_metadata crc bs BLOPGN01 ''genesis'' 180 180 = Inr ()" "u32_at bs 32 = 140"
    "array_at 16 bs 16 \<noteq> replicate 16 0" "policy_decode (take 140 (drop 36 bs)) = Inr p"
    "g = \<lparr>gn_database_id = array_at 16 bs 16, gn_initial_policy = p\<rparr>"
    by (auto simp: genesis_decode_def rbind_eq_Inr GENESIS_LENGTH_def POLICY_LENGTH_def split: if_splits)
  note parts = check_metadata_parts[OF d(1) magic_length(1), simplified]
  have p: "policy_ok p" "take 140 (drop 36 bs) = policy_encode p" using d(4) by (simp_all add: policy_decode_exact)
  have "concat (slices [16, 4] (take 160 (drop 16 bs))) = take 160 (drop 16 bs)" by (rule concat_slices)
  then have "take 160 (drop 16 bs) = take 16 (drop 16 bs) @ take 4 (drop 32 bs) @ take 140 (drop 36 bs)" by (simp add: drop_take)
  then have "take 160 (drop 16 bs) = gn_database_id g @ u32_le 140 @ policy_encode p"
    using le_at(2)[of 32 bs] parts(1) d(2,5) p(2) by (simp add: array_at_def)
  then show "genesis_shape g \<and> genesis_encode crc g = Inr bs"
    using parts d(3,5) p(1) by (simp add: genesis_shape_def genesis_encode_def GENESIS_LENGTH_def POLICY_LENGTH_def array_at_def)
next
  assume "genesis_shape g \<and> genesis_encode crc g = Inr bs"
  then have g: "length (gn_database_id g) = 16" "policy_ok (gn_initial_policy g)" "gn_database_id g \<noteq> replicate 16 0"
    "bs = append_crc crc (metadata_prefix BLOPGN01 180 @ gn_database_id g @ u32_le 140 @ policy_encode (gn_initial_policy g))"
    by (auto simp: genesis_shape_def genesis_encode_def GENESIS_LENGTH_def POLICY_LENGTH_def split: if_splits)
  note len = policy_bytes_length[OF g(2)]
  have l: "length bs = 180" using g(1,4) len by (simp add: append_crc_def metadata_prefix_def)
  have "check_metadata crc bs BLOPGN01 ''genesis'' 180 180 = Inr ()"
    by (rule check_metadata_intro[OF g(4) l]) simp_all
  moreover have "u32_at bs 32 = 140" "array_at 16 bs 16 = gn_database_id g" "take 140 (drop 36 bs) = policy_encode (gn_initial_policy g)"
    using g(1) len by (simp_all add: g(4) append_crc_def metadata_prefix_def at_skip)
  ultimately show "genesis_decode crc bs = Inr g"
    using g(2,3) policy_decode_exact[of "policy_encode (gn_initial_policy g)" "gn_initial_policy g"]
    by (simp add: genesis_decode_def GENESIS_LENGTH_def POLICY_LENGTH_def)
qed

lemma current_decode_exact:
  "current_decode crc bs = Inr c \<longleftrightarrow> length (cu_digest c) = 32 \<and> current_encode crc c = Inr bs"
proof
  assume "current_decode crc bs = Inr c"
  then have d: "check_metadata crc bs BLOPCU01 ''current'' 64 64 = Inr ()" "u32_at bs 56 = 0" "valid_number (u64_at bs 16)"
    "c = \<lparr>cu_generation = u64_at bs 16, cu_digest = array_at 32 bs 24\<rparr>"
    by (auto simp: current_decode_def rbind_eq_Inr split: if_splits)
  note parts = check_metadata_parts[OF d(1) magic_length(3), simplified]
  have "concat (slices [8, 32] (take 44 (drop 16 bs))) = take 44 (drop 16 bs)" by (rule concat_slices)
  then have "take 44 (drop 16 bs) = take 8 (drop 16 bs) @ take 32 (drop 24 bs) @ take 4 (drop 56 bs)" by (simp add: drop_take)
  then have "take 44 (drop 16 bs) = u64_le (cu_generation c) @ cu_digest c @ u32_le 0"
    using le_at(2)[of 56 bs] le_at(3)[of 16 bs] parts(1) d(2,4) by (simp add: array_at_def)
  then show "length (cu_digest c) = 32 \<and> current_encode crc c = Inr bs"
    using parts d(3,4) by (simp add: current_encode_def array_at_def)
next
  assume "length (cu_digest c) = 32 \<and> current_encode crc c = Inr bs"
  then have g: "length (cu_digest c) = 32" "valid_number (cu_generation c)"
    "bs = append_crc crc (metadata_prefix BLOPCU01 64 @ u64_le (cu_generation c) @ cu_digest c @ u32_le 0)"
    by (auto simp: current_encode_def split: if_splits)
  have l: "length bs = 64" using g by (simp add: append_crc_def metadata_prefix_def)
  have "check_metadata crc bs BLOPCU01 ''current'' 64 64 = Inr ()"
    by (rule check_metadata_intro[OF g(3) l]) simp_all
  moreover have "u32_at bs 56 = 0" "u64_at bs 16 = cu_generation c" "array_at 32 bs 24 = cu_digest c"
    using g(1) by (simp_all add: g(3) append_crc_def metadata_prefix_def at_skip)
  ultimately show "current_decode crc bs = Inr c" using g(2) by (simp add: current_decode_def)
qed

interpretation genesis_codec: exact_codec "genesis_encode crc" "genesis_decode crc" genesis_shape for crc
  by unfold_locales (simp add: genesis_decode_exact)

interpretation current_codec: exact_codec "current_encode crc" "current_decode crc" "\<lambda>c. length (cu_digest c) = 32" for crc
  by unfold_locales (simp add: current_decode_exact)

subsection \<open>The chain of segments\<close>

lemma successor_greater: "(x :: u64) \<noteq> - 1 \<Longrightarrow> unat (x + 1) = Suc (unat x)"
  using unatSuc[of x] by (metis add.commute add_eq_0_iff)

text \<open>The segments cover the sequences from the first to the last without gap or overlap, linked by their digests.\<close>

definition linked :: "segment list \<Rightarrow> bool" where
  "linked = successively (\<lambda>s t. sg_id s < sg_id t \<and> sg_first t = sg_last s + 1 \<and> sg_predecessor t = sg_digest s)"

lemma segment_range: "validate_descriptor s = Inr () \<Longrightarrow> sg_first s \<le> sg_last s \<and> sg_last s \<noteq> - 1 \<and> sg_id s \<noteq> 0 \<and> sg_first s \<noteq> 0"
  by (auto simp: validate_descriptor_def valid_number_def split: if_splits)

lemma chain_segment_Inr:
  "chain_segment m s (first, previous, predecessor) = Inr st \<Longrightarrow>
   validate_descriptor s = Inr () \<and> previous < sg_id s \<and> sg_id s < mf_next_segment_id m \<and> sg_first s = first \<and>
   (\<forall>d. predecessor = Some d \<longrightarrow> sg_predecessor s = d) \<and>
   (sg_first s = mf_checkpoint_sequence m + 1 \<longrightarrow> sg_predecessor s = mf_checkpoint_digest m) \<and>
   (sg_last s = mf_checkpoint_sequence m \<longrightarrow> sg_digest s = mf_checkpoint_digest m) \<and> st = (sg_last s + 1, sg_id s, Some (sg_digest s))"
  by (auto simp: rbind_eq_Inr chain_segment_def not_le split: if_splits option.splits)

lemma chain_segments:
  assumes "rfold (chain_segment m) ss (first, previous, predecessor) = Inr (following, greatest, digest)"
  shows "unat first \<le> unat following" "linked ss"
    "\<And>q. first \<le> q \<and> q < following \<longleftrightarrow> (\<exists>s \<in> set ss. sg_first s \<le> q \<and> q \<le> sg_last s)"
    "sorted_wrt (\<lambda>s t. sg_last s < sg_first t) ss" "\<forall>s \<in> set ss. unat first \<le> unat (sg_first s)"
    "ss \<noteq> [] \<Longrightarrow> digest = Some (sg_digest (last ss)) \<and> (\<forall>d. predecessor = Some d \<longrightarrow> sg_predecessor (hd ss) = d) \<and> sg_first (hd ss) = first \<and>
       previous < sg_id (hd ss)"
    "\<forall>s \<in> set ss. sg_id s < mf_next_segment_id m \<and>
       (sg_first s = mf_checkpoint_sequence m + 1 \<longrightarrow> sg_predecessor s = mf_checkpoint_digest m) \<and>
       (sg_last s = mf_checkpoint_sequence m \<longrightarrow> sg_digest s = mf_checkpoint_digest m)"
    "ss = [] \<Longrightarrow> digest = predecessor \<and> following = first"
proof -
  have "unat first \<le> unat following \<and> linked ss \<and>
    (\<forall>q. first \<le> q \<and> q < following \<longleftrightarrow> (\<exists>s \<in> set ss. sg_first s \<le> q \<and> q \<le> sg_last s)) \<and>
    sorted_wrt (\<lambda>s t. sg_last s < sg_first t) ss \<and> (\<forall>s \<in> set ss. unat first \<le> unat (sg_first s)) \<and>
    (ss \<noteq> [] \<longrightarrow> digest = Some (sg_digest (last ss)) \<and> (\<forall>d. predecessor = Some d \<longrightarrow> sg_predecessor (hd ss) = d) \<and> sg_first (hd ss) = first \<and>
       previous < sg_id (hd ss)) \<and>
    (\<forall>s \<in> set ss. sg_id s < mf_next_segment_id m \<and>
       (sg_first s = mf_checkpoint_sequence m + 1 \<longrightarrow> sg_predecessor s = mf_checkpoint_digest m) \<and>
       (sg_last s = mf_checkpoint_sequence m \<longrightarrow> sg_digest s = mf_checkpoint_digest m)) \<and>
    (ss = [] \<longrightarrow> digest = predecessor \<and> following = first)"
    using assms
  proof (induction ss arbitrary: first previous predecessor)
    case Nil
    then show ?case by (auto simp: linked_def)
  next
    case (Cons s ss)
    obtain st where st: "chain_segment m s (first, previous, predecessor) = Inr st" "rfold (chain_segment m) ss st = Inr (following, greatest, digest)"
      using Cons.prems by (auto simp: rbind_eq_Inr)
    have s: "validate_descriptor s = Inr ()" "previous < sg_id s" "sg_id s < mf_next_segment_id m" "sg_first s = first"
      "\<forall>d. predecessor = Some d \<longrightarrow> sg_predecessor s = d"
      "sg_first s = mf_checkpoint_sequence m + 1 \<longrightarrow> sg_predecessor s = mf_checkpoint_digest m"
      "sg_last s = mf_checkpoint_sequence m \<longrightarrow> sg_digest s = mf_checkpoint_digest m"
      and rest: "rfold (chain_segment m) ss (sg_last s + 1, sg_id s, Some (sg_digest s)) = Inr (following, greatest, digest)"
      using chain_segment_Inr[OF st(1)] st(2) by auto
    note r = segment_range[OF s(1)]
    have up: "unat (sg_last s + 1) = Suc (unat (sg_last s))" using r by (simp add: successor_greater)
    note IH = Cons.IH[OF rest]
    have le: "unat first \<le> unat (sg_last s)" using r s(4) by (simp add: word_le_nat_alt)
    have cover: "first \<le> q \<and> q < following \<longleftrightarrow> (\<exists>t \<in> set (s # ss). sg_first t \<le> q \<and> q \<le> sg_last t)" for q
    proof -
      have "first \<le> q \<and> q < following \<longleftrightarrow> (first \<le> q \<and> q \<le> sg_last s) \<or> (sg_last s + 1 \<le> q \<and> q < following)"
        using IH le up by (auto simp: word_le_nat_alt word_less_nat_alt)
      then show ?thesis using IH s(4) by auto
    qed
    have "linked (s # ss)" using IH s by (cases ss) (simp_all add: linked_def)
    moreover have "sorted_wrt (\<lambda>s t. sg_last s < sg_first t) (s # ss)" using IH up by (auto simp: word_less_nat_alt)
    moreover have "\<forall>t \<in> set (s # ss). unat first \<le> unat (sg_first t)" using IH le up s(4) by auto
    moreover have "digest = Some (sg_digest (last (s # ss)))" using IH by (cases ss) auto
    ultimately show ?case using IH le up cover s by auto
  qed
  then show "unat first \<le> unat following" "linked ss"
    "\<And>q. first \<le> q \<and> q < following \<longleftrightarrow> (\<exists>s \<in> set ss. sg_first s \<le> q \<and> q \<le> sg_last s)"
    "sorted_wrt (\<lambda>s t. sg_last s < sg_first t) ss" "\<forall>s \<in> set ss. unat first \<le> unat (sg_first s)"
    "ss \<noteq> [] \<Longrightarrow> digest = Some (sg_digest (last ss)) \<and> (\<forall>d. predecessor = Some d \<longrightarrow> sg_predecessor (hd ss) = d) \<and> sg_first (hd ss) = first \<and>
       previous < sg_id (hd ss)"
    "\<forall>s \<in> set ss. sg_id s < mf_next_segment_id m \<and>
       (sg_first s = mf_checkpoint_sequence m + 1 \<longrightarrow> sg_predecessor s = mf_checkpoint_digest m) \<and>
       (sg_last s = mf_checkpoint_sequence m \<longrightarrow> sg_digest s = mf_checkpoint_digest m)"
    "ss = [] \<Longrightarrow> digest = predecessor \<and> following = first"
    by blast+
qed

subsection \<open>Properties\<close>

text \<open>
  C19: The decoders of the manifest, the genesis and the current pointer accept exactly the
  encodings of valid objects, so every accepted file is the only encoding of what it stores.
\<close>

theorem metadata_codecs_exact:
  "(manifest_decode crc bs = Inr m \<longleftrightarrow> manifest_shape m \<and> manifest_encode crc m = Inr bs) \<and>
   (genesis_decode crc bs = Inr g \<longleftrightarrow> genesis_shape g \<and> genesis_encode crc g = Inr bs) \<and>
   (current_decode crc bs = Inr c \<longleftrightarrow> length (cu_digest c) = 32 \<and> current_encode crc c = Inr bs)"
  using manifest_codec.dec_iff genesis_codec.dec_iff current_codec.dec_iff by blast

lemma validated_frontiers:
  "validate_manifest m = Inr () \<Longrightarrow> mf_history_floor m \<le> mf_checkpoint_sequence m \<and> mf_checkpoint_sequence m \<le> mf_durable_sequence m \<and>
     mf_durable_sequence m \<noteq> - 1 \<and> mf_log_floor m \<noteq> 0 \<and> mf_log_floor m \<le> mf_checkpoint_sequence m + 1"
  by (auto simp: validate_manifest_def split: if_splits)

lemma validated_chain:
  assumes "validate_manifest m = Inr ()" "mf_segments m \<noteq> []"
  shows "validate_segments m = Inr ()"
  using assms by (auto simp: validate_manifest_def split: if_splits)

lemma validated_empty:
  "validate_manifest m = Inr () \<Longrightarrow> mf_segments m = [] \<Longrightarrow>
   mf_durable_sequence m = mf_checkpoint_sequence m \<and> mf_log_floor m = mf_durable_sequence m + 1"
  by (auto simp: validate_manifest_def split: if_splits)

text \<open>
  C20: In a valid manifest the retained log segments cover exactly the sequences from the log
  floor to the durable frontier, each once, linked by their digests up to the durable digest,
  and a segment that ends at the checkpoint carries its digest; the frontiers are ordered.
\<close>

theorem manifest_covers_log:
  assumes "validate_manifest m = Inr ()"
  shows "(mf_log_floor m \<le> q \<and> q \<le> mf_durable_sequence m \<longleftrightarrow> (\<exists>s \<in> set (mf_segments m). sg_first s \<le> q \<and> q \<le> sg_last s)) \<and>
    sorted_wrt (\<lambda>s t. sg_last s < sg_first t) (mf_segments m) \<and> linked (mf_segments m) \<and>
    (mf_segments m \<noteq> [] \<longrightarrow> sg_digest (last (mf_segments m)) = mf_durable_digest m) \<and>
    (s \<in> set (mf_segments m) \<and> sg_last s = mf_checkpoint_sequence m \<longrightarrow> sg_digest s = mf_checkpoint_digest m) \<and>
    mf_history_floor m \<le> mf_checkpoint_sequence m \<and> mf_checkpoint_sequence m \<le> mf_durable_sequence m"
proof (cases "mf_segments m = []")
  case True
  have "unat (mf_durable_sequence m + 1) = Suc (unat (mf_durable_sequence m))"
    using validated_frontiers[OF assms] by (simp add: successor_greater)
  then show ?thesis using validated_empty[OF assms True] validated_frontiers[OF assms] True
    by (auto simp: linked_def word_le_nat_alt)
next
  case False
  let ?start = "if mf_log_floor m = 1 then Some (mf_genesis_digest m)
    else if mf_log_floor m = mf_checkpoint_sequence m + 1 then Some (mf_checkpoint_digest m) else None"
  obtain following greatest digest where c: "rfold (chain_segment m) (mf_segments m) (mf_log_floor m, 0, ?start) = Inr (following, greatest, digest)"
    "following = mf_durable_sequence m + 1" "digest = Some (mf_durable_digest m)"
    using validated_chain[OF assms False] by (auto simp: validate_segments_def Let_def rbind_eq_Inr split: if_splits)
  note ch = chain_segments[OF c(1)]
  note fr = validated_frontiers[OF assms]
  have "unat (mf_durable_sequence m + 1) = Suc (unat (mf_durable_sequence m))" using fr by (simp add: successor_greater)
  then have "q < following \<longleftrightarrow> q \<le> mf_durable_sequence m" unfolding c(2) by (simp add: word_le_nat_alt word_less_nat_alt less_Suc_eq_le)
  then show ?thesis using ch(2,3,4,7) ch(6)[OF False] c(3) fr by auto
qed

definition example_segment :: segment where
  "example_segment = \<lparr>sg_id = 1, sg_first = 1, sg_last = 2, sg_committed = 8192, sg_predecessor = replicate 32 1, sg_digest = replicate 32 2\<rparr>"

definition example_manifest :: manifest where
  "example_manifest = \<lparr>mf_database_id = replicate 16 9, mf_genesis_digest = replicate 32 1, mf_cursor_namespace = replicate 16 8,
     mf_generation = 3, mf_page_file_id = 1, mf_page_count = 10, mf_checkpoint_sequence = 0, mf_checkpoint_digest = replicate 32 1,
     mf_durable_sequence = 2, mf_durable_digest = replicate 32 2, mf_history_floor = 0, mf_log_floor = 1, mf_next_cursor_id = 1,
     mf_next_segment_id = 2, mf_next_page_file_id = 2, mf_roots = [0, 0, 5, 0, 0], mf_segments = [example_segment]\<rparr>"

lemma example_manifest_valid: "validate_manifest example_manifest = Inr ()"
proof -
  have "validate_descriptor example_segment = Inr ()"
    by (simp add: validate_descriptor_def example_segment_def valid_number_def div_ceil_def MAX_GROUP_RECORDS_def GROUP_OVERHEAD_def
        BLOCK_BYTES_def MAX_RECORD_LENGTH_def Let_def)
  moreover have "\<not> (2 :: u64) \<le> 1" by (simp add: word_le_nat_alt)
  ultimately show ?thesis
    by (simp add: validate_manifest_def validate_segments_def chain_segment_def example_manifest_def example_segment_def Let_def valid_number_def
        MAX_MANIFEST_LENGTH_def MANIFEST_BASE_LENGTH_def DESCRIPTOR_LENGTH_def)
qed

theorem manifest_covers_log_witness:
  "validate_manifest example_manifest = Inr () \<and> mf_log_floor example_manifest \<le> 2 \<and> (2 :: u64) \<le> mf_durable_sequence example_manifest \<and>
   (\<exists>s \<in> set (mf_segments example_manifest). sg_first s \<le> 2 \<and> 2 \<le> sg_last s)"
proof -
  have "mf_log_floor example_manifest \<le> 2" "(2 :: u64) \<le> mf_durable_sequence example_manifest" by (simp_all add: example_manifest_def)
  then show ?thesis using manifest_covers_log[OF example_manifest_valid, of 2] example_manifest_valid by blast
qed

end
