(* ===== verification/Blop_Store.thy ===== *)
theory Blop_Store
  imports Blop_Edit Blop_Metadata "HOL-Library.Product_Lexorder"
begin

section \<open>The store (\<^verbatim>\<open>src/storage/store.rs\<close>, \<^verbatim>\<open>src/storage/checkpoint.rs\<close>)\<close>

text \<open>
  The store keeps five trees in one page file: live roots, the manifest with the published
  roots, and, once the database runs, proofs of validation that spare a publication the full
  scan of trees that were validated before. Batches of edits install new roots or none;
  publication makes the roots of a view the durable checkpoint.

  The directory is a parameter (\<open>directory_io\<close>): which manifest generations exist, whether the
  log files agree with a manifest, and whether the flushes and renames of a publication
  succeed. The log proof that the runtime keeps beside the tree proofs is left out: it only
  decides which part of the log files is read again.

  A scan reads through a reader pinned before the edits that follow it, so its entries are
  those of the moment it starts (\<open>pinned_read\<close>); the models list them first.
\<close>

subsection \<open>Entries of the system trees\<close>

definition m_catalogue_length :: string where "m_catalogue_length = ''invalid catalogue key length''"
definition m_catalogue_identity :: string where "m_catalogue_identity = ''invalid catalogue version identity''"
definition m_system_length :: string where "m_system_length = ''invalid system key length''"
definition m_system_reserved :: string where "m_system_reserved = ''reserved system key''"
definition m_system_sequence :: string where "m_system_sequence = ''reserved system sequence or ID''"
definition m_cursor_identity :: string where "m_cursor_identity = ''invalid cursor identity or value length''"
definition m_cursor_value :: string where "m_cursor_value = ''invalid cursor value or retention floor''"
definition m_post_checkpoint :: string where "m_post_checkpoint = ''checkpoint contains a post-checkpoint version''"
definition m_initial_policy :: string where "m_initial_policy = ''initial policy differs from genesis''"
definition m_batch_ceiling :: string where "m_batch_ceiling = ''physical key or value exceeds its format ceiling''"
definition m_checkpoint_sequence :: string where "m_checkpoint_sequence = ''invalid checkpoint sequence''"

definition TREES :: "tree_id list" where
  "TREES = [State, Catalogue, Policy, Outcomes, Cursors]"

fun tree_index :: "tree_id \<Rightarrow> nat" where
  "tree_index State = 0" | "tree_index Catalogue = 1" | "tree_index Policy = 2" | "tree_index Outcomes = 3" | "tree_index Cursors = 4"

definition store_persisted :: "storage_error \<Rightarrow> storage_error" where
  "store_persisted e = (case e of InvalidInput reason \<Rightarrow> Corrupt reason | other \<Rightarrow> other)"

definition system_sequence :: "tree_id \<Rightarrow> bytes \<Rightarrow> storage_error + u64" where
  "system_sequence tree key =
     (case tree of
        State \<Rightarrow> rbind (map_err store_persisted (state_key_decode key)) (\<lambda>k. Inr (sk_sequence k))
      | Catalogue \<Rightarrow>
          if length key \<noteq> 16 then Inl (Corrupt m_catalogue_length)
          else
            let table = u64_of_be (take 8 key); sequence = NOT (u64_of_be (drop 8 key)) in
            if table = 0 \<or> table > sequence then Inl (Corrupt m_catalogue_identity) else Inr sequence
      | _ \<Rightarrow>
          if length key \<noteq> 8 then Inl (Corrupt m_system_length)
          else if tree \<noteq> Policy \<and> u64_of_be key = 0 then Inl (Corrupt m_system_reserved)
          else Inr (u64_of_be key))"

definition entry_sequence :: "tree_id \<Rightarrow> bytes \<Rightarrow> storage_error + u64" where
  "entry_sequence tree key =
     rbind (system_sequence tree key) (\<lambda>sequence.
     if sequence = - 1 then Inl (Corrupt m_system_sequence) else Inr sequence)"

definition valid_value :: "tree_id \<Rightarrow> bytes \<Rightarrow> storage_error + unit" where
  "valid_value tree v =
     (case tree of
        State \<Rightarrow> rbind (map_err store_persisted (state_value_decode v)) (\<lambda>_. Inr ())
      | Policy \<Rightarrow> rbind (policy_decode v) (\<lambda>_. Inr ())
      | _ \<Rightarrow> Inr ())"

definition validate_cursor :: "u64 \<Rightarrow> bytes \<Rightarrow> manifest \<Rightarrow> storage_error + unit" where
  "validate_cursor i v m =
     (if i \<ge> mf_next_cursor_id m \<or> length v < 16 \<or> length v > 271 then Inl (Corrupt m_cursor_identity)
      else if u16_at v 0 \<noteq> 1 then Inl (Storage_Unsupported ''cursor'' (u16_at v 0))
      else
        let baseline = u64_at v 4; len = unat (u32_at v 12) in
        if \<not> (1 \<le> v ! 2 \<and> v ! 2 \<le> 3) \<or> v ! 3 \<noteq> 0 \<or> baseline > mf_durable_sequence m \<or> baseline < mf_history_floor m \<or>
          (v ! 2 \<noteq> 1 \<and> mf_log_floor m > baseline + 1) \<or> len \<noteq> length v - 16 \<or> 0 \<in> set (drop 16 v) \<or> \<not> utf8_ok (drop 16 v)
        then Inl (Corrupt m_cursor_value) else Inr ())"

subsection \<open>Validation proofs\<close>

record validated_tree =
  vt_root :: u64
  vt_sequence :: u64

type_synonym proofs = "validated_tree option list"

text \<open>The pending keys are an ordered map from a tree's index and a key to the key's sequence.\<close>

record pending =
  pd_keys :: "((nat \<times> bytes) \<times> u64) list"
  pd_bytes :: nat

record runtime_validation =
  rv_live :: proofs
  rv_published :: proofs
  rv_pending :: "pending option"

definition runtime_new :: "bool \<Rightarrow> runtime_validation" where
  "runtime_new checkpoint_is_live = \<lparr>rv_live = replicate 4 None, rv_published = replicate 4 None,
     rv_pending = (if checkpoint_is_live then Some \<lparr>pd_keys = [], pd_bytes = 0\<rparr> else None)\<rparr>"

record mutation =
  mu_tree :: tree_id
  mu_key :: bytes
  mu_value :: "bytes option"

definition change_valid :: "genesis \<Rightarrow> mutation \<Rightarrow> bool" where
  "change_valid g c \<longleftrightarrow> is_ok (entry_sequence (mu_tree c) (mu_key c)) \<and>
     (case mu_value c of None \<Rightarrow> True | Some v \<Rightarrow> is_ok (valid_value (mu_tree c) v)) \<and>
     \<not> (mu_tree c = Policy \<and> mu_key c = u64_be 0 \<and> mu_value c \<noteq> Some (policy_encode (gn_initial_policy g)))"

definition observe_proof :: "genesis \<Rightarrow> mutation \<Rightarrow> validated_tree option \<Rightarrow> validated_tree option" where
  "observe_proof g c p =
     (if change_valid g c then
        (case (p, mu_value c, entry_sequence (mu_tree c) (mu_key c)) of
           (Some p, Some _, Inr sequence) \<Rightarrow> Some (p\<lparr>vt_sequence := max (vt_sequence p) sequence\<rparr>)
         | _ \<Rightarrow> p)
      else None)"

definition observe_pending :: "manifest \<Rightarrow> mutation \<Rightarrow> pending \<Rightarrow> pending option" where
  "observe_pending m c pd =
     (let key = (tree_index (mu_tree c), mu_key c); size = length (mu_key c) + 96;
          kept = filter (\<lambda>e. fst e \<noteq> key) (pd_keys pd);
          bytes = (if map_of (pd_keys pd) key \<noteq> None then pd_bytes pd - size else pd_bytes pd) in
      case entry_sequence (mu_tree c) (mu_key c) of
        Inl _ \<Rightarrow> None
      | Inr sequence \<Rightarrow>
          if mu_value c \<noteq> None \<and> sequence > mf_checkpoint_sequence m then
            if bytes + size > 1024 * 1024 then None
            else Some \<lparr>pd_keys = filter (\<lambda>e. fst e < key) kept @ (key, sequence) # filter (\<lambda>e. key < fst e) kept, pd_bytes = bytes + size\<rparr>
          else Some \<lparr>pd_keys = kept, pd_bytes = bytes\<rparr>)"

definition observe_change :: "manifest \<Rightarrow> genesis \<Rightarrow> mutation \<Rightarrow> runtime_validation \<Rightarrow> runtime_validation" where
  "observe_change m g c rv =
     (let index = tree_index (mu_tree c) in
      if index = 4 then rv
      else rv\<lparr>rv_live := (rv_live rv)[index := observe_proof g c (rv_live rv ! index)],
        rv_pending := (case rv_pending rv of None \<Rightarrow> None | Some pd \<Rightarrow> observe_pending m c pd)\<rparr>)"

definition observe :: "u64 list \<Rightarrow> u64 list \<Rightarrow> mutation list \<Rightarrow> manifest \<Rightarrow> genesis \<Rightarrow> runtime_validation \<Rightarrow> runtime_validation" where
  "observe previous roots changes m g rv =
     (let rv = rv\<lparr>rv_live := map (\<lambda>(proof, root). case proof of Some p \<Rightarrow> if vt_root p \<noteq> root then None else proof | None \<Rightarrow> None)
            (zip (rv_live rv) previous)\<rparr>;
          rv = fold (observe_change m g) changes rv in
      rv\<lparr>rv_live := map (\<lambda>(proof, root). map_option (\<lambda>p. p\<lparr>vt_root := root\<rparr>) proof) (zip (rv_live rv) roots)\<rparr>)"

definition published :: "u64 list \<Rightarrow> manifest \<Rightarrow> proofs \<Rightarrow> runtime_validation \<Rightarrow> runtime_validation" where
  "published roots m proofs rv =
     \<lparr>rv_live = map (\<lambda>index. if roots ! index = mf_roots m ! index then proofs ! index else rv_live rv ! index) [0..<4],
      rv_published = proofs,
      rv_pending = (case rv_pending rv of
          Some pd \<Rightarrow>
            let kept = filter (\<lambda>e. snd e > mf_checkpoint_sequence m) (pd_keys pd) in
            Some \<lparr>pd_keys = kept, pd_bytes = sum_list (map (\<lambda>e. length (snd (fst e)) + 96) kept)\<rparr>
        | None \<Rightarrow> if take 4 roots = take 4 (mf_roots m) then Some \<lparr>pd_keys = [], pd_bytes = 0\<rparr> else None)\<rparr>"

fun check_entries :: "tree_id \<Rightarrow> manifest \<Rightarrow> (storage_error + entry) list \<Rightarrow> u64 \<Rightarrow> storage_error + u64" where
  "check_entries tree m [] maximum = Inr maximum"
| "check_entries tree m (Inl e # _) maximum = Inl e"
| "check_entries tree m (Inr (key, v) # entries) maximum =
     rbind (entry_sequence tree key) (\<lambda>sequence.
     if tree \<noteq> Cursors \<and> sequence > mf_checkpoint_sequence m then Inl (Corrupt m_post_checkpoint) else
     rbind (valid_value tree v) (\<lambda>_.
     rbind (if tree = Cursors then validate_cursor sequence v m else Inr ()) (\<lambda>_.
     check_entries tree m entries (max maximum sequence))))"

definition validate_root :: "(bytes \<Rightarrow> u32) \<Rightarrow> page_reader \<Rightarrow> manifest \<Rightarrow> genesis \<Rightarrow> tree_id \<Rightarrow> storage_error + validated_tree" where
  "validate_root crc r m g tree =
     (let root = mf_roots m ! tree_index tree in
      rbind (tree_validate crc r tree root) (\<lambda>_.
      rbind (tree_scan_all crc r tree root Unbounded Unbounded) (\<lambda>entries.
      rbind (check_entries tree m entries 0) (\<lambda>maximum.
      rbind (if tree = Policy then
          rbind (tree_get crc r tree root (u64_be 0)) (\<lambda>v.
          if v \<noteq> Some (policy_encode (gn_initial_policy g)) then Inl (Corrupt m_initial_policy) else Inr ())
        else Inr ()) (\<lambda>_.
      Inr \<lparr>vt_root = root, vt_sequence = maximum\<rparr>)))))"

text \<open>A proof of the same root whose maximum the checkpoint covers stands for the scan.\<close>

definition reused :: "manifest \<Rightarrow> proofs \<Rightarrow> tree_id \<Rightarrow> validated_tree option" where
  "reused m proofs tree =
     (let index = tree_index tree in
      if index < 4 then
        (case proofs ! index of
           Some p \<Rightarrow> if vt_root p = mf_roots m ! index \<and> vt_sequence p \<le> mf_checkpoint_sequence m then Some p else None
         | None \<Rightarrow> None)
      else None)"

fun validate_roots :: "(bytes \<Rightarrow> u32) \<Rightarrow> page_reader \<Rightarrow> manifest \<Rightarrow> genesis \<Rightarrow> proofs \<Rightarrow> tree_id list \<Rightarrow> proofs \<Rightarrow> storage_error + proofs" where
  "validate_roots crc r m g proofs [] validated = Inr validated"
| "validate_roots crc r m g proofs (tree # trees) validated =
     rbind (case reused m proofs tree of Some p \<Rightarrow> Inr p | None \<Rightarrow> validate_root crc r m g tree) (\<lambda>p.
     validate_roots crc r m g proofs trees (if tree_index tree < 4 then validated[tree_index tree := Some p] else validated))"

definition checkpoint_validate :: "(bytes \<Rightarrow> u32) \<Rightarrow> page_reader \<Rightarrow> manifest \<Rightarrow> genesis \<Rightarrow> proofs \<Rightarrow> storage_error + proofs" where
  "checkpoint_validate crc r m g proofs = validate_roots crc r m g proofs TREES (replicate 4 None)"

subsection \<open>The store and its views\<close>

record store =
  st_pages :: page_file
  st_genesis :: genesis
  st_manifest :: manifest
  st_selected :: manifest
  st_roots :: "u64 list"
  st_poisoned :: bool
  st_rotate_next :: bool
  st_read_only :: bool
  st_runtime :: "runtime_validation option"

text \<open>
  \<open>pv_file\<close> stands for the identity of the file handle that a view shares with its store: the
  handle of a store changes exactly when its page file ID does.
\<close>

record pinned =
  pv_reader :: page_reader
  pv_file :: u64
  pv_roots :: "u64 list"
  pv_validation :: proofs

definition store_view :: "store \<Rightarrow> pinned" where
  "store_view st = \<lparr>pv_reader = pf_reader (st_pages st), pv_file = mf_page_file_id (st_manifest st), pv_roots = st_roots st,
     pv_validation = (case st_runtime st of None \<Rightarrow> replicate 4 None | Some rv \<Rightarrow> rv_live rv)\<rparr>"

definition checkpoint_view :: "store \<Rightarrow> pinned" where
  "checkpoint_view st = (store_view st)\<lparr>pv_roots := mf_roots (st_manifest st),
     pv_validation := (case st_runtime st of None \<Rightarrow> replicate 4 None | Some rv \<Rightarrow> rv_published rv)\<rparr>"

definition enable_runtime_cache :: "store \<Rightarrow> store" where
  "enable_runtime_cache st =
     (if st_runtime st = None then st\<lparr>st_runtime := Some (runtime_new (st_roots st = mf_roots (st_manifest st)))\<rparr> else st)"

text \<open>What the versioned reads call: lookup, seek and scan through a view.\<close>

definition view_reads :: "(bytes \<Rightarrow> u32) \<Rightarrow> pinned \<Rightarrow> view" where
  "view_reads crc v = \<lparr>
     vw_get = (\<lambda>tree key. tree_get crc (pv_reader v) tree (pv_roots v ! tree_index tree) key),
     vw_seek = (\<lambda>tree key. rbind (tree_seek crc (pv_reader v) tree (pv_roots v ! tree_index tree) key) (\<lambda>found.
        Inr (map_option (\<lambda>cell. (lc_key cell, reader_value crc (pv_reader v) tree (lc_value cell))) found))),
     vw_scan = (\<lambda>tree lower upper. tree_scan_all crc (pv_reader v) tree (pv_roots v ! tree_index tree) lower upper)\<rparr>"

definition writable :: "store \<Rightarrow> storage_error + unit" where
  "writable st = (if st_poisoned st then Inl NeedsRecovery else Inr ())"

definition edit_tree :: "(bytes \<Rightarrow> u32) \<Rightarrow> mutation \<Rightarrow> u64 \<Rightarrow> u64 paged" where
  "edit_tree crc c root =
     (case mu_value c of Some v \<Rightarrow> tree_put crc (mu_tree c) root (mu_key c) v | None \<Rightarrow> tree_delete crc (mu_tree c) root (mu_key c))"

fun apply_edits :: "(bytes \<Rightarrow> u32) \<Rightarrow> mutation list \<Rightarrow> u64 list \<Rightarrow> u64 list paged" where
  "apply_edits crc [] roots = pret roots"
| "apply_edits crc (c # changes) roots =
     pbind (edit_tree crc c (roots ! tree_index (mu_tree c))) (\<lambda>root. apply_edits crc changes (roots[tree_index (mu_tree c) := root]))"

definition mutation_fits :: "mutation \<Rightarrow> bool" where
  "mutation_fits c \<longleftrightarrow> length (mu_key c) \<le> MAX_KEY \<and> (case mu_value c of None \<Rightarrow> True | Some v \<Rightarrow> length v \<le> MAX_VALUE)"

definition store_apply :: "(bytes \<Rightarrow> u32) \<Rightarrow> mutation list \<Rightarrow> store \<Rightarrow> (storage_error + unit) \<times> store" where
  "store_apply crc changes st =
     (case writable st of
        Inl e \<Rightarrow> (Inl e, st)
      | Inr _ \<Rightarrow>
          if \<not> list_all mutation_fits changes then (Inl (InvalidInput m_batch_ceiling), st)
          else case apply_edits crc changes (st_roots st) (st_pages st) of
            (Inl e, pages) \<Rightarrow> (Inl e, st\<lparr>st_pages := pages, st_poisoned := True\<rparr>)
          | (Inr roots, pages) \<Rightarrow>
              (Inr (), st\<lparr>st_pages := pages, st_roots := roots,
                st_runtime := map_option (observe (st_roots st) roots changes (st_manifest st) (st_genesis st)) (st_runtime st)\<rparr>))"

subsection \<open>Preparing a checkpoint\<close>

text \<open>Deleting the entries above the sequence: by the pending keys, or by a scan of each tree.\<close>

fun delete_pending :: "(bytes \<Rightarrow> u32) \<Rightarrow> u64 \<Rightarrow> ((nat \<times> bytes) \<times> u64) list \<Rightarrow> u64 list \<Rightarrow> u64 list paged" where
  "delete_pending crc sequence [] roots = pret roots"
| "delete_pending crc sequence (((index, key), version) # keys) roots =
     (if version > sequence
      then pbind (tree_delete crc (TREES ! index) (roots ! index) key) (\<lambda>root. delete_pending crc sequence keys (roots[index := root]))
      else delete_pending crc sequence keys roots)"

text \<open>The flag says whether the failing operation was a deletion, which poisons the store.\<close>

fun delete_later :: "(bytes \<Rightarrow> u32) \<Rightarrow> u64 \<Rightarrow> tree_id \<Rightarrow> (storage_error + entry) list \<Rightarrow> u64 \<Rightarrow> page_file \<Rightarrow>
    ((bool \<times> storage_error) + u64) \<times> page_file" where
  "delete_later crc sequence tree [] root f = (Inr root, f)"
| "delete_later crc sequence tree (Inl e # _) root f = (Inl (False, e), f)"
| "delete_later crc sequence tree (Inr (key, _) # entries) root f =
     (case entry_sequence tree key of
        Inl e \<Rightarrow> (Inl (False, e), f)
      | Inr version \<Rightarrow>
          if version > sequence then
            (case tree_delete crc tree root key f of
               (Inl e, f) \<Rightarrow> (Inl (True, e), f)
             | (Inr root, f) \<Rightarrow> delete_later crc sequence tree entries root f)
          else delete_later crc sequence tree entries root f)"

fun filter_trees :: "(bytes \<Rightarrow> u32) \<Rightarrow> u64 \<Rightarrow> page_reader \<Rightarrow> tree_id list \<Rightarrow> u64 list \<Rightarrow> page_file \<Rightarrow>
    ((bool \<times> storage_error) + u64 list) \<times> page_file" where
  "filter_trees crc sequence r [] roots f = (Inr roots, f)"
| "filter_trees crc sequence r (tree # trees) roots f =
     (case tree_scan_all crc r tree (roots ! tree_index tree) Unbounded Unbounded of
        Inl e \<Rightarrow> (Inl (False, e), f)
      | Inr entries \<Rightarrow>
          (case delete_later crc sequence tree entries (roots ! tree_index tree) f of
             (Inl e, f) \<Rightarrow> (Inl e, f)
           | (Inr root, f) \<Rightarrow> filter_trees crc sequence r trees (roots[tree_index tree := root]) f))"

definition proofs_match :: "proofs \<Rightarrow> u64 list \<Rightarrow> bool" where
  "proofs_match proofs roots \<longleftrightarrow> (\<forall>index < 4. case proofs ! index of None \<Rightarrow> False | Some p \<Rightarrow> vt_root p = roots ! index)"

definition prepare_by_scan :: "(bytes \<Rightarrow> u32) \<Rightarrow> u64 \<Rightarrow> store \<Rightarrow> (storage_error + pinned) \<times> store" where
  "prepare_by_scan crc sequence st =
     (case filter_trees crc sequence (pv_reader (store_view st)) (take 4 TREES) (st_roots st) (st_pages st) of
        (Inl (poison, e), pages) \<Rightarrow> (Inl e, st\<lparr>st_pages := pages, st_poisoned := poison\<rparr>)
      | (Inr roots, pages) \<Rightarrow>
          let st = st\<lparr>st_pages := pages\<rparr> in (Inr ((store_view st)\<lparr>pv_roots := roots\<rparr>), st))"

definition prepare_checkpoint :: "(bytes \<Rightarrow> u32) \<Rightarrow> u64 \<Rightarrow> store \<Rightarrow> (storage_error + pinned) \<times> store" where
  "prepare_checkpoint crc sequence st =
     (case writable st of
        Inl e \<Rightarrow> (Inl e, st)
      | Inr _ \<Rightarrow>
          if sequence < mf_checkpoint_sequence (st_manifest st) \<or> sequence = - 1 then (Inl (InvalidInput m_checkpoint_sequence), st)
          else
            let source = store_view st in
            case Option.bind (st_runtime st) rv_pending of
              Some pd \<Rightarrow>
                if proofs_match (pv_validation source) (pv_roots source) then
                  (case delete_pending crc sequence (pd_keys pd) (pv_roots source) (st_pages st) of
                     (Inl e, pages) \<Rightarrow> (Inl e, st\<lparr>st_pages := pages, st_poisoned := True\<rparr>)
                   | (Inr roots, pages) \<Rightarrow>
                       let st = st\<lparr>st_pages := pages\<rparr> in
                       (Inr ((store_view st)\<lparr>pv_roots := roots,
                          pv_validation := map (\<lambda>index. map_option (\<lambda>p. \<lparr>vt_root = roots ! index, vt_sequence = min (vt_sequence p) sequence\<rparr>)
                            (pv_validation source ! index)) [0..<4]\<rparr>), st))
                else prepare_by_scan crc sequence st
            | None \<Rightarrow> prepare_by_scan crc sequence st)"

subsection \<open>Publication\<close>

definition m_transition_stale :: string where "m_transition_stale = ''stale manifest or changed storage identity''"
definition m_transition_rollback :: string where "m_transition_rollback = ''publication rolls back metadata or changes an anchor''"
definition m_segment_replaced :: string where "m_segment_replaced = ''published segment prefix was replaced''"
definition m_segment_reused :: string where "m_segment_reused = ''published segment ID was reused''"
definition m_publish_owner :: string where "m_publish_owner = ''checkpoint belongs to a different storage owner''"
definition m_publish_cursors :: string where "m_publish_cursors = ''checkpoint has stale cursor metadata''"
definition m_adopt_drained :: string where "m_adopt_drained = ''handover requires a current drained checkpoint''"
definition m_adopt_file :: string where "m_adopt_file = ''invalid page file handover''"
definition m_namespace_fresh :: string where "m_namespace_fresh = ''attachment requires a fresh cursor namespace''"

record directory_io =
  io_exists :: "u64 \<Rightarrow> storage_error + bool"
  io_logs :: "manifest \<Rightarrow> storage_error + unit"
  io_files :: "bytes \<Rightarrow> bytes \<Rightarrow> storage_error + unit"

text \<open>\<^verbatim>\<open>binary_search_by_key\<close> over the segments of a valid manifest, whose IDs increase.\<close>

definition find_segment :: "segment list \<Rightarrow> u64 \<Rightarrow> segment option" where
  "find_segment segments i = List.find (\<lambda>s. sg_id s = i) segments"

definition segment_transition :: "manifest \<Rightarrow> segment \<Rightarrow> storage_error + unit" where
  "segment_transition old s =
     (case find_segment (mf_segments old) (sg_id s) of
        Some previous \<Rightarrow>
          if sg_first s \<noteq> sg_first previous \<or> sg_predecessor s \<noteq> sg_predecessor previous \<or> sg_last s < sg_last previous \<or>
            sg_committed s < sg_committed previous \<or> (s \<noteq> previous \<and> previous \<noteq> List.last (mf_segments old))
          then Inl (InvalidInput m_segment_replaced) else Inr ()
      | None \<Rightarrow> if sg_id s < mf_next_segment_id old then Inl (InvalidInput m_segment_reused) else Inr ())"

definition validate_transition :: "manifest \<Rightarrow> manifest \<Rightarrow> storage_error + unit" where
  "validate_transition old new =
     (if mf_generation new \<noteq> mf_generation old \<or> mf_database_id new \<noteq> mf_database_id old \<or>
        mf_genesis_digest new \<noteq> mf_genesis_digest old \<or> mf_cursor_namespace new \<noteq> mf_cursor_namespace old \<or>
        mf_page_file_id new \<noteq> mf_page_file_id old \<or> mf_next_page_file_id new \<noteq> mf_next_page_file_id old
      then Inl (InvalidInput m_transition_stale)
      else if mf_checkpoint_sequence new < mf_checkpoint_sequence old \<or> mf_durable_sequence new < mf_durable_sequence old \<or>
        mf_history_floor new < mf_history_floor old \<or> mf_log_floor new < mf_log_floor old \<or>
        mf_next_cursor_id new < mf_next_cursor_id old \<or> mf_next_segment_id new < mf_next_segment_id old \<or>
        (mf_checkpoint_sequence new = mf_checkpoint_sequence old \<and> mf_checkpoint_digest new \<noteq> mf_checkpoint_digest old) \<or>
        (mf_durable_sequence new = mf_durable_sequence old \<and> mf_durable_digest new \<noteq> mf_durable_digest old)
      then Inl (InvalidInput m_transition_rollback)
      else rbind (rmap (segment_transition old) (mf_segments new)) (\<lambda>_. Inr ()))"

function next_generation :: "(u64 \<Rightarrow> storage_error + bool) \<Rightarrow> u64 \<Rightarrow> storage_error + u64" where
  "next_generation taken generation =
     (if generation = - 1 \<or> generation + 1 = - 1 then Inl Exhausted
      else rbind (taken (generation + 1)) (\<lambda>exists.
        if exists then next_generation taken (generation + 1) else Inr (generation + 1)))"
  by pat_completeness auto
termination
proof (relation "measure (\<lambda>(_, generation). 2 ^ 64 - unat generation)", goal_cases)
  case (2 taken generation _)
  then have "1 + generation \<noteq> 0" by (metis add.commute add_eq_0_iff)
  then have u: "unat (generation + 1) = Suc (unat generation)" by (metis unatSuc add.commute)
  have "unat generation < 2 ^ LENGTH(64)" by (rule unsigned_less)
  then have "unat generation < 2 ^ 64" by simp
  then show ?case unfolding in_measure prod.case u by (rule diff_less_mono2[OF lessI])
qed simp

declare next_generation.simps [simp del]

definition publish_files :: "(bytes \<Rightarrow> u32) \<Rightarrow> (bytes \<Rightarrow> bytes) \<Rightarrow> directory_io \<Rightarrow> manifest \<Rightarrow> storage_error + unit" where
  "publish_files crc sha io m =
     rbind (manifest_encode crc m) (\<lambda>bs.
     rbind (current_encode crc \<lparr>cu_generation = mf_generation m, cu_digest = sha bs\<rparr>) (\<lambda>current.
     io_files io bs current))"

text \<open>The manifest that publication of a view writes, once everything has been validated.\<close>

definition publish_check :: "(bytes \<Rightarrow> u32) \<Rightarrow> directory_io \<Rightarrow> pinned \<Rightarrow> manifest \<Rightarrow> store \<Rightarrow> storage_error + manifest \<times> proofs" where
  "publish_check crc io v m st =
     rbind (writable st) (\<lambda>_.
     if pv_file v \<noteq> mf_page_file_id (st_manifest st) then Inl (InvalidInput m_publish_owner) else
     rbind (validate_transition (st_manifest st) m) (\<lambda>_.
     if pv_roots v ! 4 \<noteq> st_roots st ! 4 then Inl (InvalidInput m_publish_cursors) else
     rbind (next_generation (io_exists io) (mf_generation (st_manifest st))) (\<lambda>generation.
     let m = m\<lparr>mf_generation := generation, mf_roots := pv_roots v,
           mf_page_count := (if st_runtime st \<noteq> None \<and> pv_roots v = mf_roots (st_manifest st)
              then mf_page_count (st_manifest st) else pr_count (pf_reader (st_pages st)))\<rparr> in
     rbind (manifest_encode crc m) (\<lambda>_.
     rbind (checkpoint_validate crc (pv_reader v) m (st_genesis st) (if st_runtime st \<noteq> None then pv_validation v else replicate 4 None)) (\<lambda>proofs.
     rbind (io_logs io m) (\<lambda>_. Inr (m, proofs)))))))"

definition publish :: "(bytes \<Rightarrow> u32) \<Rightarrow> (bytes \<Rightarrow> bytes) \<Rightarrow> directory_io \<Rightarrow> pinned \<Rightarrow> manifest \<Rightarrow> store \<Rightarrow> (storage_error + unit) \<times> store" where
  "publish crc sha io v m st =
     (case publish_check crc io v m st of
        Inl e \<Rightarrow> (Inl e, st)
      | Inr (m, proofs) \<Rightarrow>
          (case publish_files crc sha io m of
             Inl e \<Rightarrow> (Inl e, st\<lparr>st_poisoned := True\<rparr>)
           | Inr _ \<Rightarrow> (Inr (), st\<lparr>st_runtime := map_option (published (st_roots st) m proofs) (st_runtime st),
               st_selected := m, st_manifest := m\<rparr>)))"

definition renew_namespace :: "(bytes \<Rightarrow> u32) \<Rightarrow> (bytes \<Rightarrow> bytes) \<Rightarrow> directory_io \<Rightarrow> bytes \<Rightarrow> store \<Rightarrow> (storage_error + unit) \<times> store" where
  "renew_namespace crc sha io namespace st =
     (case rbind (writable st) (\<lambda>_.
           if namespace = replicate 16 0 \<or> namespace = mf_cursor_namespace (st_manifest st) then Inl (InvalidInput m_namespace_fresh)
           else next_generation (io_exists io) (mf_generation (st_manifest st))) of
        Inl e \<Rightarrow> (Inl e, st)
      | Inr generation \<Rightarrow>
          let m = (st_manifest st)\<lparr>mf_cursor_namespace := namespace, mf_generation := generation\<rparr> in
          (case publish_files crc sha io m of
             Inl e \<Rightarrow> (Inl e, st\<lparr>st_poisoned := True\<rparr>)
           | Inr _ \<Rightarrow> (Inr (), st\<lparr>st_selected := m, st_manifest := m\<rparr>)))"

text \<open>Handover to a new page file, or to new roots of the same file.\<close>

definition adopt_check :: "(bytes \<Rightarrow> u32) \<Rightarrow> directory_io \<Rightarrow> pinned \<Rightarrow> manifest \<Rightarrow> page_file option \<Rightarrow> u64 list \<Rightarrow> store \<Rightarrow> storage_error + manifest" where
  "adopt_check crc io v m pages source_roots st =
     (let old = st_manifest st in
      rbind (writable st) (\<lambda>_.
      if mf_checkpoint_sequence m \<noteq> mf_durable_sequence m \<or> mf_checkpoint_sequence m \<noteq> mf_checkpoint_sequence old \<or> source_roots \<noteq> st_roots st
      then Inl (InvalidInput m_adopt_drained) else
      rbind (validate_transition old (m\<lparr>mf_page_file_id := mf_page_file_id old, mf_next_page_file_id := mf_next_page_file_id old\<rparr>)) (\<lambda>_.
      if \<not> (case pages of
            Some _ \<Rightarrow> mf_page_file_id m \<ge> mf_next_page_file_id old \<and> mf_page_file_id m \<noteq> - 1 \<and>
              mf_next_page_file_id m = mf_page_file_id m + 1 \<and> pv_file v = mf_page_file_id m
          | None \<Rightarrow> mf_page_file_id m = mf_page_file_id old \<and> mf_next_page_file_id m = mf_next_page_file_id old \<and>
              pv_file v = mf_page_file_id old)
      then Inl (InvalidInput m_adopt_file) else
      rbind (next_generation (io_exists io) (mf_generation old)) (\<lambda>generation.
      let m = m\<lparr>mf_generation := generation, mf_roots := pv_roots v,
            mf_page_count := pr_count (pf_reader (case pages of Some f \<Rightarrow> f | None \<Rightarrow> st_pages st))\<rparr> in
      rbind (manifest_encode crc m) (\<lambda>_.
      rbind (checkpoint_validate crc (pv_reader v) m (st_genesis st) (replicate 4 None)) (\<lambda>_.
      rbind (io_logs io m) (\<lambda>_. Inr m)))))))"

definition adopt :: "(bytes \<Rightarrow> u32) \<Rightarrow> (bytes \<Rightarrow> bytes) \<Rightarrow> directory_io \<Rightarrow> pinned \<Rightarrow> manifest \<Rightarrow> page_file option \<Rightarrow> u64 list \<Rightarrow> store \<Rightarrow>
    (storage_error + unit) \<times> store" where
  "adopt crc sha io v m pages source_roots st =
     (case adopt_check crc io v m pages source_roots st of
        Inl e \<Rightarrow> (Inl e, st)
      | Inr m \<Rightarrow>
          (case publish_files crc sha io m of
             Inl e \<Rightarrow> (Inl e, st\<lparr>st_poisoned := True\<rparr>)
           | Inr _ \<Rightarrow> (Inr (), st\<lparr>st_pages := (case pages of Some f \<Rightarrow> f | None \<Rightarrow> st_pages st), st_roots := mf_roots m,
               st_selected := m, st_manifest := m, st_runtime := map_option (\<lambda>_. runtime_new True) (st_runtime st)\<rparr>)))"

subsection \<open>Creation and opening\<close>

definition m_zero_namespace :: string where "m_zero_namespace = ''zero cursor namespace''"
definition m_selected_digest :: string where "m_selected_digest = ''selected manifest digest mismatch''"
definition m_selected_generation :: string where "m_selected_generation = ''selected manifest generation mismatch''"
definition m_genesis_digest :: string where "m_genesis_digest = ''genesis identity or digest mismatch''"

definition first_manifest :: "genesis \<Rightarrow> bytes \<Rightarrow> bytes \<Rightarrow> u64 \<Rightarrow> u64 \<Rightarrow> manifest" where
  "first_manifest g digest namespace policy_root page_count =
     \<lparr>mf_database_id = gn_database_id g, mf_genesis_digest = digest, mf_cursor_namespace = namespace, mf_generation = 1,
      mf_page_file_id = 1, mf_page_count = page_count, mf_checkpoint_sequence = 0, mf_checkpoint_digest = digest,
      mf_durable_sequence = 0, mf_durable_digest = digest, mf_history_floor = 0, mf_log_floor = 1, mf_next_cursor_id = 1,
      mf_next_segment_id = 1, mf_next_page_file_id = 2, mf_roots = [0, 0, policy_root, 0, 0], mf_segments = []\<rparr>"

text \<open>The new directory gives an empty page file; its creation and lock are the directory's.\<close>

definition store_create :: "(bytes \<Rightarrow> u32) \<Rightarrow> (bytes \<Rightarrow> bytes) \<Rightarrow> directory_io \<Rightarrow> os_file \<Rightarrow> genesis \<Rightarrow> bytes \<Rightarrow> storage_error + store" where
  "store_create crc sha io file g namespace =
     rbind (genesis_encode crc g) (\<lambda>genesis_bytes.
     if namespace = replicate 16 0 then Inl (InvalidInput m_zero_namespace) else
     rbind (pf_create crc file (gn_database_id g) 1) (\<lambda>pages.
     let (policy_root, pages) = tree_put crc Policy 0 (u64_be 0) (policy_encode (gn_initial_policy g)) pages in
     rbind policy_root (\<lambda>policy_root.
     let m = first_manifest g (sha genesis_bytes) namespace policy_root (pr_count (pf_reader pages)) in
     rbind (publish_files crc sha io m) (\<lambda>_.
     Inr \<lparr>st_pages = pages, st_genesis = g, st_manifest = m, st_selected = m, st_roots = mf_roots m, st_poisoned = False,
       st_rotate_next = False, st_read_only = False, st_runtime = None\<rparr>))))"

text \<open>
  What a directory holds: its markers, the metadata files, the page files by ID, the check of
  the log files and the recovery of their tail. Recovery returns a manifest whose log extends
  that of the selected one.
\<close>

record directory =
  dr_attach_required :: bool
  dr_read_only :: bool
  dr_current :: "storage_error + bytes"
  dr_manifest :: "u64 \<Rightarrow> storage_error + bytes"
  dr_genesis :: "storage_error + bytes"
  dr_pages :: "u64 \<Rightarrow> storage_error + os_file"
  dr_logs :: "manifest \<Rightarrow> storage_error + unit"
  dr_recover :: "manifest \<Rightarrow> storage_error + manifest"

definition select_manifest :: "(bytes \<Rightarrow> u32) \<Rightarrow> (bytes \<Rightarrow> bytes) \<Rightarrow> directory \<Rightarrow> storage_error + manifest \<times> genesis" where
  "select_manifest crc sha d =
     rbind (dr_current d) (\<lambda>bs.
     rbind (current_decode crc bs) (\<lambda>current.
     rbind (dr_manifest d (cu_generation current)) (\<lambda>bs.
     if sha bs \<noteq> cu_digest current then Inl (Corrupt m_selected_digest) else
     rbind (manifest_decode crc bs) (\<lambda>m.
     if mf_generation m \<noteq> cu_generation current then Inl (Corrupt m_selected_generation) else
     rbind (dr_genesis d) (\<lambda>bs.
     rbind (genesis_decode crc bs) (\<lambda>g.
     if gn_database_id g \<noteq> mf_database_id m \<or> sha bs \<noteq> mf_genesis_digest m then Inl (Corrupt m_genesis_digest)
     else Inr (m, g)))))))"

definition open_directory :: "(bytes \<Rightarrow> u32) \<Rightarrow> (bytes \<Rightarrow> bytes) \<Rightarrow> bool \<Rightarrow> directory \<Rightarrow> storage_error + store" where
  "open_directory crc sha attaching d =
     (if \<not> attaching \<and> dr_attach_required d then Inl AttachRequired else
      rbind (select_manifest crc sha d) (\<lambda>(m, g).
      rbind (dr_pages d (mf_page_file_id m)) (\<lambda>file.
      rbind (pf_open crc file (mf_database_id m) (mf_page_file_id m) (mf_page_count m)) (\<lambda>pages.
      rbind (checkpoint_validate crc (pf_reader pages) m g (replicate 4 None)) (\<lambda>_.
      rbind (dr_logs d m) (\<lambda>_.
      rbind (dr_recover d m) (\<lambda>recovered.
      let (r, pages) = truncate_tail pages in
      rbind r (\<lambda>_.
      Inr \<lparr>st_pages = pages, st_genesis = g, st_manifest = recovered, st_selected = m, st_roots = mf_roots recovered,
        st_poisoned = False, st_rotate_next = True, st_read_only = dr_read_only d, st_runtime = None\<rparr>))))))))"

subsection \<open>The entries of a store\<close>

text \<open>The trees at the roots hold the entries.\<close>

definition roots_hold :: "(bytes \<Rightarrow> u32) \<Rightarrow> page_reader \<Rightarrow> u64 list \<Rightarrow> (tree_id \<Rightarrow> entry list) \<Rightarrow> bool" where
  "roots_hold crc r roots ents \<longleftrightarrow> length roots = 5 \<and> (\<forall>tree. tree_holds crc r tree (roots ! tree_index tree) (ents tree))"

definition upd_tree :: "mutation \<Rightarrow> (tree_id \<Rightarrow> entry list) \<Rightarrow> tree_id \<Rightarrow> entry list" where
  "upd_tree c ents = ents(mu_tree c := upd_entries (mu_key c) (mu_value c) (ents (mu_tree c)))"

lemma tree_index_less [simp]: "tree_index tree < 5"
  by (cases tree) simp_all

lemma tree_index_inject [simp]: "tree_index a = tree_index b \<longleftrightarrow> a = b"
  by (cases a; cases b) simp_all

lemma tree_index_logical: "tree_index tree < 4 \<longleftrightarrow> tree \<noteq> Cursors"
  by (cases tree) simp_all

lemma TREES_index [simp]: "TREES ! tree_index tree = tree"
  by (cases tree) (simp_all add: TREES_def)

lemma tree_of_index: "index < 4 \<Longrightarrow> \<exists>tree. tree \<noteq> Cursors \<and> tree_index tree = index \<and> TREES ! index = tree"
proof -
  assume "index < 4"
  then have "index = 0 \<or> index = 1 \<or> index = 2 \<or> index = 3" by auto
  then show ?thesis
    by (elim disjE) (auto intro: exI[of _ State] exI[of _ Catalogue] exI[of _ Policy] exI[of _ Outcomes] simp: TREES_def)
qed

lemma roots_hold_later: "roots_hold crc (pf_reader f) roots ents \<Longrightarrow> later f f' \<Longrightarrow> roots_hold crc (pf_reader f') roots ents"
  unfolding roots_hold_def using tree_holds_later by blast

lemma roots_hold_update:
  assumes "roots_hold crc r roots ents" "tree_holds crc r tree root xs"
  shows "roots_hold crc r (roots[tree_index tree := root]) (ents(tree := xs))"
  unfolding roots_hold_def
proof (intro conjI allI)
  fix t
  show "tree_holds crc r t (roots[tree_index tree := root] ! tree_index t) ((ents(tree := xs)) t)"
    using assms by (cases "t = tree") (simp_all add: roots_hold_def nth_list_update_neq)
qed (use assms in \<open>simp add: roots_hold_def\<close>)

lemma yields_edit_tree:
  assumes "good f" "roots_hold crc (pf_reader f) roots ents" "mutation_fits c"
  shows "yields (edit_tree crc c (roots ! tree_index (mu_tree c))) f
    (\<lambda>root f'. roots_hold crc (pf_reader f') (roots[tree_index (mu_tree c) := root]) (upd_tree c ents))"
proof -
  have h: "tree_holds crc (pf_reader f) (mu_tree c) (roots ! tree_index (mu_tree c)) (ents (mu_tree c))"
    using assms(2) by (simp add: roots_hold_def)
  have "yields (edit_tree crc c (roots ! tree_index (mu_tree c))) f
      (\<lambda>root f'. tree_holds crc (pf_reader f') (mu_tree c) root (upd_entries (mu_key c) (mu_value c) (ents (mu_tree c))))"
    using yields_tree_put[OF assms(1) h] yields_tree_delete[OF assms(1) h] assms(3)
    by (cases "mu_value c") (simp_all add: edit_tree_def mutation_fits_def)
  then show ?thesis
    by (rule yields_mono) (simp add: upd_tree_def roots_hold_update[OF roots_hold_later[OF assms(2)]])
qed

lemma yields_apply_edits:
  "good f \<Longrightarrow> roots_hold crc (pf_reader f) roots ents \<Longrightarrow> list_all mutation_fits changes \<Longrightarrow>
   yields (apply_edits crc changes roots) f (\<lambda>roots' f'. roots_hold crc (pf_reader f') roots' (fold upd_tree changes ents))"
proof (induction changes arbitrary: f roots ents)
  case (Cons c changes)
  show ?case unfolding apply_edits.simps
  proof (rule yields_pbind[OF yields_edit_tree[OF Cons.prems(1,2)]])
    fix root f'
    assume "good f'" "roots_hold crc (pf_reader f') (roots[tree_index (mu_tree c) := root]) (upd_tree c ents)"
    from Cons.IH[OF this] Cons.prems(3) show "yields (apply_edits crc changes (roots[tree_index (mu_tree c) := root])) f'
      (\<lambda>roots' f'. roots_hold crc (pf_reader f') roots' (fold upd_tree (c # changes) ents))" by simp
  qed (use Cons.prems(3) in simp)
qed (simp add: yields_pret)

lemma map_of_upd_tree:
  "map_of (fold upd_tree changes ents tree) key =
     (case List.find (\<lambda>c. mu_tree c = tree \<and> mu_key c = key) (rev changes) of
        None \<Rightarrow> map_of (ents tree) key | Some c \<Rightarrow> mu_value c)"
  by (induction changes rule: rev_induct) (auto simp: upd_tree_def map_of_upd_entries split: option.splits)

lemma store_apply_cases:
  assumes "store_apply crc changes st = (r, st')"
  obtains (poisoned) "st_poisoned st" "r = Inl NeedsRecovery" "st' = st"
  | (refused) "\<not> st_poisoned st" "\<not> list_all mutation_fits changes" "r = Inl (InvalidInput m_batch_ceiling)" "st' = st"
  | (failed) e pages where "\<not> st_poisoned st" "list_all mutation_fits changes" "r = Inl e"
      "apply_edits crc changes (st_roots st) (st_pages st) = (Inl e, pages)" "st' = st\<lparr>st_pages := pages, st_poisoned := True\<rparr>"
  | (applied) roots pages where "\<not> st_poisoned st" "list_all mutation_fits changes" "r = Inr ()"
      "apply_edits crc changes (st_roots st) (st_pages st) = (Inr roots, pages)"
      "st' = st\<lparr>st_pages := pages, st_roots := roots,
         st_runtime := map_option (observe (st_roots st) roots changes (st_manifest st) (st_genesis st)) (st_runtime st)\<rparr>"
  using assms by (auto simp: store_apply_def writable_def split: if_splits prod.splits sum.splits)

subsection \<open>Reading through a view\<close>

lemma rel_option_entry:
  assumes "rel_option (cell_entry crc r tree) found e"
  shows "map_option (\<lambda>cell. (lc_key cell, reader_value crc r tree (lc_value cell))) found = map_option (\<lambda>e. (fst e, Inr (snd e))) e"
  using assms by (cases rule: option.rel_cases) (simp_all add: cell_entry_def)

lemma find_filter: "List.find p xs = (case filter p xs of [] \<Rightarrow> None | x # _ \<Rightarrow> Some x)"
  by (induction xs) simp_all

lemma long_key_messages: "m_long_physical = m_node_long_key" "MAX_STATE_KEY_BYTES = MAX_KEY"
  by (simp_all add: m_long_physical_def m_node_long_key_def MAX_STATE_KEY_BYTES_def MAX_KEY_def MAX_KEY_BYTES_def)

lemma short_bound_check: "check_scan_bound b = (if short_bound b then Inr () else Inl (InvalidInput m_long_physical))"
  by (cases b) (simp_all add: check_scan_bound_def tree_check_key_def long_key_messages not_less)

lemma roots_hold_view:
  assumes "roots_hold crc (pv_reader v) (pv_roots v) ents"
  shows "view_of (view_reads crc v) ents"
  unfolding view_of_def view_reads_def view.simps
proof (intro conjI allI)
  fix t k and lo hi :: "bytes bound"
  have h: "tree_holds crc (pv_reader v) t (pv_roots v ! tree_index t) (ents t)" using assms by (simp add: roots_hold_def)
  show "sorted_wrt (<) (map fst (ents t))" using tree_holds_ascending[OF h] by (simp add: ascending_iff)
  show "tree_get crc (pv_reader v) t (pv_roots v ! tree_index t) k =
      (if length k \<le> MAX_STATE_KEY_BYTES then Inr (map_of (ents t) k) else Inl (InvalidInput m_long_physical))"
    using tree_get_holds[OF h] by (simp add: long_key_messages tree_get_def tree_check_key_def)
  show "rbind (tree_seek crc (pv_reader v) t (pv_roots v ! tree_index t) k)
        (\<lambda>found. Inr (map_option (\<lambda>cell. (lc_key cell, reader_value crc (pv_reader v) t (lc_value cell))) found)) =
      (if length k \<le> MAX_STATE_KEY_BYTES
       then Inr (case filter (\<lambda>e. k \<le> fst e) (ents t) of [] \<Rightarrow> None | e # _ \<Rightarrow> Some (fst e, Inr (snd e)))
       else Inl (InvalidInput m_long_physical))"
  proof (cases "length k \<le> MAX_KEY")
    case True
    from tree_seek_holds[OF h True] obtain found where f: "tree_seek crc (pv_reader v) t (pv_roots v ! tree_index t) k = Inr found"
      "rel_option (cell_entry crc (pv_reader v) t) found (List.find (\<lambda>e. k \<le> fst e) (ents t))" .
    show ?thesis using f(1) rel_option_entry[OF f(2)] True
      by (simp add: long_key_messages find_filter split: list.splits)
  qed (simp add: tree_seek_def tree_check_key_def long_key_messages)
  show "tree_scan_all crc (pv_reader v) t (pv_roots v ! tree_index t) lo hi =
      (if short_bound lo \<and> short_bound hi
       then Inr (map Inr (filter (\<lambda>e. above lo (fst e) \<and> beneath hi (fst e)) (ents t)))
       else Inl (InvalidInput m_long_physical))"
    using tree_scan_holds[OF h, of lo hi] by (auto simp: short_bound_check tree_scan_all_def tree_scan_start_def)
qed

subsection \<open>Valid entries\<close>

text \<open>
  What validation establishes of a tree's entries: every key has a sequence at or below the
  maximum, every value decodes, and the policy tree has the initial policy of the genesis.
\<close>

definition entry_valid :: "tree_id \<Rightarrow> u64 \<Rightarrow> entry \<Rightarrow> bool" where
  "entry_valid tree maximum e \<longleftrightarrow> (\<exists>s. entry_sequence tree (fst e) = Inr s \<and> s \<le> maximum) \<and> is_ok (valid_value tree (snd e))"

definition initial_ok :: "genesis \<Rightarrow> tree_id \<Rightarrow> entry list \<Rightarrow> bool" where
  "initial_ok g tree ents \<longleftrightarrow> (tree = Policy \<longrightarrow> map_of ents (u64_be 0) = Some (policy_encode (gn_initial_policy g)))"

definition entries_valid :: "genesis \<Rightarrow> tree_id \<Rightarrow> u64 \<Rightarrow> entry list \<Rightarrow> bool" where
  "entries_valid g tree maximum ents \<longleftrightarrow> list_all (entry_valid tree maximum) ents \<and> initial_ok g tree ents"

lemma entry_valid_mono: "entry_valid tree a e \<Longrightarrow> a \<le> b \<Longrightarrow> entry_valid tree b e"
  by (auto simp: entry_valid_def intro: order_trans)

lemma entries_valid_mono: "entries_valid g tree a ents \<Longrightarrow> a \<le> b \<Longrightarrow> entries_valid g tree b ents"
  by (auto simp: entries_valid_def list_all_iff intro: entry_valid_mono)

lemma check_entries_valid:
  "check_entries tree m (map Inr ents) low = Inr maximum \<Longrightarrow>
     list_all (entry_valid tree maximum) ents \<and> low \<le> maximum \<and> (tree \<noteq> Cursors \<longrightarrow> maximum \<le> max low (mf_checkpoint_sequence m))"
proof (induction ents arbitrary: low)
  case (Cons e ents)
  obtain k v where e: "e = (k, v)" by force
  from Cons.prems obtain s where s: "entry_sequence tree k = Inr s" "tree \<noteq> Cursors \<longrightarrow> s \<le> mf_checkpoint_sequence m"
    "valid_value tree v = Inr ()" "check_entries tree m (map Inr ents) (max low s) = Inr maximum"
    by (auto simp: e rbind_eq_Inr split: if_splits)
  from Cons.IH[OF s(4)] have i: "list_all (entry_valid tree maximum) ents" "max low s \<le> maximum"
    "tree \<noteq> Cursors \<longrightarrow> maximum \<le> max (max low s) (mf_checkpoint_sequence m)" by simp_all
  have "max (max low s) (mf_checkpoint_sequence m) = max low (mf_checkpoint_sequence m)" if "tree \<noteq> Cursors"
    using s(2) that by (simp add: max.absorb2 max.assoc)
  moreover have "entry_valid tree maximum e" using s(1,3) i(2) by (simp add: e entry_valid_def is_ok_iff)
  ultimately show ?case using i by auto
qed simp

lemma validate_root_sound:
  assumes "validate_root crc r m g tree = Inr p"
  obtains ents where "vt_root p = mf_roots m ! tree_index tree" "tree_holds crc r tree (vt_root p) ents"
    "entries_valid g tree (vt_sequence p) ents" "tree \<noteq> Cursors \<longrightarrow> vt_sequence p \<le> mf_checkpoint_sequence m"
proof -
  let ?root = "mf_roots m ! tree_index tree"
  from assms obtain entries where v: "tree_validate crc r tree ?root = Inr ()"
    "tree_scan_all crc r tree ?root Unbounded Unbounded = Inr entries" "check_entries tree m entries 0 = Inr (vt_sequence p)"
    "tree = Policy \<longrightarrow> tree_get crc r tree ?root (u64_be 0) = Inr (Some (policy_encode (gn_initial_policy g)))" "vt_root p = ?root"
    by (auto simp: validate_root_def Let_def rbind_eq_Inr split: if_splits)
  from tree_validate_holds[OF v(1)] obtain ents where h: "tree_holds crc r tree ?root ents" .
  have e: "entries = map Inr ents" using tree_scan_holds[OF h, of Unbounded Unbounded] v(2) by (simp add: check_scan_bound_def)
  have "length (u64_be 0) \<le> MAX_KEY" by (simp add: MAX_KEY_def)
  then have "initial_ok g tree ents" using v(4) tree_get_holds[OF h, of "u64_be 0"] by (auto simp: initial_ok_def)
  then show thesis using that[of ents] h v(5) check_entries_valid[OF v(3)[unfolded e]] by (simp add: entries_valid_def)
qed

subsection \<open>What the proofs and the pending keys mean\<close>

definition proof_ok :: "(bytes \<Rightarrow> u32) \<Rightarrow> page_reader \<Rightarrow> genesis \<Rightarrow> tree_id \<Rightarrow> validated_tree \<Rightarrow> bool" where
  "proof_ok crc r g tree p \<longleftrightarrow> (\<exists>ents. tree_holds crc r tree (vt_root p) ents \<and> entries_valid g tree (vt_sequence p) ents)"

definition proofs_ok :: "(bytes \<Rightarrow> u32) \<Rightarrow> page_reader \<Rightarrow> genesis \<Rightarrow> proofs \<Rightarrow> bool" where
  "proofs_ok crc r g proofs \<longleftrightarrow> length proofs = 4 \<and> (\<forall>tree. tree \<noteq> Cursors \<longrightarrow> (\<forall>p. proofs ! tree_index tree = Some p \<longrightarrow> proof_ok crc r g tree p))"

text \<open>
  The pending keys include every key above the checkpoint, with its sequence, within the
  budget of one mebibyte.
\<close>

definition pending_size :: "((nat \<times> bytes) \<times> u64) list \<Rightarrow> nat" where
  "pending_size keys = sum_list (map (\<lambda>e. length (snd (fst e)) + 96) keys)"

definition pending_key_ok :: "(nat \<times> bytes) \<times> u64 \<Rightarrow> bool" where
  "pending_key_ok e \<longleftrightarrow> (case e of ((index, key), s) \<Rightarrow> index < 4 \<and> length key \<le> MAX_KEY \<and> entry_sequence (TREES ! index) key = Inr s)"

definition tracked :: "u64 \<Rightarrow> (tree_id \<Rightarrow> entry list) \<Rightarrow> pending \<Rightarrow> bool" where
  "tracked checkpoint ents pd \<longleftrightarrow> list_all pending_key_ok (pd_keys pd) \<and> distinct (map fst (pd_keys pd)) \<and>
     pd_bytes pd = pending_size (pd_keys pd) \<and> pd_bytes pd \<le> 1024 * 1024 \<and>
     (\<forall>tree key s. tree \<noteq> Cursors \<longrightarrow> key \<in> fst ` set (ents tree) \<longrightarrow> entry_sequence tree key = Inr s \<longrightarrow> checkpoint < s \<longrightarrow>
        ((tree_index tree, key), s) \<in> set (pd_keys pd))"

lemma tree_holds_unique:
  assumes "tree_holds crc r tree root xs" "tree_holds crc r tree root ys"
  shows "xs = ys"
proof -
  have u: "check_scan_bound Unbounded = Inr ()" by (simp add: check_scan_bound_def)
  have "map Inr xs = (map Inr ys :: (storage_error + entry) list)"
    using tree_scan_holds[OF assms(1) u u] tree_scan_holds[OF assms(2) u u] by simp
  then show ?thesis by (simp add: inj_map_eq_map inj_def)
qed

lemma proof_ok_later: "proof_ok crc (pf_reader f) g tree p \<Longrightarrow> later f f' \<Longrightarrow> proof_ok crc (pf_reader f') g tree p"
  unfolding proof_ok_def using tree_holds_later by blast

lemma proofs_ok_later: "proofs_ok crc (pf_reader f) g proofs \<Longrightarrow> later f f' \<Longrightarrow> proofs_ok crc (pf_reader f') g proofs"
  unfolding proofs_ok_def using proof_ok_later by blast

lemma proofs_ok_none [simp]: "proofs_ok crc r g (replicate 4 None)"
  by (auto simp: proofs_ok_def tree_index_logical[symmetric])

lemma upd_entries_keys: "fst ` set (upd_entries key v ents) \<subseteq> fst ` set ents \<union> (if v = None then {} else {key})"
  by (auto simp: upd_entries_def split: option.splits)

lemma upd_entries_other: "k \<noteq> key \<Longrightarrow> k \<in> fst ` set (upd_entries key v ents) \<Longrightarrow> k \<in> fst ` set ents"
  using upd_entries_keys[of key v ents] by (auto split: if_splits)

lemma upd_entries_deleted: "key \<notin> fst ` set (upd_entries key None ents)"
  by (auto simp: upd_entries_def)

lemma upd_entries_all: "list_all P ents \<Longrightarrow> (\<And>x. v = Some x \<Longrightarrow> P (key, x)) \<Longrightarrow> list_all P (upd_entries key v ents)"
  by (auto simp: upd_entries_def list_all_iff split: option.splits)

lemma observe_proof_valid:
  assumes "observe_proof g c proof = Some p'" "\<And>p. proof = Some p \<Longrightarrow> entries_valid g (mu_tree c) (vt_sequence p) ents"
  shows "entries_valid g (mu_tree c) (vt_sequence p') (upd_entries (mu_key c) (mu_value c) ents)"
proof -
  obtain p where c: "change_valid g c" "proof = Some p" using assms(1) by (auto simp: observe_proof_def split: if_splits option.splits)
  then obtain s where s: "entry_sequence (mu_tree c) (mu_key c) = Inr s" by (auto simp: change_valid_def is_ok_iff)
  have p': "vt_sequence p' = (if mu_value c = None then vt_sequence p else max (vt_sequence p) s)"
    using assms(1) c s by (auto simp: observe_proof_def split: option.splits)
  have e: "entries_valid g (mu_tree c) (vt_sequence p') ents" using assms(2)[OF c(2)] p' by (auto intro: entries_valid_mono)
  have "list_all (entry_valid (mu_tree c) (vt_sequence p')) (upd_entries (mu_key c) (mu_value c) ents)"
    using e c(1) s p' by (intro upd_entries_all) (auto simp: entries_valid_def entry_valid_def change_valid_def)
  moreover have "initial_ok g (mu_tree c) (upd_entries (mu_key c) (mu_value c) ents)"
    using e c(1) by (auto simp: entries_valid_def initial_ok_def map_of_upd_entries change_valid_def)
  ultimately show ?thesis by (simp add: entries_valid_def)
qed

lemma pending_size_simps [simp]:
  "pending_size [] = 0" "pending_size (e # es) = length (snd (fst e)) + 96 + pending_size es"
  "pending_size (xs @ ys) = pending_size xs + pending_size ys"
  by (simp_all add: pending_size_def)

lemma pending_remove:
  "distinct (map fst keys) \<Longrightarrow>
     pending_size (filter (\<lambda>e. fst e \<noteq> key) keys) = (if map_of keys key \<noteq> None then pending_size keys - (length (snd key) + 96) else pending_size keys)"
proof (induction keys)
  case (Cons e keys)
  have "fst e \<notin> fst ` set keys" using Cons.prems by simp
  then have "filter (\<lambda>x. fst x \<noteq> fst e) keys = keys" unfolding filter_id_conv by (metis image_eqI)
  moreover have "map_of keys (fst e) = None" using \<open>fst e \<notin> fst ` set keys\<close> by (simp add: map_of_eq_None_iff)
  moreover have "length (snd key) + 96 \<le> pending_size keys" if "map_of keys key \<noteq> None" for keys
    using that by (induction keys) (auto split: if_splits)
  ultimately show ?case using Cons by (cases "fst e = key") auto
qed simp

lemma pending_insert:
  fixes key :: "nat \<times> bytes"
  assumes "\<forall>e \<in> set kept. fst e \<noteq> key" "keys = filter (\<lambda>e. fst e < key) kept @ (key, s) # filter (\<lambda>e. key < fst e) kept"
  shows "pending_size keys = pending_size kept + (length (snd key) + 96)" "set keys = insert (key, s) (set kept)"
    "distinct (map fst kept) \<Longrightarrow> distinct (map fst keys)"
proof -
  have "pending_size (filter (\<lambda>e. fst e < key) kept) + pending_size (filter (\<lambda>e. key < fst e) kept) = pending_size kept"
    using assms(1) by (induction kept) (auto dest: neq_iff[THEN iffD1])
  then show "pending_size keys = pending_size kept + (length (snd key) + 96)" by (simp add: assms(2))
  show "set keys = insert (key, s) (set kept)" using assms(1) unfolding assms(2) by (auto dest: neq_iff[THEN iffD1])
  assume "distinct (map fst kept)"
  then have "distinct (map fst (filter (\<lambda>e. fst e < key) kept))" "distinct (map fst (filter (\<lambda>e. key < fst e) kept))"
    by (simp_all add: distinct_map_filter)
  moreover have "\<forall>x \<in> set (map fst (filter (\<lambda>e. fst e < key) kept)). x < key" "\<forall>x \<in> set (map fst (filter (\<lambda>e. key < fst e) kept)). key < x" by auto
  ultimately show "distinct (map fst keys)" unfolding assms(2) map_append list.map fst_conv distinct_append distinct.simps
    by (metis (no_types, lifting) disjoint_iff less_asym less_irrefl set_ConsD)
qed

lemma tracked_kept:
  assumes "tracked checkpoint ents pd" "kept = filter (\<lambda>e. fst e \<noteq> (tree_index (mu_tree c), mu_key c)) (pd_keys pd)"
    "tree \<noteq> Cursors" "key \<in> fst ` set (upd_tree c ents tree)" "entry_sequence tree key = Inr s" "checkpoint < s"
    "tree \<noteq> mu_tree c \<or> key \<noteq> mu_key c"
  shows "((tree_index tree, key), s) \<in> set kept"
proof -
  have "key \<in> fst ` set (ents tree)"
    using assms(4,7) by (auto simp: upd_tree_def dest: upd_entries_other split: if_splits)
  then have "((tree_index tree, key), s) \<in> set (pd_keys pd)" using assms(1,3,5,6) unfolding tracked_def by blast
  then show ?thesis using assms(2,7) by auto
qed

lemma observe_pending_tracked:
  assumes t: "tracked (mf_checkpoint_sequence m) ents pd" and c: "mutation_fits c" "mu_tree c \<noteq> Cursors" and o: "observe_pending m c pd = Some pd'"
  shows "tracked (mf_checkpoint_sequence m) (upd_tree c ents) pd'"
proof -
  define key where "key = (tree_index (mu_tree c), mu_key c)"
  define kept where "kept = filter (\<lambda>e. fst e \<noteq> key) (pd_keys pd)"
  have k: "list_all pending_key_ok kept" "distinct (map fst kept)"
    using t by (auto simp: tracked_def kept_def list_all_iff distinct_map_filter)
  have size: "(if map_of (pd_keys pd) key \<noteq> None then pd_bytes pd - (length (mu_key c) + 96) else pd_bytes pd) = pending_size kept"
    using t pending_remove[of "pd_keys pd" key] by (simp add: tracked_def kept_def key_def)
  have low: "pending_size kept \<le> 1024 * 1024" unfolding size[symmetric] using t by (auto simp: tracked_def split: if_splits)
  obtain s where s: "entry_sequence (mu_tree c) (mu_key c) = Inr s" using o by (auto simp: observe_pending_def Let_def split: sum.splits)
  have o': "(if mu_value c \<noteq> None \<and> s > mf_checkpoint_sequence m then
        if pending_size kept + (length (mu_key c) + 96) > 1024 * 1024 then None
        else Some \<lparr>pd_keys = filter (\<lambda>e. fst e < key) kept @ (key, s) # filter (\<lambda>e. key < fst e) kept,
          pd_bytes = pending_size kept + (length (mu_key c) + 96)\<rparr>
      else Some \<lparr>pd_keys = kept, pd_bytes = pending_size kept\<rparr>) = Some pd'"
    using o unfolding observe_pending_def Let_def key_def[symmetric] kept_def[symmetric] size s sum.case .
  note others = tracked_kept[OF t kept_def[unfolded key_def]]
  show ?thesis
  proof (cases "mu_value c \<noteq> None \<and> s > mf_checkpoint_sequence m")
    case False
    then have pd': "pd' = \<lparr>pd_keys = kept, pd_bytes = pending_size kept\<rparr>"
      using o' unfolding if_not_P[OF False] by simp
    have "((tree_index tree, k), v) \<in> set kept" if "tree \<noteq> Cursors" "k \<in> fst ` set (upd_tree c ents tree)" "entry_sequence tree k = Inr v"
      "mf_checkpoint_sequence m < v" for tree k v
    proof (rule others[OF that], rule ccontr)
      assume "\<not> (tree \<noteq> mu_tree c \<or> k \<noteq> mu_key c)"
      then have tk: "tree = mu_tree c" "k = mu_key c" by simp_all
      then have "mu_value c = None" using that(3,4) False s by simp
      then show False using that(2) upd_entries_deleted[of "mu_key c" "ents (mu_tree c)"] unfolding tk upd_tree_def by simp
    qed
    then show ?thesis using k low unfolding pd' tracked_def by auto
  next
    case True
    define keys where "keys = filter (\<lambda>e. fst e < key) kept @ (key, s) # filter (\<lambda>e. key < fst e) kept"
    have pd': "pd' = \<lparr>pd_keys = keys, pd_bytes = pending_size kept + (length (mu_key c) + 96)\<rparr>"
      "pending_size kept + (length (mu_key c) + 96) \<le> 1024 * 1024"
      using o' unfolding if_P[OF True] keys_def[symmetric] by (simp_all split: if_splits)
    have "\<forall>e \<in> set kept. fst e \<noteq> key" by (simp add: kept_def)
    note ins = pending_insert[OF this keys_def]
    note members = ins(2) and dist = ins(3)[OF k(2)]
    have sum: "pending_size keys = pending_size kept + (length (mu_key c) + 96)" using ins(1) by (simp add: key_def)
    have ok: "list_all pending_key_ok keys"
      unfolding list_all_iff members using k(1) c s by (auto simp: list_all_iff pending_key_ok_def key_def mutation_fits_def tree_index_logical)
    have "((tree_index tree, k), v) \<in> set keys" if "tree \<noteq> Cursors" "k \<in> fst ` set (upd_tree c ents tree)" "entry_sequence tree k = Inr v"
      "mf_checkpoint_sequence m < v" for tree k v
      unfolding members using others[OF that] that(3) s by (cases "tree = mu_tree c \<and> k = mu_key c") (auto simp: key_def)
    then show ?thesis using pd'(2) sum dist ok unfolding pd'(1) tracked_def by auto
  qed
qed

subsection \<open>Edits keep the proofs\<close>

text \<open>Between the first and the last step of \<^verbatim>\<open>observe\<close> the proofs speak of the entries, whatever the roots are.\<close>

definition live_valid :: "genesis \<Rightarrow> (tree_id \<Rightarrow> entry list) \<Rightarrow> proofs \<Rightarrow> bool" where
  "live_valid g ents live \<longleftrightarrow> length live = 4 \<and>
     (\<forall>tree. tree \<noteq> Cursors \<longrightarrow> (\<forall>p. live ! tree_index tree = Some p \<longrightarrow> entries_valid g tree (vt_sequence p) (ents tree)))"

definition pending_ok :: "u64 \<Rightarrow> (tree_id \<Rightarrow> entry list) \<Rightarrow> pending option \<Rightarrow> bool" where
  "pending_ok checkpoint ents pending \<longleftrightarrow> (\<forall>pd. pending = Some pd \<longrightarrow> tracked checkpoint ents pd)"

lemma live_valid_update:
  assumes "live_valid g ents live" "tree \<noteq> Cursors" "\<And>p. proof = Some p \<Longrightarrow> entries_valid g tree (vt_sequence p) xs"
  shows "live_valid g (ents(tree := xs)) (live[tree_index tree := proof])"
  unfolding live_valid_def
proof (intro conjI allI impI)
  fix t p
  assume t: "t \<noteq> Cursors" "live[tree_index tree := proof] ! tree_index t = Some p"
  have i: "tree_index tree < length live" using assms(1,2) by (simp add: live_valid_def tree_index_logical)
  show "entries_valid g t (vt_sequence p) ((ents(tree := xs)) t)"
    using assms(1,3) t i by (cases "t = tree") (simp_all add: live_valid_def nth_list_update_neq)
qed (use assms(1) in \<open>simp add: live_valid_def\<close>)

lemma observe_change_valid:
  assumes "live_valid g ents (rv_live rv)" "pending_ok (mf_checkpoint_sequence m) ents (rv_pending rv)" "mutation_fits c"
  shows "live_valid g (upd_tree c ents) (rv_live (observe_change m g c rv)) \<and>
    pending_ok (mf_checkpoint_sequence m) (upd_tree c ents) (rv_pending (observe_change m g c rv)) \<and>
    rv_published (observe_change m g c rv) = rv_published rv"
proof (cases "mu_tree c = Cursors")
  case True
  then show ?thesis using assms(1,2)
    by (auto simp: observe_change_def upd_tree_def live_valid_def pending_ok_def tracked_def)
next
  case False
  then have i: "tree_index (mu_tree c) < 4" "tree_index (mu_tree c) \<noteq> 4" by (simp_all add: tree_index_logical[symmetric])
  have live: "entries_valid g (mu_tree c) (vt_sequence p) (ents (mu_tree c))" if "rv_live rv ! tree_index (mu_tree c) = Some p" for p
    using assms(1) False that by (simp add: live_valid_def)
  have "live_valid g (upd_tree c ents) ((rv_live rv)[tree_index (mu_tree c) := observe_proof g c (rv_live rv ! tree_index (mu_tree c))])"
    unfolding upd_tree_def using observe_proof_valid[OF _ live] by (intro live_valid_update[OF assms(1) False]) blast
  moreover have "pending_ok (mf_checkpoint_sequence m) (upd_tree c ents)
      (case rv_pending rv of None \<Rightarrow> None | Some pd \<Rightarrow> observe_pending m c pd)"
    using assms(2,3) False observe_pending_tracked by (auto simp: pending_ok_def split: option.splits)
  ultimately show ?thesis using i(2) by (simp add: observe_change_def Let_def)
qed

lemma observe_changes_valid:
  "live_valid g ents (rv_live rv) \<Longrightarrow> pending_ok (mf_checkpoint_sequence m) ents (rv_pending rv) \<Longrightarrow> list_all mutation_fits changes \<Longrightarrow>
   live_valid g (fold upd_tree changes ents) (rv_live (fold (observe_change m g) changes rv)) \<and>
   pending_ok (mf_checkpoint_sequence m) (fold upd_tree changes ents) (rv_pending (fold (observe_change m g) changes rv)) \<and>
   rv_published (fold (observe_change m g) changes rv) = rv_published rv"
proof (induction changes arbitrary: ents rv)
  case (Cons c changes)
  then have c: "mutation_fits c" "list_all mutation_fits changes" by simp_all
  note o = observe_change_valid[OF Cons.prems(1,2) c(1)]
  show ?case using Cons.IH[OF _ _ c(2), of "upd_tree c ents" "observe_change m g c rv"] o by simp
qed simp

definition runtime_ok :: "(bytes \<Rightarrow> u32) \<Rightarrow> page_reader \<Rightarrow> genesis \<Rightarrow> u64 \<Rightarrow> (tree_id \<Rightarrow> entry list) \<Rightarrow> runtime_validation \<Rightarrow> bool" where
  "runtime_ok crc r g checkpoint ents rv \<longleftrightarrow>
     proofs_ok crc r g (rv_live rv) \<and> proofs_ok crc r g (rv_published rv) \<and> pending_ok checkpoint ents (rv_pending rv)"

lemma proof_of_root:
  assumes "proof_ok crc r g tree p" "tree_holds crc r tree (vt_root p) ents"
  shows "entries_valid g tree (vt_sequence p) ents"
  using assms tree_holds_unique unfolding proof_ok_def by blast

lemma observe_ok:
  assumes "runtime_ok crc (pf_reader f) g (mf_checkpoint_sequence m) ents rv" "roots_hold crc (pf_reader f) previous ents"
    "list_all mutation_fits changes" "later f f'" "roots_hold crc (pf_reader f') roots (fold upd_tree changes ents)"
  shows "runtime_ok crc (pf_reader f') g (mf_checkpoint_sequence m) (fold upd_tree changes ents) (observe previous roots changes m g rv)"
proof -
  define live where "live = map (\<lambda>(proof, root). case proof of Some p \<Rightarrow> if vt_root p \<noteq> root then None else proof | None \<Rightarrow> None)
            (zip (rv_live rv) previous)"
  define rv' where "rv' = fold (observe_change m g) changes (rv\<lparr>rv_live := live\<rparr>)"
  have len: "length (rv_live rv) = 4" "length previous = 5" "length roots = 5" using assms(1,2,5) by (simp_all add: runtime_ok_def proofs_ok_def roots_hold_def)
  have "live_valid g ents live" unfolding live_valid_def
  proof (intro conjI allI impI)
    fix tree p
    assume t: "tree \<noteq> Cursors" "live ! tree_index tree = Some p"
    then have i: "tree_index tree < 4" by (simp add: tree_index_logical)
    then have "rv_live rv ! tree_index tree = Some p" "vt_root p = previous ! tree_index tree"
      using t(2) len by (auto simp: live_def split: option.splits if_splits)
    moreover have "proof_ok crc (pf_reader f) g tree p" using assms(1) t(1) calculation(1) by (simp add: runtime_ok_def proofs_ok_def)
    moreover have "tree_holds crc (pf_reader f) tree (previous ! tree_index tree) (ents tree)" using assms(2) by (simp add: roots_hold_def)
    ultimately show "entries_valid g tree (vt_sequence p) (ents tree)" by (auto intro: proof_of_root)
  qed (use len in \<open>simp add: live_def\<close>)
  then have v: "live_valid g (fold upd_tree changes ents) (rv_live rv')" "pending_ok (mf_checkpoint_sequence m) (fold upd_tree changes ents) (rv_pending rv')"
    "rv_published rv' = rv_published rv"
    using observe_changes_valid[of g ents "rv\<lparr>rv_live := live\<rparr>" m changes] assms(1,3) by (simp_all add: rv'_def runtime_ok_def)
  have o: "observe previous roots changes m g rv = rv'\<lparr>rv_live := map (\<lambda>(proof, root). map_option (\<lambda>p. p\<lparr>vt_root := root\<rparr>) proof) (zip (rv_live rv') roots)\<rparr>"
    unfolding observe_def Let_def live_def[symmetric] rv'_def[symmetric] ..
  have "proofs_ok crc (pf_reader f') g (map (\<lambda>(proof, root). map_option (\<lambda>p. p\<lparr>vt_root := root\<rparr>) proof) (zip (rv_live rv') roots))"
    unfolding proofs_ok_def
  proof (intro conjI allI impI)
    fix tree p
    assume t: "tree \<noteq> Cursors" "map (\<lambda>(proof, root). map_option (\<lambda>p. p\<lparr>vt_root := root\<rparr>) proof) (zip (rv_live rv') roots) ! tree_index tree = Some p"
    then have i: "tree_index tree < 4" by (simp add: tree_index_logical)
    then obtain q where q: "rv_live rv' ! tree_index tree = Some q" "p = q\<lparr>vt_root := roots ! tree_index tree\<rparr>"
      using t(2) v(1) len by (auto simp: live_valid_def)
    then show "proof_ok crc (pf_reader f') g tree p"
      using v(1) t(1) assms(5) unfolding proof_ok_def live_valid_def roots_hold_def by auto
  qed (use len v(1) in \<open>simp add: live_valid_def\<close>)
  then show ?thesis unfolding o runtime_ok_def using v(2,3) assms(1) proofs_ok_later[OF _ assms(4)] by (simp add: runtime_ok_def)
qed

subsection \<open>Validation with proofs\<close>

lemma reused_ok:
  assumes "reused m proofs tree = Some p" "proofs_ok crc r g proofs"
  shows "tree \<noteq> Cursors" "vt_root p = mf_roots m ! tree_index tree" "vt_sequence p \<le> mf_checkpoint_sequence m" "proof_ok crc r g tree p"
  using assms by (auto simp: reused_def Let_def proofs_ok_def tree_index_logical split: if_splits option.splits)

text \<open>What a successful validation of one root shows, by a scan or by a proof.\<close>

definition root_valid :: "(bytes \<Rightarrow> u32) \<Rightarrow> page_reader \<Rightarrow> genesis \<Rightarrow> manifest \<Rightarrow> tree_id \<Rightarrow> bool" where
  "root_valid crc r g m tree \<longleftrightarrow> (\<exists>ents maximum. tree_holds crc r tree (mf_roots m ! tree_index tree) ents \<and>
     entries_valid g tree maximum ents \<and> (tree \<noteq> Cursors \<longrightarrow> maximum \<le> mf_checkpoint_sequence m))"

lemma validate_roots_sound:
  assumes "proofs_ok crc r g proofs"
  shows "validate_roots crc r m g proofs trees validated = Inr out \<Longrightarrow> proofs_ok crc r g validated \<Longrightarrow>
    proofs_ok crc r g out \<and> (\<forall>tree \<in> set trees. root_valid crc r g m tree)"
proof (induction trees arbitrary: validated)
  case (Cons tree trees)
  from Cons.prems(1) obtain p where p: "(case reused m proofs tree of Some p \<Rightarrow> Inr p | None \<Rightarrow> validate_root crc r m g tree) = Inr p"
    "validate_roots crc r m g proofs trees (if tree_index tree < 4 then validated[tree_index tree := Some p] else validated) = Inr out"
    by (auto simp: rbind_eq_Inr)
  have ok: "vt_root p = mf_roots m ! tree_index tree" "proof_ok crc r g tree p" "tree \<noteq> Cursors \<longrightarrow> vt_sequence p \<le> mf_checkpoint_sequence m"
  proof (atomize (full), cases "reused m proofs tree")
    case (Some q)
    then show "vt_root p = mf_roots m ! tree_index tree \<and> proof_ok crc r g tree p \<and> (tree \<noteq> Cursors \<longrightarrow> vt_sequence p \<le> mf_checkpoint_sequence m)"
      using p(1) reused_ok[OF Some assms] by simp
  next
    case None
    then have "validate_root crc r m g tree = Inr p" using p(1) by simp
    then show "vt_root p = mf_roots m ! tree_index tree \<and> proof_ok crc r g tree p \<and> (tree \<noteq> Cursors \<longrightarrow> vt_sequence p \<le> mf_checkpoint_sequence m)"
      by (rule validate_root_sound) (auto simp: proof_ok_def)
  qed
  then have "root_valid crc r g m tree" unfolding root_valid_def proof_ok_def by auto
  moreover have "proofs_ok crc r g (if tree_index tree < 4 then validated[tree_index tree := Some p] else validated)"
    using Cons.prems(2) ok(2) unfolding proofs_ok_def by (auto simp: nth_list_update)
  ultimately show ?case using Cons.IH[OF p(2)] by simp
qed simp

lemma checkpoint_validate_ok:
  assumes "checkpoint_validate crc r m g proofs = Inr out" "proofs_ok crc r g proofs"
  shows "proofs_ok crc r g out" "root_valid crc r g m tree"
proof -
  have "tree \<in> set TREES" for tree by (cases tree) (simp_all add: TREES_def)
  then show "proofs_ok crc r g out" "root_valid crc r g m tree"
    using validate_roots_sound[OF assms(2) assms(1)[unfolded checkpoint_validate_def]] by auto
qed

subsection \<open>The entries of a checkpoint\<close>

text \<open>The checkpoint at a sequence keeps the entries up to it, and all cursors.\<close>

definition up_to :: "u64 \<Rightarrow> tree_id \<Rightarrow> entry \<Rightarrow> bool" where
  "up_to sequence tree e \<longleftrightarrow> (case entry_sequence tree (fst e) of Inr s \<Rightarrow> s \<le> sequence | Inl _ \<Rightarrow> False)"

definition checkpoint_entries :: "u64 \<Rightarrow> (tree_id \<Rightarrow> entry list) \<Rightarrow> tree_id \<Rightarrow> entry list" where
  "checkpoint_entries sequence ents tree = (if tree = Cursors then ents tree else filter (up_to sequence tree) (ents tree))"

definition drop_keys :: "bytes set \<Rightarrow> entry list \<Rightarrow> entry list" where
  "drop_keys ks ents = filter (\<lambda>e. fst e \<notin> ks) ents"

lemma drop_keys_simps [simp]: "drop_keys {} ents = ents" "drop_keys a (drop_keys b ents) = drop_keys (a \<union> b) ents"
  by (simp_all add: drop_keys_def conj_commute)

lemma upd_entries_drop: "ascending (map fst ents) \<Longrightarrow> upd_entries key None ents = drop_keys {key} ents"
proof (induction ents)
  case (Cons e ents)
  then have less: "\<forall>x \<in> set ents. fst e < fst x" and asc: "ascending (map fst ents)" by (auto simp: ascending_iff)
  note ih = Cons.IH[OF asc]
  show ?case
  proof (cases "fst e < key")
    case True
    then show ?thesis using ih by (auto simp: upd_entries_def drop_keys_def)
  next
    case False
    then have "filter (\<lambda>x. fst x < key) ents = []" using less by (auto simp: filter_empty_conv)
    then show ?thesis using ih False by (auto simp: upd_entries_def drop_keys_def)
  qed
qed (simp add: upd_entries_def drop_keys_def)

lemma tree_holds_keys: "tree_holds crc r tree root ents \<Longrightarrow> e \<in> set ents \<Longrightarrow> length (fst e) \<le> MAX_KEY"
proof (cases "root = 0")
  case False
  assume h: "tree_holds crc r tree root ents" and e: "e \<in> set ents"
  then obtain n cells where t: "tree_rep n crc r tree root cells" "list_all2 (cell_entry crc r tree) cells ents"
    using False by (auto simp: tree_holds_def)
  have "fst e \<in> set (map lc_key cells)" unfolding entry_keys[OF t(2)] using e by simp
  then show ?thesis using tree_rep_cells[OF t(1)] by (auto simp: cell_ok_def)
qed (simp add: tree_holds_def)

lemma yields_delete_key:
  assumes "good f" "tree_holds crc (pf_reader f) tree root ents" "length key \<le> MAX_KEY"
  shows "yields (tree_delete crc tree root key) f (\<lambda>root' f'. tree_holds crc (pf_reader f') tree root' (drop_keys {key} ents))"
  using yields_tree_delete[OF assms] unfolding upd_entries_drop[OF tree_holds_ascending[OF assms(2)]] .

text \<open>The keys that the pending keys have above the sequence in a tree.\<close>

definition above_keys :: "u64 \<Rightarrow> ((nat \<times> bytes) \<times> u64) list \<Rightarrow> tree_id \<Rightarrow> bytes set" where
  "above_keys sequence keys tree = {k. \<exists>s. ((tree_index tree, k), s) \<in> set keys \<and> sequence < s}"

lemma yields_delete_pending:
  "good f \<Longrightarrow> roots_hold crc (pf_reader f) roots ents \<Longrightarrow> list_all pending_key_ok keys \<Longrightarrow>
   yields (delete_pending crc sequence keys roots) f
     (\<lambda>roots' f'. roots_hold crc (pf_reader f') roots' (\<lambda>tree. drop_keys (above_keys sequence keys tree) (ents tree)))"
proof (induction keys arbitrary: f roots ents)
  case Nil
  then show ?case by (auto simp: above_keys_def intro!: yields_pret)
next
  case (Cons e keys)
  obtain index key s where e: "e = ((index, key), s)" by (metis surj_pair)
  have ok: "index < 4" "length key \<le> MAX_KEY" and rest: "list_all pending_key_ok keys"
    using Cons.prems(3) by (simp_all add: e pending_key_ok_def[of "((index, key), s)"])
  from tree_of_index[OF ok(1)] obtain tree where tree: "tree_index tree = index" "TREES ! index = tree" by blast
  show ?case
  proof (cases "sequence < s")
    case True
    have h: "tree_holds crc (pf_reader f) tree (roots ! index) (ents tree)" using Cons.prems(2) tree by (auto simp: roots_hold_def)
    have "yields (pbind (tree_delete crc tree (roots ! index) key) (\<lambda>root. delete_pending crc sequence keys (roots[index := root]))) f
        (\<lambda>roots' f'. roots_hold crc (pf_reader f') roots' (\<lambda>t. drop_keys (above_keys sequence (e # keys) t) (ents t)))"
    proof (rule yields_pbind[OF yields_delete_key[OF Cons.prems(1) h ok(2)]])
      fix root f'
      assume f': "later f f'" "good f'" "tree_holds crc (pf_reader f') tree root (drop_keys {key} (ents tree))"
      let ?ents = "ents(tree := drop_keys {key} (ents tree))"
      have "roots_hold crc (pf_reader f') (roots[index := root]) ?ents"
        using roots_hold_update[OF roots_hold_later[OF Cons.prems(2) f'(1)] f'(3)] unfolding tree(1) .
      from Cons.IH[OF f'(2) this rest]
      have y: "yields (delete_pending crc sequence keys (roots[index := root])) f'
        (\<lambda>roots' f'. roots_hold crc (pf_reader f') roots' (\<lambda>t. drop_keys (above_keys sequence keys t) (?ents t)))" .
      have "drop_keys (above_keys sequence keys t) (?ents t) = drop_keys (above_keys sequence (e # keys) t) (ents t)" for t
      proof -
        have "above_keys sequence (e # keys) t = above_keys sequence keys t \<union> (if t = tree then {key} else {})"
          using True tree(1) by (auto simp: above_keys_def e)
        then show ?thesis by simp
      qed
      then show "yields (delete_pending crc sequence keys (roots[index := root])) f'
        (\<lambda>roots' f'. roots_hold crc (pf_reader f') roots' (\<lambda>t. drop_keys (above_keys sequence (e # keys) t) (ents t)))" using y by simp
    qed
    then show ?thesis using True tree(2) by (simp add: e)
  next
    case False
    then have "above_keys sequence (e # keys) = above_keys sequence keys" by (auto simp: above_keys_def e fun_eq_iff)
    then show ?thesis using Cons.IH[OF Cons.prems(1,2) rest] False by (simp add: e)
  qed
qed

lemma pending_entries:
  assumes "tracked checkpoint ents pd" "checkpoint \<le> sequence" "tree \<noteq> Cursors \<Longrightarrow> list_all (\<lambda>e. is_ok (entry_sequence tree (fst e))) (ents tree)"
  shows "drop_keys (above_keys sequence (pd_keys pd) tree) (ents tree) = checkpoint_entries sequence ents tree"
proof (cases "tree = Cursors")
  case True
  have "above_keys sequence (pd_keys pd) Cursors = {}"
    using assms(1) by (auto simp: above_keys_def tracked_def list_all_iff pending_key_ok_def)
  then show ?thesis using True by (simp add: checkpoint_entries_def)
next
  case False
  have "fst e \<in> above_keys sequence (pd_keys pd) tree \<longleftrightarrow> \<not> up_to sequence tree e" if e: "e \<in> set (ents tree)" for e
  proof -
    obtain s where s: "entry_sequence tree (fst e) = Inr s" using assms(3)[OF False] e by (auto simp: list_all_iff is_ok_iff)
    have "((tree_index tree, fst e), v) \<in> set (pd_keys pd) \<Longrightarrow> v = s" for v
      using assms(1) s unfolding tracked_def list_all_iff pending_key_ok_def by fastforce
    moreover have "sequence < s \<Longrightarrow> ((tree_index tree, fst e), s) \<in> set (pd_keys pd)"
      using assms(1,2) False e s unfolding tracked_def by (meson image_eqI le_less_trans)
    ultimately show ?thesis using s by (auto simp: above_keys_def up_to_def not_le)
  qed
  then show ?thesis using False by (auto simp: drop_keys_def checkpoint_entries_def intro: filter_cong)
qed

text \<open>The keys above the sequence among scanned entries.\<close>

definition later_keys :: "u64 \<Rightarrow> tree_id \<Rightarrow> entry list \<Rightarrow> bytes set" where
  "later_keys sequence tree es = {k \<in> fst ` set es. \<exists>s. entry_sequence tree k = Inr s \<and> sequence < s}"

lemma later_keys_Cons:
  "entry_sequence tree (fst e) = Inr s \<Longrightarrow> later_keys sequence tree (e # es) = later_keys sequence tree es \<union> (if sequence < s then {fst e} else {})"
  by (auto simp: later_keys_def)

lemma delete_later_spec:
  "delete_later crc sequence tree (map Inr es) root f = (r, f') \<Longrightarrow> good f \<Longrightarrow> tree_holds crc (pf_reader f) tree root ents \<Longrightarrow>
   \<forall>e \<in> set es. length (fst e) \<le> MAX_KEY \<Longrightarrow>
   good f' \<and> later f f' \<and> (healthy f \<longrightarrow> healthy f' \<and> (\<forall>e. r = Inl (True, e) \<longrightarrow> e = Exhausted)) \<and>
   (\<forall>root'. r = Inr root' \<longrightarrow> tree_holds crc (pf_reader f') tree root' (drop_keys (later_keys sequence tree es) ents) \<and>
      list_all (\<lambda>e. is_ok (entry_sequence tree (fst e))) es)"
proof (induction es arbitrary: root f ents)
  case Nil
  then show ?case by (auto simp: later_keys_def)
next
  case (Cons e es)
  obtain k v where e: "e = (k, v)" by force
  show ?case
  proof (cases "entry_sequence tree k")
    case (Inl x)
    then show ?thesis using Cons.prems by (auto simp: e)
  next
    case (Inr s)
    have keys: "later_keys sequence tree (e # es) = later_keys sequence tree es \<union> (if sequence < s then {k} else {})"
      using later_keys_Cons[of tree e s] Inr by (simp add: e)
    show ?thesis
    proof (cases "sequence < s")
      case False
      then show ?thesis using Cons.IH[OF _ Cons.prems(2,3)] Cons.prems(1,4) Inr keys by (auto simp: e)
    next
      case True
      obtain r1 f1 where d: "tree_delete crc tree root k f = (r1, f1)" by force
      have k: "length k \<le> MAX_KEY" using Cons.prems(4) by (simp add: e)
      note y = yieldsD[OF yields_delete_key[OF Cons.prems(2,3) k] d]
      show ?thesis
      proof (cases r1)
        case (Inl x)
        then show ?thesis using Cons.prems(1) True Inr d y(1,2,4,5) by (auto simp: e)
      next
        case R: (Inr root1)
        have run: "delete_later crc sequence tree (map Inr es) root1 f1 = (r, f')" using Cons.prems(1) True Inr d R by (simp add: e)
        have "\<forall>e \<in> set es. length (fst e) \<le> MAX_KEY" using Cons.prems(4) by simp
        note ih = Cons.IH[OF run y(1) y(3)[OF R] this]
        show ?thesis using ih y(4) later_trans[OF y(2)] keys True Inr by (auto simp: e)
      qed
    qed
  qed
qed

lemma later_entries:
  assumes "list_all (\<lambda>e. is_ok (entry_sequence tree (fst e))) ents"
  shows "drop_keys (later_keys sequence tree ents) ents = filter (up_to sequence tree) ents"
  unfolding drop_keys_def
proof (rule filter_cong[OF refl])
  fix e
  assume e: "e \<in> set ents"
  then obtain s where "entry_sequence tree (fst e) = Inr s" using assms by (auto simp: list_all_iff is_ok_iff)
  then show "fst e \<notin> later_keys sequence tree ents \<longleftrightarrow> up_to sequence tree e" using e by (auto simp: later_keys_def up_to_def not_le)
qed

text \<open>Scanning the given trees leaves the entries up to the sequence in them.\<close>

definition filtered :: "u64 \<Rightarrow> tree_id set \<Rightarrow> (tree_id \<Rightarrow> entry list) \<Rightarrow> tree_id \<Rightarrow> entry list" where
  "filtered sequence trees ents tree = (if tree \<in> trees then filter (up_to sequence tree) (ents tree) else ents tree)"

lemma filter_trees_spec:
  assumes "roots_hold crc (pf_reader f0) roots0 ents"
  shows "filter_trees crc sequence (pf_reader f0) trees roots f = (r, f') \<Longrightarrow> good f \<Longrightarrow> later f0 f \<Longrightarrow> distinct trees \<Longrightarrow>
   roots_hold crc (pf_reader f) roots (filtered sequence finished ents) \<Longrightarrow> set trees \<inter> finished = {} \<Longrightarrow>
   \<forall>tree \<in> set trees. roots ! tree_index tree = roots0 ! tree_index tree \<Longrightarrow>
   good f' \<and> later f f' \<and> (healthy f \<longrightarrow> healthy f' \<and> (\<forall>e. r = Inl (True, e) \<longrightarrow> e = Exhausted)) \<and>
   (\<forall>roots'. r = Inr roots' \<longrightarrow> roots_hold crc (pf_reader f') roots' (filtered sequence (finished \<union> set trees) ents))"
proof (induction trees arbitrary: roots f finished)
  case (Cons tree trees)
  have root: "roots ! tree_index tree = roots0 ! tree_index tree" using Cons.prems(7) by simp
  have h0: "tree_holds crc (pf_reader f0) tree (roots ! tree_index tree) (ents tree)" using assms unfolding root roots_hold_def by blast
  have scan: "tree_scan_all crc (pf_reader f0) tree (roots ! tree_index tree) Unbounded Unbounded = Inr (map Inr (ents tree))"
    using tree_scan_holds[OF h0, of Unbounded Unbounded] by (simp add: check_scan_bound_def)
  obtain r1 f1 where d: "delete_later crc sequence tree (map Inr (ents tree)) (roots ! tree_index tree) f = (r1, f1)" by force
  note dl = delete_later_spec[OF d Cons.prems(2) tree_holds_later[OF h0 Cons.prems(3)] ballI[OF tree_holds_keys[OF h0]]]
  show ?case
  proof (cases r1)
    case (Inl x)
    then show ?thesis using Cons.prems(1) scan d dl by auto
  next
    case (Inr root)
    have run: "filter_trees crc sequence (pf_reader f0) trees (roots[tree_index tree := root]) f1 = (r, f')"
      using Cons.prems(1) scan d Inr by simp
    have h: "tree_holds crc (pf_reader f1) tree root (filter (up_to sequence tree) (ents tree))"
      using dl Inr later_entries[of tree "ents tree" sequence] by simp
    have "(filtered sequence finished ents)(tree := filter (up_to sequence tree) (ents tree)) = filtered sequence (insert tree finished) ents"
      by (auto simp: filtered_def fun_eq_iff)
    then have hold: "roots_hold crc (pf_reader f1) (roots[tree_index tree := root]) (filtered sequence (insert tree finished) ents)"
      using roots_hold_update[OF roots_hold_later[OF Cons.prems(5)] h] dl by simp
    have rest: "\<forall>t \<in> set trees. roots[tree_index tree := root] ! tree_index t = roots0 ! tree_index t"
    proof
      fix t
      assume t: "t \<in> set trees"
      then have "tree \<noteq> t" using Cons.prems(4) by auto
      then show "roots[tree_index tree := root] ! tree_index t = roots0 ! tree_index t" using Cons.prems(7) t by (simp add: nth_list_update_neq)
    qed
    have "good f1" "later f f1" "later f0 f1" using dl later_trans[OF Cons.prems(3)] by simp_all
    moreover have "set trees \<inter> insert tree finished = {}" "distinct trees" using Cons.prems(4,6) by auto
    ultimately show ?thesis using Cons.IH[OF run _ _ _ hold _ rest] dl later_trans[of f f1 f'] by (auto simp: insert_commute)
  qed
qed auto

end
