(* ===== verification/Blop_Publish.thy ===== *)
theory Blop_Publish
  imports Blop_Store
begin

section \<open>A store as five ordered maps (\<^verbatim>\<open>src/storage/store.rs\<close>)\<close>

text \<open>
  The invariant of a store and its refinement: whatever the page file, the proofs and the
  pending keys look like, a store behaves as five ordered maps with a published copy and a
  list of pinned copies. Every operation is atomic: it has its effect on the maps or none.
\<close>

subsection \<open>The invariant\<close>

definition store_ok :: "(bytes \<Rightarrow> u32) \<Rightarrow> store \<Rightarrow> (tree_id \<Rightarrow> entry list) \<Rightarrow> (tree_id \<Rightarrow> entry list) \<Rightarrow> bool" where
  "store_ok crc st live pub \<longleftrightarrow> good (st_pages st) \<and>
     roots_hold crc (pf_reader (st_pages st)) (st_roots st) live \<and>
     roots_hold crc (pf_reader (st_pages st)) (mf_roots (st_manifest st)) pub \<and>
     (\<forall>tree. root_valid crc (pf_reader (st_pages st)) (st_genesis st) (st_manifest st) tree) \<and>
     (\<forall>rv. st_runtime st = Some rv \<longrightarrow>
        runtime_ok crc (pf_reader (st_pages st)) (st_genesis st) (mf_checkpoint_sequence (st_manifest st)) live rv)"

text \<open>A view reads what it read when it was pinned; while the file is the same, the file still has it.\<close>

definition view_ok :: "(bytes \<Rightarrow> u32) \<Rightarrow> store \<Rightarrow> pinned \<Rightarrow> (tree_id \<Rightarrow> entry list) \<Rightarrow> bool" where
  "view_ok crc st v ents \<longleftrightarrow> (\<exists>f. pv_reader v = pf_reader f \<and> good f \<and> roots_hold crc (pf_reader f) (pv_roots v) ents \<and>
     proofs_ok crc (pf_reader f) (st_genesis st) (pv_validation v) \<and>
     (pv_file v = mf_page_file_id (st_manifest st) \<longrightarrow> later f (st_pages st)))"

lemma root_valid_later: "root_valid crc (pf_reader f) g m tree \<Longrightarrow> later f f' \<Longrightarrow> root_valid crc (pf_reader f') g m tree"
  unfolding root_valid_def using tree_holds_later by blast

lemma runtime_ok_later: "runtime_ok crc (pf_reader f) g cp ents rv \<Longrightarrow> later f f' \<Longrightarrow> runtime_ok crc (pf_reader f') g cp ents rv"
  unfolding runtime_ok_def using proofs_ok_later by blast

lemma store_ok_later:
  assumes "store_ok crc st live pub" "later (st_pages st) pages" "good pages"
  shows "store_ok crc (st\<lparr>st_pages := pages\<rparr>) live pub"
  using assms roots_hold_later[OF _ assms(2)] root_valid_later[OF _ assms(2)] runtime_ok_later[OF _ assms(2)]
  by (auto simp: store_ok_def)

lemma store_ok_poisoned [simp]: "store_ok crc (st\<lparr>st_poisoned := b\<rparr>) live pub \<longleftrightarrow> store_ok crc st live pub"
  by (simp add: store_ok_def)

text \<open>What keeps a view valid: the same genesis and, for the same file, later pages.\<close>

definition follows :: "store \<Rightarrow> store \<Rightarrow> bool" where
  "follows st st' \<longleftrightarrow> st_genesis st' = st_genesis st \<and>
     (mf_page_file_id (st_manifest st') = mf_page_file_id (st_manifest st) \<and> later (st_pages st) (st_pages st'))"

lemma view_ok_follows: "view_ok crc st v ents \<Longrightarrow> follows st st' \<Longrightarrow> view_ok crc st' v ents"
  unfolding view_ok_def follows_def using later_trans by (metis (no_types, lifting))

lemma view_ok_reads: "view_ok crc st v ents \<Longrightarrow> view_of (view_reads crc v) ents"
  unfolding view_ok_def by (metis roots_hold_view)

lemma store_view_ok: "store_ok crc st live pub \<Longrightarrow> view_ok crc st (store_view st) live"
  unfolding view_ok_def store_view_def pinned.simps
  by (rule exI[of _ "st_pages st"]) (auto simp: store_ok_def runtime_ok_def split: option.splits)

lemma checkpoint_view_ok: "store_ok crc st live pub \<Longrightarrow> view_ok crc st (checkpoint_view st) pub"
  unfolding view_ok_def checkpoint_view_def store_view_def pinned.simps
  by (rule exI[of _ "st_pages st"]) (auto simp: store_ok_def runtime_ok_def split: option.splits)

subsection \<open>Applying a batch\<close>

lemma store_apply_ok:
  assumes "store_ok crc st live pub" "store_apply crc changes st = (r, st')"
  shows "store_ok crc st' (if r = Inr () then fold upd_tree changes live else live) pub" "follows st st'"
    "r \<noteq> Inr () \<Longrightarrow> st_roots st' = st_roots st \<and> st_runtime st' = st_runtime st"
proof -
  have g: "good (st_pages st)" "roots_hold crc (pf_reader (st_pages st)) (st_roots st) live" using assms(1) by (simp_all add: store_ok_def)
  show "store_ok crc st' (if r = Inr () then fold upd_tree changes live else live) pub"
    using assms(2)
  proof (cases rule: store_apply_cases)
    case (failed e pages)
    note y = yieldsD[OF yields_apply_edits[OF g failed(2)] failed(4)]
    show ?thesis using store_ok_later[OF assms(1) y(2,1)] failed(3,5) by (simp add: store_ok_def)
  next
    case (applied roots pages)
    note y = yieldsD[OF yields_apply_edits[OF g applied(2)] applied(4)]
    have h: "roots_hold crc (pf_reader pages) roots (fold upd_tree changes live)" using y(3) by simp
    have "runtime_ok crc (pf_reader pages) (st_genesis st) (mf_checkpoint_sequence (st_manifest st)) (fold upd_tree changes live)
        (observe (st_roots st) roots changes (st_manifest st) (st_genesis st) rv)" if "st_runtime st = Some rv" for rv
      using assms(1) that by (intro observe_ok[OF _ g(2) applied(2) y(2) h]) (simp add: store_ok_def)
    then show ?thesis using store_ok_later[OF assms(1) y(2,1)] h applied(3,5) by (auto simp: store_ok_def)
  qed (use assms(1) in auto)
  show "follows st st'" using assms(2)
  proof (cases rule: store_apply_cases)
    case (failed e pages)
    then show ?thesis using yieldsD(2)[OF yields_apply_edits[OF g failed(2)] failed(4)] by (simp add: follows_def)
  next
    case (applied roots pages)
    then show ?thesis using yieldsD(2)[OF yields_apply_edits[OF g applied(2)] applied(4)] by (simp add: follows_def)
  qed (simp_all add: follows_def)
  show "st_roots st' = st_roots st \<and> st_runtime st' = st_runtime st" if "r \<noteq> Inr ()"
    using assms(2) that by (cases rule: store_apply_cases) auto
qed

lemma enable_runtime_cache_ok:
  assumes "store_ok crc st live pub"
  shows "store_ok crc (enable_runtime_cache st) live pub" "follows st (enable_runtime_cache st)"
proof -
  have "tracked (mf_checkpoint_sequence (st_manifest st)) live \<lparr>pd_keys = [], pd_bytes = 0\<rparr>" if e: "st_roots st = mf_roots (st_manifest st)"
  proof -
    have "\<not> mf_checkpoint_sequence (st_manifest st) < s" if t: "tree \<noteq> Cursors" "key \<in> fst ` set (live tree)" "entry_sequence tree key = Inr s" for tree key s
    proof -
      obtain ents maximum where v: "tree_holds crc (pf_reader (st_pages st)) tree (mf_roots (st_manifest st) ! tree_index tree) ents"
        "entries_valid (st_genesis st) tree maximum ents" "maximum \<le> mf_checkpoint_sequence (st_manifest st)"
        using assms t(1) by (auto simp: store_ok_def root_valid_def)
      have "tree_holds crc (pf_reader (st_pages st)) tree (st_roots st ! tree_index tree) (live tree)" using assms by (simp add: store_ok_def roots_hold_def)
      from tree_holds_unique[OF this v(1)[folded e]] have "live tree = ents" .
      then show ?thesis using v(2,3) t(2,3) by (auto simp: entries_valid_def list_all_iff entry_valid_def)
    qed
    then show ?thesis by (auto simp: tracked_def)
  qed
  then have "runtime_ok crc (pf_reader (st_pages st)) (st_genesis st) (mf_checkpoint_sequence (st_manifest st)) live
      (runtime_new (st_roots st = mf_roots (st_manifest st)))"
    by (auto simp: runtime_ok_def runtime_new_def pending_ok_def)
  then show "store_ok crc (enable_runtime_cache st) live pub" using assms by (auto simp: enable_runtime_cache_def store_ok_def)
  show "follows st (enable_runtime_cache st)" by (simp add: follows_def enable_runtime_cache_def)
qed

subsection \<open>Preparing a checkpoint\<close>

lemma map_of_filter_key: "map_of (filter (\<lambda>e. P (fst e)) ents) k = (if P k then map_of ents k else None)"
  by (induction ents) auto

lemma entry_sequence_initial: "entry_sequence Policy (u64_be 0) = Inr 0"
  by (simp add: entry_sequence_def system_sequence_def)

lemma entries_valid_up_to:
  assumes "entries_valid g tree maximum ents"
  shows "entries_valid g tree (min maximum sequence) (filter (up_to sequence tree) ents)"
proof -
  have "map_of (filter (up_to sequence Policy) ents) (u64_be 0) = map_of ents (u64_be 0)"
    using map_of_filter_key[of "\<lambda>k. case entry_sequence Policy k of Inr s \<Rightarrow> s \<le> sequence | Inl _ \<Rightarrow> False" ents "u64_be 0"]
    by (simp add: up_to_def[abs_def] entry_sequence_initial)
  moreover have "entry_valid tree (min maximum sequence) e" if "entry_valid tree maximum e" "up_to sequence tree e" for e
    using that by (auto simp: entry_valid_def up_to_def)
  ultimately show ?thesis using assms by (auto simp: entries_valid_def initial_ok_def list_all_iff)
qed

lemma filtered_logical: "filtered sequence (set (take 4 TREES)) ents = checkpoint_entries sequence ents"
proof
  fix tree
  show "filtered sequence (set (take 4 TREES)) ents tree = checkpoint_entries sequence ents tree"
    by (cases tree) (simp_all add: filtered_def checkpoint_entries_def TREES_def)
qed

lemma prepare_by_scan_ok:
  assumes "store_ok crc st live pub" "\<not> st_poisoned st" "prepare_by_scan crc sequence st = (r, st')"
  shows "store_ok crc st' live pub \<and> follows st st' \<and> st_roots st' = st_roots st \<and>
    (\<forall>v. r = Inr v \<longrightarrow> view_ok crc st' v (checkpoint_entries sequence live))"
proof -
  have g: "good (st_pages st)" "roots_hold crc (pf_reader (st_pages st)) (st_roots st) live" using assms(1) by (simp_all add: store_ok_def)
  obtain q pages where f: "filter_trees crc sequence (pf_reader (st_pages st)) (take 4 TREES) (st_roots st) (st_pages st) = (q, pages)" by force
  have "roots_hold crc (pf_reader (st_pages st)) (st_roots st) (filtered sequence {} live)" using g(2) by (simp add: filtered_def[abs_def])
  from filter_trees_spec[OF g(2) f g(1) later_refl _ this]
  have s: "good pages" "later (st_pages st) pages" "\<And>roots. q = Inr roots \<Longrightarrow> roots_hold crc (pf_reader pages) roots (checkpoint_entries sequence live)"
    by (auto simp: filtered_logical) (simp_all add: TREES_def)
  note ok = store_ok_later[OF assms(1) s(2,1)]
  show ?thesis
  proof (cases q)
    case (Inl x)
    then have "st' = st\<lparr>st_pages := pages, st_poisoned := fst x\<rparr>" "r = Inl (snd x)"
      using assms(3) f by (auto simp: prepare_by_scan_def store_view_def split: prod.splits)
    then show ?thesis using ok s(2) by (simp add: follows_def store_ok_def)
  next
    case (Inr roots)
    then have st': "st' = st\<lparr>st_pages := pages\<rparr>" "r = Inr ((store_view st')\<lparr>pv_roots := roots\<rparr>)"
      using assms(3) f by (auto simp: prepare_by_scan_def store_view_def Let_def)
    have "view_ok crc st' ((store_view st')\<lparr>pv_roots := roots\<rparr>) (checkpoint_entries sequence live)"
      using store_view_ok[OF ok] s(3)[OF Inr] s(1) unfolding view_ok_def st'(1) store_view_def
      by (intro exI[of _ pages]) (auto split: option.splits)
    then show ?thesis using ok s(2) st' by (simp add: follows_def)
  qed
qed

lemma proofs_match_entries:
  assumes "proofs_match proofs roots" "proofs_ok crc r g proofs" "roots_hold crc r roots ents" "tree \<noteq> Cursors"
  obtains p where "proofs ! tree_index tree = Some p" "entries_valid g tree (vt_sequence p) (ents tree)"
proof -
  have "tree_index tree < 4" using assms(4) by (simp add: tree_index_logical)
  then have "case proofs ! tree_index tree of None \<Rightarrow> False | Some p \<Rightarrow> vt_root p = roots ! tree_index tree"
    using assms(1) by (simp add: proofs_match_def)
  then obtain p where p: "proofs ! tree_index tree = Some p" "vt_root p = roots ! tree_index tree"
    by (cases "proofs ! tree_index tree") simp_all
  have "proof_ok crc r g tree p" using assms(2,4) p(1) by (simp add: proofs_ok_def)
  moreover have "tree_holds crc r tree (vt_root p) (ents tree)" using assms(3) p(2) by (simp add: roots_hold_def)
  ultimately show thesis using that[OF p(1)] proof_of_root by blast
qed

lemma view_ok_prepared:
  assumes "good (st_pages st)" "roots_hold crc (pf_reader (st_pages st)) roots ents" "proofs_ok crc (pf_reader (st_pages st)) (st_genesis st) val"
  shows "view_ok crc st ((store_view st)\<lparr>pv_roots := roots, pv_validation := val\<rparr>) ents"
  using assms unfolding view_ok_def store_view_def by (intro exI[of _ "st_pages st"]) simp

lemma prepare_pending_ok:
  assumes "store_ok crc st live pub" "st_runtime st = Some rv" "rv_pending rv = Some pd" "proofs_match (rv_live rv) (st_roots st)"
    "mf_checkpoint_sequence (st_manifest st) \<le> sequence"
    "delete_pending crc sequence (pd_keys pd) (st_roots st) (st_pages st) = (q, pages)"
  shows "store_ok crc (st\<lparr>st_pages := pages\<rparr>) live pub" "follows st (st\<lparr>st_pages := pages\<rparr>)"
    "q = Inr roots \<Longrightarrow> view_ok crc (st\<lparr>st_pages := pages\<rparr>) ((store_view (st\<lparr>st_pages := pages\<rparr>))\<lparr>pv_roots := roots,
       pv_validation := map (\<lambda>index. map_option (\<lambda>p. \<lparr>vt_root = roots ! index, vt_sequence = min (vt_sequence p) sequence\<rparr>)
         (rv_live rv ! index)) [0..<4]\<rparr>) (checkpoint_entries sequence live)"
proof -
  let ?r = "pf_reader (st_pages st)" let ?g = "st_genesis st"
  define val where "val = map (\<lambda>index. map_option (\<lambda>p. \<lparr>vt_root = roots ! index, vt_sequence = min (vt_sequence p) sequence\<rparr>)
         (rv_live rv ! index)) [0..<4]"
  have g: "good (st_pages st)" "roots_hold crc ?r (st_roots st) live" and rt: "runtime_ok crc ?r ?g (mf_checkpoint_sequence (st_manifest st)) live rv"
    using assms(1,2) by (simp_all add: store_ok_def)
  have t: "tracked (mf_checkpoint_sequence (st_manifest st)) live pd" and proofs: "proofs_ok crc ?r ?g (rv_live rv)"
    using rt assms(3) by (simp_all add: runtime_ok_def pending_ok_def)
  note match = proofs_match_entries[OF assms(4) proofs g(2)]
  have "list_all pending_key_ok (pd_keys pd)" using t by (simp add: tracked_def)
  note y = yieldsD[OF yields_delete_pending[OF g this] assms(6)]
  show ok: "store_ok crc (st\<lparr>st_pages := pages\<rparr>) live pub" by (rule store_ok_later[OF assms(1) y(2,1)])
  show "follows st (st\<lparr>st_pages := pages\<rparr>)" using y(2) by (simp add: follows_def)
  assume q: "q = Inr roots"
  have "drop_keys (above_keys sequence (pd_keys pd) tree) (live tree) = checkpoint_entries sequence live tree" for tree
  proof (rule pending_entries[OF t assms(5)])
    assume "tree \<noteq> Cursors"
    from match[OF this] obtain p where "rv_live rv ! tree_index tree = Some p" "entries_valid ?g tree (vt_sequence p) (live tree)" .
    then show "list_all (\<lambda>e. is_ok (entry_sequence tree (fst e))) (live tree)"
      by (auto simp: entries_valid_def list_all_iff entry_valid_def is_ok_iff)
  qed
  then have hold: "roots_hold crc (pf_reader pages) roots (checkpoint_entries sequence live)" using y(3)[OF q] by simp
  have "proofs_ok crc (pf_reader pages) ?g val" unfolding proofs_ok_def
  proof (intro conjI allI impI)
    fix tree p
    assume c: "tree \<noteq> Cursors" and m: "val ! tree_index tree = Some p"
    from match[OF c] obtain p0 where p0: "rv_live rv ! tree_index tree = Some p0" "entries_valid ?g tree (vt_sequence p0) (live tree)" .
    have "tree_index tree < 4" using c by (simp add: tree_index_logical)
    then have p: "p = \<lparr>vt_root = roots ! tree_index tree, vt_sequence = min (vt_sequence p0) sequence\<rparr>" using m p0(1) by (simp add: val_def)
    have "tree_holds crc (pf_reader pages) tree (vt_root p) (filter (up_to sequence tree) (live tree))"
      using hold unfolding roots_hold_def p checkpoint_entries_def validated_tree.simps by (auto dest: spec[of _ tree] simp: c)
    then show "proof_ok crc (pf_reader pages) ?g tree p"
      using entries_valid_up_to[OF p0(2), of sequence] unfolding proof_ok_def p by auto
  qed (simp add: val_def)
  then have "proofs_ok crc (pf_reader (st_pages (st\<lparr>st_pages := pages\<rparr>))) (st_genesis (st\<lparr>st_pages := pages\<rparr>)) val" by simp
  with hold y(1) have "view_ok crc (st\<lparr>st_pages := pages\<rparr>) ((store_view (st\<lparr>st_pages := pages\<rparr>))\<lparr>pv_roots := roots, pv_validation := val\<rparr>)
      (checkpoint_entries sequence live)" by (intro view_ok_prepared) simp_all
  then show "view_ok crc (st\<lparr>st_pages := pages\<rparr>) ((store_view (st\<lparr>st_pages := pages\<rparr>))\<lparr>pv_roots := roots,
       pv_validation := map (\<lambda>index. map_option (\<lambda>p. \<lparr>vt_root = roots ! index, vt_sequence = min (vt_sequence p) sequence\<rparr>)
         (rv_live rv ! index)) [0..<4]\<rparr>) (checkpoint_entries sequence live)" unfolding val_def .
qed

lemma prepare_checkpoint_ok:
  assumes "store_ok crc st live pub" "prepare_checkpoint crc sequence st = (r, st')"
  shows "store_ok crc st' live pub \<and> follows st st' \<and> st_roots st' = st_roots st \<and>
    (\<forall>v. r = Inr v \<longrightarrow> view_ok crc st' v (checkpoint_entries sequence live))"
proof (cases "st_poisoned st \<or> sequence < mf_checkpoint_sequence (st_manifest st) \<or> sequence = - 1")
  case True
  then have "\<exists>e. prepare_checkpoint crc sequence st = (Inl e, st)"
    by (cases "st_poisoned st") (simp_all add: prepare_checkpoint_def writable_def)
  then show ?thesis using assms by (auto simp: follows_def)
next
  case w: False
  show ?thesis
  proof (cases "\<exists>rv pd. st_runtime st = Some rv \<and> rv_pending rv = Some pd \<and> proofs_match (rv_live rv) (st_roots st)")
    case True
    then obtain rv pd where rv: "st_runtime st = Some rv" "rv_pending rv = Some pd" "proofs_match (rv_live rv) (st_roots st)" by blast
    obtain q pages where d: "delete_pending crc sequence (pd_keys pd) (st_roots st) (st_pages st) = (q, pages)" by force
    have "mf_checkpoint_sequence (st_manifest st) \<le> sequence" using w by (simp add: not_less)
    note p = prepare_pending_ok[OF assms(1) rv this d]
    have run: "(r, st') = (case q of Inl e \<Rightarrow> (Inl e, st\<lparr>st_pages := pages, st_poisoned := True\<rparr>)
        | Inr roots \<Rightarrow> (Inr ((store_view (st\<lparr>st_pages := pages\<rparr>))\<lparr>pv_roots := roots,
            pv_validation := map (\<lambda>index. map_option (\<lambda>p. \<lparr>vt_root = roots ! index, vt_sequence = min (vt_sequence p) sequence\<rparr>)
              (rv_live rv ! index)) [0..<4]\<rparr>), st\<lparr>st_pages := pages\<rparr>))"
      unfolding assms(2)[symmetric] prepare_checkpoint_def using w rv d by (simp add: writable_def store_view_def Let_def split: sum.splits)
    show ?thesis
    proof (cases q)
      case (Inl e)
      then show ?thesis using run p(1,2) by (simp add: store_ok_def follows_def)
    next
      case (Inr roots)
      then show ?thesis using run p(1,2) p(3)[OF Inr] by simp
    qed
  next
    case False
    then have "prepare_checkpoint crc sequence st = prepare_by_scan crc sequence st"
      using w by (auto simp: prepare_checkpoint_def writable_def store_view_def Let_def split: option.splits)
    then have "prepare_by_scan crc sequence st = (r, st')" using assms(2) by simp
    from prepare_by_scan_ok[OF assms(1) _ this] w show ?thesis by blast
  qed
qed

subsection \<open>Publishing\<close>

lemma publish_check_Inr:
  assumes "publish_check crc io v m st = Inr (n, proofs)"
  shows "\<not> st_poisoned st" "pv_file v = mf_page_file_id (st_manifest st)" "validate_transition (st_manifest st) m = Inr ()"
    "mf_roots n = pv_roots v" "mf_checkpoint_sequence n = mf_checkpoint_sequence m" "mf_page_file_id n = mf_page_file_id m"
    "next_generation (io_exists io) (mf_generation (st_manifest st)) = Inr (mf_generation n)" "is_ok (manifest_encode crc n)"
    "checkpoint_validate crc (pv_reader v) n (st_genesis st) (if st_runtime st \<noteq> None then pv_validation v else replicate 4 None) = Inr proofs"
    "io_logs io n = Inr ()" "pv_roots v ! 4 = st_roots st ! 4"
  using assms by (auto simp: publish_check_def writable_def Let_def rbind_eq_Inr is_ok_iff split: if_splits)

lemma validate_transition_Inr:
  assumes "validate_transition old new = Inr ()"
  shows "mf_checkpoint_sequence old \<le> mf_checkpoint_sequence new" "mf_durable_sequence old \<le> mf_durable_sequence new"
    "mf_history_floor old \<le> mf_history_floor new" "mf_log_floor old \<le> mf_log_floor new"
    "mf_page_file_id new = mf_page_file_id old" "mf_database_id new = mf_database_id old"
    "mf_durable_sequence new = mf_durable_sequence old \<Longrightarrow> mf_durable_digest new = mf_durable_digest old"
  using assms by (auto simp: validate_transition_def not_less split: if_splits)

lemma next_generation_fresh:
  "next_generation taken generation = Inr n \<Longrightarrow> generation < n \<and> n \<noteq> - 1 \<and> taken n = Inr False"
proof (induction taken generation rule: next_generation.induct)
  case (1 taken generation)
  have step: "generation < generation + 1" if "generation \<noteq> - 1"
  proof -
    have "unat (1 + generation) = Suc (unat generation)" using that by (intro unatSuc) (metis add.commute add_eq_0_iff)
    then show ?thesis by (simp add: word_less_nat_alt add.commute)
  qed
  from "1.prems" obtain exists where n: "generation \<noteq> - 1" "generation + 1 \<noteq> - 1" "taken (generation + 1) = Inr exists"
    "(if exists then next_generation taken (generation + 1) else Inr (generation + 1)) = Inr n"
    by (subst (asm) next_generation.simps) (auto simp: rbind_eq_Inr split: if_splits)
  show ?case
  proof (cases exists)
    case True
    then show ?thesis using "1.IH"[of exists] n step order.strict_trans by auto
  next
    case False
    then show ?thesis using n step by auto
  qed
qed

lemma filter_pending:
  assumes "tracked a ents pd" "a \<le> b"
  shows "tracked b ents \<lparr>pd_keys = filter (\<lambda>e. snd e > b) (pd_keys pd),
    pd_bytes = sum_list (map (\<lambda>e. length (snd (fst e)) + 96) (filter (\<lambda>e. snd e > b) (pd_keys pd)))\<rparr>"
proof -
  have "pending_size (filter P keys) \<le> pending_size keys" for P keys by (induction keys) simp_all
  then have "pending_size (filter (\<lambda>e. snd e > b) (pd_keys pd)) \<le> pd_bytes pd" "pd_bytes pd \<le> 1024 * 1024"
    using assms(1) by (simp_all add: tracked_def)
  from order_trans[OF this] show ?thesis using assms unfolding tracked_def
    by (auto simp: pending_size_def[symmetric] list_all_iff distinct_map_filter)
qed

lemma live_is_published:
  assumes "take 4 roots = take 4 (mf_roots m)" "roots_hold crc r roots ents" "\<And>tree. root_valid crc r g m tree" "length (mf_roots m) = 5"
  shows "tracked (mf_checkpoint_sequence m) ents \<lparr>pd_keys = [], pd_bytes = 0\<rparr>"
proof -
  have "\<not> mf_checkpoint_sequence m < s" if t: "tree \<noteq> Cursors" "key \<in> fst ` set (ents tree)" "entry_sequence tree key = Inr s" for tree key s
  proof -
    obtain xs maximum where v: "tree_holds crc r tree (mf_roots m ! tree_index tree) xs"
      "entries_valid g tree maximum xs" "maximum \<le> mf_checkpoint_sequence m"
      using assms(3)[of tree] t(1) by (auto simp: root_valid_def)
    have "tree_index tree < 4" using t(1) by (simp add: tree_index_logical)
    then have e: "roots ! tree_index tree = mf_roots m ! tree_index tree" using assms(1) by (metis nth_take)
    have "tree_holds crc r tree (roots ! tree_index tree) (ents tree)" using assms(2) by (simp add: roots_hold_def)
    from tree_holds_unique[OF this v(1)[folded e]] have "ents tree = xs" .
    then show ?thesis using v(2,3) t(2,3) by (auto simp: entries_valid_def list_all_iff entry_valid_def)
  qed
  then show ?thesis by (auto simp: tracked_def)
qed

lemma published_ok:
  assumes "runtime_ok crc r g checkpoint ents rv" "proofs_ok crc r g proofs" "roots_hold crc r roots ents"
    "\<And>tree. root_valid crc r g m tree" "length (mf_roots m) = 5" "checkpoint \<le> mf_checkpoint_sequence m"
  shows "runtime_ok crc r g (mf_checkpoint_sequence m) ents (published roots m proofs rv)"
proof -
  let ?live = "map (\<lambda>index. if roots ! index = mf_roots m ! index then proofs ! index else rv_live rv ! index) [0..<4]"
  have "proofs_ok crc r g ?live" unfolding proofs_ok_def
  proof (intro conjI allI impI)
    fix tree p
    assume t: "tree \<noteq> Cursors" "?live ! tree_index tree = Some p"
    then have "tree_index tree < 4" by (simp add: tree_index_logical)
    then have "proofs ! tree_index tree = Some p \<or> rv_live rv ! tree_index tree = Some p" using t(2) by (auto split: if_splits)
    then show "proof_ok crc r g tree p" using assms(1,2) t(1) by (auto simp: runtime_ok_def proofs_ok_def)
  qed simp
  moreover have "pending_ok (mf_checkpoint_sequence m) ents (rv_pending (published roots m proofs rv))"
  proof (cases "rv_pending rv")
    case None
    then show ?thesis using live_is_published[OF _ assms(3,4,5)] by (auto simp: published_def pending_ok_def)
  next
    case (Some pd)
    then have "tracked checkpoint ents pd" using assms(1) by (simp add: runtime_ok_def pending_ok_def)
    from filter_pending[OF this assms(6)] Some show ?thesis by (simp add: published_def pending_ok_def Let_def)
  qed
  ultimately show ?thesis using assms(2) by (simp add: runtime_ok_def published_def del: upt_rec_numeral)
qed

lemma publish_cases:
  assumes "publish crc sha io v m st = (r, st')"
  obtains (refused) e where "r = Inl e" "st' = st"
  | (failed) e n proofs where "r = Inl e" "publish_check crc io v m st = Inr (n, proofs)" "st' = st\<lparr>st_poisoned := True\<rparr>"
  | (published) n proofs where "r = Inr ()" "publish_check crc io v m st = Inr (n, proofs)" "publish_files crc sha io n = Inr ()"
      "st' = st\<lparr>st_runtime := map_option (published (st_roots st) n proofs) (st_runtime st), st_selected := n, st_manifest := n\<rparr>"
proof (cases "publish_check crc io v m st")
  case (Inl e)
  then show thesis using assms refused[of e] by (simp add: publish_def)
next
  case (Inr np)
  obtain n proofs where np: "np = (n, proofs)" by force
  show thesis
  proof (cases "publish_files crc sha io n")
    case (Inl e)
    then show thesis using assms Inr np failed[of e n proofs] by (simp add: publish_def)
  next
    case i: (Inr u)
    then show thesis using assms Inr np published[of n proofs] by (simp add: publish_def)
  qed
qed

lemma publish_ok:
  assumes "store_ok crc st live pub" "view_ok crc st v ents" "publish crc sha io v m st = (r, st')"
  shows "store_ok crc st' live (if r = Inr () then ents else pub) \<and> follows st st' \<and> st_roots st' = st_roots st"
  using assms(3)
proof (cases rule: publish_cases)
  case (published n proofs)
  note c = publish_check_Inr[OF published(2)]
  note mono = validate_transition_Inr[OF c(3)]
  from assms(2) c(2) obtain f where f: "pv_reader v = pf_reader f" "roots_hold crc (pf_reader f) (pv_roots v) ents"
    "proofs_ok crc (pf_reader f) (st_genesis st) (pv_validation v)" "later f (st_pages st)" by (auto simp: view_ok_def)
  have p: "proofs_ok crc (pf_reader f) (st_genesis st) (if st_runtime st \<noteq> None then pv_validation v else replicate 4 None)" using f(3) by simp
  note valid = checkpoint_validate_ok[OF c(9)[unfolded f(1)] p]
  have root: "root_valid crc (pf_reader (st_pages st)) (st_genesis st) n tree" for tree by (rule root_valid_later[OF valid(2) f(4)])
  have pub: "roots_hold crc (pf_reader (st_pages st)) (mf_roots n) ents" unfolding c(4) by (rule roots_hold_later[OF f(2,4)])
  have live: "roots_hold crc (pf_reader (st_pages st)) (st_roots st) live" "good (st_pages st)" using assms(1) by (simp_all add: store_ok_def)
  have "runtime_ok crc (pf_reader (st_pages st)) (st_genesis st) (mf_checkpoint_sequence n) live (Blop_Store.published (st_roots st) n proofs rv)"
    if "st_runtime st = Some rv" for rv
    using that assms(1) mono(1) c(5) pub root
    by (intro published_ok[OF _ proofs_ok_later[OF valid(1) f(4)] live(1)]) (auto simp: store_ok_def roots_hold_def)
  then show ?thesis using live pub root published(1,4) mono(5) c(6) by (auto simp: store_ok_def follows_def)
qed (use assms(1) in \<open>auto simp: follows_def\<close>)

lemma renew_namespace_ok:
  assumes "store_ok crc st live pub" "renew_namespace crc sha io namespace st = (r, st')"
  shows "store_ok crc st' live pub \<and> follows st st' \<and> st_roots st' = st_roots st"
proof -
  have "st' = st \<or> st' = st\<lparr>st_poisoned := True\<rparr> \<or>
    (\<exists>generation. let m = (st_manifest st)\<lparr>mf_cursor_namespace := namespace, mf_generation := generation\<rparr> in st' = st\<lparr>st_selected := m, st_manifest := m\<rparr>)"
    using assms(2) unfolding renew_namespace_def by (auto simp: Let_def split: sum.splits)
  then show ?thesis using assms(1) by (auto simp: Let_def store_ok_def follows_def root_valid_def)
qed

lemma adopt_check_Inr:
  assumes "adopt_check crc io v m pages source_roots st = Inr n"
  shows "mf_roots n = pv_roots v"
    "\<exists>proofs. checkpoint_validate crc (pv_reader v) n (st_genesis st) (replicate 4 None) = Inr proofs"
    "pv_file v = mf_page_file_id n" "pages = None \<Longrightarrow> mf_page_file_id n = mf_page_file_id (st_manifest st)"
  using assms by (auto simp: adopt_check_def writable_def Let_def rbind_eq_Inr split: if_splits option.splits)

lemma runtime_new_ok:
  assumes "roots_hold crc r (mf_roots m) ents" "\<And>tree. root_valid crc r g m tree"
  shows "runtime_ok crc r g (mf_checkpoint_sequence m) ents (runtime_new True)"
  using live_is_published[OF refl assms] assms(1) by (simp add: runtime_ok_def runtime_new_def pending_ok_def roots_hold_def)

lemma adopt_ok:
  assumes "store_ok crc st live pub" "pv_reader v = pf_reader f" "roots_hold crc (pf_reader f) (pv_roots v) ents"
    "pv_file v = mf_page_file_id m \<Longrightarrow> later f (case pages of Some p \<Rightarrow> p | None \<Rightarrow> st_pages st)" "\<And>p. pages = Some p \<Longrightarrow> good p"
    "adopt crc sha io v m pages source_roots st = (r, st')"
  shows "(if r = Inr () then store_ok crc st' ents ents else store_ok crc st' live pub) \<and> (pages = None \<longrightarrow> follows st st')"
proof (cases "adopt_check crc io v m pages source_roots st")
  case (Inl e)
  then have "r = Inl e" "st' = st" using assms(6) by (simp_all add: adopt_def)
  then show ?thesis using assms(1) by (simp add: follows_def)
next
  case (Inr n)
  note c = adopt_check_Inr[OF Inr]
  show ?thesis
  proof (cases "publish_files crc sha io n")
    case (Inl e)
    then have "r = Inl e" "st' = st\<lparr>st_poisoned := True\<rparr>" using assms(6) Inr by (simp_all add: adopt_def)
    then show ?thesis using assms(1) by (simp add: follows_def)
  next
    case i: (Inr u)
    let ?p = "case pages of Some p \<Rightarrow> p | None \<Rightarrow> st_pages st"
    have st': "r = Inr ()" "st' = st\<lparr>st_pages := ?p, st_roots := mf_roots n, st_selected := n, st_manifest := n,
        st_runtime := map_option (\<lambda>_. runtime_new True) (st_runtime st)\<rparr>"
      using assms(6) Inr i by (simp_all add: adopt_def)
    have "mf_page_file_id n = mf_page_file_id m" using Inr by (auto simp: adopt_check_def Let_def rbind_eq_Inr split: if_splits)
    then have l: "later f ?p" using assms(4) c(3) by simp
    from c(2) obtain proofs where "checkpoint_validate crc (pf_reader f) n (st_genesis st) (replicate 4 None) = Inr proofs" unfolding assms(2) by blast
    from root_valid_later[OF checkpoint_validate_ok(2)[OF this proofs_ok_none] l]
    have valid: "root_valid crc (pf_reader ?p) (st_genesis st) n tree" for tree .
    have hold: "roots_hold crc (pf_reader ?p) (mf_roots n) ents" unfolding c(1) by (rule roots_hold_later[OF assms(3) l])
    have good: "good ?p" using assms(1,5) by (auto simp: store_ok_def split: option.splits)
    show ?thesis using hold valid good st' c(4) runtime_new_ok[OF hold valid] by (auto simp: store_ok_def follows_def)
  qed
qed

subsection \<open>Creation and opening\<close>

lemma truncate_tail_ok:
  assumes "file_ok f" "truncate_tail f = (r, f')"
  shows "file_ok f' \<and> later f f'"
proof -
  let ?n = "unat (pr_count (pf_reader f)) * PAGE_SIZE"
  have n: "?n \<le> length (of_data (pr_file (pf_reader f)))" using assms(1) by (simp add: file_ok_def)
  have page: "take PAGE_SIZE (drop (unat i * PAGE_SIZE) (take ?n bs)) = take PAGE_SIZE (drop (unat i * PAGE_SIZE) bs)"
    if "i < pr_count (pf_reader f)" for i and bs :: bytes
    using page_offset[OF that] by (simp add: drop_take min_absorb1)
  consider "f' = f" | "f' = f\<lparr>pf_poisoned := True\<rparr>"
    | "f' = f\<lparr>pf_next := pr_count (pf_reader f), pf_reader := (pf_reader f)\<lparr>pr_file := (pr_file (pf_reader f))
        \<lparr>of_data := take ?n (of_data (pr_file (pf_reader f)))\<rparr>\<rparr>\<rparr>"
    using assms(2) n by (auto simp: truncate_tail_def Let_def split: if_splits option.splits)
  then show ?thesis
  proof cases
    case 3
    then show ?thesis using assms(1) n page by (simp add: file_ok_def later_def page_at_def)
  qed (use assms(1) in \<open>simp_all add: file_ok_def later_def\<close>)
qed

text \<open>The recovery of the log's tail extends the log; it does not change the checkpoint.\<close>

definition recovery_keeps :: "directory \<Rightarrow> bool" where
  "recovery_keeps d \<longleftrightarrow> (\<forall>m m'. dr_recover d m = Inr m' \<longrightarrow> mf_roots m' = mf_roots m \<and>
     mf_checkpoint_sequence m' = mf_checkpoint_sequence m \<and> mf_page_file_id m' = mf_page_file_id m)"

definition pages_readable :: "directory \<Rightarrow> bool" where
  "pages_readable d \<longleftrightarrow> (\<forall>i file. dr_pages d i = Inr file \<longrightarrow> length (of_data file) < 2 ^ 64 \<and> (\<forall>page. of_read file page = None))"

lemma root_valid_holds: "(\<And>tree. root_valid crc r g m tree) \<Longrightarrow> length (mf_roots m) = 5 \<Longrightarrow> \<exists>ents. roots_hold crc r (mf_roots m) ents"
  unfolding root_valid_def roots_hold_def by metis

lemma manifest_decode_roots: "manifest_decode crc bs = Inr m \<Longrightarrow> length (mf_roots m) = 5"
  by (auto simp: manifest_decode_def Let_def rbind_eq_Inr split: if_splits)

lemma open_directory_Inr:
  assumes "open_directory crc sha attaching d = Inr st"
  obtains osf pages proofs u where "select_manifest crc sha d = Inr (st_selected st, st_genesis st)"
    "dr_pages d (mf_page_file_id (st_selected st)) = Inr osf"
    "pf_open crc osf (mf_database_id (st_selected st)) (mf_page_file_id (st_selected st)) (mf_page_count (st_selected st)) = Inr pages"
    "checkpoint_validate crc (pf_reader pages) (st_selected st) (st_genesis st) (replicate 4 None) = Inr proofs"
    "dr_recover d (st_selected st) = Inr (st_manifest st)" "truncate_tail pages = (Inr u, st_pages st)"
    "st_roots st = mf_roots (st_manifest st)" "st_runtime st = None" "\<not> st_poisoned st"
proof -
  from assms obtain m g osf pages proofs recovered where o: "select_manifest crc sha d = Inr (m, g)" "dr_pages d (mf_page_file_id m) = Inr osf"
    "pf_open crc osf (mf_database_id m) (mf_page_file_id m) (mf_page_count m) = Inr pages"
    "checkpoint_validate crc (pf_reader pages) m g (replicate 4 None) = Inr proofs" "dr_recover d m = Inr recovered"
    "(let (r, pages) = truncate_tail pages in rbind r (\<lambda>_.
       Inr \<lparr>st_pages = pages, st_genesis = g, st_manifest = recovered, st_selected = m, st_roots = mf_roots recovered,
        st_poisoned = False, st_rotate_next = True, st_read_only = dr_read_only d, st_runtime = None\<rparr>)) = Inr st"
    unfolding open_directory_def rbind_eq_Inr by (auto simp: rbind_eq_Inr split: if_splits)
  obtain q after where t: "truncate_tail pages = (q, after)" by force
  then obtain u where "q = Inr u" "st = \<lparr>st_pages = after, st_genesis = g, st_manifest = recovered, st_selected = m, st_roots = mf_roots recovered,
        st_poisoned = False, st_rotate_next = True, st_read_only = dr_read_only d, st_runtime = None\<rparr>"
    using o(6) by (auto simp: rbind_eq_Inr)
  then show thesis using that[of osf pages proofs u] o t by simp
qed

lemma open_directory_ok:
  assumes "open_directory crc sha attaching d = Inr st" "recovery_keeps d" "pages_readable d"
  obtains ents where "store_ok crc st ents ents"
  using assms(1)
proof (rule open_directory_Inr)
  fix osf pages proofs u
  assume o: "select_manifest crc sha d = Inr (st_selected st, st_genesis st)" "dr_pages d (mf_page_file_id (st_selected st)) = Inr osf"
    "pf_open crc osf (mf_database_id (st_selected st)) (mf_page_file_id (st_selected st)) (mf_page_count (st_selected st)) = Inr pages"
    "checkpoint_validate crc (pf_reader pages) (st_selected st) (st_genesis st) (replicate 4 None) = Inr proofs"
    "dr_recover d (st_selected st) = Inr (st_manifest st)" "truncate_tail pages = (Inr u, st_pages st)"
    "st_roots st = mf_roots (st_manifest st)" "st_runtime st = None"
  have fl: "length (of_data osf) < 2 ^ 64" "\<And>page. of_read osf page = None" using assms(3) o(2) by (auto simp: pages_readable_def)
  have keeps: "mf_roots (st_manifest st) = mf_roots (st_selected st)" "mf_checkpoint_sequence (st_manifest st) = mf_checkpoint_sequence (st_selected st)"
    using assms(2) o(5) by (auto simp: recovery_keeps_def)
  note t = truncate_tail_ok[OF pf_open_ok(1)[OF o(3) fl(1)] o(6)]
  have "pr_file (pf_reader pages) = osf" using o(3) by (auto simp: pf_open_def Let_def rbind_eq_Inr split: if_splits)
  then have "readable (st_pages st)" using t fl(2) by (simp add: readable_def later_def)
  then have good: "good (st_pages st)" using t by (simp add: good_def)
  have valid: "root_valid crc (pf_reader (st_pages st)) (st_genesis st) (st_manifest st) tree" for tree
    using root_valid_later[OF checkpoint_validate_ok(2)[OF o(4) proofs_ok_none]] t keeps by (simp add: root_valid_def)
  have "length (mf_roots (st_manifest st)) = 5"
    using o(1) manifest_decode_roots keeps by (auto simp: select_manifest_def rbind_eq_Inr split: if_splits)
  from root_valid_holds[OF valid this] obtain ents where "roots_hold crc (pf_reader (st_pages st)) (mf_roots (st_manifest st)) ents" by blast
  then show thesis using that[of ents] good valid o(7,8) by (simp add: store_ok_def)
qed

definition created_entries :: "genesis \<Rightarrow> tree_id \<Rightarrow> entry list" where
  "created_entries g = (\<lambda>_. [])(Policy := [(u64_be 0, policy_encode (gn_initial_policy g))])"

lemma created_valid:
  assumes "policy_ok (gn_initial_policy g)"
  shows "entries_valid g tree 0 (created_entries g tree)"
proof -
  have "policy_decode (policy_encode (gn_initial_policy g)) = Inr (gn_initial_policy g)" using assms policy_decode_exact by simp
  then show ?thesis
    by (simp add: entries_valid_def created_entries_def entry_valid_def initial_ok_def entry_sequence_initial valid_value_def)
qed

lemma store_create_ok:
  assumes "store_create crc sha io osf g namespace = Inr st" "policy_ok (gn_initial_policy g)" "length (gn_database_id g) = 16"
    "\<forall>i. of_read osf i = None"
  shows "store_ok crc st (created_entries g) (created_entries g)" "st_genesis st = g" "mf_checkpoint_sequence (st_manifest st) = 0"
proof -
  let ?policy = "policy_encode (gn_initial_policy g)"
  obtain pages0 where p0: "pf_create crc osf (gn_database_id g) 1 = Inr pages0"
    using assms(1) by (auto simp: store_create_def rbind_eq_Inr split: if_splits)
  obtain q pages where "tree_put crc Policy 0 (u64_be 0) ?policy pages0 = (q, pages)" by force
  note p = p0 this
  from p obtain bs root where c: "q = Inr root" "st = (let m = first_manifest g (sha bs) namespace root (pr_count (pf_reader pages)) in
      \<lparr>st_pages = pages, st_genesis = g, st_manifest = m, st_selected = m, st_roots = mf_roots m, st_poisoned = False,
       st_rotate_next = False, st_read_only = False, st_runtime = None\<rparr>)"
    using assms(1) by (auto simp: store_create_def rbind_eq_Inr Let_def split: if_splits)
  have good: "good pages0" using pf_create_ok[OF p(1) assms(3)] assms(4) by (simp add: good_def readable_def)
  have empty: "tree_holds crc r tree 0 []" for r tree by (simp add: tree_holds_def)
  have bounds: "length (u64_be 0) \<le> MAX_KEY" "length ?policy \<le> MAX_VALUE"
    using policy_bytes_length[OF assms(2)] by (simp_all add: MAX_KEY_def MAX_VALUE_def)
  note y = yieldsD[OF yields_tree_put[OF good empty bounds] p(2)]
  have "tree_holds crc (pf_reader pages) Policy root [(u64_be 0, ?policy)]" using y(3)[OF c(1)] by (simp add: upd_entries_def)
  then have hold: "roots_hold crc (pf_reader pages) [0, 0, root, 0, 0] (created_entries g)"
    unfolding roots_hold_def created_entries_def
  proof (intro conjI allI)
    fix tree
    assume "tree_holds crc (pf_reader pages) Policy root [(u64_be 0, ?policy)]"
    then show "tree_holds crc (pf_reader pages) tree ([0, 0, root, 0, 0] ! tree_index tree) (((\<lambda>_. [])(Policy := [(u64_be 0, ?policy)])) tree)"
      using empty by (cases tree) simp_all
  qed simp
  have "root_valid crc (pf_reader pages) g (st_manifest st) tree" for tree
    unfolding root_valid_def using hold created_valid[OF assms(2), of tree]
    by (intro exI[of _ "created_entries g tree"] exI[of _ 0]) (simp add: c(2) first_manifest_def roots_hold_def Let_def)
  then show "store_ok crc st (created_entries g) (created_entries g)" using y(1) hold by (simp add: store_ok_def c(2) first_manifest_def Let_def)
  show "st_genesis st = g" "mf_checkpoint_sequence (st_manifest st) = 0" by (simp_all add: c(2) first_manifest_def Let_def)
qed

subsection \<open>A store under operations\<close>

text \<open>
  Operations that succeed have the effect that the specification gives them, and those that
  fail have none. \<open>run_ops\<close> runs a sequence and returns the operations that succeeded.
\<close>

fun run_ops :: "('op \<Rightarrow> 's \<Rightarrow> ('e + 'r) \<times> 's) \<Rightarrow> 'op list \<Rightarrow> 's \<Rightarrow> 'op list \<times> 's" where
  "run_ops exec [] s = ([], s)"
| "run_ops exec (x # xs) s =
     (case exec x s of
        (Inl _, s) \<Rightarrow> run_ops exec xs s
      | (Inr _, s) \<Rightarrow> let (effective, s) = run_ops exec xs s in (x # effective, s))"

locale atomic_operations =
  fixes rel :: "'s \<Rightarrow> 'a \<Rightarrow> bool"
    and exec :: "'op \<Rightarrow> 's \<Rightarrow> ('e + 'r) \<times> 's"
    and effect :: "'op \<Rightarrow> 'a \<Rightarrow> 'a"
  assumes succeeds: "rel s a \<Longrightarrow> exec x s = (Inr y, s') \<Longrightarrow> rel s' (effect x a)"
    and fails: "rel s a \<Longrightarrow> exec x s = (Inl e, s') \<Longrightarrow> rel s' a"
begin

lemma run_refines: "rel s a \<Longrightarrow> run_ops exec xs s = (effective, s') \<Longrightarrow> rel s' (fold effect effective a)"
proof (induction xs arbitrary: s a effective)
  case (Cons x xs)
  obtain r s1 where x: "exec x s = (r, s1)" by force
  show ?case
  proof (cases r)
    case (Inl e)
    then show ?thesis using Cons.IH[OF fails[OF Cons.prems(1)]] Cons.prems(2) x by simp
  next
    case (Inr y)
    obtain rest where "run_ops exec xs s1 = (rest, s')" "effective = x # rest" using Cons.prems(2) x Inr by (auto split: prod.splits)
    then show ?thesis using Cons.IH[OF succeeds[OF Cons.prems(1)]] x Inr by simp
  qed
qed simp

end

datatype store_op =
    Apply "mutation list"
  | Take_View
  | Take_Checkpoint
  | Prepare u64
  | Publish directory_io nat manifest
  | Adopt directory_io nat manifest
  | Renew directory_io bytes
  | Enable

text \<open>The store with the views it has given out; a publication names one of them.\<close>

fun store_exec :: "(bytes \<Rightarrow> u32) \<Rightarrow> (bytes \<Rightarrow> bytes) \<Rightarrow> store_op \<Rightarrow> store \<times> pinned list \<Rightarrow> (storage_error + unit) \<times> store \<times> pinned list" where
  "store_exec crc sha (Apply changes) (st, vs) = (let (r, st) = store_apply crc changes st in (r, st, vs))"
| "store_exec crc sha Take_View (st, vs) = (Inr (), st, vs @ [store_view st])"
| "store_exec crc sha Take_Checkpoint (st, vs) = (Inr (), st, vs @ [checkpoint_view st])"
| "store_exec crc sha (Prepare sequence) (st, vs) =
     (case prepare_checkpoint crc sequence st of (Inl e, st) \<Rightarrow> (Inl e, st, vs) | (Inr v, st) \<Rightarrow> (Inr (), st, vs @ [v]))"
| "store_exec crc sha (Publish io i m) (st, vs) =
     (if i < length vs then let (r, st) = publish crc sha io (vs ! i) m st in (r, st, vs) else (Inl SPanic, st, vs))"
| "store_exec crc sha (Adopt io i m) (st, vs) =
     (if i < length vs then let (r, st) = adopt crc sha io (vs ! i) m None (st_roots st) st in (r, st, vs) else (Inl SPanic, st, vs))"
| "store_exec crc sha (Renew io namespace) (st, vs) = (let (r, st) = renew_namespace crc sha io namespace st in (r, st, vs))"
| "store_exec crc sha Enable (st, vs) = (Inr (), enable_runtime_cache st, vs)"

record contents =
  ct_live :: "tree_id \<Rightarrow> entry list"
  ct_published :: "tree_id \<Rightarrow> entry list"
  ct_views :: "(tree_id \<Rightarrow> entry list) list"

fun contents_effect :: "store_op \<Rightarrow> contents \<Rightarrow> contents" where
  "contents_effect (Apply changes) c = c\<lparr>ct_live := fold upd_tree changes (ct_live c)\<rparr>"
| "contents_effect Take_View c = c\<lparr>ct_views := ct_views c @ [ct_live c]\<rparr>"
| "contents_effect Take_Checkpoint c = c\<lparr>ct_views := ct_views c @ [ct_published c]\<rparr>"
| "contents_effect (Prepare sequence) c = c\<lparr>ct_views := ct_views c @ [checkpoint_entries sequence (ct_live c)]\<rparr>"
| "contents_effect (Publish io i m) c = c\<lparr>ct_published := ct_views c ! i\<rparr>"
| "contents_effect (Adopt io i m) c = c\<lparr>ct_live := ct_views c ! i, ct_published := ct_views c ! i\<rparr>"
| "contents_effect (Renew io namespace) c = c"
| "contents_effect Enable c = c"

definition store_rel :: "(bytes \<Rightarrow> u32) \<Rightarrow> store \<times> pinned list \<Rightarrow> contents \<Rightarrow> bool" where
  "store_rel crc s c \<longleftrightarrow> store_ok crc (fst s) (ct_live c) (ct_published c) \<and> list_all2 (view_ok crc (fst s)) (snd s) (ct_views c)"

lemma views_follow: "list_all2 (view_ok crc st) vs cs \<Longrightarrow> follows st st' \<Longrightarrow> list_all2 (view_ok crc st') vs cs"
  by (erule list_all2_mono) (rule view_ok_follows)

lemma store_exec_succeeds:
  assumes "store_rel crc s c" "store_exec crc sha x s = (Inr y, s')"
  shows "store_rel crc s' (contents_effect x c)"
proof -
  obtain st vs where s: "s = (st, vs)" by force
  have ok: "store_ok crc st (ct_live c) (ct_published c)" and vs: "list_all2 (view_ok crc st) vs (ct_views c)" using assms(1) by (simp_all add: s store_rel_def)
  note follow = views_follow[OF vs]
  have nth: "view_ok crc st (vs ! i) (ct_views c ! i)" if "i < length vs" for i using vs that by (simp add: list_all2_nthD)
  show ?thesis
  proof (cases x)
    case (Apply changes)
    obtain r st' where a: "store_apply crc changes st = (r, st')" by force
    show ?thesis using assms(2) store_apply_ok(1,2)[OF ok a] follow a by (auto simp: s Apply store_rel_def)
  next
    case Take_View
    show ?thesis using assms(2) ok vs store_view_ok[OF ok] by (auto simp: s Take_View store_rel_def list_all2_appendI)
  next
    case Take_Checkpoint
    show ?thesis using assms(2) ok vs checkpoint_view_ok[OF ok] by (auto simp: s Take_Checkpoint store_rel_def list_all2_appendI)
  next
    case (Prepare sequence)
    obtain r st' where a: "prepare_checkpoint crc sequence st = (r, st')" by force
    show ?thesis using assms(2) prepare_checkpoint_ok[OF ok a] follow a
      by (auto simp: s Prepare store_rel_def list_all2_appendI split: sum.splits)
  next
    case (Publish io i m)
    obtain r st' where a: "publish crc sha io (vs ! i) m st = (r, st')" by force
    show ?thesis using assms(2) publish_ok[OF ok nth a] follow a by (auto simp: s Publish store_rel_def split: if_splits)
  next
    case (Adopt io i m)
    obtain r st' where a: "adopt crc sha io (vs ! i) m None (st_roots st) st = (r, st')" by force
    have i: "i < length vs" using assms(2) by (simp add: s Adopt split: if_splits)
    from nth[OF i] obtain f where f: "pv_reader (vs ! i) = pf_reader f" "roots_hold crc (pf_reader f) (pv_roots (vs ! i)) (ct_views c ! i)"
      "pv_file (vs ! i) = mf_page_file_id (st_manifest st) \<longrightarrow> later f (st_pages st)" by (auto simp: view_ok_def)
    have r: "r = Inr ()" "s' = (st', vs)" using assms(2) a i by (auto simp: s Adopt)
    then obtain n where n: "adopt_check crc io (vs ! i) m None (st_roots st) st = Inr n" using a by (auto simp: adopt_def split: sum.splits)
    have "later f (st_pages st)" using f(3) adopt_check_Inr(3,4)[OF n] by simp
    then show ?thesis using adopt_ok[OF ok f(1,2) _ _ a] follow r by (auto simp: Adopt store_rel_def)
  next
    case (Renew io namespace)
    obtain r st' where a: "renew_namespace crc sha io namespace st = (r, st')" by force
    show ?thesis using assms(2) renew_namespace_ok[OF ok a] follow a by (auto simp: s Renew store_rel_def)
  next
    case Enable
    show ?thesis using assms(2) enable_runtime_cache_ok[OF ok] follow by (auto simp: s Enable store_rel_def)
  qed
qed

lemma store_exec_fails:
  assumes "store_rel crc s c" "store_exec crc sha x s = (Inl e, s')"
  shows "store_rel crc s' c"
proof -
  obtain st vs where s: "s = (st, vs)" by force
  have ok: "store_ok crc st (ct_live c) (ct_published c)" and vs: "list_all2 (view_ok crc st) vs (ct_views c)" using assms(1) by (simp_all add: s store_rel_def)
  note follow = views_follow[OF vs]
  have nth: "view_ok crc st (vs ! i) (ct_views c ! i)" if "i < length vs" for i using vs that by (simp add: list_all2_nthD)
  show ?thesis
  proof (cases x)
    case (Apply changes)
    obtain r st' where a: "store_apply crc changes st = (r, st')" by force
    show ?thesis using assms(2) store_apply_ok(1,2)[OF ok a] follow a by (auto simp: s Apply store_rel_def)
  next
    case (Prepare sequence)
    obtain r st' where a: "prepare_checkpoint crc sequence st = (r, st')" by force
    show ?thesis using assms(2) prepare_checkpoint_ok[OF ok a] follow a by (auto simp: s Prepare store_rel_def split: sum.splits)
  next
    case (Publish io i m)
    obtain r st' where a: "publish crc sha io (vs ! i) m st = (r, st')" by force
    show ?thesis
    proof (cases "i < length vs")
      case True
      then show ?thesis using assms(2) publish_ok[OF ok nth a] follow a by (auto simp: s Publish store_rel_def)
    qed (use assms in \<open>auto simp: s Publish\<close>)
  next
    case (Adopt io i m)
    obtain r st' where a: "adopt crc sha io (vs ! i) m None (st_roots st) st = (r, st')" by force
    have "st' = st \<or> st' = st\<lparr>st_poisoned := True\<rparr>" if "r = Inl e" using a that by (auto simp: adopt_def split: sum.splits)
    then have "st' = st \<or> st' = st\<lparr>st_poisoned := True\<rparr>" if "i < length vs" using assms(2) a that by (auto simp: s Adopt)
    then have "s' = (st, vs) \<or> s' = (st\<lparr>st_poisoned := True\<rparr>, vs)" using assms(2) a by (auto simp: s Adopt split: if_splits)
    moreover have "follows st (st\<lparr>st_poisoned := True\<rparr>)" by (simp add: follows_def)
    ultimately show ?thesis using ok vs follow by (auto simp: store_rel_def)
  next
    case (Renew io namespace)
    obtain r st' where a: "renew_namespace crc sha io namespace st = (r, st')" by force
    show ?thesis using assms(2) renew_namespace_ok[OF ok a] follow a by (auto simp: s Renew store_rel_def)
  qed (use assms(2) in \<open>simp_all add: s\<close>)
qed

interpretation store_ops: atomic_operations "store_rel crc" "store_exec crc sha" contents_effect for crc sha
  by unfold_locales (fact store_exec_succeeds store_exec_fails)+

lemma created_run:
  assumes "store_create crc sha io osf g namespace = Inr st" "policy_ok (gn_initial_policy g)" "length (gn_database_id g) = 16"
    "\<forall>i. of_read osf i = None" "run_ops (store_exec crc sha) ops (st, []) = (effective, st', vs)"
  shows "store_rel crc (st', vs) (fold contents_effect effective \<lparr>ct_live = created_entries g, ct_published = created_entries g, ct_views = []\<rparr>)"
  using store_ops.run_refines[OF _ assms(5)] store_create_ok(1)[OF assms(1-4)] by (simp add: store_rel_def)

lemma same_genesis:
  assumes "store_exec crc sha x (st, vs) = (r, st', vs')"
  shows "st_genesis st' = st_genesis st"
  using assms
  by (cases x) (auto simp: store_apply_def prepare_checkpoint_def prepare_by_scan_def publish_def adopt_def renew_namespace_def
      enable_runtime_cache_def Let_def split: if_splits sum.splits prod.splits option.splits)

subsection \<open>Versions of a valid store\<close>




subsection \<open>Properties\<close>


text \<open>
  C11: At every moment of such a run the published checkpoint is valid, although publications
  skip the trees for which a proof is at hand: its trees read without error, no entry but a
  cursor is above the checkpoint sequence, values decode and the initial policy is there.
  The pending keys that make this cheap stay within their budget.
\<close>

theorem published_checkpoint_valid:
  assumes "store_create crc sha io osf g namespace = Inr st" "policy_ok (gn_initial_policy g)" "length (gn_database_id g) = 16"
    "\<forall>i. of_read osf i = None" "run_ops (store_exec crc sha) ops (st, []) = (effective, st', vs)"
  shows "(\<forall>tree. root_valid crc (pf_reader (st_pages st')) (st_genesis st') (st_manifest st') tree) \<and>
    (\<forall>rv pd. st_runtime st' = Some rv \<longrightarrow> rv_pending rv = Some pd \<longrightarrow> pending_size (pd_keys pd) \<le> 1024 * 1024)"
proof -
  from created_run[OF assms] obtain live pub where "store_ok crc st' live pub" unfolding store_rel_def by (metis fst_conv)
  then show ?thesis by (auto simp: store_ok_def runtime_ok_def pending_ok_def tracked_def)
qed

text \<open>
  C13: A batch is atomic: it updates every tree with all its edits in order, or it leaves the
  roots and what they read as they were. A poisoned store refuses it, an oversized edit is
  refused before any page is written, and a failure while writing poisons the store.
\<close>

theorem store_apply_atomic:
  assumes "store_ok crc st live pub" "store_apply crc changes st = (r, st')"
  shows "(r = Inr () \<longrightarrow> \<not> st_poisoned st \<and> list_all mutation_fits changes \<and>
       view_of (view_reads crc (store_view st')) (fold upd_tree changes live)) \<and>
    (\<forall>e. r = Inl e \<longrightarrow> st_roots st' = st_roots st \<and> view_of (view_reads crc (store_view st')) live \<and>
       (if st_poisoned st then e = NeedsRecovery \<and> st' = st
        else if list_all mutation_fits changes then st_poisoned st' \<and> (healthy (st_pages st) \<longrightarrow> e = Exhausted)
        else e = InvalidInput m_batch_ceiling \<and> st' = st))"
proof -
  note ok = store_apply_ok[OF assms]
  have v: "view_of (view_reads crc (store_view st')) (if r = Inr () then fold upd_tree changes live else live)"
    by (rule view_ok_reads[OF store_view_ok[OF ok(1)]])
  have g: "good (st_pages st)" "roots_hold crc (pf_reader (st_pages st)) (st_roots st) live" using assms(1) by (simp_all add: store_ok_def)
  show ?thesis using assms(2)
  proof (cases rule: store_apply_cases)
    case (failed e pages)
    then show ?thesis using v ok(3) yieldsD(5)[OF yields_apply_edits[OF g failed(2)] failed(4)] by auto
  qed (use v ok(3) in auto)
qed

text \<open>
  C14: A prepared checkpoint has exactly the live entries up to the sequence and every cursor,
  whether it is made from the pending keys or by scanning the trees; the live roots stay, and
  the proofs it carries are proofs of its own trees.
\<close>

theorem prepare_checkpoint_exact:
  assumes "store_ok crc st live pub" "prepare_checkpoint crc sequence st = (Inr v, st')"
  shows "view_of (view_reads crc v) (checkpoint_entries sequence live) \<and> st_roots st' = st_roots st \<and>
    view_of (view_reads crc (store_view st')) live \<and> proofs_ok crc (pv_reader v) (st_genesis st') (pv_validation v)"
proof -
  note p = prepare_checkpoint_ok[OF assms]
  then have v: "view_ok crc st' v (checkpoint_entries sequence live)" "store_ok crc st' live pub" by simp_all
  then show ?thesis using view_ok_reads[OF v(1)] view_ok_reads[OF store_view_ok[OF v(2)]] p by (auto simp: view_ok_def)
qed


text \<open>A new store on a directory where every operation succeeds.\<close>

definition quiet_io :: directory_io where
  "quiet_io = \<lparr>io_exists = (\<lambda>_. Inr False), io_logs = (\<lambda>_. Inr ()), io_files = (\<lambda>_ _. Inr ())\<rparr>"

definition example_genesis :: genesis where
  "example_genesis = \<lparr>gn_database_id = replicate 16 7, gn_initial_policy = LIMIT_CEILINGS\<rparr>"

definition example_create :: "storage_error + store" where
  "example_create = store_create (\<lambda>_. 0) (\<lambda>_. replicate 32 1) quiet_io empty_file example_genesis (replicate 16 8)"

lemma example_policy: "policy_ok (gn_initial_policy example_genesis)"
  by (simp add: example_genesis_def policy_ok_def list_all2_refl)

lemma example_facts: "length (gn_database_id example_genesis) = 16" "\<forall>i. of_read empty_file i = None"
  by (simp_all add: example_genesis_def empty_file_def)

lemma first_manifest_valid:
  "validate_manifest (first_manifest example_genesis (replicate 32 1) (replicate 16 8) 1 2) = Inr ()"
  by (simp add: validate_manifest_def first_manifest_def example_genesis_def valid_number_def MAX_MANIFEST_LENGTH_def MANIFEST_BASE_LENGTH_def
      DESCRIPTOR_LENGTH_def word_le_nat_alt word_less_nat_alt)

definition example_policy_leaf :: node where
  "example_policy_leaf = NLeaf [\<lparr>lc_key = u64_be 0, lc_value = Inline (policy_encode LIMIT_CEILINGS)\<rparr>]"

lemma example_create_ok:
  obtains st where "example_create = Inr st" "healthy (st_pages st)" "\<not> st_poisoned st"
    "st_manifest st = first_manifest example_genesis (replicate 32 1) (replicate 16 8) 1 2" "st_selected st = st_manifest st"
    "reader_node (\<lambda>_. 0) (pf_reader (st_pages st)) Policy 1 = Inr example_policy_leaf" "st_runtime st = None"
    "st_roots st = [0, 0, 1, 0, 0]"
proof -
  let ?n = example_policy_leaf and ?bs = "policy_encode LIMIT_CEILINGS"
  have len: "length ?bs = 140" using policy_bytes_length[OF example_policy] by (simp add: example_genesis_def)
  obtain f where f: "pf_create (\<lambda>_. 0) empty_file (replicate 16 7) 1 = Inr f" "pf_next f = 1"
    by (simp add: pf_create_def empty_file_def Let_def)
  have ok: "file_ok f" "readable f" "healthy f" using pf_create_ok[OF f(1)] by (simp_all add: readable_def healthy_def empty_file_def)
  obtain r f' where a: "append_node (\<lambda>_. 0) Policy ?n f = (r, f')" by force
  have nok: "node_ok n ?n" for n
    using len by (simp add: example_policy_leaf_def cell_ok_def MAX_KEY_def INLINE_LIMIT_def leaf_size_def HEADER_SIZE_def PAGE_SIZE_def)
  obtain p where "encode_node Policy ?n = Inr p" using encode_node_total[OF nok] by (auto simp: is_ok_iff)
  moreover have "\<not> MAX_PAGES \<le> 1" by (simp add: MAX_PAGES_def word_le_nat_alt)
  ultimately have r: "r = Inr 1" "pr_count (pf_reader f') = 2" "healthy f'"
    using a f(2) ok(3) by (auto simp: append_node_def pbind_def plift_def append_page_def healthy_def Let_def)
  have put: "tree_put (\<lambda>_. 0) Policy 0 (u64_be 0) ?bs f = (Inr 1, f')"
    using a r(1) len by (simp add: tree_put_def tree_check_key_def store_value_def MAX_KEY_def MAX_VALUE_def INLINE_LIMIT_def example_policy_leaf_def)
  have "example_create = Inr \<lparr>st_pages = f', st_genesis = example_genesis, st_manifest = first_manifest example_genesis (replicate 32 1) (replicate 16 8) 1 2,
      st_selected = first_manifest example_genesis (replicate 32 1) (replicate 16 8) 1 2,
      st_roots = [0, 0, 1, 0, 0], st_poisoned = False,
      st_rotate_next = False, st_read_only = False, st_runtime = None\<rparr>"
    using f(1) put r(2) first_manifest_valid
    by (simp add: example_create_def store_create_def genesis_encode_def example_genesis_def publish_files_def manifest_encode_def Let_def
        current_encode_def quiet_io_def valid_number_def first_manifest_def)
  moreover have "reader_node (\<lambda>_. 0) (pf_reader f') Policy 1 = Inr ?n"
    using append_node_spec(4)[OF ok(1) a r(1) ok(2) nok] .
  ultimately show thesis using that r(3) by simp
qed

lemma example_store_ok:
  "example_create = Inr st \<Longrightarrow> store_ok (\<lambda>_. 0) st (created_entries example_genesis) (created_entries example_genesis)"
  unfolding example_create_def by (rule store_create_ok(1)[OF _ example_policy example_facts])


theorem published_checkpoint_valid_witness:
  "\<exists>st effective st' vs. example_create = Inr st \<and>
     run_ops (store_exec (\<lambda>_. 0) (\<lambda>_. replicate 32 1)) [Enable, Take_View] (st, []) = (effective, st', vs) \<and>
     root_valid (\<lambda>_. 0) (pf_reader (st_pages st')) (st_genesis st') (st_manifest st') Policy"
proof (rule example_create_ok)
  fix st
  assume st: "example_create = Inr st"
  obtain effective st' vs where run: "run_ops (store_exec (\<lambda>_. 0) (\<lambda>_. replicate 32 1)) [Enable, Take_View] (st, []) = (effective, st', vs)"
    by (metis prod.exhaust)
  show ?thesis using published_checkpoint_valid[OF st[unfolded example_create_def] example_policy example_facts run] st run by blast
qed

theorem store_apply_atomic_witness:
  "\<exists>st r st'. example_create = Inr st \<and> store_apply (\<lambda>_. 0) [\<lparr>mu_tree = State, mu_key = replicate 2067 0, mu_value = None\<rparr>] st = (r, st') \<and>
     r = Inl (InvalidInput m_batch_ceiling) \<and> view_of (view_reads (\<lambda>_. 0) (store_view st')) (created_entries example_genesis)"
proof (rule example_create_ok)
  fix st
  assume st: "example_create = Inr st" "\<not> st_poisoned st"
  obtain r st' where a: "store_apply (\<lambda>_. 0) [\<lparr>mu_tree = State, mu_key = replicate 2067 0, mu_value = None\<rparr>] st = (r, st')" by force
  have "r = Inl (InvalidInput m_batch_ceiling)" using a st(2) by (simp add: store_apply_def writable_def mutation_fits_def MAX_KEY_def)
  then show ?thesis using store_apply_atomic[OF example_store_ok[OF st(1)] a] st(1) a by blast
qed

theorem prepare_checkpoint_exact_witness:
  "\<exists>st v st'. example_create = Inr st \<and> prepare_checkpoint (\<lambda>_. 0) 0 st = (Inr v, st') \<and>
     view_of (view_reads (\<lambda>_. 0) v) (checkpoint_entries 0 (created_entries example_genesis))"
proof (rule example_create_ok)
  fix st
  assume st: "example_create = Inr st" "\<not> st_poisoned st" "st_manifest st = first_manifest example_genesis (replicate 32 1) (replicate 16 8) 1 2"
    "st_runtime st = None" and roots: "st_roots st = [0, 0, 1, 0, 0]"
  note ok = example_store_ok[OF st(1)]
  let ?r = "pf_reader (st_pages st)" and ?bs = "policy_encode (gn_initial_policy example_genesis)"
  have "tree_holds (\<lambda>_. 0) ?r Policy 1 [(u64_be 0, ?bs)]"
    using ok roots unfolding store_ok_def roots_hold_def created_entries_def by (auto dest: spec[of _ Policy])
  from tree_scan_holds[OF this, of Unbounded Unbounded]
  have scan: "tree_scan_all (\<lambda>_. 0) ?r Policy 1 Unbounded Unbounded = Inr [Inr (u64_be 0, ?bs)]" by (simp add: check_scan_bound_def)
  have empty: "tree_scan_all (\<lambda>_. 0) ?r tree 0 Unbounded Unbounded = Inr []" for tree
    using tree_scan_holds[of "\<lambda>_. 0" ?r tree 0 "[]" Unbounded Unbounded] by (simp add: check_scan_bound_def tree_holds_def)
  have "filter_trees (\<lambda>_. 0) 0 ?r (take 4 TREES) [0, 0, 1, 0, 0] (st_pages st) = (Inr [0, 0, 1, 0, 0], st_pages st)"
    by (simp add: TREES_def scan empty entry_sequence_initial)
  then obtain v st' where p: "prepare_checkpoint (\<lambda>_. 0) 0 st = (Inr v, st')"
    using st roots by (auto simp: prepare_checkpoint_def prepare_by_scan_def writable_def store_view_def first_manifest_def Let_def)
  show ?thesis using prepare_checkpoint_exact[OF ok p] st(1) p by blast
qed

subsection \<open>Reopening what was created\<close>

definition file_header :: "bytes \<Rightarrow> u64 \<Rightarrow> bytes" where
  "file_header database_id file_id =
     blit 88 (u64_le file_id) (blit 72 database_id (blit 64 BLOPST01 (blit 40 (u32_le 32) (page_header 0 0 0))))"

lemma file_header_fields:
  assumes "length database_id = 16"
  shows "length (file_header database_id file_id) = PAGE_SIZE" "take 4 (file_header database_id file_id) = BLP1"
    "u16_at (file_header database_id file_id) 4 = 1" "file_header database_id file_id ! 6 = 0" "file_header database_id file_id ! 7 = 0"
    "u64_at (file_header database_id file_id) 8 = 0"
    "u32_at (file_header database_id file_id) 16 = 0" "u16_at (file_header database_id file_id) 20 = 0"
    "zeros_in 22 24 (file_header database_id file_id)" "u16_at (file_header database_id file_id) 24 = 64"
    "u16_at (file_header database_id file_id) 26 = 16384" "zeros_in 28 32 (file_header database_id file_id)"
    "u64_at (file_header database_id file_id) 32 = 0" "u32_at (file_header database_id file_id) 40 = 32"
    "zeros_in 44 60 (file_header database_id file_id)" "zeros_in 96 PAGE_SIZE (file_header database_id file_id)"
    "take 8 (drop 64 (file_header database_id file_id)) = BLOPST01" "take 16 (drop 72 (file_header database_id file_id)) = database_id"
    "u64_at (file_header database_id file_id) 88 = file_id"
  using assms take_blit_zero(1)[of BLP1 "replicate 16384 0"]
  by (simp_all add: file_header_def page_header_def PAGE_SIZE_def HEADER_SIZE_def page_simps)

lemma file_header_valid:
  fixes crc :: "bytes \<Rightarrow> u32" and file_id :: u64
  assumes "length database_id = 16"
  defines "p \<equiv> checksum crc (file_header database_id file_id)"
  shows "length p = PAGE_SIZE" "validate_header crc p 0 None n = Inr ()" "take 16 (drop 72 p) = database_id" "u64_at p 88 = file_id"
proof -
  note E = file_header_fields[OF assms(1), of file_id]
  have S: "take n (drop a p) = take n (drop a (file_header database_id file_id))" if "a + n \<le> 60 \<or> 64 \<le> a" for a n
    unfolding p_def by (rule checksum_window[OF E(1) that])
  show len: "length p = PAGE_SIZE" using E(1) by (simp add: p_def)
  have same: "u16_at p 4 = 1" "p ! 6 = 0" "p ! 7 = 0" "u64_at p 8 = 0" "u32_at p 16 = 0" "u16_at p 20 = 0"
    "u16_at p 24 = 64" "u16_at p 26 = 16384" "u64_at p 32 = 0" "u32_at p 40 = 32"
    using window_uint(1)[OF S[of 4 2]] window_nth[OF S[of 6 1]] window_nth[OF S[of 7 1]] window_uint(3)[OF S[of 8 8]]
      window_uint(2)[OF S[of 16 4]] window_uint(1)[OF S[of 20 2]] window_uint(1)[OF S[of 24 2]]
      window_uint(1)[OF S[of 26 2]] window_uint(3)[OF S[of 32 8]] window_uint(2)[OF S[of 40 4]] E len
    by (simp_all add: PAGE_SIZE_def)
  have clear: "zeros_in a b p \<longleftrightarrow> zeros_in a b (file_header database_id file_id)" if "a \<le> b" "b \<le> 60 \<or> 64 \<le> a" for a b
    using that by (intro window_zeros S) auto
  have "take 4 p = BLP1" "take 8 (drop 64 p) = BLOPST01" using S[of 0 4] S[of 64 8] E(2,17) by simp_all
  moreover have "crc (blit 60 [0, 0, 0, 0] p) = u32_at p 60" unfolding p_def by (rule checksum_sum[OF E(1)])
  moreover have "zeros_in 96 PAGE_SIZE p" using clear[of 96 PAGE_SIZE] E(16) by (simp add: PAGE_SIZE_def)
  ultimately show "validate_header crc p 0 None n = Inr ()"
    using clear E(9,12,15) by (simp add: validate_header_def check_kind_def Let_def same PAGE_SIZE_def)
  show "take 16 (drop 72 p) = database_id" "u64_at p 88 = file_id"
    using S[of 72 16] window_uint(3)[OF S[of 88 8]] E(18,19) by simp_all
qed

lemma pf_create_reads:
  assumes "pf_create crc osf database_id file_id = Inr f" "length database_id = 16" "of_read osf 0 = None"
  obtains bs where "reader_read crc (pf_reader f) 0 None = Inr bs" "take 16 (drop 72 bs) = database_id" "u64_at bs 88 = file_id"
proof -
  let ?p = "checksum crc (file_header database_id file_id)"
  note h = file_header_valid[OF assms(2), of crc file_id]
  have f: "pf_reader f = \<lparr>pr_file = osf\<lparr>of_data := ?p\<rparr>, pr_count = 1\<rparr>"
    using assms(1) h(1) by (auto simp: pf_create_def file_header_def Let_def write_at_def split: if_splits option.splits)
  have "reader_read crc (pf_reader f) 0 None = Inr ?p"
    using h(1,2) assms(3) by (simp add: f reader_read_eq page_at_def)
  then show thesis using that h(3,4) by blast
qed

definition policy_leaf :: "genesis \<Rightarrow> node" where
  "policy_leaf g = NLeaf [\<lparr>lc_key = u64_be 0, lc_value = Inline (policy_encode (gn_initial_policy g))\<rparr>]"

lemma store_create_parts:
  assumes "store_create crc sha io osf g namespace = Inr st" "policy_ok (gn_initial_policy g)" "length (gn_database_id g) = 16"
    "\<forall>i. of_read osf i = None"
  obtains pages0 root gb mb cb where "genesis_encode crc g = Inr gb" "pf_create crc osf (gn_database_id g) 1 = Inr pages0"
    "append_node crc Policy (policy_leaf g) pages0 = (Inr root, st_pages st)"
    "st_manifest st = first_manifest g (sha gb) namespace root (pr_count (pf_reader (st_pages st)))"
    "manifest_encode crc (st_manifest st) = Inr mb" "current_encode crc \<lparr>cu_generation = 1, cu_digest = sha mb\<rparr> = Inr cb"
    "reader_node crc (pf_reader (st_pages st)) Policy root = Inr (policy_leaf g)"
proof -
  let ?bs = "policy_encode (gn_initial_policy g)"
  note len = policy_bytes_length[OF assms(2)]
  obtain pages0 where p0: "pf_create crc osf (gn_database_id g) 1 = Inr pages0"
    using assms(1) by (auto simp: store_create_def rbind_eq_Inr split: if_splits)
  obtain q pages where ap: "append_node crc Policy (policy_leaf g) pages0 = (q, pages)" by force
  have put: "tree_put crc Policy 0 (u64_be 0) ?bs pages0 = (q, pages)"
    using ap len by (simp add: tree_put_def tree_check_key_def store_value_def MAX_KEY_def MAX_VALUE_def INLINE_LIMIT_def policy_leaf_def)
  from assms(1) obtain gb where gb: "genesis_encode crc g = Inr gb" by (auto simp: store_create_def rbind_eq_Inr split: if_splits)
  have ne: "namespace \<noteq> replicate 16 0" using assms(1) by (auto simp: store_create_def rbind_eq_Inr)
  from assms(1) obtain root where q: "q = Inr root" using p0 put gb ne by (auto simp: store_create_def rbind_eq_Inr)
  let ?m = "first_manifest g (sha gb) namespace root (pr_count (pf_reader pages))"
  have st: "publish_files crc sha io ?m = Inr ()" "st = \<lparr>st_pages = pages, st_genesis = g, st_manifest = ?m, st_selected = ?m, st_roots = mf_roots ?m,
      st_poisoned = False, st_rotate_next = False, st_read_only = False, st_runtime = None\<rparr>"
    using assms(1) p0 put gb ne q by (auto simp: store_create_def rbind_eq_Inr Let_def)
  then obtain mb cb where b: "manifest_encode crc ?m = Inr mb" "current_encode crc \<lparr>cu_generation = 1, cu_digest = sha mb\<rparr> = Inr cb"
    by (auto simp: publish_files_def rbind_eq_Inr first_manifest_def)
  have ok: "file_ok pages0" "readable pages0" using pf_create_ok[OF p0 assms(3)] assms(4) by (simp_all add: readable_def)
  have nok: "node_ok n (policy_leaf g)" for n
    using len by (simp add: policy_leaf_def cell_ok_def MAX_KEY_def INLINE_LIMIT_def leaf_size_def HEADER_SIZE_def PAGE_SIZE_def)
  have "reader_node crc (pf_reader pages) Policy root = Inr (policy_leaf g)" using append_node_spec(4)[OF ok(1) ap q ok(2) nok] .
  then show thesis using that[OF gb p0, of root mb cb] ap q b by (simp add: st(2))
qed

text \<open>The directory that creation leaves: its files, and no log.\<close>

definition created_directory :: "(bytes \<Rightarrow> u32) \<Rightarrow> (bytes \<Rightarrow> bytes) \<Rightarrow> store \<Rightarrow> directory" where
  "created_directory crc sha st = \<lparr>dr_attach_required = False, dr_read_only = False,
     dr_current = rbind (manifest_encode crc (st_manifest st)) (\<lambda>bs. current_encode crc \<lparr>cu_generation = mf_generation (st_manifest st), cu_digest = sha bs\<rparr>),
     dr_manifest = (\<lambda>_. manifest_encode crc (st_manifest st)), dr_genesis = genesis_encode crc (st_genesis st),
     dr_pages = (\<lambda>_. Inr (pr_file (pf_reader (st_pages st)))), dr_logs = (\<lambda>_. Inr ()), dr_recover = Inr\<rparr>"

lemma created_validates:
  assumes "store_ok crc st (created_entries g) (created_entries g)" "st_genesis st = g" "policy_ok (gn_initial_policy g)"
    "mf_roots (st_manifest st) = [0, 0, root, 0, 0]" "reader_node crc (pf_reader (st_pages st)) Policy root = Inr (policy_leaf g)"
  shows "\<exists>proofs. checkpoint_validate crc (pf_reader (st_pages st)) (st_manifest st) g (replicate 4 None) = Inr proofs"
proof -
  let ?r = "pf_reader (st_pages st)" and ?m = "st_manifest st" and ?bs = "policy_encode (gn_initial_policy g)"
  have h: "tree_holds crc ?r tree ([0, 0, root, 0, 0] ! tree_index tree) (created_entries g tree)" for tree
    using assms(1,4) unfolding store_ok_def roots_hold_def by metis
  have u: "check_scan_bound Unbounded = Inr ()" by (simp add: check_scan_bound_def)
  have "is_ok (validate_root crc ?r ?m g tree)" for tree
  proof (cases "tree = Policy")
    case False
    then have "[0, 0, root, 0, 0] ! tree_index tree = 0" "created_entries g tree = []" by (cases tree; simp add: created_entries_def)+
    then show ?thesis using tree_scan_holds[OF h[of tree] u u] False assms(4)
      by (simp add: validate_root_def tree_validate_def Let_def is_ok_iff)
  next
    case True
    have hp: "tree_holds crc ?r Policy root [(u64_be 0, ?bs)]" using h[of Policy] by (simp add: created_entries_def)
    have "tree_validate crc ?r Policy root = Inr ()"
      using assms(5) by (simp add: tree_validate_def validate_subtree.simps load_def level_check_def reader_validate_value_def policy_leaf_def)
    moreover have "policy_decode ?bs = Inr (gn_initial_policy g)" using assms(3) policy_decode_exact by simp
    moreover have "tree_get crc ?r Policy root (u64_be 0) = Inr (Some ?bs)" using tree_get_holds[OF hp, of "u64_be 0"] by (simp add: MAX_KEY_def)
    ultimately show ?thesis using tree_scan_holds[OF hp u u] True assms(4)
      by (simp add: validate_root_def Let_def entry_sequence_initial valid_value_def is_ok_iff)
  qed
  then have "\<exists>p. (case reused ?m (replicate 4 None) tree of Some p \<Rightarrow> Inr p | None \<Rightarrow> validate_root crc ?r ?m g tree) = Inr p" for tree
    by (auto simp: reused_def Let_def is_ok_iff tree_index_logical)
  then have "\<exists>out. validate_roots crc ?r ?m g (replicate 4 None) trees validated = Inr out" for trees validated
  proof (induction trees arbitrary: validated)
    case (Cons tree trees)
    from Cons.prems obtain p where "(case reused ?m (replicate 4 None) tree of Some p \<Rightarrow> Inr p | None \<Rightarrow> validate_root crc ?r ?m g tree) = Inr p" by metis
    then show ?case using Cons.IH[OF Cons.prems] by simp
  qed simp
  then show ?thesis by (simp add: checkpoint_validate_def)
qed

lemma append_node_keeps:
  "append_node crc tree n f = (Inr i, f') \<Longrightarrow> pf_next f' = pr_count (pf_reader f') \<and> pf_poisoned f' = pf_poisoned f \<and>
     of_resize (pr_file (pf_reader f')) = of_resize (pr_file (pf_reader f))"
  by (auto simp: append_node_def pbind_def plift_def append_page_def Let_def split: sum.splits if_splits option.splits)

lemma created_opens:
  assumes "store_create crc sha io osf g namespace = Inr st" "policy_ok (gn_initial_policy g)" "length (gn_database_id g) = 16"
    "\<forall>i. of_read osf i = None" "of_resize osf = None" "length namespace = 16" "\<forall>bs. length (sha bs) = 32"
  obtains st' where "open_directory crc sha False (created_directory crc sha st) = Inr st'" "st_manifest st' = st_manifest st"
    "store_ok crc st' (created_entries g) (created_entries g)" "pages_readable (created_directory crc sha st)" "recovery_keeps (created_directory crc sha st)"
  using assms(1-4)
proof (rule store_create_parts)
  fix pages0 root gb mb cb
  assume c: "genesis_encode crc g = Inr gb" "pf_create crc osf (gn_database_id g) 1 = Inr pages0"
    "append_node crc Policy (policy_leaf g) pages0 = (Inr root, st_pages st)"
    "st_manifest st = first_manifest g (sha gb) namespace root (pr_count (pf_reader (st_pages st)))"
    "manifest_encode crc (st_manifest st) = Inr mb" "current_encode crc \<lparr>cu_generation = 1, cu_digest = sha mb\<rparr> = Inr cb"
    "reader_node crc (pf_reader (st_pages st)) Policy root = Inr (policy_leaf g)"
  let ?d = "created_directory crc sha st" and ?m = "st_manifest st"
  note ok = store_create_ok[OF assms(1-4)]
  have shape: "manifest_shape ?m" "genesis_shape g" using assms(2,3,6,7) by (simp_all add: c(4) first_manifest_def manifest_shape_def genesis_shape_def)
  have dec: "manifest_decode crc mb = Inr ?m" "genesis_decode crc gb = Inr g" "current_decode crc cb = Inr \<lparr>cu_generation = 1, cu_digest = sha mb\<rparr>"
    using manifest_codec.round_trip[OF shape(1) c(5)] genesis_codec.round_trip[OF shape(2) c(1)] current_codec.round_trip[OF _ c(6)] assms(7) by simp_all
  have m: "mf_generation ?m = 1" "mf_database_id ?m = gn_database_id g" "mf_genesis_digest ?m = sha gb" "mf_page_file_id ?m = 1"
    "mf_page_count ?m = pr_count (pf_reader (st_pages st))" "mf_roots ?m = [0, 0, root, 0, 0]" by (simp_all add: c(4) first_manifest_def)
  have sel: "select_manifest crc sha ?d = Inr (?m, g)"
    using dec c(1,5,6) m ok(2) by (simp add: select_manifest_def created_directory_def)
  have f0: "file_ok pages0" "readable pages0" "\<not> pf_poisoned pages0" "of_resize (pr_file (pf_reader pages0)) = None"
    using pf_create_ok[OF c(2) assms(3)] assms(4,5) c(2) by (auto simp: readable_def pf_create_def Let_def split: if_splits option.splits)
  note ap = append_node_spec[OF f0(1) c(3)]
  obtain bs where bs: "reader_read crc (pf_reader (st_pages st)) 0 None = Inr bs" "take 16 (drop 72 bs) = gn_database_id g" "u64_at bs 88 = 1"
    using pf_create_reads[OF c(2) assms(3)] assms(4) later_read[OF ap(2)] by metis
  have good: "good (st_pages st)" using ok(1) by (simp add: store_ok_def)
  have v: "validate_manifest ?m = Inr ()" using c(5) by (auto simp: manifest_encode_def rbind_eq_Inr map_err_eq_Inr)
  have "push_bit 48 (1 :: u64) = MAX_PAGES" by (simp add: MAX_PAGES_def push_bit_eq_mult)
  then have max: "pr_count (pf_reader (st_pages st)) \<le> MAX_PAGES" using v m(5) by (auto simp: validate_manifest_def split: if_splits)
  have p: "pf_next (st_pages st) = pr_count (pf_reader (st_pages st))" "\<not> pf_poisoned (st_pages st)" "of_resize (pr_file (pf_reader (st_pages st))) = None"
    using append_node_keeps[OF c(3)] f0(3,4) by simp_all
  have size: "1 \<le> pr_count (pf_reader (st_pages st))" "unat (pr_count (pf_reader (st_pages st))) * PAGE_SIZE = length (of_data (pr_file (pf_reader (st_pages st))))"
    using good p(1) by (auto simp: good_def file_ok_def)
  have "unat (pr_count (pf_reader (st_pages st))) \<le> 281474976710656" using max by (simp add: MAX_PAGES_def word_le_nat_alt)
  then have "unat (pr_count (pf_reader (st_pages st))) * PAGE_SIZE < 2 ^ 64" by (simp add: PAGE_SIZE_def)
  then have readable: "pages_readable ?d" using size good by (simp add: pages_readable_def created_directory_def good_def readable_def)
  have keeps: "recovery_keeps ?d" by (simp add: recovery_keeps_def created_directory_def)
  define pages where "pages = \<lparr>pf_reader = pf_reader (st_pages st),
      pf_next = of_nat ((length (of_data (pr_file (pf_reader (st_pages st)))) + PAGE_SIZE - 1) div PAGE_SIZE), pf_poisoned = False\<rparr>"
  have eta: "\<lparr>pr_file = pr_file (pf_reader (st_pages st)), pr_count = pr_count (pf_reader (st_pages st))\<rparr> = pf_reader (st_pages st)" by simp
  have "pf_open crc (pr_file (pf_reader (st_pages st))) (gn_database_id g) 1 (pr_count (pf_reader (st_pages st))) = Inr pages"
    using bs max size by (simp add: pf_open_def Let_def pages_def eta del: One_nat_def)
  moreover obtain proofs where "checkpoint_validate crc (pf_reader (st_pages st)) ?m g (replicate 4 None) = Inr proofs"
    using created_validates[OF ok(1,2) assms(2) m(6) c(7)] by blast
  moreover obtain u after where t: "truncate_tail pages = (Inr u, after)" using p(3) by (auto simp: truncate_tail_def pages_def Let_def)
  moreover have "pf_reader pages = pf_reader (st_pages st)" by (simp add: pages_def)
  ultimately obtain st' where o: "open_directory crc sha False ?d = Inr st'" "st_manifest st' = ?m" "st_pages st' = after"
    using sel m by (auto simp: open_directory_def created_directory_def)
  have "file_ok pages" using good size p(1) by (simp add: good_def file_ok_def pages_def) (simp add: PAGE_SIZE_def flip: size(2))
  from truncate_tail_ok[OF this t] have "later pages after" by simp
  then have "roots_hold crc (pf_reader (st_pages st')) (mf_roots (st_manifest st')) (created_entries g)"
    using ok(1) roots_hold_later[of crc pages] by (simp add: store_ok_def o pages_def)
  moreover obtain ents where ents: "store_ok crc st' ents ents" by (rule open_directory_ok[OF o(1) keeps readable])
  ultimately have "ents = created_entries g"
    unfolding store_ok_def roots_hold_def by (metis ext tree_holds_unique)
  then show thesis using that[OF o(1,2) _ readable keeps] ents by simp
qed

text \<open>
  The directory that creation leaves opens again, with the manifest it wrote and with the
  entries of the new store: everything that opening decodes, compares and validates holds of
  what creation encoded.
\<close>

theorem created_store_opens:
  assumes "store_create crc sha io osf g namespace = Inr st" "policy_ok (gn_initial_policy g)" "length (gn_database_id g) = 16"
    "\<forall>i. of_read osf i = None" "of_resize osf = None" "length namespace = 16" "\<forall>bs. length (sha bs) = 32"
  shows "\<exists>st'. open_directory crc sha False (created_directory crc sha st) = Inr st' \<and> st_manifest st' = st_manifest st \<and>
    view_of (view_reads crc (store_view st')) (created_entries g)"
  using assms by (rule created_opens) (use view_ok_reads[OF store_view_ok] in blast)

theorem created_store_opens_witness:
  "\<exists>st st'. example_create = Inr st \<and>
     open_directory (\<lambda>_. 0) (\<lambda>_. replicate 32 1) False (created_directory (\<lambda>_. 0) (\<lambda>_. replicate 32 1) st) = Inr st' \<and>
     view_of (view_reads (\<lambda>_. 0) (store_view st')) (created_entries example_genesis)"
proof (rule example_create_ok)
  fix st
  assume st: "example_create = Inr st"
  have "of_resize empty_file = None" "length (replicate 16 (8 :: byte)) = 16" "\<forall>bs :: bytes. length (replicate 32 (1 :: byte)) = 32"
    by (simp_all add: empty_file_def)
  from created_store_opens[OF st[unfolded example_create_def] example_policy example_facts this] st show ?thesis by blast
qed


end
