(* ===== verification/Blop_Wal.thy ===== *)
theory Blop_Wal
  imports Blop_Metadata
begin

section \<open>The write-ahead log (\<^verbatim>\<open>src/storage/wal.rs\<close>, \<^verbatim>\<open>src/storage/store/wal.rs\<close>)\<close>

text \<open>
  Log records, the groups that frame them, the reader of a committed prefix, the append of a
  group and the recovery of groups beyond the selected prefix. A file is a list of bytes and
  its reads succeed; the incremental checksum and digest of the code are \<open>crc\<close> and \<open>sha\<close> of
  the bytes that were fed to them. Lengths and offsets are natural numbers: a file that the
  platform can hold is shorter than \<open>2 ^ 64\<close> bytes.
\<close>

subsection \<open>Records\<close>

definition SEGMENT_BYTES :: nat where "SEGMENT_BYTES = 96"
definition HEADER_BYTES :: nat where "HEADER_BYTES = 112"
definition TRAILER_BYTES :: nat where "TRAILER_BYTES = 56"

definition m_log_truncated :: string where "m_log_truncated = ''truncated committed log prefix''"
definition m_record_crosses :: string where "m_record_crosses = ''record crosses committed log prefix''"
definition m_record_length :: string where "m_record_length = ''invalid log record length''"
definition m_record_crc :: string where "m_record_crc = ''log record CRC mismatch''"
definition m_record_repeat :: string where "m_record_repeat = ''log record repeated length mismatch''"
definition m_record_header :: string where "m_record_header = ''invalid log record header''"
definition m_record_kind :: string where "m_record_kind = ''invalid log record kind, flags, or reserved fields''"
definition m_record_limits :: string where "m_record_limits = ''invalid SetLimits body length''"
definition m_record_link :: string where "m_record_link = ''log record sequence or predecessor mismatch''"
definition m_segment_crc :: string where "m_segment_crc = ''log segment header CRC mismatch''"
definition m_segment_magic :: string where "m_segment_magic = ''invalid log segment magic''"
definition m_segment_fields :: string where "m_segment_fields = ''invalid log segment header fields''"
definition m_segment_manifest :: string where "m_segment_manifest = ''log segment header disagrees with manifest''"
definition m_padding_length :: string where "m_padding_length = ''invalid WAL padding length''"
definition m_padding_bytes :: string where "m_padding_bytes = ''nonzero WAL padding''"
definition m_group_bounds :: string where "m_group_bounds = ''invalid WAL group bounds''"
definition m_group_crc :: string where "m_group_crc = ''WAL group header CRC mismatch''"
definition m_group_magic :: string where "m_group_magic = ''invalid WAL group magic''"
definition m_group_fields :: string where "m_group_fields = ''invalid WAL group header fields''"
definition m_reader_prefix :: string where "m_reader_prefix = ''invalid log reader prefix''"
definition m_group_truncated :: string where "m_group_truncated = ''truncated committed WAL group''"
definition m_group_prefix :: string where "m_group_prefix = ''WAL group does not match committed prefix''"
definition m_group_endpoint :: string where "m_group_endpoint = ''WAL group endpoint mismatch''"
definition m_group_trailer :: string where "m_group_trailer = ''WAL group trailer or digest mismatch''"
definition m_log_excess :: string where "m_log_excess = ''excess bytes inside committed log prefix''"
definition m_log_final :: string where "m_log_final = ''log final digest mismatch''"
definition m_log_checkpoint :: string where "m_log_checkpoint = ''log checkpoint digest mismatch''"
definition m_log_missing :: string where "m_log_missing = ''missing authoritative log segment''"

definition BLR1 :: bytes where "BLR1 = [66, 76, 82, 49]"
definition BLOPLG01 :: bytes where "BLOPLG01 = [66, 76, 79, 80, 76, 71, 48, 49]"
definition BLOPWG01 :: bytes where "BLOPWG01 = [66, 76, 79, 80, 87, 71, 48, 49]"
definition BLOPGE01 :: bytes where "BLOPGE01 = [66, 76, 79, 80, 71, 69, 48, 49]"

definition read_committed :: "nat \<Rightarrow> bytes \<Rightarrow> storage_error + bytes \<times> bytes" where
  "read_committed n bs = (if length bs < n then Inl (Corrupt m_log_truncated) else Inr (take n bs, drop n bs))"

text \<open>The length and the digest of the record at the front of \<open>input\<close>, and what follows it.\<close>

definition validate_record :: "(bytes \<Rightarrow> u32) \<Rightarrow> (bytes \<Rightarrow> bytes) \<Rightarrow> bytes \<Rightarrow> nat \<Rightarrow> u64 \<Rightarrow> bytes \<Rightarrow> storage_error + (nat \<times> bytes) \<times> bytes" where
  "validate_record crc sha input remaining sequence predecessor =
     (if remaining < 72 then Inl (Corrupt m_record_crosses) else
      rbind (read_committed 64 input) (\<lambda>(header, input).
      let len = unat (u32_at header 8); body_length = unat (u32_at header 12) in
      if len \<noteq> 72 + body_length \<or> len > MAX_RECORD_LENGTH \<or> len > remaining then Inl (Corrupt m_record_length) else
      rbind (read_committed body_length input) (\<lambda>(body, input).
      rbind (read_committed 8 input) (\<lambda>(trailer, input).
      if crc (header @ body) \<noteq> u32_at trailer 0 then Inl (Corrupt m_record_crc)
      else if unat (u32_at trailer 4) \<noteq> len then Inl (Corrupt m_record_repeat)
      else if take 4 header \<noteq> BLR1 \<or> u16_at header 4 \<noteq> 64 then Inl (Corrupt m_record_header) else
      rbind (check_version (u16_at header 6) ''log record'') (\<lambda>_.
      if \<not> (1 \<le> header ! 24 \<and> header ! 24 \<le> 3) \<or> array_at 3 header 25 \<noteq> replicate 3 0 \<or> array_at 4 header 60 \<noteq> replicate 4 0
      then Inl (Corrupt m_record_kind)
      else if header ! 24 = 3 \<and> body_length \<noteq> POLICY_LENGTH then Inl (Corrupt m_record_limits)
      else if u64_at header 16 \<noteq> sequence \<or> array_at 32 header 28 \<noteq> predecessor then Inl (Corrupt m_record_link)
      else Inr ((len, sha (header @ body @ trailer)), input))))))"

subsection \<open>Segment headers and padding\<close>

text \<open>\<^verbatim>\<open>checked_next_multiple_of\<close>; the multiple may exceed \<open>u64\<close>.\<close>

definition group_bytes :: "nat \<Rightarrow> storage_error + nat" where
  "group_bytes n = (let m = div_ceil n BLOCK_BYTES * BLOCK_BYTES in if m < 2 ^ 64 then Inr m else Inl (Corrupt ''WAL padded length overflow''))"

definition segment_crc_valid :: "(bytes \<Rightarrow> u32) \<Rightarrow> bytes \<Rightarrow> bool" where
  "segment_crc_valid crc header \<longleftrightarrow> crc (take 92 header @ [0, 0, 0, 0]) = u32_at header 92"

definition validate_segment_header :: "(bytes \<Rightarrow> u32) \<Rightarrow> bytes \<Rightarrow> bytes \<Rightarrow> segment \<Rightarrow> storage_error + unit" where
  "validate_segment_header crc header database_id s =
     (if \<not> segment_crc_valid crc header then Inl (Corrupt m_segment_crc)
      else if take 8 header \<noteq> BLOPLG01 then Inl (Corrupt m_segment_magic)
      else rbind (check_version (u16_at header 8) ''log segment'') (\<lambda>_.
        if u16_at header 10 \<noteq> 96 \<or> u32_at header 12 \<noteq> 0 \<or> array_at 12 header 80 \<noteq> replicate 12 0 then Inl (Corrupt m_segment_fields)
        else if array_at 16 header 16 \<noteq> database_id \<or> u64_at header 32 \<noteq> sg_id s \<or> u64_at header 40 \<noteq> sg_first s \<or>
          array_at 32 header 48 \<noteq> sg_predecessor s then Inl (Corrupt m_segment_manifest)
        else Inr ()))"

definition read_padding :: "nat \<Rightarrow> bytes \<Rightarrow> storage_error + bytes" where
  "read_padding n bs =
     (if n > BLOCK_BYTES then Inl (Corrupt m_padding_length) else
      rbind (read_committed n bs) (\<lambda>(padding, rest).
      if list_ex (\<lambda>b. b \<noteq> 0) padding then Inl (Corrupt m_padding_bytes) else Inr rest))"

definition segment_header :: "(bytes \<Rightarrow> u32) \<Rightarrow> bytes \<Rightarrow> segment \<Rightarrow> bytes" where
  "segment_header crc database s =
     (let front = BLOPLG01 @ u16_le 1 @ u16_le 96 @ replicate 4 0 @ database @ u64_le (sg_id s) @ u64_le (sg_first s) @
            sg_predecessor s @ replicate 12 0 in
      front @ u32_le (crc (front @ replicate 4 0)) @ replicate (BLOCK_BYTES - 96) 0)"

subsection \<open>Groups\<close>

record group_header =
  gh_bytes :: u64
  gh_first :: u64
  gh_count :: u32
  gh_predecessor :: bytes
  gh_last_digest :: bytes

definition valid_group :: "group_header \<Rightarrow> bool" where
  "valid_group h \<longleftrightarrow> 1 \<le> unat (gh_count h) \<and> unat (gh_count h) \<le> MAX_GROUP_RECORDS \<and> gh_first h \<noteq> 0 \<and>
     unat (gh_first h) + unat (gh_count h) < 2 ^ 64 \<and>
     GROUP_OVERHEAD + unat (gh_count h) * 72 \<le> unat (gh_bytes h) \<and>
     unat (gh_bytes h) \<le> GROUP_OVERHEAD + unat (gh_count h) * MAX_RECORD_LENGTH"

definition group_front :: "group_header \<Rightarrow> bytes" where
  "group_front h = BLOPWG01 @ u16_le 1 @ replicate 2 0 @ u32_le (of_nat HEADER_BYTES) @ u64_le (gh_bytes h) @ u64_le (gh_first h) @
     u32_le (gh_count h) @ replicate 4 0 @ gh_predecessor h @ gh_last_digest h @ replicate 4 0"

definition group_encode :: "(bytes \<Rightarrow> u32) \<Rightarrow> group_header \<Rightarrow> storage_error + bytes" where
  "group_encode crc h =
     (if \<not> valid_group h then Inl (InvalidInput m_group_bounds) else Inr (group_front h @ u32_le (crc (group_front h))))"

definition group_decode :: "(bytes \<Rightarrow> u32) \<Rightarrow> bytes \<Rightarrow> storage_error + group_header" where
  "group_decode crc bs =
     (if crc (take 108 bs) \<noteq> u32_at bs 108 then Inl (Corrupt m_group_crc)
      else if take 8 bs \<noteq> BLOPWG01 then Inl (Corrupt m_group_magic)
      else if u16_at bs 8 \<noteq> 1 then Inl (Storage_Unsupported ''WAL group'' (u16_at bs 8))
      else if array_at 2 bs 10 \<noteq> replicate 2 0 \<or> u32_at bs 12 \<noteq> of_nat HEADER_BYTES \<or> array_at 4 bs 36 \<noteq> replicate 4 0 \<or>
        array_at 4 bs 104 \<noteq> replicate 4 0 then Inl (Corrupt m_group_fields)
      else
        let h = \<lparr>gh_bytes = u64_at bs 16, gh_first = u64_at bs 24, gh_count = u32_at bs 32, gh_predecessor = array_at 32 bs 40,
              gh_last_digest = array_at 32 bs 72\<rparr> in
        if valid_group h then Inr h else Inl (Corrupt m_group_bounds))"

definition trailer :: "(bytes \<Rightarrow> u32) \<Rightarrow> u64 \<Rightarrow> bytes \<Rightarrow> bytes" where
  "trailer crc len digest =
     (let front = BLOPGE01 @ u64_le len @ digest @ replicate 4 0 in front @ u32_le (crc front))"

subsection \<open>Reading a committed prefix\<close>

record log_record =
  lr_sequence :: u64
  lr_digest :: bytes
  lr_bytes :: bytes

text \<open>\<open>og_hashed\<close> are the bytes that were fed to the hash of the open group.\<close>

record open_group =
  og_header :: group_header
  og_remaining :: nat
  og_records :: nat
  og_hashed :: bytes

record reader =
  rs_input :: bytes
  rs_remaining :: nat
  rs_sequence :: u64
  rs_predecessor :: bytes
  rs_last :: u64
  rs_last_digest :: bytes
  rs_group :: "open_group option"

definition read_canonical :: "(bytes \<Rightarrow> u32) \<Rightarrow> (bytes \<Rightarrow> bytes) \<Rightarrow> bytes \<Rightarrow> nat \<Rightarrow> u64 \<Rightarrow> bytes \<Rightarrow> storage_error + log_record \<times> bytes" where
  "read_canonical crc sha input remaining sequence predecessor =
     (if remaining < 72 then Inl (Corrupt m_record_crosses) else
      rbind (read_committed 64 input) (\<lambda>(header, rest).
      let len = unat (u32_at header 8) in
      if \<not> (72 \<le> len \<and> len \<le> MAX_RECORD_LENGTH) \<or> len > remaining then Inl (Corrupt m_record_length) else
      rbind (read_committed (len - 64) rest) (\<lambda>(tail, rest).
      rbind (validate_record crc sha (header @ tail) len sequence predecessor) (\<lambda>((_, digest), _).
      Inr (\<lparr>lr_sequence = sequence, lr_digest = digest, lr_bytes = header @ tail\<rparr>, rest)))))"

definition open_next_group :: "(bytes \<Rightarrow> u32) \<Rightarrow> reader \<Rightarrow> storage_error + reader" where
  "open_next_group crc rs =
     (if rs_remaining rs < GROUP_OVERHEAD then Inl (Corrupt m_group_truncated) else
      rbind (read_committed HEADER_BYTES (rs_input rs)) (\<lambda>(bs, rest).
      rbind (group_decode crc bs) (\<lambda>h.
      rbind (group_bytes (unat (gh_bytes h))) (\<lambda>physical.
      if physical > rs_remaining rs \<or> gh_first h \<noteq> rs_sequence rs \<or> gh_predecessor h \<noteq> rs_predecessor rs \<or>
        gh_first h + ucast (gh_count h) - 1 > rs_last rs then Inl (Corrupt m_group_prefix)
      else Inr (rs\<lparr>rs_input := rest, rs_remaining := rs_remaining rs - HEADER_BYTES,
        rs_group := Some \<lparr>og_header = h, og_remaining = unat (gh_bytes h) - GROUP_OVERHEAD, og_records = unat (gh_count h), og_hashed = bs\<rparr>\<rparr>)))))"

definition close_group :: "(bytes \<Rightarrow> u32) \<Rightarrow> (bytes \<Rightarrow> bytes) \<Rightarrow> open_group \<Rightarrow> bytes \<Rightarrow> reader \<Rightarrow> storage_error + reader" where
  "close_group crc sha g digest rs =
     (if og_remaining g \<noteq> 0 \<or> digest \<noteq> gh_last_digest (og_header g) then Inl (Corrupt m_group_endpoint) else
      rbind (read_committed TRAILER_BYTES (rs_input rs)) (\<lambda>(bs, rest).
      if bs \<noteq> trailer crc (gh_bytes (og_header g)) (sha (og_hashed g)) then Inl (Corrupt m_group_trailer) else
      rbind (group_bytes (unat (gh_bytes (og_header g)))) (\<lambda>physical.
      let padding = physical - unat (gh_bytes (og_header g)) in
      rbind (read_padding padding rest) (\<lambda>rest.
      Inr (rs\<lparr>rs_input := rest, rs_remaining := rs_remaining rs - TRAILER_BYTES - padding, rs_group := None\<rparr>)))))"

text \<open>\<^verbatim>\<open>next_record\<close>: open a group unless one is open, read a record, close the group after its last record, and check the end.\<close>

definition advance_reader :: "log_record \<Rightarrow> bytes \<Rightarrow> open_group \<Rightarrow> reader \<Rightarrow> reader" where
  "advance_reader r rest g rs = rs\<lparr>rs_input := rest, rs_remaining := rs_remaining rs - length (lr_bytes r), rs_sequence := rs_sequence rs + 1,
     rs_predecessor := lr_digest r, rs_group := Some (g\<lparr>og_hashed := og_hashed g @ lr_bytes r,
       og_remaining := og_remaining g - length (lr_bytes r), og_records := og_records g - 1\<rparr>)\<rparr>"

definition finish_group :: "(bytes \<Rightarrow> u32) \<Rightarrow> (bytes \<Rightarrow> bytes) \<Rightarrow> log_record \<Rightarrow> reader \<Rightarrow> storage_error + reader" where
  "finish_group crc sha r rs = (case rs_group rs of
      None \<Rightarrow> Inl SPanic
    | Some g \<Rightarrow> if og_records g = 0 then close_group crc sha g (lr_digest r) rs else Inr rs)"

definition end_of_log :: "log_record \<Rightarrow> reader \<Rightarrow> storage_error + log_record \<times> reader" where
  "end_of_log r rs =
     (if rs_sequence rs > rs_last rs then
        if rs_remaining rs \<noteq> 0 \<or> rs_group rs \<noteq> None then Inl (Corrupt m_log_excess)
        else if lr_digest r \<noteq> rs_last_digest rs then Inl (Corrupt m_log_final)
        else Inr (r, rs)
      else Inr (r, rs))"

definition in_group :: "(bytes \<Rightarrow> u32) \<Rightarrow> (bytes \<Rightarrow> bytes) \<Rightarrow> open_group \<Rightarrow> reader \<Rightarrow> storage_error + log_record \<times> reader" where
  "in_group crc sha g rs =
     rbind (read_canonical crc sha (rs_input rs) (og_remaining g) (rs_sequence rs) (rs_predecessor rs)) (\<lambda>(r, rest).
     rbind (finish_group crc sha r (advance_reader r rest g rs)) (\<lambda>rs. end_of_log r rs))"

definition next_record :: "(bytes \<Rightarrow> u32) \<Rightarrow> (bytes \<Rightarrow> bytes) \<Rightarrow> reader \<Rightarrow> storage_error + log_record \<times> reader" where
  "next_record crc sha rs =
     rbind (case rs_group rs of None \<Rightarrow> open_next_group crc rs | Some _ \<Rightarrow> Inr rs) (\<lambda>rs.
     case rs_group rs of None \<Rightarrow> Inl SPanic | Some g \<Rightarrow> in_group crc sha g rs)"

text \<open>
  \<^verbatim>\<open>Records::suffix\<close>: the header and the first block of the file are checked, and the reader
  starts at the offset, limited to the committed bytes.
\<close>

definition reader_suffix :: "(bytes \<Rightarrow> u32) \<Rightarrow> bytes \<Rightarrow> bytes \<Rightarrow> segment \<Rightarrow> nat \<Rightarrow> u64 \<Rightarrow> bytes \<Rightarrow> storage_error + reader" where
  "reader_suffix crc data database s offset first predecessor =
     rbind (map_err Corrupt (validate_descriptor s)) (\<lambda>_.
     rbind (read_committed 96 data) (\<lambda>(header, rest).
     rbind (validate_segment_header crc header database s) (\<lambda>_.
     rbind (read_padding (BLOCK_BYTES - SEGMENT_BYTES) rest) (\<lambda>_.
     if offset < BLOCK_BYTES \<or> offset > unat (sg_committed s) \<or> first < sg_first s \<or> first > sg_last s \<or> offset mod BLOCK_BYTES \<noteq> 0
     then Inl (Corrupt m_reader_prefix)
     else
       let remaining = unat (sg_committed s) - offset in
       Inr \<lparr>rs_input = take remaining (drop offset data), rs_remaining = remaining, rs_sequence = first, rs_predecessor = predecessor,
         rs_last = sg_last s, rs_last_digest = sg_digest s, rs_group = None\<rparr>))))"

definition reader_new :: "(bytes \<Rightarrow> u32) \<Rightarrow> bytes \<Rightarrow> bytes \<Rightarrow> segment \<Rightarrow> storage_error + reader" where
  "reader_new crc data database s = reader_suffix crc data database s BLOCK_BYTES (sg_first s) (sg_predecessor s)"

lemma read_committed_Inr: "read_committed n bs = Inr (x, rest) \<longleftrightarrow> n \<le> length bs \<and> x = take n bs \<and> rest = drop n bs"
  by (auto simp: read_committed_def)

lemma read_canonical_shrinks:
  "read_canonical crc sha input remaining sequence predecessor = Inr (r, rest) \<Longrightarrow> length rest < length input"
  by (auto simp: read_canonical_def Let_def rbind_eq_Inr read_committed_Inr split: if_splits)

lemma open_next_group_shrinks: "open_next_group crc rs = Inr rs' \<Longrightarrow> length (rs_input rs') \<le> length (rs_input rs)"
  by (auto simp: open_next_group_def rbind_eq_Inr read_committed_Inr split: if_splits)

lemma read_padding_Inr:
  "read_padding n bs = Inr rest \<longleftrightarrow> n \<le> BLOCK_BYTES \<and> n \<le> length bs \<and> take n bs = replicate n 0 \<and> rest = drop n bs"
proof -
  have "\<not> list_ex (\<lambda>b. b \<noteq> 0) xs \<longleftrightarrow> xs = replicate (length xs) 0" for xs :: bytes
    by (induction xs) auto
  then have "\<not> list_ex (\<lambda>b. b \<noteq> 0) (take n bs) \<longleftrightarrow> take n bs = replicate n 0" if "n \<le> length bs" using that by (metis length_take min.absorb2)
  then show ?thesis by (auto simp: read_padding_def rbind_eq_Inr read_committed_Inr split: if_splits)
qed

lemma close_group_shrinks: "close_group crc sha g digest rs = Inr rs' \<Longrightarrow> length (rs_input rs') \<le> length (rs_input rs)"
  by (auto simp: close_group_def rbind_eq_Inr read_committed_Inr read_padding_Inr Let_def split: if_splits)

lemma next_record_shrinks:
  assumes "next_record crc sha rs = Inr (r, rs')"
  shows "length (rs_input rs') < length (rs_input rs)"
proof -
  obtain rs1 g where o: "(case rs_group rs of None \<Rightarrow> open_next_group crc rs | Some _ \<Rightarrow> Inr rs) = Inr rs1" "rs_group rs1 = Some g"
    and i: "in_group crc sha g rs1 = Inr (r, rs')"
    using assms by (auto simp: next_record_def rbind_eq_Inr split: option.splits)
  obtain r1 rest rs2 where c: "read_canonical crc sha (rs_input rs1) (og_remaining g) (rs_sequence rs1) (rs_predecessor rs1) = Inr (r1, rest)"
    and f: "finish_group crc sha r1 (advance_reader r1 rest g rs1) = Inr rs2" and e: "end_of_log r1 rs2 = Inr (r, rs')"
    using i by (auto simp: in_group_def rbind_eq_Inr)
  have "rs' = rs2" using e by (auto simp: end_of_log_def split: if_splits)
  moreover have "length (rs_input rs2) \<le> length rest"
    using f by (auto simp: finish_group_def advance_reader_def split: if_splits dest: close_group_shrinks)
  moreover have "length (rs_input rs1) \<le> length (rs_input rs)" using o(1) by (auto dest: open_next_group_shrinks split: option.splits)
  ultimately show ?thesis using read_canonical_shrinks[OF c] by simp
qed

text \<open>The whole iteration: it ends after the last record of the prefix, or with an error.\<close>

function read_records :: "(bytes \<Rightarrow> u32) \<Rightarrow> (bytes \<Rightarrow> bytes) \<Rightarrow> reader \<Rightarrow> storage_error + log_record list" where
  "read_records crc sha rs =
     (case next_record crc sha rs of
        Inl e \<Rightarrow> Inl e
      | Inr (r, rs) \<Rightarrow> if rs_sequence rs > rs_last rs then Inr [r] else rbind (read_records crc sha rs) (\<lambda>xs. Inr (r # xs)))"
  by pat_completeness auto
termination
  by (relation "measure (\<lambda>(crc, sha, rs). length (rs_input rs))") (auto simp: next_record_shrinks)

declare read_records.simps [simp del]

function validate_from :: "(bytes \<Rightarrow> u32) \<Rightarrow> (bytes \<Rightarrow> bytes) \<Rightarrow> manifest \<Rightarrow> reader \<Rightarrow> storage_error + unit" where
  "validate_from crc sha m rs =
     (case next_record crc sha rs of
        Inl e \<Rightarrow> Inl e
      | Inr (r, rs) \<Rightarrow>
          if lr_sequence r = mf_checkpoint_sequence m \<and> lr_digest r \<noteq> mf_checkpoint_digest m then Inl (Corrupt m_log_checkpoint)
          else if rs_sequence rs > rs_last rs then Inr () else validate_from crc sha m rs)"
  by pat_completeness auto
termination
  by (relation "measure (\<lambda>(crc, sha, m, rs). length (rs_input rs))") (auto simp: next_record_shrinks)

declare validate_from.simps [simp del]

definition validate_segment :: "(bytes \<Rightarrow> u32) \<Rightarrow> (bytes \<Rightarrow> bytes) \<Rightarrow> bytes \<Rightarrow> manifest \<Rightarrow> segment \<Rightarrow> storage_error + unit" where
  "validate_segment crc sha data m s =
     rbind (reader_new crc data (mf_database_id m) s) (\<lambda>rs. validate_from crc sha m rs)"

text \<open>The log files by segment ID.\<close>

type_synonym logs = "u64 \<Rightarrow> bytes option"

definition validate_logs :: "(bytes \<Rightarrow> u32) \<Rightarrow> (bytes \<Rightarrow> bytes) \<Rightarrow> logs \<Rightarrow> manifest \<Rightarrow> storage_error + unit" where
  "validate_logs crc sha logs m =
     rbind (map_err Corrupt (validate_manifest m)) (\<lambda>_.
     rbind (rmap (\<lambda>s. case logs (sg_id s) of None \<Rightarrow> Inl (Corrupt m_log_missing) | Some data \<Rightarrow> validate_segment crc sha data m s) (mf_segments m))
       (\<lambda>_. Inr ()))"

subsection \<open>Recovering the tail\<close>

definition m_tail_truncated :: string where "m_tail_truncated = ''truncated selected WAL prefix''"
definition m_tail_link :: string where "m_tail_link = ''WAL suffix sequence or predecessor mismatch''"
definition m_tail_first :: string where "m_tail_first = ''invalid WAL first sequence''"
definition m_tail_unlinked :: string where "m_tail_unlinked = ''unlinked, forked or gapped WAL successor''"
definition m_append_sequence :: string where "m_append_sequence = ''invalid WAL group sequence or count''"
definition m_append_trailing :: string where "m_append_trailing = ''trailing canonical record bytes''"
definition m_append_empty :: string where "m_append_empty = ''empty WAL group''"
definition m_append_length :: string where "m_append_length = ''active WAL length differs from durable prefix''"
definition m_append_aligned :: string where "m_append_aligned = ''unaligned active WAL endpoint''"

datatype tail_recovery = DiscardInvalid | Strict

definition discards :: "tail_recovery \<Rightarrow> storage_error \<Rightarrow> bool" where
  "discards recovery e \<longleftrightarrow> recovery = DiscardInvalid \<and> (case e of Corrupt _ \<Rightarrow> True | _ \<Rightarrow> False)"

text \<open>A group at the end of the segment: the descriptor that includes it, or \<open>None\<close> to stop before it.\<close>

definition tail_candidate :: "segment \<Rightarrow> group_header \<Rightarrow> nat \<Rightarrow> segment" where
  "tail_candidate s h physical = s\<lparr>sg_committed := sg_committed s + of_nat physical,
     sg_last := gh_first h + ucast (gh_count h) - 1, sg_digest := gh_last_digest h\<rparr>"

definition tail_group :: "(bytes \<Rightarrow> u32) \<Rightarrow> (bytes \<Rightarrow> bytes) \<Rightarrow> bytes \<Rightarrow> bytes \<Rightarrow> tail_recovery \<Rightarrow> segment \<Rightarrow> storage_error + segment option" where
  "tail_group crc sha data database recovery s =
     (let offset = unat (sg_committed s); sequence = sg_last s + 1; predecessor = sg_digest s in
      if length data - offset < HEADER_BYTES then Inr None else
      case group_decode crc (take HEADER_BYTES (drop offset data)) of
        Inl e \<Rightarrow> if discards recovery e then Inr None else Inl e
      | Inr h \<Rightarrow>
          if gh_first h \<noteq> sequence \<or> gh_predecessor h \<noteq> predecessor then Inl (Corrupt m_tail_link) else
          rbind (group_bytes (unat (gh_bytes h))) (\<lambda>physical.
          if physical > length data - offset then Inr None else
          let candidate = tail_candidate s h physical in
          case rbind (reader_suffix crc data database candidate offset sequence predecessor) (read_records crc sha) of
            Inl e \<Rightarrow> if discards recovery e then Inr None else Inl e
          | Inr _ \<Rightarrow> Inr (Some candidate)))"

lemma group_bytes_Inr: "group_bytes n = Inr m \<Longrightarrow> n \<le> m \<and> m < n + BLOCK_BYTES \<and> m mod BLOCK_BYTES = 0 \<and> m < 2 ^ 64"
  by (auto simp: group_bytes_def div_ceil_def BLOCK_BYTES_def Let_def split: if_splits)

lemma group_decode_valid: "group_decode crc bs = Inr h \<Longrightarrow> valid_group h"
  by (auto simp: group_decode_def Let_def split: if_splits)

text \<open>Every accepted group moves the end of the segment forward within the file.\<close>

lemma tail_group_progress:
  assumes "tail_group crc sha data database recovery s = Inr (Some s')" "length data < 2 ^ 64" "unat (sg_committed s) \<le> length data"
  shows "unat (sg_committed s) < unat (sg_committed s')" "unat (sg_committed s') \<le> length data"
proof -
  obtain h physical where h: "group_decode crc (take HEADER_BYTES (drop (unat (sg_committed s)) data)) = Inr h"
    "group_bytes (unat (gh_bytes h)) = Inr physical" "physical \<le> length data - unat (sg_committed s)" "s' = tail_candidate s h physical"
    using assms(1) by (auto simp: tail_group_def Let_def rbind_eq_Inr split: if_splits sum.splits)
  have p: "0 < physical" using group_bytes_Inr[OF h(2)] group_decode_valid[OF h(1)] by (auto simp: valid_group_def GROUP_OVERHEAD_def)
  have "unat (sg_committed s) + physical < 2 ^ 64" using assms(2,3) h(3) by linarith
  then have "unat (sg_committed s + of_nat physical) = unat (sg_committed s) + physical"
    using assms(2) h(3) by (simp add: unat_word_ariths unat_of_nat)
  then show "unat (sg_committed s) < unat (sg_committed s')" "unat (sg_committed s') \<le> length data"
    using p h(3,4) assms(3) by (simp_all add: tail_candidate_def)
qed

text \<open>The loop; a file longer than the platform allows is refused, which no file is.\<close>

function scan_groups :: "(bytes \<Rightarrow> u32) \<Rightarrow> (bytes \<Rightarrow> bytes) \<Rightarrow> bytes \<Rightarrow> bytes \<Rightarrow> tail_recovery \<Rightarrow> segment \<Rightarrow> bool \<Rightarrow> storage_error + segment option \<times> bool" where
  "scan_groups crc sha data database recovery s found =
     (if \<not> (length data < 2 ^ 64 \<and> unat (sg_committed s) < length data) then Inr (if found then Some s else None, False)
      else case tail_group crc sha data database recovery s of
        Inl e \<Rightarrow> Inl e
      | Inr None \<Rightarrow> Inr (if found then Some s else None, True)
      | Inr (Some s) \<Rightarrow> scan_groups crc sha data database recovery s True)"
  by pat_completeness auto
termination
proof (relation "measure (\<lambda>(crc, sha, data, database, recovery, s, found). length data - unat (sg_committed s))", goal_cases)
  case (2 crc sha data database recovery s found x s')
  then have "tail_group crc sha data database recovery s = Inr (Some s')" "length data < 2 ^ 64" "unat (sg_committed s) \<le> length data" by auto
  from tail_group_progress[OF this] show ?case by (simp add: diff_less_mono2)
qed simp

declare scan_groups.simps [simp del]

definition scan_tail :: "(bytes \<Rightarrow> u32) \<Rightarrow> (bytes \<Rightarrow> bytes) \<Rightarrow> bytes \<Rightarrow> bytes \<Rightarrow> segment \<Rightarrow> tail_recovery \<Rightarrow> storage_error + segment option \<times> bool" where
  "scan_tail crc sha data database s recovery =
     (if length data < unat (sg_committed s) then Inl (Corrupt m_tail_truncated) else
      rbind (read_committed 96 data) (\<lambda>(header, _).
      rbind (validate_segment_header crc header database s) (\<lambda>_.
      scan_groups crc sha data database recovery s False)))"

text \<open>
  A file beyond the selected segments: \<open>None\<close> when it is skipped, otherwise the segment found
  in it and whether its end is incomplete; and the length to which recovery cuts the file, if
  any. The last sequence of a segment without a group is the one before its first.
\<close>

definition tail_segment :: "(bytes \<Rightarrow> u32) \<Rightarrow> (bytes \<Rightarrow> bytes) \<Rightarrow> bytes \<Rightarrow> tail_recovery \<Rightarrow> u64 \<Rightarrow> bytes \<Rightarrow>
    storage_error + (segment \<times> bool) option \<times> nat option" where
  "tail_segment crc sha database recovery i data =
     (if length data < SEGMENT_BYTES then Inr (None, None) else
      let header = take 96 data in
      if \<not> segment_crc_valid crc header \<and> recovery = DiscardInvalid then Inr (None, Some 0) else
      let first = u64_at header 40;
          s = \<lparr>sg_id = i, sg_first = first, sg_last = (if first = 0 then 0 else first - 1), sg_committed = of_nat SEGMENT_BYTES,
                sg_predecessor = array_at 32 header 48, sg_digest = array_at 32 header 48\<rparr> in
      rbind (validate_segment_header crc header database s) (\<lambda>_.
      if first = 0 \<or> first = - 1 then Inl (Corrupt m_tail_first)
      else if length data < BLOCK_BYTES then Inr (None, None)
      else case read_padding (BLOCK_BYTES - SEGMENT_BYTES) (drop 96 data) of
        Inl e \<Rightarrow> if discards recovery e then Inr (None, Some 0) else Inl e
      | Inr _ \<Rightarrow>
          rbind (scan_tail crc sha data database (s\<lparr>sg_committed := of_nat BLOCK_BYTES\<rparr>) recovery) (\<lambda>(found, partial).
          Inr (case found of
              None \<Rightarrow> (None, if partial then Some BLOCK_BYTES else None)
            | Some f \<Rightarrow> (Some (f, partial), Some (unat (sg_committed f)))))))"

text \<open>The state of the loop: the manifest, whether the last segment is incomplete, and the files to cut, in the order of the code.\<close>

type_synonym cuts = "(u64 \<times> nat) list"

definition cut_of :: "u64 \<Rightarrow> nat option \<Rightarrow> cuts" where
  "cut_of i len = (case len of None \<Rightarrow> [] | Some n \<Rightarrow> [(i, n)])"

definition recover_file :: "(bytes \<Rightarrow> u32) \<Rightarrow> (bytes \<Rightarrow> bytes) \<Rightarrow> logs \<Rightarrow> tail_recovery \<Rightarrow> u64 \<Rightarrow> manifest \<times> bool \<times> cuts \<Rightarrow>
    storage_error + manifest \<times> bool \<times> cuts" where
  "recover_file crc sha logs recovery i st =
     (case st of (m, incomplete, cuts) \<Rightarrow>
      case logs i of
        None \<Rightarrow> Inl (Io ''missing file'')
      | Some data \<Rightarrow>
          rbind (tail_segment crc sha (mf_database_id m) recovery i data) (\<lambda>(found, len).
          case found of
            None \<Rightarrow> Inr (m, incomplete, cuts @ cut_of i len)
          | Some (s, partial) \<Rightarrow>
              if incomplete \<or> sg_first s \<noteq> mf_durable_sequence m + 1 \<or> sg_predecessor s \<noteq> mf_durable_digest m
              then Inl (Corrupt m_tail_unlinked)
              else Inr (m\<lparr>mf_durable_sequence := sg_last s, mf_durable_digest := sg_digest s, mf_next_segment_id := sg_id s + 1,
                 mf_segments := mf_segments m @ [s]\<rparr>, partial, cuts @ cut_of i len)))"

definition recover_files :: "(bytes \<Rightarrow> u32) \<Rightarrow> (bytes \<Rightarrow> bytes) \<Rightarrow> logs \<Rightarrow> tail_recovery \<Rightarrow> u64 list \<Rightarrow> manifest \<times> bool \<times> cuts \<Rightarrow>
    storage_error + manifest \<times> bool \<times> cuts" where
  "recover_files crc sha logs recovery = rfold (recover_file crc sha logs recovery)"

text \<open>The selected manifest's last segment, extended by the groups after its committed bytes.\<close>

definition recover_selected :: "(bytes \<Rightarrow> u32) \<Rightarrow> (bytes \<Rightarrow> bytes) \<Rightarrow> logs \<Rightarrow> tail_recovery \<Rightarrow> manifest \<Rightarrow> storage_error + manifest \<times> bool \<times> cuts" where
  "recover_selected crc sha logs recovery selected =
     (if mf_segments selected = [] then Inr (selected, False, []) else
      let s = List.last (mf_segments selected) in
      case logs (sg_id s) of
        None \<Rightarrow> Inl (Io ''missing file'')
      | Some data \<Rightarrow>
          rbind (scan_tail crc sha data (mf_database_id selected) s recovery) (\<lambda>(extended, partial).
          Inr (case extended of
              None \<Rightarrow> (selected, partial, if partial then [(sg_id s, unat (sg_committed s))] else [])
            | Some e \<Rightarrow> (selected\<lparr>mf_durable_sequence := sg_last e, mf_durable_digest := sg_digest e,
                mf_segments := butlast (mf_segments selected) @ [e]\<rparr>, partial, [(sg_id e, unat (sg_committed e))]))))"

text \<open>\<^verbatim>\<open>segment_ids\<close>: the names \<^verbatim>\<open>log-<20 digits>.bin\<close> of the directory whose number is at least \<open>floor\<close>.\<close>

definition decimal :: "string \<Rightarrow> nat" where
  "decimal cs = foldl (\<lambda>n c. 10 * n + (of_char c - 48)) 0 cs"

definition segment_id :: "string \<Rightarrow> u64 option" where
  "segment_id name =
     (let digits = take 20 (drop 4 name) in
      if length name = 28 \<and> take 4 name = ''log-'' \<and> drop 24 name = ''.bin'' \<and>
        list_all (\<lambda>c. (48 :: nat) \<le> of_char c \<and> of_char c \<le> (57 :: nat)) digits \<and> decimal digits < 2 ^ 64
      then Some (of_nat (decimal digits)) else None)"

definition segment_ids :: "string list \<Rightarrow> u64 \<Rightarrow> storage_error + u64 list" where
  "segment_ids names floor =
     (let ids = filter (\<lambda>i. floor \<le> i \<and> i \<noteq> - 1) (List.map_filter segment_id names) in
      if length ids > 1048576 then Inl Exhausted else Inr (sort ids))"

text \<open>\<^verbatim>\<open>set_len\<close>, which pads with zeros when the file is shorter.\<close>

definition set_len :: "nat \<Rightarrow> bytes \<Rightarrow> bytes" where
  "set_len n bs = take n bs @ replicate (n - length bs) 0"

fun cut_files :: "cuts \<Rightarrow> logs \<Rightarrow> storage_error + logs" where
  "cut_files [] logs = Inr logs"
| "cut_files ((i, n) # cuts) logs =
     (case logs i of None \<Rightarrow> Inl (Io ''missing file'') | Some data \<Rightarrow> cut_files cuts (logs(i \<mapsto> set_len n data)))"

text \<open>The recovered manifest and the files after the cuts; \<open>names\<close> are the entries of the directory.\<close>

definition recover_tail :: "(bytes \<Rightarrow> u32) \<Rightarrow> (bytes \<Rightarrow> bytes) \<Rightarrow> logs \<Rightarrow> string list \<Rightarrow> tail_recovery \<Rightarrow> manifest \<Rightarrow> storage_error + manifest \<times> logs" where
  "recover_tail crc sha logs names recovery selected =
     rbind (recover_selected crc sha logs recovery selected) (\<lambda>st.
     rbind (segment_ids names (mf_next_segment_id selected)) (\<lambda>ids.
     rbind (recover_files crc sha logs recovery ids st) (\<lambda>(m, _, cuts).
     rbind (map_err Corrupt (validate_manifest m)) (\<lambda>_.
     rbind (cut_files cuts logs) (\<lambda>logs. Inr (m, logs))))))"

subsection \<open>Appending a group\<close>

text \<open>The records of a group, linked to the durable end: the bytes, the total length and the new end.\<close>

record gathered =
  ga_group :: "bytes list"
  ga_length :: nat
  ga_sequence :: u64
  ga_digest :: bytes

fun gather :: "(bytes \<Rightarrow> u32) \<Rightarrow> (bytes \<Rightarrow> bytes) \<Rightarrow> (u64 \<times> bytes) list \<Rightarrow> gathered \<Rightarrow> storage_error + gathered" where
  "gather crc sha [] g = Inr g"
| "gather crc sha ((sequence, bs) # records) g =
     (if length (ga_group g) = MAX_GROUP_RECORDS \<or> sequence = - 1 \<or> ga_sequence g = - 1 \<or> ga_sequence g + 1 \<noteq> sequence
      then Inl (InvalidInput m_append_sequence) else
      rbind (validate_record crc sha bs (length bs) sequence (ga_digest g)) (\<lambda>((consumed, digest), _).
      if consumed \<noteq> length bs then Inl (InvalidInput m_append_trailing)
      else if ga_length g + consumed \<ge> 2 ^ 64 then Inl Exhausted
      else gather crc sha records \<lparr>ga_group = ga_group g @ [bs], ga_length = ga_length g + consumed, ga_sequence = sequence, ga_digest = digest\<rparr>))"

definition gather_from :: "manifest \<Rightarrow> gathered" where
  "gather_from m = \<lparr>ga_group = [], ga_length = GROUP_OVERHEAD, ga_sequence = mf_durable_sequence m, ga_digest = mf_durable_digest m\<rparr>"

definition group_header_of :: "manifest \<Rightarrow> gathered \<Rightarrow> group_header" where
  "group_header_of m g = \<lparr>gh_bytes = of_nat (ga_length g), gh_first = mf_durable_sequence m + 1, gh_count = of_nat (length (ga_group g)),
     gh_predecessor = mf_durable_digest m, gh_last_digest = ga_digest g\<rparr>"

text \<open>What the group writes: its header, the records, the trailer and the padding.\<close>

definition group_image :: "(bytes \<Rightarrow> u32) \<Rightarrow> (bytes \<Rightarrow> bytes) \<Rightarrow> bytes \<Rightarrow> bytes list \<Rightarrow> u64 \<Rightarrow> nat \<Rightarrow> bytes" where
  "group_image crc sha header recs len physical =
     header @ concat recs @ trailer crc len (sha (header @ concat recs)) @ replicate (physical - unat len) 0"

text \<open>\<^verbatim>\<open>maintenance::allocate\<close>: the first ID at or above the given one without a file.\<close>

function allocate :: "logs \<Rightarrow> u64 \<Rightarrow> storage_error + u64" where
  "allocate logs i = (if i = 0 \<or> i = - 1 then Inl Exhausted else if logs i = None then Inr i else allocate logs (i + 1))"
  by pat_completeness auto
termination
proof (relation "measure (\<lambda>(_, i). 2 ^ 64 - unat i)", goal_cases)
  case (2 logs i)
  then have "1 + i \<noteq> 0" by (metis add.commute add_eq_0_iff)
  then have u: "unat (i + 1) = Suc (unat i)" by (metis unatSuc add.commute)
  have "unat i < 2 ^ LENGTH(64)" by (rule unsigned_less)
  then have "unat i < 2 ^ 64" by simp
  then show ?case unfolding in_measure prod.case u by (rule diff_less_mono2[OF lessI])
qed simp

declare allocate.simps [simp del]

text \<open>
  The content of the file the group goes to, what is written before the group, the descriptor
  of the segment, and the manifest with that segment last.
\<close>

definition append_target :: "(bytes \<Rightarrow> u32) \<Rightarrow> manifest \<Rightarrow> bool \<Rightarrow> logs \<Rightarrow> gathered \<Rightarrow> storage_error + bytes \<times> bytes \<times> segment \<times> manifest" where
  "append_target crc m rotating logs g =
     (let next = m\<lparr>mf_durable_sequence := ga_sequence g, mf_durable_digest := ga_digest g\<rparr> in
      if rotating \<or> mf_segments m = [] then
        rbind (allocate logs (mf_next_segment_id m)) (\<lambda>i.
        let s = \<lparr>sg_id = i, sg_first = mf_durable_sequence m + 1, sg_last = ga_sequence g, sg_committed = of_nat BLOCK_BYTES,
              sg_predecessor = mf_durable_digest m, sg_digest = ga_digest g\<rparr> in
        Inr ([], segment_header crc (mf_database_id m) s, s, next\<lparr>mf_next_segment_id := i + 1, mf_segments := mf_segments m @ [s]\<rparr>))
      else
        let s = List.last (mf_segments m) in
        case logs (sg_id s) of
          None \<Rightarrow> Inl (Io ''missing file'')
        | Some data \<Rightarrow>
            if length data \<noteq> unat (sg_committed s) then Inl (Corrupt m_append_length)
            else if unat (sg_committed s) mod BLOCK_BYTES \<noteq> 0 then Inl (Corrupt m_append_aligned)
            else Inr (data, [], s, next))"

text \<open>
  \<open>fault\<close> is a failure of the platform: how many bytes reach the file before it, and its error.
\<close>

definition append_group :: "(bytes \<Rightarrow> u32) \<Rightarrow> (bytes \<Rightarrow> bytes) \<Rightarrow> (nat \<times> storage_error) option \<Rightarrow> (u64 \<times> bytes) list \<Rightarrow> manifest \<Rightarrow> bool \<Rightarrow> logs \<Rightarrow>
    (storage_error + manifest) \<times> logs" where
  "append_group crc sha fault records m rotating logs =
     (case rbind (gather crc sha records (gather_from m)) (\<lambda>g.
         if ga_group g = [] then Inl (InvalidInput m_append_empty) else
         rbind (group_encode crc (group_header_of m g)) (\<lambda>header.
         rbind (group_bytes (ga_length g)) (\<lambda>physical.
         rbind (append_target crc m rotating logs g) (\<lambda>(data, front, s, next). Inr (g, header, physical, data, front, s, next))))) of
        Inl e \<Rightarrow> (Inl e, logs)
      | Inr (g, header, physical, data, front, s, next) \<Rightarrow>
          if unat (sg_committed s) + physical \<ge> 2 ^ 64 then (Inl Exhausted, logs(sg_id s \<mapsto> data @ front)) else
          let s' = s\<lparr>sg_committed := sg_committed s + of_nat physical, sg_last := ga_sequence g, sg_digest := ga_digest g\<rparr>;
              next = next\<lparr>mf_segments := butlast (mf_segments next) @ [s']\<rparr>;
              image = group_image crc sha header (ga_group g) (of_nat (ga_length g)) physical in
          case validate_manifest next of
            Inl reason \<Rightarrow> (Inl (InvalidInput reason), logs(sg_id s \<mapsto> data @ front))
          | Inr _ \<Rightarrow>
              (case fault of
                 Some (n, e) \<Rightarrow> (Inl e, logs(sg_id s \<mapsto> data @ take n (front @ image)))
               | None \<Rightarrow> (Inr next, logs(sg_id s \<mapsto> data @ front @ image))))"

end
