(* ===== verification/Blop_Log.thy ===== *)
theory Blop_Log
  imports Blop_Wal
begin

section \<open>Durability of the log (\<^verbatim>\<open>src/storage/store/wal.rs\<close>)\<close>

text \<open>
  What is appended is read back, and recovery finds every complete group and nothing of an
  incomplete one. The digest is assumed to have 32 bytes where its length matters.
\<close>

subsection \<open>Framing\<close>

definition group_shape :: "group_header \<Rightarrow> bool" where
  "group_shape h \<longleftrightarrow> length (gh_predecessor h) = 32 \<and> length (gh_last_digest h) = 32"

lemma magic_bytes [simp]: "length BLOPWG01 = 8" "length BLOPGE01 = 8" "length BLOPLG01 = 8"
  by (simp_all add: BLOPWG01_def BLOPGE01_def BLOPLG01_def)

lemma length_group_front [simp]: "group_shape h \<Longrightarrow> length (group_front h) = 108"
  by (simp add: group_front_def group_shape_def)

lemma group_decode_encoded:
  assumes "group_shape h" "group_encode crc h = Inr bs"
  shows "length bs = 112" "group_decode crc bs = Inr h"
proof -
  have e: "valid_group h" "bs = group_front h @ u32_le (crc (group_front h))" using assms(2) by (auto simp: group_encode_def split: if_splits)
  show "length bs = 112" using assms(1) by (simp add: e(2))
  have "take 108 bs = group_front h" "u32_at bs 108 = crc (group_front h)" using assms(1) by (simp_all add: e(2) at_skip)
  moreover have "take 8 bs = BLOPWG01" "u16_at bs 8 = 1" "array_at 2 bs 10 = replicate 2 0" "u32_at bs 12 = of_nat HEADER_BYTES"
    "u64_at bs 16 = gh_bytes h" "u64_at bs 24 = gh_first h" "u32_at bs 32 = gh_count h" "array_at 4 bs 36 = replicate 4 0"
    "array_at 32 bs 40 = gh_predecessor h" "array_at 32 bs 72 = gh_last_digest h" "array_at 4 bs 104 = replicate 4 0"
    using assms(1) by (simp_all add: e(2) group_front_def group_shape_def at_skip)
  ultimately show "group_decode crc bs = Inr h" using e(1) by (cases h) (simp add: group_decode_def Let_def)
qed

lemma length_trailer [simp]: "length digest = 32 \<Longrightarrow> length (trailer crc len digest) = TRAILER_BYTES"
  by (simp add: trailer_def Let_def TRAILER_BYTES_def)

subsection \<open>Records\<close>

text \<open>Each record is canonical and linked to the one before it.\<close>

fun linked_records :: "(bytes \<Rightarrow> u32) \<Rightarrow> (bytes \<Rightarrow> bytes) \<Rightarrow> bytes list \<Rightarrow> u64 \<Rightarrow> bytes \<Rightarrow> bool" where
  "linked_records crc sha [] sequence predecessor \<longleftrightarrow> True"
| "linked_records crc sha (bs # recs) sequence predecessor \<longleftrightarrow>
     validate_record crc sha bs (length bs) sequence predecessor = Inr ((length bs, sha bs), []) \<and>
     linked_records crc sha recs (sequence + 1) (sha bs)"

fun records_of :: "(bytes \<Rightarrow> bytes) \<Rightarrow> bytes list \<Rightarrow> u64 \<Rightarrow> log_record list" where
  "records_of sha [] sequence = []"
| "records_of sha (bs # recs) sequence = \<lparr>lr_sequence = sequence, lr_digest = sha bs, lr_bytes = bs\<rparr> # records_of sha recs (sequence + 1)"

definition end_digest :: "(bytes \<Rightarrow> bytes) \<Rightarrow> bytes \<Rightarrow> bytes list \<Rightarrow> bytes" where
  "end_digest sha predecessor recs = (if recs = [] then predecessor else sha (last recs))"

lemma validate_record_bounds:
  assumes "validate_record crc sha input remaining sequence predecessor = Inr ((len, digest), rest)"
  shows "72 \<le> len" "len \<le> MAX_RECORD_LENGTH" "len \<le> length input" "rest = drop len input" "digest = sha (take len input)"
    "unat (u32_at input 8) = len"
proof -
  let ?h = "take 64 input" let ?b = "unat (u32_at ?h 12)"
  have v: "64 \<le> length input" "len = 72 + ?b" "len \<le> MAX_RECORD_LENGTH" "?b \<le> length (drop 64 input)" "8 \<le> length (drop ?b (drop 64 input))"
    "rest = drop 8 (drop ?b (drop 64 input))" "digest = sha (?h @ take ?b (drop 64 input) @ take 8 (drop ?b (drop 64 input)))" "unat (u32_at ?h 8) = len"
    using assms by (auto simp: validate_record_def Let_def rbind_eq_Inr read_committed_Inr split: if_splits)
  show "72 \<le> len" "len \<le> MAX_RECORD_LENGTH" "len \<le> length input" using v by simp_all
  show "rest = drop len input" using v(2,6) by (simp add: add.commute)
  have "take len input = ?h @ take ?b (drop 64 input) @ take 8 (drop ?b (drop 64 input))"
    using v(2) take_add[of 64 "?b + 8" input] take_add[of ?b 8 "drop 64 input"] by (simp add: add.commute)
  then show "digest = sha (take len input)" using v(7) by simp
  show "unat (u32_at input 8) = len" using v(8) by (simp add: u32_at_def drop_take)
qed

lemma read_canonical_record:
  assumes "validate_record crc sha bs (length bs) sequence predecessor = Inr ((length bs, sha bs), [])" "length bs \<le> remaining"
  shows "read_canonical crc sha (bs @ rest) remaining sequence predecessor =
    Inr (\<lparr>lr_sequence = sequence, lr_digest = sha bs, lr_bytes = bs\<rparr>, rest)"
proof -
  note b = validate_record_bounds[OF assms(1)]
  have h: "read_committed 64 (bs @ rest) = Inr (take 64 bs, drop 64 bs @ rest)" using b(1) by (simp add: read_committed_def)
  have n: "unat (u32_at (take 64 bs) 8) = length bs" using b(6) by (simp add: u32_at_def drop_take)
  have t: "read_committed (length bs - 64) (drop 64 bs @ rest) = Inr (drop 64 bs, rest)" by (simp add: read_committed_def)
  show ?thesis using assms b(1,2) by (simp add: read_canonical_def h n t)
qed

text \<open>The bytes after the records of an open group.\<close>

definition group_rest :: "(bytes \<Rightarrow> u32) \<Rightarrow> (bytes \<Rightarrow> bytes) \<Rightarrow> group_header \<Rightarrow> bytes \<Rightarrow> nat \<Rightarrow> bytes" where
  "group_rest crc sha h hashed physical = trailer crc (gh_bytes h) (sha hashed) @ replicate (physical - unat (gh_bytes h)) 0"

lemma close_group_reads:
  assumes "rs_input rs = group_rest crc sha (og_header g) (og_hashed g) physical @ rest" "og_remaining g = 0" "digest = gh_last_digest (og_header g)"
    "group_bytes (unat (gh_bytes (og_header g))) = Inr physical" "\<And>bs. length (sha bs) = 32"
  shows "close_group crc sha g digest rs = Inr (rs\<lparr>rs_input := rest,
    rs_remaining := rs_remaining rs - (TRAILER_BYTES + (physical - unat (gh_bytes (og_header g)))), rs_group := None\<rparr>)"
proof -
  let ?t = "trailer crc (gh_bytes (og_header g)) (sha (og_hashed g))" and ?p = "physical - unat (gh_bytes (og_header g))"
  have "?p \<le> BLOCK_BYTES" using group_bytes_Inr[OF assms(4)] by linarith
  then have "read_padding ?p (replicate ?p 0 @ rest) = Inr rest" by (simp add: read_padding_Inr)
  moreover have "read_committed TRAILER_BYTES (rs_input rs) = Inr (?t, replicate ?p 0 @ rest)"
    unfolding assms(1) group_rest_def using length_trailer[OF assms(5)] by (simp add: read_committed_def)
  ultimately show ?thesis using assms(2,3,4) by (simp add: close_group_def Let_def)
qed

lemma sequence_step:
  fixes s :: u64
  assumes "unat s + n < 2 ^ 64"
  shows "unat (s + of_nat n) = unat s + n"
  using assms by (simp add: unat_word_ariths unat_of_nat)

text \<open>The records of an open group that ends the prefix, from the first unread one on.\<close>

lemma read_group:
  assumes len: "\<And>bs. length (sha bs) = 32" and ph: "group_bytes (unat (gh_bytes h)) = Inr physical"
  shows "recs \<noteq> [] \<Longrightarrow> linked_records crc sha recs (rs_sequence rs) (rs_predecessor rs) \<Longrightarrow>
    rs_group rs = Some \<lparr>og_header = h, og_remaining = length (concat recs), og_records = length recs, og_hashed = hashed\<rparr> \<Longrightarrow>
    rs_input rs = concat recs @ group_rest crc sha h (hashed @ concat recs) physical \<Longrightarrow>
    rs_remaining rs = length (concat recs) + (TRAILER_BYTES + (physical - unat (gh_bytes h))) \<Longrightarrow>
    gh_last_digest h = sha (last recs) \<Longrightarrow> rs_last_digest rs = sha (last recs) \<Longrightarrow>
    unat (rs_sequence rs) + length recs = unat (rs_last rs) + 1 \<Longrightarrow> unat (rs_last rs) + 1 < 2 ^ 64 \<Longrightarrow>
    read_records crc sha rs = Inr (records_of sha recs (rs_sequence rs))"
proof (induction recs arbitrary: rs hashed)
  case (Cons bs recs)
  let ?g = "\<lparr>og_header = h, og_remaining = length (concat (bs # recs)), og_records = length (bs # recs), og_hashed = hashed\<rparr>"
  let ?r = "\<lparr>lr_sequence = rs_sequence rs, lr_digest = sha bs, lr_bytes = bs\<rparr>"
  let ?rest = "concat recs @ group_rest crc sha h (hashed @ concat (bs # recs)) physical"
  have v: "validate_record crc sha bs (length bs) (rs_sequence rs) (rs_predecessor rs) = Inr ((length bs, sha bs), [])"
    and link: "linked_records crc sha recs (rs_sequence rs + 1) (sha bs)" using Cons.prems(2) by simp_all
  have read: "read_canonical crc sha (rs_input rs) (og_remaining ?g) (rs_sequence rs) (rs_predecessor rs) = Inr (?r, ?rest)"
    using read_canonical_record[OF v, of "og_remaining ?g" ?rest] Cons.prems(4) by simp
  define rs1 where "rs1 = advance_reader ?r ?rest ?g rs"
  have step: "next_record crc sha rs = rbind (finish_group crc sha ?r rs1) (\<lambda>rs. end_of_log ?r rs)"
    using Cons.prems(3) read by (simp add: next_record_def in_group_def rs1_def)
  have s1: "unat (rs_sequence rs + 1) = unat (rs_sequence rs) + 1" using sequence_step[of "rs_sequence rs" 1] Cons.prems(8,9) by simp
  have seq: "rs_sequence rs1 = rs_sequence rs + 1" "rs_last rs1 = rs_last rs" by (simp_all add: rs1_def advance_reader_def)
  show ?case
  proof (cases "recs = []")
    case True
    have "finish_group crc sha ?r rs1 = close_group crc sha (?g\<lparr>og_hashed := hashed @ bs, og_remaining := 0, og_records := 0\<rparr>) (sha bs) rs1"
      by (simp add: finish_group_def rs1_def advance_reader_def True)
    also have "\<dots> = Inr (rs1\<lparr>rs_input := [], rs_remaining := 0, rs_group := None\<rparr>)"
      using Cons.prems(5,6) True ph
      by (subst close_group_reads[OF _ _ _ _ len, where physical = physical and rest = "[]"]) (simp_all add: rs1_def advance_reader_def)
    finally have "next_record crc sha rs = Inr (?r, rs1\<lparr>rs_input := [], rs_remaining := 0, rs_group := None\<rparr>)"
      using step Cons.prems(7) True by (simp add: end_of_log_def rs1_def advance_reader_def)
    moreover have "rs_last rs1 < rs_sequence rs1" using s1 seq Cons.prems(8) True by (simp add: word_less_nat_alt)
    ultimately show ?thesis by (subst read_records.simps) (simp add: True)
  next
    case False
    have f: "finish_group crc sha ?r rs1 = Inr rs1" using False by (simp add: finish_group_def rs1_def advance_reader_def)
    have "0 < length recs" using False by simp
    then have "unat (rs_sequence rs + 1) \<le> unat (rs_last rs)" using Cons.prems(8) unfolding s1 list.size by linarith
    then have le: "\<not> rs_last rs1 < rs_sequence rs1" unfolding seq by (simp add: word_less_nat_alt)
    have n: "next_record crc sha rs = Inr (?r, rs1)" using step f le by (simp add: end_of_log_def)
    have ih: "read_records crc sha rs1 = Inr (records_of sha recs (rs_sequence rs1))"
      by (rule Cons.IH[of rs1 "hashed @ bs"]) (use False link s1 Cons.prems in \<open>simp_all add: rs1_def advance_reader_def\<close>)
    show ?thesis by (subst read_records.simps) (simp add: n le[unfolded seq] ih seq)
  qed
qed simp

subsection \<open>Whole groups\<close>

text \<open>\<open>im\<close> is a complete group of the records \<open>recs\<close> that continues segment \<open>s\<close> to \<open>s'\<close>.\<close>

definition is_group :: "(bytes \<Rightarrow> u32) \<Rightarrow> (bytes \<Rightarrow> bytes) \<Rightarrow> segment \<Rightarrow> bytes list \<Rightarrow> bytes \<Rightarrow> segment \<Rightarrow> bool" where
  "is_group crc sha s recs im s' \<longleftrightarrow> (\<exists>h header physical.
     group_shape h \<and> group_encode crc h = Inr header \<and> group_bytes (unat (gh_bytes h)) = Inr physical \<and>
     gh_first h = sg_last s + 1 \<and> gh_predecessor h = sg_digest s \<and> unat (gh_count h) = length recs \<and>
     unat (gh_bytes h) = GROUP_OVERHEAD + length (concat recs) \<and> gh_last_digest h = sha (last recs) \<and>
     linked_records crc sha recs (sg_last s + 1) (sg_digest s) \<and>
     im = group_image crc sha header recs (gh_bytes h) physical \<and> s' = tail_candidate s h physical)"

text \<open>The reader of the bytes after \<open>s\<close> up to the end of \<open>s'\<close>.\<close>

definition suffix_reader :: "segment \<Rightarrow> segment \<Rightarrow> bytes \<Rightarrow> reader" where
  "suffix_reader s s' input = \<lparr>rs_input = input, rs_remaining = length input, rs_sequence = sg_last s + 1, rs_predecessor = sg_digest s,
     rs_last = sg_last s', rs_last_digest = sg_digest s', rs_group = None\<rparr>"

lemma group_last:
  assumes "valid_group h"
  shows "unat (gh_first h + ucast (gh_count h) - 1) + 1 = unat (gh_first h) + unat (gh_count h)" "unat (gh_first h) + unat (gh_count h) < 2 ^ 64"
    "0 < unat (gh_count h)"
proof -
  show c: "unat (gh_first h) + unat (gh_count h) < 2 ^ 64" and p: "0 < unat (gh_count h)" using assms by (simp_all add: valid_group_def)
  have "unat (gh_count h) < 2 ^ 64" using c by simp
  then have "unat (ucast (gh_count h) :: u64) = unat (gh_count h)" by (simp add: unsigned_ucast_eq take_bit_nat_eq_self)
  then have u: "unat (gh_first h + ucast (gh_count h)) = unat (gh_first h) + unat (gh_count h)" using c by (simp add: unat_word_ariths)
  then have "gh_first h + ucast (gh_count h) \<noteq> 0" using p by (metis add_gr_0 unat_0 less_numeral_extra(3))
  then show "unat (gh_first h + ucast (gh_count h) - 1) + 1 = unat (gh_first h) + unat (gh_count h)"
    using u p by (simp add: unat_minus_one)
qed

lemma group_image_length:
  assumes "length header = HEADER_BYTES" "\<And>bs. length (sha bs) = 32" "unat len = GROUP_OVERHEAD + length (concat recs)" "unat len \<le> physical"
  shows "length (group_image crc sha header recs len physical) = physical"
  using assms by (simp add: group_image_def GROUP_OVERHEAD_def HEADER_BYTES_def TRAILER_BYTES_def)

lemma image_reads:
  assumes g: "is_group crc sha s recs im s'" and len: "\<And>bs. length (sha bs) = 32"
  shows "read_records crc sha (suffix_reader s s' im) = Inr (records_of sha recs (sg_last s + 1))"
proof -
  obtain h header physical where h: "group_shape h" "group_encode crc h = Inr header" "group_bytes (unat (gh_bytes h)) = Inr physical"
    "gh_first h = sg_last s + 1" "gh_predecessor h = sg_digest s" "unat (gh_count h) = length recs"
    "unat (gh_bytes h) = GROUP_OVERHEAD + length (concat recs)" "gh_last_digest h = sha (last recs)"
    "linked_records crc sha recs (sg_last s + 1) (sg_digest s)" "im = group_image crc sha header recs (gh_bytes h) physical" "s' = tail_candidate s h physical"
    using g by (auto simp: is_group_def)
  note d = group_decode_encoded[OF h(1,2)]
  note v = group_decode_valid[OF d(2)]
  have p: "unat (gh_bytes h) \<le> physical" using group_bytes_Inr[OF h(3)] by simp
  have n: "length im = physical" unfolding h(10) by (rule group_image_length) (use d len h p in \<open>simp_all add: HEADER_BYTES_def\<close>)
  let ?rest = "concat recs @ group_rest crc sha h (header @ concat recs) physical"
  have i: "im = header @ ?rest" by (simp add: h(10) group_image_def group_rest_def)
  let ?rs = "suffix_reader s s' im"
  let ?g = "\<lparr>og_header = h, og_remaining = length (concat recs), og_records = length recs, og_hashed = header\<rparr>"
  let ?rs1 = "?rs\<lparr>rs_input := ?rest, rs_remaining := physical - HEADER_BYTES, rs_group := Some ?g\<rparr>"
  have l: "sg_last s' = gh_first h + ucast (gh_count h) - 1" "sg_digest s' = sha (last recs)" by (simp_all add: h(8,11) tail_candidate_def)
  have rc: "read_committed HEADER_BYTES im = Inr (header, ?rest)" using d(1) by (simp add: i read_committed_def HEADER_BYTES_def)
  have o: "open_next_group crc ?rs = Inr ?rs1"
    using rc d(2) h(3-7) n p l by (simp add: open_next_group_def suffix_reader_def)
  have e: "recs \<noteq> []" using group_last(3)[OF v] h(6) by auto
  have "next_record crc sha ?rs = next_record crc sha ?rs1" using o by (simp add: next_record_def suffix_reader_def)
  then have "read_records crc sha ?rs = read_records crc sha ?rs1" by (subst (1 2) read_records.simps) simp
  also have "\<dots> = Inr (records_of sha recs (rs_sequence ?rs1))"
  proof (rule read_group[OF len h(3) e])
    show "rs_remaining ?rs1 = length (concat recs) + (TRAILER_BYTES + (physical - unat (gh_bytes h)))"
      using p h(7) by (simp add: GROUP_OVERHEAD_def HEADER_BYTES_def TRAILER_BYTES_def)
    show "unat (rs_sequence ?rs1) + length recs = unat (rs_last ?rs1) + 1" "unat (rs_last ?rs1) + 1 < 2 ^ 64"
      using group_last(1,2)[OF v] h(4,6) by (simp_all add: suffix_reader_def l)
  qed (use h(8,9) l in \<open>simp_all add: suffix_reader_def\<close>)
  finally show ?thesis by (simp add: suffix_reader_def)
qed

subsection \<open>Groups at the end of a segment\<close>

text \<open>The first block of a segment's file.\<close>

definition block_ok :: "(bytes \<Rightarrow> u32) \<Rightarrow> bytes \<Rightarrow> segment \<Rightarrow> bytes \<Rightarrow> bool" where
  "block_ok crc database s data \<longleftrightarrow> BLOCK_BYTES \<le> length data \<and> validate_segment_header crc (take 96 data) database s = Inr () \<and>
     read_padding (BLOCK_BYTES - SEGMENT_BYTES) (drop 96 data) = Inr (drop BLOCK_BYTES data)"

lemma same_header:
  "sg_id s' = sg_id s \<Longrightarrow> sg_first s' = sg_first s \<Longrightarrow> sg_predecessor s' = sg_predecessor s \<Longrightarrow>
   validate_segment_header crc header database s' = validate_segment_header crc header database s"
  by (simp add: validate_segment_header_def)

lemma candidate_same [simp]: "sg_id (tail_candidate s h n) = sg_id s" "sg_first (tail_candidate s h n) = sg_first s"
  "sg_predecessor (tail_candidate s h n) = sg_predecessor s"
  by (simp_all add: tail_candidate_def)

lemma take_same_prefix: "take n xs = take n ys \<Longrightarrow> m \<le> n \<Longrightarrow> take m xs = take m ys"
  by (metis min.absorb1 take_take)

lemma block_ok_prefix:
  assumes "take n data = take n data'" "BLOCK_BYTES \<le> n" "BLOCK_BYTES \<le> length data'" "block_ok crc database s data"
  shows "block_ok crc database s data'"
proof -
  have "take 96 data' = take 96 data" using take_same_prefix[OF assms(1), of 96] assms(2) by (simp add: BLOCK_BYTES_def)
  moreover have "take (BLOCK_BYTES - SEGMENT_BYTES) (drop 96 data') = take (BLOCK_BYTES - SEGMENT_BYTES) (drop 96 data)"
    using take_same_prefix[OF assms(1,2)] by (simp add: BLOCK_BYTES_def SEGMENT_BYTES_def take_drop)
  ultimately show ?thesis using assms(3,4) by (auto simp: block_ok_def read_padding_Inr BLOCK_BYTES_def SEGMENT_BYTES_def)
qed

lemma reader_suffix_Inr:
  "reader_suffix crc data database s offset first predecessor = Inr rs \<longleftrightarrow>
   validate_descriptor s = Inr () \<and> block_ok crc database s data \<and> BLOCK_BYTES \<le> offset \<and> offset \<le> unat (sg_committed s) \<and>
   sg_first s \<le> first \<and> first \<le> sg_last s \<and> offset mod BLOCK_BYTES = 0 \<and>
   rs = \<lparr>rs_input = take (unat (sg_committed s) - offset) (drop offset data), rs_remaining = unat (sg_committed s) - offset,
     rs_sequence = first, rs_predecessor = predecessor, rs_last = sg_last s, rs_last_digest = sg_digest s, rs_group = None\<rparr>"
  by (auto simp: reader_suffix_def block_ok_def rbind_eq_Inr read_committed_Inr read_padding_Inr map_err_eq_Inr Let_def
      BLOCK_BYTES_def SEGMENT_BYTES_def split: if_splits)

lemma accepted:
  "(case r of Inl e \<Rightarrow> if d e then Inr None else Inl e | Inr _ \<Rightarrow> Inr (Some c)) = Inr (Some c') \<longleftrightarrow> c = c' \<and> (\<exists>y. r = Inr y)"
  by (cases r) auto

lemma tail_group_Some:
  "tail_group crc sha data database recovery s = Inr (Some s') \<longleftrightarrow>
   (\<exists>h physical rs xs. HEADER_BYTES \<le> length data - unat (sg_committed s) \<and>
     group_decode crc (take HEADER_BYTES (drop (unat (sg_committed s)) data)) = Inr h \<and> gh_first h = sg_last s + 1 \<and> gh_predecessor h = sg_digest s \<and>
     group_bytes (unat (gh_bytes h)) = Inr physical \<and> physical \<le> length data - unat (sg_committed s) \<and> s' = tail_candidate s h physical \<and>
     reader_suffix crc data database s' (unat (sg_committed s)) (sg_last s + 1) (sg_digest s) = Inr rs \<and> read_records crc sha rs = Inr xs)"
proof (cases "group_decode crc (take HEADER_BYTES (drop (unat (sg_committed s)) data))")
  case (Inr h)
  then show ?thesis
    by (cases "group_bytes (unat (gh_bytes h))") (auto simp: tail_group_def Let_def accepted rbind_eq_Inr not_less split: if_splits)
qed (simp add: tail_group_def Let_def)

lemma candidate_committed:
  assumes "physical \<le> length data - unat (sg_committed s)" "length data < 2 ^ 64" "unat (sg_committed s) \<le> length data"
  shows "unat (sg_committed (tail_candidate s h physical)) = unat (sg_committed s) + physical"
proof -
  have "unat (sg_committed s) + physical < 2 ^ 64" using assms by linarith
  then show ?thesis using sequence_step by (simp add: tail_candidate_def)
qed

text \<open>An accepted group depends on the bytes up to its end only.\<close>

lemma tail_group_local:
  assumes t: "tail_group crc sha data database recovery s = Inr (Some s')" and l: "length data < 2 ^ 64" "unat (sg_committed s) \<le> length data"
    and p: "take (unat (sg_committed s')) data' = take (unat (sg_committed s')) data" "unat (sg_committed s') \<le> length data'"
  shows "tail_group crc sha data' database recovery s = Inr (Some s')"
proof -
  let ?o = "unat (sg_committed s)" and ?c = "unat (sg_committed s')"
  obtain h physical rs xs where h: "HEADER_BYTES \<le> length data - ?o" "group_decode crc (take HEADER_BYTES (drop ?o data)) = Inr h"
    "gh_first h = sg_last s + 1" "gh_predecessor h = sg_digest s" "group_bytes (unat (gh_bytes h)) = Inr physical" "physical \<le> length data - ?o"
    "s' = tail_candidate s h physical" "reader_suffix crc data database s' ?o (sg_last s + 1) (sg_digest s) = Inr rs" "read_records crc sha rs = Inr xs"
    using t by (auto simp: tail_group_Some)
  have c: "?c = ?o + physical" using candidate_committed[OF h(6) l] h(7) by simp
  have g: "GROUP_OVERHEAD \<le> physical" using group_decode_valid[OF h(2)] group_bytes_Inr[OF h(5)] by (simp add: valid_group_def)
  have d: "take n (drop ?o data') = take n (drop ?o data)" if "n \<le> physical" for n
    using take_same_prefix[OF p(1), of "?o + n"] c that by (simp add: take_drop add.commute)
  have r: "validate_descriptor s' = Inr ()" "block_ok crc database s' data" "BLOCK_BYTES \<le> ?o" "sg_first s' \<le> sg_last s + 1" "sg_last s + 1 \<le> sg_last s'"
    "?o mod BLOCK_BYTES = 0"
    "rs = \<lparr>rs_input = take (?c - ?o) (drop ?o data), rs_remaining = ?c - ?o, rs_sequence = sg_last s + 1, rs_predecessor = sg_digest s,
      rs_last = sg_last s', rs_last_digest = sg_digest s', rs_group = None\<rparr>"
    using h(8) by (simp_all add: reader_suffix_Inr)
  have b: "block_ok crc database s' data'" by (rule block_ok_prefix[OF p(1)[symmetric] _ _ r(2)]) (use r(3) c p(2) in simp_all)
  have n: "physical \<le> length data' - ?o" using p(2) c by simp
  have hd: "HEADER_BYTES \<le> physical" using g by (simp add: GROUP_OVERHEAD_def HEADER_BYTES_def)
  have rs: "reader_suffix crc data' database s' ?o (sg_last s + 1) (sg_digest s) = Inr rs"
    unfolding reader_suffix_Inr using r b c d by simp
  have gd: "group_decode crc (take HEADER_BYTES (drop ?o data')) = Inr h" using d[OF hd] h(2) by simp
  show ?thesis unfolding tail_group_Some by (intro exI[of _ h] exI[of _ physical] exI[of _ rs] exI[of _ xs] conjI) (use gd rs n hd h in simp_all)
qed

text \<open>What a group needs around it to be accepted.\<close>

definition extends :: "(bytes \<Rightarrow> u32) \<Rightarrow> (bytes \<Rightarrow> bytes) \<Rightarrow> bytes \<Rightarrow> bytes \<Rightarrow> segment \<Rightarrow> bytes list \<Rightarrow> bytes \<Rightarrow> segment \<Rightarrow> bool" where
  "extends crc sha database base s recs im s' \<longleftrightarrow> is_group crc sha s recs im s' \<and> (\<forall>bs. length (sha bs) = 32) \<and>
     length base = unat (sg_committed s) \<and> length base + length im < 2 ^ 64 \<and> length base mod BLOCK_BYTES = 0 \<and>
     block_ok crc database s base \<and> validate_descriptor s' = Inr () \<and> sg_first s \<le> sg_last s + 1"

lemma is_groupE:
  assumes "is_group crc sha s recs im s'" "\<forall>bs. length (sha bs) = 32"
  obtains h header physical where "group_decode crc header = Inr h" "length header = HEADER_BYTES" "take HEADER_BYTES im = header"
    "gh_first h = sg_last s + 1" "gh_predecessor h = sg_digest s" "group_bytes (unat (gh_bytes h)) = Inr physical" "length im = physical"
    "s' = tail_candidate s h physical" "HEADER_BYTES \<le> physical" "valid_group h" "unat (gh_count h) = length recs" "sg_digest s' = sha (last recs)"
proof -
  obtain h header physical where h: "group_shape h" "group_encode crc h = Inr header" "group_bytes (unat (gh_bytes h)) = Inr physical"
    "gh_first h = sg_last s + 1" "gh_predecessor h = sg_digest s" "unat (gh_count h) = length recs"
    "unat (gh_bytes h) = GROUP_OVERHEAD + length (concat recs)" "gh_last_digest h = sha (last recs)"
    "im = group_image crc sha header recs (gh_bytes h) physical" "s' = tail_candidate s h physical"
    using assms(1) by (auto simp: is_group_def)
  note d = group_decode_encoded[OF h(1,2)]
  have p: "unat (gh_bytes h) \<le> physical" using group_bytes_Inr[OF h(3)] by simp
  have l: "length header = HEADER_BYTES" using d(1) by (simp add: HEADER_BYTES_def)
  have n: "length im = physical" unfolding h(9) by (rule group_image_length) (use l assms(2) h p in simp_all)
  show thesis
    by (rule that[OF d(2) l _ h(4,5,3) n h(10)])
      (use l p h in \<open>simp_all add: group_image_def GROUP_OVERHEAD_def HEADER_BYTES_def group_decode_valid[OF d(2)] tail_candidate_def\<close>)
qed

lemma tail_group_extends:
  assumes "extends crc sha database base s recs im s'"
  shows "tail_group crc sha (base @ im) database recovery s = Inr (Some s')" "unat (sg_committed s') = length (base @ im)"
proof -
  have e: "is_group crc sha s recs im s'" "\<forall>bs. length (sha bs) = 32" "length base = unat (sg_committed s)" "length base + length im < 2 ^ 64"
    "length base mod BLOCK_BYTES = 0" "block_ok crc database s base" "validate_descriptor s' = Inr ()" "sg_first s \<le> sg_last s + 1"
    using assms unfolding extends_def by blast+
  obtain h header physical where h: "group_decode crc header = Inr h" "length header = HEADER_BYTES" "take HEADER_BYTES im = header"
    "gh_first h = sg_last s + 1" "gh_predecessor h = sg_digest s" "group_bytes (unat (gh_bytes h)) = Inr physical" "length im = physical"
    "s' = tail_candidate s h physical" "HEADER_BYTES \<le> physical" "valid_group h" using is_groupE[OF e(1,2)] by metis
  show c: "unat (sg_committed s') = length (base @ im)" using candidate_committed[of physical "base @ im" s h] e(3,4) h(7,8) by simp
  have b: "block_ok crc database s' (base @ im)"
  proof -
    have "block_ok crc database s (base @ im)" by (rule block_ok_prefix[of "length base" base, OF _ _ _ e(6)]) (use e(6) in \<open>simp_all add: block_ok_def\<close>)
    then show ?thesis by (simp add: block_ok_def h(8) same_header[of "tail_candidate s h physical" s])
  qed
  have l: "sg_last s + 1 \<le> sg_last s'"
    using group_last[OF h(10)] h(4) by (simp add: h(8) tail_candidate_def word_le_nat_alt)
  have k: "BLOCK_BYTES \<le> length base" using e(6) by (simp add: block_ok_def)
  have r: "reader_suffix crc (base @ im) database s' (unat (sg_committed s)) (sg_last s + 1) (sg_digest s) = Inr (suffix_reader s s' im)"
    unfolding reader_suffix_Inr using e k b l c by (simp add: suffix_reader_def h(8) flip: e(3))
  have rr: "read_records crc sha (suffix_reader s s' im) = Inr (records_of sha recs (sg_last s + 1))" using image_reads[OF e(1)] e(2) by simp
  show "tail_group crc sha (base @ im) database recovery s = Inr (Some s')" unfolding tail_group_Some
    by (intro exI[of _ h] exI[of _ physical] exI[of _ "suffix_reader s s' im"] exI[of _ "records_of sha recs (sg_last s + 1)"] conjI)
      (use h r rr in \<open>simp_all flip: e(3)\<close>)
qed

text \<open>A group whose end is missing is not accepted.\<close>

lemma tail_group_torn:
  assumes "extends crc sha database base s recs im s'" "n < length im"
  shows "tail_group crc sha (base @ take n im) database recovery s = Inr None"
proof -
  have e: "is_group crc sha s recs im s'" "\<forall>bs. length (sha bs) = 32" "unat (sg_committed s) = length base" using assms by (simp_all add: extends_def)
  obtain h header physical where h: "group_decode crc header = Inr h" "length header = HEADER_BYTES" "take HEADER_BYTES im = header"
    "gh_first h = sg_last s + 1" "gh_predecessor h = sg_digest s" "group_bytes (unat (gh_bytes h)) = Inr physical" "length im = physical"
    "s' = tail_candidate s h physical" "HEADER_BYTES \<le> physical" "valid_group h" using is_groupE[OF e(1,2)] by metis
  show ?thesis
  proof (cases "n < HEADER_BYTES")
    case False
    then have "take HEADER_BYTES (take n im) = header" using h(3) by (simp add: min_def)
    then show ?thesis using False h(1,4,5,6,7) assms(2) by (simp add: tail_group_def Let_def e(3))
  qed (simp add: tail_group_def Let_def min_less_iff_disj e(3))
qed

subsection \<open>Scanning a segment\<close>

definition tail_step :: "(bytes \<Rightarrow> u32) \<Rightarrow> (bytes \<Rightarrow> bytes) \<Rightarrow> bytes \<Rightarrow> bytes \<Rightarrow> segment \<Rightarrow> segment \<Rightarrow> bool" where
  "tail_step crc sha database data s s' \<longleftrightarrow> length data < 2 ^ 64 \<and> unat (sg_committed s) < length data \<and>
     tail_group crc sha data database Strict s = Inr (Some s')"

abbreviation tail_steps :: "(bytes \<Rightarrow> u32) \<Rightarrow> (bytes \<Rightarrow> bytes) \<Rightarrow> bytes \<Rightarrow> bytes \<Rightarrow> segment \<Rightarrow> segment \<Rightarrow> bool" where
  "tail_steps crc sha database data \<equiv> (tail_step crc sha database data)\<^sup>*\<^sup>*"

text \<open>A group is accepted in both modes or in none.\<close>

lemma tail_group_mode: "tail_group crc sha data database recovery s = Inr (Some s') \<longleftrightarrow> tail_group crc sha data database Strict s = Inr (Some s')"
  by (simp add: tail_group_Some)

lemma tail_step_progress:
  assumes "tail_step crc sha database data s s'"
  shows "unat (sg_committed s) < unat (sg_committed s')" "unat (sg_committed s') \<le> length data"
    "sg_id s' = sg_id s" "sg_first s' = sg_first s" "sg_predecessor s' = sg_predecessor s"
  using assms tail_group_progress[of crc sha data database Strict s s'] by (auto simp: tail_step_def tail_group_Some)

lemma tail_steps_progress:
  assumes "tail_steps crc sha database data s e" "unat (sg_committed s) \<le> length data"
  shows "unat (sg_committed s) \<le> unat (sg_committed e)" "unat (sg_committed e) \<le> length data" "s = e \<or> unat (sg_committed s) < unat (sg_committed e)"
    "sg_id e = sg_id s" "sg_first e = sg_first s" "sg_predecessor e = sg_predecessor s"
  using assms by (induction rule: rtranclp_induct) (auto dest: tail_step_progress)

lemma tail_step_local:
  assumes "tail_step crc sha database data s s'" "take (unat (sg_committed s')) data' = take (unat (sg_committed s')) data"
    "unat (sg_committed s') \<le> length data'" "length data' < 2 ^ 64"
  shows "tail_step crc sha database data' s s'"
  using assms tail_group_local[of crc sha data database Strict s s' data'] tail_step_progress(1)[OF assms(1)] by (simp add: tail_step_def)

lemma tail_steps_local:
  assumes "tail_steps crc sha database data s e" "unat (sg_committed s) \<le> length data" "take (unat (sg_committed e)) data' = take (unat (sg_committed e)) data"
    "unat (sg_committed e) \<le> length data'" "length data' < 2 ^ 64"
  shows "tail_steps crc sha database data' s e"
  using assms
proof (induction rule: rtranclp_induct)
  case (step e e')
  note p = tail_step_progress[OF step(2)]
  have "take (unat (sg_committed e)) data' = take (unat (sg_committed e)) data" using take_same_prefix[OF step.prems(2)] p(1) by simp
  then have "tail_steps crc sha database data' s e" using step.IH step.prems p(1) by simp
  moreover have "tail_step crc sha database data' e e'" using tail_step_local[OF step(2)] step.prems by simp
  ultimately show ?case by (rule rtranclp.rtrancl_into_rtrancl)
qed simp

lemma scan_groups_steps:
  assumes "tail_steps crc sha database data s e" "unat (sg_committed s) \<le> length data"
  shows "scan_groups crc sha data database recovery s found = scan_groups crc sha data database recovery e (found \<or> s \<noteq> e)"
  using assms
proof (induction arbitrary: found rule: converse_rtranclp_induct)
  case (step s s')
  note p = tail_step_progress[OF step(1)]
  have ne: "s \<noteq> e" using p(1) tail_steps_progress(1)[OF step(2) p(2)] by auto
  have "tail_group crc sha data database recovery s = Inr (Some s')" using step(1) by (simp add: tail_step_def tail_group_mode[of _ _ _ _ recovery])
  then have "scan_groups crc sha data database recovery s found = scan_groups crc sha data database recovery s' True"
    using step(1) by (subst scan_groups.simps) (simp add: tail_step_def)
  then show ?case using step.IH[OF p(2), of True] ne by simp
qed simp

text \<open>The file of a segment that was \<open>s\<close> holds the groups up to \<open>e\<close> and then, if \<open>torn\<close>, something that is no complete group.\<close>

definition holds_groups :: "(bytes \<Rightarrow> u32) \<Rightarrow> (bytes \<Rightarrow> bytes) \<Rightarrow> bytes \<Rightarrow> segment \<Rightarrow> segment \<Rightarrow> bool \<Rightarrow> bytes \<Rightarrow> bool" where
  "holds_groups crc sha database s e torn data \<longleftrightarrow> length data < 2 ^ 64 \<and> block_ok crc database s data \<and> BLOCK_BYTES \<le> unat (sg_committed s) \<and>
     unat (sg_committed s) \<le> length data \<and> tail_steps crc sha database data s e \<and>
     (if torn then unat (sg_committed e) < length data \<and> (\<forall>recovery. tail_group crc sha data database recovery e = Inr None)
      else unat (sg_committed e) = length data)"

lemma scan_tail_holds:
  assumes "holds_groups crc sha database s e torn data"
  shows "scan_tail crc sha data database s recovery = Inr (if s = e then None else Some e, torn)"
proof -
  have h: "block_ok crc database s data" "unat (sg_committed s) \<le> length data" "tail_steps crc sha database data s e"
    using assms by (simp_all add: holds_groups_def)
  have "scan_groups crc sha data database recovery e found = Inr (if found then Some e else None, torn)" for found
    using assms by (subst scan_groups.simps) (auto simp: holds_groups_def split: if_splits)
  then have "scan_groups crc sha data database recovery s False = Inr (if s = e then None else Some e, torn)"
    using scan_groups_steps[OF h(3,2)] by simp
  then show ?thesis using h(1,2) by (simp add: scan_tail_def block_ok_def read_committed_def BLOCK_BYTES_def)
qed

lemma block_ok_grow: "block_ok crc database s base \<Longrightarrow> block_ok crc database s (base @ bs)"
  by (rule block_ok_prefix[of "length base" base]) (simp_all add: block_ok_def)

lemma holds_extended:
  assumes "holds_groups crc sha database s e False base" "extends crc sha database base e recs im e'"
  shows "holds_groups crc sha database s e' False (base @ im)"
proof -
  note t = tail_group_extends[OF assms(2)]
  have l: "length (base @ im) < 2 ^ 64" "unat (sg_committed e) = length base" using assms(2) by (simp_all add: extends_def)
  have h: "block_ok crc database s base" "BLOCK_BYTES \<le> unat (sg_committed s)" "unat (sg_committed s) \<le> length base" "tail_steps crc sha database base s e"
    using assms(1) by (simp_all add: holds_groups_def)
  have "tail_steps crc sha database (base @ im) s e" using tail_steps_local[OF h(4,3), of "base @ im"] l by simp
  moreover have "tail_step crc sha database (base @ im) e e'"
    using tail_group_progress[OF t(1)[of Strict] l(1)] t l by (simp add: tail_step_def)
  ultimately have "tail_steps crc sha database (base @ im) s e'" by (rule rtranclp.rtrancl_into_rtrancl)
  then show ?thesis using h l t(2) block_ok_grow[OF h(1)] by (simp add: holds_groups_def)
qed

lemma holds_torn:
  assumes "holds_groups crc sha database s e False base" "extends crc sha database base e recs im e'" "n < length im"
  shows "holds_groups crc sha database s e (0 < n) (base @ take n im)"
proof -
  have l: "length (base @ take n im) < 2 ^ 64" "unat (sg_committed e) = length base" using assms(2,3) by (simp_all add: extends_def)
  have h: "block_ok crc database s base" "BLOCK_BYTES \<le> unat (sg_committed s)" "unat (sg_committed s) \<le> length base" "tail_steps crc sha database base s e"
    using assms(1) by (simp_all add: holds_groups_def)
  have "tail_steps crc sha database (base @ take n im) s e" using tail_steps_local[OF h(4,3), of "base @ take n im"] l by simp
  then show ?thesis using h l block_ok_grow[OF h(1)] tail_group_torn[OF assms(2,3)] assms(3) by (auto simp: holds_groups_def)
qed

lemma holds_cut:
  assumes "holds_groups crc sha database s e torn data"
  shows "holds_groups crc sha database s e False (set_len (unat (sg_committed e)) data)"
proof -
  let ?d = "take (unat (sg_committed e)) data"
  have h: "length data < 2 ^ 64" "block_ok crc database s data" "BLOCK_BYTES \<le> unat (sg_committed s)" "unat (sg_committed s) \<le> length data"
    "tail_steps crc sha database data s e" using assms by (simp_all add: holds_groups_def)
  note p = tail_steps_progress[OF h(5,4)]
  have "set_len (unat (sg_committed e)) data = ?d" using p(2) by (simp add: set_len_def)
  moreover have "tail_steps crc sha database ?d s e" using tail_steps_local[OF h(5,4), of ?d] p h(1) by simp
  moreover have "block_ok crc database s ?d" by (rule block_ok_prefix[OF _ _ _ h(2), of "unat (sg_committed e)"]) (use p h in simp_all)
  ultimately show ?thesis using h p by (simp add: holds_groups_def)
qed

subsection \<open>Files beyond the selected segments\<close>

definition fresh :: "u64 \<Rightarrow> u64 \<Rightarrow> bytes \<Rightarrow> segment" where
  "fresh i first predecessor = \<lparr>sg_id = i, sg_first = first, sg_last = first - 1, sg_committed = of_nat BLOCK_BYTES,
     sg_predecessor = predecessor, sg_digest = predecessor\<rparr>"

lemma header_fields:
  assumes "validate_segment_header crc header database s = Inr ()"
  shows "u64_at header 40 = sg_first s" "array_at 32 header 48 = sg_predecessor s" "segment_crc_valid crc header"
  using assms by (auto simp: validate_segment_header_def rbind_eq_Inr split: if_splits)

lemma tail_segment_opens:
  assumes "validate_segment_header crc (take 96 data) database (fresh i first predecessor) = Inr ()" "first \<noteq> 0" "first \<noteq> - 1" "SEGMENT_BYTES \<le> length data"
  shows "tail_segment crc sha database recovery i data =
    (if length data < BLOCK_BYTES then Inr (None, None) else
     case read_padding (BLOCK_BYTES - SEGMENT_BYTES) (drop 96 data) of
       Inl e \<Rightarrow> if discards recovery e then Inr (None, Some 0) else Inl e
     | Inr _ \<Rightarrow> rbind (scan_tail crc sha data database (fresh i first predecessor) recovery) (\<lambda>(found, partial).
         Inr (case found of
             None \<Rightarrow> (None, if partial then Some BLOCK_BYTES else None)
           | Some f \<Rightarrow> (Some (f, partial), Some (unat (sg_committed f))))))"
proof -
  let ?s = "\<lparr>sg_id = i, sg_first = first, sg_last = first - 1, sg_committed = of_nat SEGMENT_BYTES, sg_predecessor = predecessor, sg_digest = predecessor\<rparr>"
  have "validate_segment_header crc (take 96 data) database ?s = Inr ()"
    using assms(1) same_header[of ?s "fresh i first predecessor" crc "take 96 data" database] by (simp add: fresh_def)
  then show ?thesis using assms header_fields[OF assms(1)] by (simp add: tail_segment_def fresh_def Let_def split: sum.split)
qed

lemma tail_segment_holds:
  assumes "holds_groups crc sha database (fresh i first predecessor) e torn data" "first \<noteq> 0" "first \<noteq> - 1"
  shows "tail_segment crc sha database recovery i data =
    Inr (if e = fresh i first predecessor then (None, if torn then Some BLOCK_BYTES else None) else (Some (e, torn), Some (unat (sg_committed e))))"
proof -
  have b: "block_ok crc database (fresh i first predecessor) data" using assms(1) by (simp add: holds_groups_def)
  then have "SEGMENT_BYTES \<le> length data" by (simp add: block_ok_def BLOCK_BYTES_def SEGMENT_BYTES_def)
  then show ?thesis
    using b by (subst tail_segment_opens[OF _ assms(2,3)]) (auto simp: block_ok_def scan_tail_holds[OF assms(1)])
qed

text \<open>A file that recovery skips: the start of one that was being created.\<close>

definition inert :: "(bytes \<Rightarrow> u32) \<Rightarrow> (bytes \<Rightarrow> bytes) \<Rightarrow> bytes \<Rightarrow> u64 \<Rightarrow> bytes \<Rightarrow> bool" where
  "inert crc sha database i data \<longleftrightarrow> length data < SEGMENT_BYTES \<or>
     (\<exists>first predecessor. first \<noteq> 0 \<and> first \<noteq> - 1 \<and> validate_segment_header crc (take 96 data) database (fresh i first predecessor) = Inr () \<and>
       (length data < BLOCK_BYTES \<or>
        (\<exists>torn. holds_groups crc sha database (fresh i first predecessor) (fresh i first predecessor) torn data)))"

lemma fresh_committed [simp]: "unat (sg_committed (fresh i first predecessor)) = BLOCK_BYTES"
  by (simp add: fresh_def BLOCK_BYTES_def)

lemma inert_skipped:
  assumes "inert crc sha database i data"
  shows "\<exists>len. tail_segment crc sha database recovery i data = Inr (None, len) \<and>
    inert crc sha database i (case len of None \<Rightarrow> data | Some n \<Rightarrow> set_len n data)"
proof (cases "length data < SEGMENT_BYTES")
  case True
  then show ?thesis using assms by (intro exI[of _ None]) (simp add: tail_segment_def)
next
  case False
  then obtain first predecessor where f: "first \<noteq> 0" "first \<noteq> - 1"
    "validate_segment_header crc (take 96 data) database (fresh i first predecessor) = Inr ()"
    "length data < BLOCK_BYTES \<or> (\<exists>torn. holds_groups crc sha database (fresh i first predecessor) (fresh i first predecessor) torn data)"
    using assms by (auto simp: inert_def)
  show ?thesis
  proof (cases "length data < BLOCK_BYTES")
    case True
    then show ?thesis using assms False tail_segment_opens[OF f(3,1,2)] by (intro exI[of _ None]) simp
  next
    case False
    let ?s = "fresh i first predecessor"
    obtain torn where h: "holds_groups crc sha database ?s ?s torn data" using f(4) False by auto
    have c: "holds_groups crc sha database ?s ?s False (set_len BLOCK_BYTES data)" using holds_cut[OF h] by simp
    then have "inert crc sha database i (set_len BLOCK_BYTES data)"
      using f(1,2) unfolding inert_def holds_groups_def block_ok_def by blast
    then show ?thesis using assms tail_segment_holds[OF h f(1,2)] by (cases torn) (simp_all add: exI[of _ None] exI[of _ "Some BLOCK_BYTES"])
  qed
qed

lemma inert_holds:
  assumes "holds_groups crc sha database (fresh i first predecessor) (fresh i first predecessor) torn data" "first \<noteq> 0" "first \<noteq> - 1"
  shows "inert crc sha database i data"
  using assms unfolding inert_def holds_groups_def block_ok_def by blast

subsection \<open>A new segment file\<close>

lemma segment_header_reads:
  assumes "length database = 16" "length (sg_predecessor s) = 32" "sg_committed s = of_nat BLOCK_BYTES"
  shows "length (segment_header crc database s) = BLOCK_BYTES" "block_ok crc database s (segment_header crc database s)"
proof -
  let ?f = "BLOPLG01 @ u16_le 1 @ u16_le 96 @ replicate 4 0 @ database @ u64_le (sg_id s) @ u64_le (sg_first s) @ sg_predecessor s @ replicate 12 0"
  let ?h = "?f @ u32_le (crc (?f @ replicate 4 0))"
  have d: "segment_header crc database s = ?h @ replicate (BLOCK_BYTES - 96) 0" by (simp add: segment_header_def Let_def)
  have n: "length ?f = 92" "length ?h = 96" using assms by simp_all
  show l: "length (segment_header crc database s) = BLOCK_BYTES" unfolding d using n(2) by (simp add: BLOCK_BYTES_def)
  have t: "take 92 ?h = ?f" "u32_at ?h 92 = crc (?f @ replicate 4 0)" using n(1) by (simp_all add: at_skip del: append_assoc)
  have "segment_crc_valid crc ?h" unfolding segment_crc_valid_def t by (simp add: numeral_eq_Suc)
  moreover have "u32_at ?h 12 = 0" by (simp add: at_skip u32_at_def u32_of_le_def numeral_eq_Suc)
  moreover have "take 8 ?h = BLOPLG01" "u16_at ?h 8 = 1" "u16_at ?h 10 = 96" "array_at 12 ?h 80 = replicate 12 0"
    "array_at 16 ?h 16 = database" "u64_at ?h 32 = sg_id s" "u64_at ?h 40 = sg_first s" "array_at 32 ?h 48 = sg_predecessor s"
    using assms by (simp_all add: at_skip)
  ultimately have "validate_segment_header crc ?h database s = Inr ()" by (simp add: validate_segment_header_def check_version_def)
  moreover have "take 96 (segment_header crc database s) = ?h" "drop 96 (segment_header crc database s) = replicate (BLOCK_BYTES - 96) 0"
    unfolding d using n(2) by simp_all
  ultimately show "block_ok crc database s (segment_header crc database s)"
    using l by (simp add: block_ok_def read_padding_Inr BLOCK_BYTES_def SEGMENT_BYTES_def)
qed

subsection \<open>Recovering the files\<close>

definition adopt_segment :: "segment \<Rightarrow> manifest \<Rightarrow> manifest" where
  "adopt_segment s m = m\<lparr>mf_durable_sequence := sg_last s, mf_durable_digest := sg_digest s, mf_next_segment_id := sg_id s + 1,
     mf_segments := mf_segments m @ [s]\<rparr>"

lemma adopt_database [simp]: "mf_database_id (adopt_segment s m) = mf_database_id m" "mf_database_id (fold adopt_segment ss m) = mf_database_id m"
  "mf_segments (fold adopt_segment ss m) = mf_segments m @ ss"
proof -
  show "mf_database_id (adopt_segment s m) = mf_database_id m" for s m by (simp add: adopt_segment_def)
  then show "mf_database_id (fold adopt_segment ss m) = mf_database_id m" by (induction ss arbitrary: m) simp_all
  show "mf_segments (fold adopt_segment ss m) = mf_segments m @ ss" by (induction ss arbitrary: m) (simp_all add: adopt_segment_def)
qed

abbreviation start_of :: "segment \<Rightarrow> segment" where
  "start_of s \<equiv> fresh (sg_id s) (sg_first s) (sg_predecessor s)"

text \<open>The file of a segment that recovery finds.\<close>

definition found_file :: "(bytes \<Rightarrow> u32) \<Rightarrow> (bytes \<Rightarrow> bytes) \<Rightarrow> bytes \<Rightarrow> bool \<Rightarrow> segment \<Rightarrow> logs \<Rightarrow> bool" where
  "found_file crc sha database torn s logs \<longleftrightarrow> s \<noteq> start_of s \<and> sg_first s \<noteq> 0 \<and> sg_first s \<noteq> - 1 \<and>
     (\<exists>data. logs (sg_id s) = Some data \<and> holds_groups crc sha database (start_of s) s torn data)"

definition continues :: "manifest \<Rightarrow> segment \<Rightarrow> bool" where
  "continues m s \<longleftrightarrow> sg_first s = mf_durable_sequence m + 1 \<and> sg_predecessor s = mf_durable_digest m"

text \<open>The segments \<open>ss\<close> continue the manifest, each in its file; only the last file may be torn.\<close>

fun found_files :: "(bytes \<Rightarrow> u32) \<Rightarrow> (bytes \<Rightarrow> bytes) \<Rightarrow> bool \<Rightarrow> logs \<Rightarrow> segment list \<Rightarrow> manifest \<Rightarrow> bool" where
  "found_files crc sha torn logs [] m \<longleftrightarrow> True"
| "found_files crc sha torn logs (s # ss) m \<longleftrightarrow> continues m s \<and> found_file crc sha (mf_database_id m) (ss = [] \<and> torn) s logs \<and>
     found_files crc sha torn logs ss (adopt_segment s m)"

lemma found_files_snoc:
  "found_files crc sha torn logs (ss @ [s]) m \<longleftrightarrow> found_files crc sha False logs ss m \<and> continues (fold adopt_segment ss m) s \<and>
   found_file crc sha (mf_database_id m) torn s logs"
  by (induction ss arbitrary: m) auto

definition all_inert :: "(bytes \<Rightarrow> u32) \<Rightarrow> (bytes \<Rightarrow> bytes) \<Rightarrow> bytes \<Rightarrow> logs \<Rightarrow> u64 set \<Rightarrow> bool" where
  "all_inert crc sha database logs I \<longleftrightarrow> (\<forall>i \<in> I. \<forall>data. logs i = Some data \<longrightarrow> inert crc sha database i data)"

text \<open>What recovery cuts: the length for each file it looks at.\<close>

definition cuts_of :: "(bytes \<Rightarrow> u32) \<Rightarrow> (bytes \<Rightarrow> bytes) \<Rightarrow> bytes \<Rightarrow> tail_recovery \<Rightarrow> logs \<Rightarrow> u64 list \<Rightarrow> cuts" where
  "cuts_of crc sha database recovery logs ids = concat (map (\<lambda>i. case logs i of
      None \<Rightarrow> []
    | Some data \<Rightarrow> (case tail_segment crc sha database recovery i data of Inl _ \<Rightarrow> [] | Inr (_, len) \<Rightarrow> cut_of i len)) ids)"

lemma recover_file_inert:
  assumes "logs i = Some data" "inert crc sha (mf_database_id m) i data"
  shows "recover_file crc sha logs recovery i (m, incomplete, cuts) = Inr (m, incomplete, cuts @ cuts_of crc sha (mf_database_id m) recovery logs [i])"
  using inert_skipped[OF assms(2), of recovery] assms(1) by (auto simp: recover_file_def cuts_of_def)

lemma recover_file_found:
  assumes "found_file crc sha (mf_database_id m) torn s logs" "continues m s"
  shows "recover_file crc sha logs recovery (sg_id s) (m, False, cuts) =
    Inr (adopt_segment s m, torn, cuts @ cuts_of crc sha (mf_database_id m) recovery logs [sg_id s])"
proof -
  obtain data where d: "logs (sg_id s) = Some data" "holds_groups crc sha (mf_database_id m) (start_of s) s torn data"
    "sg_first s \<noteq> 0" "sg_first s \<noteq> - 1" "s \<noteq> start_of s" using assms(1) by (auto simp: found_file_def)
  show ?thesis using tail_segment_holds[OF d(2-4)] d(1,5) assms(2) by (simp add: recover_file_def cuts_of_def adopt_segment_def continues_def)
qed

lemma recover_files_found:
  assumes "found_files crc sha torn logs ss m" "filter (\<lambda>i. i \<in> sg_id ` set ss) ids = map sg_id ss" "distinct ids" "\<forall>i \<in> set ids. logs i \<noteq> None"
    "all_inert crc sha (mf_database_id m) logs (set ids - sg_id ` set ss)" "incomplete \<Longrightarrow> ss = []"
  shows "recover_files crc sha logs recovery ids (m, incomplete, cuts) =
    Inr (fold adopt_segment ss m, if ss = [] then incomplete else torn, cuts @ cuts_of crc sha (mf_database_id m) recovery logs ids)"
  using assms
proof (induction ids arbitrary: ss m incomplete cuts)
  case Nil
  then show ?case by (simp add: recover_files_def cuts_of_def)
next
  case (Cons i ids)
  let ?c = "cuts @ cuts_of crc sha (mf_database_id m) recovery logs [i]"
  have split: "cuts @ cuts_of crc sha (mf_database_id m) recovery logs (i # ids) = ?c @ cuts_of crc sha (mf_database_id m) recovery logs ids"
    by (simp add: cuts_of_def)
  show ?case
  proof (cases "i \<in> sg_id ` set ss")
    case False
    obtain data where d: "logs i = Some data" using Cons.prems(4) by auto
    then have "recover_file crc sha logs recovery i (m, incomplete, cuts) = Inr (m, incomplete, ?c)"
      using Cons.prems(5) False by (intro recover_file_inert) (auto simp: all_inert_def)
    moreover have "all_inert crc sha (mf_database_id m) logs (set ids - sg_id ` set ss)" using Cons.prems(5) by (auto simp: all_inert_def)
    ultimately show ?thesis
      using Cons.IH[of ss m incomplete ?c] Cons.prems(1-4,6) False by (simp add: recover_files_def split)
  next
    case True
    then obtain s ss' where ss: "ss = s # ss'" "sg_id s = i" "filter (\<lambda>j. j \<in> sg_id ` set ss) ids = map sg_id ss'" using Cons.prems(2) by (cases ss) auto
    have "i \<notin> set ids" using Cons.prems(3) by simp
    then have "filter (\<lambda>j. j \<in> sg_id ` set ss') ids = map sg_id ss'" unfolding ss(3)[symmetric] using ss(1,2) by (intro filter_cong) auto
    moreover have "all_inert crc sha (mf_database_id m) logs (set ids - sg_id ` set ss')"
      using Cons.prems(5) \<open>i \<notin> set ids\<close> by (auto simp: all_inert_def ss)
    moreover have "\<not> incomplete" using Cons.prems(6) ss(1) by auto
    then have "recover_file crc sha logs recovery i (m, incomplete, cuts) = Inr (adopt_segment s m, ss' = [] \<and> torn, ?c)"
      using recover_file_found[of crc sha m "ss' = [] \<and> torn" s logs recovery cuts] Cons.prems(1) ss by auto
    ultimately show ?thesis
      using Cons.IH[of ss' "adopt_segment s m" "ss' = [] \<and> torn" ?c] Cons.prems(1,3,4) by (auto simp: recover_files_def ss(1) split)
  qed
qed

subsection \<open>Reading past the end of a prefix\<close>

text \<open>A reader of a prefix as a reader of a longer one, and the reader of what was added.\<close>

definition lengthen :: "bytes \<Rightarrow> u64 \<Rightarrow> bytes \<Rightarrow> reader \<Rightarrow> reader" where
  "lengthen bs l digest rs = rs\<lparr>rs_input := rs_input rs @ bs, rs_remaining := rs_remaining rs + length bs, rs_last := l, rs_last_digest := digest\<rparr>"

lemma lengthen_fields [simp]: "rs_group (lengthen bs l digest rs) = rs_group rs" "rs_sequence (lengthen bs l digest rs) = rs_sequence rs"
  "rs_predecessor (lengthen bs l digest rs) = rs_predecessor rs" "rs_input (lengthen bs l digest rs) = rs_input rs @ bs"
  "rs_last (lengthen bs l digest rs) = l"
  by (simp_all add: lengthen_def)

definition counted :: "reader \<Rightarrow> bool" where
  "counted rs \<longleftrightarrow> rs_remaining rs = length (rs_input rs)"

lemma read_committed_more: "read_committed n bs = Inr (x, rest) \<Longrightarrow> read_committed n (bs @ ms) = Inr (x, rest @ ms)"
  by (auto simp: read_committed_Inr)

lemma read_padding_more: "read_padding n bs = Inr rest \<Longrightarrow> read_padding n (bs @ ms) = Inr (rest @ ms)"
  by (auto simp: read_padding_Inr)

lemma read_canonical_more:
  "read_canonical crc sha input remaining sequence predecessor = Inr (r, rest) \<Longrightarrow>
   read_canonical crc sha (input @ ms) remaining sequence predecessor = Inr (r, rest @ ms)"
  by (auto simp: read_canonical_def Let_def rbind_eq_Inr read_committed_Inr split: if_splits)

lemma open_next_group_more:
  assumes "open_next_group crc rs = Inr rs'" "rs_last rs \<le> l" "counted rs"
  shows "open_next_group crc (lengthen bs l digest rs) = Inr (lengthen bs l digest rs')" "counted rs'" "rs_last rs' = rs_last rs"
    "rs_sequence rs' = rs_sequence rs" "rs_last_digest rs' = rs_last_digest rs"
proof -
  obtain hbs rest h physical where h: "GROUP_OVERHEAD \<le> rs_remaining rs" "read_committed HEADER_BYTES (rs_input rs) = Inr (hbs, rest)"
    "group_decode crc hbs = Inr h" "group_bytes (unat (gh_bytes h)) = Inr physical" "physical \<le> rs_remaining rs" "gh_first h = rs_sequence rs"
    "gh_predecessor h = rs_predecessor rs" "\<not> gh_first h + ucast (gh_count h) - 1 > rs_last rs"
    "rs' = rs\<lparr>rs_input := rest, rs_remaining := rs_remaining rs - HEADER_BYTES,
      rs_group := Some \<lparr>og_header = h, og_remaining = unat (gh_bytes h) - GROUP_OVERHEAD, og_records = unat (gh_count h), og_hashed = hbs\<rparr>\<rparr>"
    using assms(1) by (auto simp: open_next_group_def rbind_eq_Inr not_less split: if_splits)
  have "\<not> gh_first h + ucast (gh_count h) - 1 > l" using h(8) assms(2) by (simp add: not_less)
  moreover have "HEADER_BYTES \<le> rs_remaining rs" using h(1) by (simp add: GROUP_OVERHEAD_def HEADER_BYTES_def)
  ultimately show "open_next_group crc (lengthen bs l digest rs) = Inr (lengthen bs l digest rs')"
    using h(1,3-7,9) read_committed_more[OF h(2), of bs] by (simp add: open_next_group_def lengthen_def)
  show "counted rs'" "rs_last rs' = rs_last rs" "rs_sequence rs' = rs_sequence rs" "rs_last_digest rs' = rs_last_digest rs"
    using h(2,9) assms(3) by (auto simp: counted_def read_committed_Inr)
qed

lemma close_group_more:
  assumes "close_group crc sha g d rs = Inr rs'" "counted rs"
  shows "close_group crc sha g d (lengthen bs l digest rs) = Inr (lengthen bs l digest rs')" "counted rs'" "rs_last rs' = rs_last rs"
    "rs_sequence rs' = rs_sequence rs" "rs_predecessor rs' = rs_predecessor rs" "rs_last_digest rs' = rs_last_digest rs"
proof -
  obtain t rest physical rest' where c: "og_remaining g = 0" "d = gh_last_digest (og_header g)" "read_committed TRAILER_BYTES (rs_input rs) = Inr (t, rest)"
    "t = trailer crc (gh_bytes (og_header g)) (sha (og_hashed g))" "group_bytes (unat (gh_bytes (og_header g))) = Inr physical"
    "read_padding (physical - unat (gh_bytes (og_header g))) rest = Inr rest'"
    "rs' = rs\<lparr>rs_input := rest', rs_remaining := rs_remaining rs - TRAILER_BYTES - (physical - unat (gh_bytes (og_header g))), rs_group := None\<rparr>"
    using assms(1) by (auto simp: close_group_def rbind_eq_Inr Let_def split: if_splits)
  have l: "TRAILER_BYTES + (physical - unat (gh_bytes (og_header g))) \<le> rs_remaining rs" "rest' = drop (physical - unat (gh_bytes (og_header g))) (drop TRAILER_BYTES (rs_input rs))"
    using c(3,6) assms(2) by (auto simp: counted_def read_committed_Inr read_padding_Inr)
  then show "close_group crc sha g d (lengthen bs l digest rs) = Inr (lengthen bs l digest rs')"
    using c(1,2,4,5,7) read_committed_more[OF c(3), of bs] read_padding_more[OF c(6), of bs] by (simp add: close_group_def Let_def lengthen_def)
  show "counted rs'" "rs_last rs' = rs_last rs" "rs_sequence rs' = rs_sequence rs" "rs_predecessor rs' = rs_predecessor rs" "rs_last_digest rs' = rs_last_digest rs"
    using l c(7) assms(2) by (simp_all add: counted_def)
qed

lemma read_canonical_digest:
  assumes "read_canonical crc sha input remaining sequence predecessor = Inr (r, rest)"
  shows "length input = length (lr_bytes r) + length rest" "lr_sequence r = sequence"
  using assms by (auto simp: read_canonical_def Let_def rbind_eq_Inr read_committed_Inr split: if_splits)

lemma next_record_more:
  assumes n: "next_record crc sha rs = Inr (r, rs')" and l: "rs_last rs < l" "rs_sequence rs \<le> rs_last rs" "counted rs"
  shows "next_record crc sha (lengthen bs l digest rs) = Inr (r, lengthen bs l digest rs')" "counted rs'" "rs_last rs' = rs_last rs"
    "rs_sequence rs' = rs_sequence rs + 1" "rs_last_digest rs' = rs_last_digest rs"
    "rs_last rs < rs_sequence rs' \<longrightarrow> rs_remaining rs' = 0 \<and> rs_group rs' = None \<and> rs_predecessor rs' = rs_last_digest rs"
proof -
  obtain rs1 g where o: "(case rs_group rs of None \<Rightarrow> open_next_group crc rs | Some _ \<Rightarrow> Inr rs) = Inr rs1" "rs_group rs1 = Some g"
    and i: "in_group crc sha g rs1 = Inr (r, rs')"
    using n by (auto simp: next_record_def rbind_eq_Inr split: option.splits)
  have le: "rs_last rs \<le> l" using l(1) by simp
  have o1: "(case rs_group (lengthen bs l digest rs) of None \<Rightarrow> open_next_group crc (lengthen bs l digest rs) | Some _ \<Rightarrow> Inr (lengthen bs l digest rs)) =
      Inr (lengthen bs l digest rs1)" "counted rs1" "rs_last rs1 = rs_last rs" "rs_sequence rs1 = rs_sequence rs" "rs_last_digest rs1 = rs_last_digest rs"
    using o(1) l(3) open_next_group_more[of crc rs rs1, OF _ le l(3)] by (auto simp: lengthen_def split: option.splits)
  obtain r1 rest rs2 where c: "read_canonical crc sha (rs_input rs1) (og_remaining g) (rs_sequence rs1) (rs_predecessor rs1) = Inr (r1, rest)"
    and f: "finish_group crc sha r1 (advance_reader r1 rest g rs1) = Inr rs2" and e: "end_of_log r1 rs2 = Inr (r, rs')"
    using i by (auto simp: in_group_def rbind_eq_Inr)
  have r: "r1 = r" "rs2 = rs'" using e by (auto simp: end_of_log_def split: if_splits)
  let ?a = "advance_reader r1 rest g rs1"
  note d = read_canonical_digest[OF c]
  have a: "advance_reader r1 (rest @ bs) g (lengthen bs l digest rs1) = lengthen bs l digest ?a" "counted ?a"
    using d(1) o1(2) by (simp_all add: advance_reader_def lengthen_def counted_def)
  obtain g' where g: "rs_group ?a = Some g'" "rs_group (lengthen bs l digest ?a) = Some g'" by (simp add: advance_reader_def lengthen_def)
  have f1: "finish_group crc sha r1 (lengthen bs l digest ?a) = Inr (lengthen bs l digest rs')" "counted rs'" "rs_last rs' = rs_last ?a"
    "rs_sequence rs' = rs_sequence ?a" "rs_predecessor rs' = rs_predecessor ?a" "rs_last_digest rs' = rs_last_digest ?a"
    by (use f a(2) close_group_more[of crc sha g' "lr_digest r1" ?a rs'] in \<open>auto simp: finish_group_def g r(2) split: if_splits\<close>)
  show "counted rs'" by (rule f1(2))
  show s: "rs_last rs' = rs_last rs" "rs_sequence rs' = rs_sequence rs + 1" "rs_last_digest rs' = rs_last_digest rs"
    using f1 o1 by (simp_all add: advance_reader_def)
  have "rs_sequence rs + 1 \<le> l" using l(1,2) by (metis add.commute inc_le order_le_less_trans)
  then have "end_of_log r (lengthen bs l digest rs') = Inr (r, lengthen bs l digest rs')" using s(2) by (simp add: end_of_log_def lengthen_def not_less)
  then show "next_record crc sha (lengthen bs l digest rs) = Inr (r, lengthen bs l digest rs')"
    using o1(1) o(2) read_canonical_more[OF c, of bs] a(1) f1(1) r(1) by (simp add: next_record_def in_group_def)
  show "rs_last rs < rs_sequence rs' \<longrightarrow> rs_remaining rs' = 0 \<and> rs_group rs' = None \<and> rs_predecessor rs' = rs_last_digest rs"
    using e f1(5) s by (auto simp: end_of_log_def r advance_reader_def split: if_splits)
qed

text \<open>The records of a prefix, then those of the rest.\<close>

lemma read_records_more:
  assumes "read_records crc sha rs = Inr xs" "rs_last rs < l" "rs_sequence rs \<le> rs_last rs" "counted rs"
  shows "read_records crc sha (lengthen bs l digest rs) =
    rbind (read_records crc sha \<lparr>rs_input = bs, rs_remaining = length bs, rs_sequence = rs_last rs + 1, rs_predecessor = rs_last_digest rs,
      rs_last = l, rs_last_digest = digest, rs_group = None\<rparr>) (\<lambda>ys. Inr (xs @ ys))"
  using assms
proof (induction crc sha rs arbitrary: xs rule: read_records.induct)
  case (1 crc sha rs)
  obtain r rs' where n: "next_record crc sha rs = Inr (r, rs')" using "1.prems"(1) by (subst (asm) read_records.simps) (auto split: sum.splits)
  note m = next_record_more[OF n "1.prems"(2-4)]
  show ?case
  proof (cases "rs_sequence rs' > rs_last rs'")
    case True
    then have x: "xs = [r]" using "1.prems"(1) n by (subst (asm) read_records.simps) simp
    have e: "rs_remaining rs' = 0" "rs_group rs' = None" "rs_predecessor rs' = rs_last_digest rs" using m(6) True m(3) by simp_all
    have q: "rs_sequence rs' = rs_last rs + 1"
      using True m(3,4) "1.prems"(3) by (metis add.commute inc_le leD order_le_imp_less_or_eq)
    have "\<not> rs_sequence rs' > l" using q "1.prems"(2) by (metis add.commute inc_le leD)
    moreover have "lengthen bs l digest rs' = \<lparr>rs_input = bs, rs_remaining = length bs, rs_sequence = rs_last rs + 1, rs_predecessor = rs_last_digest rs,
        rs_last = l, rs_last_digest = digest, rs_group = None\<rparr>"
      using m(2) e q by (simp add: lengthen_def counted_def)
    ultimately show ?thesis using m(1) x by (subst read_records.simps) (simp add: q)
  next
    case False
    then obtain ys where y: "read_records crc sha rs' = Inr ys" "xs = r # ys"
      using "1.prems"(1) n by (subst (asm) read_records.simps) (auto simp: rbind_eq_Inr)
    have "read_records crc sha (lengthen bs l digest rs') = rbind (read_records crc sha \<lparr>rs_input = bs, rs_remaining = length bs,
        rs_sequence = rs_last rs' + 1, rs_predecessor = rs_last_digest rs', rs_last = l, rs_last_digest = digest, rs_group = None\<rparr>) (\<lambda>zs. Inr (ys @ zs))"
      by (rule "1.IH"[OF n refl False y(1)]) (use m(2,3) False "1.prems"(2) in auto)
    moreover have "\<not> rs_sequence rs' > l" using False m(3) "1.prems"(2) by auto
    ultimately show ?thesis using m(1,3,5) y(2) by (subst read_records.simps) (simp add: rbind_assoc)
  qed
qed

subsection \<open>The records of the log\<close>

definition segment_records :: "(bytes \<Rightarrow> u32) \<Rightarrow> (bytes \<Rightarrow> bytes) \<Rightarrow> bytes \<Rightarrow> logs \<Rightarrow> segment \<Rightarrow> storage_error + (u64 \<times> bytes) list" where
  "segment_records crc sha database logs s =
     (case logs (sg_id s) of
        None \<Rightarrow> Inl (Corrupt m_log_missing)
      | Some data \<Rightarrow> rbind (rbind (reader_new crc data database s) (read_records crc sha)) (\<lambda>rs. Inr (map (\<lambda>r. (lr_sequence r, lr_bytes r)) rs)))"

text \<open>All records of a manifest's segments, in order.\<close>

definition log_contents :: "(bytes \<Rightarrow> u32) \<Rightarrow> (bytes \<Rightarrow> bytes) \<Rightarrow> logs \<Rightarrow> manifest \<Rightarrow> storage_error + (u64 \<times> bytes) list" where
  "log_contents crc sha logs m = rbind (rmap (segment_records crc sha (mf_database_id m) logs) (mf_segments m)) (\<lambda>rs. Inr (concat rs))"

lemma reader_new_reads:
  "reader_new crc data database s = Inr rs \<longleftrightarrow> validate_descriptor s = Inr () \<and> block_ok crc database s data \<and> BLOCK_BYTES \<le> unat (sg_committed s) \<and>
     sg_first s \<le> sg_last s \<and>
     rs = \<lparr>rs_input = take (unat (sg_committed s) - BLOCK_BYTES) (drop BLOCK_BYTES data), rs_remaining = unat (sg_committed s) - BLOCK_BYTES,
       rs_sequence = sg_first s, rs_predecessor = sg_predecessor s, rs_last = sg_last s, rs_last_digest = sg_digest s, rs_group = None\<rparr>"
  unfolding reader_new_def reader_suffix_Inr by simp

text \<open>What is read depends on the committed bytes only.\<close>

lemma segment_records_local:
  assumes "segment_records crc sha database logs s = Inr xs" "logs (sg_id s) = Some data" "logs' (sg_id s) = Some data'"
    "take (unat (sg_committed s)) data' = take (unat (sg_committed s)) data" "unat (sg_committed s) \<le> length data'"
  shows "segment_records crc sha database logs' s = Inr xs"
proof -
  obtain rs ys where r: "reader_new crc data database s = Inr rs" "read_records crc sha rs = Inr ys" "xs = map (\<lambda>r. (lr_sequence r, lr_bytes r)) ys"
    using assms(1,2) by (auto simp: segment_records_def rbind_eq_Inr)
  have d: "block_ok crc database s data" "BLOCK_BYTES \<le> unat (sg_committed s)" using r(1) by (simp_all add: reader_new_reads)
  have "block_ok crc database s data'" by (rule block_ok_prefix[OF assms(4)[symmetric] d(2) _ d(1)]) (use d(2) assms(5) in simp)
  moreover have "take (unat (sg_committed s) - BLOCK_BYTES) (drop BLOCK_BYTES data') = take (unat (sg_committed s) - BLOCK_BYTES) (drop BLOCK_BYTES data)"
    using assms(4) d(2) by (simp add: take_drop)
  ultimately have "reader_new crc data' database s = Inr rs" using r(1) by (simp add: reader_new_reads)
  then show ?thesis using r(2,3) assms(3) by (simp add: segment_records_def)
qed

lemma extends_fields:
  assumes "extends crc sha database base e recs im e'"
  shows "sg_id e' = sg_id e" "sg_first e' = sg_first e" "sg_predecessor e' = sg_predecessor e" "sg_last e < sg_last e'" "sg_last e + 1 \<le> sg_last e'"
    "length (sg_digest e') = 32" "unat (sg_committed e') = length base + length im"
proof -
  have g: "is_group crc sha e recs im e'" "\<forall>bs. length (sha bs) = 32" using assms unfolding extends_def by blast+
  obtain h header physical where h: "gh_first h = sg_last e + 1" "e' = tail_candidate e h physical" "valid_group h" "sg_digest e' = sha (last recs)"
    using is_groupE[OF g] by metis
  show "sg_id e' = sg_id e" "sg_first e' = sg_first e" "sg_predecessor e' = sg_predecessor e" by (simp_all add: h(2))
  show "length (sg_digest e') = 32" using h(4) g(2) by simp
  show "unat (sg_committed e') = length base + length im" using tail_group_extends(2)[OF assms] by simp
  show n: "sg_last e + 1 \<le> sg_last e'" using group_last[OF h(3)] h(1) by (simp add: h(2) tail_candidate_def word_le_nat_alt)
  have "sg_last e + 1 \<noteq> 0" using h(1,3) by (simp add: valid_group_def)
  then have "unat (sg_last e + 1) = Suc (unat (sg_last e))" by (metis add.commute unatSuc)
  then have "sg_last e < sg_last e + 1" by (simp add: word_less_nat_alt)
  then show "sg_last e < sg_last e'" using n by simp
qed

lemma records_extended:
  assumes "extends crc sha database base e recs im e'" "logs (sg_id e) = Some base" "segment_records crc sha database logs e = Inr xs"
    "logs' (sg_id e) = Some (base @ im)"
  shows "segment_records crc sha database logs' e' = Inr (xs @ map (\<lambda>r. (lr_sequence r, lr_bytes r)) (records_of sha recs (sg_last e + 1)))"
proof -
  note f = extends_fields[OF assms(1)]
  have g: "is_group crc sha e recs im e'" "\<And>bs. length (sha bs) = 32" "length base = unat (sg_committed e)" "validate_descriptor e' = Inr ()"
    using assms(1) unfolding extends_def by blast+
  obtain rs ys where r: "reader_new crc base database e = Inr rs" "read_records crc sha rs = Inr ys" "xs = map (\<lambda>r. (lr_sequence r, lr_bytes r)) ys"
    using assms(2,3) by (auto simp: segment_records_def rbind_eq_Inr)
  have rs: "block_ok crc database e base" "BLOCK_BYTES \<le> length base" "sg_first e \<le> sg_last e"
    "rs = \<lparr>rs_input = drop BLOCK_BYTES base, rs_remaining = length base - BLOCK_BYTES,
       rs_sequence = sg_first e, rs_predecessor = sg_predecessor e, rs_last = sg_last e, rs_last_digest = sg_digest e, rs_group = None\<rparr>"
    using r(1) by (simp_all add: reader_new_reads flip: g(3))
  have "block_ok crc database e' (base @ im)" using block_ok_grow[OF rs(1), of im] by (simp add: block_ok_def same_header[OF f(1-3)])
  then have n: "reader_new crc (base @ im) database e' = Inr (lengthen im (sg_last e') (sg_digest e') rs)"
    using rs(2,3) f g(4) by (auto simp: reader_new_reads lengthen_def rs(4))
  have q: "suffix_reader e e' im = \<lparr>rs_input = im, rs_remaining = length im, rs_sequence = rs_last rs + 1, rs_predecessor = rs_last_digest rs,
      rs_last = sg_last e', rs_last_digest = sg_digest e', rs_group = None\<rparr>"
    by (simp add: suffix_reader_def rs(4))
  have "read_records crc sha (lengthen im (sg_last e') (sg_digest e') rs) = Inr (ys @ records_of sha recs (sg_last e + 1))"
    using read_records_more[OF r(2), of "sg_last e'" im "sg_digest e'"] image_reads[OF g(1,2)] f(4) rs(3) unfolding q[symmetric]
    by (simp add: rs(4) counted_def)
  then show ?thesis using n assms(4) r(3) by (simp add: segment_records_def f(1))
qed

lemma records_first:
  assumes "extends crc sha database base (fresh i first predecessor) recs im e'" "length base = BLOCK_BYTES" "logs i = Some (base @ im)"
  shows "segment_records crc sha database logs e' = Inr (map (\<lambda>r. (lr_sequence r, lr_bytes r)) (records_of sha recs first))"
proof -
  let ?e = "fresh i first predecessor"
  note f = extends_fields[OF assms(1)]
  have g: "is_group crc sha ?e recs im e'" "\<And>bs. length (sha bs) = 32" "validate_descriptor e' = Inr ()" "block_ok crc database ?e base"
    using assms(1) unfolding extends_def by blast+
  have "block_ok crc database e' (base @ im)" using block_ok_grow[OF g(4), of im] by (simp add: block_ok_def same_header[OF f(1-3)])
  then have "reader_new crc (base @ im) database e' = Inr (suffix_reader ?e e' im)"
    using f(2,3,5,7) g(3) assms(2) by (auto simp: reader_new_reads suffix_reader_def fresh_def)
  then show ?thesis using image_reads[OF g(1,2)] assms(3) f(1) by (simp add: segment_records_def fresh_def)
qed

end
