(* ===== verification/Spec2Isabelle.thy ===== *)
theory Spec2Isabelle
  imports Blop_Recordable Blop_Publish Blop_Log
begin

text \<open>
  A verification of blop-db, an embedded database whose transactions are programs of a small
  deterministic virtual machine. A transaction is a byte string: a program and its arguments.
  It is decoded, verified, interpreted against a snapshot of the versioned rows, and leaves an
  outcome record and a set of row versions; those go to a copy-on-write B+tree in a page file,
  after the transaction's log record has gone to the write-ahead log. This development models
  the virtual machine (\<^verbatim>\<open>src/vm\<close>), the versioned rows and the storage layer (\<^verbatim>\<open>src/storage\<close>).

  \<^bold>\<open>Parts.\<close> Each theory holds the definitions of one source file, in the order of the file, and
  the lemmas about them; names are those of the source where HOL allows it.

    \<^item> \<^verbatim>\<open>Blop_Base\<close>: the machine types, the error enumerations of \<^verbatim>\<open>src/storage/mod.rs\<close> and
      \<^verbatim>\<open>src/vm/mod.rs\<close>, results as sums with \<open>rbind\<close>, \<open>rmap\<close>, \<open>rfold\<close>, cursors over bytes, little-
      and big-endian integers, checked \<open>u64\<close> arithmetic, and the locale \<open>exact_codec\<close> of an
      encoder and a decoder that accepts exactly what the encoder writes.
    \<^item> \<^verbatim>\<open>Blop_Value\<close> (\<^verbatim>\<open>vm/value.rs\<close>), \<^verbatim>\<open>Blop_Key\<close> (\<^verbatim>\<open>storage/encoding.rs\<close>), \<^verbatim>\<open>Blop_Limits\<close>
      (\<^verbatim>\<open>limits.rs\<close>): types, values, their codecs and order; keys whose bytes compare like the
      values; the seventeen limits. \<^verbatim>\<open>Blop_Key\<close> has the locale \<open>sink\<close> of the two outputs that the
      one writer of the code serves.
    \<^item> \<^verbatim>\<open>Blop_Program\<close> and \<^verbatim>\<open>Blop_Verify\<close> (\<^verbatim>\<open>vm/program.rs\<close>): instructions, the reader of programs
      and the verifier, a forward dataflow analysis with one bit per register.
    \<^item> \<^verbatim>\<open>Blop_Ops\<close> (\<^verbatim>\<open>vm/operations.rs\<close>): operations on values.
    \<^item> \<^verbatim>\<open>Blop_Mvcc\<close> (\<^verbatim>\<open>storage/mvcc.rs\<close>) and \<^verbatim>\<open>Blop_Database\<close> (\<^verbatim>\<open>vm/database.rs\<close>): row versions under
      keys that descend in the sequence, snapshot reads and scans, the catalogue, policies, and
      reads through a transaction's own writes.
    \<^item> \<^verbatim>\<open>Blop_Runtime\<close>, \<^verbatim>\<open>Blop_Safety\<close> (\<^verbatim>\<open>vm/runtime.rs\<close>): the interpreter as a step function on a
      record of registers, overlay and usage; the invariant of its states.
    \<^item> \<^verbatim>\<open>Blop_Access\<close> (\<^verbatim>\<open>vm/access.rs\<close>), \<^verbatim>\<open>Blop_Analysis\<close> (\<^verbatim>\<open>vm/access_analysis.rs\<close>),
      \<^verbatim>\<open>Blop_Interpret\<close> (\<^verbatim>\<open>vm/mod.rs\<close>), \<^verbatim>\<open>Blop_Outcome\<close> and \<^verbatim>\<open>Blop_Recordable\<close> (\<^verbatim>\<open>vm/outcome.rs\<close>):
      declared scopes, their derivation by constant propagation, preparation and
      interpretation of bytes, outcome records.
    \<^item> \<^verbatim>\<open>Blop_Page\<close> (\<^verbatim>\<open>storage/page.rs\<close>), \<^verbatim>\<open>Blop_Tree\<close> and \<^verbatim>\<open>Blop_Edit\<close> (\<^verbatim>\<open>storage/tree.rs\<close>): pages
      with checksums, overflow chains, the append-only page file; lookups, scans, edits with
      splits and repairs, validation.
    \<^item> \<^verbatim>\<open>Blop_Metadata\<close> (\<^verbatim>\<open>storage/metadata.rs\<close>): genesis, segment descriptors, manifest and the
      pointer to the current manifest.
    \<^item> \<^verbatim>\<open>Blop_Store\<close> and \<^verbatim>\<open>Blop_Publish\<close> (\<^verbatim>\<open>storage/store.rs\<close>, \<^verbatim>\<open>storage/checkpoint.rs\<close>): the store of
      five trees, batches, views, publication, opening; the proofs of validation that a
      publication reuses. The locale \<open>atomic_operations\<close> states what an operation may do to an
      abstract content; \<open>store_ops\<close> interprets it on the store.
    \<^item> \<^verbatim>\<open>Blop_Wal\<close> and \<^verbatim>\<open>Blop_Log\<close> (\<^verbatim>\<open>storage/wal.rs\<close>, \<^verbatim>\<open>storage/store/wal.rs\<close>, the log checks of
      \<^verbatim>\<open>storage/metadata.rs\<close>): records, groups, segment files, the reader of a committed prefix,
      append and recovery.

  \<^bold>\<open>What is shown.\<close> For the virtual machine: decoding never panics on any bytes; a decoded program
  has a solution of the initialisation analysis; a run of a verified program never panics, ends
  within its claims and returns values of the declared types; its outcome depends on a view
  only through the declared reads, its effects lie within the declared writes, and what it
  returns can be recorded and decoded again. For the formats: the decoders of types, values,
  catalogue versions, access manifests, outcomes, genesis, manifests, current pointers and group
  headers accept exactly what the encoders write. For the storage: keys order as values do,
  snapshot reads and scans agree with the list of versions, tree edits refine map updates and
  keep old roots readable, a store refines five maps with published and pinned copies, its
  published checkpoint is always valid, and recovery of the log finds the complete groups and
  nothing of an incomplete one.

  \<^bold>\<open>How the code is rendered.\<close> Machine integers keep their width where they can wrap or are
  compared after arithmetic (\<open>u64\<close>, \<open>u32\<close>, \<open>u16\<close>, \<open>byte\<close> are words); lengths and offsets in
  memory are natural numbers. An \<open>Err\<close> is \<open>Inl\<close> of the code's error; \<open>Panic\<close> and \<open>SPanic\<close> are
  values of the error types that stand for \<^verbatim>\<open>unwrap\<close>, \<^verbatim>\<open>expect\<close>, \<^verbatim>\<open>unreachable!\<close>, out-of-range
  indices and checked arithmetic, so the absence of panics is a theorem. Mutation is explicit
  passing of records. Nothing uses fuel; every loop is a total function: instructions only
  branch forward and \<open>run_from\<close> moves towards the end of the program; descents of a tree lose
  one level per step whatever the file holds; a scan decreases a multiset of levels; the reader
  of a log consumes its input; \<open>scan_groups\<close>, \<open>allocate\<close> and \<open>next_generation\<close> come closer to the
  end of a file or of the \<open>u64\<close> range; decoders of nested types consume bytes or depth.

  \<^bold>\<open>Bounds.\<close> The limits are the constants of the source: 16,384 bytes per page, of which a leaf cell
  takes at most 3,110 and an inner cell at most 2,082, so that a split always finds a boundary
  that leaves both parts within their bounds, 4,096 bytes per log block, 64 records per group, and the seventeen ceilings of \<^verbatim>\<open>Blop_Limits\<close>.

  \<^bold>\<open>Parameters.\<close> The crates \<^verbatim>\<open>crc32c\<close> and \<^verbatim>\<open>sha2\<close> are functions \<open>crc\<close> and \<open>sha\<close>; the theorems hold
  for every checksum and digest function, with a length of 32 bytes for the digest where it
  matters. The tree below the versioned rows is a record of its three operations in the
  theories of the virtual machine; \<^verbatim>\<open>Blop_Publish\<close> connects them to the store. The directory
  (\<open>directory_io\<close>, \<open>directory\<close>) carries what the platform answers: files, locks, flushes and
  their failures. Log files are a map from segment IDs to bytes.

  \<^bold>\<open>Not modelled.\<close> The cache of decoded nodes (\<^verbatim>\<open>storage/page/cache.rs\<close>) and the proofs that
  spare the engine repeated checks of unchanged log files (\<^verbatim>\<open>storage/log_validation.rs\<close>), which do
  not change results; collection, compaction and copies of files (\<^verbatim>\<open>storage/maintenance.rs\<close>,
  except the allocation of file IDs, \<^verbatim>\<open>storage/backup.rs\<close>) and platform calls; the threads,
  queues and admission control of \<^verbatim>\<open>src/database\<close> and the replication built on it; estimates of
  host memory (\<^verbatim>\<open>vm/resources.rs\<close>), walks over stored history (\<^verbatim>\<open>vm/history.rs\<close>), the conversions
  of host values (\<^verbatim>\<open>bind.rs\<close>), and the procedural macro that compiles programs, whose output the
  decoder checks.
\<close>

end
